(* ===== verification/Prelude.thy ===== *)
theory Prelude
  imports Main "HOL-Library.Word"
begin

unbundle bit_operations_syntax

text \<open>
  What every theory of the development shares.

  Addresses and sizes are natural numbers below \<open>2 ^ 64\<close> (a 64-bit target: \<open>usize\<close> and
  raw pointers). The bit tricks of the source (\<open>x & !(2^k - 1)\<close>, \<open>leading_zeros\<close>,
  \<open>trailing_zeros\<close>, \<open>next_power_of_two\<close>) are defined here once, as the Rust standard
  library documents them on \<open>usize\<close>, with the facts that turn them into \<open>div\<close> and \<open>mod\<close>.
\<close>

type_synonym addr = nat
type_synonym usize = nat

named_theorems layout_simps \<open>numeric constants of the memory layout\<close>

section \<open>Integer operations of the standard library\<close>

text \<open>\<open>bit_len n\<close> is \<open>usize::BITS - n.leading_zeros()\<close>.\<close>

fun bit_len :: "nat \<Rightarrow> nat" where
  "bit_len n = (if n = 0 then 0 else Suc (bit_len (n div 2)))"

declare bit_len.simps [simp del]

definition leading_zeros :: "usize \<Rightarrow> nat" where
  "leading_zeros n = 64 - bit_len n"

fun trailing_zeros :: "usize \<Rightarrow> nat" where
  "trailing_zeros n = (if n = 0 then 64 else if odd n then 0 else Suc (trailing_zeros (n div 2)))"

declare trailing_zeros.simps [simp del]

definition is_power_of_two :: "usize \<Rightarrow> bool" where
  "is_power_of_two n \<longleftrightarrow> n \<noteq> 0 \<and> 2 ^ (bit_len n - 1) = n"

definition next_power_of_two :: "usize \<Rightarrow> usize" where
  "next_power_of_two n = (if n \<le> 1 then 1 else 2 ^ bit_len (n - 1))"

text \<open>\<open>a & !b\<close> on \<open>usize\<close>.\<close>

definition and_not :: "usize \<Rightarrow> usize \<Rightarrow> usize" where
  "and_not a b = unat ((word_of_nat a :: 64 word) AND NOT (word_of_nat b))"

lemma bit_len_0 [simp]: "bit_len 0 = 0"
  by (simp add: bit_len.simps)

lemma bit_len_pos: "0 < n \<Longrightarrow> bit_len n = Suc (bit_len (n div 2))"
  by (simp add: bit_len.simps)

lemma bit_len_upper: "n < 2 ^ bit_len n"
proof (induction n rule: bit_len.induct)
  case (1 n)
  show ?case
  proof (cases "n = 0")
    case False
    with "1.IH" have "n div 2 < 2 ^ bit_len (n div 2)" by simp
    then have "n < 2 * 2 ^ bit_len (n div 2)" by linarith
    with False show ?thesis by (simp add: bit_len_pos)
  qed simp
qed

lemma bit_len_lower: "0 < n \<Longrightarrow> 2 ^ (bit_len n - 1) \<le> n"
proof (induction n rule: bit_len.induct)
  case (1 n)
  show ?case
  proof (cases "n div 2 = 0")
    case True
    with "1.prems" show ?thesis by (simp add: bit_len_pos)
  next
    case False
    with "1.IH" "1.prems" have IH: "2 ^ (bit_len (n div 2) - 1) \<le> n div 2" by simp
    from False have "0 < bit_len (n div 2)" by (simp add: bit_len_pos)
    then have "(2::nat) ^ bit_len (n div 2) = 2 * 2 ^ (bit_len (n div 2) - 1)"
      by (cases "bit_len (n div 2)") simp_all
    with IH have "2 ^ bit_len (n div 2) \<le> n" by linarith
    with "1.prems" show ?thesis by (simp add: bit_len_pos)
  qed
qed

lemma bit_len_eqI:
  assumes "2 ^ k \<le> n" and "n < 2 ^ Suc k"
  shows "bit_len n = Suc k"
proof -
  have "(0::nat) < 2 ^ k" by simp
  with assms(1) have "0 < n" by (rule order_less_le_trans [rotated])
  from bit_len_lower [OF this] assms(2) have "2 ^ (bit_len n - 1) < (2::nat) ^ Suc k"
    by (rule order_le_less_trans)
  then have "bit_len n - 1 < Suc k" by (rule power_less_imp_less_exp [rotated]) simp
  moreover from assms(1) bit_len_upper have "(2::nat) ^ k < 2 ^ bit_len n"
    by (rule order_le_less_trans)
  then have "k < bit_len n" by (rule power_less_imp_less_exp [rotated]) simp
  ultimately show ?thesis by simp
qed

lemma bit_len_pow2 [simp]: "bit_len (2 ^ k) = Suc k"
  by (rule bit_len_eqI) simp_all

lemma is_power_of_two_pow2 [simp]: "is_power_of_two (2 ^ k)"
  by (simp add: is_power_of_two_def)

lemma is_power_of_twoE:
  assumes "is_power_of_two n"
  obtains k where "n = 2 ^ k"
proof (rule that)
  show "n = 2 ^ (bit_len n - 1)" using assms by (simp add: is_power_of_two_def)
qed

lemma next_power_of_two_ge: "n \<le> next_power_of_two n"
  using bit_len_upper [of "n - 1"] by (auto simp: next_power_of_two_def)

lemma next_power_of_two_pow2 [simp]: "next_power_of_two (2 ^ k) = 2 ^ k"
proof (cases k)
  case (Suc j)
  have ge: "(1::nat) \<le> 2 ^ j" by simp
  then have "(2::nat) ^ j \<le> 2 ^ Suc j - 1" and n1: "\<not> (2::nat) ^ Suc j \<le> 1"
    unfolding power_Suc by linarith+
  then have "bit_len (2 ^ Suc j - 1) = Suc j" by (intro bit_len_eqI) simp_all
  with Suc n1 show ?thesis by (simp add: next_power_of_two_def)
qed (simp add: next_power_of_two_def)

lemma next_power_of_two_pos [simp]: "0 < next_power_of_two n"
  by (simp add: next_power_of_two_def)

lemma next_power_of_twoE:
  obtains k where "next_power_of_two n = 2 ^ k"
proof (cases "n \<le> 1")
  case True
  then have "next_power_of_two n = 2 ^ 0" by (simp add: next_power_of_two_def)
  then show ?thesis by (rule that)
next
  case False
  then have "next_power_of_two n = 2 ^ bit_len (n - 1)" by (simp add: next_power_of_two_def)
  then show ?thesis by (rule that)
qed

lemma trailing_zeros_pow2 [simp]: "trailing_zeros (2 ^ k) = k"
  by (induction k) (simp_all add: trailing_zeros.simps)

lemma word_and_not_mask: "(w :: 'a::len word) AND NOT (mask k) = push_bit k (drop_bit k w)"
  by (rule bit_eqI) (auto simp: bit_simps)

lemma and_not_pow2:
  assumes "a < 2 ^ 64"
  shows "and_not a (2 ^ k - 1) = a div 2 ^ k * 2 ^ k"
proof -
  have m: "(word_of_nat (2 ^ k - 1) :: 64 word) = mask k"
    by (simp add: mask_eq_decr_exp of_nat_diff)
  have "a div 2 ^ k * 2 ^ k \<le> a" by (simp add: div_times_less_eq_dividend)
  with assms have "a div 2 ^ k * 2 ^ k < 2 ^ 64" by linarith
  then have "take_bit 64 (a div 2 ^ k * 2 ^ k) = a div 2 ^ k * 2 ^ k"
    by (simp add: take_bit_nat_eq_self)
  moreover have "and_not a (2 ^ k - 1) = take_bit 64 (push_bit k (drop_bit k (take_bit 64 a)))"
    unfolding and_not_def m word_and_not_mask unsigned_push_bit_eq unsigned_drop_bit_eq
      unsigned_of_nat by simp
  ultimately show ?thesis
    using assms by (simp only: take_bit_nat_eq_self push_bit_eq_mult drop_bit_eq_div)
qed

section \<open>Lists\<close>

lemma ball_set_update: "\<forall>x\<in>set xs. P x \<Longrightarrow> P y \<Longrightarrow> \<forall>x\<in>set (xs[i := y]). P x"
  using set_update_subset_insert [of xs i y] by blast

text \<open>Byte ranges \<open>[p, p + n)\<close>.\<close>

definition range_of :: "addr \<Rightarrow> nat \<Rightarrow> addr set" where
  "range_of p n = {p ..< p + n}"

definition disjoint_ranges :: "addr \<Rightarrow> nat \<Rightarrow> addr \<Rightarrow> nat \<Rightarrow> bool" where
  "disjoint_ranges p n q m \<longleftrightarrow> p + n \<le> q \<or> q + m \<le> p"

lemma disjoint_ranges_sym: "disjoint_ranges p n q m = disjoint_ranges q m p n"
  by (auto simp: disjoint_ranges_def)

lemma disjoint_ranges_range_of:
  "disjoint_ranges p n q m \<Longrightarrow> range_of p n \<inter> range_of q m = {}"
  by (auto simp: disjoint_ranges_def range_of_def)

end
