(* ===== verification/Sizes.thy ===== *)
theory Sizes
  imports Prelude
begin

text \<open>
  Size classes (\<open>src/sizes/common.rs\<close>, \<open>large.rs\<close>, \<open>size_class.rs\<close>): common objects in
  multiples of 8 bytes, large objects in slots of "quadruple precision" that share a vector
  when a 512 KB chunk holds equally many of them, and everything above 100 KB.
  The constant tables are the source's literals; the loops that generate them are modelled
  too and the tables are proved against them.
\<close>

section \<open>Common sizes\<close>

definition COMMON_CHUNK_SIZE :: usize where [layout_simps]: "COMMON_CHUNK_SIZE = 64 * 1024"
definition COMMON_SIZE_MAX :: usize where [layout_simps]: "COMMON_SIZE_MAX = 1024"
definition COMMON_SIZE_TABLE_LEN :: usize where
  [layout_simps]: "COMMON_SIZE_TABLE_LEN = COMMON_SIZE_MAX div 8"

text \<open>\<open>size: u16\<close>: the subtraction is on 16 bits and wraps (release profile).\<close>

definition common_size_to_index :: "16 word \<Rightarrow> usize" where
  "common_size_to_index sz = unat (drop_bit 3 (sz - 1))"

text \<open>The callers' \<open>common_size_to_index(size as u16)\<close>.\<close>

abbreviation common_index_of :: "usize \<Rightarrow> usize" where
  "common_index_of sz \<equiv> common_size_to_index (word_of_nat sz)"

section \<open>Large sizes\<close>

definition find_large_slot_id :: "usize \<Rightarrow> usize" where
  "find_large_slot_id sz0 =
     (let sz = sz0 - 1;
          b = 64 - 1 - leading_zeros sz
      in push_bit 4 b + (drop_bit (b - 4) sz AND 15))"

definition LARGE_CHUNK_SIZE :: usize where [layout_simps]: "LARGE_CHUNK_SIZE = 512 * 1024"
definition COMMON_CHUNKS_IN_LARGE_CHUNK :: usize where
  [layout_simps]: "COMMON_CHUNKS_IN_LARGE_CHUNK = LARGE_CHUNK_SIZE div COMMON_CHUNK_SIZE"

text \<open>\<open>array::from_fn(|_| \<dots>)\<close> with a cursor that advances by \<open>step\<close> bytes.\<close>

fun from_fn_chunks :: "nat \<Rightarrow> usize \<Rightarrow> addr \<Rightarrow> addr list" where
  "from_fn_chunks 0 step cur = []"
| "from_fn_chunks (Suc n) step cur = cur # from_fn_chunks n step (cur + step)"

definition split_large_chunk_to_common :: "addr \<Rightarrow> addr list" where
  "split_large_chunk_to_common ptr =
     from_fn_chunks COMMON_CHUNKS_IN_LARGE_CHUNK COMMON_CHUNK_SIZE ptr"

text \<open>The loop of \<open>generate_blocks\<close>; \<open>acc\<close> is \<open>arr[..arr_len]\<close>.\<close>

function generate_blocks_loop :: "usize \<Rightarrow> usize \<Rightarrow> (usize \<times> usize) list \<Rightarrow> (usize \<times> usize) list" where
  "generate_blocks_loop sz prev_id acc =
     (if sz \<ge> LARGE_CHUNK_SIZE + 1 then acc
      else let slot_id = find_large_slot_id sz in
        if slot_id = prev_id then generate_blocks_loop (sz + 1) prev_id acc
        else generate_blocks_loop (sz + 1) slot_id
          (if prev_id \<noteq> find_large_slot_id COMMON_SIZE_MAX
           then acc @ [(sz - 1, slot_id - 1)] else acc))"
  by pat_completeness auto
termination
  by (relation "measure (\<lambda>(sz, _, _). LARGE_CHUNK_SIZE + 1 - sz)") auto

declare generate_blocks_loop.simps [simp del]

definition generate_blocks :: "(usize \<times> usize) list" where
  "generate_blocks = generate_blocks_loop COMMON_SIZE_MAX (find_large_slot_id COMMON_SIZE_MAX) []"

definition GENERATED_SIZES_AND_INDEXES :: "(usize \<times> usize) list" where
  "GENERATED_SIZES_AND_INDEXES = [
    (1088, 160), (1152, 161), (1216, 162), (1280, 163), (1344, 164), (1408, 165),
    (1472, 166), (1536, 167), (1600, 168), (1664, 169), (1728, 170), (1792, 171),
    (1856, 172), (1920, 173), (1984, 174), (2048, 175), (2176, 176), (2304, 177),
    (2432, 178), (2560, 179), (2688, 180), (2816, 181), (2944, 182), (3072, 183),
    (3200, 184), (3328, 185), (3456, 186), (3584, 187), (3712, 188), (3840, 189),
    (3968, 190), (4096, 191), (4352, 192), (4608, 193), (4864, 194), (5120, 195),
    (5376, 196), (5632, 197), (5888, 198), (6144, 199), (6400, 200), (6656, 201),
    (6912, 202), (7168, 203), (7424, 204), (7680, 205), (7936, 206), (8192, 207),
    (8704, 208), (9216, 209), (9728, 210), (10240, 211), (10752, 212), (11264, 213),
    (11776, 214), (12288, 215), (12800, 216), (13312, 217), (13824, 218), (14336, 219),
    (14848, 220), (15360, 221), (15872, 222), (16384, 223), (17408, 224), (18432, 225),
    (19456, 226), (20480, 227), (21504, 228), (22528, 229), (23552, 230), (24576, 231),
    (25600, 232), (26624, 233), (27648, 234), (28672, 235), (29696, 236), (30720, 237),
    (31744, 238), (32768, 239), (34816, 240), (36864, 241), (38912, 242), (40960, 243),
    (43008, 244), (45056, 245), (47104, 246), (49152, 247), (51200, 248), (53248, 249),
    (55296, 250), (57344, 251), (59392, 252), (61440, 253), (63488, 254), (65536, 255),
    (69632, 256), (73728, 257), (77824, 258), (81920, 259), (86016, 260), (90112, 261),
    (94208, 262), (98304, 263), (102400, 264), (106496, 265), (110592, 266), (114688, 267),
    (118784, 268), (122880, 269), (126976, 270), (131072, 271), (139264, 272),
    (147456, 273), (155648, 274), (163840, 275), (172032, 276), (180224, 277),
    (188416, 278), (196608, 279), (204800, 280), (212992, 281), (221184, 282),
    (229376, 283), (237568, 284), (245760, 285), (253952, 286), (262144, 287),
    (278528, 288), (294912, 289), (311296, 290), (327680, 291), (344064, 292),
    (360448, 293), (376832, 294), (393216, 295), (409600, 296), (425984, 297),
    (442368, 298), (458752, 299), (475136, 300), (491520, 301), (507904, 302)]"

definition FIRST_ID :: usize where "FIRST_ID = snd (GENERATED_SIZES_AND_INDEXES ! 0)"
definition LAST_ID :: usize where "LAST_ID = snd (GENERATED_SIZES_AND_INDEXES ! (143 - 1))"
definition REAL_NUMBER_OF_LARGE_OBJECT_VECTORS :: usize where
  [layout_simps]: "REAL_NUMBER_OF_LARGE_OBJECT_VECTORS = 88"
definition LARGE_SIZE_MAX :: usize where [layout_simps]: "LARGE_SIZE_MAX = 100 * 1024"
definition REAL_LARGE_SIZES_LEN :: usize where "REAL_LARGE_SIZES_LEN = 265"

text \<open>
  \<open>generate_real_large_sizes_and_lookup_table\<close>: the inner loop writes \<open>winner\<close> for the
  finished group, at \<open>j + FIRST_ID - 1\<close>; \<open>None\<close> is the panic of an index out of range.
\<close>

fun write_winner :: "usize list \<Rightarrow> usize \<Rightarrow> nat list \<Rightarrow> usize list option" where
  "write_winner sizes winner [] = Some sizes"
| "write_winner sizes winner (j # js) =
     (if j + FIRST_ID - 1 < length sizes
      then write_winner (sizes[j + FIRST_ID - 1 := winner]) winner js else None)"

function generate_real_loop ::
  "usize list \<Rightarrow> usize list \<Rightarrow> nat \<Rightarrow> nat \<Rightarrow> nat \<Rightarrow> nat \<Rightarrow> (usize list \<times> usize list) option" where
  "generate_real_loop sizes lookup i real_idx group_start prev_blocks =
     (if i \<ge> length GENERATED_SIZES_AND_INDEXES then None
      else let sz = fst (GENERATED_SIZES_AND_INDEXES ! i) in
        if sz > LARGE_SIZE_MAX then
          (case write_winner sizes (fst (GENERATED_SIZES_AND_INDEXES ! (i - 1))) [group_start..<i] of
             None \<Rightarrow> None
           | Some sizes' \<Rightarrow> Some (sizes', lookup))
        else let blocks = LARGE_CHUNK_SIZE div sz in
          if blocks \<noteq> prev_blocks then
            (case write_winner sizes (fst (GENERATED_SIZES_AND_INDEXES ! (i - 1))) [group_start..<i] of
               None \<Rightarrow> None
             | Some sizes' \<Rightarrow>
                 if i + FIRST_ID - 1 < length lookup
                 then generate_real_loop sizes' (lookup[i + FIRST_ID - 1 := real_idx + 1])
                        (i + 1) (real_idx + 1) i blocks
                 else None)
          else
            if i + FIRST_ID - 1 < length lookup
            then generate_real_loop sizes (lookup[i + FIRST_ID - 1 := real_idx])
                   (i + 1) real_idx group_start prev_blocks
            else None)"
  by pat_completeness auto
termination
  by (relation "measure (\<lambda>(_, _, i, _, _, _). length GENERATED_SIZES_AND_INDEXES - i)") auto

declare generate_real_loop.simps [simp del]

definition generate_real_large_sizes_and_lookup_table :: "(usize list \<times> usize list) option" where
  "generate_real_large_sizes_and_lookup_table =
     generate_real_loop (replicate REAL_LARGE_SIZES_LEN 0) (replicate REAL_LARGE_SIZES_LEN 0) 0 0 0
       (LARGE_CHUNK_SIZE div fst (GENERATED_SIZES_AND_INDEXES ! 0))"

definition LARGE_SIZES_FOR_ID :: "usize list" where
  "LARGE_SIZES_FOR_ID = replicate 160 0 @ [
    1088, 1152, 1216, 1280, 1344, 1408, 1472, 1536, 1600, 1664, 1728, 1792, 1856, 1920,
    1984, 2048, 2176, 2304, 2432, 2560, 2688, 2816, 2944, 3072, 3200, 3328, 3456, 3584,
    3712, 3840, 3968, 4096, 4352, 4608, 4864, 5120, 5376, 5632, 5888, 6144, 6400, 6656,
    6912, 7168, 7424, 7680, 7936, 8192, 8704, 9216, 9728, 10240, 10752, 11264, 11776, 12288,
    12800, 13312, 13824, 14336, 14848, 15360, 15872, 16384, 17408, 18432, 19456, 20480,
    21504, 22528, 23552, 24576, 25600, 26624, 28672, 28672, 30720, 30720, 32768, 32768,
    34816, 36864, 38912, 43008, 43008, 47104, 47104, 51200, 51200, 57344, 57344, 57344,
    65536, 65536, 65536, 65536, 73728, 73728, 86016, 86016, 86016, 102400, 102400, 102400,
    102400]"

definition LOOKUP_TABLE :: "usize list" where
  "LOOKUP_TABLE = replicate 160 0 @ [
    0, 1, 2, 3, 4, 5, 6, 7, 8, 9, 10, 11, 12, 13, 14, 15, 16, 17, 18, 19, 20, 21, 22, 23,
    24, 25, 26, 27, 28, 29, 30, 31, 32, 33, 34, 35, 36, 37, 38, 39, 40, 41, 42, 43, 44, 45,
    46, 47, 48, 49, 50, 51, 52, 53, 54, 55, 56, 57, 58, 59, 60, 61, 62, 63, 64, 65, 66, 67,
    68, 69, 70, 71, 72, 73, 74, 74, 75, 75, 76, 76, 77, 78, 79, 80, 80, 81, 81, 82, 82, 83,
    83, 83, 84, 84, 84, 84, 85, 85, 86, 86, 86, 87, 87, 87, 87]"

text \<open>The constant \<open>REAL_LARGE_SIZES\<close>: each new size of \<open>LARGE_SIZES_FOR_ID\<close> once.\<close>

fun real_large_sizes_loop :: "usize list \<Rightarrow> usize \<Rightarrow> usize list" where
  "real_large_sizes_loop [] prev = []"
| "real_large_sizes_loop (cur # rest) prev =
     (if cur \<noteq> prev then cur # real_large_sizes_loop rest cur
      else real_large_sizes_loop rest prev)"

definition REAL_LARGE_SIZES :: "usize list" where
  "REAL_LARGE_SIZES = real_large_sizes_loop LARGE_SIZES_FOR_ID 0"

text \<open>\<open>LargeObjectTable::get_idx_by_id\<close>.\<close>

definition get_idx_by_id :: "usize \<Rightarrow> usize" where
  "get_idx_by_id slot_id = LOOKUP_TABLE ! slot_id"

text \<open>The constant \<open>TABLE\<close> of the powers of two between the two limits.\<close>

function power_table_from :: "usize \<Rightarrow> usize list" where
  "power_table_from num =
     (if num = 0 \<or> num > LARGE_SIZE_MAX then [] else find_large_slot_id num # power_table_from (num * 2))"
  by pat_completeness auto
termination
  by (relation "measure (\<lambda>num. LARGE_SIZE_MAX + 1 - num)") (auto simp: LARGE_SIZE_MAX_def)

declare power_table_from.simps [simp del]

definition FIRST_NUMBER_OF_TWO_IDX :: nat where
  "FIRST_NUMBER_OF_TWO_IDX = trailing_zeros (next_power_of_two (COMMON_SIZE_MAX + 1))"

definition POWER_TABLE :: "usize list" where
  "POWER_TABLE = replicate FIRST_NUMBER_OF_TWO_IDX (2 ^ 64 - 1)
     @ power_table_from (next_power_of_two (COMMON_SIZE_MAX + 1))"

definition large_size_to_id_and_real_size :: "usize \<Rightarrow> usize \<times> usize" where
  "large_size_to_id_and_real_size sz =
     (if is_power_of_two sz then (POWER_TABLE ! trailing_zeros sz, sz)
      else let slot_id = find_large_slot_id sz in (slot_id, LARGE_SIZES_FOR_ID ! slot_id))"

section \<open>Size classes\<close>

datatype SizeClass = Common | Large | ExtraLarge

definition size_class_define :: "usize \<Rightarrow> SizeClass" where
  "size_class_define sz =
     (if sz \<le> COMMON_SIZE_MAX then Common
      else if sz \<le> LARGE_SIZE_MAX then Large
      else ExtraLarge)"

definition recommended_size :: "usize \<Rightarrow> usize" where
  "recommended_size min_size =
     (if min_size \<le> COMMON_SIZE_MAX then and_not (min_size + 7) 7
      else if min_size \<le> LARGE_SIZE_MAX then snd (large_size_to_id_and_real_size min_size)
      else min_size)"

section \<open>The slot of a size\<close>

text \<open>The sizes of slot \<open>i\<close> are those above \<open>slot_lo i\<close> and up to \<open>slot_hi i\<close>.\<close>

definition slot_lo :: "nat \<Rightarrow> nat" where
  "slot_lo i = (16 + i mod 16) * 2 ^ (i div 16 - 4)"

definition slot_hi :: "nat \<Rightarrow> nat" where
  "slot_hi i = (17 + i mod 16) * 2 ^ (i div 16 - 4)"

lemma find_large_slot_id_arith:
  assumes "2 ^ Suc k \<le> sz - 1" and "sz - 1 < 2 ^ 64"
  shows "find_large_slot_id sz =
    16 * (bit_len (sz - 1) - 1) + ((sz - 1) div 2 ^ (bit_len (sz - 1) - 1 - 4)) mod 16"
proof -
  let ?n = "sz - 1"
  have "(2::nat) ^ (bit_len ?n - 1) < 2 ^ 64"
  proof (rule order_le_less_trans [OF bit_len_lower assms(2)])
    show "0 < ?n" using assms(1) by (rule order_less_le_trans [rotated]) simp
  qed
  then have "bit_len ?n - 1 < 64" by (rule power_less_imp_less_exp [rotated]) simp
  then have "64 - 1 - leading_zeros ?n = bit_len ?n - 1"
    by (simp add: leading_zeros_def)
  moreover have "x AND 15 = x mod 16" for x :: nat
    using take_bit_eq_mask [of 4 x] by (simp add: mask_eq_exp_minus_1 take_bit_eq_mod)
  ultimately show ?thesis
    unfolding find_large_slot_id_def Let_def push_bit_eq_mult drop_bit_eq_div
    by (simp only: mult.commute [of _ "2 ^ 4"]) simp
qed

lemma find_large_slot_id_bounds:
  assumes "17 \<le> sz" and "sz \<le> 2 ^ 64"
  defines "b \<equiv> bit_len (sz - 1) - 1"
  shows "find_large_slot_id sz div 16 = b" and "4 \<le> b"
    and "slot_lo (find_large_slot_id sz) < sz" and "sz \<le> slot_hi (find_large_slot_id sz)"
proof -
  let ?n = "sz - 1"
  have n: "2 ^ Suc 3 \<le> ?n" "?n < 2 ^ 64" "0 < ?n" using assms(1,2) by auto
  have lo: "2 ^ b \<le> ?n" unfolding b_def by (rule bit_len_lower) (rule n(3))
  have "bit_len ?n = Suc b" using n(3) by (simp add: b_def bit_len_pos)
  with bit_len_upper [of ?n] have hi: "?n < 2 ^ Suc b" by simp
  have "(2::nat) ^ 4 < 2 ^ Suc b"
    by (rule order_le_less_trans [OF _ hi]) (use assms(1) in simp)
  then have "4 < Suc b" by (rule power_less_imp_less_exp [rotated]) simp
  then show b4: "4 \<le> b" by simp
  define q where "q = ?n div 2 ^ (b - 4)"
  have e: "(2::nat) ^ b = 16 * 2 ^ (b - 4)"
    using b4 power_add [of "2::nat" 4 "b - 4"] by simp
  have q16: "16 \<le> q" unfolding q_def using lo unfolding e
    by (metis div_le_mono nonzero_mult_div_cancel_right power_not_zero zero_neq_numeral)
  have "?n < 32 * 2 ^ (b - 4)" using hi unfolding power_Suc e by simp
  then have q32: "q < 32" unfolding q_def by (simp add: less_mult_imp_div_less)
  have f: "find_large_slot_id sz = 16 * b + (q - 16)"
    using find_large_slot_id_arith [OF n(1,2), folded b_def, folded q_def] q16 q32
    by (simp add: mod_if [of q])
  from q16 q32 obtain r where r: "q = 16 + r" "r < 16" by (auto simp: le_iff_add)
  with f show d: "find_large_slot_id sz div 16 = b" by simp
  have m: "find_large_slot_id sz mod 16 = q - 16" using f r by simp
  have "q * 2 ^ (b - 4) \<le> ?n" unfolding q_def by (rule div_times_less_eq_dividend)
  with d m q16 n(3) show "slot_lo (find_large_slot_id sz) < sz"
    by (simp add: slot_lo_def)
  have "?n < Suc q * 2 ^ (b - 4)" unfolding q_def
    using dividend_less_div_times [of "2 ^ (b - 4)" ?n] by simp
  with d m q16 n(3) show "sz \<le> slot_hi (find_large_slot_id sz)"
    by (simp add: slot_hi_def)
qed

lemma slot_hi_le_lo: "i < j \<Longrightarrow> 64 \<le> i \<Longrightarrow> slot_hi i \<le> slot_lo j"
proof -
  assume "i < j" "64 \<le> i"
  show ?thesis
  proof (cases "i div 16 = j div 16")
    case True
    with \<open>i < j\<close> have "i mod 16 < j mod 16"
      by (metis add_less_cancel_left mult_div_mod_eq)
    with True show ?thesis by (simp add: slot_hi_def slot_lo_def)
  next
    case False
    with \<open>i < j\<close> have "Suc (i div 16) \<le> j div 16"
      by (simp add: Suc_le_eq div_le_mono order_le_neq_trans)
    moreover have "4 \<le> i div 16" using \<open>64 \<le> i\<close> by simp
    ultimately have "j div 16 - 4 = Suc (i div 16 - 4) + (j div 16 - Suc (i div 16))" by simp
    then obtain d where d: "j div 16 - 4 = Suc (i div 16 - 4) + d" by blast
    have "17 + i mod 16 \<le> 32" by simp
    then have "slot_hi i \<le> 32 * 2 ^ (i div 16 - 4)" by (simp add: slot_hi_def)
    also have "\<dots> \<le> 16 * 2 ^ (j div 16 - 4)" by (simp add: d power_add)
    also have "\<dots> \<le> slot_lo j" by (simp add: slot_lo_def)
    finally show ?thesis .
  qed
qed

lemma slot_lo_less_hi: "slot_lo i < slot_hi i"
  by (simp add: slot_lo_def slot_hi_def)

lemma find_large_slot_id_eqI:
  assumes "64 \<le> i" and "slot_lo i < sz" and "sz \<le> slot_hi i" and "sz \<le> 2 ^ 64"
  shows "find_large_slot_id sz = i"
proof -
  have "16 \<le> slot_lo i" by (simp add: slot_lo_def mult_le_mono [of 16 _ 1, simplified])
  with assms have b: "17 \<le> sz" by simp
  note f = find_large_slot_id_bounds [OF b assms(4)]
  have f64: "64 \<le> find_large_slot_id sz" using f(1,2) by linarith
  show ?thesis
  proof (rule ccontr)
    assume "find_large_slot_id sz \<noteq> i"
    then consider "find_large_slot_id sz < i" | "i < find_large_slot_id sz" by linarith
    then show False
    proof cases
      case 1
      with f(4) assms(2) slot_hi_le_lo [OF 1 f64] show False by simp
    next
      case 2
      with f(3) assms(3) slot_hi_le_lo [OF 2 assms(1)] show False by simp
    qed
  qed
qed

section \<open>The constant tables\<close>

lemma real_large_sizes_loop_replicate:
  "real_large_sizes_loop (replicate n x @ ys) x = real_large_sizes_loop ys x"
  by (induction n) simp_all

lemma generated_closed_form:
  "GENERATED_SIZES_AND_INDEXES = map (\<lambda>i. (slot_hi i, i)) [160..<303]"
  by (simp add: GENERATED_SIZES_AND_INDEXES_def slot_hi_def upt_rec_numeral)

lemma REAL_LARGE_SIZES_eq: "REAL_LARGE_SIZES = remdups_adj (drop 160 LARGE_SIZES_FOR_ID)"
  by (simp add: REAL_LARGE_SIZES_def LARGE_SIZES_FOR_ID_def real_large_sizes_loop_replicate)

lemma REAL_LARGE_SIZES_list: "REAL_LARGE_SIZES = [
    1088, 1152, 1216, 1280, 1344, 1408, 1472, 1536, 1600, 1664, 1728, 1792, 1856, 1920,
    1984, 2048, 2176, 2304, 2432, 2560, 2688, 2816, 2944, 3072, 3200, 3328, 3456, 3584,
    3712, 3840, 3968, 4096, 4352, 4608, 4864, 5120, 5376, 5632, 5888, 6144, 6400, 6656,
    6912, 7168, 7424, 7680, 7936, 8192, 8704, 9216, 9728, 10240, 10752, 11264, 11776, 12288,
    12800, 13312, 13824, 14336, 14848, 15360, 15872, 16384, 17408, 18432, 19456, 20480,
    21504, 22528, 23552, 24576, 25600, 26624, 28672, 30720, 32768, 34816, 36864, 38912,
    43008, 47104, 51200, 57344, 65536, 73728, 86016, 102400]"
  by (simp add: REAL_LARGE_SIZES_eq LARGE_SIZES_FOR_ID_def)

lemma sorted_REAL: "sorted_wrt (<) REAL_LARGE_SIZES"
  by (simp add: REAL_LARGE_SIZES_list sorted_wrt2_simps transp_on_less del: sorted_wrt.simps)

lemma large_sizes_hi:
  "list_all2 (\<lambda>i r. slot_hi i \<le> r) [160..<265] (drop 160 LARGE_SIZES_FOR_ID)"
  by (simp add: LARGE_SIZES_FOR_ID_def upt_rec_numeral slot_hi_def)

lemma lookup_real:
  "map (\<lambda>k. REAL_LARGE_SIZES ! k) (drop 160 LOOKUP_TABLE) = drop 160 LARGE_SIZES_FOR_ID"
  unfolding REAL_LARGE_SIZES_list
  by (simp add: LARGE_SIZES_FOR_ID_def LOOKUP_TABLE_def)

lemma lookup_lo:
  "list_all2 (\<lambda>i k. k < 88 \<and> (k \<noteq> 0 \<longrightarrow> REAL_LARGE_SIZES ! (k - 1) \<le> slot_lo i))
     [160..<265] (drop 160 LOOKUP_TABLE)"
  unfolding REAL_LARGE_SIZES_list
  by (simp add: LARGE_SIZES_FOR_ID_def LOOKUP_TABLE_def upt_rec_numeral slot_lo_def)

lemma length_tables: "length LARGE_SIZES_FOR_ID = 265" "length LOOKUP_TABLE = 265"
  "length REAL_LARGE_SIZES = 88"
  by (simp_all add: LARGE_SIZES_FOR_ID_def LOOKUP_TABLE_def REAL_LARGE_SIZES_list)

lemma large_slot_range:
  assumes "COMMON_SIZE_MAX < sz" and "sz \<le> LARGE_SIZE_MAX"
  shows "160 \<le> find_large_slot_id sz" and "find_large_slot_id sz < 265"
proof -
  let ?i = "find_large_slot_id sz"
  have sz: "17 \<le> sz" "sz \<le> 2 ^ 64" "1024 < sz" "sz \<le> 102400"
    using assms by (simp_all add: layout_simps)
  note b = find_large_slot_id_bounds [OF sz(1,2)]
  have h: "slot_hi 159 = 1024" and l: "slot_lo 265 = 102400"
    by (simp_all add: slot_hi_def slot_lo_def)
  have i64: "64 \<le> ?i" using b(1,2) by linarith
  show "160 \<le> ?i"
  proof (rule ccontr)
    assume "\<not> 160 \<le> ?i"
    then consider "?i = 159" | "?i < 159" by linarith
    then show False
      using b(4) sz(3) h slot_hi_le_lo [of ?i 159] i64 slot_lo_less_hi [of 159] by cases auto
  qed
  show "?i < 265"
  proof (rule ccontr)
    assume "\<not> ?i < 265"
    then consider "?i = 265" | "265 < ?i" by linarith
    then show False
      using b(3) sz(4) l slot_hi_le_lo [of 265 ?i] slot_lo_less_hi [of 265] by cases auto
  qed
qed

text \<open>What the tables hold at the slot of a large size.\<close>

lemma large_tables_at:
  assumes "160 \<le> i" and "i < 265"
  shows "slot_hi i \<le> LARGE_SIZES_FOR_ID ! i"
    and "LOOKUP_TABLE ! i < 88"
    and "REAL_LARGE_SIZES ! (LOOKUP_TABLE ! i) = LARGE_SIZES_FOR_ID ! i"
    and "LOOKUP_TABLE ! i \<noteq> 0 \<Longrightarrow> REAL_LARGE_SIZES ! (LOOKUP_TABLE ! i - 1) \<le> slot_lo i"
proof -
  let ?j = "i - 160"
  have j: "?j < 105" "i = 160 + ?j" using assms by simp_all
  have d: "drop 160 LARGE_SIZES_FOR_ID ! ?j = LARGE_SIZES_FOR_ID ! i"
    "drop 160 LOOKUP_TABLE ! ?j = LOOKUP_TABLE ! i"
    using assms by (simp_all add: length_tables)
  have "160 + ?j < 265" and "160 + ?j = i" using assms by simp_all
  then have u: "[160..<265] ! ?j = i" by (metis nth_upt)
  have len: "?j < length [160::nat..<265]" unfolding length_upt using assms by arith
  show "slot_hi i \<le> LARGE_SIZES_FOR_ID ! i"
    by (rule list_all2_nthD [OF large_sizes_hi len, unfolded u d])
  show "LOOKUP_TABLE ! i < 88"
    and "LOOKUP_TABLE ! i \<noteq> 0 \<Longrightarrow> REAL_LARGE_SIZES ! (LOOKUP_TABLE ! i - 1) \<le> slot_lo i"
    using list_all2_nthD [OF lookup_lo len, unfolded u d] by blast+
  have "map (\<lambda>k. REAL_LARGE_SIZES ! k) (drop 160 LOOKUP_TABLE) ! ?j = drop 160 LARGE_SIZES_FOR_ID ! ?j"
    by (simp only: lookup_real)
  then show "REAL_LARGE_SIZES ! (LOOKUP_TABLE ! i) = LARGE_SIZES_FOR_ID ! i"
    using j assms by (simp add: d length_tables)
qed

lemma large_size_minimal:
  assumes "160 \<le> i" and "i < 265" and "x \<in> set REAL_LARGE_SIZES" and "x < LARGE_SIZES_FOR_ID ! i"
  shows "x \<le> slot_lo i"
proof -
  let ?k = "LOOKUP_TABLE ! i"
  note t = large_tables_at [OF assms(1,2)]
  from assms(3) obtain m where m: "m < 88" "x = REAL_LARGE_SIZES ! m"
    by (auto simp: in_set_conv_nth length_tables)
  have "m < ?k"
  proof (rule ccontr)
    assume "\<not> m < ?k"
    then have "REAL_LARGE_SIZES ! ?k \<le> x"
      using sorted_wrt_nth_less [OF sorted_REAL, of ?k m] m
      by (cases "?k = m") (auto simp: length_tables)
    with t(3) assms(4) show False by simp
  qed
  then have "x \<le> REAL_LARGE_SIZES ! (?k - 1)"
    using sorted_wrt_nth_less [OF sorted_REAL, of m "?k - 1"] m t(2)
    by (cases "m = ?k - 1") (simp_all add: length_tables less_imp_le)
  also have "\<dots> \<le> slot_lo i" using \<open>m < ?k\<close> by (intro t(4)) simp
  finally show ?thesis .
qed

section \<open>The fast path for powers of two\<close>

lemma power_table_eq:
  "POWER_TABLE = replicate 11 (2 ^ 64 - 1) @ map find_large_slot_id [2048, 4096, 8192, 16384, 32768, 65536]"
proof -
  have n: "next_power_of_two (COMMON_SIZE_MAX + 1) = 2 ^ 11"
    by (simp add: next_power_of_two_def COMMON_SIZE_MAX_def bit_len_eqI [of 10])
  have "power_table_from 2048 = map find_large_slot_id [2048, 4096, 8192, 16384, 32768, 65536]"
    by (simp add: power_table_from.simps LARGE_SIZE_MAX_def)
  then show ?thesis
    by (simp only: POWER_TABLE_def FIRST_NUMBER_OF_TWO_IDX_def n trailing_zeros_pow2) simp
qed

lemma power_slots:
  "find_large_slot_id 2048 = 175" "find_large_slot_id 4096 = 191" "find_large_slot_id 8192 = 207"
  "find_large_slot_id 16384 = 223" "find_large_slot_id 32768 = 239" "find_large_slot_id 65536 = 255"
  by (rule find_large_slot_id_eqI, simp_all add: slot_lo_def slot_hi_def)+

lemma large_power_cases:
  assumes "COMMON_SIZE_MAX < sz" and "sz \<le> LARGE_SIZE_MAX" and "is_power_of_two sz"
  shows "sz \<in> {2048, 4096, 8192, 16384, 32768, 65536}"
proof -
  from assms(3) obtain k where k: "sz = 2 ^ k" by (rule is_power_of_twoE)
  from assms(1,2) have "(2::nat) ^ 10 < 2 ^ k" and "(2::nat) ^ k < 2 ^ 17"
    by (simp_all add: k layout_simps)
  then have "10 < k" and "k < 17" by (metis power_less_imp_less_exp one_less_numeral_iff semiring_norm(76))+
  then have "k \<in> {11, 12, 13, 14, 15, 16}" by auto
  then show ?thesis by (auto simp: k)
qed

lemma large_size_lookup_eq:
  assumes "COMMON_SIZE_MAX < sz" and "sz \<le> LARGE_SIZE_MAX"
  shows "large_size_to_id_and_real_size sz =
    (find_large_slot_id sz, LARGE_SIZES_FOR_ID ! find_large_slot_id sz)"
proof (cases "is_power_of_two sz")
  case True
  have tz: "trailing_zeros 2048 = 11" "trailing_zeros 4096 = 12" "trailing_zeros 8192 = 13"
    "trailing_zeros 16384 = 14" "trailing_zeros 32768 = 15" "trailing_zeros 65536 = 16"
    by (simp_all add: trailing_zeros.simps)
  from large_power_cases [OF assms True] True show ?thesis
    by (auto simp: large_size_to_id_and_real_size_def tz power_table_eq power_slots nth_append
        LARGE_SIZES_FOR_ID_def)
qed (simp add: large_size_to_id_and_real_size_def Let_def)

section \<open>The generating loops\<close>

lemma generate_blocks_skip:
  assumes "\<And>t. a \<le> t \<Longrightarrow> t < a + n \<Longrightarrow> find_large_slot_id t = i" and "a + n \<le> LARGE_CHUNK_SIZE + 1"
  shows "generate_blocks_loop a i acc = generate_blocks_loop (a + n) i acc"
  using assms
proof (induction n)
  case (Suc n)
  then have "generate_blocks_loop a i acc = generate_blocks_loop (a + n) i acc" by simp
  also have "\<dots> = generate_blocks_loop (a + Suc n) i acc"
    using Suc.prems by (subst generate_blocks_loop.simps) (simp add: Let_def)
  finally show ?case .
qed simp

lemma slot_next_lo: "64 \<le> i \<Longrightarrow> slot_lo (Suc i) = slot_hi i"
proof (cases "i mod 16 = 15")
  case True
  then have m: "Suc i mod 16 = 0" "Suc i div 16 = Suc (i div 16)"
    by (simp_all add: mod_Suc div_Suc)
  assume "64 \<le> i"
  then have "Suc (i div 16) - 4 = Suc (i div 16 - 4)" by linarith
  with True m show ?thesis by (simp add: slot_lo_def slot_hi_def)
next
  case False
  then have m: "Suc i mod 16 = Suc (i mod 16)" "Suc i div 16 = i div 16"
    by (simp_all add: mod_Suc div_Suc)
  then show ?thesis by (simp add: slot_lo_def slot_hi_def)
qed

lemma generate_blocks_slot:
  assumes "64 \<le> i" and "slot_hi i + 1 < LARGE_CHUNK_SIZE + 1" and "slot_hi (Suc i) \<le> LARGE_CHUNK_SIZE"
  shows "generate_blocks_loop (slot_hi i + 1) i acc = generate_blocks_loop (slot_hi (Suc i) + 1) (Suc i)
    (if i \<noteq> find_large_slot_id COMMON_SIZE_MAX then acc @ [(slot_hi i, i)] else acc)"
    (is "_ = generate_blocks_loop _ _ ?acc'")
proof -
  have f: "find_large_slot_id t = Suc i" if "slot_hi i < t" "t \<le> slot_hi (Suc i)" for t
    using that assms by (intro find_large_slot_id_eqI) (simp_all add: slot_next_lo layout_simps)
  have lt: "slot_hi i < slot_hi (Suc i)"
    using slot_lo_less_hi [of "Suc i"] slot_next_lo [OF assms(1)] by simp
  then have "find_large_slot_id (slot_hi i + 1) = Suc i" by (intro f) simp_all
  then have "generate_blocks_loop (slot_hi i + 1) i acc = generate_blocks_loop (slot_hi i + 2) (Suc i) ?acc'"
    using assms(2) by (subst generate_blocks_loop.simps) (simp add: Let_def)
  also have "\<dots> = generate_blocks_loop (slot_hi i + 2 + (slot_hi (Suc i) - slot_hi i - 1)) (Suc i) ?acc'"
    by (rule generate_blocks_skip) (use assms(3) lt f in auto)
  also have "slot_hi i + 2 + (slot_hi (Suc i) - slot_hi i - 1) = slot_hi (Suc i) + 1"
    using lt by simp
  finally show ?thesis .
qed

lemma slot_hi_mono: "64 \<le> i \<Longrightarrow> i \<le> j \<Longrightarrow> slot_hi i \<le> slot_hi j"
  using slot_hi_le_lo [of i j] slot_lo_less_hi [of j] by (cases "i = j") auto

lemma generate_blocks_from:
  "i \<le> 303 \<Longrightarrow> 159 < i \<Longrightarrow>
   generate_blocks_loop (slot_hi i + 1) i acc = acc @ map (\<lambda>j. (slot_hi j, j)) [i..<303]"
proof (induction "303 - i" arbitrary: i acc)
  case 0
  then have "i = 303" by simp
  then show ?case by (simp add: generate_blocks_loop.simps slot_hi_def LARGE_CHUNK_SIZE_def)
next
  case (Suc n)
  then have i: "i < 303" by simp
  have "slot_hi (Suc i) \<le> slot_hi 303" using Suc.prems i by (intro slot_hi_mono) auto
  then have h: "slot_hi (Suc i) \<le> LARGE_CHUNK_SIZE" by (simp add: slot_hi_def [of 303] LARGE_CHUNK_SIZE_def)
  have lt: "slot_hi i < slot_hi (Suc i)"
    using slot_lo_less_hi [of "Suc i"] slot_next_lo [of i] Suc.prems by simp
  have c: "find_large_slot_id COMMON_SIZE_MAX = 159"
    by (rule find_large_slot_id_eqI) (simp_all add: slot_lo_def slot_hi_def COMMON_SIZE_MAX_def)
  have "generate_blocks_loop (slot_hi i + 1) i acc
      = generate_blocks_loop (slot_hi (Suc i) + 1) (Suc i) (acc @ [(slot_hi i, i)])"
    using Suc.prems h lt by (subst generate_blocks_slot) (auto simp: c)
  also have "\<dots> = (acc @ [(slot_hi i, i)]) @ map (\<lambda>j. (slot_hi j, j)) [Suc i..<303]"
    using Suc.hyps(2) i Suc.prems by (intro Suc.hyps(1)) auto
  finally show ?case using i by (simp add: upt_rec [of i])
qed

text \<open>The loop \<open>generate_blocks\<close> terminates and computes exactly the literal table
  \<open>GENERATED_SIZES_AND_INDEXES\<close> of 143 slots, as the comment above the table claims.\<close>

theorem generate_blocks_table: "generate_blocks = GENERATED_SIZES_AND_INDEXES"
proof -
  have c: "find_large_slot_id COMMON_SIZE_MAX = 159" and h: "slot_hi 159 = COMMON_SIZE_MAX"
    by (rule find_large_slot_id_eqI) (simp_all add: slot_lo_def slot_hi_def COMMON_SIZE_MAX_def)
  have "generate_blocks = generate_blocks_loop (slot_hi 159 + 1) 159 []"
    unfolding generate_blocks_def c h
    by (subst generate_blocks_loop.simps)
      (simp add: c [unfolded COMMON_SIZE_MAX_def, simplified] LARGE_CHUNK_SIZE_def COMMON_SIZE_MAX_def Let_def)
  also have "\<dots> = generate_blocks_loop (slot_hi (Suc 159) + 1) (Suc 159) []"
    by (subst generate_blocks_slot) (simp_all add: c slot_hi_def LARGE_CHUNK_SIZE_def)
  also have "\<dots> = map (\<lambda>j. (slot_hi j, j)) [160..<303]"
    using generate_blocks_from [of 160 "[]"] by simp
  finally show ?thesis by (simp only: generated_closed_form)
qed

lemma common_index_eq:
  assumes "0 < sz" and "sz < 65536"
  shows "common_index_of sz = (sz - 1) div 8"
proof -
  have w: "(word_of_nat sz :: 16 word) - 1 = word_of_nat (sz - 1)"
    using assms(1) by (simp add: of_nat_diff)
  have u: "unat (word_of_nat (sz - 1) :: 16 word) = sz - 1"
    using assms by (subst unsigned_of_nat) (simp add: take_bit_nat_eq_self)
  show ?thesis
    unfolding common_size_to_index_def w unsigned_drop_bit_eq u
    using assms by (simp only: drop_bit_eq_div) (simp add: take_bit_nat_eq_self)
qed

lemma round_up_8: "sz \<le> COMMON_SIZE_MAX \<Longrightarrow> and_not (sz + 7) 7 = (sz + 7) div 8 * 8"
  using and_not_pow2 [of "sz + 7" 3] by (simp add: COMMON_SIZE_MAX_def)

lemma recommended_common: "sz \<le> COMMON_SIZE_MAX \<Longrightarrow> recommended_size sz = (sz + 7) div 8 * 8"
  by (simp add: recommended_size_def round_up_8)

lemma recommended_large:
  "COMMON_SIZE_MAX < sz \<Longrightarrow> sz \<le> LARGE_SIZE_MAX \<Longrightarrow>
   recommended_size sz = LARGE_SIZES_FOR_ID ! find_large_slot_id sz"
  by (simp add: recommended_size_def large_size_lookup_eq)

lemma large_real_facts:
  assumes "COMMON_SIZE_MAX < sz" and "sz \<le> LARGE_SIZE_MAX"
  defines "r \<equiv> LARGE_SIZES_FOR_ID ! find_large_slot_id sz"
  shows "sz \<le> r" and "r \<in> set REAL_LARGE_SIZES" and "r \<le> LARGE_SIZE_MAX"
    and "\<And>x. x \<in> set REAL_LARGE_SIZES \<Longrightarrow> sz \<le> x \<Longrightarrow> r \<le> x"
proof -
  note i = large_slot_range [OF assms(1,2)]
  have sz: "17 \<le> sz" "sz \<le> 2 ^ 64" using assms(1,2) by (simp_all add: layout_simps)
  show "sz \<le> r"
    using find_large_slot_id_bounds(4) [OF sz] large_tables_at(1) [OF i] by (simp add: r_def)
  show mem: "r \<in> set REAL_LARGE_SIZES"
    using large_tables_at(2,3) [OF i] by (metis length_tables(3) nth_mem r_def)
  have "\<forall>x\<in>set REAL_LARGE_SIZES. x \<le> LARGE_SIZE_MAX"
    by (simp add: REAL_LARGE_SIZES_list LARGE_SIZE_MAX_def)
  with mem show "r \<le> LARGE_SIZE_MAX" by blast
  show "r \<le> x" if "x \<in> set REAL_LARGE_SIZES" "sz \<le> x" for x
    using large_size_minimal [OF i that(1)] find_large_slot_id_bounds(3) [OF sz] that(2)
    by (fastforce simp: r_def)
qed

text \<open>C16: for every size of the large class, \<open>large_size_to_id_and_real_size\<close> returns an id
  inside both tables whose vector holds objects of the returned size, the returned size fits
  the request, and it is the least of the 88 real sizes that does.\<close>

theorem large_size_best_fit:
  assumes "COMMON_SIZE_MAX < sz" and "sz \<le> LARGE_SIZE_MAX"
    and "large_size_to_id_and_real_size sz = (slot_id, real_size)"
  shows "FIRST_ID \<le> slot_id \<and> slot_id < length LOOKUP_TABLE
    \<and> get_idx_by_id slot_id < REAL_NUMBER_OF_LARGE_OBJECT_VECTORS
    \<and> REAL_LARGE_SIZES ! get_idx_by_id slot_id = real_size
    \<and> sz \<le> real_size
    \<and> (\<forall>x\<in>set REAL_LARGE_SIZES. sz \<le> x \<longrightarrow> real_size \<le> x)"
proof -
  have e: "slot_id = find_large_slot_id sz" "real_size = LARGE_SIZES_FOR_ID ! find_large_slot_id sz"
    using assms(3) by (auto simp: large_size_lookup_eq [OF assms(1,2)])
  note i = large_slot_range [OF assms(1,2)]
  have f: "FIRST_ID = 160" by (simp add: FIRST_ID_def GENERATED_SIZES_AND_INDEXES_def)
  show ?thesis
    using large_real_facts [OF assms(1,2)] large_tables_at [OF i] i
    by (simp add: e f get_idx_by_id_def length_tables REAL_NUMBER_OF_LARGE_OBJECT_VECTORS_def)
qed

theorem large_size_best_fit_witness:
  "large_size_to_id_and_real_size 64512 = (255, 65536) \<and> REAL_LARGE_SIZES ! get_idx_by_id 255 = 65536"
proof -
  have sz: "COMMON_SIZE_MAX < 64512" "64512 \<le> LARGE_SIZE_MAX" by (simp_all add: layout_simps)
  have "find_large_slot_id 64512 = 255"
    by (rule find_large_slot_id_eqI) (simp_all add: slot_lo_def slot_hi_def)
  then have "large_size_to_id_and_real_size 64512 = (255, 65536)"
    by (simp add: large_size_lookup_eq [OF sz] LARGE_SIZES_FOR_ID_def nth_append)
  with large_size_best_fit [OF sz this] show ?thesis by simp
qed

text \<open>C35: the shortcut for powers of two gives the same answer as the general lookup, for
  every large size.\<close>

theorem power_of_two_fast_path:
  assumes "COMMON_SIZE_MAX < sz" and "sz \<le> LARGE_SIZE_MAX"
  shows "large_size_to_id_and_real_size sz =
    (find_large_slot_id sz, LARGE_SIZES_FOR_ID ! find_large_slot_id sz)"
  using assms by (rule large_size_lookup_eq)

theorem power_of_two_fast_path_witness:
  "large_size_to_id_and_real_size 4096 = (find_large_slot_id 4096, LARGE_SIZES_FOR_ID ! find_large_slot_id 4096)
   \<and> is_power_of_two 4096"
proof -
  have "is_power_of_two (2 ^ 12)" by (rule is_power_of_two_pow2)
  with power_of_two_fast_path [of 4096] show ?thesis by (simp add: layout_simps)
qed

text \<open>\<open>recommended_size\<close> never shrinks a request, never leaves the size class of a
  non-empty request, and is a fixed point of itself, so a recommended size can be asked for
  again without growing.\<close>

theorem recommended_size_stable:
  "sz \<le> recommended_size sz
   \<and> recommended_size (recommended_size sz) = recommended_size sz
   \<and> size_class_define (recommended_size sz) = size_class_define sz"
proof -
  consider "sz \<le> COMMON_SIZE_MAX" | "COMMON_SIZE_MAX < sz" "sz \<le> LARGE_SIZE_MAX"
    | "COMMON_SIZE_MAX < sz" "LARGE_SIZE_MAX < sz" by linarith
  then show ?thesis
  proof cases
    case 1
    let ?r = "(sz + 7) div 8 * 8"
    have r: "?r \<le> COMMON_SIZE_MAX" "sz \<le> ?r" "(?r + 7) div 8 * 8 = ?r"
      using 1 unfolding COMMON_SIZE_MAX_def by presburger+
    with 1 show ?thesis by (simp add: recommended_common size_class_define_def)
  next
    case 2
    let ?r = "LARGE_SIZES_FOR_ID ! find_large_slot_id sz"
    note f = large_real_facts [OF 2]
    have r: "COMMON_SIZE_MAX < ?r" using f(1) 2(1) by simp
    note g = large_real_facts [OF r f(3)]
    have "LARGE_SIZES_FOR_ID ! find_large_slot_id ?r = ?r"
      using g(4) [OF f(2)] g(1) by simp
    with 2 r f show ?thesis by (simp add: recommended_large size_class_define_def)
  next
    case 3
    then show ?thesis by (simp add: recommended_size_def)
  qed
qed

text \<open>C32: a common size between 1 and 1024 maps to one of the 128 slots, and to the slot of
  the least multiple of 8 that holds it; rounding up first does not change the slot.\<close>

theorem common_index_correct:
  assumes "0 < sz" and "sz \<le> COMMON_SIZE_MAX"
  shows "common_index_of sz < COMMON_SIZE_TABLE_LEN
    \<and> recommended_size sz = (common_index_of sz + 1) * 8
    \<and> common_index_of (recommended_size sz) = common_index_of sz"
proof -
  define q r where "q = (sz - 1) div 8" and "r = (sz - 1) mod 8"
  then have sz: "sz = 8 * q + r + 1" "r < 8" using assms(1) by simp_all
  from sz have "(sz + 7) div 8 = q + 1" by presburger
  with sz have q: "(sz - 1) div 8 = q" "(sz + 7) div 8 * 8 = 8 * q + 8" "q < 128"
    using assms(2) by (simp_all add: COMMON_SIZE_MAX_def)
  have i: "common_index_of sz = q" "common_index_of ((sz + 7) div 8 * 8) = q"
    using assms q common_index_eq [of sz] common_index_eq [of "8 * q + 8"]
    unfolding q(2) by (simp_all only: COMMON_SIZE_MAX_def)
  from q i show ?thesis
    using assms(2) by (simp only: recommended_common) (simp add: COMMON_SIZE_TABLE_LEN_def COMMON_SIZE_MAX_def)
qed

theorem common_index_correct_witness:
  "common_index_of 100 = 12 \<and> recommended_size 100 = 104"
  using common_index_correct [of 100] common_index_eq [of 100] by (simp add: COMMON_SIZE_MAX_def)

text \<open>A request of size 0 is classed as common, but its index wraps around 16 bits to
  8191, outside the 128 slots of the table that is then read without a bounds check.\<close>

theorem zero_size_out_of_table:
  "size_class_define 0 = Common \<and> common_index_of 0 = 8191
   \<and> \<not> common_index_of 0 < COMMON_SIZE_TABLE_LEN"
proof -
  have "unat (- 1 :: 16 word) = 65535"
    by (simp only: unsigned_minus_1_eq_mask mask_eq_exp_minus_1) simp
  then have u: "unat (word_of_nat 0 - 1 :: 16 word) = 65535"
    by (simp only: semiring_1_class.of_nat_0 diff_0)
  have "common_index_of 0 = 8191"
    unfolding common_size_to_index_def unsigned_drop_bit_eq
    unfolding u drop_bit_eq_div by simp
  then show ?thesis
    by (simp add: size_class_define_def COMMON_SIZE_TABLE_LEN_def COMMON_SIZE_MAX_def)
qed

end
