(* ===== verification/SizeTables.thy ===== *)
theory SizeTables
  imports Sizes
begin

text \<open>
  The generator of the size tables, run by the kernel: \<open>generate_real_large_sizes_and_lookup_table\<close>
  of \<open>sizes/large.rs\<close> against the two tables the file publishes.
\<close>

lemma list_update_numeral: "(x # xs)[numeral n := v] = x # xs[pred_numeral n := v]"
  by (simp add: numeral_eq_Suc)

lemma replicate_numeral: "replicate (numeral n) x = x # replicate (pred_numeral n) x"
  by (simp add: numeral_eq_Suc)

lemma list_update_after_replicate:
  "(replicate 159 x @ ys)[n := y] = (if n < 159 then (replicate 159 x)[n := y] @ ys
     else replicate 159 x @ ys[n - 159 := y])"
  by (simp add: list_update_append)

lemma gen_real:
  "generate_real_large_sizes_and_lookup_table = Some (tl LARGE_SIZES_FOR_ID @ [0], tl LOOKUP_TABLE @ [0])"
proof -
  have r: "replicate REAL_LARGE_SIZES_LEN (0::nat) = replicate 159 0 @ replicate 106 0"
    by (simp add: REAL_LARGE_SIZES_LEN_def flip: replicate_add)
  have t: "tl (replicate 160 (0::nat) @ xs) = replicate 159 0 @ xs" for xs
    using replicate_Suc [of 159 "0::nat"] by simp
  have f: "FIRST_ID = 160" by (simp add: FIRST_ID_def GENERATED_SIZES_AND_INDEXES_def)
  show ?thesis
    unfolding generate_real_large_sizes_and_lookup_table_def r LARGE_SIZES_FOR_ID_def LOOKUP_TABLE_def t
    by (simp add: generate_real_loop.simps f GENERATED_SIZES_AND_INDEXES_def Let_def layout_simps
      list_update_after_replicate upt_rec_numeral upt_rec [of "Suc 0" 2] numeral_2_eq_2 [symmetric])
      (simp add: list_update_numeral replicate_numeral)
qed

text \<open>C36: the function the published tables are said to come from returns them shifted down by
  one entry: neither of its two results is the published table.\<close>

theorem generator_shifted:
  "generate_real_large_sizes_and_lookup_table = Some (tl LARGE_SIZES_FOR_ID @ [0], tl LOOKUP_TABLE @ [0])
   \<and> tl LARGE_SIZES_FOR_ID @ [0] \<noteq> LARGE_SIZES_FOR_ID
   \<and> tl LOOKUP_TABLE @ [0] \<noteq> LOOKUP_TABLE"
proof -
  have n: "last LARGE_SIZES_FOR_ID \<noteq> 0" "last LOOKUP_TABLE \<noteq> 0"
    by (simp_all add: LARGE_SIZES_FOR_ID_def LOOKUP_TABLE_def)
  then have "tl LARGE_SIZES_FOR_ID @ [0] \<noteq> LARGE_SIZES_FOR_ID" "tl LOOKUP_TABLE @ [0] \<noteq> LOOKUP_TABLE"
    by (metis last_snoc)+
  with gen_real show ?thesis by blast
qed

end
