(* ===== verification/Limit.thy ===== *)
theory Limit
  imports Prelude
begin

text \<open>
  \<open>limit.rs\<close>: the two process-wide counters. \<open>LIMIT\<close> and \<open>ALLOCATED\<close> are 64-bit words, so that
  the additions and subtractions of the code wrap as the atomic operations do.

  The first part gives every operation as a function of the two counters, with the loop of
  \<open>may_allocate\<close> cut at its atomic steps (\<open>may_step\<close>). The second part runs any number of
  threads, one atomic step at a time, in any order, with compare-and-exchange failing
  spuriously whenever it likes: \<open>lstep\<close>. The memory orderings of the code do not matter for
  the values of one counter (every read-modify-write sees the last value of its location).
\<close>

record limit_state =
  LIMIT :: "64 word"
  ALLOCATED :: "64 word"

definition initial_limit_state :: limit_state where
  "initial_limit_state = \<lparr>LIMIT = - 1, ALLOCATED = 0\<rparr>"

definition set_allocator_limit :: "64 word \<Rightarrow> limit_state \<Rightarrow> limit_state" where
  "set_allocator_limit sz s = s\<lparr>LIMIT := sz\<rparr>"

definition load_allocated :: "limit_state \<Rightarrow> 64 word" where
  "load_allocated s = ALLOCATED s"

definition mark_deallocated :: "64 word \<Rightarrow> limit_state \<Rightarrow> limit_state" where
  "mark_deallocated sz s = s\<lparr>ALLOCATED := ALLOCATED s - sz\<rparr>"

definition allocate_any_way :: "64 word \<Rightarrow> limit_state \<Rightarrow> limit_state" where
  "allocate_any_way sz s = s\<lparr>ALLOCATED := ALLOCATED s + sz\<rparr>"

text \<open>The points of \<open>may_allocate\<close> between two atomic operations: before the load of \<open>LIMIT\<close>,
  before the load of \<open>ALLOCATED\<close>, at the head of the loop, and returned.\<close>

datatype may_pc =
    LoadLimit "64 word"
  | LoadAllocated "64 word" "64 word"
  | Loop "64 word" "64 word" "64 word"
  | Returned "64 word" bool

text \<open>\<open>spurious\<close>: this \<open>compare_exchange_weak\<close> fails although the values agree.\<close>

fun may_step :: "bool \<Rightarrow> may_pc \<Rightarrow> limit_state \<Rightarrow> may_pc \<times> limit_state" where
  "may_step spurious (LoadLimit sz) s = (LoadAllocated sz (LIMIT s), s)"
| "may_step spurious (LoadAllocated sz limit) s = (Loop sz limit (ALLOCATED s), s)"
| "may_step spurious (Loop sz limit allocated) s =
     (let new_allocated = allocated + sz in
      if new_allocated > limit then (Returned sz False, s)
      else if ALLOCATED s = allocated \<and> \<not> spurious
        then (Returned sz True, s\<lparr>ALLOCATED := new_allocated\<rparr>)
        else (Loop sz limit (ALLOCATED s), s))"
| "may_step spurious (Returned sz b) s = (Returned sz b, s)"

text \<open>The loop run by one thread alone: \<open>None\<close> when the fuel is spent before it returns.\<close>

fun may_run :: "bool list \<Rightarrow> may_pc \<Rightarrow> limit_state \<Rightarrow> (bool \<times> limit_state) option" where
  "may_run _ (Returned sz b) s = Some (b, s)"
| "may_run [] _ s = None"
| "may_run (sp # sps) pc s = (case may_step sp pc s of (pc', s') \<Rightarrow> may_run sps pc' s')"

text \<open>What the operation does when nobody interferes: used by the sequential components.\<close>

definition may_allocate :: "64 word \<Rightarrow> limit_state \<Rightarrow> bool \<times> limit_state" where
  "may_allocate sz s =
     (if ALLOCATED s + sz > LIMIT s then (False, s)
      else (True, s\<lparr>ALLOCATED := ALLOCATED s + sz\<rparr>))"

lemma may_run_loop:
  assumes "False \<in> set sps"
  shows "may_run sps (Loop sz (LIMIT s) (ALLOCATED s)) s = Some (may_allocate sz s)"
  using assms
proof (induction sps)
  case (Cons sp sps)
  then show ?case by (cases sps; cases sp) (auto simp: may_allocate_def Let_def)
qed simp

text \<open>C34: run alone, the compare-and-exchange loop of \<open>may_allocate\<close> returns, with the answer and the
  counter of the sequential description, as soon as one of its exchanges is not failed spuriously.\<close>

theorem may_allocate_returns:
  assumes "False \<in> set sps"
  shows "may_run (sp0 # sp1 # sps) (LoadLimit sz) s = Some (may_allocate sz s)"
  using may_run_loop [OF assms] by simp

theorem may_allocate_returns_witness:
  "may_run [True, True, True, True, False] (LoadLimit 5) \<lparr>LIMIT = 10, ALLOCATED = 3\<rparr>
     = Some (True, \<lparr>LIMIT = 10, ALLOCATED = 8\<rparr>)"
  using may_allocate_returns [of "[True, True, False]" True True 5 "\<lparr>LIMIT = 10, ALLOCATED = 3\<rparr>"]
  by (simp add: may_allocate_def)

section \<open>Interleaved threads\<close>

text \<open>A thread is between two calls or inside \<open>may_allocate\<close>. It holds the sizes it has been
  granted by \<open>may_allocate\<close> (\<open>held\<close>) and those it took with \<open>allocate_any_way\<close>
  (\<open>forced\<close>) and that were not given back. \<open>highest\<close> remembers the greatest limit that was
  in force so far. The three are bookkeeping: no step of the code reads them.\<close>

record thread =
  pc :: "may_pc option"
  held :: "64 word list"
  forced :: "64 word list"

record system =
  shared :: limit_state
  threads :: "thread list"
  highest :: nat

abbreviation set_thread :: "nat \<Rightarrow> thread \<Rightarrow> system \<Rightarrow> system" where
  "set_thread i t sys \<equiv> sys\<lparr>threads := (threads sys)[i := t]\<rparr>"

text \<open>One atomic step, \<open>mx\<close> being the largest size a caller names: a thread calls
  \<open>may_allocate\<close>, makes an atomic step of it or returns from it; calls \<open>allocate_any_way\<close>;
  gives back (\<open>mark_deallocated\<close>) a size that it or another thread holds; or sets a new
  limit, at any moment, which the threads inside \<open>may_allocate\<close> may or may not have read.\<close>

inductive lstep :: "nat \<Rightarrow> system \<Rightarrow> system \<Rightarrow> bool" for mx :: nat where
  call: "lstep mx sys (set_thread i ((threads sys ! i)\<lparr>pc := Some (LoadLimit sz)\<rparr>) sys)"
    if "i < length (threads sys)" and "pc (threads sys ! i) = None" and "unat sz \<le> mx"
| atomic: "lstep mx sys (set_thread i ((threads sys ! i)\<lparr>pc := Some p'\<rparr>) (sys\<lparr>shared := s'\<rparr>))"
    if "i < length (threads sys)" and "pc (threads sys ! i) = Some p"
      and "may_step spurious p (shared sys) = (p', s')"
| return: "lstep mx sys (set_thread i ((threads sys ! i)
             \<lparr>pc := None, held := (if b then sz # held (threads sys ! i) else held (threads sys ! i))\<rparr>) sys)"
    if "i < length (threads sys)" and "pc (threads sys ! i) = Some (Returned sz b)"
| any_way: "lstep mx sys (set_thread i ((threads sys ! i)\<lparr>forced := sz # forced (threads sys ! i)\<rparr>)
             (sys\<lparr>shared := allocate_any_way sz (shared sys)\<rparr>))"
    if "i < length (threads sys)" and "pc (threads sys ! i) = None" and "unat sz \<le> mx"
| free: "lstep mx sys (set_thread i ((threads sys ! i)\<lparr>held := remove1 sz (held (threads sys ! i))\<rparr>)
             (sys\<lparr>shared := mark_deallocated sz (shared sys)\<rparr>))"
    if "i < length (threads sys)" and "sz \<in> set (held (threads sys ! i))"
| free_forced: "lstep mx sys (set_thread i ((threads sys ! i)\<lparr>forced := remove1 sz (forced (threads sys ! i))\<rparr>)
             (sys\<lparr>shared := mark_deallocated sz (shared sys)\<rparr>))"
    if "i < length (threads sys)" and "sz \<in> set (forced (threads sys ! i))"
| set_limit: "lstep mx sys (sys\<lparr>shared := set_allocator_limit lim (shared sys),
             highest := max (highest sys) (unat lim)\<rparr>)"

text \<open>What a thread accounts for: a grant it is about to return with, what it was granted and
  holds, and what it took without asking.\<close>

fun pending_grant :: "may_pc option \<Rightarrow> nat" where
  "pending_grant (Some (Returned sz True)) = unat sz"
| "pending_grant _ = 0"

definition granted_to :: "thread \<Rightarrow> nat" where
  "granted_to t = pending_grant (pc t) + sum_list (map unat (held t))"

definition forced_by :: "thread \<Rightarrow> nat" where
  "forced_by t = sum_list (map unat (forced t))"

definition granted_total :: "system \<Rightarrow> nat" where
  "granted_total sys = sum_list (map granted_to (threads sys))"

definition forced_total :: "system \<Rightarrow> nat" where
  "forced_total sys = sum_list (map forced_by (threads sys))"

definition outstanding :: "system \<Rightarrow> nat" where
  "outstanding sys = granted_total sys + forced_total sys"

text \<open>The bytes outstanding and one more request stay below \<open>2\<^sup>6\<^sup>4\<close>: the side condition of a run.
  The limit itself may be anything, the default \<open>usize::MAX\<close> included.\<close>

definition fits :: "nat \<Rightarrow> system \<Rightarrow> bool" where
  "fits mx sys \<longleftrightarrow> outstanding sys + mx < 2 ^ 64"

definition frun :: "nat \<Rightarrow> system \<Rightarrow> system \<Rightarrow> bool" where
  "frun mx = (\<lambda>sys sys'. lstep mx sys sys' \<and> fits mx sys')\<^sup>*\<^sup>*"

fun pc_ok :: "nat \<Rightarrow> nat \<Rightarrow> may_pc option \<Rightarrow> bool" where
  "pc_ok mx h None \<longleftrightarrow> True"
| "pc_ok mx h (Some (LoadLimit sz)) \<longleftrightarrow> unat sz \<le> mx"
| "pc_ok mx h (Some (LoadAllocated sz limit)) \<longleftrightarrow> unat sz \<le> mx \<and> unat limit \<le> h"
| "pc_ok mx h (Some (Loop sz limit allocated)) \<longleftrightarrow>
     unat sz \<le> mx \<and> unat limit \<le> h \<and> unat allocated + mx < 2 ^ 64"
| "pc_ok mx h (Some (Returned sz b)) \<longleftrightarrow> unat sz \<le> mx"

definition linv :: "nat \<Rightarrow> system \<Rightarrow> bool" where
  "linv mx sys \<longleftrightarrow>
     unat (LIMIT (shared sys)) \<le> highest sys \<and> granted_total sys \<le> highest sys
     \<and> unat (ALLOCATED (shared sys)) = outstanding sys
     \<and> (\<forall>t\<in>set (threads sys). pc_ok mx (highest sys) (pc t))"

lemma sum_list_change:
  "i < length ts \<Longrightarrow> sum_list (map f (ts[i := t])) + f (ts ! i) = sum_list (map f ts) + (f t :: nat)"
proof (induction ts arbitrary: i)
  case (Cons u ts)
  then show ?case by (cases i) auto
qed simp

lemma elem_le_total: "i < length ts \<Longrightarrow> f (ts ! i) \<le> sum_list (map f ts :: nat list)"
  by (metis elem_le_sum_list length_map nth_map)

lemma sum_remove1: "x \<in> set xs \<Longrightarrow> sum_list (map f xs) = f x + sum_list (map f (remove1 x xs) :: nat list)"
  by (induction xs) auto

lemma pc_ok_mono: "h \<le> h' \<Longrightarrow> pc_ok mx h p \<Longrightarrow> pc_ok mx h' p"
  by (induction mx h p rule: pc_ok.induct) auto

text \<open>The answer of a thread that saw \<open>allocated\<close>: the sum of the comparison is the true sum.\<close>

lemma compared_sum:
  "unat sz \<le> mx \<Longrightarrow> unat allocated + mx < 2 ^ 64 \<Longrightarrow>
     unat (allocated + sz) = unat allocated + unat sz" for sz allocated :: "64 word"
  using unat_add_lem [of allocated sz] by simp

text \<open>One step of \<open>may_allocate\<close> moves the counter and the grant together, and a grant leaves the
  counter within the limit that was read.\<close>

lemma may_step_ok:
  assumes "may_step sp p s = (p', s')" and "pc_ok mx h (Some p)"
    and "unat (ALLOCATED s) + mx < 2 ^ 64" and "unat (LIMIT s) \<le> h"
  shows "pc_ok mx h (Some p') \<and> LIMIT s' = LIMIT s
    \<and> unat (ALLOCATED s') + pending_grant (Some p) = unat (ALLOCATED s) + pending_grant (Some p')
    \<and> (pending_grant (Some p') \<le> pending_grant (Some p) \<or> unat (ALLOCATED s') \<le> h)"
proof (cases p)
  case (Loop sz limit allocated)
  with assms(2) have "unat (allocated + sz) = unat allocated + unat sz"
    by (intro compared_sum [of _ mx]) simp_all
  with assms Loop show ?thesis
    by (auto simp: Let_def not_less word_le_nat_alt split: if_splits)
qed (use assms in \<open>auto split: if_splits\<close>)

text \<open>The invariant after thread \<open>i\<close> became \<open>t\<close> and the counters \<open>s'\<close>.\<close>

lemma linv_update:
  assumes "linv mx sys" and "i < length (threads sys)"
    and "pc_ok mx (highest sys) (pc t)" and "LIMIT s' = LIMIT (shared sys)"
    and "unat (ALLOCATED s') + (granted_to (threads sys ! i) + forced_by (threads sys ! i))
           = unat (ALLOCATED (shared sys)) + (granted_to t + forced_by t)"
    and "granted_to t \<le> granted_to (threads sys ! i) \<or> unat (ALLOCATED s') \<le> highest sys"
  shows "linv mx (set_thread i t (sys\<lparr>shared := s'\<rparr>))"
proof -
  let ?sys' = "set_thread i t (sys\<lparr>shared := s'\<rparr>)"
  have g: "granted_total ?sys' + granted_to (threads sys ! i) = granted_total sys + granted_to t"
    unfolding granted_total_def using sum_list_change [OF assms(2), of granted_to t] by simp
  have f: "forced_total ?sys' + forced_by (threads sys ! i) = forced_total sys + forced_by t"
    unfolding forced_total_def using sum_list_change [OF assms(2), of forced_by t] by simp
  have a: "unat (ALLOCATED s') = outstanding ?sys'"
    using assms(1,5) g f by (simp add: linv_def outstanding_def)
  then have "granted_total ?sys' \<le> highest sys"
    using assms(1,6) g by (auto simp: linv_def outstanding_def)
  moreover have "\<forall>u\<in>set ((threads sys)[i := t]). pc_ok mx (highest sys) (pc u)"
    by (rule ball_set_update) (use assms(1,3) in \<open>simp_all add: linv_def\<close>)
  ultimately show ?thesis using assms(1,4) a by (simp add: linv_def)
qed

lemma linv_mark_deallocated:
  assumes "linv mx sys" and "i < length (threads sys)" and "pc t = pc (threads sys ! i)"
    and "granted_to (threads sys ! i) + forced_by (threads sys ! i) = unat sz + (granted_to t + forced_by t)"
    and "granted_to t \<le> granted_to (threads sys ! i)"
  shows "linv mx (set_thread i t (sys\<lparr>shared := mark_deallocated sz (shared sys)\<rparr>))"
proof (rule linv_update [OF assms(1,2)])
  have "granted_to (threads sys ! i) + forced_by (threads sys ! i) \<le> outstanding sys"
    unfolding outstanding_def granted_total_def forced_total_def
    by (intro add_mono elem_le_total assms(2))
  then have "sz \<le> ALLOCATED (shared sys)"
    using assms(1,4) by (simp add: linv_def word_le_nat_alt)
  then show "unat (ALLOCATED (mark_deallocated sz (shared sys)))
        + (granted_to (threads sys ! i) + forced_by (threads sys ! i))
      = unat (ALLOCATED (shared sys)) + (granted_to t + forced_by t)"
    using assms(4) by (simp add: mark_deallocated_def unat_sub word_le_nat_alt)
  show "pc_ok mx (highest sys) (pc t)"
    using assms(1,2,3) by (simp add: linv_def)
qed (use assms(5) in \<open>simp_all add: mark_deallocated_def\<close>)

lemma linv_lstep:
  assumes "lstep mx sys sys'" and "linv mx sys" and "fits mx sys"
  shows "linv mx sys'"
  using assms
proof (induction rule: lstep.induct)
  case (call i sys sz)
  then have "linv mx (set_thread i ((threads sys ! i)\<lparr>pc := Some (LoadLimit sz)\<rparr>) (sys\<lparr>shared := shared sys\<rparr>))"
    by (intro linv_update) (simp_all add: granted_to_def forced_by_def)
  then show ?case by simp
next
  case (atomic i sys p sp p' s')
  have "pc_ok mx (highest sys) (Some p)"
    using atomic by (metis linv_def nth_mem)
  moreover have "unat (ALLOCATED (shared sys)) + mx < 2 ^ 64" "unat (LIMIT (shared sys)) \<le> highest sys"
    using atomic(4,5) by (simp_all add: linv_def fits_def)
  ultimately show ?case
    using may_step_ok [OF atomic(3)] atomic(1,2,4)
    by (intro linv_update) (auto simp: granted_to_def forced_by_def)
next
  case (return i sys sz b)
  then have "linv mx (set_thread i ((threads sys ! i)\<lparr>pc := None,
      held := (if b then sz # held (threads sys ! i) else held (threads sys ! i))\<rparr>) (sys\<lparr>shared := shared sys\<rparr>))"
    by (intro linv_update) (simp_all add: granted_to_def forced_by_def)
  then show ?case by simp
next
  case (any_way i sys sz)
  have "unat (ALLOCATED (shared sys) + sz) = unat (ALLOCATED (shared sys)) + unat sz"
    using any_way(3-5) by (intro compared_sum [of _ mx]) (simp_all add: linv_def fits_def)
  with any_way show ?case
    by (intro linv_update) (simp_all add: allocate_any_way_def granted_to_def forced_by_def)
next
  case (free i sys sz)
  then show ?case
    by (intro linv_mark_deallocated)
       (simp_all add: granted_to_def forced_by_def sum_remove1 [OF free(2), of unat])
next
  case (free_forced i sys sz)
  then show ?case
    by (intro linv_mark_deallocated)
       (simp_all add: granted_to_def forced_by_def sum_remove1 [OF free_forced(2), of unat])
next
  case (set_limit sys lim)
  then show ?case
    by (auto simp: linv_def set_allocator_limit_def granted_total_def forced_total_def outstanding_def
      intro: pc_ok_mono [of "highest sys"])
qed

definition start_system :: "64 word \<Rightarrow> nat \<Rightarrow> system" where
  "start_system lim n =
     \<lparr>shared = set_allocator_limit lim initial_limit_state,
      threads = replicate n \<lparr>pc = None, held = [], forced = []\<rparr>, highest = unat lim\<rparr>"

lemma start_total:
  "granted_total (start_system lim n) = 0" "forced_total (start_system lim n) = 0"
  by (simp_all add: start_system_def granted_total_def forced_total_def granted_to_def forced_by_def
    sum_list_replicate)

lemma linv_start: "linv mx (start_system lim n)"
  using start_total [of lim n]
  by (simp add: linv_def outstanding_def start_system_def set_allocator_limit_def initial_limit_state_def)

lemma linv_frun:
  assumes "frun mx (start_system lim n) sys" and "mx < 2 ^ 64"
  shows "linv mx sys \<and> fits mx sys"
  using assms(1) unfolding frun_def
proof (induction rule: rtranclp_induct)
  case base
  show ?case using assms(2) by (simp add: linv_start fits_def outstanding_def start_total)
next
  case (step sys1 sys2)
  then show ?case using linv_lstep by blast
qed

text \<open>C13: any number of threads run \<open>may_allocate\<close>, \<open>allocate_any_way\<close>, \<open>mark_deallocated\<close> and
  \<open>set_allocator_limit\<close> in any interleaving of their atomic steps, exchanges failing spuriously
  at will. As long as the bytes outstanding and one more request stay below \<open>2\<^sup>6\<^sup>4\<close> (which an
  address space enforces; the limit may be anything, the default \<open>usize::MAX\<close> included), the
  bytes that \<open>may_allocate\<close> has granted and that were not given back never exceed the greatest
  limit set so far, whatever was taken with \<open>allocate_any_way\<close> beside them; the counter is
  exactly what was granted and what was taken; and an answer is right for the limit the call
  read: when the exchange succeeds, all bytes outstanding and the request fit into it, and the
  counter has moved by the request, and when the call is refused, the count it read and the
  request do not fit.\<close>

theorem limit_never_exceeded:
  assumes "frun mx (start_system lim n) sys" and "mx < 2 ^ 64"
  shows "granted_total sys \<le> highest sys
    \<and> unat (ALLOCATED (shared sys)) = granted_total sys + forced_total sys
    \<and> (\<forall>i sz limit a sp b s'. i < length (threads sys) \<longrightarrow> pc (threads sys ! i) = Some (Loop sz limit a) \<longrightarrow>
         may_step sp (Loop sz limit a) (shared sys) = (Returned sz b, s') \<longrightarrow>
         unat limit \<le> highest sys
         \<and> (if b then outstanding sys + unat sz \<le> unat limit \<and> unat (ALLOCATED s') = outstanding sys + unat sz
            else unat limit < unat a + unat sz))"
proof (intro conjI allI impI)
  have inv: "linv mx sys" using linv_frun [OF assms] by simp
  then show "granted_total sys \<le> highest sys"
    "unat (ALLOCATED (shared sys)) = granted_total sys + forced_total sys"
    by (simp_all add: linv_def outstanding_def)
  fix i sz limit a sp b s'
  assume i: "i < length (threads sys)" "pc (threads sys ! i) = Some (Loop sz limit a)"
    and st: "may_step sp (Loop sz limit a) (shared sys) = (Returned sz b, s')"
  have ok: "pc_ok mx (highest sys) (Some (Loop sz limit a))"
    using inv i by (metis linv_def nth_mem)
  then show "unat limit \<le> highest sys" by simp
  from ok have "unat (a + sz) = unat a + unat sz"
    by (intro compared_sum [of _ mx]) simp_all
  with st inv show "if b then outstanding sys + unat sz \<le> unat limit \<and> unat (ALLOCATED s') = outstanding sys + unat sz
      else unat limit < unat a + unat sz"
    by (auto simp: linv_def Let_def not_less word_le_nat_alt word_less_nat_alt split: if_splits)
qed

text \<open>One thread under a limit of 10 bytes is granted 8 and then takes 4 without asking: 12 bytes
  are out, 8 of them granted. The run goes through each atomic step of the call.\<close>

definition one_thread :: "64 word \<Rightarrow> may_pc option \<Rightarrow> 64 word list \<Rightarrow> 64 word list \<Rightarrow> system" where
  "one_thread a p hs fs = \<lparr>shared = \<lparr>LIMIT = 10, ALLOCATED = a\<rparr>,
     threads = [\<lparr>pc = p, held = hs, forced = fs\<rparr>], highest = 10\<rparr>"

lemma frun_step:
  "frun mx a b \<Longrightarrow> lstep mx b b' \<Longrightarrow> b' = c \<Longrightarrow> fits mx c \<Longrightarrow> frun mx a c"
  unfolding frun_def by (auto intro: rtranclp.rtrancl_into_rtrancl)

lemma frun_one_thread:
  "frun 8 (start_system 10 1) (one_thread 0 (Some (Loop 8 10 0)) [] [])"
  "frun 8 (start_system 10 1) (one_thread 12 None [8] [4])"
proof -
  note defs = one_thread_def fits_def outstanding_def granted_total_def forced_total_def granted_to_def
    forced_by_def
  have "frun 8 (start_system 10 1) (one_thread 0 None [] [])"
    by (simp add: frun_def one_thread_def start_system_def set_allocator_limit_def initial_limit_state_def)
  then have "frun 8 (start_system 10 1) (one_thread 0 (Some (LoadLimit 8)) [] [])"
    by (rule frun_step [OF _ lstep.call [where i = 0 and sz = 8]]) (simp_all add: defs)
  then have "frun 8 (start_system 10 1) (one_thread 0 (Some (LoadAllocated 8 10)) [] [])"
    by (rule frun_step [OF _ lstep.atomic [where i = 0 and spurious = False]]) (auto simp: defs)
  then show "frun 8 (start_system 10 1) (one_thread 0 (Some (Loop 8 10 0)) [] [])"
    by (rule frun_step [OF _ lstep.atomic [where i = 0 and spurious = False]]) (auto simp: defs)
  then have "frun 8 (start_system 10 1) (one_thread 8 (Some (Returned 8 True)) [] [])"
    by (rule frun_step [OF _ lstep.atomic [where i = 0 and spurious = False]]) (auto simp: defs)
  then have "frun 8 (start_system 10 1) (one_thread 8 None [8] [])"
    by (rule frun_step [OF _ lstep.return [where i = 0 and b = True and sz = 8]]) (auto simp: defs)
  then show "frun 8 (start_system 10 1) (one_thread 12 None [8] [4])"
    by (rule frun_step [OF _ lstep.any_way [where i = 0 and sz = 4]])
       (auto simp: defs allocate_any_way_def)
qed

theorem limit_never_exceeded_witness:
  "granted_total (one_thread 12 None [8] [4]) = 8 \<and> 8 \<le> highest (one_thread 12 None [8] [4])
   \<and> unat (ALLOCATED (shared (one_thread 12 None [8] [4]))) = 8 + 4
   \<and> outstanding (one_thread 0 (Some (Loop 8 10 0)) [] []) + 8 \<le> 10"
proof -
  note defs = one_thread_def outstanding_def granted_total_def forced_total_def granted_to_def forced_by_def
  note run = limit_never_exceeded [OF frun_one_thread(2)] limit_never_exceeded [OF frun_one_thread(1)]
  have "\<forall>i sz limit a sp b s'. i < length (threads (one_thread 0 (Some (Loop 8 10 0)) [] [])) \<longrightarrow>
      pc (threads (one_thread 0 (Some (Loop 8 10 0)) [] []) ! i) = Some (Loop sz limit a) \<longrightarrow>
      may_step sp (Loop sz limit a) (shared (one_thread 0 (Some (Loop 8 10 0)) [] [])) = (Returned sz b, s') \<longrightarrow>
      unat limit \<le> highest (one_thread 0 (Some (Loop 8 10 0)) [] [])
      \<and> (if b then outstanding (one_thread 0 (Some (Loop 8 10 0)) [] []) + unat sz \<le> unat limit
             \<and> unat (ALLOCATED s') = outstanding (one_thread 0 (Some (Loop 8 10 0)) [] []) + unat sz
         else unat limit < unat a + unat sz)"
    using run(2) by simp
  from this [rule_format, of 0 8 10 0 False True "\<lparr>LIMIT = 10, ALLOCATED = 8\<rparr>"]
  have "outstanding (one_thread 0 (Some (Loop 8 10 0)) [] []) + 8 \<le> 10"
    by (simp add: one_thread_def)
  moreover have "granted_total (one_thread 12 None [8] [4]) = 8" "forced_total (one_thread 12 None [8] [4]) = 4"
    by (simp_all add: defs)
  ultimately show ?thesis using run(1) by simp
qed

text \<open>The additions are not checked: once the counter is high enough, a request whose sum wraps
  around 64 bits is granted, and the counter drops.\<close>

theorem may_allocate_wraps:
  assumes "2 ^ 64 \<le> unat (ALLOCATED s) + unat sz" and "LIMIT s = - 1"
  shows "fst (may_allocate sz s) \<and> ALLOCATED (snd (may_allocate sz s)) < ALLOCATED s"
proof -
  have "\<not> unat (ALLOCATED s) + unat sz < 2 ^ 64" using assms(1) by simp
  then have "ALLOCATED s + sz < ALLOCATED s"
    using no_olen_add_nat [of "ALLOCATED s" sz] by (simp add: word_less_nat_alt word_le_nat_alt)
  with assms(2) show ?thesis by (simp add: may_allocate_def not_less)
qed

theorem may_allocate_wraps_witness:
  "fst (may_allocate (2 ^ 63) \<lparr>LIMIT = - 1, ALLOCATED = 2 ^ 63\<rparr>)"
  using may_allocate_wraps [of "\<lparr>LIMIT = - 1, ALLOCATED = 2 ^ 63\<rparr>" "2 ^ 63"] by simp

end
