(* ===== verification/OsMem.thy ===== *)
theory OsMem
  imports Prelude
begin

text \<open>
  \<open>os/unix.rs\<close> and \<open>os/vec.rs\<close> on a 64-bit Linux target: the choice of huge pages, and the
  carving of an aligned block out of a larger mapping.

  The kernel is not part of the repository: \<open>mmap\<close> and \<open>munmap\<close> are the two functions of a
  record that every operation takes, over a kernel state of any type \<open>'w\<close>. The constants of the
  \<open>libc\<close> crate are a record too. What the documentation of the calls promises is the predicate
  \<open>kernel_ok\<close>, and for mappings of huge pages \<open>kernel_huge_ok\<close>; the constants of Linux are \<open>linux_libc\<close>.
\<close>

record libc =
  PROT_NONE :: "32 word"
  PROT_READ :: "32 word"
  PROT_WRITE :: "32 word"
  MAP_PRIVATE :: "32 word"
  MAP_ANONYMOUS :: "32 word"
  MAP_NORESERVE :: "32 word"
  MAP_FIXED :: "32 word"
  MAP_HUGETLB :: "32 word"
  MAP_HUGE_1GB :: "32 word"
  MAP_HUGE_2MB :: "32 word"
  MAP_FAILED :: addr

record 'w kernel =
  sys_mmap :: "addr \<Rightarrow> usize \<Rightarrow> 32 word \<Rightarrow> 32 word \<Rightarrow> 'w \<Rightarrow> addr \<times> 'w"
  sys_munmap :: "addr \<Rightarrow> usize \<Rightarrow> 'w \<Rightarrow> 'w"

text \<open>The static \<open>SHOULD_TRY_OPTION\<close> beside the kernel's state.\<close>

record 'w os_state =
  SHOULD_TRY_OPTION :: nat
  kern :: 'w

datatype MmapHugePageResult = HugePage | NotHugePage

definition SHOULD_TRY_1GB_HUGE_PAGE :: nat where "SHOULD_TRY_1GB_HUGE_PAGE = 2"
definition SHOULD_TRY_2MB_HUGE_PAGE :: nat where "SHOULD_TRY_2MB_HUGE_PAGE = 1"
definition SHOULD_NOT_TRY_HUGE_PAGE :: nat where "SHOULD_NOT_TRY_HUGE_PAGE = 0"

definition initial_os_state :: "'w \<Rightarrow> 'w os_state" where
  "initial_os_state w = \<lparr>SHOULD_TRY_OPTION = SHOULD_TRY_1GB_HUGE_PAGE, kern = w\<rparr>"

definition os_mmap ::
  "'w kernel \<Rightarrow> addr \<Rightarrow> usize \<Rightarrow> 32 word \<Rightarrow> 32 word \<Rightarrow> 'w os_state \<Rightarrow> addr \<times> 'w os_state" where
  "os_mmap K hint sz prot flags s =
     (case sys_mmap K hint sz prot flags (kern s) of (p, w) \<Rightarrow> (p, s\<lparr>kern := w\<rparr>))"

definition munmap_raw :: "'w kernel \<Rightarrow> addr \<Rightarrow> usize \<Rightarrow> 'w os_state \<Rightarrow> 'w os_state" where
  "munmap_raw K p sz s = s\<lparr>kern := sys_munmap K p sz (kern s)\<rparr>"

definition os_free :: "'w kernel \<Rightarrow> addr \<Rightarrow> usize \<Rightarrow> 'w os_state \<Rightarrow> 'w os_state" where
  "os_free K p sz s = s\<lparr>kern := sys_munmap K p sz (kern s)\<rparr>"

definition mmap_not_huge ::
  "libc \<Rightarrow> 'w kernel \<Rightarrow> addr \<Rightarrow> usize \<Rightarrow> 32 word \<Rightarrow> 32 word \<Rightarrow> 'w os_state \<Rightarrow> addr \<times> 'w os_state" where
  "mmap_not_huge L K hint sz prot flags s =
     (case os_mmap K hint sz prot flags s of (p, s') \<Rightarrow>
        (if p = MAP_FAILED L then 0 else p, s'))"

text \<open>The attempts with huge pages: the first call and, when its flags have a bit of
  \<open>MAP_HUGE_1GB\<close>, the second. The result is the pointer of the last call made.\<close>

definition huge_attempt ::
  "libc \<Rightarrow> 'w kernel \<Rightarrow> addr \<Rightarrow> usize \<Rightarrow> 32 word \<Rightarrow> 32 word \<Rightarrow> bool \<Rightarrow> 'w os_state \<Rightarrow> addr \<times> 'w os_state" where
  "huge_attempt L K hint sz prot flags may_be_1gb s =
     (let huge_page_flags = (flags AND NOT (MAP_NORESERVE L)) OR MAP_HUGETLB L;
          huge_page_flags = huge_page_flags OR (if may_be_1gb then MAP_HUGE_1GB L else MAP_HUGE_2MB L)
      in case os_mmap K hint sz prot huge_page_flags s of (p, s1) \<Rightarrow>
        if (p = 0 \<or> p = MAP_FAILED L) \<and> huge_page_flags AND MAP_HUGE_1GB L \<noteq> 0
        then os_mmap K hint sz prot ((huge_page_flags AND NOT (MAP_HUGE_1GB L)) OR MAP_HUGE_2MB L)
               (s1\<lparr>SHOULD_TRY_OPTION := SHOULD_TRY_2MB_HUGE_PAGE\<rparr>)
        else (p, s1))"

definition custom_mmap ::
  "libc \<Rightarrow> 'w kernel \<Rightarrow> addr \<Rightarrow> usize \<Rightarrow> 32 word \<Rightarrow> bool \<Rightarrow> bool \<Rightarrow> 'w os_state
     \<Rightarrow> (addr \<times> MmapHugePageResult) \<times> 'w os_state" where
  "custom_mmap L K hint sz prot commit huge_only s =
     (let flags = MAP_PRIVATE L OR MAP_ANONYMOUS L;
          flags = (if \<not> commit then flags OR MAP_NORESERVE L else flags);
          may_be_2mb = sz mod (2 * 1024 * 1024) = 0 \<and> SHOULD_TRY_OPTION s = SHOULD_TRY_2MB_HUGE_PAGE;
          may_be_1gb = sz mod (1024 * 1024 * 1024) = 0 \<and> SHOULD_TRY_OPTION s = SHOULD_TRY_1GB_HUGE_PAGE;
          fallback = (\<lambda>s. case mmap_not_huge L K hint sz prot flags s of (p, s') \<Rightarrow> ((p, NotHugePage), s'))
      in
        if huge_only \<or> may_be_2mb \<or> may_be_1gb then
          case huge_attempt L K hint sz prot flags may_be_1gb s of (p, s1) \<Rightarrow>
            if p \<noteq> MAP_FAILED L \<and> p \<noteq> 0 then ((p, HugePage), s1)
            else let s2 = s1\<lparr>SHOULD_TRY_OPTION := SHOULD_NOT_TRY_HUGE_PAGE\<rparr> in
              if huge_only then ((0, NotHugePage), s2) else fallback s2
        else fallback s)"

definition alloc_from_os ::
  "libc \<Rightarrow> 'w kernel \<Rightarrow> addr \<Rightarrow> usize \<Rightarrow> bool \<Rightarrow> bool \<Rightarrow> 'w os_state
     \<Rightarrow> (addr \<times> MmapHugePageResult) \<times> 'w os_state" where
  "alloc_from_os L K hint sz commit huge_only s =
     custom_mmap L K hint sz (if commit then PROT_READ L OR PROT_WRITE L else PROT_NONE L)
       commit huge_only s"

text \<open>The pointer arithmetic of \<open>alloc_aligned_from_os\<close>.\<close>

definition align_up :: "addr \<Rightarrow> usize \<Rightarrow> addr" where
  "align_up base align = and_not (base + (align - 1)) (align - 1)"

definition alloc_aligned_from_os ::
  "libc \<Rightarrow> 'w kernel \<Rightarrow> addr \<Rightarrow> usize \<Rightarrow> bool \<Rightarrow> bool \<Rightarrow> usize \<Rightarrow> 'w os_state
     \<Rightarrow> (addr \<times> MmapHugePageResult) \<times> 'w os_state" where
  "alloc_aligned_from_os L K hint sz commit huge_only align s =
     (let extra = align - 1;
          alloc_size = extra + sz
      in case alloc_from_os L K hint alloc_size False huge_only s of ((base, res), s1) \<Rightarrow>
        if base = 0 then ((base, res), s1)
        else let aligned = align_up base align;
                 s2 = (if commit then snd (os_mmap K aligned sz (PROT_READ L OR PROT_WRITE L)
                         (((MAP_PRIVATE L OR MAP_ANONYMOUS L) OR MAP_NORESERVE L) OR MAP_FIXED L) s1)
                       else s1);
                 s3 = (if aligned > base then munmap_raw K base (aligned - base) s2 else s2);
                 end_ptr = aligned + sz;
                 alloc_end = base + alloc_size;
                 s4 = (if end_ptr < alloc_end then munmap_raw K end_ptr (alloc_end - end_ptr) s3 else s3)
             in ((aligned, res), s4))"

section \<open>What the kernel promises\<close>

text \<open>\<open>mapped w\<close> is the set of mapped bytes. \<open>mmap\<close> of ordinary pages without \<open>MAP_FIXED\<close> returns
  \<open>MAP_FAILED\<close> and changes nothing, or the non-zero page-aligned start of whole pages that were
  free and are mapped now, inside the 47-bit user address space. \<open>mmap\<close> with \<open>MAP_FIXED\<close> over
  mapped pages leaves the set of mapped bytes as it is. \<open>munmap\<close> of a page-aligned address
  removes whole pages.\<close>

definition PAGE :: usize where "PAGE = 4096"

definition pages :: "usize \<Rightarrow> usize" where
  "pages sz = (sz + (PAGE - 1)) div PAGE * PAGE"

definition kernel_ok :: "libc \<Rightarrow> 'w kernel \<Rightarrow> ('w \<Rightarrow> addr set) \<Rightarrow> bool" where
  "kernel_ok L K mapped \<longleftrightarrow>
     (\<forall>hint sz prot flags w p w'. sys_mmap K hint sz prot flags w = (p, w') \<and> 0 < sz
        \<and> flags AND MAP_FIXED L = 0 \<and> flags AND MAP_HUGETLB L = 0 \<longrightarrow>
          p = MAP_FAILED L \<and> mapped w' = mapped w
          \<or> p \<noteq> MAP_FAILED L \<and> p \<noteq> 0 \<and> PAGE dvd p \<and> p + pages sz \<le> 2 ^ 47
            \<and> mapped w \<inter> range_of p (pages sz) = {} \<and> mapped w' = mapped w \<union> range_of p (pages sz))
     \<and> (\<forall>p sz prot flags w. PAGE dvd p \<and> flags AND MAP_FIXED L = MAP_FIXED L
          \<and> range_of p (pages sz) \<subseteq> mapped w
          \<longrightarrow> mapped (snd (sys_mmap K p sz prot flags w)) = mapped w)
     \<and> (\<forall>p sz w. PAGE dvd p \<and> 0 < sz \<longrightarrow> mapped (sys_munmap K p sz w) = mapped w - range_of p (pages sz))"

text \<open>The flags of an ordinary mapping are other bits than \<open>MAP_FIXED\<close> and \<open>MAP_HUGETLB\<close>. The
  constants of Linux on x86-64 (\<open>linux/mman.h\<close>: 30 and 21 shifted by 26 for the huge sizes)
  are \<open>linux_libc\<close>.\<close>

definition libc_ok :: "libc \<Rightarrow> bool" where
  "libc_ok L \<longleftrightarrow>
     (\<forall>f\<in>{MAP_PRIVATE L, MAP_ANONYMOUS L, MAP_NORESERVE L}.
        f AND MAP_FIXED L = 0 \<and> f AND MAP_HUGETLB L = 0)"

definition linux_libc :: libc where
  "linux_libc = \<lparr>PROT_NONE = 0, PROT_READ = 1, PROT_WRITE = 2, MAP_PRIVATE = 2, MAP_ANONYMOUS = 32,
     MAP_NORESERVE = 16384, MAP_FIXED = 16, MAP_HUGETLB = 262144,
     MAP_HUGE_1GB = 2013265920, MAP_HUGE_2MB = 1409286144, MAP_FAILED = 2 ^ 64 - 1\<rparr>"

section \<open>Aligned blocks\<close>

lemma pages_dvd [simp]: "PAGE dvd sz \<Longrightarrow> pages sz = sz"
  by (auto simp: pages_def PAGE_def elim!: dvdE)

lemma pages_pred: "PAGE dvd sz \<Longrightarrow> 0 < sz \<Longrightarrow> pages (sz - 1) = sz"
  by (auto simp: pages_def PAGE_def elim!: dvdE)

lemma align_up_facts:
  assumes "base \<le> 2 ^ 47" and "k \<le> 46"
  shows "2 ^ k dvd align_up base (2 ^ k)" and "base \<le> align_up base (2 ^ k)"
    and "align_up base (2 ^ k) < base + 2 ^ k"
proof -
  have "(2::nat) ^ k \<le> 2 ^ 46" using assms(2) by (intro power_increasing) simp_all
  then have "base + (2 ^ k - 1) < 2 ^ 64" using assms(1) by simp
  then have e: "align_up base (2 ^ k) = (base + (2 ^ k - 1)) div 2 ^ k * 2 ^ k"
    unfolding align_up_def by (rule and_not_pow2)
  have "(0::nat) < 2 ^ k" by simp
  moreover from this have "(base + (2 ^ k - 1)) mod 2 ^ k < 2 ^ k" by (rule mod_less_divisor)
  moreover have "(base + (2 ^ k - 1)) div 2 ^ k * 2 ^ k + (base + (2 ^ k - 1)) mod 2 ^ k = base + (2 ^ k - 1)"
    by (rule div_mult_mod_eq)
  ultimately show "base \<le> align_up base (2 ^ k)" "align_up base (2 ^ k) < base + 2 ^ k"
    unfolding e by linarith+
  show "2 ^ k dvd align_up base (2 ^ k)" unfolding e by simp
qed

text \<open>An aligned request asks for an odd number of bytes, so it is never tried on huge pages.\<close>

lemma custom_mmap_odd:
  assumes "odd sz"
  shows "custom_mmap L K hint sz prot False False s =
    (case mmap_not_huge L K hint sz prot ((MAP_PRIVATE L OR MAP_ANONYMOUS L) OR MAP_NORESERVE L) s of
       (p, s') \<Rightarrow> ((p, NotHugePage), s'))"
proof -
  have "sz mod m \<noteq> 0" if "even m" for m
    using that assms by (metis dvd_trans mod_0_imp_dvd)
  then have "sz mod (2 * 1024 * 1024) \<noteq> 0" "sz mod (1024 * 1024 * 1024) \<noteq> 0" by simp_all
  then show ?thesis by (simp add: custom_mmap_def)
qed

lemma ordinary_flags:
  assumes "libc_ok L"
  defines "f \<equiv> (MAP_PRIVATE L OR MAP_ANONYMOUS L) OR MAP_NORESERVE L"
  shows "f AND MAP_FIXED L = 0" "f AND MAP_HUGETLB L = 0"
    "(f OR MAP_FIXED L) AND MAP_FIXED L = MAP_FIXED L"
  using assms by (simp_all add: libc_ok_def bit.conj_disj_distrib2)

lemma kernel_mmap:
  assumes "kernel_ok L K mapped" and "libc_ok L" and "0 < sz"
    and "mmap_not_huge L K hint sz prot ((MAP_PRIVATE L OR MAP_ANONYMOUS L) OR MAP_NORESERVE L) s = (p, s')"
  shows "p = 0 \<and> mapped (kern s') = mapped (kern s)
    \<or> p \<noteq> 0 \<and> PAGE dvd p \<and> p + pages sz \<le> 2 ^ 47 \<and> mapped (kern s) \<inter> range_of p (pages sz) = {}
      \<and> mapped (kern s') = mapped (kern s) \<union> range_of p (pages sz)"
proof -
  let ?f = "(MAP_PRIVATE L OR MAP_ANONYMOUS L) OR MAP_NORESERVE L"
  obtain q w where q: "sys_mmap K hint sz prot ?f (kern s) = (q, w)" by fastforce
  with assms(4) have p: "p = (if q = MAP_FAILED L then 0 else q)" "kern s' = w"
    by (auto simp: mmap_not_huge_def os_mmap_def)
  from assms(1) have "\<forall>hint sz prot flags w p w'. sys_mmap K hint sz prot flags w = (p, w') \<and> 0 < sz
        \<and> flags AND MAP_FIXED L = 0 \<and> flags AND MAP_HUGETLB L = 0 \<longrightarrow>
          p = MAP_FAILED L \<and> mapped w' = mapped w
          \<or> p \<noteq> MAP_FAILED L \<and> p \<noteq> 0 \<and> PAGE dvd p \<and> p + pages sz \<le> 2 ^ 47
            \<and> mapped w \<inter> range_of p (pages sz) = {} \<and> mapped w' = mapped w \<union> range_of p (pages sz)"
    unfolding kernel_ok_def by (elim conjE) assumption
  from this [rule_format, OF conjI [OF q conjI [OF assms(3) conjI [OF ordinary_flags(1,2) [OF assms(2)]]]]]
  have "q = MAP_FAILED L \<and> mapped w = mapped (kern s)
    \<or> q \<noteq> MAP_FAILED L \<and> q \<noteq> 0 \<and> PAGE dvd q \<and> q + pages sz \<le> 2 ^ 47
      \<and> mapped (kern s) \<inter> range_of q (pages sz) = {} \<and> mapped w = mapped (kern s) \<union> range_of q (pages sz)" .
  then show ?thesis unfolding p by auto
qed

lemma kernel_fixed:
  assumes "kernel_ok L K mapped" and "libc_ok L" and "PAGE dvd p"
    and "range_of p (pages sz) \<subseteq> mapped (kern s)"
  shows "mapped (kern (snd (os_mmap K p sz prot
    (((MAP_PRIVATE L OR MAP_ANONYMOUS L) OR MAP_NORESERVE L) OR MAP_FIXED L) s))) = mapped (kern s)"
proof -
  from assms(1) have "\<forall>p sz prot flags w. PAGE dvd p \<and> flags AND MAP_FIXED L = MAP_FIXED L
      \<and> range_of p (pages sz) \<subseteq> mapped w \<longrightarrow> mapped (snd (sys_mmap K p sz prot flags w)) = mapped w"
    unfolding kernel_ok_def by (elim conjE) assumption
  from this [rule_format, OF conjI [OF assms(3) conjI [OF ordinary_flags(3) [OF assms(2)] assms(4)]]]
  show ?thesis unfolding os_mmap_def by (simp add: case_prod_unfold)
qed

lemma kernel_unmap:
  assumes "kernel_ok L K mapped" and "PAGE dvd p" and "0 < sz"
  shows "mapped (kern (munmap_raw K p sz s)) = mapped (kern s) - range_of p (pages sz)"
  using assms unfolding kernel_ok_def munmap_raw_def by simp

lemma range_of_split: "range_of p (n + m) = range_of p n \<union> range_of (p + n) m"
  by (auto simp: range_of_def)

lemma dvd_less_add: "(d::nat) dvd a \<Longrightarrow> d dvd b \<Longrightarrow> a < b \<Longrightarrow> a + d \<le> b"
  by (auto elim!: dvdE)
    (metis Suc_leI mult_less_cancel1 mult_Suc_right mult_le_mono2 add.commute)

lemma alloc_aligned_block_facts:
  assumes K: "kernel_ok L K mapped" and L: "libc_ok L"
    and k: "12 \<le> k" "k \<le> 46" and sz: "PAGE dvd sz" "0 < sz"
    and run: "alloc_aligned_from_os L K hint sz commit False (2 ^ k) s = ((p, res), s')"
  shows "res = NotHugePage
    \<and> (p = 0 \<and> mapped (kern s') = mapped (kern s)
       \<or> p \<noteq> 0 \<and> 2 ^ k dvd p \<and> p + sz \<le> 2 ^ 47 \<and> mapped (kern s) \<inter> range_of p sz = {}
         \<and> mapped (kern s') = mapped (kern s) \<union> range_of p sz)"
proof -
  let ?al = "(2::nat) ^ k"
  let ?n = "?al - 1 + sz"
  have al: "PAGE dvd ?al" "PAGE \<le> ?al"
    using le_imp_power_dvd [OF k(1), of "2::nat"] power_increasing [OF k(1), of "2::nat"]
    by (simp_all add: PAGE_def)
  have "even sz" using sz(1) by (auto simp: PAGE_def elim!: dvdE)
  moreover have "even ?al" using k(1) by simp
  ultimately have odd: "odd ?n" using al(2) by (simp add: PAGE_def)
  have pn: "pages ?n = ?al + sz"
    using pages_pred [of "?al + sz"] al sz by (simp add: PAGE_def add.commute)
  obtain base s1 where b: "mmap_not_huge L K hint ?n (PROT_NONE L)
      ((MAP_PRIVATE L OR MAP_ANONYMOUS L) OR MAP_NORESERVE L) s = (base, s1)" by fastforce
  have os: "alloc_from_os L K hint ?n False False s = ((base, NotHugePage), s1)"
    unfolding alloc_from_os_def custom_mmap_odd [OF odd] if_False b by simp
  have "0 < ?n" using al(2) sz(2) by (simp add: PAGE_def)
  note mm = kernel_mmap [OF K L this b, unfolded pn]
  show ?thesis
  proof (cases "base = 0")
    case True
    with run os mm show ?thesis by (simp add: alloc_aligned_from_os_def Let_def)
  next
    case False
    with mm sz have base: "PAGE dvd base" "base + (?al + sz) \<le> 2 ^ 47"
      "mapped (kern s) \<inter> range_of base (?al + sz) = {}"
      "mapped (kern s1) = mapped (kern s) \<union> range_of base (?al + sz)" by auto
    define a where "a = align_up base ?al"
    from base(2) have "base \<le> 2 ^ 47" by simp
    note a = align_up_facts [OF this k(2), folded a_def]
    have pa: "PAGE dvd a" using al(1) a(1) by (rule dvd_trans)
    from dvd_less_add [of PAGE a "base + ?al"] pa base(1) al(1) a(3)
    have ap: "a + PAGE \<le> base + ?al" by simp
    define h t where "h = a - base" and "t = base + ?n - (a + sz)"
    have h: "PAGE dvd h" "base + h = a" using pa base(1) a(2) by (simp_all add: h_def dvd_diff_nat)
    have t: "0 < t" "t = (base + ?al - a) - 1" using ap al(2) by (simp_all add: t_def PAGE_def)
    have pt: "pages t = base + ?al - a"
      unfolding t(2) using pa base(1) al(1) a(3) by (intro pages_pred) (simp_all add: dvd_diff_nat)
    have split: "range_of base (?al + sz) = range_of base h \<union> range_of a sz \<union> range_of (a + sz) (pages t)"
      using range_of_split [of base h "sz + pages t"] range_of_split [of a sz "pages t"] h(2) a(2,3) pt
      by (simp add: h_def Un_assoc algebra_simps)
    define s2 where "s2 = (if commit then snd (os_mmap K a sz (PROT_READ L OR PROT_WRITE L)
      (((MAP_PRIVATE L OR MAP_ANONYMOUS L) OR MAP_NORESERVE L) OR MAP_FIXED L) s1) else s1)"
    have s2: "mapped (kern s2) = mapped (kern s1)"
    proof (cases commit)
      case True
      have "range_of a (pages sz) \<subseteq> mapped (kern s1)"
        unfolding base(4) split using sz(1) by auto
      from kernel_fixed [OF K L pa this] True show ?thesis by (simp add: s2_def)
    qed (simp add: s2_def)
    define s3 where "s3 = (if base < a then munmap_raw K base h s2 else s2)"
    have s3: "mapped (kern s3) = mapped (kern s2) - range_of base h"
    proof (cases "base < a")
      case True
      then show ?thesis
        unfolding s3_def using kernel_unmap [OF K base(1), of h s2] h(1) by (simp add: h_def)
    next
      case False
      then show ?thesis by (simp add: s3_def h_def range_of_def)
    qed
    have "a + sz < base + ?n" using t(1) by (simp add: t_def)
    then have "alloc_aligned_from_os L K hint sz commit False ?al s = ((a, NotHugePage), munmap_raw K (a + sz) t s3)"
      unfolding alloc_aligned_from_os_def Let_def os prod.case if_not_P [OF False]
      unfolding a_def [symmetric] h_def [symmetric] t_def [symmetric]
      unfolding s2_def [symmetric] unfolding s3_def [symmetric] by (simp only: if_True)
    with run have e: "p = a" "res = NotHugePage" "s' = munmap_raw K (a + sz) t s3" by auto
    have "mapped (kern s') = mapped (kern s3) - range_of (a + sz) (pages t)"
      unfolding e using pa sz(1) t(1) by (intro kernel_unmap [OF K]) simp_all
    moreover have "range_of base h \<inter> range_of a sz = {}" "range_of (a + sz) (pages t) \<inter> range_of a sz = {}"
      using h(2) by (auto simp: range_of_def)
    ultimately have "mapped (kern s') = mapped (kern s) \<union> range_of a sz"
      using s3 s2 base(3,4) split by auto
    moreover have "a + sz \<le> 2 ^ 47" using \<open>a + sz < base + ?n\<close> base(2) by linarith
    ultimately show ?thesis using e a(1,2) base(3) split False by auto
  qed
qed

text \<open>C14: an aligned request returns null and leaves the mappings alone, or returns an ordinary,
  non-null, aligned block: exactly its bytes are mapped afterwards and were not before, the head and
  the tail of the larger mapping having been given back, committed or not.\<close>

theorem alloc_aligned_block:
  assumes "kernel_ok L K mapped" and "libc_ok L"
    and "12 \<le> k" and "k \<le> 46" and "PAGE dvd sz" and "0 < sz"
    and "alloc_aligned_from_os L K hint sz commit False (2 ^ k) s = ((p, res), s')"
  shows "res = NotHugePage
    \<and> (p = 0 \<and> mapped (kern s') = mapped (kern s)
       \<or> p \<noteq> 0 \<and> 2 ^ k dvd p \<and> mapped (kern s) \<inter> range_of p sz = {}
         \<and> mapped (kern s') = mapped (kern s) \<union> range_of p sz)"
  using alloc_aligned_block_facts [OF assms] by blast

text \<open>A kernel with one place for a mapping, for the witnesses.\<close>

definition one_place :: "addr set kernel" where
  "one_place = \<lparr>
     sys_mmap = (\<lambda>hint sz prot flags w.
       if flags AND MAP_FIXED linux_libc \<noteq> 0 then (hint, w)
       else if w \<inter> range_of PAGE (pages sz) = {} \<and> PAGE + pages sz \<le> 2 ^ 47
         then (PAGE, w \<union> range_of PAGE (pages sz)) else (MAP_FAILED linux_libc, w)),
     sys_munmap = (\<lambda>p sz w. w - range_of p (pages sz))\<rparr>"

lemma linux_libc_ok: "libc_ok linux_libc"
  by (simp add: libc_ok_def linux_libc_def)

lemma one_place_ok: "kernel_ok linux_libc one_place (\<lambda>w. w)"
  unfolding kernel_ok_def
proof (intro conjI allI impI)
  show "p = MAP_FAILED linux_libc \<and> w' = w
      \<or> p \<noteq> MAP_FAILED linux_libc \<and> p \<noteq> 0 \<and> PAGE dvd p \<and> p + pages sz \<le> 2 ^ 47
        \<and> w \<inter> range_of p (pages sz) = {} \<and> w' = w \<union> range_of p (pages sz)"
    if "sys_mmap one_place hint sz prot flags w = (p, w') \<and> 0 < sz
        \<and> flags AND MAP_FIXED linux_libc = 0 \<and> flags AND MAP_HUGETLB linux_libc = 0"
    for hint sz prot flags w p w'
  proof -
    have "PAGE \<noteq> MAP_FAILED linux_libc" "PAGE \<noteq> 0" by (simp_all add: PAGE_def linux_libc_def)
    with that show ?thesis by (simp add: one_place_def split: if_splits)
  qed
  show "snd (sys_mmap one_place p sz prot flags w) = w"
    if "PAGE dvd p \<and> flags AND MAP_FIXED linux_libc = MAP_FIXED linux_libc \<and> range_of p (pages sz) \<subseteq> w"
    for p sz prot flags w
  proof -
    have "MAP_FIXED linux_libc \<noteq> 0" by (simp add: linux_libc_def)
    with that show ?thesis by (simp add: one_place_def)
  qed
qed (simp add: one_place_def)

theorem alloc_aligned_block_witness:
  "\<exists>p s'. alloc_aligned_from_os linux_libc one_place 0 PAGE True False (2 ^ 12) (initial_os_state {})
       = ((p, NotHugePage), s') \<and> 2 ^ 12 dvd p \<and> (p \<noteq> 0 \<longrightarrow> kern s' = range_of p PAGE)"
proof -
  obtain p res s' where run: "alloc_aligned_from_os linux_libc one_place 0 PAGE True False (2 ^ 12)
      (initial_os_state {}) = ((p, res), s')" by (metis surj_pair)
  have "0 < PAGE" by (simp add: PAGE_def)
  from alloc_aligned_block [OF one_place_ok linux_libc_ok _ _ dvd_refl this run] run
  show ?thesis by (auto simp: initial_os_state_def)
qed

text \<open>What the documentation promises of access, \<open>acc w\<close> being the bytes that may be read and
  written: they are mapped; a call that returns \<open>MAP_FAILED\<close> changes none of them; fresh pages of
  \<open>PROT_NONE\<close> add none; a successful \<open>MAP_FIXED\<close> call with \<open>PROT_READ | PROT_WRITE\<close> over mapped
  pages makes these accessible; \<open>munmap\<close> takes its pages away.\<close>

definition access_ok :: "libc \<Rightarrow> 'w kernel \<Rightarrow> ('w \<Rightarrow> addr set) \<Rightarrow> ('w \<Rightarrow> addr set) \<Rightarrow> bool" where
  "access_ok L K mapped acc \<longleftrightarrow>
     (\<forall>w. acc w \<subseteq> mapped w)
     \<and> (\<forall>p sz prot flags w w'. sys_mmap K p sz prot flags w = (MAP_FAILED L, w') \<longrightarrow> acc w' = acc w)
     \<and> (\<forall>hint sz flags w. flags AND MAP_FIXED L = 0 \<longrightarrow>
          acc (snd (sys_mmap K hint sz (PROT_NONE L) flags w)) = acc w)
     \<and> (\<forall>p sz flags w q w'. sys_mmap K p sz (PROT_READ L OR PROT_WRITE L) flags w = (q, w') \<and> q \<noteq> MAP_FAILED L
          \<and> PAGE dvd p \<and> flags AND MAP_FIXED L = MAP_FIXED L \<and> range_of p (pages sz) \<subseteq> mapped w \<longrightarrow>
          acc w' = acc w \<union> range_of p (pages sz))
     \<and> (\<forall>p sz w. PAGE dvd p \<and> 0 < sz \<longrightarrow> acc (sys_munmap K p sz w) = acc w - range_of p (pages sz))"

lemma access_of_commit:
  assumes "access_ok L K mapped acc" and "libc_ok L" and "PAGE dvd p" and "range_of p (pages sz) \<subseteq> mapped (kern s)"
    and "os_mmap K p sz (PROT_READ L OR PROT_WRITE L)
      (((MAP_PRIVATE L OR MAP_ANONYMOUS L) OR MAP_NORESERVE L) OR MAP_FIXED L) s = (q, s')"
  shows "acc (kern s') = (if q = MAP_FAILED L then acc (kern s) else acc (kern s) \<union> range_of p (pages sz))"
proof -
  obtain w where w: "sys_mmap K p sz (PROT_READ L OR PROT_WRITE L)
      (((MAP_PRIVATE L OR MAP_ANONYMOUS L) OR MAP_NORESERVE L) OR MAP_FIXED L) (kern s) = (q, w)" "kern s' = w"
    using assms(5) by (auto simp: os_mmap_def split: prod.splits)
  from assms(1) have fail: "\<forall>p sz prot flags w w'. sys_mmap K p sz prot flags w = (MAP_FAILED L, w') \<longrightarrow> acc w' = acc w"
    unfolding access_ok_def by (elim conjE) assumption
  from assms(1) have "\<forall>p sz flags w q w'. sys_mmap K p sz (PROT_READ L OR PROT_WRITE L) flags w = (q, w') \<and> q \<noteq> MAP_FAILED L
          \<and> PAGE dvd p \<and> flags AND MAP_FIXED L = MAP_FIXED L \<and> range_of p (pages sz) \<subseteq> mapped w \<longrightarrow>
          acc w' = acc w \<union> range_of p (pages sz)"
    unfolding access_ok_def by (elim conjE) assumption
  note good = this [rule_format, OF conjI [OF w(1) conjI [OF _ conjI [OF assms(3) conjI
    [OF ordinary_flags(3) [OF assms(2)] assms(4)]]]]]
  show ?thesis
    using w fail good by (cases "q = MAP_FAILED L") auto
qed

lemma access_of_reservation:
  assumes "access_ok L K mapped acc" and "libc_ok L"
    and "mmap_not_huge L K hint sz (PROT_NONE L) ((MAP_PRIVATE L OR MAP_ANONYMOUS L) OR MAP_NORESERVE L) s = (p, s')"
  shows "acc (kern s') = acc (kern s)"
proof -
  have "kern s' = snd (sys_mmap K hint sz (PROT_NONE L) ((MAP_PRIVATE L OR MAP_ANONYMOUS L) OR MAP_NORESERVE L) (kern s))"
    using assms(3) by (auto simp: mmap_not_huge_def os_mmap_def split: prod.splits)
  with assms(1) ordinary_flags(1) [OF assms(2)] show ?thesis
    unfolding access_ok_def by simp
qed

text \<open>What the trimming of head and tail leaves accessible in the block.\<close>

lemma access_of_unmap:
  assumes "access_ok L K mapped acc" and "PAGE dvd p" and "0 < sz"
    and "range_of p (pages sz) \<inter> R = {}"
  shows "acc (kern (munmap_raw K p sz s)) \<inter> R = acc (kern s) \<inter> R"
  using assms unfolding access_ok_def munmap_raw_def by auto

text \<open>The reservation an aligned block is cut out of.\<close>

lemma aligned_reservation:
  assumes K: "kernel_ok L K mapped" and L: "libc_ok L" and k: "12 \<le> k" and sz: "PAGE dvd sz" "0 < sz"
    and reserve: "alloc_from_os L K hint (2 ^ k - 1 + sz) False False s = ((base, res), s1)" "base \<noteq> 0"
  shows "mmap_not_huge L K hint (2 ^ k - 1 + sz) (PROT_NONE L)
      ((MAP_PRIVATE L OR MAP_ANONYMOUS L) OR MAP_NORESERVE L) s = (base, s1)"
    and "PAGE dvd base \<and> base + (2 ^ k + sz) \<le> 2 ^ 47 \<and> mapped (kern s) \<inter> range_of base (2 ^ k + sz) = {}
      \<and> mapped (kern s1) = mapped (kern s) \<union> range_of base (2 ^ k + sz)"
proof -
  have al: "PAGE dvd 2 ^ k" "PAGE \<le> 2 ^ k"
    using le_imp_power_dvd [OF k, of "2::nat"] power_increasing [OF k, of "2::nat"]
    by (simp_all add: PAGE_def)
  have "even sz" using sz(1) by (auto simp: PAGE_def elim!: dvdE)
  then have odd: "odd (2 ^ k - 1 + sz)" using al(2) k by (simp add: PAGE_def)
  show m: "mmap_not_huge L K hint (2 ^ k - 1 + sz) (PROT_NONE L)
      ((MAP_PRIVATE L OR MAP_ANONYMOUS L) OR MAP_NORESERVE L) s = (base, s1)"
    using reserve(1) unfolding alloc_from_os_def custom_mmap_odd [OF odd] if_False by (auto split: prod.splits)
  have pn: "pages (2 ^ k - 1 + sz) = 2 ^ k + sz"
    using pages_pred [of "2 ^ k + sz"] al sz by (simp add: PAGE_def add.commute)
  have n0: "0 < 2 ^ k - 1 + sz" using sz(2) by (rule trans_less_add2)
  show "PAGE dvd base \<and> base + (2 ^ k + sz) \<le> 2 ^ 47 \<and> mapped (kern s) \<inter> range_of base (2 ^ k + sz) = {}
      \<and> mapped (kern s1) = mapped (kern s) \<union> range_of base (2 ^ k + sz)"
    using kernel_mmap [OF K L n0 m, unfolded pn] sz(2) reserve(2) by simp
qed

text \<open>C37: the commit of an aligned block is not checked outside of test builds: the answer is the
  non-null aligned address, whatever the second \<open>mmap\<close> returned. When that call succeeded every
  byte of the block can be read and written; when it failed, the same address is returned as
  if it had succeeded, its pages mapped but not one byte accessible.\<close>

theorem commit_failure_returned_as_success:
  assumes K: "kernel_ok L K mapped" "access_ok L K mapped acc" and L: "libc_ok L"
    and k: "12 \<le> k" "k \<le> 46" and sz: "PAGE dvd sz" "0 < sz"
    and reserve: "alloc_from_os L K hint (2 ^ k - 1 + sz) False False s = ((base, res), s1)" "base \<noteq> 0"
    and commit: "os_mmap K (align_up base (2 ^ k)) sz (PROT_READ L OR PROT_WRITE L)
      (((MAP_PRIVATE L OR MAP_ANONYMOUS L) OR MAP_NORESERVE L) OR MAP_FIXED L) s1 = (q, s2)"
    and run: "alloc_aligned_from_os L K hint sz True False (2 ^ k) s = ((p, r), s')"
  shows "p = align_up base (2 ^ k) \<and> r = NotHugePage \<and> p \<noteq> 0 \<and> 2 ^ k dvd p
    \<and> range_of p sz \<subseteq> mapped (kern s')
    \<and> (if q = MAP_FAILED L then range_of p sz \<inter> acc (kern s') = {} else range_of p sz \<subseteq> acc (kern s'))"
proof -
  define a where "a = align_up base (2 ^ k)"
  define h t where "h = a - base" and "t = base + (2 ^ k - 1 + sz) - (a + sz)"
  note m = aligned_reservation(1) [OF K(1) L k(1) sz reserve]
  note base = aligned_reservation(2) [OF K(1) L k(1) sz reserve, THEN conjunct1]
    aligned_reservation(2) [OF K(1) L k(1) sz reserve, THEN conjunct2, THEN conjunct1]
    aligned_reservation(2) [OF K(1) L k(1) sz reserve, THEN conjunct2, THEN conjunct2, THEN conjunct1]
    aligned_reservation(2) [OF K(1) L k(1) sz reserve, THEN conjunct2, THEN conjunct2, THEN conjunct2]
  from base(2) have "base \<le> 2 ^ 47" by simp
  note a = align_up_facts [OF this k(2), folded a_def]
  have "PAGE dvd 2 ^ k" using le_imp_power_dvd [OF k(1), of "2::nat"] by (simp add: PAGE_def)
  then have pa: "PAGE dvd a" using a(1) by (rule dvd_trans)
  have inside: "range_of a sz \<subseteq> range_of base (2 ^ k + sz)"
    using a(2,3) by (auto simp: range_of_def)
  have c: "acc (kern s2) = (if q = MAP_FAILED L then acc (kern s) else acc (kern s) \<union> range_of a sz)"
  proof -
    have "range_of a (pages sz) \<subseteq> mapped (kern s1)"
      using inside base(4) sz(1) by (simp add: le_supI2)
    from access_of_commit [OF K(2) L pa this commit [folded a_def]] sz(1) show ?thesis
      by (simp add: access_of_reservation [OF K(2) L m])
  qed
  define s3 where "s3 = (if base < a then munmap_raw K base h s2 else s2)"
  have s3: "acc (kern s3) \<inter> range_of a sz = acc (kern s2) \<inter> range_of a sz"
    unfolding s3_def using access_of_unmap [OF K(2) base(1), of h "range_of a sz" s2] pa base(1) a(2)
    by (auto simp: h_def range_of_def dvd_diff_nat)
  have e: "((p, r), s') = ((a, res),
      if a + sz < base + (2 ^ k - 1 + sz) then munmap_raw K (a + sz) t s3 else s3)"
    unfolding run [symmetric] alloc_aligned_from_os_def Let_def reserve(1) prod.case if_not_P [OF reserve(2)]
    unfolding a_def [symmetric] if_True commit [folded a_def] snd_conv
    unfolding h_def [symmetric] t_def [symmetric] s3_def [symmetric] ..
  then have p: "p = a" by simp
  have "acc (kern s') \<inter> range_of a sz = acc (kern s3) \<inter> range_of a sz"
  proof (cases "a + sz < base + (2 ^ k - 1 + sz)")
    case True
    then have "0 < t" by (simp add: t_def)
    moreover have "range_of (a + sz) (pages t) \<inter> range_of a sz = {}" by (auto simp: range_of_def)
    moreover have "s' = munmap_raw K (a + sz) t s3" using e True by simp
    ultimately show ?thesis
      using access_of_unmap [OF K(2), of "a + sz" t "range_of a sz" s3] pa sz(1) by simp
  qed (use e in simp)
  with s3 have s': "acc (kern s') \<inter> range_of a sz = acc (kern s2) \<inter> range_of a sz" by simp
  have none: "acc (kern s) \<inter> range_of a sz = {}"
  proof -
    have "acc (kern s) \<subseteq> mapped (kern s)" using K(2) unfolding access_ok_def by (elim conjE) (rule spec)
    with base(3) inside show ?thesis by blast
  qed
  have "0 < a" using reserve(2) a(2) by simp
  moreover have "r = NotHugePage \<and> range_of a sz \<subseteq> mapped (kern s')"
    using alloc_aligned_block_facts [OF K(1) L k sz run] p \<open>0 < a\<close> by auto
  moreover have "if q = MAP_FAILED L then range_of a sz \<inter> acc (kern s') = {} else range_of a sz \<subseteq> acc (kern s')"
  proof (cases "q = MAP_FAILED L")
    case True
    with c s' none show ?thesis by (simp add: Int_commute)
  next
    case False
    with c have "range_of a sz \<subseteq> acc (kern s2)" by simp
    with s' False show ?thesis by auto
  qed
  ultimately show ?thesis using a(1) unfolding p a_def [symmetric] by simp
qed

text \<open>The kernel with one place, its state the mapped bytes and those made accessible, which commits
  pages or refuses to.\<close>

definition committing :: "bool \<Rightarrow> (addr set \<times> addr set) kernel" where
  "committing commits = \<lparr>
     sys_mmap = (\<lambda>hint sz prot flags (m, a).
       if flags AND MAP_FIXED linux_libc \<noteq> 0
         then if commits \<and> PAGE dvd hint then (hint, m, a \<union> range_of hint (pages sz)) else (MAP_FAILED linux_libc, m, a)
       else if m \<inter> range_of PAGE (pages sz) = {} \<and> PAGE + pages sz \<le> 2 ^ 47
         then (PAGE, m \<union> range_of PAGE (pages sz), a - range_of PAGE (pages sz))
         else (MAP_FAILED linux_libc, m, a)),
     sys_munmap = (\<lambda>p sz (m, a). (m - range_of p (pages sz), a - range_of p (pages sz)))\<rparr>"

lemma committing_ok: "kernel_ok linux_libc (committing c) fst"
  unfolding kernel_ok_def
proof (intro conjI allI impI)
  show "p = MAP_FAILED linux_libc \<and> fst w' = fst w
      \<or> p \<noteq> MAP_FAILED linux_libc \<and> p \<noteq> 0 \<and> PAGE dvd p \<and> p + pages sz \<le> 2 ^ 47
        \<and> fst w \<inter> range_of p (pages sz) = {} \<and> fst w' = fst w \<union> range_of p (pages sz)"
    if "sys_mmap (committing c) hint sz prot flags w = (p, w') \<and> 0 < sz
        \<and> flags AND MAP_FIXED linux_libc = 0 \<and> flags AND MAP_HUGETLB linux_libc = 0"
    for hint sz prot flags w p w'
  proof -
    have "PAGE \<noteq> MAP_FAILED linux_libc" "PAGE \<noteq> 0" by (simp_all add: PAGE_def linux_libc_def)
    with that show ?thesis by (cases w) (auto simp: committing_def split: if_splits)
  qed
  show "fst (snd (sys_mmap (committing c) p sz prot flags w)) = fst w"
    if "PAGE dvd p \<and> flags AND MAP_FIXED linux_libc = MAP_FIXED linux_libc \<and> range_of p (pages sz) \<subseteq> fst w"
    for p sz prot flags w
  proof -
    have "MAP_FIXED linux_libc \<noteq> 0" by (simp add: linux_libc_def)
    with that show ?thesis by (cases w) (simp add: committing_def)
  qed
qed (auto simp: committing_def split: prod.splits)

lemma committing_access_ok: "access_ok linux_libc (committing c) fst (\<lambda>(m, a). m \<inter> a)"
proof -
  have "PAGE \<noteq> MAP_FAILED linux_libc" "MAP_FIXED linux_libc \<noteq> 0" "\<not> PAGE dvd MAP_FAILED linux_libc"
    by (simp_all add: PAGE_def linux_libc_def dvd_eq_mod_eq_0)
  then show ?thesis
    unfolding access_ok_def committing_def by (intro conjI allI impI) (auto split: if_splits)
qed

lemma committing_reserves:
  "alloc_from_os linux_libc (committing c) 0 (2 ^ 12 - 1 + PAGE) False False (initial_os_state ({}, {}))
     = ((PAGE, NotHugePage), \<lparr>SHOULD_TRY_OPTION = 2, kern = (range_of PAGE 8192, {})\<rparr>)"
  by (simp add: alloc_from_os_def custom_mmap_def Let_def initial_os_state_def mmap_not_huge_def
    os_mmap_def committing_def linux_libc_def SHOULD_TRY_1GB_HUGE_PAGE_def SHOULD_TRY_2MB_HUGE_PAGE_def
    PAGE_def pages_def)

theorem commit_failure_returned_as_success_witness:
  "(case alloc_aligned_from_os linux_libc (committing False) 0 PAGE True False (2 ^ 12) (initial_os_state ({}, {}))
     of ((p, r), s') \<Rightarrow> p = PAGE \<and> range_of PAGE PAGE \<subseteq> fst (kern s')
       \<and> range_of PAGE PAGE \<inter> (fst (kern s') \<inter> snd (kern s')) = {})
   \<and> (case alloc_aligned_from_os linux_libc (committing True) 0 PAGE True False (2 ^ 12) (initial_os_state ({}, {}))
     of ((p, r), s') \<Rightarrow> p = PAGE \<and> range_of PAGE PAGE \<subseteq> fst (kern s') \<inter> snd (kern s'))"
proof -
  have up: "align_up PAGE (2 ^ 12) = PAGE"
    using align_up_facts [of PAGE 12] by (auto simp: PAGE_def elim!: dvdE)
  have sz: "0 < PAGE" "PAGE \<noteq> 0" by (simp_all add: PAGE_def)
  have run: "(case alloc_aligned_from_os linux_libc (committing c) 0 PAGE True False (2 ^ 12) (initial_os_state ({}, {}))
     of ((p, r), s') \<Rightarrow> p = PAGE \<and> range_of PAGE PAGE \<subseteq> fst (kern s')
       \<and> (if c then range_of PAGE PAGE \<subseteq> fst (kern s') \<inter> snd (kern s')
          else range_of PAGE PAGE \<inter> (fst (kern s') \<inter> snd (kern s')) = {}))" for c
  proof -
    define s1 :: "(addr set \<times> addr set) os_state"
      where "s1 = \<lparr>SHOULD_TRY_OPTION = 2, kern = (range_of PAGE 8192, {})\<rparr>"
    obtain q s2 where q: "os_mmap (committing c) (align_up PAGE (2 ^ 12)) PAGE (PROT_READ linux_libc OR PROT_WRITE linux_libc)
      (((MAP_PRIVATE linux_libc OR MAP_ANONYMOUS linux_libc) OR MAP_NORESERVE linux_libc) OR MAP_FIXED linux_libc)
      s1 = (q, s2)" by fastforce
    then have "q = MAP_FAILED linux_libc \<longleftrightarrow> \<not> c"
      unfolding up by (auto simp: os_mmap_def committing_def linux_libc_def s1_def PAGE_def split: if_splits)
    moreover obtain p r s' where "alloc_aligned_from_os linux_libc (committing c) 0 PAGE True False (2 ^ 12)
      (initial_os_state ({}, {})) = ((p, r), s')" by (metis surj_pair)
    ultimately show ?thesis
      using commit_failure_returned_as_success [OF committing_ok committing_access_ok linux_libc_ok _ _ dvd_refl sz(1)
        committing_reserves [folded s1_def] sz(2) q, of p r s'] up
      by (auto split: if_splits prod.splits)
  qed
  from run [of False] run [of True] show ?thesis by (auto split: prod.splits)
qed

text \<open>A kernel that reserves one page but never commits.\<close>

definition never_commits :: "unit kernel" where
  "never_commits = \<lparr>
     sys_mmap = (\<lambda>hint sz prot flags w. (if prot = 0 then 2 ^ 20 else MAP_FAILED linux_libc, w)),
     sys_munmap = (\<lambda>p sz w. w)\<rparr>"

text \<open>The test for a 1 GB attempt looks at a bit that the 2 MB size has too (\<open>MAP_HUGE_2MB\<close> is
  21, \<open>MAP_HUGE_1GB\<close> 30, shifted by 26), so a failed 2 MB attempt is repeated with the very same
  flags, as if it had been a 1 GB attempt.\<close>

theorem failed_2mb_attempt_repeated:
  assumes "flags = MAP_PRIVATE linux_libc OR MAP_ANONYMOUS linux_libc"
    and "hf = (flags OR MAP_HUGETLB linux_libc) OR MAP_HUGE_2MB linux_libc"
    and "os_mmap K hint sz prot hf s = (p, s1)" and "p = 0 \<or> p = MAP_FAILED linux_libc"
  shows "huge_attempt linux_libc K hint sz prot flags False s
    = os_mmap K hint sz prot hf (s1\<lparr>SHOULD_TRY_OPTION := SHOULD_TRY_2MB_HUGE_PAGE\<rparr>)"
  using assms by (simp add: huge_attempt_def Let_def linux_libc_def)

theorem failed_2mb_attempt_repeated_witness:
  "huge_attempt linux_libc never_commits 0 (2 ^ 21) 3 34 False (initial_os_state ())
    = os_mmap never_commits 0 (2 ^ 21) 3 1409548322
        (\<lparr>SHOULD_TRY_OPTION = SHOULD_TRY_2MB_HUGE_PAGE, kern = ()\<rparr>)"
  using failed_2mb_attempt_repeated [of 34 1409548322 never_commits 0 "2 ^ 21" 3 "initial_os_state ()"
      "MAP_FAILED linux_libc" "initial_os_state ()"]
  by (simp add: linux_libc_def os_mmap_def never_commits_def initial_os_state_def)

section \<open>Committed blocks\<close>

text \<open>A mapping of huge pages (of a size that is a multiple of 2 MB) fails, or gives fresh memory.\<close>

definition kernel_huge_ok :: "libc \<Rightarrow> 'w kernel \<Rightarrow> ('w \<Rightarrow> addr set) \<Rightarrow> bool" where
  "kernel_huge_ok L K mapped \<longleftrightarrow>
     (\<forall>hint sz prot flags w p w'. sys_mmap K hint sz prot flags w = (p, w') \<and> 0 < sz
        \<and> 2 * 1024 * 1024 dvd sz \<and> flags AND MAP_FIXED L = 0 \<and> flags AND MAP_HUGETLB L = MAP_HUGETLB L \<longrightarrow>
          p = MAP_FAILED L \<and> mapped w' = mapped w
          \<or> p \<noteq> MAP_FAILED L \<and> p \<noteq> 0 \<and> PAGE dvd p
            \<and> mapped w \<inter> range_of p sz = {} \<and> mapped w' = mapped w \<union> range_of p sz)"

definition libc_huge_ok :: "libc \<Rightarrow> bool" where
  "libc_huge_ok L \<longleftrightarrow> (\<forall>f\<in>{MAP_HUGETLB L, MAP_HUGE_1GB L, MAP_HUGE_2MB L}. f AND MAP_FIXED L = 0)
     \<and> MAP_HUGETLB L AND MAP_HUGE_1GB L = 0"

lemma kernel_ordinary:
  assumes "kernel_ok L K mapped" and "0 < sz" and "flags AND MAP_FIXED L = 0" "flags AND MAP_HUGETLB L = 0"
    and "sys_mmap K hint sz prot flags w = (p, w')"
  shows "p = MAP_FAILED L \<and> mapped w' = mapped w
    \<or> p \<noteq> MAP_FAILED L \<and> p \<noteq> 0 \<and> PAGE dvd p \<and>
      mapped w \<inter> range_of p (pages sz) = {} \<and> mapped w' = mapped w \<union> range_of p (pages sz)"
proof -
  from assms(1) have "\<forall>hint sz prot flags w p w'. sys_mmap K hint sz prot flags w = (p, w') \<and> 0 < sz
        \<and> flags AND MAP_FIXED L = 0 \<and> flags AND MAP_HUGETLB L = 0 \<longrightarrow>
          p = MAP_FAILED L \<and> mapped w' = mapped w
          \<or> p \<noteq> MAP_FAILED L \<and> p \<noteq> 0 \<and> PAGE dvd p \<and> p + pages sz \<le> 2 ^ 47
            \<and> mapped w \<inter> range_of p (pages sz) = {} \<and> mapped w' = mapped w \<union> range_of p (pages sz)"
    unfolding kernel_ok_def by (elim conjE) assumption
  from this [rule_format, OF conjI [OF assms(5) conjI [OF assms(2) conjI [OF assms(3,4)]]]] show ?thesis by blast
qed

text \<open>What a call that maps \<open>n\<close> bytes may do.\<close>

definition fresh_or_null :: "('w \<Rightarrow> addr set) \<Rightarrow> nat \<Rightarrow> 'w \<Rightarrow> addr \<Rightarrow> 'w \<Rightarrow> bool" where
  "fresh_or_null mapped n w p w' \<longleftrightarrow>
     p = 0 \<and> mapped w' = mapped w
     \<or> p \<noteq> 0 \<and> PAGE dvd p \<and> mapped w \<inter> range_of p n = {} \<and> mapped w' = mapped w \<union> range_of p n"

lemma no_common_bit: "f AND x = 0 \<Longrightarrow> bit f n \<Longrightarrow> bit x n \<Longrightarrow> False" for f x :: "32 word"
proof -
  assume "bit f n" "bit x n"
  then have "bit (f AND x) n" by (simp add: bit_and_iff)
  then show "f AND x = 0 \<Longrightarrow> False" by simp
qed

lemma os_mmap_huge:
  assumes K: "kernel_huge_ok L K mapped" and sz: "0 < sz" "2 * 1024 * 1024 dvd sz"
    and f: "flags AND MAP_FIXED L = 0" "flags AND MAP_HUGETLB L = MAP_HUGETLB L"
    and run: "os_mmap K hint sz prot flags s = (p, s')"
  shows "fresh_or_null mapped sz (kern s) (if p = MAP_FAILED L then 0 else p) (kern s')"
proof -
  obtain w where q: "sys_mmap K hint sz prot flags (kern s) = (p, w)" "s' = s\<lparr>kern := w\<rparr>"
    using run by (auto simp: os_mmap_def split: prod.splits)
  have "p = MAP_FAILED L \<and> mapped w = mapped (kern s)
    \<or> p \<noteq> MAP_FAILED L \<and> p \<noteq> 0 \<and> PAGE dvd p
      \<and> mapped (kern s) \<inter> range_of p sz = {} \<and> mapped w = mapped (kern s) \<union> range_of p sz"
    using K q(1) sz f unfolding kernel_huge_ok_def by blast
  then show ?thesis by (auto simp: fresh_or_null_def q(2))
qed

lemma huge_flags:
  assumes L: "libc_ok L" "libc_huge_ok L"
    and f: "f = ((MAP_PRIVATE L OR MAP_ANONYMOUS L) AND NOT (MAP_NORESERVE L)) OR MAP_HUGETLB L"
    and h: "h = MAP_HUGE_1GB L \<or> h = MAP_HUGE_2MB L"
  shows "(f OR h) AND MAP_FIXED L = 0" "(f OR h) AND MAP_HUGETLB L = MAP_HUGETLB L"
    "(((f OR h) AND NOT (MAP_HUGE_1GB L)) OR MAP_HUGE_2MB L) AND MAP_FIXED L = 0"
    "(((f OR h) AND NOT (MAP_HUGE_1GB L)) OR MAP_HUGE_2MB L) AND MAP_HUGETLB L = MAP_HUGETLB L"
proof -
  have "MAP_PRIVATE L AND MAP_FIXED L = 0" "MAP_ANONYMOUS L AND MAP_FIXED L = 0" "MAP_HUGETLB L AND MAP_FIXED L = 0"
    "MAP_HUGE_1GB L AND MAP_FIXED L = 0" "MAP_HUGE_2MB L AND MAP_FIXED L = 0"
    using L by (simp_all add: libc_ok_def libc_huge_ok_def)
  note bits = this [THEN no_common_bit]
  have "MAP_HUGETLB L AND MAP_HUGE_1GB L = 0" using L(2) by (simp add: libc_huge_ok_def)
  note tlb = no_common_bit [OF this]
  show "(f OR h) AND MAP_FIXED L = 0"
    "(((f OR h) AND NOT (MAP_HUGE_1GB L)) OR MAP_HUGE_2MB L) AND MAP_FIXED L = 0"
    using h by (auto intro!: bit_word_eqI simp: f bit_simps intro: bits)
  show "(f OR h) AND MAP_HUGETLB L = MAP_HUGETLB L"
    "(((f OR h) AND NOT (MAP_HUGE_1GB L)) OR MAP_HUGE_2MB L) AND MAP_HUGETLB L = MAP_HUGETLB L"
    by (auto intro!: bit_word_eqI simp: f bit_simps dest: tlb)
qed

lemma alloc_from_os_facts:
  assumes K: "kernel_ok L K mapped" "kernel_huge_ok L K mapped" and L: "libc_ok L" "libc_huge_ok L"
    and sz: "0 < sz" and run: "alloc_from_os L K hint sz True False s = ((p, r), s')"
  shows "fresh_or_null mapped (pages sz) (kern s) p (kern s')"
proof -
  let ?f = "MAP_PRIVATE L OR MAP_ANONYMOUS L"
  have f: "?f AND MAP_FIXED L = 0" "?f AND MAP_HUGETLB L = 0"
    using L(1) by (simp_all add: libc_ok_def bit.conj_disj_distrib2)
  have ordinary: "fresh_or_null mapped (pages sz) (kern t) p (kern t')"
    if "mmap_not_huge L K hint sz prot ?f t = (p, t')" for prot t t' p
  proof -
    obtain q w where q: "sys_mmap K hint sz prot ?f (kern t) = (q, w)" by fastforce
    have k: "q = MAP_FAILED L \<and> mapped w = mapped (kern t) \<or> q \<noteq> MAP_FAILED L \<and> q \<noteq> 0 \<and> PAGE dvd q \<and>
        mapped (kern t) \<inter> range_of q (pages sz) = {} \<and> mapped w = mapped (kern t) \<union> range_of q (pages sz)"
      by (rule kernel_ordinary [OF K(1) sz f q])
    have e: "p = (if q = MAP_FAILED L then 0 else q)" "kern t' = w"
      using that q by (auto simp: mmap_not_huge_def os_mmap_def)
    show ?thesis unfolding fresh_or_null_def e using k by (cases "q = MAP_FAILED L") simp_all
  qed
  let ?P = "PROT_READ L OR PROT_WRITE L"
  define two where "two \<longleftrightarrow> sz mod (2 * 1024 * 1024) = 0 \<and> SHOULD_TRY_OPTION s = SHOULD_TRY_2MB_HUGE_PAGE"
  define one where "one \<longleftrightarrow> sz mod (1024 * 1024 * 1024) = 0 \<and> SHOULD_TRY_OPTION s = SHOULD_TRY_1GB_HUGE_PAGE"
  show ?thesis
  proof (cases "two \<or> one")
    case False
    with run have "mmap_not_huge L K hint sz ?P ?f s = (p, s')"
      by (auto simp: alloc_from_os_def custom_mmap_def Let_def two_def one_def split: prod.splits)
    then show ?thesis by (rule ordinary)
  next
    case True
    have d: "2 * 1024 * 1024 dvd sz" 
      using True unfolding two_def one_def by (auto intro: dvd_trans [of _ "1024 * 1024 * 1024"] simp: mod_0_imp_dvd)
    then have pg: "pages sz = sz" by (intro pages_dvd) (auto simp: PAGE_def elim!: dvdE)
    obtain q s1 where h: "huge_attempt L K hint sz ?P ?f one s = (q, s1)" by fastforce
    have att: "fresh_or_null mapped sz (kern s) (if q = MAP_FAILED L then 0 else q) (kern s1)"
    proof -
      let ?g = "(?f AND NOT (MAP_NORESERVE L)) OR MAP_HUGETLB L"
      define x where "x = (if one then MAP_HUGE_1GB L else MAP_HUGE_2MB L)"
      have x: "x = MAP_HUGE_1GB L \<or> x = MAP_HUGE_2MB L" by (simp add: x_def)
      note fl = huge_flags [OF L refl x]
      obtain q1 t1 where m: "os_mmap K hint sz ?P (?g OR x) s = (q1, t1)" by fastforce
      note 1 = os_mmap_huge [OF K(2) sz d fl(1,2) m]
      show ?thesis
      proof (cases "(q1 = 0 \<or> q1 = MAP_FAILED L) \<and> (?g OR x) AND MAP_HUGE_1GB L \<noteq> 0")
        case False
        with h m have "q = q1" "s1 = t1" by (auto simp: huge_attempt_def Let_def x_def split: if_splits)
        with 1 show ?thesis by (simp only:)
      next
        case again: True
        let ?t = "t1\<lparr>SHOULD_TRY_OPTION := SHOULD_TRY_2MB_HUGE_PAGE\<rparr>"
        have "os_mmap K hint sz ?P (((?g OR x) AND NOT (MAP_HUGE_1GB L)) OR MAP_HUGE_2MB L) ?t = (q, s1)"
          using again h m by (simp add: huge_attempt_def Let_def x_def)
        note 2 = os_mmap_huge [OF K(2) sz d fl(3,4) this]
        have "mapped (kern t1) = mapped (kern s)" using 1 again by (auto simp: fresh_or_null_def split: if_splits)
        with 2 show ?thesis by (simp add: fresh_or_null_def)
      qed
    qed
    show ?thesis
    proof (cases "q = MAP_FAILED L \<or> q = 0")
      case False
      with run True h have "p = q" "s' = s1"
        by (auto simp: alloc_from_os_def custom_mmap_def Let_def two_def one_def)
      with att False show ?thesis by (simp add: pg)
    next
      case fail: True
      let ?t = "s1\<lparr>SHOULD_TRY_OPTION := SHOULD_NOT_TRY_HUGE_PAGE\<rparr>"
      have "mmap_not_huge L K hint sz ?P ?f ?t = (p, s')"
        using run True h fail
        by (auto simp: alloc_from_os_def custom_mmap_def Let_def two_def one_def split: prod.splits)
      from ordinary [OF this] att fail show ?thesis by (auto simp: fresh_or_null_def split: if_splits)
    qed
  qed
qed
end
