(* ===== verification/OsVec.thy ===== *)
theory OsVec
  imports OsMem
begin

text \<open>
  \<open>os/vec.rs\<close>: a vector whose memory comes from the operating system. The state is that of
  \<open>OsMem\<close>; the elements stand for the initialised part of the memory. \<open>None\<close> is a panic
  (\<open>capacity overflow\<close>, \<open>allocation failed\<close>). \<open>sz\<close> is \<open>size_of::<T>()\<close>.
\<close>

record 'a VecInOs =
  ov_ptr :: addr
  ov_elems :: "'a list"
  ov_cap :: usize

text \<open>The dangling pointer of the empty vector is never used; 8 is the alignment of a pointer.\<close>

definition ov_new :: "'a VecInOs" where
  "ov_new = \<lparr>ov_ptr = 8, ov_elems = [], ov_cap = 0\<rparr>"

definition ov_reserve :: "libc \<Rightarrow> 'w kernel \<Rightarrow> usize \<Rightarrow> usize \<Rightarrow> 'a VecInOs \<times> 'w os_state \<Rightarrow>
    ('a VecInOs \<times> 'w os_state) option" where
  "ov_reserve L K sz additional vs =
     (case vs of (v, s) \<Rightarrow>
        let required = length (ov_elems v) + additional
        in if 2 ^ 64 \<le> required then None
           else if required \<le> ov_cap v then Some (v, s)
           else let new_cap = max (max required (ov_cap v * 2 mod 2 ^ 64)) 4;
                    new_size = new_cap * sz mod 2 ^ 64
                in case alloc_from_os L K 0 new_size True False s of ((new_ptr, _), s1) \<Rightarrow>
                   if new_ptr = 0 then None
                   else Some (v\<lparr>ov_ptr := new_ptr, ov_cap := new_cap\<rparr>,
                     if 0 < ov_cap v then os_free K (ov_ptr v) (ov_cap v * sz mod 2 ^ 64) s1 else s1))"

definition ov_push :: "libc \<Rightarrow> 'w kernel \<Rightarrow> usize \<Rightarrow> 'a \<Rightarrow> 'a VecInOs \<times> 'w os_state \<Rightarrow>
    ('a VecInOs \<times> 'w os_state) option" where
  "ov_push L K sz x vs =
     (case (if length (ov_elems (fst vs)) = ov_cap (fst vs) then ov_reserve L K sz 1 vs else Some vs) of
        None \<Rightarrow> None
      | Some (v, s) \<Rightarrow> Some (v\<lparr>ov_elems := ov_elems v @ [x]\<rparr>, s))"

fun ov_push_all :: "libc \<Rightarrow> 'w kernel \<Rightarrow> usize \<Rightarrow> 'a list \<Rightarrow> 'a VecInOs \<times> 'w os_state \<Rightarrow>
    ('a VecInOs \<times> 'w os_state) option" where
  "ov_push_all L K sz [] vs = Some vs"
| "ov_push_all L K sz (x # xs) vs =
     (case ov_push L K sz x vs of None \<Rightarrow> None | Some vs' \<Rightarrow> ov_push_all L K sz xs vs')"

text \<open>\<open>drop\<close>: the elements stored here (pointers) have no drop of their own.\<close>

definition ov_drop :: "'w kernel \<Rightarrow> usize \<Rightarrow> 'a VecInOs \<times> 'w os_state \<Rightarrow> 'w os_state" where
  "ov_drop K sz vs =
     (case vs of (v, s) \<Rightarrow>
        if 0 < ov_cap v then os_free K (ov_ptr v) (ov_cap v * sz mod 2 ^ 64) s else s)"

section \<open>The memory of the vector\<close>

text \<open>A committed request, once huge pages are no longer tried.\<close>

lemma alloc_ordinary:
  assumes K: "kernel_ok L K mapped" and L: "libc_ok L" and sz: "0 < sz"
    and opt: "SHOULD_TRY_OPTION s = SHOULD_NOT_TRY_HUGE_PAGE"
    and run: "alloc_from_os L K hint sz True False s = ((p, r), s')"
  shows "SHOULD_TRY_OPTION s' = SHOULD_NOT_TRY_HUGE_PAGE \<and>
    (p = 0 \<and> mapped (kern s') = mapped (kern s) \<or>
     p \<noteq> 0 \<and> PAGE dvd p \<and> mapped (kern s) \<inter> range_of p (pages sz) = {} \<and>
       mapped (kern s') = mapped (kern s) \<union> range_of p (pages sz))"
proof -
  let ?f = "MAP_PRIVATE L OR MAP_ANONYMOUS L"
  have f: "?f AND MAP_FIXED L = 0" "?f AND MAP_HUGETLB L = 0"
    using L by (simp_all add: libc_ok_def bit.conj_disj_distrib2)
  obtain q w where q: "sys_mmap K hint sz (PROT_READ L OR PROT_WRITE L) ?f (kern s) = (q, w)" by fastforce
  have "q = MAP_FAILED L \<and> mapped w = mapped (kern s) \<or> q \<noteq> MAP_FAILED L \<and> q \<noteq> 0 \<and> PAGE dvd q \<and>
      mapped (kern s) \<inter> range_of q (pages sz) = {} \<and> mapped w = mapped (kern s) \<union> range_of q (pages sz)"
    using K q sz f unfolding kernel_ok_def by metis
  moreover have "p = (if q = MAP_FAILED L then 0 else q)" "s' = s\<lparr>kern := w\<rparr>"
    using run q opt
    by (auto simp: alloc_from_os_def custom_mmap_def Let_def mmap_not_huge_def os_mmap_def
        SHOULD_NOT_TRY_HUGE_PAGE_def SHOULD_TRY_1GB_HUGE_PAGE_def SHOULD_TRY_2MB_HUGE_PAGE_def)
  ultimately show ?thesis using opt by auto
qed

definition ov_memory :: "usize \<Rightarrow> 'a VecInOs \<Rightarrow> addr set" where
  "ov_memory sz v = (if ov_cap v = 0 then {} else range_of (ov_ptr v) (pages (ov_cap v * sz)))"

text \<open>The vector owns exactly its own pages, beside those mapped by others (\<open>M\<close>).\<close>

definition ov_ok :: "('w \<Rightarrow> addr set) \<Rightarrow> usize \<Rightarrow> addr set \<Rightarrow> 'a VecInOs \<times> 'w os_state \<Rightarrow> bool" where
  "ov_ok mapped sz M vs \<longleftrightarrow>
     (case vs of (v, s) \<Rightarrow>
        length (ov_elems v) \<le> ov_cap v \<and> ov_cap v \<le> max 4 (2 * length (ov_elems v)) \<and>
        (0 < ov_cap v \<longrightarrow> PAGE dvd ov_ptr v) \<and> SHOULD_TRY_OPTION s = SHOULD_NOT_TRY_HUGE_PAGE \<and>
        mapped (kern s) = M \<union> ov_memory sz v \<and> M \<inter> ov_memory sz v = {})"

lemma ov_push_ok:
  assumes K: "kernel_ok L K mapped" and L: "libc_ok L" and sz: "0 < sz" "sz \<le> 2 ^ 12"
    and ok: "ov_ok mapped sz M vs" and len: "length (ov_elems (fst vs)) < 2 ^ 48"
    and run: "ov_push L K sz x vs = Some vs'"
  shows "ov_ok mapped sz M vs' \<and> ov_elems (fst vs') = ov_elems (fst vs) @ [x]"
proof -
  obtain v s where vs: "vs = (v, s)" by fastforce
  show ?thesis
  proof (cases "length (ov_elems v) = ov_cap v")
    case False
    then have "vs' = (v\<lparr>ov_elems := ov_elems v @ [x]\<rparr>, s)" using run vs by (simp add: ov_push_def)
    with ok vs False show ?thesis by (auto simp: ov_ok_def ov_memory_def)
  next
    case True
    let ?c = "max (max (ov_cap v + 1) (ov_cap v * 2)) 4"
    from True len vs have c: "ov_cap v < 2 ^ 48" by simp
    then have small: "ov_cap v + 1 < 2 ^ 64" "ov_cap v * 2 mod 2 ^ 64 = ov_cap v * 2" by simp_all
    have cz: "?c * sz < 2 ^ 64" "ov_cap v * sz < 2 ^ 64"
    proof -
      have "?c \<le> 2 ^ 49" using c by simp
      then have "?c * sz \<le> 2 ^ 49 * 2 ^ 12" using sz(2) by (rule mult_le_mono)
      then show "?c * sz < 2 ^ 64" by simp
      have "ov_cap v \<le> ?c" by linarith
      then have "ov_cap v * sz \<le> ?c * sz" by (rule mult_le_mono1)
      with \<open>?c * sz < 2 ^ 64\<close> show "ov_cap v * sz < 2 ^ 64" by linarith
    qed
    obtain p r s1 where a: "alloc_from_os L K 0 (?c * sz) True False s = ((p, r), s1)" by (metis surj_pair)
    have res: "ov_reserve L K sz 1 (v, s) = (if p = 0 then None else Some (v\<lparr>ov_ptr := p, ov_cap := ?c\<rparr>,
        if 0 < ov_cap v then os_free K (ov_ptr v) (ov_cap v * sz) s1 else s1))"
      using True small cz a by (simp add: ov_reserve_def Let_def mod_less)
    from run vs True res have p: "p \<noteq> 0"
      and vs': "vs' = (v\<lparr>ov_ptr := p, ov_cap := ?c, ov_elems := ov_elems v @ [x]\<rparr>,
        if 0 < ov_cap v then os_free K (ov_ptr v) (ov_cap v * sz) s1 else s1)"
      by (auto simp: ov_push_def split: if_splits)
    have opt: "SHOULD_TRY_OPTION s = SHOULD_NOT_TRY_HUGE_PAGE" using ok vs by (simp add: ov_ok_def)
    have "0 < ?c * sz" using sz(1) by simp
    note al = alloc_ordinary [OF K L this opt a]
    from al p have al: "SHOULD_TRY_OPTION s1 = SHOULD_NOT_TRY_HUGE_PAGE" "PAGE dvd p"
      "mapped (kern s) \<inter> range_of p (pages (?c * sz)) = {}"
      "mapped (kern s1) = mapped (kern s) \<union> range_of p (pages (?c * sz))" by simp_all
    have m: "mapped (kern s) = M \<union> ov_memory sz v" "M \<inter> ov_memory sz v = {}"
      using ok vs by (simp_all add: ov_ok_def)
    have fin: "mapped (kern (snd vs')) = M \<union> range_of p (pages (?c * sz)) \<and>
        SHOULD_TRY_OPTION (snd vs') = SHOULD_NOT_TRY_HUGE_PAGE"
    proof (cases "ov_cap v = 0")
      case True
      with al m vs' show ?thesis by (simp add: ov_memory_def)
    next
      case False
      then have "PAGE dvd ov_ptr v" "0 < ov_cap v * sz" using ok vs sz(1) by (simp_all add: ov_ok_def)
      then have "mapped (kern (os_free K (ov_ptr v) (ov_cap v * sz) s1)) = mapped (kern s1) - ov_memory sz v"
        using kernel_unmap [OF K, of "ov_ptr v" "ov_cap v * sz" s1] False
        by (simp add: os_free_def munmap_raw_def ov_memory_def)
      with al m False vs' show ?thesis by (auto simp: os_free_def)
    qed
    have "M \<inter> range_of p (pages (?c * sz)) = {}" using al(3) m(1) by auto
    moreover have "Suc (ov_cap v) \<le> ?c" "?c \<le> max 4 (2 * Suc (ov_cap v))" by (simp_all add: max_def)
    ultimately show ?thesis using fin vs' vs True al(2)
      by (simp add: ov_ok_def ov_memory_def del: max.bounded_iff le_max_iff_disj; linarith)
  qed
qed

lemma ov_push_all_ok:
  assumes "kernel_ok L K mapped" and "libc_ok L" and "0 < sz" "sz \<le> 2 ^ 12"
  shows "ov_ok mapped sz M vs \<Longrightarrow> length (ov_elems (fst vs)) + length xs \<le> 2 ^ 48 \<Longrightarrow>
    ov_push_all L K sz xs vs = Some vs' \<Longrightarrow>
    ov_ok mapped sz M vs' \<and> ov_elems (fst vs') = ov_elems (fst vs) @ xs"
proof (induction xs arbitrary: vs)
  case (Cons x xs)
  from Cons.prems(3) obtain vs1 where r: "ov_push L K sz x vs = Some vs1" "ov_push_all L K sz xs vs1 = Some vs'"
    by (auto split: option.splits)
  have "length (ov_elems (fst vs)) < 2 ^ 48" using Cons.prems(2) by simp
  note p = ov_push_ok [OF assms Cons.prems(1) this r(1)]
  with Cons.IH [OF _ _ r(2)] Cons.prems(2) show ?case by simp
qed simp

lemma ov_drop_ok:
  assumes K: "kernel_ok L K mapped" and sz: "0 < sz" "sz \<le> 2 ^ 12"
    and ok: "ov_ok mapped sz M vs" and len: "length (ov_elems (fst vs)) \<le> 2 ^ 48"
  shows "mapped (kern (ov_drop K sz vs)) = M"
proof -
  obtain v s where vs: "vs = (v, s)" by fastforce
  show ?thesis
  proof (cases "ov_cap v = 0")
    case True
    with ok vs show ?thesis by (simp add: ov_ok_def ov_drop_def ov_memory_def)
  next
    case False
    have "ov_cap v \<le> 2 ^ 49" using ok len vs by (auto simp: ov_ok_def)
    then have "ov_cap v * sz \<le> 2 ^ 49 * 2 ^ 12" using sz(2) by (rule mult_le_mono)
    then have "ov_cap v * sz mod 2 ^ 64 = ov_cap v * sz" by simp
    moreover have "PAGE dvd ov_ptr v" "0 < ov_cap v * sz" using ok vs sz(1) False by (simp_all add: ov_ok_def)
    ultimately show ?thesis
      using kernel_unmap [OF K, of "ov_ptr v" "ov_cap v * sz" s] False ok vs
      by (auto simp: ov_drop_def os_free_def munmap_raw_def ov_ok_def ov_memory_def)
  qed
qed

text \<open>C18: Pushing any number of elements (up to \<open>2 ^ 48\<close>, of at most a page) onto a new vector in
  system memory, once huge pages are no longer tried, either panics or leaves a vector with these
  elements that owns pages nobody else has mapped; dropping it unmaps exactly these, so that the
  process is as it was.
\<close>

theorem vec_in_os_balanced:
  assumes "kernel_ok L K mapped" and "libc_ok L" and "0 < sz" and "sz \<le> 2 ^ 12" and "length xs \<le> 2 ^ 48"
    and "SHOULD_TRY_OPTION s = SHOULD_NOT_TRY_HUGE_PAGE"
    and "ov_push_all L K sz xs (ov_new, s) = Some (v, s')"
  shows "ov_elems v = xs \<and> mapped (kern s) \<inter> ov_memory sz v = {} \<and>
    mapped (kern s') = mapped (kern s) \<union> ov_memory sz v \<and> mapped (kern (ov_drop K sz (v, s'))) = mapped (kern s)"
proof -
  have "ov_ok mapped sz (mapped (kern s)) (ov_new, s)"
    using assms(6) by (simp add: ov_ok_def ov_new_def ov_memory_def)
  from ov_push_all_ok [OF assms(1-4) this _ assms(7)] assms(5)
  have "ov_ok mapped sz (mapped (kern s)) (v, s')" "ov_elems v = xs" by (simp_all add: ov_new_def)
  with ov_drop_ok [OF assms(1,3,4) this(1)] assms(5) show ?thesis by (simp add: ov_ok_def)
qed

theorem vec_in_os_balanced_witness:
  "\<exists>v s'. ov_push_all linux_libc one_place 8 [5, 6 :: nat] (ov_new, \<lparr>SHOULD_TRY_OPTION = 0, kern = {}\<rparr>) = Some (v, s')
     \<and> ov_elems v = [5, 6] \<and> kern (ov_drop one_place 8 (v, s')) = {}"
proof -
  have p: "pages 32 = 4096" "range_of PAGE 4096 \<inter> {} = {}" "PAGE + 4096 \<le> 2 ^ 47" "PAGE \<noteq> 0" "PAGE \<noteq> MAP_FAILED linux_libc"
    by (simp_all add: pages_def PAGE_def linux_libc_def)
  have f: "(MAP_PRIVATE linux_libc OR MAP_ANONYMOUS linux_libc) AND MAP_FIXED linux_libc = 0"
    by (simp add: linux_libc_def)
  obtain v s' where r: "ov_push_all linux_libc one_place 8 [5, 6 :: nat] (ov_new, \<lparr>SHOULD_TRY_OPTION = 0, kern = {}\<rparr>) = Some (v, s')"
    using p f by (simp add: ov_push_def ov_reserve_def ov_new_def Let_def alloc_from_os_def custom_mmap_def mmap_not_huge_def
        os_mmap_def one_place_def SHOULD_TRY_1GB_HUGE_PAGE_def SHOULD_TRY_2MB_HUGE_PAGE_def)
  from vec_in_os_balanced [OF one_place_ok linux_libc_ok _ _ _ _ r] r show ?thesis
    by (auto simp: SHOULD_NOT_TRY_HUGE_PAGE_def)
qed

end
