(* ===== verification/Region.thy ===== *)
theory Region
  imports Sizes Limit OsMem
begin

text \<open>
  \<open>region.rs\<close>: regions of 32 MB, aligned to their size, whose first common chunk holds one metadata
  cell per common chunk of the region. Allocation counts against the limit; parsing cuts a region
  into 7 common and 63 large chunks; the metadata of any address is found by arithmetic.

  The metadata cells are a map from the address of a cell to what was last written there.
\<close>

definition REGION_SIZE :: usize where [layout_simps]: "REGION_SIZE = 32 * 1024 * 1024"
definition LARGE_CHUNKS_IN_REGION :: usize where
  [layout_simps]: "LARGE_CHUNKS_IN_REGION = REGION_SIZE div LARGE_CHUNK_SIZE - 1"
definition REST_COMMON_CHUNKS_IN_REGION :: usize where
  [layout_simps]: "REST_COMMON_CHUNKS_IN_REGION = LARGE_CHUNK_SIZE div COMMON_CHUNK_SIZE - 1"
definition MAX_COMMON_CHUNKS_IN_REGION :: usize where
  [layout_simps]: "MAX_COMMON_CHUNKS_IN_REGION =
     LARGE_CHUNKS_IN_REGION * COMMON_CHUNKS_IN_LARGE_CHUNK + REST_COMMON_CHUNKS_IN_REGION"

section \<open>Allocation and release\<close>

text \<open>The process: the counters of \<open>limit.rs\<close> and the operating system.\<close>

record 'w process =
  lim :: limit_state
  os :: "'w os_state"

definition alloc_region_raw :: "libc \<Rightarrow> 'w kernel \<Rightarrow> 'w process \<Rightarrow> addr \<times> 'w process" where
  "alloc_region_raw L K w =
     (case alloc_aligned_from_os L K 0 REGION_SIZE True False REGION_SIZE (os w) of ((p, _), os') \<Rightarrow>
        if p = 0 then (0, w\<lparr>lim := mark_deallocated (word_of_nat REGION_SIZE) (lim w), os := os'\<rparr>)
        else (p, w\<lparr>os := os'\<rparr>))"

definition alloc_region :: "libc \<Rightarrow> 'w kernel \<Rightarrow> 'w process \<Rightarrow> addr \<times> 'w process" where
  "alloc_region L K w =
     (case may_allocate (word_of_nat REGION_SIZE) (lim w) of (ok, l) \<Rightarrow>
        if \<not> ok then (0, w\<lparr>lim := l\<rparr>) else alloc_region_raw L K (w\<lparr>lim := l\<rparr>))"

definition alloc_region_without_counting_limit :: "libc \<Rightarrow> 'w kernel \<Rightarrow> 'w process \<Rightarrow> addr \<times> 'w process" where
  "alloc_region_without_counting_limit L K w =
     alloc_region_raw L K (w\<lparr>lim := allocate_any_way (word_of_nat REGION_SIZE) (lim w)\<rparr>)"

definition dealloc_region :: "'w kernel \<Rightarrow> addr \<Rightarrow> 'w process \<Rightarrow> 'w process" where
  "dealloc_region K region w =
     w\<lparr>lim := mark_deallocated (word_of_nat REGION_SIZE) (lim w), os := os_free K region REGION_SIZE (os w)\<rparr>"

section \<open>Chunks\<close>

record ParsedRegion =
  common_chunks :: "addr list"
  large_chunks :: "addr list"

definition parse_region :: "addr \<Rightarrow> ParsedRegion" where
  "parse_region region =
     (let cur = region + COMMON_CHUNK_SIZE;
          commons = from_fn_chunks REST_COMMON_CHUNKS_IN_REGION COMMON_CHUNK_SIZE cur;
          cur = cur + REST_COMMON_CHUNKS_IN_REGION * COMMON_CHUNK_SIZE
      in \<lparr>common_chunks = commons,
          large_chunks = from_fn_chunks LARGE_CHUNKS_IN_REGION LARGE_CHUNK_SIZE cur\<rparr>)"

definition region_ptr_from_chunk_ptr :: "addr \<Rightarrow> addr" where
  "region_ptr_from_chunk_ptr chunk_ptr = and_not chunk_ptr (REGION_SIZE - 1)"

section \<open>Metadata\<close>

record OffsetToSlotInTable =
  is_common :: bool
  slot_idx :: usize

definition new_for_common_chunk :: "usize \<Rightarrow> OffsetToSlotInTable" where
  "new_for_common_chunk idx = \<lparr>is_common = True, slot_idx = idx\<rparr>"

definition new_for_large_chunk :: "usize \<Rightarrow> OffsetToSlotInTable" where
  "new_for_large_chunk idx = \<lparr>is_common = False, slot_idx = idx\<rparr>"

record ChunkMetadata =
  non_local_ptr_manager :: addr
  offset_to_slot_in_table :: OffsetToSlotInTable

type_synonym metadata = "addr \<rightharpoonup> ChunkMetadata"

text \<open>A pointer and a \<open>bool\<close>, \<open>usize\<close> pair: 24 bytes.\<close>

definition CHUNK_METADATA_SIZE :: usize where [layout_simps]: "CHUNK_METADATA_SIZE = 24"

definition chunk_ptr_to_chunk_metadata_ptr :: "addr \<Rightarrow> addr" where
  "chunk_ptr_to_chunk_metadata_ptr chunk_ptr =
     (let region_start = and_not chunk_ptr (REGION_SIZE - 1);
          shift_from_start = chunk_ptr - region_start;
          idx = shift_from_start div COMMON_CHUNK_SIZE
      in region_start + idx * CHUNK_METADATA_SIZE)"

definition init_metadata_for_common_chunk ::
  "addr \<Rightarrow> OffsetToSlotInTable \<Rightarrow> addr \<Rightarrow> metadata \<Rightarrow> metadata" where
  "init_metadata_for_common_chunk nlpm offset chunk_ptr md =
     md(chunk_ptr_to_chunk_metadata_ptr chunk_ptr \<mapsto>
          \<lparr>non_local_ptr_manager = nlpm, offset_to_slot_in_table = offset\<rparr>)"

text \<open>The loop \<open>for _ in 0..n\<close> that writes consecutive cells.\<close>

fun write_metadata :: "nat \<Rightarrow> ChunkMetadata \<Rightarrow> addr \<Rightarrow> metadata \<Rightarrow> metadata" where
  "write_metadata 0 m p md = md"
| "write_metadata (Suc n) m p md = write_metadata n m (p + CHUNK_METADATA_SIZE) (md(p \<mapsto> m))"

definition init_metadata_for_large_chunk ::
  "addr \<Rightarrow> OffsetToSlotInTable \<Rightarrow> addr \<Rightarrow> metadata \<Rightarrow> metadata" where
  "init_metadata_for_large_chunk nlpm offset chunk_ptr md =
     write_metadata COMMON_CHUNKS_IN_LARGE_CHUNK
       \<lparr>non_local_ptr_manager = nlpm, offset_to_slot_in_table = offset\<rparr>
       (chunk_ptr_to_chunk_metadata_ptr chunk_ptr) md"

text \<open>What a deallocation reads for an address.\<close>

definition metadata_of :: "metadata \<Rightarrow> addr \<Rightarrow> ChunkMetadata option" where
  "metadata_of md p = md (chunk_ptr_to_chunk_metadata_ptr p)"

section \<open>Regions and addresses\<close>

definition is_region :: "addr \<Rightarrow> bool" where
  "is_region r \<longleftrightarrow> REGION_SIZE dvd r \<and> r + REGION_SIZE \<le> 2 ^ 64"

definition chunk_index :: "addr \<Rightarrow> addr \<Rightarrow> nat" where
  "chunk_index r p = (p - r) div COMMON_CHUNK_SIZE"

lemma region_mask:
  assumes "is_region r" and "p \<in> range_of r REGION_SIZE"
  shows "and_not p (REGION_SIZE - 1) = r"
proof -
  have e: "REGION_SIZE = 2 ^ 25" by (simp add: layout_simps)
  from assms(1) obtain q where q: "r = 2 ^ 25 * q" unfolding is_region_def e by (auto elim: dvdE)
  from assms(2) have p: "r \<le> p" "p < r + 2 ^ 25" unfolding range_of_def e by auto
  then have "p div 2 ^ 25 = q" unfolding q by (intro div_nat_eqI) simp_all
  moreover have "p < 2 ^ 64" using p assms(1) unfolding is_region_def e by linarith
  ultimately show ?thesis
    using and_not_pow2 [of p 25] unfolding e q by (simp only: mult.commute)
qed

lemma metadata_ptr_eq:
  assumes "is_region r" and "p \<in> range_of r REGION_SIZE"
  shows "chunk_ptr_to_chunk_metadata_ptr p = r + chunk_index r p * CHUNK_METADATA_SIZE"
  unfolding chunk_ptr_to_chunk_metadata_ptr_def region_mask [OF assms] chunk_index_def Let_def ..

lemma chunk_index_less: "p \<in> range_of r REGION_SIZE \<Longrightarrow> chunk_index r p < 512"
  by (auto simp: chunk_index_def range_of_def layout_simps)

lemma from_fn_chunks_nth: "i < n \<Longrightarrow> from_fn_chunks n step p ! i = p + i * step"
  by (induction n arbitrary: i p) (auto simp: nth_Cons split: nat.split)

lemma from_fn_chunks_length [simp]: "length (from_fn_chunks n step p) = n"
  by (induction n arbitrary: p) auto

lemma from_fn_chunks_eq_map: "from_fn_chunks n step p = map (\<lambda>i. p + i * step) [0..<n]"
  by (rule nth_equalityI) (simp_all add: from_fn_chunks_nth)

lemma write_metadata_apply:
  "write_metadata n m p md a =
     (if \<exists>j<n. a = p + j * CHUNK_METADATA_SIZE then Some m else md a)"
proof (induction n arbitrary: p md)
  case (Suc n)
  have "(\<exists>j<Suc n. a = p + j * CHUNK_METADATA_SIZE)
    \<longleftrightarrow> a = p \<or> (\<exists>j<n. a = p + CHUNK_METADATA_SIZE + j * CHUNK_METADATA_SIZE)"
    by (simp add: Ex_less_Suc2 add.assoc)
  with Suc show ?case by auto
qed simp

text \<open>C23: initialising the metadata of a large chunk from an address changes what is read for the
  addresses of exactly eight common chunks: the one the address lies in and the seven after it.
  Only an address in the first common chunk of a large chunk covers that large chunk.\<close>

theorem init_metadata_covers:
  assumes r: "is_region r" and p: "p \<in> range_of r REGION_SIZE" and q: "q \<in> range_of r REGION_SIZE"
  shows "metadata_of (init_metadata_for_large_chunk nlpm off p md) q =
    (if chunk_index r p \<le> chunk_index r q \<and> chunk_index r q < chunk_index r p + 8
     then Some \<lparr>non_local_ptr_manager = nlpm, offset_to_slot_in_table = off\<rparr>
     else metadata_of md q)"
proof -
  have "(\<exists>j<8. r + chunk_index r q * CHUNK_METADATA_SIZE
      = r + chunk_index r p * CHUNK_METADATA_SIZE + j * CHUNK_METADATA_SIZE)
    \<longleftrightarrow> (\<exists>j<8. chunk_index r q = chunk_index r p + j)"
    by (simp add: CHUNK_METADATA_SIZE_def) presburger
  also have "\<dots> \<longleftrightarrow> chunk_index r p \<le> chunk_index r q \<and> chunk_index r q < chunk_index r p + 8"
    by presburger
  finally show ?thesis
    unfolding metadata_of_def init_metadata_for_large_chunk_def write_metadata_apply
      metadata_ptr_eq [OF r p] metadata_ptr_eq [OF r q]
    by (simp add: layout_simps)
qed

theorem init_metadata_covers_witness:
  "metadata_of (init_metadata_for_large_chunk 5 (new_for_large_chunk 3) (REGION_SIZE + 524288) Map.empty)
     (REGION_SIZE + 524288 + 65536) = Some \<lparr>non_local_ptr_manager = 5, offset_to_slot_in_table = new_for_large_chunk 3\<rparr>"
proof -
  have "is_region REGION_SIZE" by (simp add: is_region_def layout_simps)
  from init_metadata_covers [OF this, of "REGION_SIZE + 524288" "REGION_SIZE + 524288 + 65536"]
  show ?thesis by (simp add: range_of_def chunk_index_def layout_simps)
qed

text \<open>C31: two addresses of one region share a metadata cell exactly when they lie in the same
  64 KB chunk, and every cell lies inside the first chunk of the region.\<close>

theorem metadata_cell_per_chunk:
  assumes r: "is_region r" and p: "p \<in> range_of r REGION_SIZE" and q: "q \<in> range_of r REGION_SIZE"
  shows "(chunk_ptr_to_chunk_metadata_ptr p = chunk_ptr_to_chunk_metadata_ptr q
      \<longleftrightarrow> chunk_index r p = chunk_index r q)
    \<and> range_of (chunk_ptr_to_chunk_metadata_ptr p) CHUNK_METADATA_SIZE \<subseteq> range_of r COMMON_CHUNK_SIZE
    \<and> region_ptr_from_chunk_ptr p = r"
  using chunk_index_less [OF p]
  unfolding metadata_ptr_eq [OF r p] metadata_ptr_eq [OF r q] region_ptr_from_chunk_ptr_def region_mask [OF r p]
  by (auto simp: range_of_def CHUNK_METADATA_SIZE_def COMMON_CHUNK_SIZE_def)

theorem metadata_cell_per_chunk_witness:
  "chunk_ptr_to_chunk_metadata_ptr (REGION_SIZE + 65536) \<noteq> chunk_ptr_to_chunk_metadata_ptr (REGION_SIZE + 131072)"
proof -
  have "is_region REGION_SIZE" by (simp add: is_region_def layout_simps)
  from metadata_cell_per_chunk [OF this, of "REGION_SIZE + 65536" "REGION_SIZE + 131072"]
  show ?thesis by (simp add: range_of_def chunk_index_def layout_simps)
qed

section \<open>The chunks of a region\<close>

definition region_blocks :: "ParsedRegion \<Rightarrow> (addr \<times> usize) list" where
  "region_blocks pr = map (\<lambda>p. (p, COMMON_CHUNK_SIZE)) (common_chunks pr)
     @ map (\<lambda>p. (p, LARGE_CHUNK_SIZE)) (large_chunks pr)"

text \<open>Blocks laid end to end from \<open>p\<close>.\<close>

fun laid_from :: "addr \<Rightarrow> (addr \<times> usize) list \<Rightarrow> addr option" where
  "laid_from p [] = Some p"
| "laid_from p ((q, n) # bs) = (if q = p then laid_from (p + n) bs else None)"

lemma laid_from_append:
  "laid_from p (xs @ ys) = (case laid_from p xs of None \<Rightarrow> None | Some q \<Rightarrow> laid_from q ys)"
  by (induction p xs rule: laid_from.induct) auto

lemma laid_from_chunks: "laid_from p (map (\<lambda>q. (q, step)) (from_fn_chunks n step p)) = Some (p + n * step)"
  by (induction n arbitrary: p) simp_all

lemma laid_from_disjoint:
  assumes "laid_from p bs = Some e"
  shows "p \<le> e \<and> (\<Union>(q, n)\<in>set bs. range_of q n) = {p..<e}
    \<and> sorted_wrt (\<lambda>(q, n) (q', n'). q + n \<le> q') bs"
  using assms
proof (induction p bs rule: laid_from.induct)
  case (2 p q n bs)
  then have e: "q = p" "laid_from (p + n) bs = Some e" by (auto split: if_splits)
  from "2.IH" e have IH: "p + n \<le> e" "(\<Union>(q, n)\<in>set bs. range_of q n) = {p + n..<e}"
    "sorted_wrt (\<lambda>(q, n) (q', n'). q + n \<le> q') bs" by auto
  have "p + n \<le> a" if "(a, m) \<in> set bs" for a m
  proof -
    from e(2) that have "p + n \<le> a"
      by (induction "p + n" bs arbitrary: p n rule: laid_from.induct) (auto split: if_splits, metis add.assoc le_add1 le_trans)
    then show ?thesis .
  qed
  with e(1) IH show ?case by (auto simp: range_of_def)
qed simp

text \<open>C24: a parsed region is its metadata chunk followed by 7 common and 63 large chunks, laid end to
  end without gap or overlap up to the end of the region; every large chunk starts on a multiple of
  its size from the start of the region.\<close>

theorem parse_region_tiles:
  "length (common_chunks (parse_region r)) = 7 \<and> length (large_chunks (parse_region r)) = 63
   \<and> laid_from (r + COMMON_CHUNK_SIZE) (region_blocks (parse_region r)) = Some (r + REGION_SIZE)
   \<and> (\<Union>(q, n)\<in>set (region_blocks (parse_region r)). range_of q n) = {r + COMMON_CHUNK_SIZE..<r + REGION_SIZE}
   \<and> sorted_wrt (\<lambda>(q, n) (q', n'). q + n \<le> q') (region_blocks (parse_region r))
   \<and> list_all (\<lambda>p. (p - r) mod LARGE_CHUNK_SIZE = 0) (large_chunks (parse_region r))"
proof -
  have laid: "laid_from (r + COMMON_CHUNK_SIZE) (region_blocks (parse_region r)) = Some (r + REGION_SIZE)"
    by (simp add: parse_region_def Let_def region_blocks_def laid_from_append laid_from_chunks)
      (simp add: layout_simps)
  have "length (common_chunks (parse_region r)) = 7" "length (large_chunks (parse_region r)) = 63"
    "list_all (\<lambda>p. (p - r) mod LARGE_CHUNK_SIZE = 0) (large_chunks (parse_region r))"
    by (simp_all add: parse_region_def Let_def from_fn_chunks_eq_map list_all_iff layout_simps)
  with laid laid_from_disjoint [OF laid] show ?thesis by simp
qed

section \<open>Mapping and unmapping\<close>

lemma alloc_region_raw_facts:
  assumes K: "kernel_ok L K mapped" and L: "libc_ok L" and run: "alloc_region_raw L K w = (p, w')"
  shows "p = 0 \<and> mapped (kern (os w')) = mapped (kern (os w))
    \<or> p \<noteq> 0 \<and> is_region p \<and> mapped (kern (os w)) \<inter> range_of p REGION_SIZE = {}
      \<and> mapped (kern (os w')) = mapped (kern (os w)) \<union> range_of p REGION_SIZE"
proof -
  have e: "REGION_SIZE = 2 ^ 25" "PAGE dvd REGION_SIZE" "0 < REGION_SIZE"
    by (simp_all add: REGION_SIZE_def PAGE_def)
  obtain q res o' where a: "alloc_aligned_from_os L K 0 REGION_SIZE True False REGION_SIZE (os w) = ((q, res), o')"
    by (metis surj_pair)
  then have "alloc_aligned_from_os L K 0 REGION_SIZE True False (2 ^ 25) (os w) = ((q, res), o')"
    unfolding e(1) .
  from alloc_aligned_block_facts [OF K L _ _ e(2,3) this]
  have "q = 0 \<and> mapped (kern o') = mapped (kern (os w))
      \<or> q \<noteq> 0 \<and> is_region q \<and> mapped (kern (os w)) \<inter> range_of q REGION_SIZE = {}
        \<and> mapped (kern o') = mapped (kern (os w)) \<union> range_of q REGION_SIZE"
    unfolding is_region_def e(1) by auto
  with run a show ?thesis by (auto simp: alloc_region_raw_def split: if_splits)
qed

lemma alloc_region_facts:
  assumes K: "kernel_ok L K mapped" and L: "libc_ok L"
    and run: "alloc_region L K w = (p, w') \<or> alloc_region_without_counting_limit L K w = (p, w')"
  shows "p = 0 \<and> mapped (kern (os w')) = mapped (kern (os w))
    \<or> p \<noteq> 0 \<and> is_region p \<and> mapped (kern (os w)) \<inter> range_of p REGION_SIZE = {}
      \<and> mapped (kern (os w')) = mapped (kern (os w)) \<union> range_of p REGION_SIZE"
proof (cases "\<exists>l. alloc_region_raw L K (w\<lparr>lim := l\<rparr>) = (p, w')")
  case True
  then obtain l where "alloc_region_raw L K (w\<lparr>lim := l\<rparr>) = (p, w')" by blast
  from alloc_region_raw_facts [OF K L this] show ?thesis by simp
next
  case False
  with run show ?thesis
    by (auto simp: alloc_region_def alloc_region_without_counting_limit_def split: prod.splits if_splits)
qed

lemma dealloc_region_facts:
  assumes "kernel_ok L K mapped" and "is_region r"
  shows "mapped (kern (os (dealloc_region K r w))) = mapped (kern (os w)) - range_of r REGION_SIZE"
proof -
  have e: "PAGE dvd REGION_SIZE" "0 < REGION_SIZE" by (simp_all add: REGION_SIZE_def PAGE_def)
  have "PAGE dvd r" using assms(2) e(1) by (meson is_region_def dvd_trans)
  from kernel_unmap [OF assms(1) this e(2)] show ?thesis
    by (simp add: dealloc_region_def os_free_def munmap_raw_def pages_dvd [OF e(1)])
qed

section \<open>Accounting\<close>

text \<open>C25: \<open>alloc_region\<close> returns null and leaves the counter and the mappings as they were, or returns
  a fresh region, counted once and mapped exactly; \<open>dealloc_region\<close> then takes back both.\<close>

theorem alloc_region_balanced:
  assumes K: "kernel_ok L K mapped" and L: "libc_ok L"
    and run: "alloc_region L K w = (p, w')"
  shows "p = 0 \<and> lim w' = lim w \<and> mapped (kern (os w')) = mapped (kern (os w))
    \<or> p \<noteq> 0 \<and> REGION_SIZE dvd p
      \<and> mapped (kern (os w')) = mapped (kern (os w)) \<union> range_of p REGION_SIZE
      \<and> mapped (kern (os w)) \<inter> range_of p REGION_SIZE = {}
      \<and> ALLOCATED (lim w') = ALLOCATED (lim w) + word_of_nat REGION_SIZE
      \<and> ALLOCATED (lim w') \<le> LIMIT (lim w)
      \<and> lim (dealloc_region K p w') = lim w
      \<and> mapped (kern (os (dealloc_region K p w'))) = mapped (kern (os w))"
proof (cases "p = 0")
  case True
  have "lim w' = lim w"
    using run True by (auto simp: alloc_region_def alloc_region_raw_def may_allocate_def mark_deallocated_def split: prod.splits if_splits)
  with True alloc_region_facts [OF K L disjI1 [OF run]] show ?thesis by auto
next
  case False
  with alloc_region_facts [OF K L disjI1 [OF run]]
  have r: "is_region p" "mapped (kern (os w)) \<inter> range_of p REGION_SIZE = {}"
    "mapped (kern (os w')) = mapped (kern (os w)) \<union> range_of p REGION_SIZE" by auto
  have l: "ALLOCATED (lim w) + word_of_nat REGION_SIZE \<le> LIMIT (lim w)"
    "lim w' = (lim w)\<lparr>ALLOCATED := ALLOCATED (lim w) + word_of_nat REGION_SIZE\<rparr>"
    using run False by (auto simp: alloc_region_def alloc_region_raw_def may_allocate_def not_less split: prod.splits if_splits)
  have "mapped (kern (os (dealloc_region K p w'))) = mapped (kern (os w))"
    using dealloc_region_facts [OF K r(1), of w'] r(2,3) by auto
  moreover have "lim (dealloc_region K p w') = lim w" by (simp add: dealloc_region_def mark_deallocated_def l(2))
  ultimately show ?thesis using r l False by (simp add: is_region_def)
qed

theorem alloc_region_balanced_witness:
  "\<exists>p w'. alloc_region linux_libc one_place \<lparr>lim = initial_limit_state, os = initial_os_state {}\<rparr> = (p, w')
     \<and> REGION_SIZE dvd p"
proof -
  obtain p w' where run: "alloc_region linux_libc one_place
      \<lparr>lim = initial_limit_state, os = initial_os_state {}\<rparr> = (p, w')" by (metis surj_pair)
  from alloc_region_balanced [OF one_place_ok linux_libc_ok run] run show ?thesis by auto
qed

end
