(* ===== verification/Interfaces.thy ===== *)
theory Interfaces
  imports Prelude "HOL-Library.Multiset"
begin

text \<open>
  The contracts shared by several components, as locales.

  \<open>lifo\<close>: a store of pointers that hands back the last one put. The vectors of free objects
  (\<open>SelfVec\<close>), the intrusive list (\<open>SelfList\<close>) and the lock-free list of returned pointers
  (\<open>NonLocal\<close>) keep it. Its client is a run of puts and gets: it refines the run on a list, so
  that no pointer is handed out twice.

  \<open>counter\<close>: a table that counts per key. The sorted array of used objects (\<open>UsedObjects\<close>) and
  the B-tree map of extra-large sizes (\<open>ExtraLarge\<close>) keep it.
\<close>

section \<open>Last in, first out\<close>

datatype 'a stack_op = Put 'a | Get

fun run_ops :: "('a \<Rightarrow> 's \<Rightarrow> 's) \<Rightarrow> ('s \<Rightarrow> 'a option \<times> 's) \<Rightarrow> 'a stack_op list \<Rightarrow> 's \<Rightarrow> 'a option list \<times> 's" where
  "run_ops put pop [] s = ([], s)"
| "run_ops put pop (Put x # os) s = run_ops put pop os (put x s)"
| "run_ops put pop (Get # os) s =
     (case pop s of (r, s') \<Rightarrow> case run_ops put pop os s' of (rs, s'') \<Rightarrow> (r # rs, s''))"

definition list_get :: "'a list \<Rightarrow> 'a option \<times> 'a list" where
  "list_get xs = (case xs of [] \<Rightarrow> (None, []) | x # ys \<Rightarrow> (Some x, ys))"

abbreviation run_list :: "'a stack_op list \<Rightarrow> 'a list \<Rightarrow> 'a option list \<times> 'a list" where
  "run_list \<equiv> run_ops (#) list_get"

fun puts :: "'a stack_op list \<Rightarrow> 'a list" where
  "puts [] = []"
| "puts (Put x # os) = x # puts os"
| "puts (Get # os) = puts os"

definition handed :: "'a option list \<Rightarrow> 'a list" where
  "handed rs = concat (map (\<lambda>r. case r of None \<Rightarrow> [] | Some x \<Rightarrow> [x]) rs)"

lemma handed_simps [simp]:
  "handed [] = []" "handed (None # rs) = handed rs" "handed (Some x # rs) = x # handed rs"
  by (simp_all add: handed_def)

lemma list_get_simps [simp]: "list_get [] = (None, [])" "list_get (x # xs) = (Some x, xs)"
  by (simp_all add: list_get_def)

lemma run_list_conserves:
  "run_list os xs = (rs, ys) \<Longrightarrow> mset xs + mset (puts os) = mset (handed rs) + mset ys"
proof (induction os arbitrary: xs rs)
  case (Cons oper os)
  show ?case
  proof (cases oper)
    case (Put x)
    with Cons.IH [of "x # xs" rs] Cons.prems show ?thesis by simp
  next
    case Get
    show ?thesis
    proof (cases xs)
      case Nil
      with Get Cons.prems obtain rs' where "run_list os [] = (rs', ys)" "rs = None # rs'"
        by (auto split: prod.splits)
      with Cons.IH [of "[]" rs'] Get Nil show ?thesis by simp
    next
      case (Cons x zs)
      with Get Cons.prems obtain rs' where r: "run_list os zs = (rs', ys)" "rs = Some x # rs'"
        by (auto split: prod.splits)
      from Cons.IH [OF r(1)] show ?thesis by (simp add: Get Cons r(2))
    qed
  qed
qed simp

text \<open>\<open>rep s xs\<close>: \<open>s\<close> holds \<open>xs\<close>, last put first. \<open>can x s xs\<close>: \<open>x\<close> may be put.\<close>

locale lifo =
  fixes rep :: "'s \<Rightarrow> 'a list \<Rightarrow> bool"
    and can :: "'a \<Rightarrow> 'a list \<Rightarrow> bool"
    and put :: "'a \<Rightarrow> 's \<Rightarrow> 's"
    and take_top :: "'s \<Rightarrow> 'a option \<times> 's"
  assumes put_rep: "rep s xs \<Longrightarrow> can x xs \<Longrightarrow> rep (put x s) (x # xs)"
    and take_empty: "rep s [] \<Longrightarrow> fst (take_top s) = None \<and> rep (snd (take_top s)) []"
    and take_top: "rep s (x # xs) \<Longrightarrow> fst (take_top s) = Some x \<and> rep (snd (take_top s)) xs"
    and can_fewer: "can x (y # xs) \<Longrightarrow> can x xs"

fun all_can :: "('a \<Rightarrow> 'a list \<Rightarrow> bool) \<Rightarrow> 'a stack_op list \<Rightarrow> 'a list \<Rightarrow> bool" where
  "all_can can [] xs \<longleftrightarrow> True"
| "all_can can (Put x # os) xs \<longleftrightarrow> can x xs \<and> all_can can os (x # xs)"
| "all_can can (Get # os) xs \<longleftrightarrow> all_can can os (tl xs)"

context lifo
begin

lemma run_refines:
  assumes "rep s xs" and "all_can can os xs" and "run_ops put take_top os s = (rs, s')"
  shows "\<exists>ys. run_list os xs = (rs, ys) \<and> rep s' ys"
  using assms
proof (induction os arbitrary: s xs rs)
  case (Cons oper os)
  show ?case
  proof (cases oper)
    case (Put x)
    with Cons.prems have "rep (put x s) (x # xs)" "all_can can os (x # xs)"
      "run_ops put take_top os (put x s) = (rs, s')" by (simp_all add: put_rep)
    from Cons.IH [OF this] Put show ?thesis by simp
  next
    case Get
    define s1 where "s1 = snd (take_top s)"
    have t: "fst (take_top s) = fst (list_get xs)" "rep s1 (snd (list_get xs))"
      using Cons.prems(1) take_empty [of s] take_top [of s] by (cases xs; simp add: s1_def)+
    obtain rs' where r: "run_ops put take_top os s1 = (rs', s')" "rs = fst (take_top s) # rs'"
      using Cons.prems(3) Get by (auto simp: s1_def split: prod.splits)
    have "all_can can os (snd (list_get xs))" using Cons.prems(2) Get by (cases xs) simp_all
    from Cons.IH [OF t(2) this r(1)] obtain ys
      where "run_list os (snd (list_get xs)) = (rs', ys)" "rep s' ys" by blast
    with Get t(1) r(2) show ?thesis by (simp add: split_beta)
  qed
qed simp

text \<open>Nothing is handed out twice, lost or made up.\<close>

lemma run_conserves:
  assumes "rep s xs" and "all_can can os xs" and "run_ops put take_top os s = (rs, s')"
  shows "\<exists>ys. rep s' ys \<and> mset xs + mset (puts os) = mset (handed rs) + mset ys"
  using run_refines [OF assms] run_list_conserves by metis

lemma run_no_double:
  assumes "rep s xs" and "all_can can os xs" and "run_ops put take_top os s = (rs, s')"
    and "distinct (xs @ puts os)"
  shows "distinct (handed rs)"
proof -
  obtain ys where "mset xs + mset (puts os) = mset (handed rs) + mset ys"
    using run_conserves [OF assms(1-3)] by blast
  then have "mset (xs @ puts os) = mset (handed rs @ ys)" by simp
  with assms(4) have "distinct (handed rs @ ys)" using mset_eq_imp_distinct_iff by blast
  then show ?thesis by simp
qed

end

section \<open>Counting\<close>

locale counter =
  fixes inv :: "'s \<Rightarrow> bool"
    and count_of :: "'s \<Rightarrow> 'k \<Rightarrow> nat"
    and ok :: "'k \<Rightarrow> nat \<Rightarrow> 's \<Rightarrow> bool"
    and add :: "'k \<Rightarrow> nat \<Rightarrow> 's \<Rightarrow> 's option"
  assumes add_ok: "inv s \<Longrightarrow> ok k n s \<Longrightarrow>
      \<exists>s'. add k n s = Some s' \<and> inv s' \<and> count_of s' = (count_of s)(k := count_of s k + n)"

fun add_all :: "('k \<Rightarrow> nat \<Rightarrow> 's \<Rightarrow> 's option) \<Rightarrow> ('k \<times> nat) list \<Rightarrow> 's \<Rightarrow> 's option" where
  "add_all add [] s = Some s"
| "add_all add ((k, n) # kns) s = (case add k n s of None \<Rightarrow> None | Some s' \<Rightarrow> add_all add kns s')"

fun all_ok :: "('k \<Rightarrow> nat \<Rightarrow> 's \<Rightarrow> bool) \<Rightarrow> ('k \<Rightarrow> nat \<Rightarrow> 's \<Rightarrow> 's option) \<Rightarrow> ('k \<times> nat) list \<Rightarrow> 's \<Rightarrow> bool" where
  "all_ok ok add [] s \<longleftrightarrow> True"
| "all_ok ok add ((k, n) # kns) s \<longleftrightarrow>
     ok k n s \<and> (case add k n s of None \<Rightarrow> True | Some s' \<Rightarrow> all_ok ok add kns s')"

definition total_of :: "('k \<times> nat) list \<Rightarrow> 'k \<Rightarrow> nat" where
  "total_of kns k = sum_list (map snd (filter (\<lambda>p. fst p = k) kns))"

lemma total_of_simps [simp]:
  "total_of [] k = 0" "total_of ((k', n) # kns) k = (if k' = k then n else 0) + total_of kns k"
  by (simp_all add: total_of_def)

context counter
begin

lemma add_all_counts:
  "inv s \<Longrightarrow> all_ok ok add kns s \<Longrightarrow>
   \<exists>s'. add_all add kns s = Some s' \<and> inv s' \<and> count_of s' = (\<lambda>k. count_of s k + total_of kns k)"
proof (induction kns arbitrary: s)
  case (Cons kn kns)
  obtain k' n where kn: "kn = (k', n)" by fastforce
  with Cons.prems have "ok k' n s" by simp
  from add_ok [OF Cons.prems(1) this] obtain s1 where s1: "add k' n s = Some s1" "inv s1"
    "count_of s1 = (count_of s)(k' := count_of s k' + n)" by blast
  with Cons.prems kn have "all_ok ok add kns s1" by simp
  from Cons.IH [OF s1(2) this] s1 kn show ?case by (auto simp: fun_eq_iff)
qed simp

end

end
