(* ===== verification/SelfList.thy ===== *)
theory SelfList
  imports Interfaces Region
begin

text \<open>
  Intrusive lists of free objects: \<open>allocated_in_self_list.rs\<close> and the buddy cache built on them,
  \<open>extra_large_handler/buddy.rs\<close>. The link to the next object is stored in the object; the
  memory is a map from the address of an object to the link in it. \<open>None\<close> of
  \<open>Option<NonNull<_>>\<close> is the null pointer 0.
\<close>

section \<open>Linked objects\<close>

type_synonym links = "addr \<Rightarrow> addr"

fun linked :: "links \<Rightarrow> addr \<Rightarrow> addr list \<Rightarrow> bool" where
  "linked next_of p [] \<longleftrightarrow> p = 0"
| "linked next_of p (x # xs) \<longleftrightarrow> p = x \<and> x \<noteq> 0 \<and> linked next_of (next_of x) xs"

lemma linked_frame [simp]: "x \<notin> set xs \<Longrightarrow> linked (next_of(x := y)) p xs = linked next_of p xs"
  by (induction xs arbitrary: p) auto

lemma linked_cong: "(\<And>x. x \<in> set xs \<Longrightarrow> f x = g x) \<Longrightarrow> linked f p xs = linked g p xs"
  by (induction xs arbitrary: p) auto

lemma linked_null [simp]: "linked next_of 0 xs \<longleftrightarrow> xs = []"
  by (cases xs) auto

lemma linked_nonzero: "linked next_of p xs \<Longrightarrow> 0 \<notin> set xs"
  by (induction xs arbitrary: p) auto

lemma linked_unique: "linked next_of p xs \<Longrightarrow> linked next_of p ys \<Longrightarrow> xs = ys"
  by (induction xs arbitrary: p ys) (case_tac [!] ys, auto)

section \<open>The list\<close>

record AllocatedInSelfList =
  list_head :: addr

definition new_self_list :: AllocatedInSelfList where
  "new_self_list = \<lparr>list_head = 0\<rparr>"

definition self_list_push :: "addr \<Rightarrow> AllocatedInSelfList \<times> links \<Rightarrow> AllocatedInSelfList \<times> links" where
  "self_list_push ptr s =
     (case s of (l, next_of) \<Rightarrow> (l\<lparr>list_head := ptr\<rparr>, next_of(ptr := list_head l)))"

definition self_list_pop :: "AllocatedInSelfList \<times> links \<Rightarrow> addr option \<times> AllocatedInSelfList \<times> links" where
  "self_list_pop s =
     (case s of (l, next_of) \<Rightarrow>
        if list_head l \<noteq> 0 then (Some (list_head l), l\<lparr>list_head := next_of (list_head l)\<rparr>, next_of)
        else (None, l, next_of))"

definition self_list_of :: "AllocatedInSelfList \<times> links \<Rightarrow> addr list \<Rightarrow> bool" where
  "self_list_of s xs \<longleftrightarrow> linked (snd s) (list_head (fst s)) xs \<and> distinct xs"

definition fresh_ptr :: "addr \<Rightarrow> addr list \<Rightarrow> bool" where
  "fresh_ptr x xs \<longleftrightarrow> x \<noteq> 0 \<and> x \<notin> set xs"

interpretation self_list: lifo self_list_of fresh_ptr self_list_push self_list_pop
proof unfold_locales
  fix s xs x assume "self_list_of s xs" "fresh_ptr x xs"
  then show "self_list_of (self_list_push x s) (x # xs)"
    by (cases s) (simp add: self_list_of_def self_list_push_def fresh_ptr_def)
next
  fix s assume "self_list_of s []"
  then show "fst (self_list_pop s) = None \<and> self_list_of (snd (self_list_pop s)) []"
    by (cases s) (simp add: self_list_of_def self_list_pop_def)
next
  fix s x xs assume "self_list_of s (x # xs)"
  then show "fst (self_list_pop s) = Some x \<and> self_list_of (snd (self_list_pop s)) xs"
    by (cases s) (auto simp: self_list_of_def self_list_pop_def)
next
  fix x y and xs :: "addr list" assume "fresh_ptr x (y # xs)"
  then show "fresh_ptr x xs" by (simp add: fresh_ptr_def)
qed

text \<open>C40: a run of pushes and pops on the intrusive list, which keeps its links inside the objects,
  answers as a stack does, provided an object is not pushed while it is in the list; so no object
  is handed out twice, lost or made up.
\<close>

theorem self_list_is_stack:
  assumes "self_list_of s xs" and "all_can fresh_ptr ops xs"
    and "run_ops self_list_push self_list_pop ops s = (rs, s')"
  shows "\<exists>ys. run_list ops xs = (rs, ys) \<and> self_list_of s' ys \<and>
    mset xs + mset (puts ops) = mset (handed rs) + mset ys"
  using self_list.run_refines [OF assms] run_list_conserves by metis

theorem self_list_is_stack_witness:
  "\<exists>ys. run_list [Put (64 :: addr), Put 128, Get, Get, Get] [] = ([Some 128, Some 64, None], ys)"
proof -
  have "self_list_of (new_self_list, \<lambda>_. 7) []" by (simp add: self_list_of_def new_self_list_def)
  moreover have "all_can fresh_ptr [Put 64, Put 128, Get, Get, Get] []" by (simp add: fresh_ptr_def)
  moreover have "\<exists>s'. run_ops self_list_push self_list_pop [Put 64, Put 128, Get, Get, Get] (new_self_list, \<lambda>_. 7)
      = ([Some 128, Some 64, None], s')"
    by (simp add: self_list_push_def self_list_pop_def new_self_list_def)
  ultimately show ?thesis using self_list_is_stack by blast
qed

section \<open>The buddy cache\<close>

definition MIN_SUPPORTED_CHUNK_SIZE :: usize where "MIN_SUPPORTED_CHUNK_SIZE = REGION_SIZE"

text \<open>\<open>None\<close> is a failed assertion (or \<open>ilog2\<close> of zero).\<close>

definition calc_grades :: "usize \<Rightarrow> usize \<Rightarrow> nat option" where
  "calc_grades mn mx =
     (if is_power_of_two mn \<and> is_power_of_two mx \<and> 0 < mx div mn then Some (bit_len (mx div mn) - 1)
      else None)"

record BuddyCache =
  free_lists :: "AllocatedInSelfList list"

definition new_buddy :: "usize \<Rightarrow> usize \<Rightarrow> nat \<Rightarrow> BuddyCache option" where
  "new_buddy mn mx grades =
     (if calc_grades mn mx = Some grades then Some \<lparr>free_lists = replicate grades new_self_list\<rparr> else None)"

fun buddy_search :: "nat list \<Rightarrow> BuddyCache \<times> links \<Rightarrow> addr option \<times> BuddyCache \<times> links" where
  "buddy_search [] s = (None, s)"
| "buddy_search (i # is) (b, next_of) =
     (case self_list_pop (free_lists b ! i, next_of) of
        (popped, l, next_of') \<Rightarrow>
          let s' = (b\<lparr>free_lists := (free_lists b)[i := l]\<rparr>, next_of')
          in case popped of Some ptr \<Rightarrow> (None, s') | None \<Rightarrow> buddy_search is s')"

definition buddy_get :: "usize \<Rightarrow> usize \<Rightarrow> BuddyCache \<times> links \<Rightarrow> addr option \<times> BuddyCache \<times> links" where
  "buddy_get sz align s =
     (let sz' = max (next_power_of_two sz) (max align 8);
          grade = trailing_zeros sz'
      in buddy_search [grade ..< length (free_lists (fst s))] s)"

lemma calc_grades_pow2: "i \<le> j \<Longrightarrow> calc_grades (2 ^ i) (2 ^ j) = Some (j - i)"
  by (simp add: calc_grades_def power_diff [symmetric])

lemma buddy_search_skips:
  assumes "list_head (free_lists b ! i) = 0"
  shows "buddy_search (i # is) (b, next_of) = buddy_search is (b, next_of)"
  using assms by (simp add: self_list_pop_def list_update_id)

lemma buddy_search_loses:
  "fst (buddy_search is (b, next_of)) = None \<and>
   (snd (buddy_search is (b, next_of)) =
     (case find (\<lambda>i. list_head (free_lists b ! i) \<noteq> 0) is of
        None \<Rightarrow> (b, next_of)
      | Some i \<Rightarrow> (b\<lparr>free_lists := (free_lists b)[i := \<lparr>list_head = next_of (list_head (free_lists b ! i))\<rparr>]\<rparr>, next_of)))"
proof (induction "is")
  case (Cons i "is")
  show ?case
  proof (cases "list_head (free_lists b ! i) = 0")
    case True
    with Cons buddy_search_skips [OF True] show ?thesis by simp
  next
    case False
    then show ?thesis
      by (cases "free_lists b ! i") (simp add: self_list_pop_def)
  qed
qed simp

text \<open>The buddy cache never returns a block: \<open>get\<close> answers \<open>None\<close> also when a list of
  sufficient grade has one, and then the first such block has been unlinked and is lost.
\<close>

theorem buddy_get_loses:
  "fst (buddy_get sz align (b, next_of)) = None \<and>
   snd (buddy_get sz align (b, next_of)) =
     (case find (\<lambda>g. list_head (free_lists b ! g) \<noteq> 0)
        [trailing_zeros (max (next_power_of_two sz) (max align 8)) ..< length (free_lists b)] of
        None \<Rightarrow> (b, next_of)
      | Some g \<Rightarrow> (b\<lparr>free_lists := (free_lists b)[g := \<lparr>list_head = next_of (list_head (free_lists b ! g))\<rparr>]\<rparr>, next_of))"
  by (simp add: buddy_get_def Let_def buddy_search_loses)

text \<open>
  The grades are the logarithms of the sizes themselves and not relative to the least size: for a
  cache over the sizes from \<open>2 ^ i\<close> to \<open>2 ^ j\<close> with \<open>j \<le> 2 * i\<close>, a request for a size in its
  range does not even look at a list.
\<close>

lemma buddy_get_looks_nowhere:
  assumes ij: "3 \<le> i" "i \<le> j" "j \<le> 2 * i" and b: "new_buddy (2 ^ i) (2 ^ j) grades = Some b"
    and sz: "2 ^ i \<le> sz" "align \<le> 2 ^ i"
  shows "buddy_get sz align (b, next_of) = (None, b, next_of)"
proof -
  obtain k where k: "next_power_of_two sz = 2 ^ k" by (rule next_power_of_twoE)
  have "(2::nat) ^ i \<le> 2 ^ k" using sz(1) next_power_of_two_ge [of sz] unfolding k by linarith
  then have ik: "i \<le> k" by (simp only: power_increasing_iff one_less_numeral_iff semiring_norm)
  have "(8::nat) \<le> 2 ^ i" using power_increasing [of 3 i "2::nat"] ij(1) by simp
  with \<open>2 ^ i \<le> 2 ^ k\<close> sz(2) have "max align 8 \<le> 2 ^ k" unfolding max.bounded_iff by linarith
  then have "max (next_power_of_two sz) (max align 8) = 2 ^ k" by (simp add: k)
  then have tz: "trailing_zeros (max (next_power_of_two sz) (max align 8)) = k" by simp
  have "length (free_lists b) = j - i"
    using b ij(2) by (auto simp: new_buddy_def calc_grades_pow2 split: if_splits)
  with ij ik have "[k ..< length (free_lists b)] = []" by simp
  then show ?thesis by (simp only: buddy_get_def Let_def fst_conv tz buddy_search.simps)
qed

end
