(* ===== verification/NonLocal.thy ===== *)
theory NonLocal
  imports SelfList
begin

text \<open>
  Returning objects to the thread that owns them: \<open>non_local_ptr_manager.rs\<close> and
  \<open>lock_free_manager.rs\<close>. Every manager has a lock-free list. A thread that frees an object of
  another thread allocates a node, stores the pointer in it and pushes the node on the list of
  the owner; the owner swaps its list out, returns the pointers to its tables and pushes each
  node, now carrying its own address, on the list of the owner of the node.

  The model takes every atomic access (the relaxed load, the store of the link, the weak
  compare-exchange, the swap) and the processing of one node as one step of one thread, and
  lets the threads interleave arbitrarily; a weak exchange may fail spuriously. A thread is
  identified with its manager. \<open>owner\<close>, a parameter, is the manager named by the metadata of
  the chunk a node lies in, which the initialisation of the chunk sets once. The fields
  \<open>flying\<close>, \<open>sent\<close>, \<open>delivered\<close> and \<open>homes\<close> record the history for the theorems; no step
  reads them.
\<close>

section \<open>Data\<close>

definition random_offset :: OffsetToSlotInTable where
  "random_offset = \<lparr>is_common = False, slot_idx = 16000000\<rparr>"

text \<open>\<open>OffsetToSlotInTable\<close> and its constructors are in \<open>Region\<close>.\<close>

text \<open>The vector a pointer goes back to; \<open>None\<close> is out of bounds.\<close>

definition get_vec :: "OffsetToSlotInTable \<Rightarrow> 'v list \<Rightarrow> 'v list \<Rightarrow> 'v option" where
  "get_vec off common_object_table large_object_table =
     (let table = if is_common off then common_object_table else large_object_table
      in if slot_idx off < length table then Some (table ! slot_idx off) else None)"

record NonLocalPtrData =
  data_ptr :: addr
  data_offset :: OffsetToSlotInTable

definition new_non_local :: "addr \<Rightarrow> OffsetToSlotInTable \<Rightarrow> NonLocalPtrData" where
  "new_non_local p off = \<lparr>data_ptr = p, data_offset = off\<rparr>"

section \<open>Threads\<close>

type_synonym mgr = nat

text \<open>
  The program counter of a thread. \<open>Adding\<close> are the points inside \<open>add_new_node_ptr\<close>: before
  the load, before the store of \<open>next\<close> with a head read, before the exchange. Its last
  argument says where it was called: from \<open>deallocate_non_local_ptr\<close> (\<open>None\<close>) or from the loop
  over the incoming nodes, which goes on at the given node.
\<close>

datatype add_point = Load | StoreNext addr | Exchange addr

datatype pc = Idle | Adding add_point mgr addr "addr option" | Checking addr

record nl_world =
  head_of_list :: "mgr \<Rightarrow> addr"
  node_next :: links
  node_value :: "addr \<Rightarrow> NonLocalPtrData"
  pc_of :: "mgr \<Rightarrow> pc"
  flying :: "addr set"
  sent :: "(mgr \<times> NonLocalPtrData) list"
  delivered :: "(mgr \<times> NonLocalPtrData) list"
  homes :: "(mgr \<times> addr) list"

definition start_world :: "nl_world" where
  "start_world = \<lparr>head_of_list = (\<lambda>_. 0), node_next = (\<lambda>_. 0),
     node_value = (\<lambda>_. new_non_local 0 random_offset), pc_of = (\<lambda>_. Idle),
     flying = {}, sent = [], delivered = [], homes = []\<rparr>"

abbreviation set_pc :: "mgr \<Rightarrow> pc \<Rightarrow> nl_world \<Rightarrow> nl_world" where
  "set_pc t p w \<equiv> w\<lparr>pc_of := (pc_of w)(t := p)\<rparr>"

definition after_add :: "addr option \<Rightarrow> pc" where
  "after_add k = (case k of None \<Rightarrow> Idle | Some cur \<Rightarrow> Checking cur)"

text \<open>\<open>add_new_node_ptr\<close>, one access; \<open>spurious\<close>: the weak exchange fails although it could succeed.\<close>

definition add_new_node_ptr_step :: "mgr \<Rightarrow> bool \<Rightarrow> add_point \<Rightarrow> mgr \<Rightarrow> addr \<Rightarrow> addr option \<Rightarrow> nl_world \<Rightarrow> nl_world" where
  "add_new_node_ptr_step t spurious at m node k w =
     (case at of
        Load \<Rightarrow> set_pc t (Adding (StoreNext (head_of_list w m)) m node k) w
      | StoreNext h \<Rightarrow>
          set_pc t (Adding (Exchange h) m node k) (w\<lparr>node_next := (node_next w)(node := h)\<rparr>)
      | Exchange h \<Rightarrow>
          if head_of_list w m = h \<and> \<not> spurious then
            set_pc t (after_add k) (w\<lparr>head_of_list := (head_of_list w)(m := node)\<rparr>)
          else set_pc t (Adding (StoreNext (head_of_list w m)) m node k) w)"

text \<open>\<open>deallocate_non_local_ptr\<close>: the allocated node gets its value, then it is added.\<close>

definition deallocate_non_local_ptr :: "mgr \<Rightarrow> mgr \<Rightarrow> addr \<Rightarrow> NonLocalPtrData \<Rightarrow> nl_world \<Rightarrow> nl_world" where
  "deallocate_non_local_ptr t other node d w =
     set_pc t (Adding Load other node None)
       (w\<lparr>node_value := (node_value w)(node := d),
          flying := Set.insert node (flying w), sent := (other, d) # sent w\<rparr>)"

text \<open>\<open>check_for_incoming_non_local_ptrs\<close>: the swap, and one round of the loop.\<close>

definition check_swap :: "mgr \<Rightarrow> nl_world \<Rightarrow> nl_world" where
  "check_swap t w =
     set_pc t (Checking (head_of_list w t)) (w\<lparr>head_of_list := (head_of_list w)(t := 0)\<rparr>)"

definition check_round :: "(addr \<Rightarrow> mgr) \<Rightarrow> mgr \<Rightarrow> addr \<Rightarrow> nl_world \<Rightarrow> nl_world" where
  "check_round owner t cur w =
     (if cur = 0 then set_pc t Idle w
      else if data_ptr (node_value w cur) = cur then
        set_pc t (Checking (node_next w cur))
          (w\<lparr>flying := flying w - {cur}, homes := (t, cur) # homes w\<rparr>)
      else
        set_pc t (Adding Load (owner cur) cur (Some (node_next w cur)))
          (w\<lparr>delivered := (t, node_value w cur) # delivered w,
             node_value := (node_value w)(cur := new_non_local cur random_offset)\<rparr>))"

definition thread_step :: "(addr \<Rightarrow> mgr) \<Rightarrow> mgr \<Rightarrow> bool \<Rightarrow> nl_world \<Rightarrow> nl_world" where
  "thread_step owner t spurious w =
     (case pc_of w t of
        Idle \<Rightarrow> w
      | Adding at m node k \<Rightarrow> add_new_node_ptr_step t spurious at m node k w
      | Checking cur \<Rightarrow> check_round owner t cur w)"

text \<open>
  A new node is an object the allocator of the thread hands out: not null, not in use (not
  \<open>flying\<close>), of a chunk of the thread, and not the object being freed.
\<close>

inductive nl_step :: "(addr \<Rightarrow> mgr) \<Rightarrow> nl_world \<Rightarrow> nl_world \<Rightarrow> bool" for owner where
  dealloc: "pc_of w t = Idle \<Longrightarrow> node \<noteq> 0 \<Longrightarrow> node \<notin> flying w \<Longrightarrow> owner node = t \<Longrightarrow> data_ptr d \<noteq> node \<Longrightarrow>
     nl_step owner w (deallocate_non_local_ptr t other node d w)"
| check: "pc_of w t = Idle \<Longrightarrow> nl_step owner w (check_swap t w)"
| step: "pc_of w t \<noteq> Idle \<Longrightarrow> nl_step owner w (thread_step owner t spurious w)"

inductive nl_reachable :: "(addr \<Rightarrow> mgr) \<Rightarrow> nl_world \<Rightarrow> bool" for owner where
  start: "nl_reachable owner start_world"
| next_world: "nl_reachable owner w \<Longrightarrow> nl_step owner w w' \<Longrightarrow> nl_reachable owner w'"

section \<open>The invariant\<close>

text \<open>Where a node in use is: in a list, held by a thread that adds it, or in a list swapped out.\<close>

datatype place = Listed mgr | Held mgr | Chained mgr

fun held :: "pc \<Rightarrow> addr option" where
  "held (Adding at m node k) = Some node"
| "held _ = None"

fun chain_start :: "pc \<Rightarrow> addr" where
  "chain_start (Adding at m node (Some cur)) = cur"
| "chain_start (Checking cur) = cur"
| "chain_start _ = 0"

text \<open>\<open>dst\<close> is the manager a node is on its way to.\<close>

definition pending :: "(addr \<Rightarrow> mgr) \<Rightarrow> nl_world \<Rightarrow> (mgr \<times> NonLocalPtrData) multiset" where
  "pending dst w = image_mset (\<lambda>n. (dst n, node_value w n))
     (mset_set {n \<in> flying w. data_ptr (node_value w n) \<noteq> n})"

definition nl_inv :: "(addr \<Rightarrow> mgr) \<Rightarrow> nl_world \<Rightarrow> (addr \<Rightarrow> place) \<Rightarrow> (addr \<Rightarrow> mgr) \<Rightarrow>
    (mgr \<Rightarrow> addr list) \<Rightarrow> (mgr \<Rightarrow> addr list) \<Rightarrow> bool" where
  "nl_inv owner w loc dst L C \<longleftrightarrow>
     finite (flying w) \<and> 0 \<notin> flying w \<and>
     (\<forall>m. linked (node_next w) (head_of_list w m) (L m) \<and> distinct (L m) \<and>
          set (L m) = {n \<in> flying w. loc n = Listed m}) \<and>
     (\<forall>t. linked (node_next w) (chain_start (pc_of w t)) (C t) \<and> distinct (C t) \<and>
          set (C t) = {n \<in> flying w. loc n = Chained t}) \<and>
     (\<forall>t n. held (pc_of w t) = Some n \<longleftrightarrow> n \<in> flying w \<and> loc n = Held t) \<and>
     (\<forall>t h m n k. pc_of w t = Adding (Exchange h) m n k \<longrightarrow> node_next w n = h) \<and>
     (\<forall>t at m n k. pc_of w t = Adding at m n k \<longrightarrow> dst n = m) \<and>
     (\<forall>n\<in>flying w. (\<forall>m. loc n = Listed m \<or> loc n = Chained m \<longrightarrow> dst n = m) \<and>
          (data_ptr (node_value w n) = n \<longrightarrow> dst n = owner n)) \<and>
     (\<forall>t n. (t, n) \<in> set (homes w) \<longrightarrow> owner n = t) \<and>
     mset (sent w) = mset (delivered w) + pending dst w"

lemma nl_invI:
  assumes "finite (flying w)" and "0 \<notin> flying w"
    and "\<And>m. linked (node_next w) (head_of_list w m) (L m)" and "\<And>m. distinct (L m)"
    and "\<And>m. set (L m) = {n \<in> flying w. loc n = Listed m}"
    and "\<And>t. linked (node_next w) (chain_start (pc_of w t)) (C t)" and "\<And>t. distinct (C t)"
    and "\<And>t. set (C t) = {n \<in> flying w. loc n = Chained t}"
    and "\<And>t n. held (pc_of w t) = Some n \<longleftrightarrow> n \<in> flying w \<and> loc n = Held t"
    and "\<And>t h m n k. pc_of w t = Adding (Exchange h) m n k \<Longrightarrow> node_next w n = h"
    and "\<And>t at m n k. pc_of w t = Adding at m n k \<Longrightarrow> dst n = m"
    and "\<And>n m. n \<in> flying w \<Longrightarrow> loc n = Listed m \<or> loc n = Chained m \<Longrightarrow> dst n = m"
    and "\<And>n. n \<in> flying w \<Longrightarrow> data_ptr (node_value w n) = n \<Longrightarrow> dst n = owner n"
    and "\<And>t n. (t, n) \<in> set (homes w) \<Longrightarrow> owner n = t"
    and "mset (sent w) = mset (delivered w) + pending dst w"
  shows "nl_inv owner w loc dst L C"
  unfolding nl_inv_def by (intro conjI allI ballI impI; (rule assms; assumption?))

lemma nl_invD:
  assumes "nl_inv owner w loc dst L C"
  shows "finite (flying w)" and "0 \<notin> flying w"
    and "linked (node_next w) (head_of_list w m) (L m)" and "distinct (L m)"
    and "set (L m) = {n \<in> flying w. loc n = Listed m}"
    and "linked (node_next w) (chain_start (pc_of w t)) (C t)" and "distinct (C t)"
    and "set (C t) = {n \<in> flying w. loc n = Chained t}"
    and "held (pc_of w t) = Some n \<longleftrightarrow> n \<in> flying w \<and> loc n = Held t"
    and "pc_of w t = Adding (Exchange h) m n k \<Longrightarrow> node_next w n = h"
    and "pc_of w t = Adding at m n k \<Longrightarrow> dst n = m"
    and "n \<in> flying w \<Longrightarrow> loc n = Listed m \<or> loc n = Chained m \<Longrightarrow> dst n = m"
    and "n \<in> flying w \<Longrightarrow> data_ptr (node_value w n) = n \<Longrightarrow> dst n = owner n"
    and "(t, n) \<in> set (homes w) \<Longrightarrow> owner n = t"
    and "mset (sent w) = mset (delivered w) + pending dst w"
proof -
  note c = assms [unfolded nl_inv_def]
  note c1 = c [THEN conjunct1]
  note c2 = c [THEN conjunct2, THEN conjunct1]
  note c3 = c [THEN conjunct2, THEN conjunct2, THEN conjunct1]
  note c4 = c [THEN conjunct2, THEN conjunct2, THEN conjunct2, THEN conjunct1]
  note c5 = c [THEN conjunct2, THEN conjunct2, THEN conjunct2, THEN conjunct2, THEN conjunct1]
  note c6 = c [THEN conjunct2, THEN conjunct2, THEN conjunct2, THEN conjunct2, THEN conjunct2, THEN conjunct1]
  note c7 = c [THEN conjunct2, THEN conjunct2, THEN conjunct2, THEN conjunct2, THEN conjunct2, THEN conjunct2, THEN conjunct1]
  note c8 = c [THEN conjunct2, THEN conjunct2, THEN conjunct2, THEN conjunct2, THEN conjunct2, THEN conjunct2, THEN conjunct2, THEN conjunct1]
  note c9 = c [THEN conjunct2, THEN conjunct2, THEN conjunct2, THEN conjunct2, THEN conjunct2, THEN conjunct2, THEN conjunct2, THEN conjunct2, THEN conjunct1]
  note c10 = c [THEN conjunct2, THEN conjunct2, THEN conjunct2, THEN conjunct2, THEN conjunct2, THEN conjunct2, THEN conjunct2, THEN conjunct2, THEN conjunct2]
  show "finite (flying w)" "0 \<notin> flying w" by (fact c1, fact c2)
  show "linked (node_next w) (head_of_list w m) (L m)" "distinct (L m)"
    "set (L m) = {n \<in> flying w. loc n = Listed m}" using c3 [THEN spec, of m] by simp_all
  show "linked (node_next w) (chain_start (pc_of w t)) (C t)" "distinct (C t)"
    "set (C t) = {n \<in> flying w. loc n = Chained t}" using c4 [THEN spec, of t] by simp_all
  show "held (pc_of w t) = Some n \<longleftrightarrow> n \<in> flying w \<and> loc n = Held t" using c5 by blast
  show "node_next w n = h" if "pc_of w t = Adding (Exchange h) m n k" using c6 that by blast
  show "dst n = m" if "pc_of w t = Adding at m n k" using c7 that by blast
  show "dst n = m" if "n \<in> flying w" "loc n = Listed m \<or> loc n = Chained m" using c8 that by blast
  show "dst n = owner n" if "n \<in> flying w" "data_ptr (node_value w n) = n" using c8 that by blast
  show "owner n = t" if "(t, n) \<in> set (homes w)" using c9 that by blast
  show "mset (sent w) = mset (delivered w) + pending dst w" by (fact c10)
qed

lemma start_inv: "nl_inv owner start_world (\<lambda>_. Listed 0) (\<lambda>_. 0) (\<lambda>_. []) (\<lambda>_. [])"
  by (rule nl_invI) (simp_all add: start_world_def pending_def)

lemma pending_cong:
  assumes "\<And>n. n \<in> flying w \<Longrightarrow> dst' n = dst n" and "flying w' = flying w" and "node_value w' = node_value w"
  shows "pending dst' w' = pending dst w"
  unfolding pending_def assms(2,3) using assms(1) by (intro image_mset_cong) (cases "finite {n \<in> flying w. data_ptr (node_value w n) \<noteq> n}"; simp)

lemma dealloc_inv:
  assumes inv: "nl_inv owner w loc dst L C" and pc: "pc_of w t = Idle"
    and node: "node \<noteq> 0" "node \<notin> flying w" "data_ptr d \<noteq> node"
  shows "nl_inv owner (deallocate_non_local_ptr t other node d w) (loc(node := Held t)) (dst(node := other)) L C"
proof (rule nl_invI)
  let ?w = "deallocate_non_local_ptr t other node d w"
  note D = nl_invD [OF inv]
  note simps = deallocate_non_local_ptr_def
  show "finite (flying ?w)" "0 \<notin> flying ?w" using D(1,2) node by (simp_all add: simps)
  show "linked (node_next ?w) (head_of_list ?w m) (L m)" "distinct (L m)" for m
    using D(3,4) by (simp_all add: simps)
  show "set (L m) = {n \<in> flying ?w. (loc(node := Held t)) n = Listed m}" for m
    using D(5) [of m] node by (auto simp: simps)
  show "linked (node_next ?w) (chain_start (pc_of ?w t')) (C t')" "distinct (C t')" for t'
    using D(6) [of t'] D(7) pc by (auto simp: simps)
  show "set (C t') = {n \<in> flying ?w. (loc(node := Held t)) n = Chained t'}" for t'
    using D(8) [of t'] node by (auto simp: simps)
  show "held (pc_of ?w t') = Some n \<longleftrightarrow> n \<in> flying ?w \<and> (loc(node := Held t)) n = Held t'" for t' n
    using D(9) [of t' n] D(9) [of t n] pc node by (auto simp: simps)
  show "node_next ?w n = h" if "pc_of ?w t' = Adding (Exchange h) m n k" for t' h m n k
    using D(10) [of t' h m n k] that by (simp add: simps split: if_splits)
  show "(dst(node := other)) n = m" if "pc_of ?w t' = Adding at m n k" for t' at m n k
    using D(11) [of t' at m n k] D(9) [of t' n] node that by (auto simp: simps split: if_splits)
  show "(dst(node := other)) n = m" if "n \<in> flying ?w"
    "(loc(node := Held t)) n = Listed m \<or> (loc(node := Held t)) n = Chained m" for n m
    using D(12) [of n m] that by (auto simp: simps split: if_splits)
  show "(dst(node := other)) n = owner n" if "n \<in> flying ?w" "data_ptr (node_value ?w n) = n" for n
    using D(13) [of n] node that by (auto simp: simps split: if_splits)
  show "owner n = t'" if "(t', n) \<in> set (homes ?w)" for t' n
    using D(14) that by (simp add: simps)
  have "{n \<in> flying ?w. data_ptr (node_value ?w n) \<noteq> n} =
      Set.insert node {n \<in> flying w. data_ptr (node_value w n) \<noteq> n}"
    using node by (auto simp: simps)
  moreover have "image_mset (\<lambda>n. ((dst(node := other)) n, node_value ?w n))
      (mset_set {n \<in> flying w. data_ptr (node_value w n) \<noteq> n}) = pending dst w"
    unfolding pending_def using node D(1) by (intro image_mset_cong) (auto simp: simps)
  ultimately have "pending (dst(node := other)) ?w = add_mset (other, d) (pending dst w)"
    using node D(1) by (simp add: pending_def simps)
  then show "mset (sent ?w) = mset (delivered ?w) + pending (dst(node := other)) ?w"
    using D(15) by (simp add: simps)
qed

lemma check_swap_inv:
  assumes inv: "nl_inv owner w loc dst L C" and pc: "pc_of w t = Idle"
  shows "nl_inv owner (check_swap t w) (\<lambda>n. if loc n = Listed t then Chained t else loc n) dst
    (L(t := [])) (C(t := L t))"
proof (rule nl_invI)
  let ?w = "check_swap t w" and ?loc = "\<lambda>n. if loc n = Listed t then Chained t else loc n"
  note D = nl_invD [OF inv]
  note simps = check_swap_def
  have Ct: "C t = []" using D(6) [of t] pc by simp
  then have nochain: "n \<notin> flying w \<or> loc n \<noteq> Chained t" for n using D(8) [of t] by auto
  show "finite (flying ?w)" "0 \<notin> flying ?w" using D(1,2) by (simp_all add: simps)
  show "linked (node_next ?w) (head_of_list ?w m) ((L(t := [])) m)" "distinct ((L(t := [])) m)" for m
    using D(3) [of m] D(4) by (simp_all add: simps)
  show "set ((L(t := [])) m) = {n \<in> flying ?w. ?loc n = Listed m}" for m
    using D(5) [of m] by (auto simp: simps)
  show "linked (node_next ?w) (chain_start (pc_of ?w t')) ((C(t := L t)) t')" "distinct ((C(t := L t)) t')" for t'
    using D(6) [of t'] D(3) [of t] D(4,7) by (auto simp: simps)
  show "set ((C(t := L t)) t') = {n \<in> flying ?w. ?loc n = Chained t'}" for t'
    using D(8) [of t'] D(5) [of t] nochain by (auto simp: simps)
  show "held (pc_of ?w t') = Some n \<longleftrightarrow> n \<in> flying ?w \<and> ?loc n = Held t'" for t' n
    using D(9) [of t' n] D(9) [of t n] pc by (auto simp: simps)
  show "node_next ?w n = h" if "pc_of ?w t' = Adding (Exchange h) m n k" for t' h m n k
    using D(10) [of t' h m n k] that by (simp add: simps split: if_splits)
  show "dst n = m" if "pc_of ?w t' = Adding at m n k" for t' at m n k
    using D(11) [of t' at m n k] that by (simp add: simps split: if_splits)
  show "dst n = m" if "n \<in> flying ?w" "?loc n = Listed m \<or> ?loc n = Chained m" for n m
    using D(12) [of n m] D(12) [of n t] that by (auto simp: simps split: if_splits)
  show "dst n = owner n" if "n \<in> flying ?w" "data_ptr (node_value ?w n) = n" for n
    using D(13) [of n] that by (simp add: simps)
  show "owner n = t'" if "(t', n) \<in> set (homes ?w)" for t' n
    using D(14) that by (simp add: simps)
  have "pending dst ?w = pending dst w" by (rule pending_cong) (simp_all add: simps)
  then show "mset (sent ?w) = mset (delivered ?w) + pending dst ?w"
    using D(15) by (simp add: simps)
qed

lemma add_read_inv:
  assumes inv: "nl_inv owner w loc dst L C" and pc: "pc_of w t = Adding at m node k"
  shows "nl_inv owner (set_pc t (Adding (StoreNext h) m node k) w) loc dst L C"
proof (rule nl_invI)
  let ?w = "set_pc t (Adding (StoreNext h) m node k) w"
  note D = nl_invD [OF inv]
  have same: "held (pc_of ?w t') = held (pc_of w t')" "chain_start (pc_of ?w t') = chain_start (pc_of w t')" for t'
    using pc by (cases k; simp)+
  show "linked (node_next ?w) (chain_start (pc_of ?w t')) (C t')" for t'
    using D(6) [of t'] unfolding same by simp
  show "held (pc_of ?w t') = Some n \<longleftrightarrow> n \<in> flying ?w \<and> loc n = Held t'" for t' n
    using D(9) [of t' n] unfolding same by simp
  show "node_next ?w n = h'" if "pc_of ?w t' = Adding (Exchange h') m' n k'" for t' h' m' n k'
    using D(10) [of t' h' m' n k'] that by (simp split: if_splits)
  show "dst n = m'" if "pc_of ?w t' = Adding at' m' n k'" for t' at' m' n k'
    using D(11) [of t' at' m' n k'] D(11) [OF pc] that by (auto split: if_splits)
  have "pending dst ?w = pending dst w" by (rule pending_cong) simp_all
  then show "mset (sent ?w) = mset (delivered ?w) + pending dst ?w" using D(15) by simp
qed (use nl_invD [OF inv] in simp_all)

lemma add_store_inv:
  assumes inv: "nl_inv owner w loc dst L C" and pc: "pc_of w t = Adding (StoreNext h) m node k"
  shows "nl_inv owner (set_pc t (Adding (Exchange h) m node k) (w\<lparr>node_next := (node_next w)(node := h)\<rparr>)) loc dst L C"
proof (rule nl_invI)
  let ?w = "set_pc t (Adding (Exchange h) m node k) (w\<lparr>node_next := (node_next w)(node := h)\<rparr>)"
  note D = nl_invD [OF inv]
  have same: "held (pc_of ?w t') = held (pc_of w t')" "chain_start (pc_of ?w t') = chain_start (pc_of w t')" for t'
    using pc by (cases k; simp)+
  have node: "node \<in> flying w \<and> loc node = Held t" using D(9) [of t node] pc by simp
  then have "node \<notin> set (L m')" "node \<notin> set (C t')" for m' t'
    using D(5) [of m'] D(8) [of t'] by auto
  then show "linked (node_next ?w) (head_of_list ?w m') (L m')"
    and "linked (node_next ?w) (chain_start (pc_of ?w t')) (C t')" for m' t'
    using D(3) [of m'] D(6) [of t'] unfolding same by simp_all
  show "held (pc_of ?w t') = Some n \<longleftrightarrow> n \<in> flying ?w \<and> loc n = Held t'" for t' n
    using D(9) [of t' n] unfolding same by simp
  show "node_next ?w n = h'" if "pc_of ?w t' = Adding (Exchange h') m' n k'" for t' h' m' n k'
    using D(10) [of t' h' m' n k'] D(9) [of t' n] node that by (auto split: if_splits)
  show "dst n = m'" if "pc_of ?w t' = Adding at' m' n k'" for t' at' m' n k'
    using D(11) [of t' at' m' n k'] D(11) [OF pc] that by (auto split: if_splits)
  have "pending dst ?w = pending dst w" by (rule pending_cong) simp_all
  then show "mset (sent ?w) = mset (delivered ?w) + pending dst ?w" using D(15) by simp
qed (use nl_invD [OF inv] in simp_all)

lemma chain_start_after [simp]: "chain_start (after_add k) = (case k of None \<Rightarrow> 0 | Some cur \<Rightarrow> cur)"
  by (cases k) (simp_all add: after_add_def)

lemma held_after [simp]: "held (after_add k) = None"
  by (cases k) (simp_all add: after_add_def)

lemma after_not_adding [simp]: "after_add k \<noteq> Adding at m n k'" "Adding at m n k' \<noteq> after_add k"
  by (cases k; simp add: after_add_def)+

lemma add_exchange_inv:
  assumes inv: "nl_inv owner w loc dst L C" and pc: "pc_of w t = Adding (Exchange h) m node k"
    and h: "head_of_list w m = h"
  shows "nl_inv owner (set_pc t (after_add k) (w\<lparr>head_of_list := (head_of_list w)(m := node)\<rparr>))
    (loc(node := Listed m)) dst (L(m := node # L m)) C"
proof (rule nl_invI)
  let ?w = "set_pc t (after_add k) (w\<lparr>head_of_list := (head_of_list w)(m := node)\<rparr>)"
  note D = nl_invD [OF inv]
  have node: "node \<in> flying w" "loc node = Held t" using D(9) [of t node] pc by simp_all
  have chain: "chain_start (pc_of w t) = chain_start (after_add k)" using pc by (cases k) simp_all
  have nxt: "node_next w node = h" by (rule D(10) [OF pc])
  have notin: "node \<notin> set (L m')" "node \<notin> set (C t')" for m' t'
    using D(5) [of m'] D(8) [of t'] node by auto
  have nz: "node \<noteq> 0" using node(1) D(2) by metis
  show "linked (node_next ?w) (head_of_list ?w m') ((L(m := node # L m)) m')" "distinct ((L(m := node # L m)) m')" for m'
    using D(3) [of m'] D(4) [of m'] nxt h notin nz by auto
  show "set ((L(m := node # L m)) m') = {n \<in> flying ?w. (loc(node := Listed m)) n = Listed m'}" for m'
    using D(5) [of m'] node by auto
  show "linked (node_next ?w) (chain_start (pc_of ?w t')) (C t')" for t'
    using D(6) [of t'] chain by (cases "t' = t") simp_all
  show "set (C t') = {n \<in> flying ?w. (loc(node := Listed m)) n = Chained t'}" for t'
    using D(8) [of t'] node by auto
  show "held (pc_of ?w t') = Some n \<longleftrightarrow> n \<in> flying ?w \<and> (loc(node := Listed m)) n = Held t'" for t' n
    using D(9) [of t' n] pc node by auto
  show "node_next ?w n = h'" if "pc_of ?w t' = Adding (Exchange h') m' n k'" for t' h' m' n k'
    using D(10) [of t' h' m' n k'] that by (auto split: if_splits)
  show "dst n = m'" if "pc_of ?w t' = Adding at' m' n k'" for t' at' m' n k'
    using D(11) [of t' at' m' n k'] that by (auto split: if_splits)
  show "dst n = m'" if "n \<in> flying ?w" "(loc(node := Listed m)) n = Listed m' \<or> (loc(node := Listed m)) n = Chained m'" for n m'
    using D(12) [of n m'] D(11) [OF pc] that by (auto split: if_splits)
  have "pending dst ?w = pending dst w" by (rule pending_cong) simp_all
  then show "mset (sent ?w) = mset (delivered ?w) + pending dst ?w" using D(15) by simp
qed (use nl_invD [OF inv] in simp_all)

lemma check_home_inv:
  assumes inv: "nl_inv owner w loc dst L C" and pc: "pc_of w t = Checking cur"
    and cur: "cur \<noteq> 0" "data_ptr (node_value w cur) = cur"
  shows "nl_inv owner (check_round owner t cur w) loc dst L (C(t := tl (C t)))"
proof (rule nl_invI)
  let ?w = "check_round owner t cur w"
  note D = nl_invD [OF inv]
  note simps = check_round_def cur
  obtain xs where C: "C t = cur # xs" "linked (node_next w) (node_next w cur) xs"
    using D(6) [of t] pc cur(1) by (cases "C t") auto
  have loc: "cur \<in> flying w" "loc cur = Chained t" using D(8) [of t] C by auto
  show "finite (flying ?w)" "0 \<notin> flying ?w" using D(1,2) by (simp_all add: simps)
  show "linked (node_next ?w) (head_of_list ?w m) (L m)" "distinct (L m)" for m
    using D(3,4) by (simp_all add: simps)
  show "set (L m) = {n \<in> flying ?w. loc n = Listed m}" for m
    using D(5) [of m] loc by (auto simp: simps)
  show "linked (node_next ?w) (chain_start (pc_of ?w t')) ((C(t := tl (C t))) t')" "distinct ((C(t := tl (C t))) t')" for t'
    using D(6) [of t'] D(7) [of t'] C by (cases "t' = t"; simp add: simps)+
  show "set ((C(t := tl (C t))) t') = {n \<in> flying ?w. loc n = Chained t'}" for t'
  proof (cases "t' = t")
    case True
    with D(8) [of t] D(7) [of t] C show ?thesis by (auto simp: simps)
  next
    case False
    with D(8) [of t'] loc show ?thesis by (auto simp: simps)
  qed
  show "held (pc_of ?w t') = Some n \<longleftrightarrow> n \<in> flying ?w \<and> loc n = Held t'" for t' n
    using D(9) [of t' n] pc loc by (auto simp: simps)
  show "node_next ?w n = h" if "pc_of ?w t' = Adding (Exchange h) m n k" for t' h m n k
    using D(10) [of t' h m n k] that by (simp add: simps split: if_splits)
  show "dst n = m" if "pc_of ?w t' = Adding at m n k" for t' at m n k
    using D(11) [of t' at m n k] that by (simp add: simps split: if_splits)
  show "dst n = m" if "n \<in> flying ?w" "loc n = Listed m \<or> loc n = Chained m" for n m
    using D(12) [of n m] that by (simp add: simps)
  show "dst n = owner n" if "n \<in> flying ?w" "data_ptr (node_value ?w n) = n" for n
    using D(13) [of n] that by (simp add: simps)
  show "owner n = t'" if "(t', n) \<in> set (homes ?w)" for t' n
    using D(14) [of t' n] D(12) [of cur t] D(13) [of cur] loc that by (auto simp: simps)
  have "{n \<in> flying w - {cur}. data_ptr (node_value w n) \<noteq> n} = {n \<in> flying w. data_ptr (node_value w n) \<noteq> n}"
    using cur(2) by auto
  then have "pending dst ?w = pending dst w" by (simp add: pending_def simps)
  then show "mset (sent ?w) = mset (delivered ?w) + pending dst ?w"
    using D(15) by (simp add: simps)
qed

lemma check_foreign_inv:
  assumes inv: "nl_inv owner w loc dst L C" and pc: "pc_of w t = Checking cur"
    and cur: "cur \<noteq> 0" "data_ptr (node_value w cur) \<noteq> cur"
  shows "nl_inv owner (check_round owner t cur w) (loc(cur := Held t)) (dst(cur := owner cur)) L (C(t := tl (C t)))"
    (is "nl_inv owner ?w ?loc ?dst L ?C")
proof (rule nl_invI)
  note D = nl_invD [OF inv]
  note simps = check_round_def cur new_non_local_def
  obtain xs where C: "C t = cur # xs" "linked (node_next w) (node_next w cur) xs"
    using D(6) [of t] pc cur(1) by (cases "C t") auto
  have loc: "cur \<in> flying w" "loc cur = Chained t" using D(8) [of t] C by auto
  have dst: "dst cur = t" using D(12) [of cur t] loc by simp
  show "finite (flying ?w)" "0 \<notin> flying ?w" using D(1,2) by (simp_all add: simps)
  show "linked (node_next ?w) (head_of_list ?w m) (L m)" "distinct (L m)" for m
    using D(3,4) by (simp_all add: simps)
  show "set (L m) = {n \<in> flying ?w. ?loc n = Listed m}" for m
    using D(5) [of m] loc by (auto simp: simps)
  show "linked (node_next ?w) (chain_start (pc_of ?w t')) (?C t')" "distinct (?C t')" for t'
    using D(6) [of t'] D(7) [of t'] C by (cases "t' = t"; simp add: simps)+
  show "set (?C t') = {n \<in> flying ?w. ?loc n = Chained t'}" for t'
  proof (cases "t' = t")
    case True
    with D(8) [of t] D(7) [of t] C show ?thesis by (auto simp: simps)
  next
    case False
    with D(8) [of t'] loc show ?thesis by (auto simp: simps)
  qed
  show "held (pc_of ?w t') = Some n \<longleftrightarrow> n \<in> flying ?w \<and> ?loc n = Held t'" for t' n
    using D(9) [of t' n] D(9) [of t n] pc loc by (auto simp: simps)
  show "node_next ?w n = h" if "pc_of ?w t' = Adding (Exchange h) m n k" for t' h m n k
    using D(10) [of t' h m n k] that by (simp add: simps split: if_splits)
  show "?dst n = m" if "pc_of ?w t' = Adding at m n k" for t' at m n k
    using D(11) [of t' at m n k] D(9) [of t' n] loc that by (auto simp: simps split: if_splits)
  show "?dst n = m" if "n \<in> flying ?w" "?loc n = Listed m \<or> ?loc n = Chained m" for n m
    using D(12) [of n m] that by (auto simp: simps split: if_splits)
  show "?dst n = owner n" if "n \<in> flying ?w" "data_ptr (node_value ?w n) = n" for n
    using D(13) [of n] that by (auto simp: simps split: if_splits)
  show "owner n = t'" if "(t', n) \<in> set (homes ?w)" for t' n
    using D(14) that by (simp add: simps)
  have fin: "finite {n \<in> flying w. n \<noteq> cur \<and> data_ptr (node_value w n) \<noteq> n}" using D(1) by simp
  have "{n \<in> flying w. data_ptr (node_value w n) \<noteq> n} =
      Set.insert cur {n \<in> flying w. n \<noteq> cur \<and> data_ptr (node_value w n) \<noteq> n}" using loc cur by auto
  then have "pending dst w = add_mset (t, node_value w cur)
      (image_mset (\<lambda>n. (dst n, node_value w n)) (mset_set {n \<in> flying w. n \<noteq> cur \<and> data_ptr (node_value w n) \<noteq> n}))"
    using fin dst by (simp add: pending_def)
  moreover have "{n \<in> flying ?w. data_ptr (node_value ?w n) \<noteq> n} =
      {n \<in> flying w. n \<noteq> cur \<and> data_ptr (node_value w n) \<noteq> n}" by (auto simp: simps)
  then have "pending ?dst ?w =
      image_mset (\<lambda>n. (dst n, node_value w n)) (mset_set {n \<in> flying w. n \<noteq> cur \<and> data_ptr (node_value w n) \<noteq> n})"
    unfolding pending_def using fin by (intro multiset.map_cong) (auto simp: simps)
  ultimately show "mset (sent ?w) = mset (delivered ?w) + pending ?dst ?w"
    using D(15) by (simp add: simps)
qed

lemma check_end_inv:
  assumes inv: "nl_inv owner w loc dst L C" and pc: "pc_of w t = Checking 0"
  shows "nl_inv owner (set_pc t Idle w) loc dst L C"
proof (rule nl_invI)
  let ?w = "set_pc t Idle w"
  note D = nl_invD [OF inv]
  show "linked (node_next ?w) (chain_start (pc_of ?w t')) (C t')" for t'
    using D(6) [of t'] pc by (cases "t' = t") simp_all
  show "held (pc_of ?w t') = Some n \<longleftrightarrow> n \<in> flying ?w \<and> loc n = Held t'" for t' n
    using D(9) [of t' n] pc by auto
  show "node_next ?w n = h'" if "pc_of ?w t' = Adding (Exchange h') m' n k'" for t' h' m' n k'
    using D(10) [of t' h' m' n k'] that by (simp split: if_splits)
  show "dst n = m'" if "pc_of ?w t' = Adding at' m' n k'" for t' at' m' n k'
    using D(11) [of t' at' m' n k'] that by (auto split: if_splits)
  have "pending dst ?w = pending dst w" by (rule pending_cong) simp_all
  then show "mset (sent ?w) = mset (delivered ?w) + pending dst ?w" using D(15) by simp
qed (use nl_invD [OF inv] in simp_all)

lemma thread_step_inv:
  assumes inv: "nl_inv owner w loc dst L C"
  shows "\<exists>loc dst L C. nl_inv owner (thread_step owner t spurious w) loc dst L C"
proof (cases "pc_of w t")
  case Idle
  with inv show ?thesis by (auto simp: thread_step_def)
next
  case (Adding at m node k)
  have step: "thread_step owner t spurious w = add_new_node_ptr_step t spurious at m node k w"
    by (simp add: thread_step_def Adding)
  show ?thesis
  proof (cases at)
    case Load
    then have "thread_step owner t spurious w = set_pc t (Adding (StoreNext (head_of_list w m)) m node k) w"
      by (simp add: step add_new_node_ptr_step_def)
    with add_read_inv [OF inv Adding] show ?thesis by metis
  next
    case (StoreNext h)
    then have "thread_step owner t spurious w =
        set_pc t (Adding (Exchange h) m node k) (w\<lparr>node_next := (node_next w)(node := h)\<rparr>)"
      by (simp add: step add_new_node_ptr_step_def)
    with add_store_inv [OF inv Adding [unfolded StoreNext]] show ?thesis by metis
  next
    case (Exchange h)
    show ?thesis
    proof (cases "head_of_list w m = h \<and> \<not> spurious")
      case True
      then have "thread_step owner t spurious w =
          set_pc t (after_add k) (w\<lparr>head_of_list := (head_of_list w)(m := node)\<rparr>)"
        by (simp add: thread_step_def Adding add_new_node_ptr_step_def Exchange)
      with add_exchange_inv [OF inv Adding [unfolded Exchange]] True show ?thesis by metis
    next
      case False
      then have "thread_step owner t spurious w = set_pc t (Adding (StoreNext (head_of_list w m)) m node k) w"
        by (auto simp: step add_new_node_ptr_step_def Exchange)
      with add_read_inv [OF inv Adding] show ?thesis by metis
    qed
  qed
next
  case (Checking cur)
  consider "cur = 0" | "cur \<noteq> 0" "data_ptr (node_value w cur) = cur"
    | "cur \<noteq> 0" "data_ptr (node_value w cur) \<noteq> cur" by blast
  then show ?thesis
  proof cases
    case 1
    with check_end_inv [OF inv, of t] Checking show ?thesis by (auto simp: thread_step_def check_round_def)
  next
    case 2
    with check_home_inv [OF inv Checking 2] Checking show ?thesis by (auto simp: thread_step_def)
  next
    case 3
    with check_foreign_inv [OF inv Checking 3] Checking show ?thesis by (auto simp: thread_step_def)
  qed
qed

lemma nl_reachable_inv: "nl_reachable owner w \<Longrightarrow> \<exists>loc dst L C. nl_inv owner w loc dst L C"
proof (induction rule: nl_reachable.induct)
  case start
  show ?case using start_inv by blast
next
  case (next_world w w')
  then obtain loc dst L C where inv: "nl_inv owner w loc dst L C" by blast
  from \<open>nl_step owner w w'\<close> show ?case
  proof (cases rule: nl_step.cases)
    case (dealloc t node d other)
    with dealloc_inv [OF inv] show ?thesis by blast
  next
    case (check t)
    with check_swap_inv [OF inv] show ?thesis by blast
  next
    case (step t spurious)
    with thread_step_inv [OF inv] show ?thesis by blast
  qed
qed

section \<open>What the protocol guarantees\<close>

text \<open>C12: Under every interleaving of the threads, each pointer freed by another thread is delivered
  only to the manager it was sent to and not more often than it was sent; a node goes back only
  to the tables of its owner; and the lists of the managers are well-formed chains without a
  common node.
\<close>

theorem non_local_at_most_once:
  assumes "nl_reachable owner w"
  shows "mset (delivered w) \<subseteq># mset (sent w) \<and> (\<forall>(t, n)\<in>set (homes w). owner n = t) \<and>
    (\<exists>L. (\<forall>m. linked (node_next w) (head_of_list w m) (L m) \<and> distinct (L m)) \<and>
         (\<forall>m m'. m \<noteq> m' \<longrightarrow> set (L m) \<inter> set (L m') = {}))"
proof -
  obtain loc dst L C where inv: "nl_inv owner w loc dst L C" using nl_reachable_inv [OF assms] by blast
  note D = nl_invD [OF inv]
  have "mset (delivered w) \<subseteq># mset (sent w)" using D(15) by simp
  moreover have "\<forall>(t, n)\<in>set (homes w). owner n = t" using D(14) by blast
  moreover have "set (L m) \<inter> set (L m') = {}" if "m \<noteq> m'" for m m'
    using D(5) [of m] D(5) [of m'] that by auto
  ultimately show ?thesis using D(3,4) by blast
qed

text \<open>Two threads: 0 frees an object of 1 through a node of its own; 1 collects it.\<close>

definition freed_remotely :: nl_world where
  "freed_remotely =
     (thread_step (\<lambda>_. 0) 0 False ^^ 3)
       (deallocate_non_local_ptr 0 1 64 (new_non_local 4096 (new_for_common_chunk 4)) start_world)"

definition collected :: nl_world where
  "collected = thread_step (\<lambda>_. 0) 1 False (check_swap 1 freed_remotely)"

lemmas nl_eval = collected_def freed_remotely_def numeral_3_eq_3 thread_step_def deallocate_non_local_ptr_def
  start_world_def add_new_node_ptr_step_def after_add_def check_swap_def check_round_def new_non_local_def

lemma run_reachable:
  "nl_reachable owner w \<Longrightarrow> (\<forall>i<k. pc_of ((thread_step owner t False ^^ i) w) t \<noteq> Idle) \<Longrightarrow>
   nl_reachable owner ((thread_step owner t False ^^ k) w)"
  by (induction k) (auto intro: nl_reachable.next_world nl_step.step)

lemma freed_remotely_reachable: "nl_reachable (\<lambda>_. 0) freed_remotely"
  unfolding freed_remotely_def
proof (rule run_reachable)
  show "nl_reachable (\<lambda>_. 0) (deallocate_non_local_ptr 0 1 64 (new_non_local 4096 (new_for_common_chunk 4)) start_world)"
    by (rule nl_reachable.next_world [OF nl_reachable.start]) (rule nl_step.dealloc; simp add: nl_eval)
qed (auto simp: nl_eval less_Suc_eq)

lemma collected_reachable: "nl_reachable (\<lambda>_. 0) collected"
proof -
  have "nl_reachable (\<lambda>_. 0) (check_swap 1 freed_remotely)"
    by (rule nl_reachable.next_world [OF freed_remotely_reachable]) (rule nl_step.check, simp add: nl_eval)
  then show ?thesis unfolding collected_def
    by (rule nl_reachable.next_world) (rule nl_step.step, simp add: nl_eval)
qed

theorem non_local_at_most_once_witness:
  "mset [(1, new_non_local 4096 (new_for_common_chunk 4))] \<subseteq># mset (sent collected)"
proof -
  have "delivered collected = [(1, new_non_local 4096 (new_for_common_chunk 4))]" by (simp add: nl_eval)
  with non_local_at_most_once [OF collected_reachable] show ?thesis by simp
qed

text \<open>A round of the loop that hands a pointer on is four steps of the thread running alone.\<close>

lemma foreign_round_alone:
  fixes owner :: "addr \<Rightarrow> mgr"
  assumes "pc_of w t = Checking cur" and "cur \<noteq> 0" and "data_ptr (node_value w cur) \<noteq> cur"
  defines "w' \<equiv> (thread_step owner t False ^^ 4) w"
  shows "pc_of w' t = Checking (node_next w cur)"
    and "n \<noteq> cur \<Longrightarrow> node_next w' n = node_next w n" and "n \<noteq> cur \<Longrightarrow> node_value w' n = node_value w n"
    and "delivered w' = (t, node_value w cur) # delivered w" and "homes w' = homes w"
  using assms(1-3)
  by (simp_all add: w'_def numeral_eq_Suc thread_step_def check_round_def add_new_node_ptr_step_def after_add_def)

lemma check_loop_alone:
  assumes "pc_of w t = Checking cur" and "linked (node_next w) cur xs" and "distinct xs"
  shows "\<exists>k \<le> 4 * length xs + 1. pc_of ((thread_step owner t False ^^ k) w) t = Idle \<and>
    delivered ((thread_step owner t False ^^ k) w) =
      rev (map (\<lambda>n. (t, node_value w n)) (filter (\<lambda>n. data_ptr (node_value w n) \<noteq> n) xs)) @ delivered w \<and>
    homes ((thread_step owner t False ^^ k) w) =
      rev (map (Pair t) (filter (\<lambda>n. data_ptr (node_value w n) = n) xs)) @ homes w"
  using assms
proof (induction xs arbitrary: w cur)
  case Nil
  then show ?case
    by (intro exI [of _ 1]) (simp add: thread_step_def check_round_def)
next
  case (Cons x xs)
  then have cur: "cur = x" "cur \<noteq> 0" "linked (node_next w) (node_next w cur) xs" "cur \<notin> set xs" "distinct xs"
    by auto
  show ?case
  proof (cases "data_ptr (node_value w cur) = cur")
    case True
    define w1 where "w1 = thread_step owner t False w"
    have w1: "pc_of w1 t = Checking (node_next w cur)" "node_next w1 = node_next w" "node_value w1 = node_value w"
      "delivered w1 = delivered w" "homes w1 = (t, cur) # homes w"
      using Cons.prems(1) cur(2) True by (simp_all add: w1_def thread_step_def check_round_def)
    have lk: "linked (node_next w1) (node_next w cur) xs" using cur(3) w1(2) by simp
    from Cons.IH [OF w1(1) lk cur(5)] obtain k where k: "k \<le> 4 * length xs + 1"
      "pc_of ((thread_step owner t False ^^ k) w1) t = Idle"
      "delivered ((thread_step owner t False ^^ k) w1) =
        rev (map (\<lambda>n. (t, node_value w n)) (filter (\<lambda>n. data_ptr (node_value w n) \<noteq> n) xs)) @ delivered w"
      "homes ((thread_step owner t False ^^ k) w1) =
        rev (map (Pair t) (filter (\<lambda>n. data_ptr (node_value w n) = n) xs)) @ (t, cur) # homes w"
      unfolding w1 by blast
    have run: "(thread_step owner t False ^^ Suc k) w = (thread_step owner t False ^^ k) w1"
      by (simp add: w1_def funpow_swap1)
    show ?thesis
      by (rule exI [of _ "Suc k"]) (use k True cur(1) in \<open>simp add: run del: funpow.simps\<close>)
  next
    case False
    define w1 where "w1 = (thread_step owner t False ^^ 4) w"
    note w1 = foreign_round_alone [OF Cons.prems(1) cur(2) False, where owner = owner, folded w1_def]
    have "node_next w1 n = node_next w n" "node_value w1 n = node_value w n" if "n \<in> set xs" for n
      using that cur(4) w1(2,3) by (metis, metis)
    then have lk: "linked (node_next w1) (node_next w cur) xs"
      and val: "\<And>n. n \<in> set xs \<Longrightarrow> node_value w1 n = node_value w n"
      using cur(3) linked_cong [of xs "node_next w1" "node_next w"] by auto
    have vals: "map (\<lambda>n. (t, node_value w1 n)) (filter (\<lambda>n. data_ptr (node_value w1 n) \<noteq> n) xs) =
        map (\<lambda>n. (t, node_value w n)) (filter (\<lambda>n. data_ptr (node_value w n) \<noteq> n) xs)"
      "filter (\<lambda>n. data_ptr (node_value w1 n) = n) xs = filter (\<lambda>n. data_ptr (node_value w n) = n) xs"
      using val by (auto cong: filter_cong)
    from Cons.IH [OF w1(1) lk cur(5)] obtain k where k: "k \<le> 4 * length xs + 1"
      "pc_of ((thread_step owner t False ^^ k) w1) t = Idle"
      "delivered ((thread_step owner t False ^^ k) w1) =
        rev (map (\<lambda>n. (t, node_value w n)) (filter (\<lambda>n. data_ptr (node_value w n) \<noteq> n) xs)) @
        (t, node_value w cur) # delivered w"
      "homes ((thread_step owner t False ^^ k) w1) =
        rev (map (Pair t) (filter (\<lambda>n. data_ptr (node_value w n) = n) xs)) @ homes w"
      unfolding w1(4,5) vals by blast
    have run: "(thread_step owner t False ^^ (k + 4)) w = (thread_step owner t False ^^ k) w1"
      unfolding w1_def funpow_add by simp
    show ?thesis
      by (rule exI [of _ "k + 4"]) (use k False cur(1) in \<open>simp add: run del: funpow.simps\<close>)
  qed
qed

text \<open>C27: A thread that checks its list and runs alone ends the check, in at most four steps per node
  of the list and one more; by then every pointer in the list has been delivered to it and every
  node that had come home is back in its tables.
\<close>

theorem check_alone_delivers:
  assumes "nl_reachable owner w" and "pc_of w t = Idle"
  shows "\<exists>xs k. linked (node_next w) (head_of_list w t) xs \<and> k \<le> 4 * length xs + 1 \<and>
    pc_of ((thread_step owner t False ^^ k) (check_swap t w)) t = Idle \<and>
    delivered ((thread_step owner t False ^^ k) (check_swap t w)) =
      rev (map (\<lambda>n. (t, node_value w n)) (filter (\<lambda>n. data_ptr (node_value w n) \<noteq> n) xs)) @ delivered w \<and>
    homes ((thread_step owner t False ^^ k) (check_swap t w)) =
      rev (map (Pair t) (filter (\<lambda>n. data_ptr (node_value w n) = n) xs)) @ homes w"
proof -
  obtain loc dst L C where inv: "nl_inv owner w loc dst L C" using nl_reachable_inv [OF assms(1)] by blast
  note D = nl_invD [OF inv]
  let ?w = "check_swap t w"
  have "pc_of ?w t = Checking (head_of_list w t)" "linked (node_next ?w) (head_of_list w t) (L t)"
    using D(3) by (simp_all add: check_swap_def)
  from check_loop_alone [OF this D(4), of owner] D(3) show ?thesis by (auto simp: check_swap_def)
qed

theorem check_alone_delivers_witness:
  "\<exists>k. k \<le> 5 \<and> delivered ((thread_step (\<lambda>_. 0) 1 False ^^ k) (check_swap 1 freed_remotely)) =
     [(1, new_non_local 4096 (new_for_common_chunk 4))]"
proof -
  have idle: "pc_of freed_remotely 1 = Idle" by (simp add: nl_eval)
  have l: "linked (node_next freed_remotely) (head_of_list freed_remotely 1) [64]" by (simp add: nl_eval)
  have v: "node_value freed_remotely 64 = new_non_local 4096 (new_for_common_chunk 4)"
    "delivered freed_remotely = []" by (simp_all add: nl_eval)
  from check_alone_delivers [OF freed_remotely_reachable idle] obtain xs k
    where *: "linked (node_next freed_remotely) (head_of_list freed_remotely 1) xs" "k \<le> 4 * length xs + 1"
      "delivered ((thread_step (\<lambda>_. 0) 1 False ^^ k) (check_swap 1 freed_remotely)) =
        rev (map (\<lambda>n. (1, node_value freed_remotely n))
          (filter (\<lambda>n. data_ptr (node_value freed_remotely n) \<noteq> n) xs)) @ delivered freed_remotely"
    by blast
  have "xs = [64]" using linked_unique [OF *(1) l] .
  with * v show ?thesis by (auto simp: new_non_local_def)
qed

end
