(* ===== verification/UsedObjects.thy ===== *)
theory UsedObjects
  imports Interfaces Sizes
begin

text \<open>
  The table of used objects per size, \<open>numbers_of_used_objects_with_size.rs\<close>: an array of
  \<open>N\<close> entries, of which the first \<open>used_len\<close> are sorted by size, searched by bisection. An
  entry is \<open>(count, real_size)\<close>; the count is a \<open>NonZeroU32\<close>, so \<open>None\<close> is an empty entry.
  \<open>None\<close> as the result of an operation is a panic (or the violated \<open>assert_hint\<close>).
\<close>

type_synonym UsedObjEntry = "32 word option \<times> usize"

section \<open>Search\<close>

function binary_search_loop :: "UsedObjEntry list \<Rightarrow> usize \<Rightarrow> nat \<Rightarrow> nat \<Rightarrow> nat + nat" where
  "binary_search_loop arr real_size low high =
     (if low < high then
        let mid = (low + high) div 2;
            mid_val = snd (arr ! mid)
        in if mid_val < real_size then binary_search_loop arr real_size (mid + 1) high
           else if real_size < mid_val then binary_search_loop arr real_size low mid
           else Inr mid
      else Inl low)"
  by auto
termination by (relation "measure (\<lambda>(arr, s, low, high). high - low)") auto

declare binary_search_loop.simps [simp del]

definition binary_search :: "UsedObjEntry list \<Rightarrow> usize \<Rightarrow> nat \<Rightarrow> nat + nat" where
  "binary_search arr real_size len = binary_search_loop arr real_size 0 len"

section \<open>The table\<close>

record UsedObjectsFixed =
  used_arr :: "UsedObjEntry list"
  used_len :: usize

definition new_used :: "nat \<Rightarrow> UsedObjectsFixed" where
  "new_used N = \<lparr>used_arr = replicate N (None, 0), used_len = 0\<rparr>"

definition used_entries :: "UsedObjectsFixed \<Rightarrow> UsedObjEntry list" where
  "used_entries u = take (used_len u) (used_arr u)"

definition find_size :: "usize \<Rightarrow> UsedObjectsFixed \<Rightarrow> nat + UsedObjEntry" where
  "find_size sz u =
     (case binary_search (used_arr u) sz (used_len u) of
        Inl i \<Rightarrow> Inl i
      | Inr i \<Rightarrow> Inr (used_arr u ! i))"

text \<open>\<open>ptr::copy(p + src, p + dst, n)\<close> inside one array.\<close>

definition ptr_copy :: "nat \<Rightarrow> nat \<Rightarrow> nat \<Rightarrow> 'a list \<Rightarrow> 'a list" where
  "ptr_copy src dst n xs = take dst xs @ take n (drop src xs) @ drop (dst + n) xs"

definition write_used_number_and_size :: "usize \<Rightarrow> 32 word \<Rightarrow> UsedObjectsFixed \<Rightarrow> UsedObjectsFixed option" where
  "write_used_number_and_size sz n u =
     (if sz = 0 \<or> n = 0 then Some u
      else case binary_search (used_arr u) sz (used_len u) of
        Inr idx \<Rightarrow>
          (case fst (used_arr u ! idx) of
             None \<Rightarrow> None
           | Some number \<Rightarrow>
               Some (u\<lparr>used_arr := (used_arr u)[idx := (Some (number + n), snd (used_arr u ! idx))]\<rparr>))
      | Inl ins_idx \<Rightarrow>
          if used_len u < length (used_arr u) then
            Some (u\<lparr>used_arr := (ptr_copy ins_idx (ins_idx + 1) (used_len u - ins_idx) (used_arr u))
                                  [ins_idx := (Some n, sz)],
                    used_len := used_len u + 1\<rparr>)
          else None)"

section \<open>Correctness of the search\<close>

definition sizes_sorted :: "UsedObjEntry list \<Rightarrow> bool" where
  "sizes_sorted es \<longleftrightarrow> sorted_wrt (<) (map snd es)"

lemma binary_search_loop_correct:
  assumes "sizes_sorted (take len arr)" and "len \<le> length arr" and "low \<le> high" and "high \<le> len"
    and "\<And>j. j < low \<Longrightarrow> snd (arr ! j) < sz" and "\<And>j. high \<le> j \<Longrightarrow> j < len \<Longrightarrow> sz < snd (arr ! j)"
  shows "case binary_search_loop arr sz low high of
      Inr i \<Rightarrow> i < len \<and> snd (arr ! i) = sz
    | Inl i \<Rightarrow> i \<le> len \<and> (\<forall>j<i. snd (arr ! j) < sz) \<and> (\<forall>j. i \<le> j \<longrightarrow> j < len \<longrightarrow> sz < snd (arr ! j))"
  using assms
proof (induction arr sz low high rule: binary_search_loop.induct)
  case (1 arr sz low high)
  define mid where "mid = (low + high) div 2"
  have mono: "snd (arr ! i) < snd (arr ! j)" if "i < j" "j < len" for i j
    using "1.prems"(1,2) that by (simp add: sizes_sorted_def sorted_wrt_iff_nth_less)
  show ?case
  proof (cases "low < high")
    case True
    then have mid: "low \<le> mid" "mid < high" "mid < len" using "1.prems"(4) by (auto simp: mid_def)
    have step: "binary_search_loop arr sz low high =
        (if snd (arr ! mid) < sz then binary_search_loop arr sz (mid + 1) high
         else if sz < snd (arr ! mid) then binary_search_loop arr sz low mid else Inr mid)"
      using True by (subst binary_search_loop.simps) (simp add: mid_def Let_def)
    consider "snd (arr ! mid) < sz" | "sz < snd (arr ! mid)" | "snd (arr ! mid) = sz" by linarith
    then show ?thesis
    proof cases
      case 1
      have "snd (arr ! j) < sz" if "j < mid + 1" for j
        using mono [of j mid] mid(3) that 1 by (cases "j = mid") auto
      with "1.IH"(1) [OF True mid_def refl 1 "1.prems"(1,2)] mid "1.prems"(4,6) step 1 show ?thesis
        by simp
    next
      case 2
      have "sz < snd (arr ! j)" if "mid \<le> j" "j < len" for j
        using mono [of mid j] that 2 by (cases "j = mid") auto
      with "1.IH"(2) [OF True mid_def refl _ 2 "1.prems"(1,2)] mid "1.prems"(5) step 2 show ?thesis
        by simp
    next
      case 3
      with step mid(3) show ?thesis by simp
    qed
  next
    case False
    with "1.prems" show ?thesis by (subst binary_search_loop.simps) auto
  qed
qed

section \<open>The table counts\<close>

definition used_ok :: "UsedObjectsFixed \<Rightarrow> bool" where
  "used_ok u \<longleftrightarrow> used_len u \<le> length (used_arr u) \<and> sizes_sorted (used_entries u) \<and>
     (\<forall>e\<in>set (used_entries u). \<exists>n. fst e = Some n \<and> n \<noteq> 0) \<and> 0 \<notin> snd ` set (used_entries u)"

definition used_map :: "UsedObjEntry list \<Rightarrow> usize \<rightharpoonup> 32 word option" where
  "used_map es = map_of (map (\<lambda>e. (snd e, fst e)) es)"

text \<open>How many objects of a size the table has counted.\<close>

definition used_count :: "UsedObjectsFixed \<Rightarrow> usize \<Rightarrow> nat" where
  "used_count u sz = (case used_map (used_entries u) sz of Some (Some n) \<Rightarrow> unat n | _ \<Rightarrow> 0)"

text \<open>A number may be added when the sum fits a \<open>u32\<close> and there is room for a new size.\<close>

definition used_addable :: "usize \<Rightarrow> nat \<Rightarrow> UsedObjectsFixed \<Rightarrow> bool" where
  "used_addable sz n u \<longleftrightarrow> sz \<noteq> 0 \<and> used_count u sz + n < 2 ^ 32 \<and>
     (sz \<in> snd ` set (used_entries u) \<or> used_len u < length (used_arr u))"

lemma used_map_middle:
  assumes "snd e \<notin> snd ` set xs"
  shows "used_map (xs @ e # ys) = (used_map (xs @ ys))(snd e \<mapsto> fst e)"
  using assms by (simp add: used_map_def map_add_upd_left dom_map_of_conv_image_fst image_image)

lemma used_map_None: "used_map es sz = None \<longleftrightarrow> sz \<notin> snd ` set es"
  by (simp add: used_map_def map_of_eq_None_iff image_image)

lemma sizes_sorted_cases:
  assumes "sizes_sorted es"
  shows "case binary_search (es @ rest) sz (length es) of
      Inr i \<Rightarrow> \<exists>xs c ys. es = xs @ (c, sz) # ys \<and> length xs = i \<and> sz \<notin> snd ` set (xs @ ys)
    | Inl i \<Rightarrow> \<exists>xs ys. es = xs @ ys \<and> length xs = i \<and> sz \<notin> snd ` set es \<and>
        (\<forall>e\<in>set xs. snd e < sz) \<and> (\<forall>e\<in>set ys. sz < snd e)"
proof -
  have nth: "(es @ rest) ! j = es ! j" if "j < length es" for j
    using that by (simp add: nth_append)
  have c: "case binary_search (es @ rest) sz (length es) of
      Inr i \<Rightarrow> i < length es \<and> snd ((es @ rest) ! i) = sz
    | Inl i \<Rightarrow> i \<le> length es \<and> (\<forall>j<i. snd ((es @ rest) ! j) < sz) \<and>
        (\<forall>j. i \<le> j \<longrightarrow> j < length es \<longrightarrow> sz < snd ((es @ rest) ! j))"
    unfolding binary_search_def
    by (rule binary_search_loop_correct) (use assms in \<open>simp_all\<close>)
  show ?thesis
  proof (cases "binary_search (es @ rest) sz (length es)")
    case (Inr i)
    with c nth have i: "i < length es" "snd (es ! i) = sz" by auto
    define xs ys where "xs = take i es" and "ys = drop (Suc i) es"
    have es: "es = xs @ (fst (es ! i), sz) # ys" "length xs = i"
      using id_take_nth_drop [OF i(1)] i by (auto simp: xs_def ys_def prod_eq_iff)
    have "sorted_wrt (<) (map snd (xs @ (fst (es ! i), sz) # ys))"
      using assms es(1) by (simp add: sizes_sorted_def)
    then have "sz \<notin> snd ` set (xs @ ys)" by (auto simp: sorted_wrt_append)
    with es Inr show ?thesis by auto
  next
    case (Inl i)
    with c nth have i: "i \<le> length es" "\<forall>j<i. snd (es ! j) < sz"
      "\<forall>j. i \<le> j \<longrightarrow> j < length es \<longrightarrow> sz < snd (es ! j)" by auto
    have "\<forall>e\<in>set (take i es). snd e < sz" using i(1,2) by (force simp: in_set_conv_nth)
    moreover have "\<forall>e\<in>set (drop i es). sz < snd e"
    proof
      fix e assume "e \<in> set (drop i es)"
      then obtain j where "j < length es - i" "e = es ! (i + j)" by (auto simp: in_set_conv_nth)
      with i(3) show "sz < snd e" by simp
    qed
    moreover from calculation have "sz \<notin> snd ` set (take i es) \<union> snd ` set (drop i es)" by auto
    then have "sz \<notin> snd ` set es" unfolding image_Un [symmetric] set_append [symmetric] by simp
    ultimately have "es = take i es @ drop i es \<and> length (take i es) = i \<and> sz \<notin> snd ` set es \<and>
        (\<forall>e\<in>set (take i es). snd e < sz) \<and> (\<forall>e\<in>set (drop i es). sz < snd e)"
      using i(1) by (auto simp del: set_append)
    then show ?thesis unfolding Inl sum.case by (intro exI [of _ "take i es"] exI [of _ "drop i es"])
  qed
qed

lemma used_entriesE:
  assumes "used_ok u"
  obtains es rest where "used_arr u = es @ rest" "used_len u = length es" "used_entries u = es"
    "sizes_sorted es"
proof (rule that)
  show "used_arr u = used_entries u @ drop (used_len u) (used_arr u)" by (simp add: used_entries_def)
qed (use assms in \<open>auto simp: used_ok_def used_entries_def\<close>)

lemma ptr_copy_insert:
  "(ptr_copy (length xs) (length xs + 1) (length ys) (xs @ ys @ z # rest))[length xs := e] =
   xs @ e # ys @ rest"
proof (cases ys)
  case (Cons y ys')
  then show ?thesis by (simp add: ptr_copy_def list_update_append)
qed (simp add: ptr_copy_def)

lemma write_used_adds:
  assumes ok: "used_ok u" and add: "used_addable sz n u"
  shows "\<exists>u'. write_used_number_and_size sz (of_nat n) u = Some u' \<and> used_ok u' \<and>
     length (used_arr u') = length (used_arr u) \<and>
     used_count u' = (used_count u)(sz := used_count u sz + n)"
proof (cases "n = 0")
  case True
  with ok show ?thesis by (simp add: write_used_number_and_size_def fun_upd_idem)
next
  case False
  obtain es rest where u: "used_arr u = es @ rest" "used_len u = length es" "used_entries u = es"
    "sizes_sorted es" using ok by (rule used_entriesE)
  have n: "n < 2 ^ 32" "sz \<noteq> 0" "(of_nat n :: 32 word) \<noteq> 0" "unat (of_nat n :: 32 word) = n"
    using add False by (auto simp: used_addable_def unat_of_nat take_bit_nat_eq_self word_of_nat_eq_0_iff take_bit_eq_0_iff dest: nat_dvd_not_less)
  note bs = sizes_sorted_cases [OF u(4), of sz rest]
  show ?thesis
  proof (cases "binary_search (es @ rest) sz (length es)")
    case (Inr i)
    with bs obtain xs c ys where es: "es = xs @ (c, sz) # ys" "length xs = i" "sz \<notin> snd ` set (xs @ ys)"
      by auto
    obtain m where m: "c = Some m" "m \<noteq> 0" using ok u(3) es(1) by (auto simp: used_ok_def)
    define u' where "u' = u\<lparr>used_arr := xs @ (Some (m + of_nat n), sz) # ys @ rest\<rparr>"
    have w: "write_used_number_and_size sz (of_nat n) u = Some u'"
      using Inr u(1,2) es m n by (simp add: write_used_number_and_size_def u'_def nth_append list_update_append)
    have e': "used_entries u' = xs @ (Some (m + of_nat n), sz) # ys"
      using u(2) es(1) by (simp add: used_entries_def u'_def)
    have cnt: "used_count u sz = unat m"
      using u(3) es used_map_middle [of "(c, sz)" xs ys] m by (simp add: used_count_def image_Un)
    then have sum: "unat (m + of_nat n) = unat m + n"
      using add n by (simp add: used_addable_def unat_word_ariths)
    then have nz: "m + of_nat n \<noteq> 0" using m(2) by (metis add_is_0 unat_0 unat_eq_zero)
    have "used_ok u'"
      using ok u es(1) e' nz by (auto simp: used_ok_def sizes_sorted_def u'_def)
    moreover have "used_count u' = (used_count u)(sz := used_count u sz + n)"
    proof
      fix k
      show "used_count u' k = ((used_count u)(sz := used_count u sz + n)) k"
        using u(3) e' es used_map_middle [of "(c, sz)" xs ys]
          used_map_middle [of "(Some (m + of_nat n), sz)" xs ys] cnt sum
        by (simp add: used_count_def image_Un)
    qed
    moreover have "length (used_arr u') = length (used_arr u)" using u(1) es(1) by (simp add: u'_def)
    ultimately show ?thesis using w by blast
  next
    case (Inl i)
    with bs obtain xs ys where es: "es = xs @ ys" "length xs = i" "sz \<notin> snd ` set es"
      "\<forall>e\<in>set xs. snd e < sz" "\<forall>e\<in>set ys. sz < snd e" by auto
    from add es(3) u(2,3) have len: "length es < length (es @ rest)" using u(1) by (simp add: used_addable_def)
    then obtain z rest' where r: "rest = z # rest'" by (cases rest) auto
    define u' where "u' = u\<lparr>used_arr := xs @ (Some (of_nat n), sz) # ys @ rest', used_len := Suc (length es)\<rparr>"
    have w: "write_used_number_and_size sz (of_nat n) u = Some u'"
      using Inl u(1,2) es(1,2) n r ptr_copy_insert [of xs ys z rest' "(Some (of_nat n), sz)"]
      by (auto simp: write_used_number_and_size_def u'_def)
    have e': "used_entries u' = xs @ (Some (of_nat n), sz) # ys"
      using es(1) by (simp add: used_entries_def u'_def)
    have "used_ok u'"
      using ok u(3,4) es n e' by (auto simp: used_ok_def sizes_sorted_def u'_def sorted_wrt_append)
    moreover have "used_count u' = (used_count u)(sz := used_count u sz + n)"
    proof
      fix k
      have "used_map es sz = None" using es(3) by (simp add: used_map_None)
      then show "used_count u' k = ((used_count u)(sz := used_count u sz + n)) k"
        using u(3) e' es used_map_middle [of "(Some (of_nat n), sz)" xs ys] n
        by (simp add: used_count_def image_Un)
    qed
    moreover have "length (used_arr u') = length (used_arr u)" using u(1) es(1) r by (simp add: u'_def)
    ultimately show ?thesis using w by blast
  qed
qed

interpretation used: counter used_ok used_count used_addable
    "\<lambda>sz n u. write_used_number_and_size sz (of_nat n) u"
proof unfold_locales
  fix u sz n assume "used_ok u" "used_addable sz n u"
  from write_used_adds [OF this] show "\<exists>u'. write_used_number_and_size sz (of_nat n) u = Some u' \<and>
      used_ok u' \<and> used_count u' = (used_count u)(sz := used_count u sz + n)" by blast
qed

lemma new_used_ok [simp]: "used_ok (new_used N)" and new_used_count [simp]: "used_count (new_used N) = (\<lambda>_. 0)"
  by (simp_all add: used_ok_def new_used_def used_entries_def sizes_sorted_def used_count_def
      used_map_def fun_eq_iff)

definition record_used :: "(usize \<times> nat) list \<Rightarrow> UsedObjectsFixed \<Rightarrow> UsedObjectsFixed option" where
  "record_used = add_all (\<lambda>sz n u. write_used_number_and_size sz (of_nat n) u)"

lemma find_size_count:
  assumes "used_ok u"
  shows "find_size sz u = (case used_map (used_entries u) sz of
      Some c \<Rightarrow> Inr (c, sz) | None \<Rightarrow> Inl (length (filter (\<lambda>e. snd e < sz) (used_entries u))))"
proof -
  obtain es rest where u: "used_arr u = es @ rest" "used_len u = length es" "used_entries u = es"
    "sizes_sorted es" using assms by (rule used_entriesE)
  note bs = sizes_sorted_cases [OF u(4), of sz rest]
  show ?thesis
  proof (cases "binary_search (es @ rest) sz (length es)")
    case (Inr i)
    with bs obtain xs c ys where es: "es = xs @ (c, sz) # ys" "length xs = i" "sz \<notin> snd ` set (xs @ ys)"
      by auto
    then have "used_map es sz = Some c" using used_map_middle [of "(c, sz)" xs ys] by (simp add: image_Un)
    with Inr u es show ?thesis by (simp add: find_size_def nth_append)
  next
    case (Inl i)
    with bs obtain xs ys where es: "es = xs @ ys" "length xs = i" "sz \<notin> snd ` set es"
      "\<forall>e\<in>set xs. snd e < sz" "\<forall>e\<in>set ys. sz < snd e" by auto
    have "filter (\<lambda>e. snd e < sz) xs = xs" "filter (\<lambda>e. snd e < sz) ys = []"
      using es(4,5) by (auto simp: filter_empty_conv)
    moreover have "used_map es sz = None" using es(3) by (simp add: used_map_None)
    ultimately show ?thesis using Inl u es(1,2) by (simp add: find_size_def)
  qed
qed

text \<open>C17: Starting from an empty table, recording any list of (size, number) pairs whose sums fit a
  \<open>u32\<close> and whose sizes fit the array neither panics nor loses a count: the table stays sorted,
  without zero entries, \<open>find_size\<close> finds exactly the sizes with a positive total, with that
  total, and otherwise returns the position where the size would be inserted.
\<close>

theorem record_used_totals:
  assumes "all_ok used_addable (\<lambda>sz n u. write_used_number_and_size sz (of_nat n) u) kns (new_used N)"
  shows "\<exists>u. record_used kns (new_used N) = Some u \<and> used_ok u \<and>
    (\<forall>sz. find_size sz u =
       (if 0 < total_of kns sz then Inr (Some (of_nat (total_of kns sz)), sz)
        else Inl (length (filter (\<lambda>e. snd e < sz) (used_entries u)))))"
proof -
  obtain u where u: "record_used kns (new_used N) = Some u" "used_ok u" "used_count u = total_of kns"
    using used.add_all_counts [OF new_used_ok assms] by (auto simp: record_used_def)
  have "find_size sz u = (if 0 < total_of kns sz then Inr (Some (of_nat (total_of kns sz)), sz)
      else Inl (length (filter (\<lambda>e. snd e < sz) (used_entries u))))" for sz
  proof (cases "used_map (used_entries u) sz")
    case None
    then have "total_of kns sz = 0" using u(3) by (metis used_count_def option.simps(4))
    with None u(2) show ?thesis by (simp add: find_size_count)
  next
    case (Some c)
    then have "(c, sz) \<in> set (used_entries u)"
      by (auto simp: used_map_def dest!: map_of_SomeD)
    with u(2) obtain m where m: "c = Some m" "m \<noteq> 0" by (auto simp: used_ok_def)
    with Some u(3) have "total_of kns sz = unat m" by (metis used_count_def option.simps(5))
    with Some m u(2) show ?thesis by (simp add: find_size_count unat_gt_0)
  qed
  with u(1,2) show ?thesis by blast
qed

theorem record_used_totals_witness:
  "\<exists>u. record_used [(16, 3), (8, 1), (16, 4)] (new_used 2) = Some u \<and> used_ok u \<and>
    find_size 16 u = Inr (Some 7, 16)"
proof -
  have new_used_2: "replicate 2 (None, 0) = [(None, 0), (None :: 32 word option, 0 :: nat)]"
    by (simp add: numeral_2_eq_2)
  have "all_ok used_addable (\<lambda>sz n u. write_used_number_and_size sz (of_nat n) u)
      [(16, 3), (8, 1), (16, 4)] (new_used 2)"
    by (simp add: used_addable_def used_count_def used_map_def used_entries_def new_used_def
        write_used_number_and_size_def binary_search_def binary_search_loop.simps ptr_copy_def new_used_2)
  from record_used_totals [OF this] show ?thesis by fastforce
qed

end
