(* ===== verification/SelfVec.thy ===== *)
theory SelfVec
  imports Interfaces Sizes
begin

text \<open>
  \<open>self_vec.rs\<close>: vectors whose memory comes from the allocator they are part of.

  A vector is its pointer, its initialised elements (\<open>len\<close> is their number) and its capacity;
  \<open>len\<close> and \<open>cap\<close> are \<open>u32\<close>, so sums of them wrap. The memory itself is not modelled: the copy
  into a new block keeps the elements.

  The trait \<open>AllocatorForSelfAllocations\<close> is the record \<open>vec_env\<close>: its functions act on a world
  \<open>'w\<close> that contains the vector, because an allocation or deallocation may re-enter and change
  the vector that is being grown; \<open>the_vec\<close> and \<open>set_vec\<close> read and write it there. The optional
  state of the trait is part of the world.
\<close>

type_synonym u32 = nat

definition u32 :: "nat \<Rightarrow> u32" where "u32 n = n mod 2 ^ 32"

lemma u32_small [simp]: "n < 2 ^ 32 \<Longrightarrow> u32 n = n" by (simp add: u32_def)

record 'a self_vec =
  vec_ptr :: addr
  vec_elems :: "'a list"
  vec_cap :: u32

record ('a, 'w) vec_env =
  self_alloc :: "usize \<Rightarrow> 'w \<Rightarrow> addr option \<times> 'w"
  self_alloc_without_counting_limit :: "usize \<Rightarrow> 'w \<Rightarrow> addr option \<times> 'w"
  self_dealloc :: "addr \<Rightarrow> usize \<Rightarrow> 'w \<Rightarrow> 'w"
  the_vec :: "'w \<Rightarrow> 'a self_vec"
  set_vec :: "'a self_vec \<Rightarrow> 'w \<Rightarrow> 'w"
  elem_size :: usize

section \<open>Plain operations\<close>

definition new_vec :: "'a self_vec" where
  "new_vec = \<lparr>vec_ptr = 0, vec_elems = [], vec_cap = 0\<rparr>"

definition vec_len :: "'a self_vec \<Rightarrow> u32" where
  "vec_len v = length (vec_elems v)"

definition vacant :: "'a self_vec \<Rightarrow> usize" where
  "vacant v = vec_cap v - vec_len v"

definition bytes_allocated :: "usize \<Rightarrow> 'a self_vec \<Rightarrow> usize" where
  "bytes_allocated sz v = recommended_size (vec_cap v * sz)"

text \<open>\<open>Inl\<close>: the element is given back.\<close>

definition try_push :: "'a \<Rightarrow> 'a self_vec \<Rightarrow> 'a + 'a self_vec" where
  "try_push x v = (if vacant v = 0 then Inl x else Inr (v\<lparr>vec_elems := vec_elems v @ [x]\<rparr>))"

definition vec_pop :: "'a self_vec \<Rightarrow> 'a option \<times> 'a self_vec" where
  "vec_pop v =
     (if 0 < vec_len v then (Some (last (vec_elems v)), v\<lparr>vec_elems := butlast (vec_elems v)\<rparr>)
      else (None, v))"

definition try_extend_from_slice :: "'a list \<Rightarrow> 'a self_vec \<Rightarrow> 'a self_vec option" where
  "try_extend_from_slice xs v =
     (if vec_cap v < u32 (vec_len v + u32 (length xs)) then None
      else Some (v\<lparr>vec_elems := vec_elems v @ xs\<rparr>))"

text \<open>\<open>None\<close>: the index is out of bounds (undefined behaviour).\<close>

definition swap_remove :: "nat \<Rightarrow> 'a self_vec \<Rightarrow> ('a \<times> 'a self_vec) option" where
  "swap_remove i v =
     (if i < vec_len v then
        let xs = vec_elems v; n = vec_len v - 1
        in Some (xs ! i, v\<lparr>vec_elems := take n (xs[i := xs ! n])\<rparr>)
      else None)"

definition get_mut :: "nat \<Rightarrow> 'a self_vec \<Rightarrow> 'a option" where
  "get_mut i v = (if i < vec_len v then Some (vec_elems v ! i) else None)"

text \<open>A write through the reference \<open>get_mut\<close> returns.\<close>

definition write_mut :: "nat \<Rightarrow> 'a \<Rightarrow> 'a self_vec \<Rightarrow> 'a self_vec" where
  "write_mut i x v = v\<lparr>vec_elems := (vec_elems v)[i := x]\<rparr>"

section \<open>Growing\<close>

definition alloc_with :: "('a, 'w) vec_env \<Rightarrow> bool \<Rightarrow> u32 \<Rightarrow> 'w \<Rightarrow> (addr option \<times> u32) \<times> 'w" where
  "alloc_with E counted min_cap w =
     (let sz = recommended_size (next_power_of_two (min_cap * elem_size E));
          cap = u32 (sz div elem_size E)
      in case (if counted then self_alloc E sz w else self_alloc_without_counting_limit E sz w) of
           (p, w') \<Rightarrow> ((p, cap), w'))"

definition maybe_dealloc :: "('a, 'w) vec_env \<Rightarrow> addr \<Rightarrow> u32 \<Rightarrow> 'w \<Rightarrow> 'w" where
  "maybe_dealloc E p cap w = (if cap \<noteq> 0 then self_dealloc E p (cap * elem_size E) w else w)"

definition needed :: "('a, 'w) vec_env \<Rightarrow> u32 \<Rightarrow> 'w \<Rightarrow> u32" where
  "needed E additional w = u32 (vec_len (the_vec E w) + additional)"

text \<open>
  The loop of \<open>reserve_slow\<close>, with fuel: \<open>None\<close> is not having returned within the fuel,
  \<open>Some (False, w)\<close> is \<open>Err(())\<close>.
\<close>

fun reserve_loop :: "nat \<Rightarrow> ('a, 'w) vec_env \<Rightarrow> bool \<Rightarrow> u32 \<Rightarrow> u32 \<Rightarrow> 'w \<Rightarrow> (bool \<times> 'w) option" where
  "reserve_loop 0 E counted additional min_cap w = None"
| "reserve_loop (Suc fuel) E counted additional min_cap w =
     (case alloc_with E counted min_cap w of
        ((new_ptr, new_cap), w1) \<Rightarrow>
          if new_cap < needed E additional w1 then
            reserve_loop fuel E counted additional (needed E additional w1)
              (case new_ptr of Some p \<Rightarrow> maybe_dealloc E p new_cap w1 | None \<Rightarrow> w1)
          else case new_ptr of
            None \<Rightarrow> Some (False, w1)
          | Some p \<Rightarrow>
              let v = the_vec E w1;
                  w2 = set_vec E (v\<lparr>vec_ptr := p, vec_cap := new_cap\<rparr>) w1;
                  w3 = maybe_dealloc E (vec_ptr v) (vec_cap v) w2
              in if new_cap < needed E additional w3 then
                   reserve_loop fuel E counted additional (needed E additional w3) w3
                 else Some (True, w3))"

definition reserve_slow :: "nat \<Rightarrow> ('a, 'w) vec_env \<Rightarrow> bool \<Rightarrow> u32 \<Rightarrow> 'w \<Rightarrow> (bool \<times> 'w) option" where
  "reserve_slow fuel E counted additional w =
     reserve_loop fuel E counted additional (needed E additional w) w"

text \<open>\<open>reserve\<close> and \<open>reserve_without_counting_limit\<close>: \<open>Inr b\<close> is \<open>Ok(b)\<close>.\<close>

definition reserve :: "nat \<Rightarrow> ('a, 'w) vec_env \<Rightarrow> bool \<Rightarrow> u32 \<Rightarrow> 'w \<Rightarrow> ((unit + bool) \<times> 'w) option" where
  "reserve fuel E counted additional w =
     (if needed E additional w \<le> vec_cap (the_vec E w) then Some (Inr False, w)
      else case reserve_slow fuel E counted additional w of
        None \<Rightarrow> None
      | Some (ok, w') \<Rightarrow> Some (if ok then Inr True else Inl (), w'))"

text \<open>\<open>push\<close>, \<open>push_without_counting_limit\<close> and \<open>extend_from_slice\<close>: \<open>False\<close> is \<open>Err(())\<close>.\<close>

definition extend_by :: "nat \<Rightarrow> ('a, 'w) vec_env \<Rightarrow> bool \<Rightarrow> 'a list \<Rightarrow> 'w \<Rightarrow> (bool \<times> 'w) option" where
  "extend_by fuel E counted xs w =
     (case reserve fuel E counted (u32 (length xs)) w of
        None \<Rightarrow> None
      | Some (Inl _, w') \<Rightarrow> Some (False, w')
      | Some (Inr _, w') \<Rightarrow>
          let v = the_vec E w' in Some (True, set_vec E (v\<lparr>vec_elems := vec_elems v @ xs\<rparr>) w'))"

definition vec_push :: "nat \<Rightarrow> ('a, 'w) vec_env \<Rightarrow> 'a \<Rightarrow> 'w \<Rightarrow> (bool \<times> 'w) option" where
  "vec_push fuel E x w = extend_by fuel E True [x] w"

definition push_without_counting_limit :: "nat \<Rightarrow> ('a, 'w) vec_env \<Rightarrow> 'a \<Rightarrow> 'w \<Rightarrow> (bool \<times> 'w) option" where
  "push_without_counting_limit fuel E x w = extend_by fuel E False [x] w"

definition extend_from_slice :: "nat \<Rightarrow> ('a, 'w) vec_env \<Rightarrow> 'a list \<Rightarrow> 'w \<Rightarrow> (bool \<times> 'w) option" where
  "extend_from_slice fuel E xs w = extend_by fuel E True xs w"

text \<open>\<open>clear_with\<close>: \<open>f\<close> is called on every element, read when its turn comes.\<close>

fun clear_loop :: "nat list \<Rightarrow> ('a, 'w) vec_env \<Rightarrow> ('a \<Rightarrow> 'w \<Rightarrow> 'w) \<Rightarrow> 'w \<Rightarrow> 'w" where
  "clear_loop [] E f w = w"
| "clear_loop (i # is) E f w = clear_loop is E f (f (vec_elems (the_vec E w) ! i) w)"

definition clear_with :: "('a, 'w) vec_env \<Rightarrow> ('a \<Rightarrow> 'w \<Rightarrow> 'w) \<Rightarrow> 'w \<Rightarrow> 'w" where
  "clear_with E f w =
     (let w1 = clear_loop [0 ..< vec_len (the_vec E w)] E f w;
          v = the_vec E w1
      in set_vec E new_vec (maybe_dealloc E (vec_ptr v) (vec_cap v) w1))"

definition force_become_null :: "'a self_vec \<Rightarrow> 'a self_vec" where
  "force_become_null v = v\<lparr>vec_ptr := 0, vec_elems := [], vec_cap := 0\<rparr>"

section \<open>Block sizes\<close>

lemma next_power_of_two_less: "1 < n \<Longrightarrow> next_power_of_two n < 2 * n"
proof -
  assume n: "1 < n"
  then have "bit_len (n - 1) = Suc (bit_len (n - 1) - 1)" by (simp add: bit_len_pos)
  then have "next_power_of_two n = 2 * 2 ^ (bit_len (n - 1) - 1)"
    using n by (metis next_power_of_two_def not_le power_Suc)
  moreover have "2 ^ (bit_len (n - 1) - 1) \<le> n - 1" using n by (intro bit_len_lower) simp
  ultimately show ?thesis using n by linarith
qed

lemma recommended_pow2:
  assumes "3 \<le> k"
  shows "recommended_size (2 ^ k) = 2 ^ k"
proof (cases "(2::nat) ^ k \<le> COMMON_SIZE_MAX")
  case True
  obtain m where k: "k = m + 3" using assms by (metis add.commute le_Suc_ex)
  have "(2::nat) ^ k = 8 * 2 ^ m" unfolding k by (simp add: power_add)
  then show ?thesis using True by (simp add: recommended_common)
qed (simp add: recommended_size_def large_size_to_id_and_real_size_def)

lemma block_size:
  "recommended_size (next_power_of_two n) = max 8 (next_power_of_two n)"
proof (rule next_power_of_twoE [of n])
  fix k assume k: "next_power_of_two n = 2 ^ k"
  show ?thesis
  proof (cases "3 \<le> k")
    case True
    then have "(8::nat) \<le> 2 ^ k" using power_increasing [of 3 k "2::nat"] by simp
    with True k show ?thesis by (simp add: recommended_pow2)
  next
    case False
    then have "k = 0 \<or> k = 1 \<or> k = 2" by linarith
    then show ?thesis using k by (auto simp: recommended_common layout_simps)
  qed
qed

lemma block_holds: "n \<le> recommended_size (next_power_of_two n)"
  using next_power_of_two_ge [of n] by (simp add: block_size)

text \<open>The capacity of a new block: it holds the elements asked for, and fits a \<open>u32\<close> up to \<open>2 ^ 31\<close>.\<close>

lemma block_cap:
  assumes "0 < sz" and "0 < n" and "n \<le> 2 ^ 31"
  shows "n \<le> recommended_size (next_power_of_two (n * sz)) div sz"
    and "recommended_size (next_power_of_two (n * sz)) div sz < 2 ^ 32"
proof -
  show "n \<le> recommended_size (next_power_of_two (n * sz)) div sz"
    using block_holds [of "n * sz"] assms(1) by (simp add: less_eq_div_iff_mult_less_eq)
  have "recommended_size (next_power_of_two (n * sz)) < 2 ^ 32 * sz"
  proof (cases "1 < n * sz")
    case True
    have "2 * (n * sz) \<le> 2 ^ 32 * sz" using assms(3) by simp
    with next_power_of_two_less [OF True] have "next_power_of_two (n * sz) < 2 ^ 32 * sz" by linarith
    moreover have "8 < 4294967296 * sz" using assms(1) by linarith
    ultimately show ?thesis by (simp add: block_size)
  next
    case False
    moreover have "0 < n * sz" using assms by simp
    ultimately have one: "n * sz = 1" by linarith
    then have "sz = 1" by simp
    moreover have "recommended_size (next_power_of_two 1) = 8" unfolding block_size by (simp add: next_power_of_two_def)
    ultimately show ?thesis unfolding one by simp
  qed
  then show "recommended_size (next_power_of_two (n * sz)) div sz < 2 ^ 32"
    by (simp add: less_mult_imp_div_less)
qed

section \<open>Growing by an allocator that leaves the vector alone\<close>

definition lens_ok :: "('a, 'w) vec_env \<Rightarrow> bool" where
  "lens_ok E \<longleftrightarrow> (\<forall>v w. the_vec E (set_vec E v w) = v)"

definition quiet :: "('a, 'w) vec_env \<Rightarrow> bool" where
  "quiet E \<longleftrightarrow> lens_ok E \<and> 0 < elem_size E \<and>
     (\<forall>n w. the_vec E (snd (self_alloc E n w)) = the_vec E w) \<and>
     (\<forall>n w. the_vec E (snd (self_alloc_without_counting_limit E n w)) = the_vec E w) \<and>
     (\<forall>p n w. the_vec E (self_dealloc E p n w) = the_vec E w)"

lemma lens [simp]: "lens_ok E \<Longrightarrow> the_vec E (set_vec E v w) = v"
  by (simp add: lens_ok_def)

lemma quiet_lens [dest]: "quiet E \<Longrightarrow> lens_ok E" and quiet_elem [dest]: "quiet E \<Longrightarrow> 0 < elem_size E"
  by (simp_all add: quiet_def)

lemma quiet_maybe_dealloc [simp]: "quiet E \<Longrightarrow> the_vec E (maybe_dealloc E p c w) = the_vec E w"
  by (simp add: quiet_def maybe_dealloc_def)

lemma quiet_alloc_with:
  assumes "quiet E" and "alloc_with E counted n w = ((p, c), w1)"
  shows "the_vec E w1 = the_vec E w" and "c = u32 (recommended_size (next_power_of_two (n * elem_size E)) div elem_size E)"
  using assms by (auto simp: alloc_with_def quiet_def Let_def split: prod.splits if_splits) (metis snd_conv)+

lemma reserve_quiet:
  assumes q: "quiet E" and fits: "vec_len (the_vec E w) + additional \<le> 2 ^ 31" and grow: "vec_cap (the_vec E w) < vec_len (the_vec E w) + additional"
    and a: "alloc_with E counted (vec_len (the_vec E w) + additional) w = ((p, c), w1)"
  shows "reserve (Suc fuel) E counted additional w = Some
    (case p of
       None \<Rightarrow> (Inl (), w1)
     | Some p \<Rightarrow> (Inr True, maybe_dealloc E (vec_ptr (the_vec E w)) (vec_cap (the_vec E w))
         (set_vec E ((the_vec E w)\<lparr>vec_ptr := p, vec_cap := c\<rparr>) w1)))"
    and "vec_len (the_vec E w) + additional \<le> c" and "the_vec E w1 = the_vec E w"
proof -
  let ?n = "vec_len (the_vec E w) + additional"
  note qa = quiet_alloc_with [OF q a]
  have n: "u32 ?n = ?n" "0 < ?n" using fits grow by (simp, linarith)
  have c: "?n \<le> c" using block_cap [OF quiet_elem [OF q] n(2) fits] qa(2) by simp
  then show "?n \<le> c" .
  show "the_vec E w1 = the_vec E w" by (fact qa(1))
  have need: "needed E additional w = ?n" "needed E additional w1 = ?n" using n qa(1) by (simp_all add: needed_def)
  show "reserve (Suc fuel) E counted additional w = Some
    (case p of
       None \<Rightarrow> (Inl (), w1)
     | Some p \<Rightarrow> (Inr True, maybe_dealloc E (vec_ptr (the_vec E w)) (vec_cap (the_vec E w))
         (set_vec E ((the_vec E w)\<lparr>vec_ptr := p, vec_cap := c\<rparr>) w1)))"
    using a grow c need qa(1) q n
    by (cases p) (simp_all add: reserve_def reserve_slow_def Let_def needed_def vec_len_def quiet_lens)
qed

text \<open>With an allocator that leaves the vector alone, \<open>reserve\<close> returns in the first round of its
  loop for up to \<open>2 ^ 31\<close> elements: either the vector has its elements and room for the additional
  ones, or the allocator gave nothing and the vector is as before. \<open>Ok(false)\<close> says that nothing
  was allocated.
\<close>

theorem reserve_makes_room:
  assumes "quiet E" and "vec_len (the_vec E w) + additional \<le> 2 ^ 31"
  shows "\<exists>r w'. reserve (Suc fuel) E counted additional w = Some (r, w') \<and>
    vec_elems (the_vec E w') = vec_elems (the_vec E w) \<and>
    (case r of
       Inl _ \<Rightarrow> the_vec E w' = the_vec E w
     | Inr grown \<Rightarrow> vec_len (the_vec E w') + additional \<le> vec_cap (the_vec E w') \<and> (\<not> grown \<longrightarrow> w' = w))"
proof (cases "vec_len (the_vec E w) + additional \<le> vec_cap (the_vec E w)")
  case True
  with assms(2) show ?thesis by (simp add: reserve_def needed_def)
next
  case False
  obtain p c w1 where a: "alloc_with E counted (vec_len (the_vec E w) + additional) w = ((p, c), w1)"
    by (metis prod.collapse)
  from False have grow: "vec_cap (the_vec E w) < vec_len (the_vec E w) + additional" by simp
  note r = reserve_quiet [OF assms grow a]
  show ?thesis
    using r(2,3) assms(1) by (cases p) (simp_all add: r(1) vec_len_def quiet_lens)
qed

text \<open>
  The allocator of the tests, \<open>ThreadLocalAllocatorFake\<close>, adds up the bytes it has handed out and
  asserts that no more come back (\<open>assertion_failed\<close>).
  \<open>std::alloc\<close>, below it, is a parameter: \<open>heap n k\<close> is the block for the \<open>k\<close>-th request.
\<close>

record 'a fake_world =
  fake_vec :: "'a self_vec"
  allocated_memory :: usize
  requests :: nat
  assertion_failed :: bool

definition fake_alloc :: "(usize \<Rightarrow> nat \<Rightarrow> addr) \<Rightarrow> usize \<Rightarrow> 'a fake_world \<Rightarrow> addr option \<times> 'a fake_world" where
  "fake_alloc heap n w =
     (let p = heap n (requests w)
      in (if p = 0 then None else Some p, w\<lparr>allocated_memory := allocated_memory w + n, requests := requests w + 1\<rparr>))"

definition fake_dealloc :: "addr \<Rightarrow> usize \<Rightarrow> 'a fake_world \<Rightarrow> 'a fake_world" where
  "fake_dealloc p n w =
     (if n \<le> allocated_memory w then w\<lparr>allocated_memory := allocated_memory w - n\<rparr>
      else w\<lparr>assertion_failed := True\<rparr>)"

definition fake_env :: "(usize \<Rightarrow> nat \<Rightarrow> addr) \<Rightarrow> usize \<Rightarrow> ('a, 'a fake_world) vec_env" where
  "fake_env heap sz = \<lparr>self_alloc = fake_alloc heap, self_alloc_without_counting_limit = fake_alloc heap,
     self_dealloc = fake_dealloc, the_vec = fake_vec, set_vec = (\<lambda>v w. w\<lparr>fake_vec := v\<rparr>), elem_size = sz\<rparr>"

definition fake_new :: "'a fake_world" where
  "fake_new = \<lparr>fake_vec = new_vec, allocated_memory = 0, requests = 0, assertion_failed = False\<rparr>"

lemma fake_quiet: "0 < sz \<Longrightarrow> quiet (fake_env heap sz)"
  by (simp add: quiet_def lens_ok_def fake_env_def fake_alloc_def fake_dealloc_def Let_def)

theorem reserve_makes_room_witness:
  "\<exists>r w'. reserve 1 (fake_env (\<lambda>_ _. 4096) 8) True 5 (fake_new :: nat fake_world) = Some (r, w') \<and>
    (case r of Inl _ \<Rightarrow> fake_vec w' = new_vec | Inr _ \<Rightarrow> 5 \<le> vec_cap (fake_vec w'))"
proof -
  have q: "quiet (fake_env (\<lambda>_ _. 4096) 8 :: (nat, nat fake_world) vec_env)" by (rule fake_quiet) simp
  have "vec_len (the_vec (fake_env (\<lambda>_ _. 4096) 8) (fake_new :: nat fake_world)) + 5 \<le> 2 ^ 31"
    by (simp add: fake_env_def fake_new_def new_vec_def vec_len_def)
  from reserve_makes_room [OF q this, of 0 True] show ?thesis
    by (fastforce simp: fake_env_def fake_new_def split: sum.splits)
qed

section \<open>Re-entrant allocators\<close>

lemma reserve_loop_room:
  assumes "lens_ok E" and "\<And>p n w. vec_cap (the_vec E w) \<le> vec_cap (the_vec E (self_dealloc E p n w))"
  shows "reserve_loop fuel E counted additional min_cap w = Some (True, w') \<Longrightarrow>
    needed E additional w' \<le> vec_cap (the_vec E w')"
proof (induction fuel arbitrary: min_cap w)
  case (Suc fuel)
  obtain p c w1 where a: "alloc_with E counted min_cap w = ((p, c), w1)" by (metis prod.collapse)
  show ?case
  proof (cases "c < needed E additional w1")
    case True
    with Suc a show ?thesis by auto
  next
    case False
    with Suc.prems a obtain q where p: "p = Some q" by (cases p) auto
    define v where "v = the_vec E w1"
    define w3 where "w3 = maybe_dealloc E (vec_ptr v) (vec_cap v) (set_vec E (v\<lparr>vec_ptr := q, vec_cap := c\<rparr>) w1)"
    have cap: "c \<le> vec_cap (the_vec E w3)"
      using assms(2) [of "set_vec E (v\<lparr>vec_ptr := q, vec_cap := c\<rparr>) w1"] assms(1)
      by (simp add: w3_def maybe_dealloc_def)
    show ?thesis
    proof (cases "c < needed E additional w3")
      case True
      with Suc.prems a False p have "reserve_loop fuel E counted additional (needed E additional w3) w3 = Some (True, w')"
        by (simp add: Let_def v_def w3_def)
      then show ?thesis by (rule Suc.IH)
    next
      case notless: False
      with Suc.prems a False p have "w' = w3" by (simp add: Let_def v_def w3_def)
      with notless cap show ?thesis by simp
    qed
  qed
qed simp

text \<open>The allocator may re-enter and change the vector during every allocation and deallocation
  of \<open>reserve\<close>, even push to it or grow it; as long as deallocations do not shrink its capacity,
  whenever \<open>reserve\<close> returns \<open>Ok\<close> the vector as it is by then has room for the additional
  elements. (The sum is the wrapping sum of the code.)
\<close>

theorem reserve_reentrant:
  assumes "lens_ok E" and "\<And>p n w. vec_cap (the_vec E w) \<le> vec_cap (the_vec E (self_dealloc E p n w))"
    and "reserve fuel E counted additional w = Some (Inr grown, w')"
  shows "u32 (vec_len (the_vec E w') + additional) \<le> vec_cap (the_vec E w')"
  using assms(3) reserve_loop_room [OF assms(1,2), of fuel counted additional "needed E additional w" w w']
  by (auto simp: reserve_def reserve_slow_def needed_def split: if_splits option.splits)

text \<open>An allocator that returns a freed block to the vector being grown, as the tables of free objects do.\<close>

definition returning_dealloc :: "addr \<Rightarrow> usize \<Rightarrow> addr fake_world \<Rightarrow> addr fake_world" where
  "returning_dealloc p n w =
     (case try_push p (fake_vec w) of Inl _ \<Rightarrow> w | Inr v \<Rightarrow> w\<lparr>fake_vec := v\<rparr>)"

definition returning_env :: "(addr, addr fake_world) vec_env" where
  "returning_env = (fake_env (\<lambda>_ k. 4096 * (k + 1)) 8)\<lparr>self_dealloc := returning_dealloc\<rparr>"

theorem reserve_reentrant_witness:
  "\<exists>w'. reserve 1 returning_env False 2
      \<lparr>fake_vec = \<lparr>vec_ptr = 8, vec_elems = [64], vec_cap = 1\<rparr>, allocated_memory = 8, requests = 0, assertion_failed = False\<rparr> =
      Some (Inr True, w') \<and> vec_elems (fake_vec w') = [64, 8] \<and> 4 \<le> vec_cap (fake_vec w')"
proof -
  have l: "lens_ok returning_env" by (simp add: lens_ok_def returning_env_def fake_env_def)
  have c: "vec_cap (the_vec returning_env w) \<le> vec_cap (the_vec returning_env (self_dealloc returning_env p n w))" for p n w
    by (simp add: returning_env_def fake_env_def returning_dealloc_def try_push_def split: sum.splits)
  have "bit_len 23 = 5" using bit_len_eqI [of 4 23] by simp
  then have "next_power_of_two 24 = 2 ^ 5" by (simp add: next_power_of_two_def)
  then have b: "recommended_size (next_power_of_two 24) = 32" using recommended_pow2 [of 5] by simp
  obtain w' where r: "reserve 1 returning_env False 2
      \<lparr>fake_vec = \<lparr>vec_ptr = 8, vec_elems = [64], vec_cap = 1\<rparr>, allocated_memory = 8, requests = 0, assertion_failed = False\<rparr> = Some (Inr True, w')"
    "vec_elems (fake_vec w') = [64, 8]"
    using b by (simp add: reserve_def reserve_slow_def needed_def returning_env_def fake_env_def
        fake_alloc_def returning_dealloc_def try_push_def vacant_def vec_len_def alloc_with_def maybe_dealloc_def Let_def)
  from reserve_reentrant [OF l c r(1)] r show ?thesis
    by (simp add: vec_len_def returning_env_def fake_env_def)
qed

section \<open>More than \<open>2 ^ 31\<close> elements\<close>

lemma huge_block:
  assumes j: "3 \<le> j" and n: "2 ^ 31 < n" "n < 2 ^ 32"
  shows "recommended_size (next_power_of_two (n * 2 ^ j)) = 2 ^ (32 + j)"
proof -
  have "2 ^ (31 + j) \<le> n * 2 ^ j - 1" "n * 2 ^ j - 1 < 2 ^ Suc (31 + j)"
  proof -
    have "(2 ^ 31 + 1) * 2 ^ j \<le> n * 2 ^ j" using n(1) by (intro mult_le_mono1) simp
    moreover have "(1::nat) \<le> 2 ^ j" by simp
    moreover have "((2::nat) ^ 31 + 1) * 2 ^ j = 2 ^ (31 + j) + 2 ^ j" by (simp add: power_add algebra_simps)
    ultimately show "2 ^ (31 + j) \<le> n * 2 ^ j - 1" by linarith
    have "n * 2 ^ j < 2 ^ 32 * 2 ^ j" using n(2) by (intro mult_less_mono1) simp_all
    moreover have "(2::nat) ^ Suc (31 + j) = 2 ^ 32 * 2 ^ j" by (simp add: power_add)
    ultimately show "n * 2 ^ j - 1 < 2 ^ Suc (31 + j)" by linarith
  qed
  then have "bit_len (n * 2 ^ j - 1) = Suc (31 + j)" by (rule bit_len_eqI)
  moreover have "\<not> n * 2 ^ j \<le> 1"
  proof -
    have "n \<le> n * 2 ^ j" by simp
    moreover have "1 < n" using n(1) by simp
    ultimately show ?thesis by linarith
  qed
  ultimately have "next_power_of_two (n * 2 ^ j) = 2 ^ (32 + j)" by (simp add: next_power_of_two_def)
  with j show ?thesis by (simp add: recommended_pow2)
qed

text \<open>C39: \<open>reserve\<close> for more than \<open>2 ^ 31\<close> elements (of a size that is a power of two, at least 8, as
  all its uses have) never returns, even when the allocator always has memory: the new block has
  room for \<open>2 ^ 32\<close> elements, whose number as a \<open>u32\<close> is 0, so the block is not taken, not freed
  either, and the loop starts again.
\<close>

theorem reserve_huge_never_returns:
  assumes "quiet E" and "elem_size E = 2 ^ j" and "3 \<le> j"
    and "2 ^ 31 < vec_len (the_vec E w) + additional" and "vec_len (the_vec E w) + additional < 2 ^ 32"
    and "vec_cap (the_vec E w) < vec_len (the_vec E w) + additional"
  shows "reserve fuel E counted additional w = None"
proof -
  let ?n = "vec_len (the_vec E w) + additional"
  have "reserve_loop fuel E counted additional ?n w1 = None" if "the_vec E w1 = the_vec E w" for w1
    using that
  proof (induction fuel arbitrary: w1)
    case (Suc fuel)
    obtain p c w2 where a: "alloc_with E counted ?n w1 = ((p, c), w2)" by (metis prod.collapse)
    note q = quiet_alloc_with [OF assms(1) a]
    have "(2::nat) ^ (32 + j) div 2 ^ j = 2 ^ 32" by (simp add: power_add)
    then have "c = 0"
      using q(2) huge_block [OF assms(3-5)] by (simp add: assms(2) u32_def)
    have "needed E additional w2 = ?n" using q(1) Suc.prems assms(5) by (simp add: needed_def)
    with assms(4) have need: "needed E additional w2 = ?n" "0 < needed E additional w2" by linarith+
    have "reserve_loop (Suc fuel) E counted additional ?n w1 =
        reserve_loop fuel E counted additional (needed E additional w2) w2"
      using a need(2) \<open>c = 0\<close> by (cases p) (simp_all add: maybe_dealloc_def)
    then show ?case using Suc q(1) need(1) by simp
  qed simp
  then show ?thesis using assms(5,6) by (simp add: reserve_def reserve_slow_def needed_def)
qed

theorem reserve_huge_never_returns_witness:
  "reserve 1000 (fake_env (\<lambda>_ k. 4096 * (k + 1)) 8) True (2 ^ 31 + 1) (fake_new :: nat fake_world) = None"
proof -
  have q: "quiet (fake_env (\<lambda>_ k. 4096 * (k + 1)) 8 :: (nat, nat fake_world) vec_env)" by (rule fake_quiet) simp
  show ?thesis
    by (rule reserve_huge_never_returns [OF q, of 3])
      (simp_all add: fake_env_def fake_new_def new_vec_def vec_len_def)
qed

section \<open>No byte is lost\<close>

text \<open>
  What the vector relies on from an allocator that counts its bytes. The element sizes the source
  uses are 8 and 16; for a power of two from 8 the size of a block is its capacity times the
  size of an element, so what is freed is what was allocated.
\<close>

locale counting_allocator =
  fixes E :: "('a, 'w) vec_env" and bytes :: "'w \<Rightarrow> nat" and failed :: "'w \<Rightarrow> bool" and j :: nat
  assumes quiet: "quiet E"
    and elem: "elem_size E = 2 ^ j" "3 \<le> j"
    and set_bytes: "bytes (set_vec E v w) = bytes w \<and> failed (set_vec E v w) = failed w"
    and alloc_bytes: "self_alloc E n w = (Some p, w') \<Longrightarrow> bytes w' = bytes w + n \<and> failed w' = failed w"
    and uncounted_bytes: "self_alloc_without_counting_limit E n w = (Some p, w') \<Longrightarrow> bytes w' = bytes w + n \<and> failed w' = failed w"
    and dealloc_bytes: "n \<le> bytes w \<Longrightarrow> bytes (self_dealloc E p n w) = bytes w - n \<and>
      failed (self_dealloc E p n w) = failed w"

context counting_allocator
begin

definition held_bytes :: "'w \<Rightarrow> nat" where
  "held_bytes w = vec_cap (the_vec E w) * elem_size E"

lemma block_exact:
  assumes "0 < n" and "n \<le> 2 ^ 31"
  shows "u32 (recommended_size (next_power_of_two (n * elem_size E)) div elem_size E) * elem_size E =
    recommended_size (next_power_of_two (n * elem_size E))"
proof -
  let ?r = "recommended_size (next_power_of_two (n * elem_size E))"
  note c = block_cap [of "elem_size E" n] quiet_elem [OF quiet]
  obtain k where k: "next_power_of_two (n * elem_size E) = 2 ^ k" by (rule next_power_of_twoE)
  have "(2::nat) ^ j \<le> 2 ^ k"
  proof (rule le_trans)
    show "2 ^ j \<le> n * elem_size E" using assms(1) by (simp add: elem(1))
    show "n * elem_size E \<le> 2 ^ k" using next_power_of_two_ge [of "n * elem_size E"] by (simp only: k)
  qed
  then have jk: "j \<le> k" by (simp only: power_increasing_iff one_less_numeral_iff semiring_norm)
  with elem(2) have "?r = 2 ^ k" unfolding k by (intro recommended_pow2) simp
  with jk have "elem_size E dvd ?r" by (simp add: elem(1) le_imp_power_dvd)
  then have "?r div elem_size E * elem_size E = ?r" by simp
  moreover have "?r div elem_size E < 2 ^ 32" using c assms by simp
  ultimately show ?thesis by simp
qed

lemma reserve_bytes:
  assumes "held_bytes w \<le> bytes w" and "vec_len (the_vec E w) + additional \<le> 2 ^ 31"
    and "reserve (Suc fuel) E counted additional w = Some (Inr b, w')"
  shows "held_bytes w' \<le> bytes w' \<and> bytes w' - held_bytes w' = bytes w - held_bytes w \<and> failed w' = failed w \<and>
    vec_elems (the_vec E w') = vec_elems (the_vec E w) \<and> vec_len (the_vec E w) + additional \<le> vec_cap (the_vec E w')"
proof (cases "vec_len (the_vec E w) + additional \<le> vec_cap (the_vec E w)")
  case True
  with assms show ?thesis by (simp add: reserve_def needed_def)
next
  case False
  let ?n = "vec_len (the_vec E w) + additional" and ?v = "the_vec E w"
  obtain p c w1 where a: "alloc_with E counted ?n w = ((p, c), w1)" by (metis prod.collapse)
  from False have grow: "vec_cap ?v < ?n" by simp
  note r = reserve_quiet [OF quiet assms(2) grow a]
  obtain q where q: "p = Some q" using r(1) assms(3) by (cases p) auto
  let ?w2 = "set_vec E (?v\<lparr>vec_ptr := q, vec_cap := c\<rparr>) w1"
  from r(1) q assms(3) have w': "w' = maybe_dealloc E (vec_ptr ?v) (vec_cap ?v) ?w2" by simp
  have n: "0 < ?n" using grow by linarith
  have "bytes w1 = bytes w + recommended_size (next_power_of_two (?n * elem_size E)) \<and> failed w1 = failed w"
    using a q by (auto simp: alloc_with_def Let_def split: prod.splits if_splits dest: alloc_bytes uncounted_bytes)
  moreover have c: "c * elem_size E = recommended_size (next_power_of_two (?n * elem_size E))"
    using quiet_alloc_with(2) [OF quiet a] block_exact [OF n assms(2)] by simp
  ultimately have b: "bytes ?w2 = bytes w + c * elem_size E \<and> failed ?w2 = failed w" by (simp add: set_bytes)
  have "bytes w' = bytes w + c * elem_size E - held_bytes w \<and> failed w' = failed w"
    using assms(1) b dealloc_bytes [of "held_bytes w" ?w2 "vec_ptr ?v"]
    by (cases "vec_cap ?v = 0") (simp_all add: w' maybe_dealloc_def held_bytes_def)
  moreover have v': "the_vec E w' = ?v\<lparr>vec_ptr := q, vec_cap := c\<rparr>"
    using quiet by (simp add: w' quiet_lens)
  ultimately show ?thesis using assms(1) r(2) by (simp add: held_bytes_def)
qed

lemma extend_bytes:
  assumes "held_bytes w \<le> bytes w" and "vec_len (the_vec E w) + length xs \<le> 2 ^ 31"
    and "extend_by (Suc fuel) E counted xs w = Some (True, w')"
  shows "held_bytes w' \<le> bytes w' \<and> bytes w' - held_bytes w' = bytes w - held_bytes w \<and> failed w' = failed w \<and>
    vec_elems (the_vec E w') = vec_elems (the_vec E w) @ xs \<and> vec_len (the_vec E w') \<le> vec_cap (the_vec E w')"
proof -
  have u: "u32 (length xs) = length xs" using assms(2) by simp
  from assms(3) obtain b w1 where r: "reserve (Suc fuel) E counted (length xs) w = Some (Inr b, w1)"
    and w': "w' = set_vec E ((the_vec E w1)\<lparr>vec_elems := vec_elems (the_vec E w1) @ xs\<rparr>) w1"
    unfolding extend_by_def u by (auto split: option.splits sum.splits simp: Let_def)
  from reserve_bytes [OF assms(1,2) r] quiet show ?thesis
    by (simp add: w' held_bytes_def set_bytes quiet_lens vec_len_def)
qed

lemma extend_total:
  assumes "\<And>n w. fst (self_alloc E n w) \<noteq> None" and "vec_len (the_vec E w) + length xs \<le> 2 ^ 31"
  shows "\<exists>w'. extend_by (Suc fuel) E True xs w = Some (True, w')"
proof (cases "vec_len (the_vec E w) + length xs \<le> vec_cap (the_vec E w)")
  case True
  with assms(2) show ?thesis by (simp add: extend_by_def reserve_def needed_def Let_def)
next
  case False
  then have grow: "vec_cap (the_vec E w) < vec_len (the_vec E w) + length xs" by simp
  obtain p c w1 where a: "alloc_with E True (vec_len (the_vec E w) + length xs) w = ((p, c), w1)"
    by (metis prod.collapse)
  with assms(1) have "p \<noteq> None" by (auto simp: alloc_with_def Let_def split: prod.splits) (metis fst_conv)
  with reserve_quiet(1) [OF quiet assms(2) grow a, of fuel] assms(2) show ?thesis
    by (auto simp: extend_by_def Let_def)
qed

lemma clear_bytes:
  assumes "held_bytes w \<le> bytes w"
  shows "bytes (clear_with E (\<lambda>_ w. w) w) = bytes w - held_bytes w \<and> failed (clear_with E (\<lambda>_ w. w) w) = failed w"
proof -
  have "clear_loop is E (\<lambda>_ w. w) w = w" for "is" by (induction "is") simp_all
  then show ?thesis
    using assms dealloc_bytes [of "held_bytes w" w]
    by (simp add: clear_with_def Let_def set_bytes maybe_dealloc_def held_bytes_def)
qed

end

fun push_all :: "nat \<Rightarrow> ('a, 'w) vec_env \<Rightarrow> 'a list \<Rightarrow> 'w \<Rightarrow> (bool \<times> 'w) option" where
  "push_all fuel E [] w = Some (True, w)"
| "push_all fuel E (x # xs) w =
     (case vec_push fuel E x w of
        Some (True, w') \<Rightarrow> push_all fuel E xs w'
      | r \<Rightarrow> r)"

context counting_allocator
begin

lemma push_all_bytes:
  assumes "\<And>n w. fst (self_alloc E n w) \<noteq> None"
  shows "held_bytes w \<le> bytes w \<Longrightarrow> vec_len (the_vec E w) + length xs \<le> 2 ^ 31 \<Longrightarrow>
    \<exists>w'. push_all (Suc fuel) E xs w = Some (True, w') \<and> held_bytes w' \<le> bytes w' \<and>
      bytes w' - held_bytes w' = bytes w - held_bytes w \<and> failed w' = failed w \<and>
      vec_elems (the_vec E w') = vec_elems (the_vec E w) @ xs"
proof (induction xs arbitrary: w)
  case (Cons x xs)
  have len: "vec_len (the_vec E w) + length [x] \<le> 2 ^ 31" using Cons.prems(2) by simp
  obtain w1 where w1: "extend_by (Suc fuel) E True [x] w = Some (True, w1)"
    using extend_total [OF assms len] by blast
  note b = extend_bytes [OF Cons.prems(1) len w1]
  then have "vec_len (the_vec E w1) + length xs \<le> 2 ^ 31" using Cons.prems(2) by (simp add: vec_len_def)
  from Cons.IH [OF _ this] b w1 show ?case by (auto simp: vec_push_def)
qed simp

end

interpretation fake: counting_allocator "fake_env heap 8" allocated_memory assertion_failed 3
  for heap :: "usize \<Rightarrow> nat \<Rightarrow> addr"
proof unfold_locales
  show "quiet (fake_env heap 8)" by (rule fake_quiet) simp
qed (auto simp: fake_env_def fake_alloc_def fake_dealloc_def Let_def split: if_splits)

text \<open>C28: With the counting allocator of the tests over a heap that never fails, up to \<open>2 ^ 31\<close> pushes
  of pointers succeed, the vector holds them in order, the bytes counted are exactly those of its
  capacity, and clearing the vector gives back every byte and trips no
  assertion of the allocator.
\<close>

theorem vec_push_clear_balanced:
  assumes "\<And>n k. heap n k \<noteq> 0" and "length xs \<le> 2 ^ 31"
  shows "\<exists>w. push_all 1 (fake_env heap 8) xs fake_new = Some (True, w) \<and> vec_elems (fake_vec w) = xs \<and>
    allocated_memory w = vec_cap (fake_vec w) * 8 \<and>
    allocated_memory (clear_with (fake_env heap 8) (\<lambda>_ w. w) w) = 0 \<and>
    \<not> assertion_failed (clear_with (fake_env heap 8) (\<lambda>_ w. w) w)"
proof -
  let ?E = "fake_env heap 8"
  have "fst (self_alloc ?E n w) \<noteq> None" for n and w :: "'a fake_world"
    using assms(1) by (simp add: fake_env_def fake_alloc_def Let_def)
  moreover have "fake.held_bytes heap (fake_new :: 'a fake_world) = 0" "allocated_memory (fake_new :: 'a fake_world) = 0"
    "\<not> assertion_failed (fake_new :: 'a fake_world)"
    and new: "vec_elems (the_vec ?E (fake_new :: 'a fake_world)) = []"
    unfolding fake.held_bytes_def by (simp_all add: fake_env_def fake_new_def new_vec_def)
  ultimately obtain w where w: "push_all (Suc 0) ?E xs fake_new = Some (True, w)"
    "fake.held_bytes heap w \<le> allocated_memory w" "allocated_memory w - fake.held_bytes heap w = 0"
    "vec_elems (the_vec ?E w) = xs" "\<not> assertion_failed w"
    using fake.push_all_bytes [of heap fake_new xs 0] assms(2) new by (auto simp: vec_len_def)
  have "fake.held_bytes heap w = vec_cap (fake_vec w) * 8"
    unfolding fake.held_bytes_def by (simp add: fake_env_def)
  with w fake.clear_bytes [OF w(2)] show ?thesis by (simp add: fake_env_def)
qed

theorem vec_push_clear_balanced_witness:
  "\<exists>w. push_all 1 (fake_env (\<lambda>_ k. 4096 * (k + 1)) 8) [1, 2, 3] fake_new = Some (True, w) \<and>
    vec_elems (fake_vec w) = [1, 2, 3 :: nat]"
  using vec_push_clear_balanced [of "\<lambda>_ k. 4096 * (k + 1)" "[1, 2, 3 :: nat]"] by auto

section \<open>A vector as a stack\<close>

text \<open>The tables of free objects are used with \<open>try_push\<close> and \<open>pop\<close> only, at a fixed capacity.\<close>

definition vec_holds :: "nat \<Rightarrow> 'a self_vec \<Rightarrow> 'a list \<Rightarrow> bool" where
  "vec_holds cap v xs \<longleftrightarrow> rev (vec_elems v) = xs \<and> vec_cap v = cap"

definition push_if_room :: "'a \<Rightarrow> 'a self_vec \<Rightarrow> 'a self_vec" where
  "push_if_room x v = (case try_push x v of Inl _ \<Rightarrow> v | Inr v' \<Rightarrow> v')"

interpretation vec_stack: lifo "vec_holds cap" "\<lambda>_ xs. length xs < cap" push_if_room vec_pop
  for cap :: nat
proof unfold_locales
  fix v :: "'a self_vec" and xs x assume "vec_holds cap v xs" "length xs < cap"
  then show "vec_holds cap (push_if_room x v) (x # xs)"
    by (auto simp: vec_holds_def push_if_room_def try_push_def vacant_def vec_len_def)
next
  fix v :: "'a self_vec" assume "vec_holds cap v []"
  then show "fst (vec_pop v) = None \<and> vec_holds cap (snd (vec_pop v)) []"
    by (simp add: vec_holds_def vec_pop_def vec_len_def)
next
  fix v :: "'a self_vec" and x xs assume "vec_holds cap v (x # xs)"
  then have "vec_elems v = rev xs @ [x]" "vec_cap v = cap" by (auto simp: vec_holds_def)
  then show "fst (vec_pop v) = Some x \<and> vec_holds cap (snd (vec_pop v)) xs"
    by (simp add: vec_holds_def vec_pop_def vec_len_def)
qed simp

text \<open>A run that records every answer: of \<open>try_push\<close> the element that was refused, if any, and of
  \<open>pop\<close> the element taken, if any. Beside it what a stack of at most \<open>cap\<close> elements answers.\<close>

fun vec_run :: "'a stack_op list \<Rightarrow> 'a self_vec \<Rightarrow> 'a option list \<times> 'a self_vec" where
  "vec_run [] v = ([], v)"
| "vec_run (Put x # ops) v =
     (case try_push x v of
        Inl y \<Rightarrow> (case vec_run ops v of (rs, v') \<Rightarrow> (Some y # rs, v'))
      | Inr v1 \<Rightarrow> (case vec_run ops v1 of (rs, v') \<Rightarrow> (None # rs, v')))"
| "vec_run (Get # ops) v =
     (case vec_pop v of (r, v1) \<Rightarrow> case vec_run ops v1 of (rs, v') \<Rightarrow> (r # rs, v'))"

fun stack_run :: "nat \<Rightarrow> 'a stack_op list \<Rightarrow> 'a list \<Rightarrow> 'a option list \<times> 'a list" where
  "stack_run cap [] xs = ([], xs)"
| "stack_run cap (Put x # ops) xs =
     (if length xs < cap then (case stack_run cap ops (x # xs) of (rs, ys) \<Rightarrow> (None # rs, ys))
      else (case stack_run cap ops xs of (rs, ys) \<Rightarrow> (Some x # rs, ys)))"
| "stack_run cap (Get # ops) xs =
     (case list_get xs of (r, xs') \<Rightarrow> case stack_run cap ops xs' of (rs, ys) \<Rightarrow> (r # rs, ys))"

lemma try_push_full: "vec_holds cap v xs \<Longrightarrow> \<not> length xs < cap \<Longrightarrow> try_push x v = Inl x"
  by (auto simp: vec_holds_def try_push_def vacant_def vec_len_def)

lemma try_push_room:
  assumes "vec_holds cap v xs" and "length xs < cap"
  obtains v1 where "try_push x v = Inr v1" and "vec_holds cap v1 (x # xs)"
proof -
  have "\<not> vacant v = 0" using assms by (auto simp: vec_holds_def vacant_def vec_len_def)
  then obtain v1 where v1: "try_push x v = Inr v1" by (simp add: try_push_def)
  then have "push_if_room x v = v1" by (simp add: push_if_room_def)
  with vec_stack.put_rep [OF assms, of x] v1 that show thesis by simp
qed

lemma vec_run_stack:
  "vec_holds cap v xs \<Longrightarrow>
     \<exists>v'. vec_run ops v = (fst (stack_run cap ops xs), v') \<and> vec_holds cap v' (snd (stack_run cap ops xs))"
proof (induction ops arbitrary: v xs)
  case (Cons oper ops)
  show ?case
  proof (cases oper)
    case (Put x)
    show ?thesis
    proof (cases "length xs < cap")
      case True
      then obtain v1 where v1: "try_push x v = Inr v1" "vec_holds cap v1 (x # xs)"
        by (rule try_push_room [OF Cons.prems])
      from Cons.IH [OF v1(2)] show ?thesis by (auto simp: Put True v1(1) split_beta)
    next
      case False
      from Cons.IH [OF Cons.prems] show ?thesis
        by (auto simp: Put False try_push_full [OF Cons.prems False] split_beta)
    qed
  next
    case Get
    have t: "fst (vec_pop v) = fst (list_get xs)" "vec_holds cap (snd (vec_pop v)) (snd (list_get xs))"
      using Cons.prems vec_stack.take_empty [of cap v] vec_stack.take_top [of cap v] by (cases xs; simp)+
    from Cons.IH [OF t(2)] show ?thesis by (auto simp: Get t(1) split_beta)
  qed
qed simp

lemma stack_run_conserves:
  "mset xs + mset (puts ops) = mset (handed (fst (stack_run cap ops xs))) + mset (snd (stack_run cap ops xs))"
proof (induction cap ops xs rule: stack_run.induct)
  case (2 cap x ops xs)
  then show ?case by (auto simp: split_beta)
next
  case (3 cap ops xs)
  then show ?case by (cases xs) (auto simp: split_beta)
qed simp

text \<open>C21: a vector used with \<open>try_push\<close> and \<open>pop\<close> only, as the tables of free objects are, is a stack
  of its capacity: in any run of the two, each answer is that of a stack. A push is accepted
  exactly when the stack is not full and gives its element back otherwise; a pop takes the
  element last accepted and not yet taken, and nothing exactly when the stack is empty; the
  vector ends up holding what the stack holds, at the same capacity. So no pointer
  is lost, made up or, when none is put twice, handed out twice.\<close>

theorem vec_is_stack:
  assumes "vec_holds cap v xs" and "vec_run ops v = (rs, v')"
  shows "\<exists>ys. stack_run cap ops xs = (rs, ys) \<and> vec_holds cap v' ys
    \<and> mset xs + mset (puts ops) = mset (handed rs) + mset ys
    \<and> (distinct (xs @ puts ops) \<longrightarrow> distinct (handed rs @ ys))"
proof -
  obtain ys where st: "stack_run cap ops xs = (rs, ys)" "vec_holds cap v' ys"
    using vec_run_stack [OF assms(1), of ops] assms(2) by (metis Pair_inject prod.collapse)
  then have "mset (xs @ puts ops) = mset (handed rs @ ys)"
    using stack_run_conserves [of xs ops cap] by simp
  then show ?thesis using st mset_eq_imp_distinct_iff by fastforce
qed

theorem vec_is_stack_witness:
  "\<exists>v'. vec_run [Put 8, Put 16, Get, Get, Get] \<lparr>vec_ptr = 4096, vec_elems = [24 :: addr], vec_cap = 2\<rparr>
      = ([None, Some 16, Some 8, Some 24, None], v') \<and> vec_elems v' = []"
proof -
  have h: "vec_holds 2 \<lparr>vec_ptr = 4096, vec_elems = [24 :: addr], vec_cap = 2\<rparr> [24]" by (simp add: vec_holds_def)
  obtain rs v' where r: "vec_run [Put 8, Put 16, Get, Get, Get]
      \<lparr>vec_ptr = 4096, vec_elems = [24 :: addr], vec_cap = 2\<rparr> = (rs, v')" by (metis prod.collapse)
  from vec_is_stack [OF h r] r show ?thesis by (auto simp: vec_holds_def)
qed

text \<open>\<open>swap_remove\<close> takes the element out; what is left is the same up to order.\<close>

lemma swap_remove_mset:
  assumes "swap_remove i v = Some (x, v')"
  shows "x = vec_elems v ! i \<and> mset (vec_elems v) = add_mset x (mset (vec_elems v')) \<and> vec_cap v' = vec_cap v"
proof -
  let ?xs = "vec_elems v" and ?n = "length (vec_elems v) - 1"
  from assms have i: "i < length ?xs" and x: "x = ?xs ! i"
    and v': "v' = v\<lparr>vec_elems := take ?n (?xs[i := ?xs ! ?n])\<rparr>"
    by (auto simp: swap_remove_def vec_len_def Let_def split: if_splits)
  let ?ys = "?xs[i := ?xs ! ?n]"
  have "?xs \<noteq> []" using i by auto
  then have "?ys ! ?n = ?xs ! ?n" "?ys \<noteq> []" by (cases "i = ?n"; simp)+
  then have "last ?ys = ?xs ! ?n" "butlast ?ys = take ?n ?ys" by (simp_all add: last_conv_nth butlast_conv_take)
  with \<open>?ys \<noteq> []\<close> have "mset ?ys = add_mset (?xs ! ?n) (mset (take ?n ?ys))"
    by (metis append_butlast_last_id mset.simps(1,2) mset_append union_mset_add_mset_right add.right_neutral)
  moreover have "mset ?ys = add_mset (?xs ! ?n) (mset ?xs - {#x#})" using i x by (simp add: mset_update)
  ultimately have "mset (vec_elems v') = mset ?xs - {#x#}" by (simp add: v')
  with i x v' show ?thesis by simp
qed

end
