(* ===== verification/SelfAllocState.thy ===== *)
theory SelfAllocState
  imports Region
begin

text \<open>
  \<open>thread_local_self_alloc_impl.rs\<close>, the type \<open>State\<close>: memory for the allocator's own structures,
  taken straight from regions while the allocator's vectors cannot be used.

  The linked list of states is a list: \<open>next_state\<close> is the next element, \<open>first_state\<close> the head,
  and an operation on \<open>self\<close> takes the position of \<open>self\<close> in the list. \<open>state_at\<close> is the
  address a state was written to (0 for the first one, which its creator owns). \<open>ArrayBuffer\<close> is a
  stack that pops from its end.

  Two things are arguments: \<open>areg\<close>, the source of regions (\<open>alloc_region\<close> or
  \<open>alloc_region_without_counting_limit\<close>, by the flag \<open>WITH_COUNTING_LIMIT\<close>; 0 is null), over a
  state of any type \<open>'w\<close>, and \<open>sos\<close>, the value of \<open>size_of::<State>()\<close>, which depends on the
  layout of \<open>ArrayBuffer\<close>, a type of another crate.

  The mutually recursive operations run on fuel; \<open>None\<close> is "no result": the fuel is spent, or
  the branch is \<open>unreachable_hint\<close> (an extra large size). \<open>alloc_size_total\<close> shows how much is
  enough.
\<close>

record UsedChunk =
  uc_size :: usize
  uc_ptr :: addr
  number_of_free_slots :: nat

record State =
  region_ptr :: addr
  free_common_chunks :: "addr list"
  free_large_chunks :: "addr list"
  used_common_chunks :: "UsedChunk list"
  used_large_chunks :: "UsedChunk list"
  is_allocating_non_local_ptr_manager_now :: bool
  state_at :: addr

definition from_region :: "addr \<Rightarrow> State" where
  "from_region region =
     (let parsed_region = parse_region region
      in \<lparr>region_ptr = region,
          free_common_chunks = common_chunks parsed_region,
          free_large_chunks = large_chunks parsed_region,
          used_common_chunks = [], used_large_chunks = [],
          is_allocating_non_local_ptr_manager_now = False, state_at = 0\<rparr>)"

definition is_processed :: "State list \<Rightarrow> bool" where
  "is_processed c \<longleftrightarrow> (case c of s # rest \<Rightarrow> rest = [] \<and> used_large_chunks s = [] \<and> used_common_chunks s = []
     \<and> free_common_chunks s = [] \<and> free_large_chunks s = [] | [] \<Rightarrow> True)"

text \<open>The inner loop of \<open>try_alloc_size\<close> over the used chunks of one state.\<close>

fun take_slot :: "usize \<Rightarrow> UsedChunk list \<Rightarrow> (addr \<times> UsedChunk list) option" where
  "take_slot sz [] = None"
| "take_slot sz (u # us) =
     (if uc_size u \<noteq> sz \<or> number_of_free_slots u = 0
      then (case take_slot sz us of None \<Rightarrow> None | Some (p, us') \<Rightarrow> Some (p, u # us'))
      else let n = number_of_free_slots u - 1
           in Some (uc_ptr u + sz * n, u\<lparr>number_of_free_slots := n\<rparr> # us))"

text \<open>\<open>try_alloc_size\<close> on a state and those that follow it. (An extra large size, which the code
  declares unreachable, finds nothing here and has no result in \<open>alloc_size\<close>.)\<close>

fun try_alloc_size :: "SizeClass \<Rightarrow> usize \<Rightarrow> State list \<Rightarrow> (addr \<times> State list) option" where
  "try_alloc_size cl sz [] = None"
| "try_alloc_size cl sz (s # rest) =
     (case (case cl of
              Common \<Rightarrow> map_option (\<lambda>(p, us). (p, s\<lparr>used_common_chunks := us\<rparr>)) (take_slot sz (used_common_chunks s))
            | Large \<Rightarrow> map_option (\<lambda>(p, us). (p, s\<lparr>used_large_chunks := us\<rparr>)) (take_slot sz (used_large_chunks s))
            | ExtraLarge \<Rightarrow> None) of
        Some (p, s') \<Rightarrow> Some (p, s' # rest)
      | None \<Rightarrow> map_option (\<lambda>(p, rest'). (p, s # rest')) (try_alloc_size cl sz rest))"

type_synonym ('r, 'w) outcome = "('r option \<times> State list \<times> 'w) option"

definition used_chunk :: "usize \<Rightarrow> addr \<Rightarrow> usize \<Rightarrow> UsedChunk" where
  "used_chunk sz p chunk_size = \<lparr>uc_size = sz, uc_ptr = p, number_of_free_slots = chunk_size div sz - 1\<rparr>"

text \<open>The recursion goes through the two functions that hand out a free chunk. Each of the five
  operations is given the two, \<open>getL\<close> for \<open>get_free_large_chunk_\<close> and \<open>getC\<close> for
  \<open>get_free_common_chunk\<close>, to call; \<open>free_chunk_ops\<close> below ties the knot.\<close>

type_synonym 'w get_chunk = "nat \<Rightarrow> State list \<Rightarrow> 'w \<Rightarrow> (nat \<times> addr, 'w) outcome"

definition alloc_size_slow ::
  "'w get_chunk \<Rightarrow> 'w get_chunk \<Rightarrow> SizeClass \<Rightarrow> usize \<Rightarrow> nat \<Rightarrow> State list \<Rightarrow> 'w \<Rightarrow> (addr, 'w) outcome" where
  "alloc_size_slow getL getC cl sz i c w =
     (case cl of
        Common \<Rightarrow>
          (case getC i c w of
             None \<Rightarrow> None
           | Some (None, c1, w1) \<Rightarrow> Some (None, c1, w1)
           | Some (Some (j, p), c1, w1) \<Rightarrow>
               let u = used_chunk sz p COMMON_CHUNK_SIZE
               in Some (Some (p + sz * number_of_free_slots u),
                    c1[j := (c1 ! j)\<lparr>used_common_chunks := used_common_chunks (c1 ! j) @ [u]\<rparr>], w1))
      | Large \<Rightarrow>
          (case getL i c w of
             None \<Rightarrow> None
           | Some (None, c1, w1) \<Rightarrow> Some (None, c1, w1)
           | Some (Some (j, p), c1, w1) \<Rightarrow>
               let u = used_chunk sz p LARGE_CHUNK_SIZE
               in Some (Some (p + sz * number_of_free_slots u),
                    c1[j := (c1 ! j)\<lparr>used_large_chunks := used_large_chunks (c1 ! j) @ [u]\<rparr>], w1))
      | ExtraLarge \<Rightarrow> None)"

definition alloc_size ::
  "'w get_chunk \<Rightarrow> 'w get_chunk \<Rightarrow> SizeClass \<Rightarrow> usize \<Rightarrow> nat \<Rightarrow> State list \<Rightarrow> 'w \<Rightarrow> (addr, 'w) outcome" where
  "alloc_size getL getC cl sz i c w =
     (case try_alloc_size cl sz (drop i c) of
        Some (p, rest) \<Rightarrow> Some (Some p, take i c @ rest, w)
      | None \<Rightarrow> alloc_size_slow getL getC cl sz i c w)"

text \<open>The new state is returned; its caller links it behind the last one. When the chain has no slot
  for it, it is allocated in its own region: \<open>alloc_size\<close> on a chain of its own.\<close>

definition alloc_new_state_in ::
  "('w \<Rightarrow> addr \<times> 'w) \<Rightarrow> usize \<Rightarrow> 'w get_chunk \<Rightarrow> 'w get_chunk \<Rightarrow> State list \<Rightarrow> 'w \<Rightarrow> (State, 'w) outcome" where
  "alloc_new_state_in areg sos getL getC c w =
     (case areg w of (r, w1) \<Rightarrow>
        if r = 0 then Some (None, c, w1)
        else let state = from_region r in
          case try_alloc_size (size_class_define sos) sos c of
            Some (p, c1) \<Rightarrow> Some (Some (state\<lparr>state_at := p\<rparr>), c1, w1)
          | None \<Rightarrow>
              (case alloc_size getL getC (size_class_define sos) sos 0 [state] w1 of
                 None \<Rightarrow> None
               | Some (None, _, w2) \<Rightarrow> Some (None, c, w2)
               | Some (Some p, c2, w2) \<Rightarrow> Some (Some ((hd c2)\<lparr>state_at := p\<rparr>), c, w2)))"

definition get_free_large_chunk_step ::
  "('w \<Rightarrow> addr \<times> 'w) \<Rightarrow> usize \<Rightarrow> 'w get_chunk \<Rightarrow> 'w get_chunk \<Rightarrow> 'w get_chunk" where
  "get_free_large_chunk_step areg sos getL getC i c w =
     (let s = c ! i in
      if free_large_chunks s \<noteq> []
      then Some (Some (i, last (free_large_chunks s)),
             c[i := s\<lparr>free_large_chunks := butlast (free_large_chunks s)\<rparr>], w)
      else if Suc i < length c then getL (Suc i) c w
      else case alloc_new_state_in areg sos getL getC c w of
          None \<Rightarrow> None
        | Some (None, c1, w1) \<Rightarrow> Some (None, c1, w1)
        | Some (Some st, c1, w1) \<Rightarrow> getL (Suc i) (c1 @ [st]) w1)"

definition get_free_common_chunk_step ::
  "('w \<Rightarrow> addr \<times> 'w) \<Rightarrow> usize \<Rightarrow> 'w get_chunk \<Rightarrow> 'w get_chunk \<Rightarrow> 'w get_chunk" where
  "get_free_common_chunk_step areg sos getL getC i c w =
     (let s = c ! i in
      if free_common_chunks s \<noteq> []
      then Some (Some (i, last (free_common_chunks s)),
             c[i := s\<lparr>free_common_chunks := butlast (free_common_chunks s)\<rparr>], w)
      else if Suc i < length c then getC (Suc i) c w
      else case getL i c w of
          None \<Rightarrow> None
        | Some (None, c1, w1) \<Rightarrow> Some (None, c1, w1)
        | Some (Some (j, large_chunk), c1, w1) \<Rightarrow>
            let owner = c1 ! j in
            if free_common_chunks owner = []
            then let chunks = split_large_chunk_to_common large_chunk
                 in Some (Some (j, last chunks), c1[j := owner\<lparr>free_common_chunks := butlast chunks\<rparr>], w1)
            else getC j c1 w1)"

primrec free_chunk_ops ::
  "('w \<Rightarrow> addr \<times> 'w) \<Rightarrow> usize \<Rightarrow> nat \<Rightarrow> 'w get_chunk \<times> 'w get_chunk" where
  "free_chunk_ops areg sos 0 = (\<lambda>i c w. None, \<lambda>i c w. None)"
| "free_chunk_ops areg sos (Suc n) =
     (case free_chunk_ops areg sos n of (getL, getC) \<Rightarrow>
        (get_free_large_chunk_step areg sos getL getC, get_free_common_chunk_step areg sos getL getC))"

abbreviation get_free_large_chunk_owned where
  "get_free_large_chunk_owned areg sos n \<equiv> fst (free_chunk_ops areg sos n)"

abbreviation get_free_common_chunk where
  "get_free_common_chunk areg sos n \<equiv> snd (free_chunk_ops areg sos n)"

definition get_free_large_chunk ::
  "('w \<Rightarrow> addr \<times> 'w) \<Rightarrow> usize \<Rightarrow> nat \<Rightarrow> nat \<Rightarrow> State list \<Rightarrow> 'w \<Rightarrow> (addr, 'w) outcome" where
  "get_free_large_chunk areg sos n i c w =
     map_option (\<lambda>(r, c1, w1). (map_option snd r, c1, w1)) (get_free_large_chunk_owned areg sos n i c w)"

text \<open>\<open>State::alloc_size(state, size_class, size)\<close>, closed.\<close>

definition state_alloc_size ::
  "('w \<Rightarrow> addr \<times> 'w) \<Rightarrow> usize \<Rightarrow> nat \<Rightarrow> SizeClass \<Rightarrow> usize \<Rightarrow> nat \<Rightarrow> State list \<Rightarrow> 'w \<Rightarrow> (addr, 'w) outcome" where
  "state_alloc_size areg sos n =
     alloc_size (get_free_large_chunk_owned areg sos n) (get_free_common_chunk areg sos n)"

section \<open>Ownership of bytes\<close>

text \<open>How often a byte belongs to what a chain of states may still hand out (free chunks and free
  slots of used chunks) or keeps for itself (the states written into its chunks). Every operation
  moves bytes, so the counts add up, with no need to know which blocks are disjoint.\<close>

definition occ :: "addr \<Rightarrow> nat \<Rightarrow> addr \<Rightarrow> nat" where
  "occ p n a = (if p \<le> a \<and> a < p + n then 1 else 0)"

definition chunks_count :: "addr list \<Rightarrow> nat \<Rightarrow> addr \<Rightarrow> nat" where
  "chunks_count ps n a = sum_list (map (\<lambda>p. occ p n a) ps)"

definition slots_count :: "UsedChunk list \<Rightarrow> addr \<Rightarrow> nat" where
  "slots_count us a = sum_list (map (\<lambda>u. occ (uc_ptr u) (uc_size u * number_of_free_slots u) a) us)"

definition location_count :: "usize \<Rightarrow> addr \<Rightarrow> addr \<Rightarrow> nat" where
  "location_count sos p a = (if p = 0 then 0 else occ p sos a)"

definition state_count :: "usize \<Rightarrow> State \<Rightarrow> addr \<Rightarrow> nat" where
  "state_count sos s a =
     chunks_count (free_common_chunks s) COMMON_CHUNK_SIZE a
     + chunks_count (free_large_chunks s) LARGE_CHUNK_SIZE a
     + slots_count (used_common_chunks s) a + slots_count (used_large_chunks s) a
     + location_count sos (state_at s) a"

definition chain_count :: "usize \<Rightarrow> State list \<Rightarrow> addr \<Rightarrow> nat" where
  "chain_count sos c a = sum_list (map (\<lambda>s. state_count sos s a) c)"

lemma occ_add: "occ p (n + m) a = occ p n a + occ (p + n) m a"
  by (auto simp: occ_def)

lemma occ_mono: "n \<le> m \<Longrightarrow> occ p n a \<le> occ p m a"
  by (auto simp: occ_def)

lemma occ_0 [simp]: "occ p 0 a = 0"
  by (simp add: occ_def)

lemma location_count_0 [simp]: "location_count sos 0 a = 0"
  by (simp add: location_count_def)

lemma location_count_le: "location_count sos p a \<le> occ p sos a"
  by (simp add: location_count_def)

lemma chunks_count_simps [simp]:
  "chunks_count [] n a = 0"
  "chunks_count (p # ps) n a = occ p n a + chunks_count ps n a"
  "chunks_count (ps @ qs) n a = chunks_count ps n a + chunks_count qs n a"
  by (simp_all add: chunks_count_def)

lemma slots_count_simps [simp]:
  "slots_count [] a = 0"
  "slots_count (u # us) a = occ (uc_ptr u) (uc_size u * number_of_free_slots u) a + slots_count us a"
  "slots_count (us @ vs) a = slots_count us a + slots_count vs a"
  by (simp_all add: slots_count_def)

lemma chain_count_simps [simp]:
  "chain_count sos [] a = 0"
  "chain_count sos (s # c) a = state_count sos s a + chain_count sos c a"
  "chain_count sos (c @ d) a = chain_count sos c a + chain_count sos d a"
  by (simp_all add: chain_count_def)

lemma chunks_count_pop:
  "ps \<noteq> [] \<Longrightarrow> chunks_count (butlast ps) n a + occ (last ps) n a = chunks_count ps n a"
  by (metis append_butlast_last_id add.right_neutral chunks_count_simps)

lemma chain_count_update:
  "i < length c \<Longrightarrow> chain_count sos (c[i := s]) a + state_count sos (c ! i) a
     = chain_count sos c a + state_count sos s a"
proof (induction c arbitrary: i)
  case (Cons t c)
  then show ?case by (cases i) auto
qed simp

lemma chunks_count_laid: "chunks_count (from_fn_chunks n step p) step a = occ p (n * step) a"
  by (induction n arbitrary: p) (simp_all add: occ_add)

lemma split_count: "chunks_count (split_large_chunk_to_common p) COMMON_CHUNK_SIZE a = occ p LARGE_CHUNK_SIZE a"
  unfolding split_large_chunk_to_common_def chunks_count_laid by (simp add: layout_simps)

lemma split_length [simp]: "length (split_large_chunk_to_common p) = 8"
  by (simp add: split_large_chunk_to_common_def layout_simps)

lemma state_count_from_region: "state_count sos (from_region r) a \<le> occ r REGION_SIZE a"
proof -
  let ?m = "REST_COMMON_CHUNKS_IN_REGION * COMMON_CHUNK_SIZE"
  let ?l = "LARGE_CHUNKS_IN_REGION * LARGE_CHUNK_SIZE"
  have "state_count sos (from_region r) a
      = occ (r + COMMON_CHUNK_SIZE) ?m a + occ (r + COMMON_CHUNK_SIZE + ?m) ?l a"
    unfolding state_count_def from_region_def parse_region_def Let_def by (simp add: chunks_count_laid)
  also have "\<dots> = occ (r + COMMON_CHUNK_SIZE) (?m + ?l) a" by (simp add: occ_add)
  also have "\<dots> \<le> occ r (COMMON_CHUNK_SIZE + (?m + ?l)) a" unfolding occ_add by simp
  also have "COMMON_CHUNK_SIZE + (?m + ?l) = REGION_SIZE" by (simp add: layout_simps)
  finally show ?thesis .
qed

lemma take_slot_count:
  "take_slot sz us = Some (p, us') \<Longrightarrow> slots_count us' a + occ p sz a = slots_count us a"
proof (induction us arbitrary: us')
  case (Cons u us)
  show ?case
  proof (cases "uc_size u \<noteq> sz \<or> number_of_free_slots u = 0")
    case True
    with Cons show ?thesis by (auto split: option.splits)
  next
    case False
    then obtain n where n: "number_of_free_slots u = Suc n" by (cases "number_of_free_slots u") auto
    with False Cons.prems have "p = uc_ptr u + sz * n" "us' = u\<lparr>number_of_free_slots := n\<rparr> # us" by auto
    with False n show ?thesis
      using occ_add [of "uc_ptr u" "sz * n" sz a] by (simp add: algebra_simps)
  qed
qed simp

lemma try_alloc_size_count:
  "try_alloc_size cl sz c = Some (p, c') \<Longrightarrow>
   length c' = length c \<and> chain_count sos c' a + occ p sz a = chain_count sos c a"
proof (induction c arbitrary: c')
  case (Cons s c)
  show ?case
  proof (cases cl)
    case Common
    with Cons take_slot_count [of sz "used_common_chunks s" p _ a] show ?thesis
      by (cases "take_slot sz (used_common_chunks s)") (auto simp: state_count_def)
  next
    case Large
    with Cons take_slot_count [of sz "used_large_chunks s" p _ a] show ?thesis
      by (cases "take_slot sz (used_large_chunks s)") (auto simp: state_count_def)
  next
    case ExtraLarge
    with Cons show ?thesis by auto
  qed
qed simp

text \<open>A chunk \<open>p\<close> just taken is put back as a used chunk less its last slot.\<close>

lemma used_chunk_count:
  assumes "0 < sz" and "sz \<le> chunk_size" and "u = used_chunk sz p chunk_size"
  shows "occ (uc_ptr u) (uc_size u * number_of_free_slots u) a + occ (p + sz * number_of_free_slots u) sz a
    \<le> occ p chunk_size a"
proof -
  have "0 < chunk_size div sz" using assms(1,2) by (simp add: div_greater_zero_iff)
  then have "sz * (chunk_size div sz - 1) + sz = sz * (chunk_size div sz)"
    by (cases "chunk_size div sz") simp_all
  moreover have "sz * (chunk_size div sz) \<le> chunk_size" by simp
  ultimately show ?thesis
    using occ_add [of p "sz * (chunk_size div sz - 1)" sz a]
      occ_mono [of "sz * (chunk_size div sz)" chunk_size p a]
    by (simp add: assms(3) used_chunk_def)
qed

text \<open>The size of a state is a size the state can serve.\<close>

definition size_of_state_ok :: "usize \<Rightarrow> bool" where
  "size_of_state_ok sos \<longleftrightarrow> 0 < sos \<and> sos \<le> LARGE_SIZE_MAX"

lemma state_at_from_region [simp]: "state_at (from_region r) = 0"
  by (simp add: from_region_def Let_def)

lemma state_count_at:
  "state_at s = 0 \<Longrightarrow> state_count sos (s\<lparr>state_at := p\<rparr>) a \<le> state_count sos s a + occ p sos a"
  using location_count_le [of sos p a] by (simp add: state_count_def)

lemma hd_count: "c \<noteq> [] \<Longrightarrow> state_count sos (hd c) a \<le> chain_count sos c a"
  by (cases c) simp_all

lemma state_count_relocate: "state_count sos (s\<lparr>state_at := p\<rparr>) a \<le> state_count sos s a + occ p sos a"
  using location_count_le [of sos p a] by (simp add: state_count_def)

text \<open>A source with nothing left, for the witnesses.\<close>

definition no_more_regions :: "addr list \<Rightarrow> addr \<times> addr list" where
  "no_more_regions w = (0, w)"

lemma from_region_commons:
  "free_common_chunks (from_region r) = map (\<lambda>i. r + COMMON_CHUNK_SIZE + i * COMMON_CHUNK_SIZE) [0..<7]"
  by (simp add: from_region_def parse_region_def Let_def from_fn_chunks_eq_map)
    (simp add: layout_simps)

lemma from_region_larges_length: "length (free_large_chunks (from_region r)) = 63"
  by (simp add: from_region_def parse_region_def Let_def layout_simps)

lemma from_region_used [simp]:
  "used_common_chunks (from_region r) = []" "used_large_chunks (from_region r) = []"
  by (simp_all add: from_region_def Let_def)

section \<open>Enough fuel\<close>

lemma getL_Suc:
  "get_free_large_chunk_owned areg sos (Suc n) =
     get_free_large_chunk_step areg sos (get_free_large_chunk_owned areg sos n) (get_free_common_chunk areg sos n)"
  by (simp add: case_prod_unfold)

lemma getC_Suc:
  "get_free_common_chunk areg sos (Suc n) =
     get_free_common_chunk_step areg sos (get_free_large_chunk_owned areg sos n) (get_free_common_chunk areg sos n)"
  by (simp add: case_prod_unfold)

text \<open>An operation returns; when it returns nothing, the source of regions returned null.\<close>

definition answers :: "('w \<Rightarrow> addr \<times> 'w) \<Rightarrow> ('r, 'w) outcome \<Rightarrow> bool" where
  "answers areg out \<longleftrightarrow>
     (\<exists>r c' w'. out = Some (r, c', w') \<and> (r = None \<longrightarrow> (\<exists>w0. fst (areg w0) = 0)))"

lemma getL_pops:
  "free_large_chunks (c ! i) \<noteq> [] \<Longrightarrow>
   get_free_large_chunk_owned areg sos (Suc n) i c w =
     Some (Some (i, last (free_large_chunks (c ! i))),
       c[i := (c ! i)\<lparr>free_large_chunks := butlast (free_large_chunks (c ! i))\<rparr>], w)"
  by (simp add: case_prod_unfold get_free_large_chunk_step_def Let_def)

lemma getC_pops:
  "free_common_chunks (c ! i) \<noteq> [] \<Longrightarrow>
   get_free_common_chunk areg sos (Suc n) i c w =
     Some (Some (i, last (free_common_chunks (c ! i))),
       c[i := (c ! i)\<lparr>free_common_chunks := butlast (free_common_chunks (c ! i))\<rparr>], w)"
  by (simp add: case_prod_unfold get_free_common_chunk_step_def Let_def)

text \<open>A fresh region serves the first allocation from its own chunks.\<close>

lemma fresh_alloc:
  assumes "cl \<noteq> ExtraLarge"
  shows "\<exists>p st. state_alloc_size areg sos (Suc n) cl sz 0 [from_region r] w = Some (Some p, [st], w)
    \<and> 62 \<le> length (free_large_chunks st)
    \<and> length (free_large_chunks st) + length (used_large_chunks st) = 63
    \<and> 6 \<le> length (free_common_chunks st)"
proof -
  have ne: "free_large_chunks (from_region r) \<noteq> []" "free_common_chunks (from_region r) \<noteq> []"
    using from_region_larges_length [of r] by (auto simp: from_region_commons)
  with assms show ?thesis
    using getL_pops [of "[from_region r]" 0 areg sos n w] getC_pops [of "[from_region r]" 0 areg sos n w]
      from_region_larges_length [of r]
    by (cases cl) (simp_all add: state_alloc_size_def alloc_size_def alloc_size_slow_def Let_def
      from_region_commons)
qed

lemma new_state_answers:
  assumes "size_class_define sos \<noteq> ExtraLarge"
  shows "\<exists>r c' w'. alloc_new_state_in areg sos (get_free_large_chunk_owned areg sos (Suc n))
       (get_free_common_chunk areg sos (Suc n)) c w = Some (r, c', w')
    \<and> (case r of None \<Rightarrow> \<exists>w0. fst (areg w0) = 0
       | Some st \<Rightarrow> length c' = length c \<and> free_large_chunks st \<noteq> [] \<and> free_common_chunks st \<noteq> [])"
proof -
  obtain q w1 where q: "areg w = (q, w1)" by fastforce
  show ?thesis
  proof (cases "q = 0")
    case True
    with q show ?thesis by (auto simp: alloc_new_state_in_def intro!: exI [of _ w])
  next
    case nz: False
    have ne: "free_large_chunks (from_region q) \<noteq> []" "free_common_chunks (from_region q) \<noteq> []"
      using from_region_larges_length [of q] by (auto simp: from_region_commons)
    show ?thesis
    proof (cases "try_alloc_size (size_class_define sos) sos c")
      case (Some pc)
      with q nz ne try_alloc_size_count [of "size_class_define sos" sos c "fst pc" "snd pc"] show ?thesis
        by (simp add: alloc_new_state_in_def case_prod_unfold)
    next
      case None
      obtain p st where "state_alloc_size areg sos (Suc n) (size_class_define sos) sos 0 [from_region q] w1
          = Some (Some p, [st], w1)" "62 \<le> length (free_large_chunks st)" "6 \<le> length (free_common_chunks st)"
        using fresh_alloc [OF assms, of areg sos n sos q w1] by auto
      with q nz None show ?thesis
        by (auto simp: alloc_new_state_in_def state_alloc_size_def simp del: free_chunk_ops.simps)
    qed
  qed
qed

text \<open>The operations get as far as the end of the chain, and two steps further.\<close>

lemma getL_answers:
  assumes sos: "size_class_define sos \<noteq> ExtraLarge"
  shows "i < length c \<Longrightarrow> length c - i + 1 \<le> n \<Longrightarrow>
    answers areg (get_free_large_chunk_owned areg sos n i c w)"
proof (induction n arbitrary: i c w)
  case (Suc n)
  then obtain m where n: "n = Suc m" by (cases n) simp_all
  show ?case
  proof (cases "free_large_chunks (c ! i) = []")
    case False
    then show ?thesis by (simp add: getL_pops answers_def del: free_chunk_ops.simps)
  next
    case empty: True
    show ?thesis
    proof (cases "Suc i < length c")
      case True
      with Suc.IH [of "Suc i" c w] Suc.prems empty show ?thesis
        by (simp add: case_prod_unfold get_free_large_chunk_step_def)
    next
      case False
      obtain r c' w' where a: "alloc_new_state_in areg sos (get_free_large_chunk_owned areg sos n)
          (get_free_common_chunk areg sos n) c w = Some (r, c', w')"
        and r: "case r of None \<Rightarrow> \<exists>w0. fst (areg w0) = 0
          | Some st \<Rightarrow> length c' = length c \<and> free_large_chunks st \<noteq> [] \<and> free_common_chunks st \<noteq> []"
        using new_state_answers [OF sos, of areg m c w] unfolding n by blast
      show ?thesis
      proof (cases r)
        case None
        with a r empty False show ?thesis
          unfolding getL_Suc get_free_large_chunk_step_def by (simp add: answers_def)
      next
        case (Some st)
        with r False Suc.prems(1) have st: "(c' @ [st]) ! Suc i = st" "free_large_chunks st \<noteq> []"
          by (auto simp: nth_append)
        then have "free_large_chunks ((c' @ [st]) ! Suc i) \<noteq> []" by simp
        note pop = getL_pops [OF this, of areg sos m w', folded n]
        show ?thesis
          unfolding getL_Suc get_free_large_chunk_step_def
          using a Some empty False pop by (simp add: answers_def)
      qed
    qed
  qed
qed simp

text \<open>What the owner of a large chunk looks like when it was found through an empty end of the chain.\<close>

lemma getL_at_end:
  assumes sos: "size_class_define sos \<noteq> ExtraLarge"
    and i: "Suc i = length c" and "free_large_chunks (c ! i) = []"
    and run: "get_free_large_chunk_owned areg sos (Suc (Suc m)) i c w = Some (Some (j, p), c', w')"
  shows "j = Suc i \<and> j < length c' \<and> free_common_chunks (c' ! j) \<noteq> []"
proof -
  obtain r c1 w1 where a: "alloc_new_state_in areg sos (get_free_large_chunk_owned areg sos (Suc m))
      (get_free_common_chunk areg sos (Suc m)) c w = Some (r, c1, w1)"
    and r: "case r of None \<Rightarrow> \<exists>w0. fst (areg w0) = 0
      | Some st \<Rightarrow> length c1 = length c \<and> free_large_chunks st \<noteq> [] \<and> free_common_chunks st \<noteq> []"
    using new_state_answers [OF sos, of areg m c w] by blast
  show ?thesis
  proof (cases r)
    case None
    with run a assms(2,3) show ?thesis
      unfolding getL_Suc [of _ _ "Suc m"] get_free_large_chunk_step_def by simp
  next
    case (Some st)
    with r i have st: "(c1 @ [st]) ! Suc i = st" "free_large_chunks st \<noteq> []" "free_common_chunks st \<noteq> []"
      "length c1 = Suc i"
      by (auto simp: nth_append)
    then have "free_large_chunks ((c1 @ [st]) ! Suc i) \<noteq> []" by simp
    note pop = getL_pops [OF this, of areg sos m w1]
    from run a Some assms(2,3) pop st show ?thesis
      unfolding getL_Suc [of _ _ "Suc m"] get_free_large_chunk_step_def by auto
  qed
qed

lemma getC_answers:
  assumes sos: "size_class_define sos \<noteq> ExtraLarge"
  shows "i < length c \<Longrightarrow> length c - i + 2 \<le> n \<Longrightarrow>
    answers areg (get_free_common_chunk areg sos n i c w)"
proof (induction n arbitrary: i c w)
  case (Suc n)
  then have "n = Suc (Suc (n - 2))" by simp
  then obtain m where n: "n = Suc (Suc m)" by blast
  show ?case
  proof (cases "free_common_chunks (c ! i) = []")
    case False
    then show ?thesis by (simp add: getC_pops answers_def del: free_chunk_ops.simps)
  next
    case empty: True
    show ?thesis
    proof (cases "Suc i < length c")
      case True
      with Suc.IH [of "Suc i" c w] Suc.prems empty show ?thesis
        unfolding getC_Suc get_free_common_chunk_step_def by simp
    next
      case last: False
      have "answers areg (get_free_large_chunk_owned areg sos n i c w)"
        using Suc.prems by (intro getL_answers [OF sos]) simp_all
      then obtain r c1 w1 where a: "get_free_large_chunk_owned areg sos n i c w = Some (r, c1, w1)"
        and r: "r = None \<longrightarrow> (\<exists>w0. fst (areg w0) = 0)" by (auto simp: answers_def)
      show ?thesis
      proof (cases r)
        case None
        with a r empty last show ?thesis
          unfolding getC_Suc get_free_common_chunk_step_def by (simp add: answers_def)
      next
        case (Some jp)
        obtain j p where jp: "jp = (j, p)" by fastforce
        show ?thesis
        proof (cases "free_common_chunks (c1 ! j) = []")
          case True
          with a Some jp empty last show ?thesis
            unfolding getC_Suc get_free_common_chunk_step_def by (simp add: answers_def Let_def)
        next
          case False
          from getC_pops [OF this, of areg sos "Suc m" w1, folded n] a Some jp empty last False show ?thesis
            unfolding getC_Suc get_free_common_chunk_step_def by (simp add: answers_def Let_def)
        qed
      qed
    qed
  qed
qed simp

text \<open>C26: two more units of fuel than there are states in the chain are enough: \<open>alloc_size\<close> returns, and
  it fails only when the source of regions does.\<close>

theorem alloc_size_total:
  assumes "size_class_define sos \<noteq> ExtraLarge" and "cl \<noteq> ExtraLarge" and "i < length c"
    and "length c + 2 \<le> n" and "\<forall>w0. fst (areg w0) \<noteq> 0"
  shows "\<exists>p c' w'. state_alloc_size areg sos n cl sz i c w = Some (Some p, c', w')"
proof (cases "try_alloc_size cl sz (drop i c)")
  case (Some q)
  then show ?thesis by (simp add: state_alloc_size_def alloc_size_def case_prod_unfold)
next
  case None
  have "answers areg (get_free_large_chunk_owned areg sos n i c w)"
    using assms by (intro getL_answers) simp_all
  moreover have "answers areg (get_free_common_chunk areg sos n i c w)"
    using assms by (intro getC_answers) simp_all
  ultimately show ?thesis
    using None assms(2,5)
    by (cases cl) (auto simp: state_alloc_size_def alloc_size_def alloc_size_slow_def answers_def Let_def)
qed

theorem alloc_size_total_witness:
  "\<exists>p c' w'. state_alloc_size (\<lambda>w. (Suc w * REGION_SIZE, Suc w)) 14408 3 Common 64 0 [from_region REGION_SIZE] 1
     = Some (Some p, c', w')"
  by (rule alloc_size_total) (simp_all add: size_class_define_def layout_simps)

section \<open>Capacities\<close>

text \<open>The buffers of a state with \<open>k\<close> common and \<open>l\<close> large chunks in the hands of an operation.\<close>

definition caps :: "nat \<Rightarrow> nat \<Rightarrow> State \<Rightarrow> bool" where
  "caps k l s \<longleftrightarrow>
     length (free_common_chunks s) \<le> COMMON_CHUNKS_IN_LARGE_CHUNK
     \<and> length (free_large_chunks s) + length (used_large_chunks s) + l \<le> LARGE_CHUNKS_IN_REGION
     \<and> length (free_common_chunks s) + length (used_common_chunks s)
        + COMMON_CHUNKS_IN_LARGE_CHUNK * (length (free_large_chunks s) + length (used_large_chunks s))
        + k \<le> MAX_COMMON_CHUNKS_IN_REGION"

definition gets_caps :: "nat \<Rightarrow> nat \<Rightarrow> 'w get_chunk \<Rightarrow> bool" where
  "gets_caps k l g \<longleftrightarrow>
     (\<forall>i c w r c' w'. i < length c \<longrightarrow> list_all (caps 0 0) c \<longrightarrow> g i c w = Some (r, c', w') \<longrightarrow>
        length c \<le> length c' \<and> list_all (caps 0 0) c'
        \<and> (case r of None \<Rightarrow> True | Some (j, p) \<Rightarrow> j < length c' \<and> caps k l (c' ! j)))"

lemma gets_capsD:
  "gets_caps k l g \<Longrightarrow> i < length c \<Longrightarrow> list_all (caps 0 0) c \<Longrightarrow> g i c w = Some (r, c', w') \<Longrightarrow>
   length c \<le> length c' \<and> list_all (caps 0 0) c' \<and> (case r of None \<Rightarrow> True | Some (j, p) \<Rightarrow> j < length c' \<and> caps k l (c' ! j))"
  unfolding gets_caps_def by blast

lemma list_all_update: "list_all P c \<Longrightarrow> P s \<Longrightarrow> list_all P (c[i := s])"
  by (auto simp: list_all_iff dest!: set_update_subset_insert [THEN subsetD])

lemma caps_from_region: "caps 0 0 (from_region r)"
  using from_region_larges_length [of r] by (simp add: caps_def from_region_commons layout_simps)

lemma take_slot_length: "take_slot sz us = Some (p, us') \<Longrightarrow> length us' = length us"
  by (induction us arbitrary: us') (auto simp: Let_def split: if_splits option.splits)

lemma try_alloc_size_caps:
  "try_alloc_size cl sz c = Some (p, c') \<Longrightarrow> list_all (caps 0 0) c \<Longrightarrow>
   length c' = length c \<and> list_all (caps 0 0) c'"
proof (induction c arbitrary: c')
  case (Cons s c)
  then show ?case
    by (cases cl) (auto simp: caps_def dest!: take_slot_length split: option.splits)
qed simp

lemma alloc_size_caps:
  assumes L: "gets_caps 8 1 getL" and C: "gets_caps 1 0 getC" and i: "i < length c" and c: "list_all (caps 0 0) c"
    and run: "alloc_size getL getC cl sz i c w = Some (r, c', w')"
  shows "length c \<le> length c' \<and> list_all (caps 0 0) c'"
proof (cases "try_alloc_size cl sz (drop i c)")
  case (Some q)
  moreover have "list_all (caps 0 0) (take i c)" "list_all (caps 0 0) (drop i c)"
    using c by (metis append_take_drop_id list_all_append)+
  ultimately show ?thesis
    using run try_alloc_size_caps [of cl sz "drop i c" "fst q" "snd q"]
    by (auto simp: alloc_size_def case_prod_unfold)
next
  case None
  show ?thesis
  proof (cases cl)
    case Common
    with None run obtain r1 c1 w1 where g: "getC i c w = Some (r1, c1, w1)"
      by (auto simp: alloc_size_def alloc_size_slow_def split: option.splits)
    note k = gets_capsD [OF C i c g]
    show ?thesis
    proof (cases r1)
      case None
      with g k Common run \<open>try_alloc_size cl sz (drop i c) = None\<close> show ?thesis
        by (simp add: alloc_size_def alloc_size_slow_def)
    next
      case (Some jp)
      with g k Common run \<open>try_alloc_size cl sz (drop i c) = None\<close> show ?thesis
        by (auto simp: alloc_size_def alloc_size_slow_def Let_def case_prod_unfold caps_def intro!: list_all_update)
    qed
  next
    case Large
    with None run obtain r1 c1 w1 where g: "getL i c w = Some (r1, c1, w1)"
      by (auto simp: alloc_size_def alloc_size_slow_def split: option.splits)
    note k = gets_capsD [OF L i c g]
    show ?thesis
    proof (cases r1)
      case None
      with g k Large run \<open>try_alloc_size cl sz (drop i c) = None\<close> show ?thesis
        by (simp add: alloc_size_def alloc_size_slow_def)
    next
      case (Some jp)
      with g k Large run \<open>try_alloc_size cl sz (drop i c) = None\<close> show ?thesis
        by (auto simp: alloc_size_def alloc_size_slow_def Let_def case_prod_unfold caps_def layout_simps
          intro!: list_all_update)
    qed
  next
    case ExtraLarge
    with None run show ?thesis by (simp add: alloc_size_def alloc_size_slow_def)
  qed
qed

lemma alloc_new_state_caps:
  assumes L: "gets_caps 8 1 getL" and C: "gets_caps 1 0 getC" and c: "list_all (caps 0 0) c"
    and run: "alloc_new_state_in areg sos getL getC c w = Some (r, c', w')"
  shows "length c' = length c \<and> list_all (caps 0 0) c' \<and> (case r of None \<Rightarrow> True | Some st \<Rightarrow> caps 0 0 st)"
proof -
  have up: "caps 0 0 (s\<lparr>state_at := p\<rparr>) = caps 0 0 s" for s p by (simp add: caps_def)
  obtain q w1 where q: "areg w = (q, w1)" by fastforce
  show ?thesis
  proof (cases "try_alloc_size (size_class_define sos) sos c")
    case (Some pc)
    with q run c try_alloc_size_caps [of "size_class_define sos" sos c "fst pc" "snd pc"]
    show ?thesis
      by (auto simp: alloc_new_state_in_def case_prod_unfold up caps_from_region split: if_splits)
  next
    case None
    have "caps 0 0 (hd c2)"
      if "alloc_size getL getC (size_class_define sos) sos 0 [from_region q] w1 = Some (r1, c2, w2)" for r1 c2 w2
      using alloc_size_caps [OF L C _ _ that] by (cases c2) (simp_all add: caps_from_region)
    note fresh = this
    show ?thesis
    proof (cases "q = 0")
      case True
      with q run c show ?thesis by (simp add: alloc_new_state_in_def)
    next
      case False
      with q run None obtain r1 c2 w2 where
        a: "alloc_size getL getC (size_class_define sos) sos 0 [from_region q] w1 = Some (r1, c2, w2)"
        and r: "c' = c" "r = map_option (\<lambda>p. (hd c2)\<lparr>state_at := p\<rparr>) r1"
        by (auto simp: alloc_new_state_in_def split: option.splits)
      from fresh [OF a] have "caps 0 0 (hd c2)" .
      with c show ?thesis by (cases r1) (simp_all add: r up)
    qed
  qed
qed

lemma get_large_step_caps:
  assumes L: "gets_caps 8 1 getL" and C: "gets_caps 1 0 getC"
  shows "gets_caps 8 1 (get_free_large_chunk_step areg sos getL getC)"
  unfolding gets_caps_def
proof (intro allI impI)
  fix i c w r c' w'
  assume i: "i < length c" and c: "list_all (caps 0 0) c"
    and run: "get_free_large_chunk_step areg sos getL getC i c w = Some (r, c', w')"
  have s: "caps 0 0 (c ! i)" using i c by (simp add: list_all_length)
  consider (pop) "free_large_chunks (c ! i) \<noteq> []"
    | (step) "free_large_chunks (c ! i) = []" "Suc i < length c"
    | (new) "free_large_chunks (c ! i) = []" "\<not> Suc i < length c" by blast
  then show "length c \<le> length c' \<and> list_all (caps 0 0) c'
      \<and> (case r of None \<Rightarrow> True | Some (j, p) \<Rightarrow> j < length c' \<and> caps 8 1 (c' ! j))"
  proof cases
    case pop
    then obtain n where n: "length (free_large_chunks (c ! i)) = Suc n"
      by (cases "free_large_chunks (c ! i)") simp_all
    with s have "caps 8 1 ((c ! i)\<lparr>free_large_chunks := butlast (free_large_chunks (c ! i))\<rparr>)"
      "caps 0 0 ((c ! i)\<lparr>free_large_chunks := butlast (free_large_chunks (c ! i))\<rparr>)"
      by (simp_all add: caps_def layout_simps)
    with pop i c run show ?thesis
      by (auto simp: get_free_large_chunk_step_def Let_def intro!: list_all_update)
  next
    case step
    with run have "getL (Suc i) c w = Some (r, c', w')" by (simp add: get_free_large_chunk_step_def)
    with gets_capsD [OF L step(2) c] show ?thesis by simp
  next
    case new
    with run obtain r1 c1 w1 where a: "alloc_new_state_in areg sos getL getC c w = Some (r1, c1, w1)"
      by (auto simp: get_free_large_chunk_step_def Let_def split: option.splits)
    note k = alloc_new_state_caps [OF L C c a]
    show ?thesis
    proof (cases r1)
      case None
      with run new a k show ?thesis by (simp add: get_free_large_chunk_step_def)
    next
      case (Some st)
      with run new a have g: "getL (Suc i) (c1 @ [st]) w1 = Some (r, c', w')"
        by (simp add: get_free_large_chunk_step_def)
      from k Some i have "Suc i < length (c1 @ [st])" "list_all (caps 0 0) (c1 @ [st])" by simp_all
      from gets_capsD [OF L this g] k show ?thesis by simp
    qed
  qed
qed

lemma get_common_step_caps:
  assumes L: "gets_caps 8 1 getL" and C: "gets_caps 1 0 getC"
  shows "gets_caps 1 0 (get_free_common_chunk_step areg sos getL getC)"
  unfolding gets_caps_def
proof (intro allI impI)
  fix i c w r c' w'
  assume i: "i < length c" and c: "list_all (caps 0 0) c"
    and run: "get_free_common_chunk_step areg sos getL getC i c w = Some (r, c', w')"
  have s: "caps 0 0 (c ! i)" using i c by (simp add: list_all_length)
  consider (pop) "free_common_chunks (c ! i) \<noteq> []"
    | (step) "free_common_chunks (c ! i) = []" "Suc i < length c"
    | (split) "free_common_chunks (c ! i) = []" "\<not> Suc i < length c" by blast
  then show "length c \<le> length c' \<and> list_all (caps 0 0) c'
      \<and> (case r of None \<Rightarrow> True | Some (j, p) \<Rightarrow> j < length c' \<and> caps 1 0 (c' ! j))"
  proof cases
    case pop
    then obtain n where n: "length (free_common_chunks (c ! i)) = Suc n"
      by (cases "free_common_chunks (c ! i)") simp_all
    with s have "caps 1 0 ((c ! i)\<lparr>free_common_chunks := butlast (free_common_chunks (c ! i))\<rparr>)"
      "caps 0 0 ((c ! i)\<lparr>free_common_chunks := butlast (free_common_chunks (c ! i))\<rparr>)"
      by (simp_all add: caps_def)
    with pop i c run show ?thesis
      by (auto simp: get_free_common_chunk_step_def Let_def intro!: list_all_update)
  next
    case step
    with run have "getC (Suc i) c w = Some (r, c', w')" by (simp add: get_free_common_chunk_step_def)
    with gets_capsD [OF C step(2) c] show ?thesis by simp
  next
    case split
    with run obtain r1 c1 w1 where a: "getL i c w = Some (r1, c1, w1)"
      by (auto simp: get_free_common_chunk_step_def Let_def split: option.splits)
    note k = gets_capsD [OF L i c a]
    show ?thesis
    proof (cases r1)
      case None
      with run split a k show ?thesis by (simp add: get_free_common_chunk_step_def)
    next
      case (Some jp)
      obtain j p where jp: "jp = (j, p)" by fastforce
      with k Some have j: "j < length c1" "caps 8 1 (c1 ! j)" "list_all (caps 0 0) c1" "length c \<le> length c1"
        by simp_all
      show ?thesis
      proof (cases "free_common_chunks (c1 ! j) = []")
        case True
        with j(2) have "caps 1 0 ((c1 ! j)\<lparr>free_common_chunks := butlast (split_large_chunk_to_common p)\<rparr>)"
          "caps 0 0 ((c1 ! j)\<lparr>free_common_chunks := butlast (split_large_chunk_to_common p)\<rparr>)"
          by (simp_all add: caps_def layout_simps)
        with True run split a Some jp j show ?thesis
          by (auto simp: get_free_common_chunk_step_def Let_def intro!: list_all_update)
      next
        case False
        with run split a Some jp have g: "getC j c1 w1 = Some (r, c', w')"
          by (simp add: get_free_common_chunk_step_def Let_def)
        from gets_capsD [OF C j(1,3) g] j(4) show ?thesis by auto
      qed
    qed
  qed
qed

lemma free_chunk_ops_caps:
  "gets_caps 8 1 (get_free_large_chunk_owned areg sos n) \<and> gets_caps 1 0 (get_free_common_chunk areg sos n)"
proof (induction n)
  case (Suc n)
  then show ?case unfolding getL_Suc getC_Suc by (blast intro: get_large_step_caps get_common_step_caps)
qed (simp add: gets_caps_def)

text \<open>C29: the four buffers of every state stay within their capacities, whatever is allocated: the
  unchecked pushes of \<open>alloc_size_slow\<close> and the refill with eight common chunks never overflow.\<close>

theorem state_buffers_within_capacity:
  assumes "list_all (caps 0 0) c" and "i < length c"
    and "state_alloc_size areg sos n cl sz i c w = Some (r, c', w')"
  shows "list_all (\<lambda>s. length (free_common_chunks s) \<le> COMMON_CHUNKS_IN_LARGE_CHUNK
      \<and> length (free_large_chunks s) \<le> LARGE_CHUNKS_IN_REGION
      \<and> length (used_common_chunks s) \<le> MAX_COMMON_CHUNKS_IN_REGION
      \<and> length (used_large_chunks s) \<le> LARGE_CHUNKS_IN_REGION) c'
    \<and> list_all (caps 0 0) c' \<and> caps 0 0 (from_region q)"
proof -
  have "list_all (caps 0 0) c'"
    by (rule conjunct2 [OF alloc_size_caps [OF conjunct1 [OF free_chunk_ops_caps]
      conjunct2 [OF free_chunk_ops_caps] assms(2,1) assms(3) [unfolded state_alloc_size_def]]])
  moreover from this have "list_all (\<lambda>s. length (free_common_chunks s) \<le> COMMON_CHUNKS_IN_LARGE_CHUNK
      \<and> length (free_large_chunks s) \<le> LARGE_CHUNKS_IN_REGION
      \<and> length (used_common_chunks s) \<le> MAX_COMMON_CHUNKS_IN_REGION
      \<and> length (used_large_chunks s) \<le> LARGE_CHUNKS_IN_REGION) c'"
    by (rule list.pred_mono_strong) (simp add: caps_def)
  ultimately show ?thesis using caps_from_region by blast
qed

theorem state_buffers_within_capacity_witness:
  "\<exists>p c' w'. state_alloc_size no_more_regions 14408 3 Common 64 0 [from_region REGION_SIZE] [REGION_SIZE]
     = Some (Some p, c', w') \<and> list_all (caps 0 0) c'"
proof -
  obtain p st where run: "state_alloc_size no_more_regions 14408 (Suc 2) Common 64 0 [from_region REGION_SIZE] [REGION_SIZE]
      = Some (Some p, [st], [REGION_SIZE])"
    using fresh_alloc [of Common no_more_regions 14408 2 64 REGION_SIZE "[REGION_SIZE]"] by auto
  from state_buffers_within_capacity [OF _ _ run] run caps_from_region show ?thesis
    by (simp add: numeral_3_eq_3 numeral_2_eq_2)
qed

section \<open>A chunk that is lost\<close>

text \<open>C38: when a chain without free chunks needs a common chunk, the large chunk that was popped from the
  new state in order to be split is dropped, because the new state has common chunks of its own: of its
  63 large chunks only 62 are left, counting the one that may hold the state itself.\<close>

theorem large_chunk_lost:
  assumes "free_common_chunks s = []" and "free_large_chunks s = []"
    and "try_alloc_size (size_class_define sos) sos [s] = None" and "size_class_define sos \<noteq> ExtraLarge"
    and "areg w = (q, w1)" and "q \<noteq> 0"
  shows "\<exists>p c' w'. get_free_common_chunk areg sos 3 0 [s] w = Some (Some (1, p), c', w')
    \<and> length c' = 2 \<and> length (free_large_chunks (c' ! 1)) + length (used_large_chunks (c' ! 1)) = 62"
proof -
  obtain p st where a: "state_alloc_size areg sos (Suc 0) (size_class_define sos) sos 0 [from_region q] w1
      = Some (Some p, [st], w1)"
    and st: "62 \<le> length (free_large_chunks st)" "6 \<le> length (free_common_chunks st)"
      "length (free_large_chunks st) + length (used_large_chunks st) = 63"
    using fresh_alloc [OF assms(4), of areg sos 0 sos q w1] by auto
  let ?st = "st\<lparr>state_at := p\<rparr>"
  let ?st' = "?st\<lparr>free_large_chunks := butlast (free_large_chunks st)\<rparr>"
  have new: "alloc_new_state_in areg sos (get_free_large_chunk_owned areg sos (Suc 0))
      (get_free_common_chunk areg sos (Suc 0)) [s] w = Some (Some ?st, [s], w1)"
    using assms(3,5,6) a unfolding alloc_new_state_in_def state_alloc_size_def by simp
  have ne: "free_large_chunks st \<noteq> []" "free_common_chunks st \<noteq> []" using st by auto
  then have large: "get_free_large_chunk_owned areg sos (Suc (Suc 0)) 0 [s] w
      = Some (Some (1, last (free_large_chunks st)), [s, ?st'], w1)"
    using new assms(2) getL_pops [of "[s, ?st]" "Suc 0" areg sos 0 w1]
    unfolding getL_Suc [of _ _ "Suc 0"] get_free_large_chunk_step_def by simp
  have "get_free_common_chunk areg sos (Suc (Suc (Suc 0))) 0 [s] w
      = Some (Some (1, last (free_common_chunks st)),
          [s, ?st'\<lparr>free_common_chunks := butlast (free_common_chunks st)\<rparr>], w1)"
    using large assms(1) ne getC_pops [of "[s, ?st']" 1 areg sos "Suc 0" w1]
    unfolding getC_Suc [of _ _ "Suc (Suc 0)"] get_free_common_chunk_step_def by (simp add: Let_def)
  with st show ?thesis by (simp add: numeral_3_eq_3)
qed

theorem large_chunk_lost_witness:
  "\<exists>p c' w'. get_free_common_chunk (\<lambda>w. (Suc w * REGION_SIZE, Suc w)) 14408 3 0
       [(from_region REGION_SIZE)\<lparr>free_common_chunks := [], free_large_chunks := []\<rparr>] 1 = Some (Some (1, p), c', w')
     \<and> length c' = 2 \<and> length (free_large_chunks (c' ! 1)) + length (used_large_chunks (c' ! 1)) = 62"
  by (rule large_chunk_lost [OF _ _ _ _ refl]) (simp_all add: size_class_define_def layout_simps)


end
