(* ===== verification/ChunkManager.thy ===== *)
theory ChunkManager
  imports SelfVec SelfAllocState OsVec UsedObjects
begin

text \<open>
  \<open>chunk_manager.rs\<close>: the free chunks of a thread and the regions they come from, with the number
  of common chunks of each region that are still in use. A region goes back to the system when its
  number falls to 0.

  The operations that need only the manager act on it and on the process (\<open>lim\<close>, \<open>os\<close>). Those that
  may allocate act on a world \<open>'w\<close> through the record \<open>cm_env\<close>: the vectors of the manager as the
  allocator sees them, the two sources of regions, and \<open>handle_state\<close> of the thread-local
  allocator. \<open>None\<close> is a panic or a branch the code declares unreachable.
\<close>

record RegionView =
  view_ptr :: addr
  number_of_common_chunks_occupied :: usize

record ChunkManager =
  cm_free_large_chunks :: "addr self_vec"
  cm_free_common_chunks :: "addr self_vec"
  cm_regions :: "RegionView self_vec"

definition new_chunk_manager :: ChunkManager where
  "new_chunk_manager = \<lparr>cm_free_large_chunks = new_vec, cm_free_common_chunks = new_vec, cm_regions = new_vec\<rparr>"

text \<open>The two vectors of pointers have elements of 8 bytes, the views have 16.\<close>

definition cm_write_allocated_memory :: "ChunkManager \<Rightarrow> UsedObjectsFixed \<Rightarrow> UsedObjectsFixed option" where
  "cm_write_allocated_memory cm u =
     Option.bind (write_used_number_and_size (bytes_allocated 8 (cm_free_large_chunks cm)) 1 u) (\<lambda>u.
     Option.bind (write_used_number_and_size (bytes_allocated 8 (cm_free_common_chunks cm)) 1 u)
       (write_used_number_and_size (bytes_allocated 16 (cm_regions cm)) 1))"

definition try_get_large_chunk :: "ChunkManager \<Rightarrow> addr option \<times> ChunkManager" where
  "try_get_large_chunk cm =
     (case vec_pop (cm_free_large_chunks cm) of (p, v) \<Rightarrow> (p, cm\<lparr>cm_free_large_chunks := v\<rparr>))"

definition try_get_common_chunk :: "ChunkManager \<Rightarrow> addr option \<times> ChunkManager" where
  "try_get_common_chunk cm =
     (case vec_pop (cm_free_common_chunks cm) of (p, v) \<Rightarrow> (p, cm\<lparr>cm_free_common_chunks := v\<rparr>))"

section \<open>Giving chunks back\<close>

fun position :: "('a \<Rightarrow> bool) \<Rightarrow> 'a list \<Rightarrow> nat option" where
  "position P [] = None"
| "position P (x # xs) = (if P x then Some 0 else map_option Suc (position P xs))"

text \<open>The body \<open>free_common\<close> and \<open>free_large\<close> share: \<open>n\<close> common chunks of the region are given back.\<close>

definition free_chunk :: "'k kernel \<Rightarrow> usize \<Rightarrow> addr \<Rightarrow> ChunkManager \<times> 'k process \<Rightarrow> (ChunkManager \<times> 'k process) option" where
  "free_chunk K n chunk_ptr s =
     (case s of (cm, w) \<Rightarrow>
        let region_ptr_for_chunk = region_ptr_from_chunk_ptr chunk_ptr;
            views = vec_elems (cm_regions cm)
        in case position (\<lambda>v. view_ptr v = region_ptr_for_chunk) views of
          None \<Rightarrow> None
        | Some idx \<Rightarrow>
            let left = (number_of_common_chunks_occupied (views ! idx) + 2 ^ 64 - n) mod 2 ^ 64;
                regions = write_mut idx ((views ! idx)\<lparr>number_of_common_chunks_occupied := left\<rparr>) (cm_regions cm)
            in if left = 0 then
                 map_option (\<lambda>(_, regions). (cm\<lparr>cm_regions := regions\<rparr>, dealloc_region K (view_ptr (views ! idx)) w))
                   (swap_remove idx regions)
               else Some (cm\<lparr>cm_regions := regions\<rparr>, w))"

definition free_common :: "'k kernel \<Rightarrow> addr \<Rightarrow> ChunkManager \<times> 'k process \<Rightarrow> (ChunkManager \<times> 'k process) option" where
  "free_common K = free_chunk K 1"

definition free_large :: "'k kernel \<Rightarrow> addr \<Rightarrow> ChunkManager \<times> 'k process \<Rightarrow> (ChunkManager \<times> 'k process) option" where
  "free_large K = free_chunk K COMMON_CHUNKS_IN_LARGE_CHUNK"

text \<open>
  The loops \<open>while let Some(chunk) = \<dots>.pop() { \<dots> }\<close>, for the two vectors; they end after as many
  rounds as there are chunks.
\<close>

fun drain :: "(ChunkManager \<Rightarrow> addr option \<times> ChunkManager) \<Rightarrow>
    (addr \<Rightarrow> ChunkManager \<times> 'k process \<Rightarrow> (ChunkManager \<times> 'k process) option) \<Rightarrow> nat \<Rightarrow>
    ChunkManager \<times> 'k process \<Rightarrow> (ChunkManager \<times> 'k process) option" where
  "drain pop give 0 s = Some s"
| "drain pop give (Suc n) s =
     (case pop (fst s) of
        (None, cm) \<Rightarrow> Some (cm, snd s)
      | (Some chunk, cm) \<Rightarrow> Option.bind (give chunk (cm, snd s)) (drain pop give n))"

definition free_unused_memory :: "'k kernel \<Rightarrow> ChunkManager \<times> 'k process \<Rightarrow> (ChunkManager \<times> 'k process) option" where
  "free_unused_memory K s =
     Option.bind (drain try_get_common_chunk (free_common K) (vec_len (cm_free_common_chunks (fst s))) s)
       (\<lambda>s. drain try_get_large_chunk (free_large K) (vec_len (cm_free_large_chunks (fst s))) s)"

text \<open>The regions are listed in system memory first: the vector of views lies in one of them.\<close>

definition free_all_memory :: "libc \<Rightarrow> 'k kernel \<Rightarrow> ChunkManager \<times> 'k process \<Rightarrow> (ChunkManager \<times> 'k process) option" where
  "free_all_memory L K s =
     (case s of (cm, w) \<Rightarrow>
        let cm = cm\<lparr>cm_free_common_chunks := force_become_null (cm_free_common_chunks cm),
                    cm_free_large_chunks := force_become_null (cm_free_large_chunks cm)\<rparr>;
            ptrs = map view_ptr (vec_elems (cm_regions cm))
        in case Option.bind (ov_reserve L K 8 (length ptrs) (ov_new, os w)) (ov_push_all L K 8 ptrs) of
             None \<Rightarrow> None
           | Some (regions, o') \<Rightarrow>
               let w' = fold (dealloc_region K) (ov_elems regions) (w\<lparr>os := o'\<rparr>)
               in Some (cm\<lparr>cm_regions := force_become_null (cm_regions cm)\<rparr>,
                    w'\<lparr>os := ov_drop K 8 (regions, os w')\<rparr>))"

section \<open>Taking over a state\<close>

definition cm_handle_state :: "State \<Rightarrow> ChunkManager \<Rightarrow> ChunkManager option" where
  "cm_handle_state state cm =
     (case try_push \<lparr>view_ptr = region_ptr state, number_of_common_chunks_occupied = MAX_COMMON_CHUNKS_IN_REGION\<rparr> (cm_regions cm) of
        Inl _ \<Rightarrow> None
      | Inr regions \<Rightarrow>
          (case try_extend_from_slice (free_common_chunks state) (cm_free_common_chunks cm) of
             None \<Rightarrow> None
           | Some commons \<Rightarrow>
               map_option (\<lambda>larges. \<lparr>cm_free_large_chunks = larges, cm_free_common_chunks = commons, cm_regions = regions\<rparr>)
                 (try_extend_from_slice (free_large_chunks state) (cm_free_large_chunks cm))))"

section \<open>Getting chunks\<close>

record 'w cm_env =
  the_cm :: "'w \<Rightarrow> ChunkManager"
  set_cm :: "ChunkManager \<Rightarrow> 'w \<Rightarrow> 'w"
  large_vec :: "(addr, 'w) vec_env"
  common_vec :: "(addr, 'w) vec_env"
  regions_vec :: "(RegionView, 'w) vec_env"
  counted_region :: "'w \<Rightarrow> addr \<times> 'w"
  uncounted_region :: "'w \<Rightarrow> addr \<times> 'w"
  state_size :: usize
  handle_state :: "State list \<Rightarrow> 'w \<Rightarrow> 'w option"
  vec_fuel :: nat

text \<open>A new region becomes a state, which the allocator takes over but for one large chunk.\<close>

definition alloc_large_chunk :: "'w cm_env \<Rightarrow> 'w \<Rightarrow> (addr option \<times> 'w) option" where
  "alloc_large_chunk E w =
     (case counted_region E w of (r, w1) \<Rightarrow>
        if r = 0 then Some (None, w1)
        else case get_free_large_chunk (uncounted_region E) (state_size E) 3 0 [from_region r] w1 of
            Some (Some large_chunk, c, w2) \<Rightarrow> map_option (Pair (Some large_chunk)) (handle_state E c w2)
          | _ \<Rightarrow> None)"

definition get_large_chunk :: "'w cm_env \<Rightarrow> 'w \<Rightarrow> (addr option \<times> 'w) option" where
  "get_large_chunk E w =
     (case try_get_large_chunk (the_cm E w) of
        (Some chunk, cm) \<Rightarrow> Some (Some chunk, set_cm E cm w)
      | (None, _) \<Rightarrow> alloc_large_chunk E w)"

definition get_common_chunk_slow :: "'w cm_env \<Rightarrow> 'w \<Rightarrow> (addr option \<times> 'w) option" where
  "get_common_chunk_slow E w =
     (case get_large_chunk E w of
        None \<Rightarrow> None
      | Some (None, w1) \<Rightarrow> Some (None, w1)
      | Some (Some large_chunk, w1) \<Rightarrow>
          (case try_get_common_chunk (the_cm E w1) of
             (Some common_chunk, cm) \<Rightarrow>
               map_option (\<lambda>(_, w2). (Some common_chunk, w2)) (vec_push (vec_fuel E) (large_vec E) large_chunk (set_cm E cm w1))
           | (None, _) \<Rightarrow>
               let common_chunks = split_large_chunk_to_common large_chunk
               in map_option (\<lambda>(ok, w2). (if ok then Some (last common_chunks) else None, w2))
                    (extend_from_slice (vec_fuel E) (common_vec E) (butlast common_chunks) w1)))"

definition get_common_chunk :: "'w cm_env \<Rightarrow> 'w \<Rightarrow> (addr option \<times> 'w) option" where
  "get_common_chunk E w =
     (case try_get_common_chunk (the_cm E w) of
        (Some chunk, cm) \<Rightarrow> Some (Some chunk, set_cm E cm w)
      | (None, _) \<Rightarrow> get_common_chunk_slow E w)"

text \<open>
  \<open>prepare_to_handle_state_and_return_if_allocated_more\<close>; \<open>the_state\<close> reads the state, from
  which the vectors may be allocating meanwhile. \<open>Err\<close> of a reservation is a panic.
\<close>

definition reserve_or_panic :: "nat \<Rightarrow> ('a, 'w) vec_env \<Rightarrow> nat \<Rightarrow> 'w \<Rightarrow> (bool \<times> 'w) option" where
  "reserve_or_panic fuel V n w =
     (case reserve fuel V False (u32 n) w of Some (Inr b, w') \<Rightarrow> Some (b, w') | _ \<Rightarrow> None)"

definition prepare_to_handle_state :: "'w cm_env \<Rightarrow> ('w \<Rightarrow> State) \<Rightarrow> 'w \<Rightarrow> (bool \<times> 'w) option" where
  "prepare_to_handle_state E the_state w =
     (case reserve_or_panic (vec_fuel E) (regions_vec E) 1 w of
        None \<Rightarrow> None
      | Some (a, w1) \<Rightarrow>
          (case reserve_or_panic (vec_fuel E) (large_vec E) (length (free_large_chunks (the_state w1))) w1 of
             None \<Rightarrow> None
           | Some (b, w2) \<Rightarrow>
               map_option (\<lambda>(c, w3). (a \<or> b \<or> c, w3))
                 (reserve_or_panic (vec_fuel E) (common_vec E) (length (free_common_chunks (the_state w2))) w2)))"

section \<open>Regions are released exactly once\<close>

lemma position_Some: "position P xs = Some i \<Longrightarrow> i < length xs \<and> P (xs ! i)"
  by (induction xs arbitrary: i) (auto split: if_splits)

lemma position_None: "position P xs = None \<Longrightarrow> x \<in> set xs \<Longrightarrow> \<not> P x"
  by (induction xs) (auto split: if_splits)

definition views :: "ChunkManager \<Rightarrow> RegionView set" where
  "views cm = set (vec_elems (cm_regions cm))"

definition views_ok :: "ChunkManager \<Rightarrow> bool" where
  "views_ok cm \<longleftrightarrow> distinct (map view_ptr (vec_elems (cm_regions cm))) \<and>
     (\<forall>v\<in>views cm. 0 < number_of_common_chunks_occupied v \<and> number_of_common_chunks_occupied v < 2 ^ 64)"

lemma views_ok_inj: "views_ok cm \<Longrightarrow> v \<in> views cm \<Longrightarrow> v' \<in> views cm \<Longrightarrow> view_ptr v = view_ptr v' \<Longrightarrow> v = v'"
  by (auto simp: views_ok_def views_def distinct_map dest: inj_onD)

lemma free_chunk_step:
  assumes ok: "views_ok cm" and v: "v \<in> views cm" "view_ptr v = region_ptr_from_chunk_ptr c"
    and n: "0 < n" "n \<le> number_of_common_chunks_occupied v"
  shows "\<exists>cm'. free_chunk K n c (cm, w) = Some (cm',
      if number_of_common_chunks_occupied v = n then dealloc_region K (view_ptr v) w else w) \<and>
    cm_free_common_chunks cm' = cm_free_common_chunks cm \<and> cm_free_large_chunks cm' = cm_free_large_chunks cm \<and>
    views_ok cm' \<and>
    views cm' = (views cm - {v}) \<union> (if number_of_common_chunks_occupied v = n then {}
      else {v\<lparr>number_of_common_chunks_occupied := number_of_common_chunks_occupied v - n\<rparr>})"
proof -
  let ?xs = "vec_elems (cm_regions cm)"
  obtain i where pos: "position (\<lambda>v. view_ptr v = region_ptr_from_chunk_ptr c) ?xs = Some i"
    using position_None [of "\<lambda>v. view_ptr v = region_ptr_from_chunk_ptr c" ?xs v] v
    by (auto simp: views_def)
  note p = position_Some [OF pos]
  then have i: "i < length ?xs" "?xs ! i = v"
    using views_ok_inj [OF ok, of "?xs ! i" v] v by (auto simp: views_def)
  have d: "distinct (map view_ptr ?xs)" "distinct ?xs"
    using ok by (auto simp: views_ok_def distinct_map)
  let ?left = "number_of_common_chunks_occupied v - n"
  let ?v = "v\<lparr>number_of_common_chunks_occupied := ?left\<rparr>"
  have lt: "number_of_common_chunks_occupied v < 2 ^ 64" using ok v(1) by (auto simp: views_ok_def)
  then have left: "(number_of_common_chunks_occupied v + 2 ^ 64 - n) mod 2 ^ 64 = ?left"
    using n(2) by (simp add: mod_if)
  have ms: "mset (?xs[i := ?v]) = add_mset ?v (mset ?xs - {#v#})" using i by (simp add: mset_update)
  have rest: "set_mset (mset ?xs - {#v#}) = views cm - {v}"
    using d(2) i by (simp add: views_def flip: mset_remove1)
  have ptrs: "map view_ptr (?xs[i := ?v]) = map view_ptr ?xs" using i by (simp add: map_update list_update_same_conv)
  show ?thesis
  proof (cases "?left = 0")
    case False
    define cm' where "cm' = cm\<lparr>cm_regions := write_mut i ?v (cm_regions cm)\<rparr>"
    have "free_chunk K n c (cm, w) = Some (cm', w)"
      using False i left by (simp add: free_chunk_def pos Let_def cm'_def)
    moreover have vs: "views cm' = (views cm - {v}) \<union> {?v}"
      using arg_cong [OF ms, of set_mset] rest by (simp add: views_def cm'_def write_mut_def)
    moreover have "views_ok cm'"
      using ok ptrs False vs lt by (auto simp: views_ok_def cm'_def write_mut_def)
    ultimately show ?thesis using False n(2) by (auto simp: cm'_def)
  next
    case True
    let ?r = "write_mut i ?v (cm_regions cm)"
    obtain x r where sw: "swap_remove i ?r = Some (x, r)"
      using i by (auto simp: swap_remove_def write_mut_def vec_len_def Let_def)
    have x: "x = ?v" and mr: "mset (?xs[i := ?v]) = add_mset x (mset (vec_elems r))"
      using swap_remove_mset [OF sw] i by (auto simp: write_mut_def)
    then have m: "mset (vec_elems r) = mset ?xs - {#v#}" using ms by simp
    define cm' where "cm' = cm\<lparr>cm_regions := r\<rparr>"
    have "free_chunk K n c (cm, w) = Some (cm', dealloc_region K (view_ptr v) w)"
      using True i left sw by (simp add: free_chunk_def pos Let_def cm'_def)
    moreover have vs: "views cm' = views cm - {v}"
      using arg_cong [OF m, of set_mset] rest by (simp add: views_def cm'_def)
    moreover have "image_mset view_ptr (mset ?xs) = add_mset (view_ptr v) (image_mset view_ptr (mset (vec_elems r)))"
      using m i by (metis image_mset_add_mset insert_DiffM nth_mem_mset)
    then have "mset (map view_ptr ?xs) = mset (view_ptr v # map view_ptr (vec_elems r))" by simp
    then have "distinct (view_ptr v # map view_ptr (vec_elems r))"
      using d(1) mset_eq_imp_distinct_iff by blast
    then have "views_ok cm'" using ok vs by (auto simp: views_ok_def cm'_def)
    ultimately show ?thesis using True n by (auto simp: cm'_def)
  qed
qed

text \<open>The number in use per region, as a map.\<close>

definition in_use :: "ChunkManager \<Rightarrow> addr \<rightharpoonup> nat" where
  "in_use cm = map_of (map (\<lambda>v. (view_ptr v, number_of_common_chunks_occupied v)) (vec_elems (cm_regions cm)))"

lemma in_use_iff:
  assumes "views_ok cm"
  shows "in_use cm r = Some n \<longleftrightarrow> (\<exists>v\<in>views cm. view_ptr v = r \<and> number_of_common_chunks_occupied v = n)"
proof -
  have "distinct (map fst (map (\<lambda>v. (view_ptr v, number_of_common_chunks_occupied v)) (vec_elems (cm_regions cm))))"
    using assms by (simp add: views_ok_def comp_def)
  then show ?thesis unfolding in_use_def map_of_eq_Some_iff [OF \<open>distinct _\<close>]
    by (auto simp: views_def)
qed

lemma free_chunk_in_use:
  assumes ok: "views_ok cm" and u: "in_use cm (region_ptr_from_chunk_ptr c) = Some m" and n: "0 < n" "n \<le> m"
  shows "\<exists>cm'. free_chunk K n c (cm, w) =
      Some (cm', if m = n then dealloc_region K (region_ptr_from_chunk_ptr c) w else w) \<and>
    cm_free_common_chunks cm' = cm_free_common_chunks cm \<and> cm_free_large_chunks cm' = cm_free_large_chunks cm \<and>
    views_ok cm' \<and> in_use cm' = (in_use cm)(region_ptr_from_chunk_ptr c := if m = n then None else Some (m - n))"
proof -
  let ?r = "region_ptr_from_chunk_ptr c"
  obtain v where v: "v \<in> views cm" "view_ptr v = ?r" "number_of_common_chunks_occupied v = m"
    using u in_use_iff [OF ok] by auto
  then have "n \<le> number_of_common_chunks_occupied v" using n by simp
  from free_chunk_step [OF ok v(1,2) n(1) this, of K w] v obtain cm' where cm':
    "free_chunk K n c (cm, w) = Some (cm', if m = n then dealloc_region K ?r w else w)"
    "cm_free_common_chunks cm' = cm_free_common_chunks cm" "cm_free_large_chunks cm' = cm_free_large_chunks cm"
    "views_ok cm'" "views cm' = (views cm - {v}) \<union> (if m = n then {} else {v\<lparr>number_of_common_chunks_occupied := m - n\<rparr>})"
    by auto
  have other: "view_ptr u \<noteq> ?r" if "u \<in> views cm - {v}" for u
    using views_ok_inj [OF ok v(1), of u] v(2) that by auto
  have "in_use cm' r = Some x \<longleftrightarrow> ((in_use cm)(?r := if m = n then None else Some (m - n))) r = Some x" for r x
  proof (cases "r = ?r")
    case True
    then have "in_use cm' r = Some x \<longleftrightarrow> m \<noteq> n \<and> x = m - n"
      unfolding in_use_iff [OF cm'(4)] cm'(5) using other v(2) by (auto split: if_splits)
    with True show ?thesis by auto
  next
    case False
    have "(\<exists>u\<in>views cm'. view_ptr u = r \<and> number_of_common_chunks_occupied u = x) \<longleftrightarrow>
        (\<exists>u\<in>views cm. view_ptr u = r \<and> number_of_common_chunks_occupied u = x)"
      unfolding cm'(5) using v(2) False by (cases "m = n"; simp; blast)
    with False show ?thesis by (simp add: in_use_iff [OF cm'(4)] in_use_iff [OF ok])
  qed
  then have "in_use cm' = (in_use cm)(?r := if m = n then None else Some (m - n))"
    by (intro ext) (metis option.exhaust)
  with cm' show ?thesis by blast
qed

text \<open>How many of the chunks lie in a region.\<close>

definition in_region :: "addr \<Rightarrow> addr list \<Rightarrow> nat" where
  "in_region r cs = length (filter (\<lambda>c. region_ptr_from_chunk_ptr c = r) cs)"

lemma in_region_simps [simp]:
  "in_region r [] = 0"
  "in_region r (cs @ [c]) = in_region r cs + (if region_ptr_from_chunk_ptr c = r then 1 else 0)"
  by (simp_all add: in_region_def)

lemma in_region_0: "in_region r cs = 0 \<longleftrightarrow> (\<forall>c\<in>set cs. region_ptr_from_chunk_ptr c \<noteq> r)"
  by (auto simp: in_region_def filter_empty_conv)

text \<open>After \<open>f r\<close> common chunks of every region \<open>r\<close> were given back: what is in use, which regions are gone.\<close>

definition less_used :: "(addr \<Rightarrow> nat) \<Rightarrow> (addr \<rightharpoonup> nat) \<Rightarrow> addr \<rightharpoonup> nat" where
  "less_used f m r = (case m r of None \<Rightarrow> None | Some n \<Rightarrow> if n \<le> f r then None else Some (n - f r))"

definition released :: "(addr \<Rightarrow> nat) \<Rightarrow> (addr \<rightharpoonup> nat) \<Rightarrow> addr set" where
  "released f m = {r. m r = Some (f r)}"

text \<open>Every region has as many common chunks in use as are given back.\<close>

definition backed :: "(addr \<Rightarrow> nat) \<Rightarrow> (addr \<rightharpoonup> nat) \<Rightarrow> bool" where
  "backed f m \<longleftrightarrow> (\<forall>r. case m r of None \<Rightarrow> f r = 0 | Some n \<Rightarrow> f r \<le> n) \<and> 0 \<notin> ran m"

lemma backed_step:
  assumes "backed (\<lambda>q. f q + (if q = r then k else 0)) m" and "0 < k"
  obtains n where "m r = Some n" "k \<le> n" "backed f (m(r := if n = k then None else Some (n - k)))"
    "less_used f (m(r := if n = k then None else Some (n - k))) = less_used (\<lambda>q. f q + (if q = r then k else 0)) m"
    "released (\<lambda>q. f q + (if q = r then k else 0)) m =
      (if n = k then {r} else {}) \<union> released f (m(r := if n = k then None else Some (n - k)))"
    "n = k \<Longrightarrow> r \<notin> released f (m(r := None))"
proof -
  let ?f = "\<lambda>q. f q + (if q = r then k else 0)"
  have b: "case m q of None \<Rightarrow> ?f q = 0 | Some n \<Rightarrow> ?f q \<le> n" for q
    using assms(1) unfolding backed_def by blast
  have nz: "0 \<notin> ran m" using assms(1) by (simp add: backed_def)
  obtain n where n: "m r = Some n" "f r + k \<le> n" using b [of r] assms(2) by (cases "m r") auto
  let ?m = "m(r := if n = k then None else Some (n - k))"
  show ?thesis
  proof (rule that [OF n(1)])
    show "k \<le> n" using n(2) by simp
    have "case ?m q of None \<Rightarrow> f q = 0 | Some n \<Rightarrow> f q \<le> n" for q
      using b [of q] n by (cases "q = r") (auto split: option.splits)
    moreover have "0 \<notin> ran ?m" using nz n by (auto simp: ran_def split: if_splits)
    ultimately show "backed f ?m" by (simp add: backed_def)
    show "less_used f ?m = less_used ?f m"
      using n by (intro ext) (auto simp: less_used_def split: option.splits)
    show "released ?f m = (if n = k then {r} else {}) \<union> released f ?m"
      using n assms(2) by (auto simp: released_def split: if_splits)
    show "r \<notin> released f (m(r := None))" by (simp add: released_def)
  qed
qed

lemma drain_ok:
  fixes sel oth :: "ChunkManager \<Rightarrow> addr self_vec"
  assumes pop: "\<And>cm cs c. vec_elems (sel cm) = cs @ [c] \<Longrightarrow> \<exists>cm1. pop cm = (Some c, cm1) \<and>
      vec_elems (sel cm1) = cs \<and> oth cm1 = oth cm \<and> cm_regions cm1 = cm_regions cm"
    and keep: "\<And>cm cm'. cm_free_common_chunks cm' = cm_free_common_chunks cm \<Longrightarrow>
      cm_free_large_chunks cm' = cm_free_large_chunks cm \<Longrightarrow> sel cm' = sel cm \<and> oth cm' = oth cm"
    and k: "0 < k"
  shows "views_ok cm \<Longrightarrow> vec_elems (sel cm) = cs \<Longrightarrow> backed (\<lambda>r. g r + k * in_region r cs) (in_use cm) \<Longrightarrow>
   \<exists>cm' rs. drain pop (free_chunk K k) (length cs) (cm, w) = Some (cm', fold (dealloc_region K) rs w) \<and>
     views_ok cm' \<and> vec_elems (sel cm') = [] \<and> oth cm' = oth cm \<and> distinct rs \<and> backed g (in_use cm') \<and>
     less_used g (in_use cm') = less_used (\<lambda>r. g r + k * in_region r cs) (in_use cm) \<and>
     set rs \<inter> released g (in_use cm') = {} \<and>
     set rs \<union> released g (in_use cm') = released (\<lambda>r. g r + k * in_region r cs) (in_use cm)"
proof (induction cs arbitrary: cm w rule: rev_induct)
  case Nil
  then show ?case by (intro exI [of _ cm] exI [of _ "[]"]) simp
next
  case (snoc c cs)
  let ?r = "region_ptr_from_chunk_ptr c"
  let ?g = "\<lambda>q. g q + k * in_region q cs"
  have f: "(\<lambda>r. g r + k * in_region r (cs @ [c])) = (\<lambda>q. ?g q + (if q = ?r then k else 0))"
    by (auto simp: fun_eq_iff)
  obtain cm1 where cm1: "pop cm = (Some c, cm1)" "vec_elems (sel cm1) = cs" "oth cm1 = oth cm" "cm_regions cm1 = cm_regions cm"
    using pop [OF snoc.prems(2)] by blast
  have same: "views_ok cm1" "in_use cm1 = in_use cm"
    using snoc.prems(1) cm1(4) by (simp_all add: views_ok_def views_def in_use_def)
  obtain n where n: "in_use cm ?r = Some n" "k \<le> n"
    and bs: "backed ?g ((in_use cm)(?r := if n = k then None else Some (n - k)))"
      "less_used ?g ((in_use cm)(?r := if n = k then None else Some (n - k))) =
        less_used (\<lambda>r. g r + k * in_region r (cs @ [c])) (in_use cm)"
      "released (\<lambda>r. g r + k * in_region r (cs @ [c])) (in_use cm) = (if n = k then {?r} else {}) \<union>
        released ?g ((in_use cm)(?r := if n = k then None else Some (n - k)))"
      "n = k \<Longrightarrow> ?r \<notin> released ?g ((in_use cm)(?r := None))"
    using backed_step [of ?g ?r k "in_use cm"] snoc.prems(3) k unfolding f by force
  obtain cm2 where fr: "free_chunk K k c (cm1, w) = Some (cm2, if n = k then dealloc_region K ?r w else w)"
    and c2: "cm_free_common_chunks cm2 = cm_free_common_chunks cm1" "cm_free_large_chunks cm2 = cm_free_large_chunks cm1"
      "views_ok cm2" "in_use cm2 = (in_use cm)(?r := if n = k then None else Some (n - k))"
    using free_chunk_in_use [OF same(1), of c n k K w] same(2) n k by auto
  have e2: "vec_elems (sel cm2) = cs" "oth cm2 = oth cm" using keep [OF c2(1,2)] cm1 by simp_all
  let ?w = "if n = k then dealloc_region K ?r w else w"
  from snoc.IH [OF c2(3) e2(1) bs(1) [folded c2(4)], of ?w] obtain cm' rs where
    d: "drain pop (free_chunk K k) (length cs) (cm2, ?w) = Some (cm', fold (dealloc_region K) rs ?w)"
    and r: "views_ok cm'" "vec_elems (sel cm') = []" "oth cm' = oth cm2" "distinct rs" "backed g (in_use cm')"
      "less_used g (in_use cm') = less_used ?g (in_use cm2)" "set rs \<inter> released g (in_use cm') = {}"
      "set rs \<union> released g (in_use cm') = released ?g (in_use cm2)"
    by blast
  have run: "drain pop (free_chunk K k) (length (cs @ [c])) (cm, w) =
      Some (cm', fold (dealloc_region K) (if n = k then ?r # rs else rs) w)"
    using cm1(1) fr d by simp
  have "n = k \<Longrightarrow> ?r \<notin> set rs" "n = k \<Longrightarrow> ?r \<notin> released g (in_use cm')"
    using bs(4) r(8) c2(4) by auto
  then show ?case
    using run r bs(2,3) c2(4) e2(2)
    by (intro exI [of _ cm'] exI [of _ "if n = k then ?r # rs else rs"]) auto
qed

lemma pop_common: "vec_elems (cm_free_common_chunks cm) = cs @ [c] \<Longrightarrow> \<exists>cm1. try_get_common_chunk cm = (Some c, cm1) \<and>
    vec_elems (cm_free_common_chunks cm1) = cs \<and> cm_free_large_chunks cm1 = cm_free_large_chunks cm \<and>
    cm_regions cm1 = cm_regions cm"
  by (simp add: try_get_common_chunk_def vec_pop_def vec_len_def)

lemma pop_large: "vec_elems (cm_free_large_chunks cm) = cs @ [c] \<Longrightarrow> \<exists>cm1. try_get_large_chunk cm = (Some c, cm1) \<and>
    vec_elems (cm_free_large_chunks cm1) = cs \<and> cm_free_common_chunks cm1 = cm_free_common_chunks cm \<and>
    cm_regions cm1 = cm_regions cm"
  by (simp add: try_get_large_chunk_def vec_pop_def vec_len_def)

lemmas drain_common_ok = drain_ok [of cm_free_common_chunks try_get_common_chunk cm_free_large_chunks 1, OF pop_common]
lemmas drain_large_ok = drain_ok [of cm_free_large_chunks try_get_large_chunk cm_free_common_chunks 8, OF pop_large]

text \<open>What \<open>free_unused_memory\<close> gives back of a region: its free common chunks, and eight for each large one.\<close>

definition given_back :: "ChunkManager \<Rightarrow> addr \<Rightarrow> nat" where
  "given_back cm r = 8 * in_region r (vec_elems (cm_free_large_chunks cm)) +
     in_region r (vec_elems (cm_free_common_chunks cm))"

text \<open>C15: When every region has at least as many common chunks in use as its free chunks amount to,
  \<open>free_unused_memory\<close> does not panic, leaves no free chunk behind, lowers the number of every
  region by what was given back of it, and unmaps exactly the regions whose number falls to 0, each
  once; the other regions stay.
\<close>

theorem free_unused_memory_releases:
  assumes "views_ok cm" and "backed (given_back cm) (in_use cm)"
  shows "\<exists>cm' rs. free_unused_memory K (cm, w) = Some (cm', fold (dealloc_region K) rs w) \<and> views_ok cm' \<and>
    vec_elems (cm_free_common_chunks cm') = [] \<and> vec_elems (cm_free_large_chunks cm') = [] \<and>
    distinct rs \<and> set rs = released (given_back cm) (in_use cm) \<and>
    in_use cm' = less_used (given_back cm) (in_use cm)"
proof -
  let ?cs = "vec_elems (cm_free_common_chunks cm)" and ?ls = "vec_elems (cm_free_large_chunks cm)"
  have g: "given_back cm = (\<lambda>r. 8 * in_region r ?ls + 1 * in_region r ?cs)" by (simp add: fun_eq_iff given_back_def)
  from drain_common_ok [OF _ _ _ assms(1) refl, of "\<lambda>r. 8 * in_region r ?ls" K w] assms(2)
  obtain cm1 rs1 where 1: "drain try_get_common_chunk (free_chunk K 1) (length ?cs) (cm, w) =
      Some (cm1, fold (dealloc_region K) rs1 w)"
    "views_ok cm1" "vec_elems (cm_free_common_chunks cm1) = []" "cm_free_large_chunks cm1 = cm_free_large_chunks cm"
    "distinct rs1" "backed (\<lambda>r. 8 * in_region r ?ls) (in_use cm1)"
    "less_used (\<lambda>r. 8 * in_region r ?ls) (in_use cm1) = less_used (given_back cm) (in_use cm)"
    "set rs1 \<inter> released (\<lambda>r. 8 * in_region r ?ls) (in_use cm1) = {}"
    "set rs1 \<union> released (\<lambda>r. 8 * in_region r ?ls) (in_use cm1) = released (given_back cm) (in_use cm)"
    unfolding g by auto
  have b: "backed (\<lambda>r. 0 + 8 * in_region r ?ls) (in_use cm1)" using 1(6) by simp
  have "vec_elems (cm_free_large_chunks cm1) = ?ls" by (simp add: 1(4))
  from drain_large_ok [OF _ _ _ 1(2) this b, of K "fold (dealloc_region K) rs1 w"]
  obtain cm2 rs2 where 2: "drain try_get_large_chunk (free_chunk K 8) (length ?ls) (cm1, fold (dealloc_region K) rs1 w) =
      Some (cm2, fold (dealloc_region K) rs2 (fold (dealloc_region K) rs1 w))"
    "views_ok cm2" "vec_elems (cm_free_large_chunks cm2) = []" "cm_free_common_chunks cm2 = cm_free_common_chunks cm1"
    "distinct rs2" "backed (\<lambda>_. 0) (in_use cm2)"
    "less_used (\<lambda>_. 0) (in_use cm2) = less_used (\<lambda>r. 0 + 8 * in_region r ?ls) (in_use cm1)"
    "set rs2 \<inter> released (\<lambda>_. 0) (in_use cm2) = {}"
    "set rs2 \<union> released (\<lambda>_. 0) (in_use cm2) = released (\<lambda>r. 0 + 8 * in_region r ?ls) (in_use cm1)"
    by auto
  have nz: "0 \<notin> ran (in_use cm2)" using 2(6) by (simp add: backed_def)
  then have "released (\<lambda>_. 0) (in_use cm2) = {}" "less_used (\<lambda>_. 0) (in_use cm2) = in_use cm2"
    by (auto simp: released_def ran_def less_used_def fun_eq_iff split: option.splits)
  with 2(7,9) 1(7,8,9) 1(5) 2(5) have fin: "in_use cm2 = less_used (given_back cm) (in_use cm)"
    "distinct (rs1 @ rs2)" "set (rs1 @ rs2) = released (given_back cm) (in_use cm)" by auto
  have "free_unused_memory K (cm, w) = Some (cm2, fold (dealloc_region K) (rs1 @ rs2) w)"
    using 1(1,4) 2(1) by (simp add: free_unused_memory_def free_common_def free_large_def vec_len_def layout_simps)
  with fin 2(2,3,4) 1(3) show ?thesis by (intro exI [of _ cm2] exI [of _ "rs1 @ rs2"]) simp
qed

text \<open>One region with nine common chunks in use: a free common chunk and a free large one.\<close>

definition nearly_free :: ChunkManager where
  "nearly_free = \<lparr>
     cm_free_large_chunks = \<lparr>vec_ptr = 64, vec_elems = [2 ^ 25 + 524288], vec_cap = 1\<rparr>,
     cm_free_common_chunks = \<lparr>vec_ptr = 128, vec_elems = [2 ^ 25 + 65536], vec_cap = 1\<rparr>,
     cm_regions = \<lparr>vec_ptr = 192, vec_elems = [\<lparr>view_ptr = 2 ^ 25, number_of_common_chunks_occupied = 9\<rparr>], vec_cap = 1\<rparr>\<rparr>"

theorem free_unused_memory_releases_witness:
  "\<exists>cm'. free_unused_memory one_place (nearly_free, \<lparr>lim = initial_limit_state, os = initial_os_state {}\<rparr>) =
      Some (cm', dealloc_region one_place (2 ^ 25) \<lparr>lim = initial_limit_state, os = initial_os_state {}\<rparr>) \<and>
    in_use cm' = Map.empty"
proof -
  let ?K = one_place and ?w = "\<lparr>lim = initial_limit_state, os = initial_os_state {}\<rparr>"
  have r: "region_ptr_from_chunk_ptr (2 ^ 25 + 524288) = 2 ^ 25" "region_ptr_from_chunk_ptr (2 ^ 25 + 65536) = 2 ^ 25"
    using and_not_pow2 [of "2 ^ 25 + 524288" 25] and_not_pow2 [of "2 ^ 25 + 65536" 25]
    by (simp_all add: region_ptr_from_chunk_ptr_def layout_simps)
  have u: "in_use nearly_free = [2 ^ 25 \<mapsto> 9]" by (simp add: in_use_def nearly_free_def)
  have g: "given_back nearly_free = (\<lambda>q. if q = 2 ^ 25 then 9 else 0)"
    using r by (simp add: given_back_def in_region_def nearly_free_def fun_eq_iff)
  have "views_ok nearly_free" by (simp add: views_ok_def views_def nearly_free_def)
  moreover have "backed (given_back nearly_free) (in_use nearly_free)"
    by (simp add: backed_def u g ran_def)
  ultimately obtain cm' rs where *: "free_unused_memory ?K (nearly_free, ?w) = Some (cm', fold (dealloc_region ?K) rs ?w)"
    "distinct rs" "set rs = released (given_back nearly_free) (in_use nearly_free)"
    "in_use cm' = less_used (given_back nearly_free) (in_use nearly_free)"
    using free_unused_memory_releases [of nearly_free ?K ?w] by blast
  have "set rs = {2 ^ 25}" unfolding *(3) by (auto simp: released_def u g)
  with *(2) have "rs = [2 ^ 25]" by (cases rs; cases "tl rs"; auto)
  moreover have "in_use cm' = Map.empty" unfolding *(4) by (simp add: less_used_def u g fun_eq_iff)
  ultimately show ?thesis using *(1) by simp
qed

section \<open>A state that was prepared for is taken over\<close>

lemma reserve_False:
  "reserve fuel V counted n w = Some (Inr False, w') \<longleftrightarrow> needed V n w \<le> vec_cap (the_vec V w) \<and> w' = w"
  by (auto simp: reserve_def split: option.splits if_splits)

text \<open>\<open>vec_env\<close>s that read the vectors of the manager.\<close>

definition reads_manager :: "'w cm_env \<Rightarrow> bool" where
  "reads_manager E \<longleftrightarrow> (\<forall>w. the_vec (large_vec E) w = cm_free_large_chunks (the_cm E w) \<and>
     the_vec (common_vec E) w = cm_free_common_chunks (the_cm E w) \<and> the_vec (regions_vec E) w = cm_regions (the_cm E w))"

text \<open>When \<open>prepare_to_handle_state\<close> reports that it allocated nothing, it has changed nothing, and
  \<open>handle_state\<close> then cannot fail: the free chunks of the state are added to those of the manager,
  and its region is counted with all its 511 common chunks in use. Nothing is assumed of the
  allocator, which may have re-entered; lengths fit a \<open>u32\<close>.
\<close>

theorem prepared_state_is_taken:
  assumes "reads_manager E" and "prepare_to_handle_state E the_state w = Some (False, w')"
    and "cm = the_cm E w" and "s = the_state w"
    and "vec_len (cm_regions cm) < 2 ^ 31" and "vec_len (cm_free_common_chunks cm) < 2 ^ 31"
    and "vec_len (cm_free_large_chunks cm) < 2 ^ 31"
    and "length (free_common_chunks s) < 2 ^ 31" and "length (free_large_chunks s) < 2 ^ 31"
    and "views_ok cm" and "region_ptr s \<notin> dom (in_use cm)"
  shows "w' = w \<and> (\<exists>cm'. cm_handle_state s cm = Some cm' \<and> views_ok cm' \<and>
    in_use cm' = (in_use cm)(region_ptr s \<mapsto> 511) \<and>
    vec_elems (cm_free_common_chunks cm') = vec_elems (cm_free_common_chunks cm) @ free_common_chunks s \<and>
    vec_elems (cm_free_large_chunks cm') = vec_elems (cm_free_large_chunks cm) @ free_large_chunks s)"
proof -
  from assms(2) have r: "reserve (vec_fuel E) (regions_vec E) False (u32 1) w = Some (Inr False, w)"
    "reserve (vec_fuel E) (large_vec E) False (u32 (length (free_large_chunks s))) w = Some (Inr False, w)"
    "reserve (vec_fuel E) (common_vec E) False (u32 (length (free_common_chunks s))) w = Some (Inr False, w)" "w' = w"
    using assms(4) unfolding prepare_to_handle_state_def reserve_or_panic_def
    by (auto split: option.splits sum.splits prod.splits simp: reserve_False)
  have room: "vec_len (cm_regions cm) + 1 \<le> vec_cap (cm_regions cm)"
    "vec_len (cm_free_large_chunks cm) + length (free_large_chunks s) \<le> vec_cap (cm_free_large_chunks cm)"
    "vec_len (cm_free_common_chunks cm) + length (free_common_chunks s) \<le> vec_cap (cm_free_common_chunks cm)"
    using r(1-3) assms(1,3,5-9) by (simp_all add: reserve_False needed_def reads_manager_def)
  define v where "v = \<lparr>view_ptr = region_ptr s, number_of_common_chunks_occupied = 511\<rparr>"
  have m: "MAX_COMMON_CHUNKS_IN_REGION = 511" by (simp add: layout_simps)
  define cm' where "cm' = \<lparr>
    cm_free_large_chunks = (cm_free_large_chunks cm)\<lparr>vec_elems := vec_elems (cm_free_large_chunks cm) @ free_large_chunks s\<rparr>,
    cm_free_common_chunks = (cm_free_common_chunks cm)\<lparr>vec_elems := vec_elems (cm_free_common_chunks cm) @ free_common_chunks s\<rparr>,
    cm_regions = (cm_regions cm)\<lparr>vec_elems := vec_elems (cm_regions cm) @ [v]\<rparr>\<rparr>"
  have "vec_len (cm_free_common_chunks cm) + length (free_common_chunks s) < 2 ^ 32"
    "vec_len (cm_free_large_chunks cm) + length (free_large_chunks s) < 2 ^ 32" using assms(6-9) by simp_all
  then have "cm_handle_state s cm = Some cm'"
    using room assms(8,9) by (simp add: cm_handle_state_def try_push_def vacant_def try_extend_from_slice_def cm'_def v_def m)
  moreover have fresh: "region_ptr s \<notin> view_ptr ` set (vec_elems (cm_regions cm))"
    using assms(11) by (auto simp: in_use_def dom_map_of_conv_image_fst image_image)
  then have "views_ok cm'" using assms(10) by (auto simp: views_ok_def views_def cm'_def v_def)
  moreover have "in_use cm' = (in_use cm)(region_ptr s \<mapsto> 511)"
  proof -
    have "map_of (map (\<lambda>v. (view_ptr v, number_of_common_chunks_occupied v)) (vec_elems (cm_regions cm))) (region_ptr s) = None"
      using assms(11) by (simp add: in_use_def domIff)
    then show ?thesis
      by (auto simp: in_use_def cm'_def v_def fun_eq_iff map_add_def split: option.splits)
  qed
  ultimately show ?thesis using r(4) by (simp add: cm'_def)
qed

text \<open>A manager with room for a whole region, over an allocator without memory.\<close>

definition no_memory :: "ChunkManager cm_env" where
  "no_memory = \<lparr>the_cm = (\<lambda>w. w), set_cm = (\<lambda>cm _. cm),
     large_vec = \<lparr>self_alloc = (\<lambda>_ w. (None, w)), self_alloc_without_counting_limit = (\<lambda>_ w. (None, w)),
       self_dealloc = (\<lambda>_ _ w. w), the_vec = cm_free_large_chunks, set_vec = (\<lambda>v w. w\<lparr>cm_free_large_chunks := v\<rparr>), elem_size = 8\<rparr>,
     common_vec = \<lparr>self_alloc = (\<lambda>_ w. (None, w)), self_alloc_without_counting_limit = (\<lambda>_ w. (None, w)),
       self_dealloc = (\<lambda>_ _ w. w), the_vec = cm_free_common_chunks, set_vec = (\<lambda>v w. w\<lparr>cm_free_common_chunks := v\<rparr>), elem_size = 8\<rparr>,
     regions_vec = \<lparr>self_alloc = (\<lambda>_ w. (None, w)), self_alloc_without_counting_limit = (\<lambda>_ w. (None, w)),
       self_dealloc = (\<lambda>_ _ w. w), the_vec = cm_regions, set_vec = (\<lambda>v w. w\<lparr>cm_regions := v\<rparr>), elem_size = 16\<rparr>,
     counted_region = (\<lambda>w. (0, w)), uncounted_region = (\<lambda>w. (0, w)), state_size = 14848,
     handle_state = (\<lambda>_ w. Some w), vec_fuel = 1\<rparr>"

definition roomy :: ChunkManager where
  "roomy = \<lparr>cm_free_large_chunks = \<lparr>vec_ptr = 64, vec_elems = [], vec_cap = 64\<rparr>,
     cm_free_common_chunks = \<lparr>vec_ptr = 576, vec_elems = [], vec_cap = 8\<rparr>,
     cm_regions = \<lparr>vec_ptr = 640, vec_elems = [], vec_cap = 4\<rparr>\<rparr>"

lemma from_region_lengths: "length (free_common_chunks (from_region r)) = 7"
  "length (free_large_chunks (from_region r)) = 63" "region_ptr (from_region r) = r"
  by (simp_all add: from_region_def parse_region_def Let_def layout_simps)

theorem prepared_state_is_taken_witness:
  "\<exists>cm'. cm_handle_state (from_region (2 ^ 25)) roomy = Some cm' \<and> in_use cm' = [2 ^ 25 \<mapsto> 511]"
proof -
  have reads: "reads_manager no_memory" by (simp add: reads_manager_def no_memory_def)
  have p: "prepare_to_handle_state no_memory (\<lambda>_. from_region (2 ^ 25)) roomy = Some (False, roomy)"
    by (simp add: prepare_to_handle_state_def reserve_or_panic_def reserve_def needed_def no_memory_def roomy_def vec_len_def from_region_lengths)
  have e: "vec_len (cm_regions roomy) < 2 ^ 31" "vec_len (cm_free_common_chunks roomy) < 2 ^ 31"
    "vec_len (cm_free_large_chunks roomy) < 2 ^ 31" "views_ok roomy" "region_ptr (from_region (2 ^ 25)) \<notin> dom (in_use roomy)"
    "in_use roomy = Map.empty"
    by (simp_all add: roomy_def vec_len_def views_ok_def views_def in_use_def)
  note s = from_region_lengths [of "2 ^ 25"]
  have cm: "roomy = the_cm no_memory roomy" by (simp add: no_memory_def)
  show ?thesis
    using prepared_state_is_taken [OF reads p cm refl e(1-3) _ _ e(4,5)] s e(6) by auto
qed

end
