(* ===== verification/BNode.thy ===== *)
theory BNode
  imports Sizes
begin

text \<open>
  The nodes of the B-tree (\<open>self_allocated_structs/btree/node.rs\<close>): insertion with splitting,
  merging and stealing between siblings, moving a suffix. As in the source, nothing here knows
  that keys are ordered; the facts proved are about the sequence of pairs a tree holds
  (\<open>inorder\<close>) and about the shape (\<open>wf_node\<close>).

  A node is its initialised keys, values and edges: \<open>len\<close> is the length of the key list, a leaf
  is a node without edges (the source tells them apart by the height stored in the reference). The
  first section shows that the slice helpers, which work on arrays with an uninitialised tail, do
  on the initialised part what the list operations used afterwards do. Parent pointers are implicit:
  a reference to a node inside a tree carries the ancestors with the edge taken in each (the theory
  \<open>BTreeMap\<close>).

  Nodes are allocated from an allocator, a record of two functions over a state of any type; an
  \<open>expect\<close> on a failed allocation and a failed \<open>assert!\<close> are the result \<open>None\<close>.
\<close>

section \<open>Constants\<close>

definition B :: nat where "B = 6"
definition CAPACITY :: nat where "CAPACITY = 2 * B - 1"
definition MIN_LEN_AFTER_SPLIT :: nat where "MIN_LEN_AFTER_SPLIT = B - 1"
definition KV_IDX_CENTER :: nat where "KV_IDX_CENTER = B - 1"
definition EDGE_IDX_LEFT_OF_CENTER :: nat where "EDGE_IDX_LEFT_OF_CENTER = B - 1"
definition EDGE_IDX_RIGHT_OF_CENTER :: nat where "EDGE_IDX_RIGHT_OF_CENTER = B"

lemmas node_consts = B_def CAPACITY_def MIN_LEN_AFTER_SPLIT_def KV_IDX_CENTER_def
  EDGE_IDX_LEFT_OF_CENTER_def EDGE_IDX_RIGHT_OF_CENTER_def

section \<open>Slices\<close>

text \<open>Arrays of \<open>MaybeUninit\<close>: \<open>None\<close> is uninitialised. \<open>ptr::copy\<close> of \<open>n\<close> elements inside one slice.\<close>

definition slice_copy :: "nat \<Rightarrow> nat \<Rightarrow> nat \<Rightarrow> 'a option list \<Rightarrow> 'a option list" where
  "slice_copy src dst n xs = take dst xs @ take n (drop src xs) @ drop (dst + n) xs"

definition slice_insert :: "nat \<Rightarrow> 'a \<Rightarrow> 'a option list \<Rightarrow> 'a option list" where
  "slice_insert idx x arr =
     (let arr' = (if length arr > idx + 1
                  then slice_copy idx (idx + 1) (length arr - idx - 1) arr else arr)
      in arr'[idx := Some x])"

definition slice_remove :: "nat \<Rightarrow> 'a option list \<Rightarrow> 'a option \<times> 'a option list" where
  "slice_remove idx arr =
     (arr ! idx, slice_copy (idx + 1) idx (length arr - idx - 1) arr)"

definition slice_shl :: "nat \<Rightarrow> 'a option list \<Rightarrow> 'a option list" where
  "slice_shl distance arr = slice_copy distance 0 (length arr - distance) arr"

definition slice_shr :: "nat \<Rightarrow> 'a option list \<Rightarrow> 'a option list" where
  "slice_shr distance arr = slice_copy 0 distance (length arr - distance) arr"

text \<open>What they do to the initialised part, as lists.\<close>

definition list_insert :: "nat \<Rightarrow> 'a \<Rightarrow> 'a list \<Rightarrow> 'a list" where
  "list_insert i x xs = take i xs @ x # drop i xs"

definition list_remove :: "nat \<Rightarrow> 'a list \<Rightarrow> 'a list" where
  "list_remove i xs = take i xs @ drop (Suc i) xs"

lemma slice_insert_list:
  assumes "i \<le> length xs"
  shows "slice_insert i x (map Some xs @ [u]) = map Some (list_insert i x xs)"
proof (cases "i = length xs")
  case False
  with assms have i: "i < length xs" by simp
  have l: "length (take i xs) = i" using assms by simp
  have "slice_copy i (i + 1) (length xs - i) (map Some xs @ [u])
      = map Some (take i xs) @ Some (xs ! i) # map Some (drop i xs)"
    using i by (simp add: slice_copy_def take_map drop_map take_Suc_conv_app_nth)
  then show ?thesis
    using i l by (simp add: slice_insert_def list_insert_def list_update_append)
qed (simp add: slice_insert_def list_insert_def list_update_append)

lemma slice_remove_list:
  assumes "i < length xs"
  shows "slice_remove i (map Some xs) = (Some (xs ! i), map Some (list_remove i xs) @ [Some (last xs)])"
proof -
  have "drop (i + (length xs - Suc i)) xs = [last xs]"
    using assms by (cases xs rule: rev_cases) auto
  with assms show ?thesis
    by (simp add: slice_remove_def slice_copy_def list_remove_def take_map drop_map)
qed

lemma slice_shl_list:
  assumes "d \<le> length xs"
  shows "take (length xs - d) (slice_shl d (map Some xs)) = map Some (drop d xs)"
  using assms by (simp add: slice_shl_def slice_copy_def drop_map)

lemma slice_shr_list:
  assumes "length us = d"
  shows "drop d (slice_shr d (map Some xs @ us)) = map Some xs"
  using assms by (simp add: slice_shr_def slice_copy_def)

text \<open>C33: on an array whose initialised part is a list, the helpers that insert, remove and shift
  leave behind the initialised part the list operations describe.\<close>

theorem slices_refine_lists:
  assumes "i < length xs" and "d \<le> length xs" and "length us = d"
  shows "slice_insert i x (map Some xs @ [u]) = map Some (list_insert i x xs)
    \<and> fst (slice_remove i (map Some xs)) = Some (xs ! i)
    \<and> take (length xs - 1) (snd (slice_remove i (map Some xs))) = map Some (list_remove i xs)
    \<and> take (length xs - d) (slice_shl d (map Some xs)) = map Some (drop d xs)
    \<and> drop d (slice_shr d (map Some xs @ us)) = map Some xs"
  using assms slice_insert_list [of i xs x u] slice_remove_list [of i xs] slice_shl_list [of d xs]
    slice_shr_list [of us d xs]
  by (simp add: list_remove_def)

theorem slices_refine_lists_witness:
  "slice_insert 1 (9 :: nat) [Some 4, Some 5, None] = [Some 4, Some 9, Some 5]"
  using slices_refine_lists [of 1 "[4, 5 :: nat]" 0 "[]" 9 None]
  by (simp add: list_insert_def)

section \<open>Nodes\<close>

datatype ('k, 'v) node = Node (keys: "'k list") (vals: "'v list") (edges: "('k, 'v) node list")

text \<open>\<open>NodeRef::len\<close>.\<close>

abbreviation node_len :: "('k, 'v) node \<Rightarrow> nat" where
  "node_len n \<equiv> length (keys n)"

section \<open>Memory of nodes\<close>

text \<open>\<open>SelfAllocatedMemory\<close>: how many nodes of each of two sizes are allocated (32-bit counters).\<close>

type_synonym SelfAllocatedMemory = "(usize \<times> nat) \<times> (usize \<times> nat)"

definition new_memory :: SelfAllocatedMemory where
  "new_memory = ((0, 0), (0, 0))"

definition inc_for_size :: "usize \<Rightarrow> SelfAllocatedMemory \<Rightarrow> SelfAllocatedMemory" where
  "inc_for_size sz m =
     (case m of ((s0, n0), (s1, n1)) \<Rightarrow>
        if s0 = sz then ((s0, (n0 + 1) mod 2 ^ 32), (s1, n1))
        else if s1 = sz then ((s0, n0), (s1, (n1 + 1) mod 2 ^ 32))
        else if s0 = 0 then ((sz, (n0 + 1) mod 2 ^ 32), (s1, n1))
        else ((s0, n0), (sz, (n1 + 1) mod 2 ^ 32)))"

definition dec_for_size :: "usize \<Rightarrow> SelfAllocatedMemory \<Rightarrow> SelfAllocatedMemory" where
  "dec_for_size sz m =
     (case m of ((s0, n0), (s1, n1)) \<Rightarrow>
        if s0 = sz then ((s0, (n0 + 2 ^ 32 - 1) mod 2 ^ 32), (s1, n1))
        else ((s0, n0), (s1, (n1 + 2 ^ 32 - 1) mod 2 ^ 32)))"

text \<open>\<open>AllocatorForSelfAllocations\<close> as the nodes use it: \<open>self_alloc\<close> says whether it gave memory.
  The two sizes are \<open>size_of\<close> of the node types.\<close>

record 's allocator =
  self_alloc :: "usize \<Rightarrow> 's \<Rightarrow> bool \<times> 's"
  self_dealloc :: "usize \<Rightarrow> 's \<Rightarrow> 's"
  size_of_leaf :: usize
  size_of_internal :: usize

record 's bmem =
  allocated_memory :: SelfAllocatedMemory
  alloc_state :: 's

definition new_box :: "'s allocator \<Rightarrow> usize \<Rightarrow> 's bmem \<Rightarrow> bool \<times> 's bmem" where
  "new_box A sz m =
     (let real_size = recommended_size sz
      in case self_alloc A real_size (alloc_state m) of (ok, s) \<Rightarrow>
        (ok, if ok then m\<lparr>alloc_state := s, allocated_memory := inc_for_size real_size (allocated_memory m)\<rparr>
             else m\<lparr>alloc_state := s\<rparr>))"

definition leaf_new :: "'s allocator \<Rightarrow> 's bmem \<Rightarrow> bool \<times> 's bmem" where
  "leaf_new A m = new_box A (size_of_leaf A) m"

definition internal_new :: "'s allocator \<Rightarrow> 's bmem \<Rightarrow> bool \<times> 's bmem" where
  "internal_new A m = new_box A (size_of_internal A) m"

definition node_dealloc :: "'s allocator \<Rightarrow> usize \<Rightarrow> 's bmem \<Rightarrow> 's bmem" where
  "node_dealloc A sz m =
     m\<lparr>alloc_state := self_dealloc A sz (alloc_state m),
       allocated_memory := dec_for_size sz (allocated_memory m)\<rparr>"

section \<open>Insertion into a node\<close>

datatype LeftOrRight = Left nat | Right nat

definition splitpoint :: "nat \<Rightarrow> nat \<times> LeftOrRight" where
  "splitpoint edge_idx =
     (if edge_idx < EDGE_IDX_LEFT_OF_CENTER then (KV_IDX_CENTER - 1, Left edge_idx)
      else if edge_idx = EDGE_IDX_LEFT_OF_CENTER then (KV_IDX_CENTER, Left edge_idx)
      else if edge_idx = EDGE_IDX_RIGHT_OF_CENTER then (KV_IDX_CENTER, Right 0)
      else (KV_IDX_CENTER + 1, Right (edge_idx - (KV_IDX_CENTER + 1 + 1))))"

definition leaf_insert_fit :: "nat \<Rightarrow> 'k \<Rightarrow> 'v \<Rightarrow> ('k, 'v) node \<Rightarrow> ('k, 'v) node" where
  "leaf_insert_fit idx k v n = Node (list_insert idx k (keys n)) (list_insert idx v (vals n)) (edges n)"

definition internal_insert_fit ::
  "nat \<Rightarrow> 'k \<Rightarrow> 'v \<Rightarrow> ('k, 'v) node \<Rightarrow> ('k, 'v) node \<Rightarrow> ('k, 'v) node" where
  "internal_insert_fit idx k v edge n =
     Node (list_insert idx k (keys n)) (list_insert idx v (vals n)) (list_insert (idx + 1) edge (edges n))"

record ('k, 'v) SplitResult =
  left :: "('k, 'v) node"
  kv :: "'k \<times> 'v"
  right :: "('k, 'v) node"

text \<open>\<open>split_leaf_data\<close>, and the edges to the right of the pair for an internal node.\<close>

definition split_data :: "nat \<Rightarrow> ('k, 'v) node \<Rightarrow> ('k, 'v) SplitResult" where
  "split_data idx n =
     \<lparr>left = Node (take idx (keys n)) (take idx (vals n)) (take (idx + 1) (edges n)),
      kv = (keys n ! idx, vals n ! idx),
      right = Node (drop (idx + 1) (keys n)) (drop (idx + 1) (vals n)) (drop (idx + 1) (edges n))\<rparr>"

definition leaf_split ::
  "'s allocator \<Rightarrow> nat \<Rightarrow> ('k, 'v) node \<Rightarrow> 's bmem \<Rightarrow> (('k, 'v) SplitResult \<times> 's bmem) option" where
  "leaf_split A idx n m =
     (case leaf_new A m of (ok, m') \<Rightarrow> if ok then Some (split_data idx n, m') else None)"

definition internal_split ::
  "'s allocator \<Rightarrow> nat \<Rightarrow> ('k, 'v) node \<Rightarrow> 's bmem \<Rightarrow> (('k, 'v) SplitResult \<times> 's bmem) option" where
  "internal_split A idx n m =
     (case internal_new A m of (ok, m') \<Rightarrow> if ok then Some (split_data idx n, m') else None)"

text \<open>The node after an insertion that fitted, or the split.\<close>

type_synonym ('k, 'v, 's) insert_result =
  "((('k, 'v) node + ('k, 'v) SplitResult) \<times> 's bmem) option"

definition leaf_insert ::
  "'s allocator \<Rightarrow> nat \<Rightarrow> 'k \<Rightarrow> 'v \<Rightarrow> ('k, 'v) node \<Rightarrow> 's bmem \<Rightarrow> ('k, 'v, 's) insert_result" where
  "leaf_insert A idx k v n m =
     (if node_len n < CAPACITY then Some (Inl (leaf_insert_fit idx k v n), m)
      else case splitpoint idx of (middle_kv_idx, insertion) \<Rightarrow>
        (case leaf_split A middle_kv_idx n m of
           None \<Rightarrow> None
         | Some (r, m') \<Rightarrow>
             Some (Inr (case insertion of
                 Left i \<Rightarrow> r\<lparr>left := leaf_insert_fit i k v (left r)\<rparr>
               | Right i \<Rightarrow> r\<lparr>right := leaf_insert_fit i k v (right r)\<rparr>), m')))"

definition internal_insert ::
  "'s allocator \<Rightarrow> nat \<Rightarrow> 'k \<Rightarrow> 'v \<Rightarrow> ('k, 'v) node \<Rightarrow> ('k, 'v) node \<Rightarrow> 's bmem \<Rightarrow> ('k, 'v, 's) insert_result" where
  "internal_insert A idx k v edge n m =
     (if node_len n < CAPACITY then Some (Inl (internal_insert_fit idx k v edge n), m)
      else case splitpoint idx of (middle_kv_idx, insertion) \<Rightarrow>
        (case internal_split A middle_kv_idx n m of
           None \<Rightarrow> None
         | Some (r, m') \<Rightarrow>
             Some (Inr (case insertion of
                 Left i \<Rightarrow> r\<lparr>left := internal_insert_fit i k v edge (left r)\<rparr>
               | Right i \<Rightarrow> r\<lparr>right := internal_insert_fit i k v edge (right r)\<rparr>), m')))"

definition leaf_push :: "'k \<Rightarrow> 'v \<Rightarrow> ('k, 'v) node \<Rightarrow> ('k, 'v) node option" where
  "leaf_push k v n =
     (if node_len n < CAPACITY then Some (Node (keys n @ [k]) (vals n @ [v]) (edges n)) else None)"

definition internal_push :: "'k \<Rightarrow> 'v \<Rightarrow> ('k, 'v) node \<Rightarrow> ('k, 'v) node \<Rightarrow> ('k, 'v) node option" where
  "internal_push k v edge n =
     (if node_len n < CAPACITY then Some (Node (keys n @ [k]) (vals n @ [v]) (edges n @ [edge])) else None)"

text \<open>\<open>NodeHandle<Leaf, KV>::remove\<close>: the pair and the node without it.\<close>

definition leaf_remove :: "nat \<Rightarrow> ('k, 'v) node \<Rightarrow> ('k \<times> 'v) \<times> ('k, 'v) node" where
  "leaf_remove idx n =
     ((keys n ! idx, vals n ! idx), Node (list_remove idx (keys n)) (list_remove idx (vals n)) (edges n))"

section \<open>Balancing\<close>

record ('k, 'v) BalancingContext =
  parent :: "('k, 'v) node"
  parent_idx :: nat
  left_child :: "('k, 'v) node"
  right_child :: "('k, 'v) node"

definition consider_for_balancing :: "('k, 'v) node \<Rightarrow> nat \<Rightarrow> ('k, 'v) BalancingContext" where
  "consider_for_balancing p idx =
     \<lparr>parent = p, parent_idx = idx, left_child = edges p ! idx, right_child = edges p ! (idx + 1)\<rparr>"

definition can_merge :: "('k, 'v) BalancingContext \<Rightarrow> bool" where
  "can_merge c \<longleftrightarrow> node_len (left_child c) + 1 + node_len (right_child c) \<le> CAPACITY"

text \<open>The shrunk parent, with the merged child at the place of the left one. The children are
  internal when the parent's height is above 1, that is, when they have edges.\<close>

definition do_merge ::
  "'s allocator \<Rightarrow> ('k, 'v) BalancingContext \<Rightarrow> 's bmem \<Rightarrow> (('k, 'v) node \<times> ('k, 'v) node \<times> 's bmem) option" where
  "do_merge A c m =
     (let p = parent c; idx = parent_idx c; l = left_child c; r = right_child c in
      if node_len l + 1 + node_len r \<le> CAPACITY then
        let l' = Node (keys l @ keys p ! idx # keys r) (vals l @ vals p ! idx # vals r) (edges l @ edges r);
            p' = Node (list_remove idx (keys p)) (list_remove idx (vals p))
                   ((list_remove (idx + 1) (edges p))[idx := l']);
            m' = node_dealloc A (if edges r \<noteq> [] then size_of_internal A else size_of_leaf A) m
        in Some (p', l', m')
      else None)"

text \<open>The parent, with both children put back at their places.\<close>

definition put_children :: "('k, 'v) BalancingContext \<Rightarrow> ('k, 'v) node" where
  "put_children c = Node (keys (parent c)) (vals (parent c))
     ((edges (parent c))[parent_idx c := left_child c, parent_idx c + 1 := right_child c])"

definition bulk_steal_left :: "nat \<Rightarrow> ('k, 'v) BalancingContext \<Rightarrow> ('k, 'v) BalancingContext option" where
  "bulk_steal_left count c =
     (let p = parent c; idx = parent_idx c; l = left_child c; r = right_child c in
      if 0 < count \<and> node_len r + count \<le> CAPACITY \<and> count \<le> node_len l then
        let new_left_len = node_len l - count;
            r' = Node (drop (new_left_len + 1) (keys l) @ keys p ! idx # keys r)
                   (drop (new_left_len + 1) (vals l) @ vals p ! idx # vals r)
                   (drop (new_left_len + 1) (edges l) @ edges r);
            p' = Node ((keys p)[idx := keys l ! new_left_len]) ((vals p)[idx := vals l ! new_left_len]) (edges p);
            l' = Node (take new_left_len (keys l)) (take new_left_len (vals l)) (take (new_left_len + 1) (edges l))
        in Some \<lparr>parent = p', parent_idx = idx, left_child = l', right_child = r'\<rparr>
      else None)"

definition bulk_steal_right :: "nat \<Rightarrow> ('k, 'v) BalancingContext \<Rightarrow> ('k, 'v) BalancingContext option" where
  "bulk_steal_right count c =
     (let p = parent c; idx = parent_idx c; l = left_child c; r = right_child c in
      if 0 < count \<and> node_len l + count \<le> CAPACITY \<and> count \<le> node_len r then
        let l' = Node (keys l @ keys p ! idx # take (count - 1) (keys r))
                   (vals l @ vals p ! idx # take (count - 1) (vals r))
                   (edges l @ take count (edges r));
            p' = Node ((keys p)[idx := keys r ! (count - 1)]) ((vals p)[idx := vals r ! (count - 1)]) (edges p);
            r' = Node (drop count (keys r)) (drop count (vals r)) (drop count (edges r))
        in Some \<lparr>parent = p', parent_idx = idx, left_child = l', right_child = r'\<rparr>
      else None)"

text \<open>\<open>choose_parent_kv\<close> for the child at edge \<open>i\<close> of the parent: \<open>None\<close> is the panic on an empty
  internal node, \<open>Inl\<close> the context to the left, \<open>Inr\<close> the one to the right.\<close>

definition choose_parent_kv ::
  "('k, 'v) node \<Rightarrow> nat \<Rightarrow> (('k, 'v) BalancingContext + ('k, 'v) BalancingContext) option" where
  "choose_parent_kv p i =
     (if i > 0 then Some (Inl (consider_for_balancing p (i - 1)))
      else if i < node_len p then Some (Inr (consider_for_balancing p i))
      else None)"

text \<open>\<open>move_suffix\<close> on an edge of the left node; \<open>right\<close> must be empty and keeps its first edge.\<close>

definition move_suffix ::
  "nat \<Rightarrow> ('k, 'v) node \<Rightarrow> ('k, 'v) node \<Rightarrow> (('k, 'v) node \<times> ('k, 'v) node) option" where
  "move_suffix idx l r =
     (if node_len r \<noteq> 0 then None
      else if node_len l - idx > 0 then
        Some (Node (take idx (keys l)) (take idx (vals l)) (take (idx + 1) (edges l)),
              Node (drop idx (keys l)) (drop idx (vals l)) (edges r @ drop (idx + 1) (edges l)))
      else Some (l, r))"

section \<open>The sequence a node holds\<close>

text \<open>Subtrees and pairs in turn; a leaf has no subtrees.\<close>

fun inter :: "'a list list \<Rightarrow> 'a list \<Rightarrow> 'a list" where
  "inter [] kvs = kvs"
| "inter (b # bs) [] = b @ concat bs"
| "inter (b # bs) (p # kvs) = b @ p # inter bs kvs"

fun inorder :: "('k, 'v) node \<Rightarrow> ('k \<times> 'v) list" where
  "inorder (Node ks vs es) = inter (map inorder es) (zip ks vs)"

text \<open>All leaves at depth \<open>h\<close>, one more edge than keys, at most \<open>CAPACITY\<close> keys, and at least
  \<open>MIN_LEN_AFTER_SPLIT\<close> in every child.\<close>

fun wf_node :: "nat \<Rightarrow> ('k, 'v) node \<Rightarrow> bool" where
  "wf_node 0 (Node ks vs es) \<longleftrightarrow> es = [] \<and> length vs = length ks \<and> length ks \<le> CAPACITY"
| "wf_node (Suc h) (Node ks vs es) \<longleftrightarrow>
     length es = length ks + 1 \<and> length vs = length ks \<and> length ks \<le> CAPACITY
     \<and> (\<forall>e\<in>set es. wf_node h e \<and> MIN_LEN_AFTER_SPLIT \<le> node_len e)"

definition before :: "'a list list \<Rightarrow> 'a list \<Rightarrow> 'a list" where
  "before bs kvs = concat (map (\<lambda>(b, p). b @ [p]) (zip bs kvs))"

definition behind :: "'a list \<Rightarrow> 'a list list \<Rightarrow> 'a list" where
  "behind kvs bs = concat (map (\<lambda>(p, b). p # b) (zip kvs bs))"

lemma inter_append:
  "length bs = length kvs \<Longrightarrow> inter (bs @ bs') (kvs @ kvs') = before bs kvs @ inter bs' kvs'"
  by (induction bs kvs rule: list_induct2) (simp_all add: before_def)

lemma inter_Cons: "length bs = length kvs \<Longrightarrow> inter (b # bs) kvs = b @ behind kvs bs"
  by (induction kvs arbitrary: b bs) (auto simp: behind_def length_Suc_conv Suc_length_conv)

lemma inter_join:
  assumes "bs = [] \<and> bs' = [] \<or> length bs = Suc (length kvs)"
  shows "inter (bs @ bs') (kvs @ p # kvs') = inter bs kvs @ p # inter bs' kvs'"
proof (cases "bs = []")
  case False
  with assms have "length bs = Suc (length kvs)" by simp
  then show ?thesis
  proof (induction kvs arbitrary: bs)
    case Nil
    then show ?case by (cases bs) simp_all
  next
    case (Cons q kvs)
    then show ?case by (cases bs) simp_all
  qed
qed (use assms in simp)

lemma wf_lengths:
  assumes "wf_node h n"
  shows "length (vals n) = node_len n" and "node_len n \<le> CAPACITY"
    and "edges n = [] \<and> h = 0 \<or> length (edges n) = Suc (node_len n) \<and> h \<noteq> 0"
  using assms by (cases n; cases h; simp)+

lemma wf_edges:
  "wf_node (Suc h) n \<Longrightarrow> e \<in> set (edges n) \<Longrightarrow> wf_node h e \<and> MIN_LEN_AFTER_SPLIT \<le> node_len e"
  by (cases n) simp

lemma wf_nodeI:
  assumes "length (vals n) = node_len n" and "node_len n \<le> CAPACITY"
    and "h = 0 \<Longrightarrow> edges n = []" and "h \<noteq> 0 \<Longrightarrow> length (edges n) = Suc (node_len n)"
    and "\<And>e. e \<in> set (edges n) \<Longrightarrow> wf_node (h - 1) e \<and> MIN_LEN_AFTER_SPLIT \<le> node_len e"
  shows "wf_node h n"
  using assms by (cases n; cases h) simp_all

subsection \<open>Cutting a node at a pair and joining two around one\<close>

definition join :: "('k, 'v) node \<Rightarrow> 'k \<times> 'v \<Rightarrow> ('k, 'v) node \<Rightarrow> ('k, 'v) node" where
  "join l p r = Node (keys l @ fst p # keys r) (vals l @ snd p # vals r) (edges l @ edges r)"

lemma node_len_join [simp]: "node_len (join l p r) = node_len l + 1 + node_len r"
  by (simp add: join_def)

lemma node_len_split [simp]:
  "node_len (left (split_data i n)) = min i (node_len n)"
  "node_len (right (split_data i n)) = node_len n - (i + 1)"
  by (simp_all add: split_data_def min.commute)

lemma wf_edges_any: "wf_node h n \<Longrightarrow> e \<in> set (edges n) \<Longrightarrow> wf_node (h - 1) e \<and> MIN_LEN_AFTER_SPLIT \<le> node_len e"
  by (cases h; cases n) auto

lemma wf_join:
  assumes "wf_node h l" and "wf_node h r" and "node_len l + 1 + node_len r \<le> CAPACITY"
  shows "wf_node h (join l p r)"
proof (rule wf_nodeI)
  note 1 = wf_lengths [OF assms(1)] and 2 = wf_lengths [OF assms(2)]
  show "length (vals (join l p r)) = node_len (join l p r)" "node_len (join l p r) \<le> CAPACITY"
    using 1 2 assms(3) by (simp_all add: join_def)
  show "edges (join l p r) = []" if "h = 0" using 1 2 that by (simp add: join_def)
  show "length (edges (join l p r)) = Suc (node_len (join l p r))" if "h \<noteq> 0"
    using 1 2 that by (simp add: join_def)
  show "wf_node (h - 1) e \<and> MIN_LEN_AFTER_SPLIT \<le> node_len e" if "e \<in> set (edges (join l p r))" for e
    using that wf_edges_any [OF assms(1)] wf_edges_any [OF assms(2)] by (auto simp: join_def)
qed

lemma wf_split:
  assumes "wf_node h n" and "i < node_len n"
  shows "wf_node h (left (split_data i n))" and "wf_node h (right (split_data i n))"
proof -
  note 1 = wf_lengths [OF assms(1)]
  show "wf_node h (left (split_data i n))"
  proof (rule wf_nodeI)
    show "wf_node (h - 1) e \<and> MIN_LEN_AFTER_SPLIT \<le> node_len e"
      if "e \<in> set (edges (left (split_data i n)))" for e
      using that wf_edges_any [OF assms(1)] by (auto simp: split_data_def dest: in_set_takeD)
  qed (use 1 assms(2) in \<open>auto simp: split_data_def\<close>)
  show "wf_node h (right (split_data i n))"
  proof (rule wf_nodeI)
    show "wf_node (h - 1) e \<and> MIN_LEN_AFTER_SPLIT \<le> node_len e"
      if "e \<in> set (edges (right (split_data i n)))" for e
      using that wf_edges_any [OF assms(1)] by (auto simp: split_data_def dest: in_set_dropD)
  qed (use 1 assms(2) in \<open>auto simp: split_data_def\<close>)
qed

text \<open>The lengths alone, also for the overfull node that is never built.\<close>

definition lens :: "('k, 'v) node \<Rightarrow> bool" where
  "lens n \<longleftrightarrow> length (vals n) = node_len n \<and> (edges n = [] \<or> length (edges n) = Suc (node_len n))"

lemma wf_lens: "wf_node h n \<Longrightarrow> lens n"
  using wf_lengths [of h n] by (auto simp: lens_def)

lemma inorder_join_lens:
  assumes "lens l" and "edges l = [] \<longleftrightarrow> edges r = []"
  shows "inorder (join l p r) = inorder l @ p # inorder r"
proof -
  obtain lk lv le rk rv re where n: "l = Node lk lv le" "r = Node rk rv re" by (cases l; cases r) simp
  have "inter (map inorder le @ map inorder re) (zip lk lv @ p # zip rk rv)
      = inter (map inorder le) (zip lk lv) @ p # inter (map inorder re) (zip rk rv)"
    using assms by (intro inter_join) (auto simp: n lens_def)
  with assms(1) show ?thesis by (simp add: n join_def lens_def)
qed

lemma wf_edges_empty: "wf_node h n \<Longrightarrow> edges n = [] \<longleftrightarrow> h = 0"
  using wf_lengths(3) [of h n] by auto

lemma inorder_join:
  assumes "wf_node h l" and "wf_node h r"
  shows "inorder (join l p r) = inorder l @ p # inorder r"
  using wf_edges_empty [OF assms(1)] wf_edges_empty [OF assms(2)]
  by (intro inorder_join_lens wf_lens [OF assms(1)]) simp

lemma join_split:
  assumes "lens n" and "i < node_len n"
  shows "join (left (split_data i n)) (kv (split_data i n)) (right (split_data i n)) = n"
  using assms by (cases n) (simp add: join_def split_data_def id_take_nth_drop [symmetric] lens_def)

lemma inorder_split:
  assumes "lens n" and "i < node_len n"
  shows "inorder n = inorder (left (split_data i n)) @ kv (split_data i n) # inorder (right (split_data i n))"
proof -
  have "inorder (join (left (split_data i n)) (kv (split_data i n)) (right (split_data i n)))
      = inorder (left (split_data i n)) @ kv (split_data i n) # inorder (right (split_data i n))"
    by (rule inorder_join_lens) (use assms in \<open>auto simp: lens_def split_data_def\<close>)
  with join_split [OF assms] show ?thesis by simp
qed

subsection \<open>One child of a node\<close>

text \<open>The sequence to the left and to the right of edge \<open>i\<close>.\<close>

definition lefts :: "('k, 'v) node \<Rightarrow> nat \<Rightarrow> ('k \<times> 'v) list" where
  "lefts n i = before (map inorder (take i (edges n))) (take i (zip (keys n) (vals n)))"

definition rights :: "('k, 'v) node \<Rightarrow> nat \<Rightarrow> ('k \<times> 'v) list" where
  "rights n i = behind (drop i (zip (keys n) (vals n))) (map inorder (drop (Suc i) (edges n)))"

text \<open>\<open>set_edge\<close> is what the pointer to a child stands for after the child has been changed.\<close>

definition set_edge :: "('k, 'v) node \<Rightarrow> nat \<Rightarrow> ('k, 'v) node \<Rightarrow> ('k, 'v) node" where
  "set_edge n i e = Node (keys n) (vals n) ((edges n)[i := e])"

lemma set_edge_simps [simp]:
  "keys (set_edge n i e) = keys n" "vals (set_edge n i e) = vals n"
  "edges (set_edge n i e) = (edges n)[i := e]"
  by (simp_all add: set_edge_def)

lemma inorder_alt: "inorder n = inter (map inorder (edges n)) (zip (keys n) (vals n))"
  by (cases n) simp

lemma inorder_at:
  assumes "wf_node (Suc h) n" and "i \<le> node_len n"
  shows "inorder (set_edge n i e) = lefts n i @ inorder e @ rights n i"
proof -
  note l = wf_lengths [OF assms(1)]
  have i: "i < length (edges n)" using l(3) assms(2) by simp
  let ?k = "zip (keys n) (vals n)"
  have "map inorder ((edges n)[i := e])
      = map inorder (take i (edges n)) @ inorder e # map inorder (drop (Suc i) (edges n))"
    using i by (simp add: upd_conv_take_nth_drop)
  moreover have "?k = take i ?k @ drop i ?k" by simp
  ultimately have "inorder (set_edge n i e)
      = inter (map inorder (take i (edges n)) @ inorder e # map inorder (drop (Suc i) (edges n)))
          (take i ?k @ drop i ?k)"
    by (simp add: inorder_alt)
  also have "\<dots> = lefts n i @ inter (inorder e # map inorder (drop (Suc i) (edges n))) (drop i ?k)"
    unfolding lefts_def using l assms(2) i by (intro inter_append) simp
  also have "inter (inorder e # map inorder (drop (Suc i) (edges n))) (drop i ?k) = inorder e @ rights n i"
    unfolding rights_def using l assms(2) by (intro inter_Cons) auto
  finally show ?thesis by simp
qed

lemma wf_set_edge:
  assumes "wf_node (Suc h) n" and "wf_node h e" and "MIN_LEN_AFTER_SPLIT \<le> node_len e"
  shows "wf_node (Suc h) (set_edge n i e)"
  using assms by (cases n) (auto simp: set_edge_def dest!: set_update_subset_insert [THEN subsetD])

subsection \<open>Insertion\<close>

lemma length_list_insert [simp]: "length (list_insert i x xs) = Suc (length xs)"
  by (simp add: list_insert_def)

lemma set_list_insert [simp]: "set (list_insert i x xs) = insert x (set xs)"
  unfolding list_insert_def by (metis append_take_drop_id list.simps(15) set_append Un_insert_right)

lemma zip_list_insert:
  "length xs = length ys \<Longrightarrow> zip (list_insert i x xs) (list_insert i y ys) = list_insert i (x, y) (zip xs ys)"
  by (simp add: list_insert_def zip_append take_zip drop_zip)

lemma inorder_leaf: "edges n = [] \<Longrightarrow> inorder n = zip (keys n) (vals n)"
  by (cases n) simp

lemma leaf_insert_fit_inorder:
  "lens n \<Longrightarrow> edges n = [] \<Longrightarrow> inorder (leaf_insert_fit i k v n) = list_insert i (k, v) (inorder n)"
  by (simp add: inorder_leaf leaf_insert_fit_def zip_list_insert lens_def)

lemma list_insert_edges:
  "i < length es \<Longrightarrow> list_insert (Suc i) r (es[i := l]) = take i es @ l # r # drop (Suc i) es"
  by (simp add: list_insert_def upd_conv_take_nth_drop take_Suc_conv_app_nth min_def)

lemma internal_insert_fit_inorder:
  assumes "wf_node (Suc h) n" and "i \<le> node_len n"
  shows "inorder (internal_insert_fit i k v r (set_edge n i l))
    = lefts n i @ inorder l @ (k, v) # inorder r @ rights n i"
proof -
  note le = wf_lengths [OF assms(1)]
  have i: "i < length (edges n)" using le(3) assms(2) by simp
  let ?k = "zip (keys n) (vals n)"
  have "inorder (internal_insert_fit i k v r (set_edge n i l))
      = inter (map inorder (take i (edges n)) @ inorder l # inorder r # map inorder (drop (Suc i) (edges n)))
          (take i ?k @ (k, v) # drop i ?k)"
    using le i by (simp add: inorder_alt internal_insert_fit_def list_insert_edges zip_list_insert)
      (simp add: list_insert_def)
  also have "\<dots> = lefts n i @ inter (inorder l # inorder r # map inorder (drop (Suc i) (edges n))) ((k, v) # drop i ?k)"
    unfolding lefts_def using le assms(2) i by (intro inter_append) simp
  also have "inter (inorder l # inorder r # map inorder (drop (Suc i) (edges n))) ((k, v) # drop i ?k)
      = inorder l @ (k, v) # inorder r @ rights n i"
    unfolding rights_def using le assms(2) by (simp add: inter_Cons)
  finally show ?thesis by simp
qed

text \<open>Splitting first and inserting into the half the split point names is inserting first and splitting.\<close>

lemma split_insert_left:
  assumes "i \<le> m" and "m < length xs"
  shows "list_insert i x (take m xs) = take (Suc m) (list_insert i x xs)"
    and "list_insert i x xs ! Suc m = xs ! m"
    and "drop (Suc (Suc m)) (list_insert i x xs) = drop (Suc m) xs"
  using assms by (simp_all add: list_insert_def min_def take_drop Suc_diff_le nth_append)

lemma drop_list_insert: "i \<le> m \<Longrightarrow> i \<le> length xs \<Longrightarrow> drop (Suc m) (list_insert i x xs) = drop m xs"
  by (simp add: list_insert_def min_def Suc_diff_le)

lemma split_insert_right:
  assumes "m < i" and "i \<le> length xs"
  shows "take m (list_insert i x xs) = take m xs"
    and "list_insert i x xs ! m = xs ! m"
    and "drop (Suc m) (list_insert i x xs) = list_insert (i - Suc m) x (drop (Suc m) xs)"
  using assms by (simp_all add: list_insert_def min_def nth_append drop_take)

lemma leaf_split_insert:
  assumes "lens n" and "edges n = []" and "m < node_len n" and "i \<le> node_len n"
  shows "i \<le> m \<Longrightarrow> (split_data m n)\<lparr>left := leaf_insert_fit i k v (left (split_data m n))\<rparr>
      = split_data (Suc m) (leaf_insert_fit i k v n)"
    and "m < i \<Longrightarrow> (split_data m n)\<lparr>right := leaf_insert_fit (i - Suc m) k v (right (split_data m n))\<rparr>
      = split_data m (leaf_insert_fit i k v n)"
  using assms by (simp_all add: split_data_def leaf_insert_fit_def lens_def split_insert_left split_insert_right)

lemma internal_split_insert:
  assumes "lens n" and "edges n \<noteq> []" and "m < node_len n" and "i \<le> node_len n"
  shows "i \<le> m \<Longrightarrow> (split_data m n)\<lparr>left := internal_insert_fit i k v e (left (split_data m n))\<rparr>
      = split_data (Suc m) (internal_insert_fit i k v e n)"
    and "m < i \<Longrightarrow> (split_data m n)\<lparr>right := internal_insert_fit (i - Suc m) k v e (right (split_data m n))\<rparr>
      = split_data m (internal_insert_fit i k v e n)"
  using assms drop_list_insert [of "Suc i" "Suc m" "edges n" e] split_insert_left [of "Suc i" "Suc m" "edges n" e]
    split_insert_right [of "Suc m" "Suc i" "edges n" e]
  by (simp_all add: split_data_def internal_insert_fit_def lens_def split_insert_left split_insert_right
    drop_list_insert Suc_diff_Suc)

text \<open>What an insertion leaves: one node, or two around a pair, each with enough keys.\<close>

fun inserted :: "nat \<Rightarrow> ('k \<times> 'v) list \<Rightarrow> ('k, 'v) node + ('k, 'v) SplitResult \<Rightarrow> bool" where
  "inserted h xs (Inl n) \<longleftrightarrow> wf_node h n \<and> inorder n = xs"
| "inserted h xs (Inr r) \<longleftrightarrow> wf_node h (left r) \<and> wf_node h (right r)
     \<and> MIN_LEN_AFTER_SPLIT \<le> node_len (left r) \<and> MIN_LEN_AFTER_SPLIT \<le> node_len (right r)
     \<and> inorder (left r) @ kv r # inorder (right r) = xs"

text \<open>The nodes cut from a node with at most \<open>CAPACITY + 1\<close> keys, at a pair that leaves both enough.\<close>

lemma wf_cut:
  assumes "lens n" and "edges n = [] \<longleftrightarrow> h = 0" and "m < node_len n"
    and "m \<le> CAPACITY" and "node_len n - Suc m \<le> CAPACITY"
    and "\<And>e. e \<in> set (edges n) \<Longrightarrow> wf_node (h - 1) e \<and> MIN_LEN_AFTER_SPLIT \<le> node_len e"
  shows "wf_node h (left (split_data m n))" and "wf_node h (right (split_data m n))"
proof -
  show "wf_node h (left (split_data m n))"
  proof (rule wf_nodeI)
    show "wf_node (h - 1) e \<and> MIN_LEN_AFTER_SPLIT \<le> node_len e"
      if "e \<in> set (edges (left (split_data m n)))" for e
      using that assms(6) by (auto simp: split_data_def dest: in_set_takeD)
  qed (use assms(1-5) in \<open>auto simp: split_data_def lens_def\<close>)
  show "wf_node h (right (split_data m n))"
  proof (rule wf_nodeI)
    show "wf_node (h - 1) e \<and> MIN_LEN_AFTER_SPLIT \<le> node_len e"
      if "e \<in> set (edges (right (split_data m n)))" for e
      using that assms(6) by (auto simp: split_data_def dest: in_set_dropD)
  qed (use assms(1-5) in \<open>auto simp: split_data_def lens_def\<close>)
qed

lemma splitpoint_cases:
  assumes "i \<le> CAPACITY"
  obtains (go_left) m where "splitpoint i = (m, Left i)" "i \<le> m" "4 \<le> m" "m \<le> 5"
  | (go_right) m where "splitpoint i = (m, Right (i - Suc m))" "m < i" "5 \<le> m" "m \<le> 6"
proof -
  consider "i < 5" | "i = 5" | "i = 6" | "6 < i" by linarith
  then show ?thesis
    by cases (auto intro: go_left [of 4] go_left [of 5] go_right [of 5] go_right [of 6]
      simp: splitpoint_def node_consts)
qed

lemma inserted_cut:
  assumes "wf_node h (left (split_data j f))" and "wf_node h (right (split_data j f))"
    and "inorder (left (split_data j f)) @ kv (split_data j f) # inorder (right (split_data j f)) = xs"
    and "5 \<le> j" and "j \<le> 6" and "node_len f = Suc CAPACITY"
  shows "inserted h xs (Inr (split_data j f))"
  unfolding inserted.simps
  using assms by (intro conjI) (simp_all only: node_len_split, simp_all add: node_consts)

lemma leaf_insert_inserted:
  assumes n: "wf_node 0 n" and i: "i \<le> node_len n" and run: "leaf_insert A i k v n m = Some (res, m')"
  shows "inserted 0 (list_insert i (k, v) (inorder n)) res
    \<and> (case res of Inl n' \<Rightarrow> node_len n' = Suc (node_len n) | Inr r \<Rightarrow> True)"
proof -
  note l = wf_lengths [OF n] and w = wf_lens [OF n]
  have e: "edges n = []" using l(3) by simp
  let ?f = "leaf_insert_fit i k v n"
  have f: "lens ?f" "edges ?f = []" "inorder ?f = list_insert i (k, v) (inorder n)" "node_len ?f = Suc (node_len n)"
    using leaf_insert_fit_inorder [OF w e] w e by (simp_all add: leaf_insert_fit_def lens_def)
  show ?thesis
  proof (cases "node_len n < CAPACITY")
    case True
    have "wf_node 0 ?f" by (rule wf_nodeI) (use f True in \<open>simp_all add: lens_def\<close>)
    moreover have "res = Inl ?f" using run True by (simp add: leaf_insert_def)
    ultimately show ?thesis using f by simp
  next
    case False
    with l have c: "node_len n = CAPACITY" by simp
    have cut: "wf_node 0 (left (split_data j ?f))" "wf_node 0 (right (split_data j ?f))"
      "inorder (left (split_data j ?f)) @ kv (split_data j ?f) # inorder (right (split_data j ?f))
        = list_insert i (k, v) (inorder n)" if "5 \<le> j" "j \<le> 6" for j
      using that f c inorder_split [OF f(1), of j] wf_cut [of ?f 0 j] by (simp_all add: node_consts)
    from i c have "i \<le> CAPACITY" by simp
    then show ?thesis
    proof (cases rule: splitpoint_cases)
      case (go_left j)
      with run False have "res = Inr (split_data (Suc j) ?f)"
        using leaf_split_insert(1) [OF w e _ i, of j k v] c
        by (auto simp: leaf_insert_def leaf_split_def node_consts split: prod.splits if_splits)
      with inserted_cut [OF cut [of "Suc j"]] go_left c f(4) show ?thesis by simp
    next
      case (go_right j)
      with run False have "res = Inr (split_data j ?f)"
        using leaf_split_insert(2) [OF w e _ i, of j k v] c
        by (auto simp: leaf_insert_def leaf_split_def node_consts split: prod.splits if_splits)
      with inserted_cut [OF cut [of j]] go_right c f(4) show ?thesis by simp
    qed
  qed
qed

lemma internal_insert_inserted:
  assumes n: "wf_node (Suc h) n" and i: "i \<le> node_len n"
    and le: "wf_node h l" "MIN_LEN_AFTER_SPLIT \<le> node_len l"
    and r: "wf_node h r" "MIN_LEN_AFTER_SPLIT \<le> node_len r"
    and run: "internal_insert A i k v r (set_edge n i l) m = Some (res, m')"
  shows "inserted (Suc h) (lefts n i @ inorder l @ (k, v) # inorder r @ rights n i) res
    \<and> (case res of Inl n' \<Rightarrow> node_len n' = Suc (node_len n) | Inr r \<Rightarrow> True)"
proof -
  let ?n = "set_edge n i l"
  have n': "wf_node (Suc h) ?n" by (rule wf_set_edge [OF n le])
  note len = wf_lengths [OF n'] and w = wf_lens [OF n']
  have e: "edges ?n \<noteq> []" using len(3) by auto
  let ?f = "internal_insert_fit i k v r ?n"
  have f: "lens ?f" "edges ?f \<noteq> []" "node_len ?f = Suc (node_len n)"
    "inorder ?f = lefts n i @ inorder l @ (k, v) # inorder r @ rights n i"
    using internal_insert_fit_inorder [OF n i] len
    by (simp_all add: internal_insert_fit_def lens_def) (simp add: list_insert_def)
  have es: "wf_node h e \<and> MIN_LEN_AFTER_SPLIT \<le> node_len e" if "e \<in> set (edges ?f)" for e
    using that wf_edges [OF n', of e] r by (auto simp: internal_insert_fit_def)
  show ?thesis
  proof (cases "node_len n < CAPACITY")
    case True
    have "wf_node (Suc h) ?f" by (rule wf_nodeI) (use f es True in \<open>simp_all add: lens_def\<close>)
    moreover have "res = Inl ?f" using run True by (simp add: internal_insert_def)
    ultimately show ?thesis using f by simp
  next
    case False
    with len have c: "node_len n = CAPACITY" by simp
    have cut: "wf_node (Suc h) (left (split_data j ?f))" "wf_node (Suc h) (right (split_data j ?f))"
      "inorder (left (split_data j ?f)) @ kv (split_data j ?f) # inorder (right (split_data j ?f))
        = lefts n i @ inorder l @ (k, v) # inorder r @ rights n i" if "5 \<le> j" "j \<le> 6" for j
      using that f es c inorder_split [OF f(1), of j] wf_cut [of ?f "Suc h" j] by (simp_all add: node_consts)
    from i c have "i \<le> CAPACITY" by simp
    then show ?thesis
    proof (cases rule: splitpoint_cases)
      case (go_left j)
      with run False have "res = Inr (split_data (Suc j) ?f)"
        using internal_split_insert(1) [OF w e, of j i k v r] i c
        by (auto simp: internal_insert_def internal_split_def node_consts split: prod.splits if_splits)
      with inserted_cut [OF cut [of "Suc j"]] go_left c f(3) show ?thesis by simp
    next
      case (go_right j)
      with run False have "res = Inr (split_data j ?f)"
        using internal_split_insert(2) [OF w e, of j i k v r] i c
        by (auto simp: internal_insert_def internal_split_def node_consts split: prod.splits if_splits)
      with inserted_cut [OF cut [of j]] go_right c f(3) show ?thesis by simp
    qed
  qed
qed

end
