(* ===== verification/BTreeMap.thy ===== *)
theory BTreeMap
  imports BNode
begin

text \<open>
  The ordered map of the allocator (\<open>self_allocated_structs/btree\<close>: \<open>search.rs\<close>, \<open>entry.rs\<close>,
  \<open>fix.rs\<close>, \<open>remove.rs\<close>, \<open>navigate.rs\<close>, \<open>map.rs\<close> and the part of \<open>node.rs\<close> that climbs the tree).

  A reference to a node of a tree is the node with its ancestors, nearest first, each with the
  index of the edge taken: what the parent pointers and parent indices of the source give. A
  handle is such a reference with an index. \<open>zip_up\<close> is the tree a reference lies in.
\<close>

section \<open>References and handles\<close>

type_synonym ('k, 'v) frame = "('k, 'v) node \<times> nat"
type_synonym ('k, 'v) handle = "('k, 'v) node \<times> nat \<times> ('k, 'v) frame list"

fun zip_up :: "('k, 'v) node \<Rightarrow> ('k, 'v) frame list \<Rightarrow> ('k, 'v) node" where
  "zip_up e [] = e"
| "zip_up e ((n, i) # fs) = zip_up (set_edge n i e) fs"

definition MIN_LEN :: nat where "MIN_LEN = MIN_LEN_AFTER_SPLIT"

section \<open>Search\<close>

datatype IndexResult = KV nat | Edge nat

fun find_key_from :: "'k::linorder \<Rightarrow> 'k list \<Rightarrow> nat \<Rightarrow> IndexResult" where
  "find_key_from key [] idx = Edge idx"
| "find_key_from key (k # ks) idx =
     (if key > k then find_key_from key ks (idx + 1)
      else if key = k then KV idx
      else Edge idx)"

definition find_key_index :: "'k::linorder \<Rightarrow> ('k, 'v) node \<Rightarrow> nat \<Rightarrow> IndexResult" where
  "find_key_index key n start_index = find_key_from key (drop start_index (keys n)) start_index"

datatype ('k, 'v) SearchResult = Found "('k, 'v) handle" | GoDown "('k, 'v) handle"

lemma size_edge: "e \<in> set (edges n) \<Longrightarrow> size e < size n"
  by (cases n) (auto simp: less_Suc_eq_le intro: trans_le_add2 size_list_estimation')

text \<open>The loop of \<open>search_tree\<close>. An edge beyond the edges of an internal node does not exist in a
  well-formed tree (the source reads it unchecked); the model stops there.\<close>

function search_tree :: "'k::linorder \<Rightarrow> ('k, 'v) node \<Rightarrow> ('k, 'v) frame list \<Rightarrow> ('k, 'v) SearchResult" where
  "search_tree key n fs =
     (case find_key_index key n 0 of
        KV i \<Rightarrow> Found (n, i, fs)
      | Edge i \<Rightarrow>
          if i < length (edges n) then search_tree key (edges n ! i) ((n, i) # fs)
          else GoDown (n, i, fs))"
  by pat_completeness auto

termination
  by (relation "measure (\<lambda>(_, n, _). size n)") (auto intro: size_edge nth_mem)

declare search_tree.simps [simp del]

section \<open>Insertion\<close>

text \<open>The loop of \<open>insert_recursing\<close> after a split of the node below: the pair and the right half
  go into the parent, up to the root, where \<open>split_root\<close> pushes a new level.\<close>

definition push_internal_level ::
  "'s allocator \<Rightarrow> ('k, 'v) node \<Rightarrow> 's bmem \<Rightarrow> (('k, 'v) node \<times> 's bmem) option" where
  "push_internal_level A root m =
     (case internal_new A m of (ok, m') \<Rightarrow> if ok then Some (Node [] [] [root], m') else None)"

definition split_root ::
  "'s allocator \<Rightarrow> ('k, 'v) SplitResult \<Rightarrow> 's bmem \<Rightarrow> (('k, 'v) node \<times> 's bmem) option" where
  "split_root A ins m =
     (case push_internal_level A (left ins) m of
        None \<Rightarrow> None
      | Some (root, m') \<Rightarrow>
          (case internal_push (fst (kv ins)) (snd (kv ins)) (right ins) root of
             None \<Rightarrow> None
           | Some root' \<Rightarrow> Some (root', m')))"

fun insert_loop ::
  "'s allocator \<Rightarrow> ('k, 'v) SplitResult \<Rightarrow> ('k, 'v) frame list \<Rightarrow> 's bmem \<Rightarrow> (('k, 'v) node \<times> 's bmem) option" where
  "insert_loop A split [] m = split_root A split m"
| "insert_loop A split ((n, i) # fs) m =
     (case internal_insert A i (fst (kv split)) (snd (kv split)) (right split) (set_edge n i (left split)) m of
        None \<Rightarrow> None
      | Some (Inl n', m') \<Rightarrow> Some (zip_up n' fs, m')
      | Some (Inr split', m') \<Rightarrow> insert_loop A split' fs m')"

definition insert_recursing ::
  "'s allocator \<Rightarrow> ('k, 'v) handle \<Rightarrow> 'k \<Rightarrow> 'v \<Rightarrow> 's bmem \<Rightarrow> (('k, 'v) node \<times> 's bmem) option" where
  "insert_recursing A h k v m =
     (case h of (leaf, idx, fs) \<Rightarrow>
        case leaf_insert A idx k v leaf m of
          None \<Rightarrow> None
        | Some (Inl leaf', m') \<Rightarrow> Some (zip_up leaf' fs, m')
        | Some (Inr split, m') \<Rightarrow> insert_loop A split fs m')"

section \<open>The map and its entries\<close>

record ('k, 'v) btree_map =
  root :: "('k, 'v) node option"
  map_length :: nat
  map_memory :: SelfAllocatedMemory

definition new_map :: "('k, 'v) btree_map" where
  "new_map = \<lparr>root = None, map_length = 0, map_memory = new_memory\<rparr>"

datatype ('k, 'v) Entry = Vacant 'k "('k, 'v) handle option" | Occupied "('k, 'v) handle"

definition entry :: "'k::linorder \<Rightarrow> ('k, 'v) btree_map \<Rightarrow> ('k, 'v) Entry" where
  "entry key mp =
     (case root mp of
        None \<Rightarrow> Vacant key None
      | Some t \<Rightarrow> (case search_tree key t [] of
          Found h \<Rightarrow> Occupied h
        | GoDown h \<Rightarrow> Vacant key (Some h)))"

text \<open>The result of an operation that may return \<open>Err(())\<close> or panic.\<close>

datatype 'a outcome = Ok 'a | Err | Panic

text \<open>\<open>VacantEntry::insert\<close>, with the map it borrows and the allocator's state.\<close>

definition vacant_insert ::
  "'s allocator \<Rightarrow> 'k \<Rightarrow> ('k, 'v) handle option \<Rightarrow> 'v \<Rightarrow> ('k, 'v) btree_map \<Rightarrow> 's \<Rightarrow> (('k, 'v) btree_map \<times> 's) outcome" where
  "vacant_insert A key handle v mp s =
     (let m = \<lparr>allocated_memory = map_memory mp, alloc_state = s\<rparr> in
      case handle of
        None \<Rightarrow>
          (case leaf_new A m of (ok, m') \<Rightarrow>
             if \<not> ok then Err
             else case leaf_push key v (Node [] [] []) of
                 None \<Rightarrow> Panic
               | Some leaf \<Rightarrow>
                   Ok (mp\<lparr>root := Some leaf, map_length := 1, map_memory := allocated_memory m'\<rparr>, alloc_state m'))
      | Some h \<Rightarrow>
          (case insert_recursing A h key v m of
             None \<Rightarrow> Panic
           | Some (t, m') \<Rightarrow>
               Ok (mp\<lparr>root := Some t, map_length := map_length mp + 1, map_memory := allocated_memory m'\<rparr>,
                   alloc_state m')))"

text \<open>A write through the reference that \<open>into_mut\<close> gives.\<close>

definition occupied_write :: "('v \<Rightarrow> 'v) \<Rightarrow> ('k, 'v) handle \<Rightarrow> ('k, 'v) btree_map \<Rightarrow> ('k, 'v) btree_map" where
  "occupied_write f h mp =
     (case h of (n, i, fs) \<Rightarrow>
        mp\<lparr>root := Some (zip_up (Node (keys n) ((vals n)[i := f (vals n ! i)]) (edges n)) fs)\<rparr>)"

text \<open>\<open>*map.entry(key).or_insert(default)? = f(\<dots>)\<close>: the reference returned for a new pair holds the
  default, so what is written through it is \<open>f default\<close>.\<close>

definition entry_or_insert ::
  "'s allocator \<Rightarrow> 'k::linorder \<Rightarrow> 'v \<Rightarrow> ('v \<Rightarrow> 'v) \<Rightarrow> ('k, 'v) btree_map \<Rightarrow> 's \<Rightarrow> (('k, 'v) btree_map \<times> 's) outcome" where
  "entry_or_insert A key dflt f mp s =
     (case entry key mp of
        Occupied h \<Rightarrow> Ok (occupied_write f h mp, s)
      | Vacant key' h \<Rightarrow> vacant_insert A key' h (f dflt) mp s)"

definition btree_get :: "'k::linorder \<Rightarrow> ('k, 'v) btree_map \<Rightarrow> 'v option" where
  "btree_get key mp =
     (case entry key mp of Occupied (n, i, fs) \<Rightarrow> Some (vals n ! i) | Vacant _ _ \<Rightarrow> None)"

section \<open>Trees around a reference\<close>

fun wf_frames :: "nat \<Rightarrow> ('k, 'v) frame list \<Rightarrow> nat \<Rightarrow> bool" where
  "wf_frames h [] H \<longleftrightarrow> h = H"
| "wf_frames h ((n, i) # fs) H \<longleftrightarrow>
     wf_node (Suc h) n \<and> i \<le> node_len n \<and> 0 < node_len n \<and> (fs \<noteq> [] \<longrightarrow> MIN_LEN \<le> node_len n)
     \<and> wf_frames (Suc h) fs H"

fun all_left :: "('k, 'v) frame list \<Rightarrow> ('k \<times> 'v) list" where
  "all_left [] = []"
| "all_left ((n, i) # fs) = all_left fs @ lefts n i"

fun all_right :: "('k, 'v) frame list \<Rightarrow> ('k \<times> 'v) list" where
  "all_right [] = []"
| "all_right ((n, i) # fs) = rights n i @ all_right fs"

definition wf_root :: "nat \<Rightarrow> ('k, 'v) node \<Rightarrow> bool" where
  "wf_root h t \<longleftrightarrow> wf_node h t \<and> (h \<noteq> 0 \<longrightarrow> 0 < node_len t)"

lemma wf_framesD:
  assumes "wf_frames h ((n, i) # fs) H"
  shows "wf_node (Suc h) n" and "i \<le> node_len n" and "0 < node_len n"
    and "fs \<noteq> [] \<Longrightarrow> MIN_LEN_AFTER_SPLIT \<le> node_len n" and "wf_frames (Suc h) fs H"
  using assms by (simp_all add: MIN_LEN_def)

lemma zip_up_inorder:
  "wf_frames h fs H \<Longrightarrow> inorder (zip_up e fs) = all_left fs @ inorder e @ all_right fs"
proof (induction fs arbitrary: h e)
  case (Cons f fs)
  obtain n i where f: "f = (n, i)" by fastforce
  note fr = wf_framesD [OF Cons.prems [unfolded f]]
  show ?case by (simp add: f Cons.IH [OF fr(5)] inorder_at [OF fr(1,2)])
qed simp

text \<open>The keys a node below the ancestors \<open>fs\<close> must have.\<close>

definition enough :: "nat \<Rightarrow> ('k, 'v) frame list \<Rightarrow> nat \<Rightarrow> bool" where
  "enough h fs l \<longleftrightarrow> (fs \<noteq> [] \<longrightarrow> MIN_LEN_AFTER_SPLIT \<le> l) \<and> (h \<noteq> 0 \<longrightarrow> 0 < l)"

lemma wf_frames_enough: "wf_frames h ((n, i) # fs) H \<Longrightarrow> enough (Suc h) fs (node_len n)"
  by (simp add: enough_def MIN_LEN_def)

lemma enough_mono: "enough h fs l \<Longrightarrow> l \<le> l' \<Longrightarrow> enough h fs l'"
  by (auto simp: enough_def)

lemma zip_up_wf:
  "wf_frames h fs H \<Longrightarrow> wf_node h e \<Longrightarrow> enough h fs (node_len e) \<Longrightarrow> wf_root H (zip_up e fs)"
proof (induction fs arbitrary: h e)
  case Nil
  then show ?case by (simp add: wf_root_def enough_def)
next
  case (Cons f fs)
  obtain n i where f: "f = (n, i)" by fastforce
  note fr = wf_framesD [OF Cons.prems(1) [unfolded f]] wf_frames_enough [OF Cons.prems(1) [unfolded f]]
  have "wf_node (Suc h) (set_edge n i e)"
    by (rule wf_set_edge) (use fr Cons.prems in \<open>simp_all add: enough_def f\<close>)
  with Cons.IH [OF fr(5) this] fr(6) show ?case by (simp add: f)
qed

section \<open>Insertion is insertion into the sequence\<close>

lemma internal_push_new_root:
  "internal_push k v r (Node [] [] [l]) = Some (Node [k] [v] [l, r])"
  by (simp add: internal_push_def node_consts)

lemma insert_loop_wf:
  assumes "wf_frames h fs H" and "inserted h xs (Inr split)" and "insert_loop A split fs m = Some (t, m')"
  shows "(wf_root H t \<or> wf_root (Suc H) t) \<and> inorder t = all_left fs @ xs @ all_right fs"
  using assms
proof (induction fs arbitrary: h xs split m)
  case Nil
  then obtain m1 where "t = Node [fst (kv split)] [snd (kv split)] [left split, right split]"
    by (auto simp: split_root_def push_internal_level_def internal_push_new_root split: prod.splits if_splits)
  with Nil show ?case by (simp add: wf_root_def node_consts)
next
  case (Cons f fs)
  obtain n i where f: "f = (n, i)" by fastforce
  note fr = wf_framesD [OF Cons.prems(1) [unfolded f]] wf_frames_enough [OF Cons.prems(1) [unfolded f]]
  note sp = Cons.prems(2) [unfolded inserted.simps]
  obtain res m1 where res: "internal_insert A i (fst (kv split)) (snd (kv split)) (right split)
      (set_edge n i (left split)) m = Some (res, m1)"
    using Cons.prems(3) by (auto simp: f split: option.splits)
  have ins: "inserted (Suc h) (lefts n i @ inorder (left split) @ kv split # inorder (right split) @ rights n i) res"
    "case res of Inl n' \<Rightarrow> node_len n' = Suc (node_len n) | Inr r \<Rightarrow> True"
    using internal_insert_inserted [OF fr(1,2) _ _ _ _ res] sp by simp_all
  have eq: "lefts n i @ inorder (left split) @ kv split # inorder (right split) @ rights n i
      = lefts n i @ xs @ rights n i" using sp by (metis append.assoc append_Cons)
  show ?case
  proof (cases res)
    case (Inl n')
    with Cons.prems(3) res have t: "t = zip_up n' fs" by (simp add: f)
    have "wf_root H t"
      unfolding t by (rule zip_up_wf [OF fr(5)]) (use ins Inl in \<open>auto intro: enough_mono [OF fr(6)]\<close>)
    with ins Inl eq zip_up_inorder [OF fr(5), of n'] t show ?thesis by (simp add: f)
  next
    case (Inr split')
    with Cons.prems(3) res have "insert_loop A split' fs m1 = Some (t, m')" by (simp add: f)
    from Cons.IH [OF fr(5) _ this] ins Inr eq show ?thesis by (simp add: f)
  qed
qed

lemma insert_recursing_wf:
  assumes fr: "wf_frames 0 fs H" and leaf: "wf_node 0 leaf" "enough 0 fs (node_len leaf)"
    and i: "i \<le> node_len leaf" and run: "insert_recursing A (leaf, i, fs) k v m = Some (t, m')"
  shows "(wf_root H t \<or> wf_root (Suc H) t)
    \<and> inorder t = all_left fs @ list_insert i (k, v) (inorder leaf) @ all_right fs"
proof -
  obtain res m1 where res: "leaf_insert A i k v leaf m = Some (res, m1)"
    using run by (auto simp: insert_recursing_def split: option.splits)
  note ins = leaf_insert_inserted [OF leaf(1) i res]
  show ?thesis
  proof (cases res)
    case (Inl n')
    with run res have t: "t = zip_up n' fs" by (simp add: insert_recursing_def)
    have "wf_root H t"
      unfolding t by (rule zip_up_wf [OF fr]) (use ins Inl in \<open>auto intro: enough_mono [OF leaf(2)]\<close>)
    with ins Inl zip_up_inorder [OF fr, of n'] t show ?thesis by simp
  next
    case (Inr split)
    with run res have "insert_loop A split fs m1 = Some (t, m')" by (simp add: insert_recursing_def)
    from insert_loop_wf [OF fr _ this] ins Inr show ?thesis by simp
  qed
qed

section \<open>The search\<close>

lemma find_key_from_KV:
  "find_key_from key ks idx = KV j \<Longrightarrow> idx \<le> j \<and> j - idx < length ks \<and> ks ! (j - idx) = key"
proof (induction ks arbitrary: idx)
  case (Cons k ks)
  show ?case
  proof (cases "key > k")
    case True
    with Cons.IH [of "Suc idx"] Cons.prems have "Suc idx \<le> j" "j - Suc idx < length ks" "ks ! (j - Suc idx) = key"
      by simp_all
    then obtain d where "j = Suc (idx + d)" by (metis add_Suc le_Suc_ex)
    with \<open>j - Suc idx < length ks\<close> \<open>ks ! (j - Suc idx) = key\<close> show ?thesis by simp
  qed (use Cons.prems in \<open>auto split: if_splits\<close>)
qed simp

lemma find_key_from_Edge:
  "find_key_from key ks idx = Edge j \<Longrightarrow> idx \<le> j \<and> j - idx \<le> length ks
    \<and> (\<forall>m < j - idx. ks ! m < key) \<and> (j - idx < length ks \<longrightarrow> key < ks ! (j - idx))"
proof (induction ks arbitrary: idx)
  case (Cons k ks)
  show ?case
  proof (cases "key > k")
    case True
    with Cons.IH [of "Suc idx"] Cons.prems have 1: "Suc idx \<le> j" "j - Suc idx \<le> length ks"
      "\<forall>m < j - Suc idx. ks ! m < key" "j - Suc idx < length ks \<longrightarrow> key < ks ! (j - Suc idx)"
      by simp_all
    then obtain d where j: "j = Suc (idx + d)" by (metis add_Suc le_Suc_ex)
    with 1 True show ?thesis by (auto simp: nth_Cons split: nat.splits)
  qed (use Cons.prems in \<open>auto split: if_splits\<close>)
qed simp

lemma find_key_index_KV: "find_key_index key n 0 = KV i \<Longrightarrow> i < node_len n \<and> keys n ! i = key"
  using find_key_from_KV [of key "keys n" 0 i] by (simp add: find_key_index_def)

lemma find_key_index_Edge:
  "find_key_index key n 0 = Edge i \<Longrightarrow>
     i \<le> node_len n \<and> (\<forall>m < i. keys n ! m < key) \<and> (i < node_len n \<longrightarrow> key < keys n ! i)"
  using find_key_from_Edge [of key "keys n" 0 i] by (simp add: find_key_index_def)

lemma lefts_last:
  assumes "wf_node (Suc h) n" and "0 < i" and "i \<le> node_len n"
  obtains xs where "lefts n i = xs @ [(keys n ! (i - 1), vals n ! (i - 1))]"
proof -
  note l = wf_lengths [OF assms(1)]
  obtain j where j: "i = Suc j" using assms(2) by (cases i) auto
  have "lefts n i = lefts n j @ inorder (edges n ! j) @ [(keys n ! j, vals n ! j)]"
    using l assms(3) j by (simp add: lefts_def before_def take_Suc_conv_app_nth)
  then show ?thesis using that j by (metis append.assoc diff_Suc_1)
qed

lemma lefts_0 [simp]: "lefts n 0 = []"
  by (simp add: lefts_def before_def)

lemma rights_first:
  assumes "wf_node (Suc h) n" and "i < node_len n"
  obtains xs where "rights n i = (keys n ! i, vals n ! i) # xs"
proof -
  note l = wf_lengths [OF assms(1)]
  have z: "drop i (zip (keys n) (vals n)) = (keys n ! i, vals n ! i) # drop (Suc i) (zip (keys n) (vals n))"
    using l assms(2) by (simp flip: Cons_nth_drop_Suc)
  have e: "drop (Suc i) (edges n) = (edges n ! Suc i) # drop (Suc (Suc i)) (edges n)"
    using l assms(2) by (simp flip: Cons_nth_drop_Suc)
  show ?thesis using that by (simp add: rights_def behind_def z e)
qed

lemma rights_len: "wf_node h n \<Longrightarrow> node_len n \<le> i \<Longrightarrow> rights n i = []"
  using wf_lengths [of h n] by (simp add: rights_def behind_def)

text \<open>Pairs in strictly increasing order of their keys.\<close>

definition ordered :: "('k::linorder \<times> 'v) list \<Rightarrow> bool" where
  "ordered xs \<longleftrightarrow> sorted_wrt (<) (map fst xs)"

lemma ordered_append:
  "ordered (xs @ ys) \<longleftrightarrow> ordered xs \<and> ordered ys \<and> (\<forall>p\<in>set xs. \<forall>q\<in>set ys. fst p < fst q)"
  by (auto simp: ordered_def sorted_wrt_append)

lemma ordered_Cons: "ordered (p # xs) \<longleftrightarrow> (\<forall>q\<in>set xs. fst p < fst q) \<and> ordered xs"
  by (auto simp: ordered_def)

lemma ordered_Nil [simp]: "ordered []"
  by (simp add: ordered_def)

text \<open>What surrounds an edge of an internal node is on the sides of the key that the search of the
  node says.\<close>

lemma edge_around:
  assumes n: "wf_node (Suc h) n" and ord: "ordered (inorder n)" and i: "find_key_index key n 0 = Edge i"
  shows "\<forall>p\<in>set (lefts n i). fst p < key" and "\<forall>p\<in>set (rights n i). key < fst p"
    and "ordered (inorder (edges n ! i))"
proof -
  note f = find_key_index_Edge [OF i]
  have "inorder n = lefts n i @ inorder (edges n ! i) @ rights n i"
    using inorder_at [OF n, of i "edges n ! i"] f by (cases n) (simp add: set_edge_def)
  with ord have o: "ordered (lefts n i)" "ordered (inorder (edges n ! i))" "ordered (rights n i)"
    by (simp_all add: ordered_append)
  show "ordered (inorder (edges n ! i))" by (rule o)
  show "\<forall>p\<in>set (lefts n i). fst p < key"
  proof (cases "i = 0")
    case False
    with f obtain xs where xs: "lefts n i = xs @ [(keys n ! (i - 1), vals n ! (i - 1))]"
      using lefts_last [OF n] by auto
    have "keys n ! (i - 1) < key" using f False by simp
    with o(1) show ?thesis by (fastforce simp: xs ordered_append ordered_Cons)
  qed simp
  show "\<forall>p\<in>set (rights n i). key < fst p"
  proof (cases "i < node_len n")
    case True
    obtain xs where xs: "rights n i = (keys n ! i, vals n ! i) # xs" using rights_first [OF n True] .
    with o(3) f True show ?thesis by (fastforce simp: xs ordered_Cons)
  next
    case False
    with rights_len [OF n] show ?thesis by simp
  qed
qed

text \<open>A search keeps the tree, and ends at a pair with the key or at the leaf edge between the
  smaller and the larger keys.\<close>

fun search_ok :: "nat \<Rightarrow> ('k, 'v) node \<Rightarrow> 'k::linorder \<Rightarrow> ('k, 'v) SearchResult \<Rightarrow> bool" where
  "search_ok H t key (Found (n, i, fs)) \<longleftrightarrow>
     (\<exists>h. wf_frames h fs H \<and> wf_node h n \<and> enough h fs (node_len n))
     \<and> i < node_len n \<and> keys n ! i = key \<and> zip_up n fs = t"
| "search_ok H t key (GoDown (n, i, fs)) \<longleftrightarrow>
     wf_frames 0 fs H \<and> wf_node 0 n \<and> enough 0 fs (node_len n) \<and> i \<le> node_len n \<and> zip_up n fs = t
     \<and> (\<forall>p\<in>set (all_left fs @ take i (inorder n)). fst p < key)
     \<and> (\<forall>p\<in>set (drop i (inorder n) @ all_right fs). key < fst p)"

lemma enough_child: "wf_node (Suc h) n \<Longrightarrow> i \<le> node_len n \<Longrightarrow> enough h ((n, i) # fs) (node_len (edges n ! i))"
  using wf_edges [of h n "edges n ! i"] wf_lengths [of "Suc h" n]
  by (auto simp: enough_def node_consts)

lemma above_drop:
  assumes "sorted_wrt (<) (ks :: 'k::linorder list)" and "i < length ks" and "key < ks ! i"
  shows "\<forall>k\<in>set (drop i ks). key < k"
proof -
  have "drop i ks = ks ! i # drop (Suc i) ks" using assms(2) by (simp add: Cons_nth_drop_Suc)
  with sorted_wrt_drop [OF assms(1), of i] assms(3) show ?thesis by auto
qed

lemma search_tree_ok:
  assumes "wf_frames h fs H" and "wf_node h n" and "enough h fs (node_len n)" and "ordered (inorder n)"
    and "\<forall>p\<in>set (all_left fs). fst p < key" and "\<forall>p\<in>set (all_right fs). key < fst p"
  shows "search_ok H (zip_up n fs) key (search_tree key n fs)"
  using assms
proof (induction key n fs arbitrary: h rule: search_tree.induct)
  case (1 key n fs)
  note wf = 1(3) and el = wf_lengths [OF 1(3)]
  show ?case
  proof (cases "find_key_index key n 0")
    case (KV i)
    with 1(2-4) find_key_index_KV [OF KV] show ?thesis by (auto simp: search_tree.simps [of key n])
  next
    case (Edge i)
    note f = find_key_index_Edge [OF Edge]
    show ?thesis
    proof (cases h)
      case 0
      then have e: "edges n = []" using el by simp
      have z: "inorder n = zip (keys n) (vals n)" by (rule inorder_leaf [OF e])
      have o: "sorted_wrt (<) (keys n)" using 1(5) el by (simp add: ordered_def z)
      have "\<forall>k\<in>set (take i (keys n)). k < key" using f by (auto simp: in_set_conv_nth)
      then have l: "\<forall>p\<in>set (take i (inorder n)). fst p < key"
        by (auto simp: z take_zip dest: set_zip_leftD)
      have "\<forall>k\<in>set (drop i (keys n)). key < k"
        using above_drop [OF o, of i key] f by (cases "i < node_len n") auto
      then have r: "\<forall>p\<in>set (drop i (inorder n)). key < fst p"
        by (auto simp: z drop_zip dest: set_zip_leftD)
      from l r 1(2-4,6,7) 0 e f show ?thesis
        by (auto simp: search_tree.simps [of key n] Edge)
    next
      case (Suc h')
      have n: "wf_node (Suc h') n" using wf Suc by simp
      have i: "i < length (edges n)" using wf_lengths [OF n] f by simp
      note ar = edge_around [OF n 1(5) Edge]
      have fr: "wf_frames h' ((n, i) # fs) H"
        using 1(2,4) n f Suc by (simp add: MIN_LEN_def enough_def)
      have e: "wf_node h' (edges n ! i)" using wf_edges [OF n nth_mem [OF i]] by simp
      have "search_ok H (zip_up (edges n ! i) ((n, i) # fs)) key (search_tree key (edges n ! i) ((n, i) # fs))"
        by (rule "1.IH" [OF Edge i fr e enough_child [OF n] ar(3)]) (use f ar 1(6,7) in auto)
      moreover have "set_edge n i (edges n ! i) = n" by (cases n) (simp add: set_edge_def)
      ultimately show ?thesis using i by (simp add: search_tree.simps [of key n] Edge)
    qed
  qed
qed

section \<open>The map as a finite function\<close>

fun tree_height :: "('k, 'v) node \<Rightarrow> nat" where
  "tree_height (Node ks vs []) = 0"
| "tree_height (Node ks vs (e # es)) = Suc (tree_height e)"

lemma tree_height_wf: "wf_node h n \<Longrightarrow> tree_height n = h"
proof (induction n arbitrary: h rule: tree_height.induct)
  case (1 ks vs)
  then show ?case by (cases h) auto
next
  case (2 ks vs e es)
  then show ?case by (cases h) auto
qed

definition pairs :: "('k, 'v) btree_map \<Rightarrow> ('k \<times> 'v) list" where
  "pairs mp = (case root mp of None \<Rightarrow> [] | Some t \<Rightarrow> inorder t)"

definition map_ok :: "('k::linorder, 'v) btree_map \<Rightarrow> bool" where
  "map_ok mp \<longleftrightarrow> (case root mp of None \<Rightarrow> True | Some t \<Rightarrow> wf_root (tree_height t) t)
     \<and> ordered (pairs mp) \<and> map_length mp = length (pairs mp)"

lemma wf_root_height: "wf_root h t \<Longrightarrow> tree_height t = h"
  by (auto simp: wf_root_def tree_height_wf)

lemma wf_root_at_height: "wf_root h t \<Longrightarrow> wf_root (tree_height t) t"
  by (simp add: wf_root_height)

lemma map_of_middle:
  assumes "ordered (xs @ (k, v) # ys)"
  shows "map_of (xs @ (k, v) # ys) = (map_of (xs @ ys))(k \<mapsto> v)"
proof -
  have "k \<notin> fst ` set xs" using assms by (force simp: ordered_append ordered_Cons)
  then show ?thesis by (simp add: map_add_upd_left dom_map_of_conv_image_fst)
qed

lemma map_of_update:
  assumes "ordered (xs @ (k, v) # ys)"
  shows "map_of (xs @ (k, v') # ys) = (map_of (xs @ (k, v) # ys))(k \<mapsto> v')"
proof -
  have "ordered (xs @ (k, v') # ys)" using assms by (simp add: ordered_def)
  from map_of_middle [OF this] map_of_middle [OF assms] show ?thesis by simp
qed

lemma ordered_middle:
  "ordered (xs @ (k, v) # ys) \<longleftrightarrow> ordered (xs @ ys) \<and> (\<forall>p\<in>set xs. fst p < k) \<and> (\<forall>p\<in>set ys. k < fst p)"
  by (auto simp: ordered_append ordered_Cons)

lemma map_of_none:
  assumes "\<forall>p\<in>set xs. fst p < (k :: 'k::linorder)" and "\<forall>p\<in>set ys. k < fst p"
  shows "map_of (xs @ ys) k = None"
  using assms by (force simp: map_of_eq_None_iff)

text \<open>A pair of a node, in the sequence of the node.\<close>

lemma inorder_kv:
  assumes "wf_node h n" and "i < node_len n"
  shows "inorder (Node (keys n) ((vals n)[i := v]) (edges n))
    = inorder (left (split_data i n)) @ (keys n ! i, v) # inorder (right (split_data i n))"
proof -
  let ?n = "Node (keys n) ((vals n)[i := v]) (edges n)"
  have "lens ?n" using wf_lens [OF assms(1)] by (simp add: lens_def)
  then have "inorder ?n = inorder (left (split_data i ?n)) @ kv (split_data i ?n) # inorder (right (split_data i ?n))"
    using inorder_split [of ?n i] assms(2) by simp
  then show ?thesis using assms wf_lengths [OF assms(1)] by (simp add: split_data_def)
qed

lemma pairs_at_found:
  assumes "wf_frames h fs H" and "wf_node h n" and "i < node_len n"
  obtains xs ys where "inorder (zip_up n fs) = xs @ (keys n ! i, vals n ! i) # ys"
    and "inorder (zip_up (Node (keys n) ((vals n)[i := v]) (edges n)) fs) = xs @ (keys n ! i, v) # ys"
proof -
  have n: "Node (keys n) ((vals n)[i := vals n ! i]) (edges n) = n" by (cases n) simp
  show ?thesis
    using that [of "all_left fs @ inorder (left (split_data i n))" "inorder (right (split_data i n)) @ all_right fs"]
      inorder_kv [OF assms(2,3), of v] inorder_kv [OF assms(2,3), of "vals n ! i"]
    by (simp add: zip_up_inorder [OF assms(1)] n)
qed

text \<open>The entry of a key: the pair of the key, or the place where it is missing.\<close>

fun entry_ok :: "nat \<Rightarrow> ('k, 'v) btree_map \<Rightarrow> 'k::linorder \<Rightarrow> ('k, 'v) Entry \<Rightarrow> bool" where
  "entry_ok H mp key (Occupied h) \<longleftrightarrow> (\<exists>t. root mp = Some t \<and> search_ok H t key (Found h))"
| "entry_ok H mp key (Vacant key' None) \<longleftrightarrow> key' = key \<and> root mp = None"
| "entry_ok H mp key (Vacant key' (Some h)) \<longleftrightarrow> key' = key \<and> (\<exists>t. root mp = Some t \<and> search_ok H t key (GoDown h))"

lemma entry_ok_Occupied:
  assumes "entry_ok (case root mp of None \<Rightarrow> 0 | Some t \<Rightarrow> tree_height t) mp key (Occupied h)"
  obtains t where "root mp = Some t" and "search_ok (tree_height t) t key (Found h)"
  using assms by (cases "root mp") (simp_all del: search_ok.simps)

lemma entry_ok_Vacant:
  assumes "entry_ok (case root mp of None \<Rightarrow> 0 | Some t \<Rightarrow> tree_height t) mp key (Vacant key' (Some h))"
  obtains t where "root mp = Some t" and "search_ok (tree_height t) t key (GoDown h)"
  using assms by (cases "root mp") (simp_all del: search_ok.simps)

lemma entry_is_ok:
  assumes "map_ok mp" and "H = (case root mp of None \<Rightarrow> 0 | Some t \<Rightarrow> tree_height t)"
  shows "entry_ok H mp key (entry key mp)"
proof (cases "root mp")
  case (Some t)
  have w: "wf_root H t" "ordered (inorder t)" using assms Some by (simp_all add: map_ok_def pairs_def)
  then have "search_ok H (zip_up t []) key (search_tree key t [])"
    by (intro search_tree_ok [of H]) (simp_all add: wf_root_def enough_def)
  then show ?thesis
    by (cases "search_tree key t []") (simp_all add: entry_def Some del: search_ok.simps)
qed (simp add: entry_def)

text \<open>An insertion or an update is one of the map.\<close>

definition map_changed :: "('k::linorder \<Rightarrow> 'v option) \<Rightarrow> ('k, 'v) btree_map \<Rightarrow> bool" where
  "map_changed f mp \<longleftrightarrow> map_ok mp \<and> map_of (pairs mp) = f"

lemma wf_write: "wf_node h n \<Longrightarrow> wf_node h (Node (keys n) ((vals n)[i := v]) (edges n))"
  by (cases n; cases h) simp_all

lemma occupied_write_changed:
  assumes mp: "map_ok mp" and t: "root mp = Some t" and h: "search_ok H t key (Found (n, i, fs))"
  shows "map_changed ((map_of (pairs mp))(key \<mapsto> f (vals n ! i))) (occupied_write f (n, i, fs) mp)"
    and "map_of (pairs mp) key = Some (vals n ! i)"
proof -
  let ?n = "Node (keys n) ((vals n)[i := f (vals n ! i)]) (edges n)"
  let ?mp = "occupied_write f (n, i, fs) mp"
  obtain h' where fr: "wf_frames h' fs H" "wf_node h' n" "enough h' fs (node_len n)" "i < node_len n"
    and k: "keys n ! i = key" "zip_up n fs = t" using h by auto
  obtain xs ys where old: "inorder t = xs @ (key, vals n ! i) # ys"
    and new: "inorder (zip_up ?n fs) = xs @ (key, f (vals n ! i)) # ys"
    using pairs_at_found [OF fr(1,2,4), of "f (vals n ! i)"] unfolding k by metis
  have o: "ordered (xs @ (key, vals n ! i) # ys)" "map_length mp = Suc (length xs + length ys)"
    using mp t old by (simp_all add: map_ok_def pairs_def)
  have "wf_root H (zip_up ?n fs)"
    by (rule zip_up_wf [OF fr(1) wf_write [OF fr(2)]]) (use fr in simp)
  then have "map_ok ?mp"
    using o wf_root_height [of H "zip_up ?n fs"]
    by (simp add: map_ok_def pairs_def occupied_write_def new ordered_def)
  then show "map_changed ((map_of (pairs mp))(key \<mapsto> f (vals n ! i))) ?mp"
    using map_of_update [OF o(1), of "f (vals n ! i)"] t old new
    by (simp add: map_changed_def pairs_def occupied_write_def)
  have "map_of (pairs mp) = map_of (xs @ (key, vals n ! i) # ys)" by (simp add: pairs_def t old)
  then show "map_of (pairs mp) key = Some (vals n ! i)" by (simp only: map_of_middle [OF o(1)] fun_upd_same)
qed

lemma push_empty_leaf: "leaf_push k v (Node [] [] []) = Some (Node [k] [v] [])"
  by (simp add: leaf_push_def node_consts)

lemma vacant_insert_empty_changed:
  assumes mp: "map_ok mp" and t: "root mp = None" and run: "vacant_insert A key None v mp s = Ok (mp', s')"
  shows "map_changed ((map_of (pairs mp))(key \<mapsto> v)) mp'"
proof -
  obtain ok m' where l: "leaf_new A \<lparr>allocated_memory = map_memory mp, alloc_state = s\<rparr> = (ok, m')" by fastforce
  have "mp' = mp\<lparr>root := Some (Node [key] [v] []), map_length := 1, map_memory := allocated_memory m'\<rparr>"
    using run by (auto simp: vacant_insert_def push_empty_leaf l split: if_splits)
  then show ?thesis
    using t by (simp add: map_changed_def map_ok_def pairs_def wf_root_def node_consts ordered_Cons)
qed

lemma vacant_insert_changed:
  assumes mp: "map_ok mp" and t: "root mp = Some t" and h: "search_ok H t key (GoDown h)"
    and run: "vacant_insert A key (Some h) v mp s = Ok (mp', s')"
  shows "map_changed ((map_of (pairs mp))(key \<mapsto> v)) mp'"
    and "map_of (pairs mp) key = None"
proof -
  obtain n i fs where hd: "h = (n, i, fs)" by (cases h)
  note g = h [unfolded hd search_ok.simps]
  let ?m = "\<lparr>allocated_memory = map_memory mp, alloc_state = s\<rparr>"
  obtain t' m' where ins: "insert_recursing A (n, i, fs) key v ?m = Some (t', m')"
    and mp': "mp' = mp\<lparr>root := Some t', map_length := map_length mp + 1, map_memory := allocated_memory m'\<rparr>"
    using run by (auto simp: vacant_insert_def hd split: option.splits)
  have wf: "wf_root H t' \<or> wf_root (Suc H) t'"
    and io: "inorder t' = all_left fs @ list_insert i (key, v) (inorder n) @ all_right fs"
    using insert_recursing_wf [OF _ _ _ _ ins] g by blast+
  define xs where "xs = all_left fs @ take i (inorder n)"
  define ys where "ys = drop i (inorder n) @ all_right fs"
  have old: "inorder t = xs @ ys"
    using zip_up_inorder [of 0 fs H n] g by (simp add: xs_def ys_def)
  have new: "inorder t' = xs @ (key, v) # ys"
    by (simp add: io list_insert_def xs_def ys_def)
  have b: "\<forall>p\<in>set xs. fst p < key" "\<forall>p\<in>set ys. key < fst p"
    using g by (auto simp: xs_def ys_def)
  have o: "ordered (xs @ ys)" "map_length mp = length xs + length ys"
    using mp t old by (simp_all add: map_ok_def pairs_def)
  have o': "ordered (xs @ (key, v) # ys)" using o b by (simp add: ordered_middle)
  have "wf_root (tree_height t') t'" using wf by (elim disjE) (erule wf_root_at_height)+
  then have "map_ok mp'" using o' o(2) by (simp add: mp' map_ok_def pairs_def new)
  moreover have "map_of (pairs mp') = (map_of (pairs mp))(key \<mapsto> v)"
    using map_of_middle [OF o'] by (simp add: mp' pairs_def new t old)
  ultimately show "map_changed ((map_of (pairs mp))(key \<mapsto> v)) mp'" by (simp add: map_changed_def)
  show "map_of (pairs mp) key = None" using map_of_none [OF b] by (simp add: pairs_def t old)
qed

text \<open>With an allocator that always gives memory an insertion never fails.\<close>

definition always_gives :: "'s allocator \<Rightarrow> bool" where
  "always_gives A \<longleftrightarrow> (\<forall>sz s. fst (self_alloc A sz s))"

lemma always_gives_new:
  assumes "always_gives A"
  obtains m' where "new_box A sz m = (True, m')"
proof -
  obtain ok s' where r: "self_alloc A (recommended_size sz) (alloc_state m) = (ok, s')" by fastforce
  with assms have ok by (metis always_gives_def fst_conv)
  with r show ?thesis using that by (simp add: new_box_def Let_def)
qed

lemma leaf_insert_total:
  assumes "always_gives A"
  shows "\<exists>res m'. leaf_insert A i k v n m = Some (res, m')"
proof -
  obtain m' where "leaf_new A m = (True, m')" using always_gives_new [OF assms] by (auto simp: leaf_new_def)
  then show ?thesis
    by (simp add: leaf_insert_def leaf_split_def split: prod.splits)
qed

lemma internal_insert_total:
  assumes "always_gives A"
  shows "\<exists>res m'. internal_insert A i k v e n m = Some (res, m')"
proof -
  obtain m' where "internal_new A m = (True, m')"
    using always_gives_new [OF assms] by (auto simp: internal_new_def)
  then show ?thesis
    by (simp add: internal_insert_def internal_split_def split: prod.splits)
qed

lemma insert_loop_total:
  assumes "always_gives A"
  shows "\<exists>t m'. insert_loop A split fs m = Some (t, m')"
proof (induction fs arbitrary: split m)
  case Nil
  obtain m' where "internal_new A m = (True, m')"
    using always_gives_new [OF assms] by (auto simp: internal_new_def)
  then show ?case by (simp add: split_root_def push_internal_level_def internal_push_new_root)
next
  case (Cons f fs)
  obtain n i where f: "f = (n, i)" by fastforce
  obtain res m1 where res: "internal_insert A i (fst (kv split)) (snd (kv split)) (right split)
      (set_edge n i (left split)) m = Some (res, m1)"
    using internal_insert_total [OF assms] by metis
  then show ?case using Cons.IH by (cases res) (simp_all add: f)
qed

lemma insert_recursing_total:
  assumes "always_gives A"
  shows "\<exists>t m'. insert_recursing A h k v m = Some (t, m')"
proof -
  obtain n i fs where h: "h = (n, i, fs)" by (cases h)
  obtain res m1 where "leaf_insert A i k v n m = Some (res, m1)"
    using leaf_insert_total [OF assms] by metis
  then show ?thesis
    using insert_loop_total [OF assms] by (cases res) (simp_all add: h insert_recursing_def)
qed

lemma vacant_insert_total:
  assumes "always_gives A"
  shows "\<exists>r. vacant_insert A k h v mp s = Ok r"
proof (cases h)
  case None
  obtain m' where "leaf_new A \<lparr>allocated_memory = map_memory mp, alloc_state = s\<rparr> = (True, m')"
    using always_gives_new [OF assms] by (auto simp: leaf_new_def)
  then show ?thesis by (simp add: vacant_insert_def None push_empty_leaf)
next
  case (Some hd)
  obtain t m' where "insert_recursing A hd k v \<lparr>allocated_memory = map_memory mp, alloc_state = s\<rparr> = Some (t, m')"
    using insert_recursing_total [OF assms] by metis
  then show ?thesis by (simp add: vacant_insert_def Some)
qed

lemma vacant_insert_err: "vacant_insert A k h v mp s = Err \<Longrightarrow> h = None"
  by (cases h) (auto simp: vacant_insert_def split: option.splits)

section \<open>Properties of the map\<close>

lemma entry_or_insert_changed:
  assumes mp: "map_ok mp" and run: "entry_or_insert A key dflt f mp s = Ok (mp', s')"
  shows "map_changed ((map_of (pairs mp))
    (key \<mapsto> f (case map_of (pairs mp) key of None \<Rightarrow> dflt | Some v \<Rightarrow> v))) mp'"
proof -
  note e = entry_is_ok [OF mp refl, of key]
  show ?thesis
  proof (cases "entry key mp")
    case (Occupied h)
    obtain n i fs where h: "h = (n, i, fs)" by (cases h)
    obtain t where t: "root mp = Some t" "search_ok (tree_height t) t key (Found (n, i, fs))"
      using entry_ok_Occupied [OF e [unfolded Occupied h]] .
    have "mp' = occupied_write f h mp" using run Occupied by (simp add: entry_or_insert_def)
    with occupied_write_changed [OF mp t] h show ?thesis by simp
  next
    case (Vacant key' h)
    with e have k: "key' = key" by (cases h) simp_all
    show ?thesis
    proof (cases h)
      case None
      with e Vacant have t: "root mp = None" by simp
      have "vacant_insert A key None (f dflt) mp s = Ok (mp', s')"
        using run Vacant None k by (simp add: entry_or_insert_def)
      from vacant_insert_empty_changed [OF mp t this] t show ?thesis by (simp add: pairs_def)
    next
      case (Some hd)
      obtain t where t: "root mp = Some t" "search_ok (tree_height t) t key (GoDown hd)"
        using entry_ok_Vacant [OF e [unfolded Vacant Some]] .
      have "vacant_insert A key (Some hd) (f dflt) mp s = Ok (mp', s')"
        using run Vacant Some k by (simp add: entry_or_insert_def)
      from vacant_insert_changed [OF mp t this] show ?thesis by simp
    qed
  qed
qed

lemma entry_or_insert_correct:
  assumes "map_ok mp" and "always_gives A"
  shows "\<exists>mp' s'. entry_or_insert A key dflt f mp s = Ok (mp', s') \<and> map_ok mp'
    \<and> map_of (pairs mp') = (map_of (pairs mp))
        (key \<mapsto> f (case map_of (pairs mp) key of None \<Rightarrow> dflt | Some v \<Rightarrow> v))"
proof -
  have "\<exists>r. entry_or_insert A key dflt f mp s = Ok r"
    using vacant_insert_total [OF assms(2)]
    by (cases "entry key mp") (simp_all add: entry_or_insert_def del: split_paired_Ex)
  then obtain mp' s' where run: "entry_or_insert A key dflt f mp s = Ok (mp', s')" by auto
  from entry_or_insert_changed [OF assms(1) run] run show ?thesis by (auto simp: map_changed_def)
qed

text \<open>C4: \<open>*map.entry(key).or_insert(default)? = f(\<dots>)\<close> on a well-formed map gives a well-formed map
  (sorted pairs, balanced tree, node sizes between the minimum and the capacity, the length stored)
  which maps the key to \<open>f\<close> of its old value, or of the default when it had none, and every other
  key as before; with an allocator that always gives memory it never fails.\<close>

theorem entry_or_insert_updates:
  assumes "map_ok mp" and "always_gives A"
  shows "\<exists>mp' s'. entry_or_insert A key dflt f mp s = Ok (mp', s') \<and> map_ok mp'
    \<and> map_of (pairs mp') = (map_of (pairs mp))
        (key \<mapsto> f (case map_of (pairs mp) key of None \<Rightarrow> dflt | Some v \<Rightarrow> v))"
  using assms by (rule entry_or_insert_correct)

definition counting :: "usize allocator" where
  "counting = \<lparr>self_alloc = \<lambda>sz s. (True, s + sz), self_dealloc = \<lambda>sz s. s - sz,
     size_of_leaf = 192, size_of_internal = 288\<rparr>"

definition full_leaf :: "(nat, nat) btree_map" where
  "full_leaf = \<lparr>root = Some (Node [10, 20, 30, 40, 50, 60, 70, 80, 90, 100, 110] (replicate 11 1) []),
     map_length = 11, map_memory = new_memory\<rparr>"

lemma full_leaf_ok: "map_ok full_leaf"
  by code_simp

theorem entry_or_insert_updates_witness:
  "\<exists>mp' s'. entry_or_insert counting 55 0 Suc full_leaf 0 = Ok (mp', s') \<and> map_ok mp' \<and> map_of (pairs mp') 55 = Some 1"
proof -
  have "always_gives counting" by (simp add: always_gives_def counting_def)
  moreover have "map_of (pairs full_leaf) 55 = None" by code_simp
  ultimately show ?thesis
    using entry_or_insert_updates [OF full_leaf_ok, of counting 55 0 Suc 0] by auto
qed

lemma btree_get_correct:
  assumes "map_ok mp"
  shows "btree_get key mp = map_of (pairs mp) key"
proof -
  note e = entry_is_ok [OF assms refl, of key]
  show ?thesis
  proof (cases "entry key mp")
    case (Occupied h)
    obtain n i fs where h: "h = (n, i, fs)" by (cases h)
    obtain t where "root mp = Some t" "search_ok (tree_height t) t key (Found (n, i, fs))"
      using entry_ok_Occupied [OF e [unfolded Occupied h]] .
    from occupied_write_changed(2) [OF assms this] show ?thesis by (simp add: btree_get_def Occupied h)
  next
    case (Vacant key' h)
    have "map_of (pairs mp) key = None"
    proof (cases h)
      case None
      with e Vacant show ?thesis by (simp add: pairs_def)
    next
      case (Some hd)
      obtain n i fs where hd: "hd = (n, i, fs)" by (cases hd)
      obtain t where t: "root mp = Some t" and s: "search_ok (tree_height t) t key (GoDown (n, i, fs))"
        using entry_ok_Vacant [OF e [unfolded Vacant Some hd]] .
      have "inorder t = (all_left fs @ take i (inorder n)) @ (drop i (inorder n) @ all_right fs)"
        using s zip_up_inorder [of 0 fs "tree_height t" n] by auto
      with s map_of_none [of "all_left fs @ take i (inorder n)" key "drop i (inorder n) @ all_right fs"] t
      show ?thesis by (simp add: pairs_def)
    qed
    then show ?thesis by (simp add: btree_get_def Vacant)
  qed
qed

text \<open>C22: a lookup through the entry of a key is the lookup in the map's pairs.\<close>

theorem btree_get_finds:
  assumes "map_ok mp"
  shows "btree_get key mp = map_of (pairs mp) key"
  by (rule btree_get_correct [OF assms])

theorem btree_get_finds_witness: "btree_get 50 full_leaf = Some 1 \<and> btree_get 55 full_leaf = None"
proof -
  have "map_of (pairs full_leaf) 50 = Some 1" "map_of (pairs full_leaf) 55 = None" by code_simp+
  with btree_get_finds [OF full_leaf_ok, of 50] btree_get_finds [OF full_leaf_ok, of 55] show ?thesis by simp
qed

end
