(* ===== verification/BTreeNav.thy ===== *)
theory BTreeNav
  imports BTreeMap
begin

text \<open>
  Moving through the tree (\<open>self_allocated_structs/btree/navigate.rs\<close>, the ascending and descending
  operations of \<open>node.rs\<close> and the iterator of \<open>map.rs\<close>): from a leaf edge to the next or the previous
  pair, from a pair to the next or the previous leaf edge, and the iterator that moves an edge from
  each end of the tree towards the other.
\<close>

section \<open>Navigation\<close>

text \<open>\<open>ascend\<close>: the parent, with this node as its child, and the edge to it.\<close>

definition ascend :: "('k, 'v) node \<Rightarrow> ('k, 'v) frame list \<Rightarrow> ('k, 'v) handle option" where
  "ascend n fs = (case fs of [] \<Rightarrow> None | (p, j) # fs' \<Rightarrow> Some (set_edge p j n, j, fs'))"

definition descend :: "('k, 'v) handle \<Rightarrow> ('k, 'v) node \<times> ('k, 'v) frame list" where
  "descend h = (case h of (n, i, fs) \<Rightarrow> (edges n ! i, (n, i) # fs))"

definition left_kv :: "('k, 'v) handle \<Rightarrow> ('k, 'v) handle option" where
  "left_kv h = (case h of (n, i, fs) \<Rightarrow> if i > 0 then Some (n, i - 1, fs) else None)"

definition right_kv :: "('k, 'v) handle \<Rightarrow> ('k, 'v) handle option" where
  "right_kv h = (case h of (n, i, fs) \<Rightarrow> if i < node_len n then Some (n, i, fs) else None)"

lemma ascend_shorter: "ascend n fs = Some (n', i', fs') \<Longrightarrow> length fs' < length fs"
  by (auto simp: ascend_def split: list.splits)

function next_kv :: "('k, 'v) handle \<Rightarrow> ('k, 'v) handle option" where
  "next_kv (n, i, fs) =
     (case right_kv (n, i, fs) of
        Some h \<Rightarrow> Some h
      | None \<Rightarrow> (case ascend n fs of
          None \<Rightarrow> None
        | Some h \<Rightarrow> next_kv h))"
  by pat_completeness auto

termination
  by (relation "measure (\<lambda>(n, i, fs). length fs)") (auto dest: ascend_shorter)

function next_back_kv :: "('k, 'v) handle \<Rightarrow> ('k, 'v) handle option" where
  "next_back_kv (n, i, fs) =
     (case left_kv (n, i, fs) of
        Some h \<Rightarrow> Some h
      | None \<Rightarrow> (case ascend n fs of
          None \<Rightarrow> None
        | Some h \<Rightarrow> next_back_kv h))"
  by pat_completeness auto

termination
  by (relation "measure (\<lambda>(n, i, fs). length fs)") (auto dest: ascend_shorter)

declare next_kv.simps [simp del] next_back_kv.simps [simp del]

function first_leaf_edge :: "('k, 'v) node \<Rightarrow> ('k, 'v) frame list \<Rightarrow> ('k, 'v) handle" where
  "first_leaf_edge n fs =
     (case edges n of [] \<Rightarrow> (n, 0, fs) | e # es \<Rightarrow> first_leaf_edge e ((n, 0) # fs))"
  by pat_completeness auto

termination
  by (relation "measure (\<lambda>(n, _). size n)") (auto intro: size_edge)

function last_leaf_edge :: "('k, 'v) node \<Rightarrow> ('k, 'v) frame list \<Rightarrow> ('k, 'v) handle" where
  "last_leaf_edge n fs =
     (if edges n = [] then (n, node_len n, fs)
      else last_leaf_edge (last (edges n)) ((n, node_len n) # fs))"
  by pat_completeness auto

termination
  by (relation "measure (\<lambda>(n, _). size n)") (auto intro: size_edge)

declare first_leaf_edge.simps [simp del] last_leaf_edge.simps [simp del]

definition next_leaf_edge :: "('k, 'v) handle \<Rightarrow> ('k, 'v) handle" where
  "next_leaf_edge h =
     (case h of (n, i, fs) \<Rightarrow>
        if edges n = [] then (n, i + 1, fs)
        else case descend (n, i + 1, fs) of (c, fs') \<Rightarrow> first_leaf_edge c fs')"

definition next_back_leaf_edge :: "('k, 'v) handle \<Rightarrow> ('k, 'v) handle" where
  "next_back_leaf_edge h =
     (case h of (n, i, fs) \<Rightarrow>
        if edges n = [] then (n, i, fs)
        else case descend (n, i, fs) of (c, fs') \<Rightarrow> last_leaf_edge c fs')"

definition into_kv :: "('k, 'v) handle \<Rightarrow> 'k \<times> 'v" where
  "into_kv h = (case h of (n, i, fs) \<Rightarrow> (keys n ! i, vals n ! i))"

section \<open>The iterator\<close>

datatype ('k, 'v) LazyLeafHandle = Root "('k, 'v) node" | AtEdge "('k, 'v) handle"

record ('k, 'v) LazyLeafRange =
  front_edge :: "('k, 'v) LazyLeafHandle option"
  back_edge :: "('k, 'v) LazyLeafHandle option"

record ('k, 'v) Iter =
  iter_range :: "('k, 'v) LazyLeafRange"
  iter_length :: nat

definition full_range :: "('k, 'v) node \<Rightarrow> ('k, 'v) LazyLeafRange" where
  "full_range t = \<lparr>front_edge = Some (Root t), back_edge = Some (Root t)\<rparr>"

definition map_iter :: "('k, 'v) btree_map \<Rightarrow> ('k, 'v) Iter" where
  "map_iter mp =
     (case root mp of
        Some t \<Rightarrow> \<lparr>iter_range = full_range t, iter_length = map_length mp\<rparr>
      | None \<Rightarrow> \<lparr>iter_range = \<lparr>front_edge = None, back_edge = None\<rparr>, iter_length = 0\<rparr>)"

fun init_front :: "('k, 'v) LazyLeafHandle \<Rightarrow> ('k, 'v) handle" where
  "init_front (Root t) = first_leaf_edge t []"
| "init_front (AtEdge h) = h"

fun init_back :: "('k, 'v) LazyLeafHandle \<Rightarrow> ('k, 'v) handle" where
  "init_back (Root t) = last_leaf_edge t []"
| "init_back (AtEdge h) = h"

text \<open>\<open>Iter::next\<close> and \<open>Iter::next_back\<close>: the pair, if any, and the iterator; \<open>None\<close> for the whole is
  the panic of an \<open>unwrap\<close>.\<close>

definition iter_next :: "('k, 'v) Iter \<Rightarrow> (('k \<times> 'v) option \<times> ('k, 'v) Iter) option" where
  "iter_next it =
     (if iter_length it = 0 then Some (None, it)
      else case front_edge (iter_range it) of
        None \<Rightarrow> None
      | Some lazy \<Rightarrow> (case next_kv (init_front lazy) of
          None \<Rightarrow> None
        | Some h \<Rightarrow> Some (Some (into_kv h),
            it\<lparr>iter_range := (iter_range it)\<lparr>front_edge := Some (AtEdge (next_leaf_edge h))\<rparr>, iter_length := iter_length it - 1\<rparr>)))"

definition iter_next_back :: "('k, 'v) Iter \<Rightarrow> (('k \<times> 'v) option \<times> ('k, 'v) Iter) option" where
  "iter_next_back it =
     (if iter_length it = 0 then Some (None, it)
      else case back_edge (iter_range it) of
        None \<Rightarrow> None
      | Some lazy \<Rightarrow> (case next_back_kv (init_back lazy) of
          None \<Rightarrow> None
        | Some h \<Rightarrow> Some (Some (into_kv h),
            it\<lparr>iter_range := (iter_range it)\<lparr>back_edge := Some (AtEdge (next_back_leaf_edge h))\<rparr>, iter_length := iter_length it - 1\<rparr>)))"

text \<open>A sequence of calls, \<open>True\<close> for \<open>next_back\<close>: what they return, in order.\<close>

fun iterate :: "bool list \<Rightarrow> ('k, 'v) Iter \<Rightarrow> (('k \<times> 'v) option list \<times> ('k, 'v) Iter) option" where
  "iterate [] it = Some ([], it)"
| "iterate (b # bs) it =
     (case (if b then iter_next_back it else iter_next it) of
        None \<Rightarrow> None
      | Some (r, it') \<Rightarrow> map_option (\<lambda>(rs, it''). (r # rs, it'')) (iterate bs it'))"

section \<open>Positions\<close>

text \<open>What the tree holds before pair \<open>i\<close> of a node, within the subtree of the node.\<close>

definition upto_kv :: "('k, 'v) node \<Rightarrow> nat \<Rightarrow> ('k \<times> 'v) list" where
  "upto_kv n i = inorder (left (split_data i n))"

definition from_kv :: "('k, 'v) node \<Rightarrow> nat \<Rightarrow> ('k \<times> 'v) list" where
  "from_kv n i = inorder (right (split_data i n))"

definition wf_ref :: "nat \<Rightarrow> nat \<Rightarrow> ('k, 'v) node \<Rightarrow> ('k, 'v) frame list \<Rightarrow> bool" where
  "wf_ref H h n fs \<longleftrightarrow> wf_frames h fs H \<and> wf_node h n \<and> enough h fs (node_len n)"

lemma inorder_kv_split:
  "wf_node h n \<Longrightarrow> i < node_len n \<Longrightarrow> inorder n = upto_kv n i @ (keys n ! i, vals n ! i) # from_kv n i"
  using inorder_split [of n i] wf_lens [of h n] by (simp add: upto_kv_def from_kv_def) (simp add: split_data_def)

lemma upto_kv_leaf: "wf_node 0 n \<Longrightarrow> upto_kv n i = take i (inorder n)"
  by (cases n) (simp add: upto_kv_def split_data_def take_zip)

lemma upto_kv_len: "wf_node h n \<Longrightarrow> upto_kv n (node_len n) = inorder n"
  using wf_lengths [of h n] by (cases n; cases h) (simp_all add: upto_kv_def split_data_def)

lemma upto_kv_internal:
  assumes n: "wf_node (Suc h) n" and i: "i \<le> node_len n"
  shows "upto_kv n i = lefts n i @ inorder (edges n ! i)"
proof -
  note l = wf_lengths [OF n]
  have e: "take (Suc i) (edges n) = take i (edges n) @ [edges n ! i]"
    using l i by (simp add: take_Suc_conv_app_nth)
  have "upto_kv n i = inter (map inorder (take i (edges n)) @ [inorder (edges n ! i)])
      (take i (zip (keys n) (vals n)) @ [])"
    by (simp add: upto_kv_def split_data_def e take_zip)
  also have "\<dots> = lefts n i @ inter [inorder (edges n ! i)] []"
    unfolding lefts_def using l i by (intro inter_append) simp
  finally show ?thesis by simp
qed

lemma lefts_Suc:
  assumes n: "wf_node (Suc h) n" and i: "i < node_len n"
  shows "lefts n (Suc i) = upto_kv n i @ [(keys n ! i, vals n ! i)]"
proof -
  note l = wf_lengths [OF n]
  have "lefts n (Suc i) = lefts n i @ inorder (edges n ! i) @ [(keys n ! i, vals n ! i)]"
    using l i by (simp add: lefts_def before_def take_Suc_conv_app_nth)
  with upto_kv_internal [OF n, of i] i show ?thesis by simp
qed

lemma upto_kv_leaf_Suc:
  assumes n: "wf_node 0 n" and i: "i < node_len n"
  shows "upto_kv n (Suc i) = upto_kv n i @ [(keys n ! i, vals n ! i)]"
proof -
  have "inorder n = zip (keys n) (vals n)" using wf_lengths [OF n] by (intro inorder_leaf) simp
  then show ?thesis using i wf_lengths [OF n] by (simp add: upto_kv_leaf [OF n] take_Suc_conv_app_nth)
qed

section \<open>Moving keeps the tree and the place\<close>

lemma wf_ref_frames:
  "wf_ref H h n fs \<Longrightarrow> wf_frames h fs H" "wf_ref H h n fs \<Longrightarrow> wf_node h n"
  "wf_ref H h n fs \<Longrightarrow> enough h fs (node_len n)"
  by (simp_all add: wf_ref_def)

lemma wf_ref_ascend:
  assumes "wf_ref H h n fs" and "ascend n fs = Some (n', i', fs')"
  shows "wf_ref H (Suc h) n' fs'" and "i' \<le> node_len n'" and "zip_up n' fs' = zip_up n fs"
    and "all_left fs = all_left fs' @ lefts n' i'" and "edges n' ! i' = n"
proof -
  obtain p where fs: "fs = (p, i') # fs'" "n' = set_edge p i' n"
    using assms(2) by (auto simp: ascend_def split: list.splits)
  note r = wf_ref_frames [OF assms(1)]
  note fr = wf_framesD [OF r(1) [unfolded fs]] wf_frames_enough [OF r(1) [unfolded fs]]
  have "wf_node (Suc h) n'"
    unfolding fs(2) by (rule wf_set_edge [OF fr(1) r(2)]) (use r(3) in \<open>simp add: enough_def fs\<close>)
  with fr fs show "wf_ref H (Suc h) n' fs'" "i' \<le> node_len n'" "zip_up n' fs' = zip_up n fs"
    by (simp_all add: wf_ref_def)
  show "all_left fs = all_left fs' @ lefts n' i'" by (simp add: fs lefts_def)
  show "edges n' ! i' = n" using wf_lengths [OF fr(1)] fr(2) by (simp add: fs)
qed

lemma wf_ref_descend:
  assumes r: "wf_ref H (Suc h) n fs" and i: "i \<le> node_len n"
  shows "wf_ref H h (edges n ! i) ((n, i) # fs)" and "zip_up (edges n ! i) ((n, i) # fs) = zip_up n fs"
proof -
  note f = wf_ref_frames [OF r]
  have "i < length (edges n)" using wf_lengths [OF f(2)] i by simp
  with wf_edges [OF f(2) nth_mem] f i enough_child [OF f(2) i] show "wf_ref H h (edges n ! i) ((n, i) # fs)"
    by (simp add: wf_ref_def enough_def MIN_LEN_def)
  show "zip_up (edges n ! i) ((n, i) # fs) = zip_up n fs" by (cases n) (simp add: set_edge_def)
qed

lemma leaf_edges: "wf_node h n \<Longrightarrow> edges n = [] \<longleftrightarrow> h = 0"
  by (rule wf_edges_empty)

text \<open>A pair of the tree with what is before it.\<close>

definition at_kv :: "nat \<Rightarrow> ('k, 'v) node \<Rightarrow> ('k, 'v) handle \<Rightarrow> ('k \<times> 'v) list \<Rightarrow> bool" where
  "at_kv H t kh X \<longleftrightarrow> (case kh of (n, i, fs) \<Rightarrow>
     (\<exists>h. wf_ref H h n fs) \<and> i < node_len n \<and> zip_up n fs = t \<and> X = all_left fs @ upto_kv n i)"

text \<open>A leaf edge of the tree with what is before it.\<close>

definition at_edge :: "nat \<Rightarrow> ('k, 'v) node \<Rightarrow> ('k, 'v) handle \<Rightarrow> ('k \<times> 'v) list \<Rightarrow> bool" where
  "at_edge H t kh X \<longleftrightarrow> (case kh of (n, i, fs) \<Rightarrow>
     wf_ref H 0 n fs \<and> i \<le> node_len n \<and> zip_up n fs = t \<and> X = all_left fs @ upto_kv n i)"

lemma at_kv_inorder:
  assumes "at_kv H t (n, i, fs) X"
  shows "inorder t = X @ into_kv (n, i, fs) # (from_kv n i @ all_right fs)"
proof -
  obtain h where h: "wf_ref H h n fs" "i < node_len n" "zip_up n fs = t" "X = all_left fs @ upto_kv n i"
    using assms by (auto simp: at_kv_def)
  with zip_up_inorder [of h fs H n] inorder_kv_split [of h n i] wf_ref_frames [OF h(1)]
  show ?thesis by (auto simp: into_kv_def)
qed

lemma next_kv_at:
  assumes "wf_ref H h n fs" and "i \<le> node_len n" and "zip_up n fs = t" and "X = all_left fs @ upto_kv n i"
  shows "case next_kv (n, i, fs) of Some kh \<Rightarrow> at_kv H t kh X | None \<Rightarrow> X = inorder t"
  using assms
proof (induction "(n, i, fs)" arbitrary: n i fs h rule: next_kv.induct)
  case (1 n i fs)
  show ?case
  proof (cases "i < node_len n")
    case True
    with 1(2-5) show ?thesis by (auto simp: next_kv.simps right_kv_def at_kv_def)
  next
    case False
    with 1(3) have i: "i = node_len n" by simp
    note f = wf_ref_frames [OF 1(2)]
    have X: "X = all_left fs @ inorder n" using 1(5) upto_kv_len [OF f(2)] i by simp
    show ?thesis
    proof (cases "ascend n fs")
      case None
      then have "fs = []" by (cases fs) (auto simp: ascend_def)
      with X 1(4) i show ?thesis by (simp add: next_kv.simps right_kv_def ascend_def)
    next
      case (Some kh)
      obtain n' i' fs' where kh: "kh = (n', i', fs')" by (cases kh)
      note a = wf_ref_ascend [OF 1(2) Some [unfolded kh]]
      have "X = all_left fs' @ upto_kv n' i'"
        using X a upto_kv_internal [OF wf_ref_frames(2) [OF a(1)] a(2)] by simp
      with 1(1) [OF _ Some [unfolded kh] a(1,2)] a 1(4) i Some show ?thesis
        by (simp add: next_kv.simps [of n] right_kv_def kh)
    qed
  qed
qed

text \<open>What is before edge \<open>i\<close> without the child below it.\<close>

definition sofar :: "('k, 'v) node \<Rightarrow> nat \<Rightarrow> ('k \<times> 'v) list" where
  "sofar n i = (case i of 0 \<Rightarrow> [] | Suc j \<Rightarrow> upto_kv n j @ [(keys n ! j, vals n ! j)])"

lemma sofar_lefts: "wf_node (Suc h) n \<Longrightarrow> i \<le> node_len n \<Longrightarrow> sofar n i = lefts n i"
  by (cases i) (simp_all add: sofar_def lefts_Suc)

lemma sofar_leaf: "wf_node 0 n \<Longrightarrow> i \<le> node_len n \<Longrightarrow> sofar n i = upto_kv n i"
  by (cases i) (simp add: sofar_def upto_kv_leaf, simp add: sofar_def upto_kv_leaf_Suc)

lemma next_back_kv_at:
  assumes "wf_ref H h n fs" and "i \<le> node_len n" and "zip_up n fs = t" and "X = all_left fs @ sofar n i"
  shows "case next_back_kv (n, i, fs) of
      Some kh \<Rightarrow> (\<exists>X'. at_kv H t kh X' \<and> X = X' @ [into_kv kh]) | None \<Rightarrow> X = []"
  using assms
proof (induction "(n, i, fs)" arbitrary: n i fs h rule: next_back_kv.induct)
  case (1 n i fs)
  show ?case
  proof (cases i)
    case (Suc j)
    have "at_kv H t (n, j, fs) (all_left fs @ upto_kv n j)"
      using 1(2-4) Suc by (auto simp: at_kv_def)
    then show ?thesis using 1(5) Suc by (auto simp: next_back_kv.simps left_kv_def sofar_def into_kv_def)
  next
    case 0
    with 1(5) have X: "X = all_left fs" by (simp add: sofar_def)
    show ?thesis
    proof (cases "ascend n fs")
      case None
      then have "fs = []" by (cases fs) (auto simp: ascend_def)
      with X 0 show ?thesis by (simp add: next_back_kv.simps left_kv_def ascend_def)
    next
      case (Some kh)
      obtain n' i' fs' where kh: "kh = (n', i', fs')" by (cases kh)
      note a = wf_ref_ascend [OF 1(2) Some [unfolded kh]]
      have "X = all_left fs' @ sofar n' i'"
        using X a sofar_lefts [OF wf_ref_frames(2) [OF a(1)] a(2)] by simp
      with 1(1) [OF _ Some [unfolded kh] a(1,2)] a 1(4) 0 Some show ?thesis
        by (simp add: next_back_kv.simps [of n] left_kv_def kh)
    qed
  qed
qed

lemma first_leaf_edge_at:
  assumes "wf_ref H h n fs"
  shows "at_edge H (zip_up n fs) (first_leaf_edge n fs) (all_left fs)"
  using assms
proof (induction n fs arbitrary: h rule: first_leaf_edge.induct)
  case (1 n fs)
  note f = wf_ref_frames [OF 1(2)]
  show ?case
  proof (cases h)
    case 0
    then have "edges n = []" using leaf_edges [OF f(2)] by simp
    with 0 1(2) f show ?thesis
      by (simp add: first_leaf_edge.simps [of n] at_edge_def upto_kv_leaf)
  next
    case (Suc h')
    then obtain e es where e: "edges n = e # es" using leaf_edges [OF f(2)] by (cases "edges n") auto
    note d = wf_ref_descend [OF 1(2) [unfolded Suc], of 0]
    have "wf_ref H h' e ((n, 0) # fs)" "zip_up e ((n, 0) # fs) = zip_up n fs"
      using d by (simp_all add: e)
    from 1(1) [OF e this(1)] this(2) show ?thesis
      by (simp add: first_leaf_edge.simps [of n] e)
  qed
qed

lemma last_leaf_edge_at:
  assumes "wf_ref H h n fs"
  shows "at_edge H (zip_up n fs) (last_leaf_edge n fs) (all_left fs @ inorder n)"
  using assms
proof (induction n fs arbitrary: h rule: last_leaf_edge.induct)
  case (1 n fs)
  note f = wf_ref_frames [OF 1(2)]
  show ?case
  proof (cases h)
    case 0
    then have "edges n = []" using leaf_edges [OF f(2)] by simp
    with 0 1(2) f show ?thesis
      by (simp add: last_leaf_edge.simps [of n] at_edge_def upto_kv_len)
  next
    case (Suc h')
    then have e: "edges n \<noteq> []" using leaf_edges [OF f(2)] by auto
    note n = f(2) [unfolded Suc] and d = wf_ref_descend [OF 1(2) [unfolded Suc] order_refl]
    have l: "edges n ! node_len n = last (edges n)"
      using wf_lengths [OF n] e by (simp add: last_conv_nth)
    have r: "wf_ref H h' (last (edges n)) ((n, node_len n) # fs)"
      "zip_up (last (edges n)) ((n, node_len n) # fs) = zip_up n fs"
      using d by (simp_all add: l)
    have "inorder n = lefts n (node_len n) @ inorder (last (edges n))"
      using upto_kv_internal [OF n order_refl] upto_kv_len [OF n] l by simp
    with 1(1) [OF e r(1)] r(2) show ?thesis
      by (simp add: last_leaf_edge.simps [of n] e)
  qed
qed

lemma next_leaf_edge_at:
  assumes "at_kv H t kh X"
  shows "at_edge H t (next_leaf_edge kh) (X @ [into_kv kh])"
proof -
  obtain n i fs where kh: "kh = (n, i, fs)" by (cases kh)
  obtain h where h: "wf_ref H h n fs" "i < node_len n" "zip_up n fs = t" "X = all_left fs @ upto_kv n i"
    using assms by (auto simp: at_kv_def kh)
  note f = wf_ref_frames [OF h(1)]
  show ?thesis
  proof (cases h)
    case 0
    then have "edges n = []" using leaf_edges [OF f(2)] by simp
    with 0 h f upto_kv_leaf_Suc [of n i] show ?thesis
      by (simp add: next_leaf_edge_def kh at_edge_def into_kv_def)
  next
    case (Suc h')
    then have e: "edges n \<noteq> []" using leaf_edges [OF f(2)] by auto
    note n = f(2) [unfolded Suc]
    note d = wf_ref_descend [OF h(1) [unfolded Suc], of "Suc i"]
    have "at_edge H (zip_up (edges n ! Suc i) ((n, Suc i) # fs)) (next_leaf_edge kh) (all_left ((n, Suc i) # fs))"
      using first_leaf_edge_at [OF d(1)] h(2) e by (simp add: next_leaf_edge_def descend_def kh)
    with d(2) h lefts_Suc [OF n h(2)] show ?thesis by (simp add: kh into_kv_def)
  qed
qed

lemma next_back_leaf_edge_at:
  assumes "at_kv H t kh X"
  shows "at_edge H t (next_back_leaf_edge kh) X"
proof -
  obtain n i fs where kh: "kh = (n, i, fs)" by (cases kh)
  obtain h where h: "wf_ref H h n fs" "i < node_len n" "zip_up n fs = t" "X = all_left fs @ upto_kv n i"
    using assms by (auto simp: at_kv_def kh)
  note f = wf_ref_frames [OF h(1)]
  show ?thesis
  proof (cases h)
    case 0
    then have "edges n = []" using leaf_edges [OF f(2)] by simp
    with 0 h f show ?thesis by (simp add: next_back_leaf_edge_def kh at_edge_def)
  next
    case (Suc h')
    then have e: "edges n \<noteq> []" using leaf_edges [OF f(2)] by auto
    note n = f(2) [unfolded Suc]
    note d = wf_ref_descend [OF h(1) [unfolded Suc], of i]
    have "at_edge H (zip_up (edges n ! i) ((n, i) # fs)) (next_back_leaf_edge kh)
        (all_left ((n, i) # fs) @ inorder (edges n ! i))"
      using last_leaf_edge_at [OF d(1)] h(2) e by (simp add: next_back_leaf_edge_def descend_def kh)
    with d(2) h upto_kv_internal [OF n, of i] show ?thesis by (simp add: kh)
  qed
qed

section \<open>The iterator is a double-ended queue\<close>

lemma next_from_edge:
  assumes "at_edge H t eh X" and "inorder t = X @ x # ys"
  obtains kh where "next_kv eh = Some kh" and "into_kv kh = x" and "at_edge H t (next_leaf_edge kh) (X @ [x])"
proof -
  obtain n i fs where eh: "eh = (n, i, fs)" by (cases eh)
  have e: "wf_ref H 0 n fs" "i \<le> node_len n" "zip_up n fs = t" "X = all_left fs @ upto_kv n i"
    using assms(1) by (simp_all add: at_edge_def eh)
  have nk: "case next_kv eh of Some kh \<Rightarrow> at_kv H t kh X | None \<Rightarrow> X = inorder t"
    unfolding eh by (rule next_kv_at [OF e])
  have "X \<noteq> inorder t" unfolding assms(2) by simp
  with nk obtain kh where kh: "next_kv eh = Some kh" "at_kv H t kh X"
    by (cases "next_kv eh") simp_all
  obtain n' i' fs' where k: "kh = (n', i', fs')" by (cases kh)
  have x: "into_kv kh = x" using at_kv_inorder [OF kh(2) [unfolded k]] assms(2) by (simp add: k)
  from that [OF kh(1) x] next_leaf_edge_at [OF kh(2)] x show ?thesis by simp
qed

lemma next_back_from_edge:
  assumes "at_edge H t eh (X @ [x])"
  obtains kh where "next_back_kv eh = Some kh" and "into_kv kh = x" and "at_edge H t (next_back_leaf_edge kh) X"
proof -
  obtain n i fs where eh: "eh = (n, i, fs)" by (cases eh)
  have e: "wf_ref H 0 n fs" "i \<le> node_len n" "zip_up n fs = t" "X @ [x] = all_left fs @ upto_kv n i"
    using assms(1) by (simp_all add: at_edge_def eh)
  have s: "X @ [x] = all_left fs @ sofar n i" using sofar_leaf [OF wf_ref_frames(2) [OF e(1)] e(2)] e(4) by simp
  have nk: "case next_back_kv eh of
      Some kh \<Rightarrow> (\<exists>X'. at_kv H t kh X' \<and> X @ [x] = X' @ [into_kv kh]) | None \<Rightarrow> X @ [x] = []"
    unfolding eh by (rule next_back_kv_at [OF e(1-3) s])
  then obtain kh X' where kh: "next_back_kv eh = Some kh" "at_kv H t kh X'" "X @ [x] = X' @ [into_kv kh]"
    by (cases "next_back_kv eh") auto
  from that [OF kh(1)] kh(3) next_back_leaf_edge_at [OF kh(2)] show ?thesis by simp
qed

text \<open>The iterator with \<open>mid\<close> left to yield.\<close>

definition iter_ok :: "nat \<Rightarrow> ('k, 'v) node \<Rightarrow> ('k, 'v) Iter \<Rightarrow> ('k \<times> 'v) list \<Rightarrow> ('k \<times> 'v) list \<Rightarrow> ('k \<times> 'v) list \<Rightarrow> bool" where
  "iter_ok H t it pre mid post \<longleftrightarrow> inorder t = pre @ mid @ post \<and> iter_length it = length mid
     \<and> (\<exists>l. front_edge (iter_range it) = Some l \<and> at_edge H t (init_front l) pre)
     \<and> (\<exists>l. back_edge (iter_range it) = Some l \<and> at_edge H t (init_back l) (pre @ mid))"

fun both_ends :: "bool list \<Rightarrow> 'a list \<Rightarrow> 'a option list" where
  "both_ends [] xs = []"
| "both_ends (b # bs) [] = None # both_ends bs []"
| "both_ends (b # bs) (x # xs) =
     (if b then Some (last (x # xs)) # both_ends bs (butlast (x # xs)) else Some x # both_ends bs xs)"

lemma iter_next_ok:
  assumes "iter_ok H t it pre (x # mid) post"
  shows "\<exists>it'. iter_next it = Some (Some x, it') \<and> iter_ok H t it' (pre @ [x]) mid post"
proof -
  note i = assms [unfolded iter_ok_def]
  then obtain l where l: "front_edge (iter_range it) = Some l" "at_edge H t (init_front l) pre" by auto
  from next_from_edge [OF l(2), of x "mid @ post"] i obtain kh where
    kh: "next_kv (init_front l) = Some kh" "into_kv kh = x" "at_edge H t (next_leaf_edge kh) (pre @ [x])" by auto
  with i l show ?thesis by (auto simp: iter_next_def iter_ok_def)
qed

lemma iter_next_back_ok:
  assumes "iter_ok H t it pre (mid @ [x]) post"
  shows "\<exists>it'. iter_next_back it = Some (Some x, it') \<and> iter_ok H t it' pre mid (x # post)"
proof -
  note i = assms [unfolded iter_ok_def]
  then obtain l where l: "back_edge (iter_range it) = Some l" "at_edge H t (init_back l) ((pre @ mid) @ [x])" by auto
  from next_back_from_edge [OF l(2)] obtain kh where
    kh: "next_back_kv (init_back l) = Some kh" "into_kv kh = x" "at_edge H t (next_back_leaf_edge kh) (pre @ mid)" by auto
  with i l show ?thesis by (auto simp: iter_next_back_def iter_ok_def)
qed

lemma iterate_empty: "iter_length it = 0 \<Longrightarrow> iterate bs it = Some (both_ends bs [], it)"
  by (induction bs) (simp_all add: iter_next_def iter_next_back_def)

lemma iterate_ok:
  "iter_ok H t it pre mid post \<Longrightarrow> \<exists>it'. iterate bs it = Some (both_ends bs mid, it')"
proof (induction bs arbitrary: it pre mid post)
  case (Cons b bs)
  show ?case
  proof (cases mid)
    case Nil
    with Cons.prems have "iter_length it = 0" by (simp add: iter_ok_def)
    from iterate_empty [OF this, of "b # bs"] Nil show ?thesis by blast
  next
    case m: (Cons x xs)
    show ?thesis
    proof (cases b)
      case True
      have "iter_ok H t it pre (butlast mid @ [last mid]) post"
        using Cons.prems m by (simp only: append_butlast_last_id list.distinct(2) simp_thms)
      from iter_next_back_ok [OF this] obtain it' where
        it': "iter_next_back it = Some (Some (last mid), it')" "iter_ok H t it' pre (butlast mid) (last mid # post)" by blast
      from Cons.IH [OF it'(2)] it'(1) True m show ?thesis by auto
    next
      case False
      from iter_next_ok [OF Cons.prems [unfolded m]] obtain it' where
        it': "iter_next it = Some (Some x, it')" "iter_ok H t it' (pre @ [x]) xs post" by blast
      from Cons.IH [OF it'(2)] it'(1) False m show ?thesis by auto
    qed
  qed
qed simp

lemma map_iter_ok:
  assumes "map_ok mp" and "root mp = Some t"
  shows "iter_ok (tree_height t) t (map_iter mp) [] (pairs mp) []"
proof -
  have w: "wf_root (tree_height t) t" "map_length mp = length (inorder t)"
    using assms by (simp_all add: map_ok_def pairs_def)
  then have r: "wf_ref (tree_height t) (tree_height t) t []"
    by (simp add: wf_ref_def wf_root_def enough_def)
  from first_leaf_edge_at [OF r] last_leaf_edge_at [OF r] w assms(2) show ?thesis
    by (simp add: iter_ok_def map_iter_def full_range_def pairs_def)
qed

text \<open>C19: the iterator of a well-formed map behaves as a double-ended queue that holds the pairs in
  increasing order of keys: any interleaving of \<open>next\<close> and \<open>next_back\<close> yields the pairs from both ends,
  then \<open>None\<close>; the edges it moves through the tree are always there and no \<open>unwrap\<close> panics.\<close>

theorem iterator_yields_pairs:
  assumes "map_ok mp"
  shows "\<exists>it'. iterate bs (map_iter mp) = Some (both_ends bs (pairs mp), it') \<and> ordered (pairs mp)"
proof (cases "root mp")
  case None
  then have "iter_length (map_iter mp) = 0" "pairs mp = []" by (simp_all add: map_iter_def pairs_def)
  from iterate_empty [OF this(1), of bs] this(2) show ?thesis by auto
next
  case (Some t)
  from iterate_ok [OF map_iter_ok [OF assms Some], of bs] assms show ?thesis by (auto simp: map_ok_def)
qed

definition two_level :: "(nat, nat) btree_map" where
  "two_level = \<lparr>root = Some (Node [60] [6] [Node [10, 20, 30, 40, 50] [1, 2, 3, 4, 5] [],
     Node [70, 80, 90, 100, 110, 120] [7, 8, 9, 10, 11, 12] []]), map_length = 12, map_memory = new_memory\<rparr>"

lemma two_level_ok: "map_ok two_level"
  by code_simp

theorem iterator_yields_pairs_witness:
  "\<exists>it'. iterate [False, True, True, False] (map_iter two_level)
     = Some ([Some (10, 1), Some (120, 12), Some (110, 11), Some (20, 2)], it')"
proof -
  have "both_ends [False, True, True, False] (pairs two_level)
      = [Some (10, 1), Some (120, 12), Some (110, 11), Some (20, 2)]" by code_simp
  with iterator_yields_pairs [OF two_level_ok, of "[False, True, True, False]"] show ?thesis by auto
qed

end
