(* ===== verification/BTreeRemove.thy ===== *)
theory BTreeRemove
  imports BTreeNav
begin

text \<open>
  Removal from the tree (\<open>self_allocated_structs/btree/remove.rs\<close>, \<open>fix.rs\<close>, the merging and stealing
  operations of \<open>node.rs\<close> and \<open>OccupiedEntry::remove_kv\<close> of \<open>entry.rs\<close>): a pair is removed from its leaf,
  an underfull leaf is merged with or refilled from a sibling, then its ancestors, and a root left
  without keys is popped.

  A handle that the source keeps while the tree changes around it is a path: the indices of the
  edges from the node at hand down to the leaf edge. Where a merge or a steal moves the edges of
  the node by \<open>d\<close>, the first index moves with them.
\<close>

section \<open>The operations\<close>

fun shift :: "nat \<Rightarrow> nat list \<Rightarrow> nat list" where
  "shift d [] = []"
| "shift d (i # is) = (d + i) # is"

text \<open>A node with its ancestors and a path below it.\<close>

type_synonym ('k, 'v) tracked = "('k, 'v) node \<times> nat list \<times> ('k, 'v) frame list"

text \<open>\<open>fix_node_through_parent\<close>: \<open>Fixed\<close> is \<open>Ok(None)\<close>, \<open>Shrunk\<close> is \<open>Ok(Some(parent))\<close> at that parent,
  \<open>EmptyRoot\<close> is \<open>Err(root)\<close>.\<close>

datatype ('k, 'v) fix_result =
    Fixed "('k, 'v) tracked"
  | Shrunk "('k, 'v) tracked"
  | EmptyRoot "('k, 'v) node" "nat list"

definition merge_left ::
  "'s allocator \<Rightarrow> ('k, 'v) BalancingContext \<Rightarrow> nat list \<Rightarrow> ('k, 'v) frame list \<Rightarrow> 's bmem \<Rightarrow> (('k, 'v) tracked \<times> 's bmem) option" where
  "merge_left A c path fs m =
     (case do_merge A c m of
        None \<Rightarrow> None
      | Some (p, child, m') \<Rightarrow> Some ((p, parent_idx c # shift (node_len (left_child c) + 1) path, fs), m'))"

definition merge_right ::
  "'s allocator \<Rightarrow> ('k, 'v) BalancingContext \<Rightarrow> nat list \<Rightarrow> ('k, 'v) frame list \<Rightarrow> 's bmem \<Rightarrow> (('k, 'v) tracked \<times> 's bmem) option" where
  "merge_right A c path fs m =
     (case do_merge A c m of
        None \<Rightarrow> None
      | Some (p, child, m') \<Rightarrow> Some ((p, parent_idx c # path, fs), m'))"

definition steal_from_left ::
  "nat \<Rightarrow> ('k, 'v) BalancingContext \<Rightarrow> nat list \<Rightarrow> ('k, 'v) frame list \<Rightarrow> ('k, 'v) tracked option" where
  "steal_from_left count c path fs =
     (case bulk_steal_left count c of
        None \<Rightarrow> None
      | Some c' \<Rightarrow> Some (put_children c', (parent_idx c + 1) # shift count path, fs))"

definition steal_from_right ::
  "nat \<Rightarrow> ('k, 'v) BalancingContext \<Rightarrow> nat list \<Rightarrow> ('k, 'v) frame list \<Rightarrow> ('k, 'v) tracked option" where
  "steal_from_right count c path fs =
     (case bulk_steal_right count c of
        None \<Rightarrow> None
      | Some c' \<Rightarrow> Some (put_children c', parent_idx c # path, fs))"

definition fix_node_through_parent ::
  "'s allocator \<Rightarrow> ('k, 'v) tracked \<Rightarrow> 's bmem \<Rightarrow> (('k, 'v) fix_result \<times> 's bmem) option" where
  "fix_node_through_parent A tr m =
     (case tr of (n, path, fs) \<Rightarrow>
        let len = node_len n in
        if len \<ge> MIN_LEN then Some (Fixed tr, m)
        else case fs of
          [] \<Rightarrow> if len > 0 then Some (Fixed tr, m) else Some (EmptyRoot n path, m)
        | (p, i) # fs' \<Rightarrow>
            (case choose_parent_kv (set_edge p i n) i of
               None \<Rightarrow> None
             | Some (Inl left_parent_kv) \<Rightarrow>
                 if can_merge left_parent_kv
                 then map_option (\<lambda>(tr', m'). (Shrunk tr', m')) (merge_left A left_parent_kv path fs' m)
                 else map_option (\<lambda>tr'. (Fixed tr', m)) (steal_from_left (MIN_LEN - len) left_parent_kv path fs')
             | Some (Inr right_parent_kv) \<Rightarrow>
                 if can_merge right_parent_kv
                 then map_option (\<lambda>(tr', m'). (Shrunk tr', m')) (merge_right A right_parent_kv path fs' m)
                 else map_option (\<lambda>tr'. (Fixed tr', m)) (steal_from_right (MIN_LEN - len) right_parent_kv path fs')))"

text \<open>A tree with a path from its root.\<close>

definition whole :: "('k, 'v) tracked \<Rightarrow> ('k, 'v) node \<times> nat list" where
  "whole tr = (case tr of (n, path, fs) \<Rightarrow> (zip_up n fs, rev (map snd fs) @ path))"

lemma merge_frames:
  "merge_left A c path fs m = Some (tr, m') \<Longrightarrow> snd (snd tr) = fs"
  "merge_right A c path fs m = Some (tr, m') \<Longrightarrow> snd (snd tr) = fs"
  by (auto simp: merge_left_def merge_right_def split: option.splits)

lemma fix_shrinks:
  "fix_node_through_parent A (n, path, fs) m = Some (Shrunk tr, m') \<Longrightarrow> length (snd (snd tr)) < length fs"
  by (auto simp: fix_node_through_parent_def Let_def dest: merge_frames
    split: if_splits list.splits option.splits sum.splits)

text \<open>\<open>fix_node_and_affected_ancestors\<close>: the tree with the path, and whether it could be fixed.\<close>

function fix_node_and_affected_ancestors ::
  "'s allocator \<Rightarrow> ('k, 'v) tracked \<Rightarrow> 's bmem \<Rightarrow> ((('k, 'v) node \<times> nat list) \<times> bool \<times> 's bmem) option" where
  "fix_node_and_affected_ancestors A tr m =
     (case fix_node_through_parent A tr m of
        None \<Rightarrow> None
      | Some (Shrunk p, m') \<Rightarrow> fix_node_and_affected_ancestors A p m'
      | Some (Fixed tr', m') \<Rightarrow> Some (whole tr', True, m')
      | Some (EmptyRoot n path, m') \<Rightarrow> Some ((n, path), False, m'))"
  by pat_completeness auto

termination
proof (relation "measure (\<lambda>(A, tr, m). length (snd (snd tr)))")
  fix A :: "'s allocator" and tr :: "('k, 'v) tracked" and m p m' x y
  assume "fix_node_through_parent A tr m = Some x" and "(y, m') = x" and "y = Shrunk p"
  then show "((A, p, m'), A, tr, m) \<in> measure (\<lambda>(A, tr, m). length (snd (snd tr)))"
    by (cases tr) (auto dest: fix_shrinks)
qed simp

declare fix_node_and_affected_ancestors.simps [simp del]

text \<open>\<open>remove_leaf_kv\<close> on a pair of a leaf: the pair, the tree with the path to the edge where it was,
  and whether the root was emptied. The source finds the parent of the underfull leaf by
  \<open>choose_parent_kv\<close>, merges (\<open>merge_tracking_child_edge\<close>) or steals one pair, and fixes the parent.\<close>

definition fix_leaf ::
  "'s allocator \<Rightarrow> ('k, 'v) node \<Rightarrow> nat \<Rightarrow> ('k, 'v) frame list \<Rightarrow> 's bmem \<Rightarrow> (('k, 'v) tracked \<times> 's bmem) option" where
  "fix_leaf A n idx fs m =
     (case fs of
        [] \<Rightarrow> Some ((n, [idx], []), m)
      | (p, i) # fs' \<Rightarrow>
          (case choose_parent_kv (set_edge p i n) i of
             None \<Rightarrow> None
           | Some (Inl left_parent_kv) \<Rightarrow>
               if can_merge left_parent_kv
               then if idx \<le> node_len (right_child left_parent_kv)
                    then merge_left A left_parent_kv [idx] fs' m else None
               else map_option (\<lambda>tr. (tr, m)) (steal_from_left 1 left_parent_kv [idx] fs')
           | Some (Inr right_parent_kv) \<Rightarrow>
               if can_merge right_parent_kv
               then if idx \<le> node_len (left_child right_parent_kv)
                    then merge_right A right_parent_kv [idx] fs' m else None
               else map_option (\<lambda>tr. (tr, m)) (steal_from_right 1 right_parent_kv [idx] fs')))"

definition remove_leaf_kv ::
  "'s allocator \<Rightarrow> ('k, 'v) handle \<Rightarrow> 's bmem \<Rightarrow> (('k \<times> 'v) \<times> (('k, 'v) node \<times> nat list) \<times> bool \<times> 's bmem) option" where
  "remove_leaf_kv A kh m =
     (case kh of (leaf, idx, fs) \<Rightarrow>
        case leaf_remove idx leaf of (old_kv, n) \<Rightarrow>
          if node_len n < MIN_LEN then
            (case fix_leaf A n idx fs m of
               None \<Rightarrow> None
             | Some (tr, m') \<Rightarrow>
                 if fs = [] then Some (old_kv, whole tr, False, m')
                 else (case fix_node_and_affected_ancestors A tr m' of
                     None \<Rightarrow> None
                   | Some (t, ok, m'') \<Rightarrow> Some (old_kv, t, \<not> ok, m'')))
          else Some (old_kv, whole (n, [idx], fs), False, m))"

text \<open>The leaf edge at the end of a path.\<close>

fun follow :: "('k, 'v) node \<Rightarrow> nat list \<Rightarrow> ('k, 'v) frame list \<Rightarrow> ('k, 'v) handle" where
  "follow n [] fs = (n, 0, fs)"
| "follow n [i] fs = (n, i, fs)"
| "follow n (i # j # is) fs = follow (edges n ! i) (j # is) ((n, i) # fs)"

definition replace_kv :: "'k \<times> 'v \<Rightarrow> ('k, 'v) handle \<Rightarrow> ('k \<times> 'v) \<times> ('k, 'v) handle" where
  "replace_kv q kh =
     (case kh of (n, i, fs) \<Rightarrow>
        (into_kv kh, (Node ((keys n)[i := fst q]) ((vals n)[i := snd q]) (edges n), i, fs)))"

text \<open>\<open>remove_internal_kv\<close>: the last pair of the subtree to the left takes the place of the pair.\<close>

definition remove_internal_kv ::
  "'s allocator \<Rightarrow> ('k, 'v) handle \<Rightarrow> 's bmem \<Rightarrow> (('k \<times> 'v) \<times> ('k, 'v) node \<times> bool \<times> 's bmem) option" where
  "remove_internal_kv A kh m =
     (case descend kh of (c, fs') \<Rightarrow>
        case left_kv (last_leaf_edge c fs') of
          None \<Rightarrow> None
        | Some left_leaf_kv \<Rightarrow>
            (case remove_leaf_kv A left_leaf_kv m of
               None \<Rightarrow> None
             | Some (lkv, (t, path), emptied, m') \<Rightarrow>
                 (case next_kv (follow t path []) of
                    None \<Rightarrow> None
                  | Some internal \<Rightarrow>
                      (case replace_kv lkv internal of
                         (old_kv, (n, i, fs)) \<Rightarrow> Some (old_kv, zip_up n fs, emptied, m')))))"

definition remove_kv_tracking ::
  "'s allocator \<Rightarrow> ('k, 'v) handle \<Rightarrow> 's bmem \<Rightarrow> (('k \<times> 'v) \<times> ('k, 'v) node \<times> bool \<times> 's bmem) option" where
  "remove_kv_tracking A kh m =
     (case kh of (n, i, fs) \<Rightarrow>
        if edges n = []
        then map_option (\<lambda>(old_kv, (t, path), emptied, m'). (old_kv, t, emptied, m')) (remove_leaf_kv A kh m)
        else remove_internal_kv A kh m)"

definition pop_internal_level ::
  "'s allocator \<Rightarrow> ('k, 'v) node \<Rightarrow> 's bmem \<Rightarrow> (('k, 'v) node \<times> 's bmem) option" where
  "pop_internal_level A t m =
     (case edges t of [] \<Rightarrow> None | e # es \<Rightarrow> Some (e, node_dealloc A (size_of_internal A) m))"

text \<open>\<open>remove_kv\<close> of an occupied entry.\<close>

definition occupied_remove ::
  "'s allocator \<Rightarrow> ('k, 'v) handle \<Rightarrow> ('k, 'v) btree_map \<Rightarrow> 's \<Rightarrow> (('k \<times> 'v) \<times> ('k, 'v) btree_map \<times> 's) option" where
  "occupied_remove A kh mp s =
     (case remove_kv_tracking A kh \<lparr>allocated_memory = map_memory mp, alloc_state = s\<rparr> of
        None \<Rightarrow> None
      | Some (old_kv, t, emptied_internal_root, m') \<Rightarrow>
          map_option (\<lambda>(t', m''). (old_kv,
            mp\<lparr>root := Some t', map_length := map_length mp - 1, map_memory := allocated_memory m''\<rparr>, alloc_state m''))
          (if emptied_internal_root then pop_internal_level A t m' else Some (t, m')))"

definition remove_entry ::
  "'s allocator \<Rightarrow> 'k::linorder \<Rightarrow> ('k, 'v) btree_map \<Rightarrow> 's \<Rightarrow> (('k \<times> 'v) option \<times> ('k, 'v) btree_map \<times> 's) option" where
  "remove_entry A key mp s =
     (case root mp of
        None \<Rightarrow> Some (None, mp, s)
      | Some t \<Rightarrow> (case search_tree key t [] of
          Found kh \<Rightarrow> map_option (\<lambda>(old_kv, mp', s'). (Some old_kv, mp', s')) (occupied_remove A kh mp s)
        | GoDown _ \<Rightarrow> Some (None, mp, s)))"

definition map_remove ::
  "'s allocator \<Rightarrow> 'k::linorder \<Rightarrow> ('k, 'v) btree_map \<Rightarrow> 's \<Rightarrow> ('v option \<times> ('k, 'v) btree_map \<times> 's) option" where
  "map_remove A key mp s = map_option (\<lambda>(r, mp', s'). (map_option snd r, mp', s')) (remove_entry A key mp s)"

section \<open>Paths\<close>

fun vpath :: "nat \<Rightarrow> ('k, 'v) node \<Rightarrow> nat list \<Rightarrow> bool" where
  "vpath h n [] \<longleftrightarrow> False"
| "vpath 0 n (i # is) \<longleftrightarrow> i \<le> node_len n \<and> is = []"
| "vpath (Suc h) n (i # is) \<longleftrightarrow> i \<le> node_len n \<and> vpath h (edges n ! i) is"

fun pos_left :: "('k, 'v) node \<Rightarrow> nat list \<Rightarrow> ('k \<times> 'v) list" where
  "pos_left n [] = []"
| "pos_left n (i # is) = sofar n i @ pos_left (edges n ! i) is"

lemma left_split_join:
  assumes l: "wf_node h l" and r: "wf_node h r"
  shows "j \<le> node_len l \<Longrightarrow> left (split_data j (join l p r)) = left (split_data j l)"
    and "left (split_data (Suc (node_len l + j)) (join l p r)) = join l p (left (split_data j r))"
proof -
  note wl = wf_lengths [OF l] and wr = wf_lengths [OF r]
  show "left (split_data j (join l p r)) = left (split_data j l)" if "j \<le> node_len l"
  proof (cases "h = 0")
    case True
    then have "edges l = []" "edges r = []" using wl wr by simp_all
    then show ?thesis using that wl by (simp add: join_def split_data_def)
  next
    case False
    then have "length (edges l) = Suc (node_len l)" using wl by simp
    then show ?thesis using that wl by (simp add: join_def split_data_def)
  qed
  show "left (split_data (Suc (node_len l + j)) (join l p r)) = join l p (left (split_data j r))"
  proof (cases "h = 0")
    case True
    then have "edges l = []" "edges r = []" using wl wr by simp_all
    then show ?thesis using wl by (simp add: join_def split_data_def)
  next
    case False
    then have "length (edges l) = Suc (node_len l)" using wl by simp
    then show ?thesis using wl by (simp add: join_def split_data_def)
  qed
qed

lemma inorder_join_left:
  assumes "wf_node h l" and "wf_node h r" and "j < node_len r"
  shows "inorder (join l p (left (split_data j r))) = inorder l @ p # upto_kv r j"
proof -
  have "lens (left (split_data j r))" using wf_lens [OF wf_split(1) [OF assms(2,3)]] .
  moreover have "edges (left (split_data j r)) = [] \<longleftrightarrow> edges l = []"
    using wf_edges_empty [OF assms(1)] wf_edges_empty [OF wf_split(1) [OF assms(2,3)]] by simp
  ultimately show ?thesis
    unfolding upto_kv_def by (intro inorder_join_lens wf_lens [OF assms(1)]) simp_all
qed

lemma join_kv:
  assumes "wf_node h l"
  shows "j < node_len l \<Longrightarrow> keys (join l p r) ! j = keys l ! j \<and> vals (join l p r) ! j = vals l ! j"
    and "keys (join l p r) ! node_len l = fst p \<and> vals (join l p r) ! node_len l = snd p"
    and "keys (join l p r) ! Suc (node_len l + j) = keys r ! j \<and> vals (join l p r) ! Suc (node_len l + j) = vals r ! j"
  using wf_lengths [OF assms] by (simp_all add: join_def nth_append)

lemma sofar_join_left:
  assumes "wf_node h l" and "wf_node h r" and "j \<le> node_len l"
  shows "sofar (join l p r) j = sofar l j"
  using assms left_split_join(1) [OF assms(1,2)] join_kv(1) [OF assms(1)]
  by (cases j) (simp_all add: sofar_def upto_kv_def)

lemma sofar_join_right:
  assumes l: "wf_node h l" and r: "wf_node h r" and j: "j \<le> node_len r"
  shows "sofar (join l p r) (Suc (node_len l + j)) = inorder l @ p # sofar r j"
proof (cases j)
  case 0
  have "upto_kv (join l p r) (node_len l) = inorder l"
    using left_split_join(1) [OF l r order_refl] upto_kv_len [OF l] by (simp add: upto_kv_def)
  then show ?thesis using join_kv(2) [OF l, of p r] 0 by (simp add: sofar_def)
next
  case (Suc i)
  have "upto_kv (join l p r) (Suc (node_len l + i)) = inorder l @ p # upto_kv r i"
    using inorder_join_left [OF l r, of i p] left_split_join(2) [OF l r, of i p] Suc j
    by (simp add: upto_kv_def)
  then show ?thesis using join_kv(3) [OF l, of p r i] Suc by (simp add: sofar_def)
qed

lemma edges_join:
  assumes "wf_node (Suc h) l"
  shows "j \<le> node_len l \<Longrightarrow> edges (join l p r) ! j = edges l ! j"
    and "edges (join l p r) ! Suc (node_len l + j) = edges r ! j"
  using wf_lengths [OF assms] by (simp_all add: join_def nth_append)

lemma path_join_left:
  assumes l: "wf_node h l" and r: "wf_node h r" and v: "vpath h l path"
  shows "vpath h (join l p r) path" and "pos_left (join l p r) path = pos_left l path"
proof -
  obtain i "is" where path: "path = i # is" using v by (cases path) auto
  show "vpath h (join l p r) path"
    using v edges_join(1) [of "h - 1" l i p r] l path by (cases h) simp_all
  show "pos_left (join l p r) path = pos_left l path"
    using v edges_join(1) [of "h - 1" l i p r] sofar_join_left [OF l r, of i p] l path by (cases h) simp_all
qed

lemma path_join_right:
  assumes l: "wf_node h l" and r: "wf_node h r" and v: "vpath h r path" and d: "d = Suc (node_len l)"
  shows "vpath h (join l p r) (shift d path)"
    and "pos_left (join l p r) (shift d path) = inorder l @ p # pos_left r path"
proof -
  obtain i "is" where path: "path = i # is" using v by (cases path) auto
  show "vpath h (join l p r) (shift d path)"
    using v edges_join(2) [of "h - 1" l p r i] l path d by (cases h) simp_all
  show "pos_left (join l p r) (shift d path) = inorder l @ p # pos_left r path"
    using v edges_join(2) [of "h - 1" l p r i] sofar_join_right [OF l r, of i p] l path d by (cases h) simp_all
qed

section \<open>Two neighbouring children\<close>

lemma lefts_set_edge: "j \<le> i \<Longrightarrow> lefts (set_edge n i e) j = lefts n j"
  by (simp add: lefts_def)

lemma rights_set_edge: "i \<le> j \<Longrightarrow> rights (set_edge n i e) j = rights n j"
  by (simp add: rights_def)

text \<open>The parent after a merge, and after a steal.\<close>

definition merged :: "('k, 'v) node \<Rightarrow> nat \<Rightarrow> ('k, 'v) node \<Rightarrow> ('k, 'v) node" where
  "merged p idx c = Node (list_remove idx (keys p)) (list_remove idx (vals p)) ((list_remove (idx + 1) (edges p))[idx := c])"

definition restocked :: "('k, 'v) node \<Rightarrow> nat \<Rightarrow> ('k, 'v) node \<Rightarrow> 'k \<times> 'v \<Rightarrow> ('k, 'v) node \<Rightarrow> ('k, 'v) node" where
  "restocked p idx l q r = Node ((keys p)[idx := fst q]) ((vals p)[idx := snd q]) ((edges p)[idx := l, idx + 1 := r])"

lemma length_list_remove [simp]: "i < length xs \<Longrightarrow> length (list_remove i xs) = length xs - 1"
  by (simp add: list_remove_def)

lemma set_list_remove: "set (list_remove i xs) \<subseteq> set xs"
  by (auto simp: list_remove_def dest: in_set_takeD in_set_dropD)

lemma take_list_remove: "j \<le> i \<Longrightarrow> i < length xs \<Longrightarrow> take j (list_remove i xs) = take j xs"
  by (simp add: list_remove_def)

lemma drop_list_remove: "i \<le> j \<Longrightarrow> i < length xs \<Longrightarrow> drop j (list_remove i xs) = drop (Suc j) xs"
  by (simp add: list_remove_def add.commute)

lemma zip_list_remove:
  "length xs = length ys \<Longrightarrow> zip (list_remove i xs) (list_remove i ys) = list_remove i (zip xs ys)"
  by (simp add: list_remove_def take_zip drop_zip zip_append)

lemma wf_node_SucI:
  assumes "length (edges n) = Suc (node_len n)" and "length (vals n) = node_len n" and "node_len n \<le> CAPACITY"
    and "\<And>e. e \<in> set (edges n) \<Longrightarrow> wf_node h e \<and> MIN_LEN_AFTER_SPLIT \<le> node_len e"
  shows "wf_node (Suc h) n"
  using assms by (cases n) auto

lemma merged_facts:
  assumes p: "wf_node (Suc h) p" and i: "idx < node_len p" and c: "wf_node h c" "MIN_LEN_AFTER_SPLIT \<le> node_len c"
  shows "wf_node (Suc h) (merged p idx c)" and "inorder (merged p idx c) = lefts p idx @ inorder c @ rights p (Suc idx)"
    and "sofar (merged p idx c) idx = lefts p idx" and "edges (merged p idx c) ! idx = c"
    and "node_len (merged p idx c) = node_len p - 1"
proof -
  note l = wf_lengths [OF p]
  have le: "length (edges p) = Suc (node_len p)" using l by simp
  show wf: "wf_node (Suc h) (merged p idx c)"
  proof (rule wf_node_SucI)
    fix e assume "e \<in> set (edges (merged p idx c))"
    then have "e = c \<or> e \<in> set (edges p)"
      using set_list_remove by (fastforce simp: merged_def dest!: set_update_subset_insert [THEN subsetD])
    then show "wf_node h e \<and> MIN_LEN_AFTER_SPLIT \<le> node_len e" using c wf_edges [OF p] by auto
  qed (use l le i in \<open>simp_all add: merged_def\<close>)
  have le': "lefts (merged p idx c) idx = lefts p idx"
    using l le i by (simp add: lefts_def merged_def zip_list_remove take_list_remove)
  have re': "rights (merged p idx c) idx = rights p (Suc idx)"
    using l le i by (simp add: rights_def merged_def zip_list_remove drop_list_remove)
  show e: "edges (merged p idx c) ! idx = c" using le i by (simp add: merged_def)
  show len: "node_len (merged p idx c) = node_len p - 1" using i by (simp add: merged_def)
  have "set_edge (merged p idx c) idx c = merged p idx c" by (simp add: set_edge_def merged_def)
  then show "inorder (merged p idx c) = lefts p idx @ inorder c @ rights p (Suc idx)"
    using inorder_at [OF wf, of idx c] le' re' len i by simp
  show "sofar (merged p idx c) idx = lefts p idx" using sofar_lefts [OF wf, of idx] le' len i by simp
qed

lemma restocked_facts:
  assumes p: "wf_node (Suc h) p" and i: "idx < node_len p"
    and l: "wf_node h l" "MIN_LEN_AFTER_SPLIT \<le> node_len l" and r: "wf_node h r" "MIN_LEN_AFTER_SPLIT \<le> node_len r"
  shows "wf_node (Suc h) (restocked p idx l q r)"
    and "inorder (restocked p idx l q r) = lefts p idx @ inorder l @ q # inorder r @ rights p (Suc idx)"
    and "sofar (restocked p idx l q r) idx = lefts p idx" and "edges (restocked p idx l q r) ! idx = l"
    and "sofar (restocked p idx l q r) (Suc idx) = lefts p idx @ inorder l @ [q]"
    and "edges (restocked p idx l q r) ! Suc idx = r"
    and "node_len (restocked p idx l q r) = node_len p"
proof -
  let ?n = "restocked p idx l q r"
  note ln = wf_lengths [OF p]
  have le: "length (edges p) = Suc (node_len p)" using ln by simp
  show wf: "wf_node (Suc h) ?n"
  proof (rule wf_node_SucI)
    fix e assume "e \<in> set (edges ?n)"
    then have "e = l \<or> e = r \<or> e \<in> set (edges p)"
      by (fastforce simp: restocked_def dest!: set_update_subset_insert [THEN subsetD])
    then show "wf_node h e \<and> MIN_LEN_AFTER_SPLIT \<le> node_len e" using l r wf_edges [OF p] by auto
  qed (use ln le i in \<open>simp_all add: restocked_def\<close>)
  have left_eq: "lefts ?n idx = lefts p idx"
    using ln le i by (simp add: lefts_def restocked_def zip_update)
  have right_eq: "rights ?n (Suc idx) = rights p (Suc idx)"
    using ln le i by (simp add: rights_def restocked_def zip_update)
  show e: "edges ?n ! idx = l" "edges ?n ! Suc idx = r" using le i by (simp_all add: restocked_def)
  show len: "node_len ?n = node_len p" by (simp add: restocked_def)
  have kv: "(keys ?n ! idx, vals ?n ! idx) = q" using i ln by (simp add: restocked_def)
  show s: "sofar ?n idx = lefts p idx" using sofar_lefts [OF wf, of idx] left_eq len i by simp
  have l2: "lefts ?n (Suc idx) = lefts p idx @ inorder l @ [q]"
    using lefts_Suc [OF wf, of idx] upto_kv_internal [OF wf, of idx] left_eq len i e kv by simp
  then show "sofar ?n (Suc idx) = lefts p idx @ inorder l @ [q]"
    using sofar_lefts [OF wf, of "Suc idx"] len i by simp
  have "set_edge ?n (Suc idx) r = ?n" by (simp add: set_edge_def restocked_def)
  then show "inorder ?n = lefts p idx @ inorder l @ q # inorder r @ rights p (Suc idx)"
    using inorder_at [OF wf, of "Suc idx" r] l2 right_eq len i by simp
qed

section \<open>Merging and stealing keep the sequence and the path\<close>

lemma merged_set_edge: "i = idx \<or> i = Suc idx \<Longrightarrow> idx < length (edges p) \<Longrightarrow> merged (set_edge p i n) idx c = merged p idx c"
  by (auto simp: merged_def list_remove_def take_update_swap list_update_append list_update_beyond)

lemma restocked_set_edge: "i = idx \<or> i = Suc idx \<Longrightarrow> restocked (set_edge p i n) idx l q r = restocked p idx l q r"
  by (auto simp: restocked_def list_update_swap [of idx "Suc idx"])

lemma rights_Suc:
  assumes n: "wf_node (Suc h) n" and i: "i < node_len n"
  shows "rights n i = (keys n ! i, vals n ! i) # inorder (edges n ! Suc i) @ rights n (Suc i)"
proof -
  note l = wf_lengths [OF n]
  have z: "drop i (zip (keys n) (vals n)) = (keys n ! i, vals n ! i) # drop (Suc i) (zip (keys n) (vals n))"
    using l i by (simp flip: Cons_nth_drop_Suc)
  have e: "drop (Suc i) (edges n) = (edges n ! Suc i) # drop (Suc (Suc i)) (edges n)"
    using l i by (simp flip: Cons_nth_drop_Suc)
  show ?thesis by (simp add: rights_def behind_def z e)
qed

lemma lefts_Suc': "wf_node (Suc h) n \<Longrightarrow> i < node_len n \<Longrightarrow>
    lefts n (Suc i) = lefts n i @ inorder (edges n ! i) @ [(keys n ! i, vals n ! i)]"
  using lefts_Suc [of h n i] upto_kv_internal [of h n i] by simp

text \<open>The parent \<open>p'\<close> with a path replaces the child \<open>n\<close> at edge \<open>i\<close> of \<open>p\<close> with its path.\<close>

definition replaces ::
  "nat \<Rightarrow> ('k, 'v) node \<Rightarrow> nat \<Rightarrow> ('k, 'v) node \<Rightarrow> nat list \<Rightarrow> ('k, 'v) node \<Rightarrow> nat list \<Rightarrow> bool" where
  "replaces h p i n path p' path' \<longleftrightarrow> wf_node (Suc h) p' \<and> vpath (Suc h) p' path'
     \<and> inorder p' = lefts p i @ inorder n @ rights p i \<and> pos_left p' path' = lefts p i @ pos_left n path"

text \<open>A child short of one key, with the siblings of a well-formed parent.\<close>

definition short_child :: "nat \<Rightarrow> ('k, 'v) node \<Rightarrow> nat \<Rightarrow> ('k, 'v) node \<Rightarrow> nat list \<Rightarrow> bool" where
  "short_child h p i n path \<longleftrightarrow> wf_node (Suc h) p \<and> i \<le> node_len p \<and> wf_node h n
     \<and> Suc (node_len n) = MIN_LEN_AFTER_SPLIT \<and> vpath h n path"

lemma do_merge_join:
  assumes p: "wf_node (Suc h) p" and i: "idx < node_len p" and l: "wf_node h l" and r: "wf_node h r"
    and ctx: "parent c = set_edge p i n" "parent_idx c = idx" "left_child c = l" "right_child c = r"
      "i = idx \<or> i = Suc idx" and room: "can_merge c"
  shows "\<exists>m'. do_merge A c m = Some (merged p idx (join l (keys p ! idx, vals p ! idx) r), join l (keys p ! idx, vals p ! idx) r, m')"
proof -
  have "idx < length (edges p)" using wf_lengths [OF p] i by simp
  note mg = merged_set_edge [OF ctx(5) this, of n "join l (keys p ! idx, vals p ! idx) r"]
  have "Node (keys l @ keys p ! idx # keys r) (vals l @ vals p ! idx # vals r) (edges l @ edges r)
      = join l (keys p ! idx, vals p ! idx) r"
    by (simp add: join_def)
  with room mg show ?thesis by (simp add: do_merge_def can_merge_def ctx Let_def merged_def)
qed

lemma merge_left_ok:
  assumes s: "short_child h p (Suc idx) n path" and l: "l = edges p ! idx"
    and ctx: "c = consider_for_balancing (set_edge p (Suc idx) n) idx" and room: "can_merge c"
  obtains p' path' m' where "merge_left A c path fs m = Some ((p', path', fs), m')"
    and "replaces h p (Suc idx) n path p' path'" and "node_len p' = node_len p - 1"
proof -
  note sc = s [unfolded short_child_def]
  then have p: "wf_node (Suc h) p" and i: "idx < node_len p" and n: "wf_node h n" and v: "vpath h n path" by auto
  have il: "idx < length (edges p)" "Suc idx < length (edges p)" using wf_lengths [OF p] i by simp_all
  have wl: "wf_node h l" "MIN_LEN_AFTER_SPLIT \<le> node_len l" using wf_edges [OF p nth_mem [OF il(1)]] l by auto
  let ?q = "(keys p ! idx, vals p ! idx)"
  let ?c = "join l ?q n"
  have c: "parent c = set_edge p (Suc idx) n" "parent_idx c = idx" "left_child c = l" "right_child c = n"
    using il by (simp_all add: ctx consider_for_balancing_def l)
  have len: "node_len l + 1 + node_len n \<le> CAPACITY" using room by (simp add: can_merge_def c)
  have wc: "wf_node h ?c" "MIN_LEN_AFTER_SPLIT \<le> node_len ?c"
    using wf_join [OF wl(1) n len] wl(2) by simp_all
  note mf = merged_facts [OF p i wc]
  obtain m' where dm: "do_merge A c m = Some (merged p idx ?c, ?c, m')"
    using do_merge_join [OF p i wl(1) n c _ room] by blast
  have ij: "inorder ?c = inorder l @ ?q # inorder n" by (rule inorder_join [OF wl(1) n])
  note pj = path_join_right [OF wl(1) n v refl, of ?q]
  have "replaces h p (Suc idx) n path (merged p idx ?c) (idx # shift (Suc (node_len l)) path)"
    unfolding replaces_def using mf pj ij lefts_Suc' [OF p i] i l by simp
  with that [of "merged p idx ?c" "idx # shift (Suc (node_len l)) path" m'] dm mf(5) show ?thesis
    by (simp add: merge_left_def c)
qed

lemma merge_right_ok:
  assumes s: "short_child h p idx n path" and i: "idx < node_len p" and r: "r = edges p ! Suc idx"
    and ctx: "c = consider_for_balancing (set_edge p idx n) idx" and room: "can_merge c"
  obtains p' path' m' where "merge_right A c path fs m = Some ((p', path', fs), m')"
    and "replaces h p idx n path p' path'" and "node_len p' = node_len p - 1"
proof -
  note sc = s [unfolded short_child_def]
  then have p: "wf_node (Suc h) p" and n: "wf_node h n" and v: "vpath h n path" by auto
  have il: "idx < length (edges p)" "Suc idx < length (edges p)" using wf_lengths [OF p] i by simp_all
  have wr: "wf_node h r" "MIN_LEN_AFTER_SPLIT \<le> node_len r" using wf_edges [OF p nth_mem [OF il(2)]] r by auto
  let ?q = "(keys p ! idx, vals p ! idx)"
  let ?c = "join n ?q r"
  have c: "parent c = set_edge p idx n" "parent_idx c = idx" "left_child c = n" "right_child c = r"
    using il by (simp_all add: ctx consider_for_balancing_def r)
  have len: "node_len n + 1 + node_len r \<le> CAPACITY" using room by (simp add: can_merge_def c)
  have wc: "wf_node h ?c" "MIN_LEN_AFTER_SPLIT \<le> node_len ?c"
    using wf_join [OF n wr(1) len] wr(2) by simp_all
  note mf = merged_facts [OF p i wc]
  obtain m' where dm: "do_merge A c m = Some (merged p idx ?c, ?c, m')"
    using do_merge_join [OF p i n wr(1) c _ room] by blast
  have ij: "inorder ?c = inorder n @ ?q # inorder r" by (rule inorder_join [OF n wr(1)])
  note pj = path_join_left [OF n wr(1) v, of ?q]
  have "replaces h p idx n path (merged p idx ?c) (idx # path)"
    unfolding replaces_def using mf pj ij rights_Suc [OF p i] i r by simp
  with that [of "merged p idx ?c" "idx # path" m'] dm mf(5) show ?thesis
    by (simp add: merge_right_def c)
qed

lemma no_room:
  "\<not> can_merge c \<Longrightarrow> Suc (node_len (right_child c)) = MIN_LEN_AFTER_SPLIT \<Longrightarrow> MIN_LEN_AFTER_SPLIT < node_len (left_child c)"
  "\<not> can_merge c \<Longrightarrow> Suc (node_len (left_child c)) = MIN_LEN_AFTER_SPLIT \<Longrightarrow> MIN_LEN_AFTER_SPLIT < node_len (right_child c)"
  by (simp_all add: can_merge_def node_consts)

lemma steal_left_ok:
  assumes s: "short_child h p (Suc idx) n path" and l: "l = edges p ! idx"
    and ctx: "c = consider_for_balancing (set_edge p (Suc idx) n) idx" and room: "\<not> can_merge c"
  obtains p' path' where "steal_from_left 1 c path fs = Some (p', path', fs)"
    and "replaces h p (Suc idx) n path p' path'" and "node_len p' = node_len p"
proof -
  note sc = s [unfolded short_child_def]
  then have p: "wf_node (Suc h) p" and i: "idx < node_len p" and n: "wf_node h n" and v: "vpath h n path"
    and sh: "Suc (node_len n) = MIN_LEN_AFTER_SPLIT" by auto
  have il: "idx < length (edges p)" "Suc idx < length (edges p)" using wf_lengths [OF p] i by simp_all
  have wl: "wf_node h l" using wf_edges [OF p nth_mem [OF il(1)]] l by auto
  let ?q = "(keys p ! idx, vals p ! idx)"
  have c: "parent c = set_edge p (Suc idx) n" "parent_idx c = idx" "left_child c = l" "right_child c = n"
    using il by (simp_all add: ctx consider_for_balancing_def l)
  have more: "MIN_LEN_AFTER_SPLIT < node_len l" using no_room(1) [OF room] sh by (simp add: c)
  define j where "j = node_len l - 1"
  have j: "j < node_len l" "Suc j = node_len l" "MIN_LEN_AFTER_SPLIT \<le> j" using more by (simp_all add: j_def)
  have jj: "node_len l - Suc 0 = j" by (simp add: j_def)
  let ?l = "left (split_data j l)" and ?x = "right (split_data j l)" and ?k = "kv (split_data j l)"
  let ?r = "join ?x ?q n"
  note wsp = wf_split [OF wl j(1)]
  have lx: "node_len ?l = j" "node_len ?x = 0" using j by simp_all
  have wr: "wf_node h ?r" by (rule wf_join [OF wsp(2) n]) (use lx sh in \<open>simp add: node_consts\<close>)
  have lr: "MIN_LEN_AFTER_SPLIT \<le> node_len ?r" using lx sh by simp
  have kl: "MIN_LEN_AFTER_SPLIT \<le> node_len ?l" using lx j by simp
  note rf = restocked_facts [OF p i wsp(1) kl wr lr, of ?k]
  have ord: "inorder l = inorder ?l @ ?k # inorder ?x" by (rule inorder_split [OF wf_lens [OF wl] j(1)])
  have ij: "inorder ?r = inorder ?x @ ?q # inorder n" by (rule inorder_join [OF wsp(2) n])
  have pj: "vpath h ?r (shift 1 path)" "pos_left ?r (shift 1 path) = inorder ?x @ ?q # pos_left n path"
    using path_join_right [OF wsp(2) n v, of 1 ?q] lx by simp_all
  have "bulk_steal_left 1 c = Some \<lparr>parent = Node ((keys p)[idx := fst ?k]) ((vals p)[idx := snd ?k]) ((edges p)[Suc idx := n]),
      parent_idx = idx, left_child = ?l, right_child = ?r\<rparr>"
    using sh j(1,3) jj by (simp add: bulk_steal_left_def c Let_def node_consts) (simp add: split_data_def join_def)
  moreover have "restocked p idx ?l ?k ?r = restocked (set_edge p (Suc idx) n) idx ?l ?k ?r"
    by (simp add: restocked_set_edge)
  ultimately have run: "steal_from_left 1 c path fs = Some (restocked p idx ?l ?k ?r, Suc idx # shift 1 path, fs)"
    by (simp add: steal_from_left_def put_children_def c restocked_def)
  have "replaces h p (Suc idx) n path (restocked p idx ?l ?k ?r) (Suc idx # shift 1 path)"
    unfolding replaces_def using rf pj ij ord lefts_Suc' [OF p i] i l by simp
  from that [OF run this rf(7)] show ?thesis .
qed

lemma steal_right_ok:
  assumes s: "short_child h p idx n path" and i: "idx < node_len p" and r: "r = edges p ! Suc idx"
    and ctx: "c = consider_for_balancing (set_edge p idx n) idx" and room: "\<not> can_merge c"
  obtains p' path' where "steal_from_right 1 c path fs = Some (p', path', fs)"
    and "replaces h p idx n path p' path'" and "node_len p' = node_len p"
proof -
  note sc = s [unfolded short_child_def]
  then have p: "wf_node (Suc h) p" and n: "wf_node h n" and v: "vpath h n path"
    and sh: "Suc (node_len n) = MIN_LEN_AFTER_SPLIT" by auto
  have il: "idx < length (edges p)" "Suc idx < length (edges p)" using wf_lengths [OF p] i by simp_all
  have wr: "wf_node h r" using wf_edges [OF p nth_mem [OF il(2)]] r by auto
  let ?q = "(keys p ! idx, vals p ! idx)"
  have c: "parent c = set_edge p idx n" "parent_idx c = idx" "left_child c = n" "right_child c = r"
    using il by (simp_all add: ctx consider_for_balancing_def r)
  have more: "MIN_LEN_AFTER_SPLIT < node_len r" using no_room(2) [OF room] sh by (simp add: c)
  then have j: "0 < node_len r" by (rule le_less_trans [OF le0])
  let ?x = "left (split_data 0 r)" and ?r = "right (split_data 0 r)" and ?k = "kv (split_data 0 r)"
  let ?l = "join n ?q ?x"
  note wsp = wf_split [OF wr j]
  have lx: "node_len ?x = 0" "node_len ?r = node_len r - 1" by simp_all
  have wl: "wf_node h ?l" by (rule wf_join [OF n wsp(1)]) (use lx sh in \<open>simp add: node_consts\<close>)
  have ll: "MIN_LEN_AFTER_SPLIT \<le> node_len ?l" using lx sh by simp
  have kr: "MIN_LEN_AFTER_SPLIT \<le> node_len ?r" using lx more by simp
  note rf = restocked_facts [OF p i wl ll wsp(2) kr, of ?k]
  have ord: "inorder r = inorder ?x @ ?k # inorder ?r" by (rule inorder_split [OF wf_lens [OF wr] j])
  have ij: "inorder ?l = inorder n @ ?q # inorder ?x" by (rule inorder_join [OF n wsp(1)])
  note pj = path_join_left [OF n wsp(1) v, of ?q]
  have "bulk_steal_right 1 c = Some \<lparr>parent = Node ((keys p)[idx := fst ?k]) ((vals p)[idx := snd ?k]) ((edges p)[idx := n]),
      parent_idx = idx, left_child = ?l, right_child = ?r\<rparr>"
    using sh more by (simp add: bulk_steal_right_def c Let_def node_consts) (simp add: split_data_def join_def)
  moreover have "restocked p idx ?l ?k ?r = restocked (set_edge p idx n) idx ?l ?k ?r"
    by (simp add: restocked_set_edge)
  ultimately have run: "steal_from_right 1 c path fs = Some (restocked p idx ?l ?k ?r, idx # path, fs)"
    by (simp add: steal_from_right_def put_children_def c restocked_def)
  have "replaces h p idx n path (restocked p idx ?l ?k ?r) (idx # path)"
    unfolding replaces_def using rf pj ij ord rights_Suc [OF p i] i r by simp
  from that [OF run this rf(7)] show ?thesis .
qed

section \<open>Fixing the ancestors\<close>

definition tracked_ok ::
  "nat \<Rightarrow> nat \<Rightarrow> ('k, 'v) tracked \<Rightarrow> ('k \<times> 'v) list \<Rightarrow> ('k \<times> 'v) list \<Rightarrow> bool" where
  "tracked_ok H h tr S X \<longleftrightarrow> (case tr of (n, path, fs) \<Rightarrow>
     wf_frames h fs H \<and> wf_node h n \<and> vpath h n path
     \<and> S = all_left fs @ inorder n @ all_right fs \<and> X = all_left fs @ pos_left n path)"

text \<open>The whole tree with the path, and whether its root is not an emptied internal node.\<close>

definition fixed_ok ::
  "nat \<Rightarrow> ('k, 'v) node \<times> nat list \<Rightarrow> bool \<Rightarrow> ('k \<times> 'v) list \<Rightarrow> ('k \<times> 'v) list \<Rightarrow> bool" where
  "fixed_ok H tp ok S X \<longleftrightarrow> (case tp of (t, path) \<Rightarrow>
     inorder t = S \<and> vpath H t path \<and> pos_left t path = X
     \<and> (if ok then wf_root H t else wf_node H t \<and> node_len t = 0 \<and> 0 < H))"

lemma zip_up_path:
  assumes "wf_ref H h n fs" and "vpath h n path"
  shows "vpath H (zip_up n fs) (rev (map snd fs) @ path)
    \<and> pos_left (zip_up n fs) (rev (map snd fs) @ path) = all_left fs @ pos_left n path"
  using assms
proof (induction fs arbitrary: h n path)
  case Nil
  then show ?case by (simp add: wf_ref_def)
next
  case (Cons f fs)
  obtain p i where f: "f = (p, i)" by fastforce
  have a: "ascend n (f # fs) = Some (set_edge p i n, i, fs)" by (simp add: ascend_def f)
  note r = wf_ref_ascend [OF Cons.prems(1) a]
  have v: "vpath (Suc h) (set_edge p i n) (i # path)" using Cons.prems(2) r(2,5) by simp
  have "sofar (set_edge p i n) i = lefts p i"
    using sofar_lefts [OF wf_ref_frames(2) [OF r(1)] r(2)] by (simp add: lefts_set_edge)
  with Cons.IH [OF r(1) v] r(5) show ?case by (simp add: f)
qed

lemma whole_ok:
  assumes "tracked_ok H h (n, path, fs) S X" and "enough h fs (node_len n)"
  shows "fixed_ok H (whole (n, path, fs)) True S X"
proof -
  have r: "wf_ref H h n fs" and v: "vpath h n path" using assms by (simp_all add: tracked_ok_def wf_ref_def)
  note f = wf_ref_frames [OF r]
  from zip_up_path [OF r v] zip_up_wf [OF f] zip_up_inorder [OF f(1)] assms(1) show ?thesis
    by (simp add: fixed_ok_def whole_def tracked_ok_def)
qed

text \<open>The four ways to fix a short child through its parent.\<close>

lemma replaces_tracked:
  assumes t: "tracked_ok H h (n, path, (p, i) # fs) S X" and r: "replaces h p i n path p' path'"
  shows "tracked_ok H (Suc h) (p', path', fs) S X"
  using t r unfolding tracked_ok_def replaces_def by simp

lemma tracked_short:
  assumes "tracked_ok H h (n, path, (p, i) # fs) S X" and "Suc (node_len n) = MIN_LEN_AFTER_SPLIT"
  shows "short_child h p i n path" and "enough (Suc h) fs (node_len p)"
proof -
  note fr = assms(1) [unfolded tracked_ok_def]
  then have w: "wf_frames h ((p, i) # fs) H" by simp
  from wf_framesD [OF w] wf_frames_enough [OF w] fr assms(2)
  show "short_child h p i n path" "enough (Suc h) fs (node_len p)" by (simp_all add: short_child_def)
qed

text \<open>The node above a child that was short: nothing, or a node that may be short itself.\<close>

fun fix_step_ok :: "nat \<Rightarrow> nat \<Rightarrow> ('k, 'v) fix_result \<Rightarrow> ('k \<times> 'v) list \<Rightarrow> ('k \<times> 'v) list \<Rightarrow> bool" where
  "fix_step_ok H h (Fixed tr) S X \<longleftrightarrow>
     (\<exists>h'. tracked_ok H h' tr S X \<and> enough h' (snd (snd tr)) (node_len (fst tr)))"
| "fix_step_ok H h (Shrunk tr) S X \<longleftrightarrow>
     tracked_ok H (Suc h) tr S X \<and> (snd (snd tr) \<noteq> [] \<longrightarrow> MIN_LEN_AFTER_SPLIT \<le> Suc (node_len (fst tr)))"
| "fix_step_ok H h (EmptyRoot n path) S X \<longleftrightarrow> tracked_ok H h (n, path, []) S X \<and> node_len n = 0"

lemma shrunk_ok:
  assumes "tracked_ok H (Suc h) (p', path', fs) S X" and "node_len p' = node_len p - 1" and "enough (Suc h) fs (node_len p)"
  shows "fix_step_ok H h (Shrunk (p', path', fs)) S X"
  using assms by (auto simp: enough_def)

lemma restocked_ok:
  assumes "tracked_ok H (Suc h) (p', path', fs) S X" and "node_len p' = node_len p" and "enough (Suc h) fs (node_len p)"
  shows "fix_step_ok H h (Fixed (p', path', fs)) S X"
  using assms by auto

lemma choose_parent_kv_cases:
  assumes "i \<le> node_len p" and "0 < node_len p"
  obtains (left) idx where "i = Suc idx" and "choose_parent_kv (set_edge p i n) i = Some (Inl (consider_for_balancing (set_edge p i n) idx))"
  | (right) "i = 0" and "choose_parent_kv (set_edge p i n) i = Some (Inr (consider_for_balancing (set_edge p i n) i))"
  using assms by (cases i) (auto simp: choose_parent_kv_def)

lemma fix_node_through_parent_ok:
  assumes t: "tracked_ok H h (n, path, fs) S X" and len: "fs \<noteq> [] \<Longrightarrow> MIN_LEN_AFTER_SPLIT \<le> Suc (node_len n)"
  shows "\<exists>r m'. fix_node_through_parent A (n, path, fs) m = Some (r, m') \<and> fix_step_ok H h r S X"
proof (cases "MIN_LEN \<le> node_len n")
  case True
  then have "enough h fs (node_len n)" by (auto simp: enough_def MIN_LEN_def node_consts)
  with t have "fix_step_ok H h (Fixed (n, path, fs)) S X" by auto
  with True show ?thesis by (simp add: fix_node_through_parent_def)
next
  case short: False
  show ?thesis
  proof (cases fs)
    case Nil
    show ?thesis
    proof (cases "node_len n = 0")
      case True
      have "fix_node_through_parent A (n, path, fs) m = Some (EmptyRoot n path, m)"
        using short True Nil by (simp add: fix_node_through_parent_def Let_def)
      with t True Nil show ?thesis by simp
    next
      case False
      have "fix_node_through_parent A (n, path, fs) m = Some (Fixed (n, path, fs), m)"
        using short False Nil by (simp add: fix_node_through_parent_def Let_def)
      moreover have "enough h fs (node_len n)" using Nil False by (simp add: enough_def)
      ultimately show ?thesis using t by auto
    qed
  next
    case (Cons f fs')
    obtain p i where f: "f = (p, i)" by fastforce
    have sh: "Suc (node_len n) = MIN_LEN_AFTER_SPLIT" using short len Cons by (simp add: MIN_LEN_def)
    have one: "MIN_LEN - node_len n = 1" using sh by (simp add: MIN_LEN_def)
    note t' = t [unfolded Cons f]
    note sc = tracked_short [OF t' sh]
    have pl: "i \<le> node_len p" "0 < node_len p" using sc by (simp_all add: short_child_def enough_def)
    note rt = replaces_tracked [OF t']
    let ?c = "consider_for_balancing (set_edge p i n)"
    from pl show ?thesis
    proof (cases rule: choose_parent_kv_cases [where n = n])
      case (left idx)
      note sc' = sc(1) [unfolded left(1)]
      show ?thesis
      proof (cases "can_merge (?c idx)")
        case True
        obtain p' path' m' where mg: "merge_left A (?c idx) path fs' m = Some ((p', path', fs'), m')"
          "replaces h p i n path p' path'" "node_len p' = node_len p - 1"
          using merge_left_ok [OF sc' refl refl True [unfolded left(1)]] unfolding left(1) .
        have "fix_node_through_parent A (n, path, fs) m = Some (Shrunk (p', path', fs'), m')"
          using short left(2) True mg(1) by (simp add: fix_node_through_parent_def Let_def Cons f)
        with shrunk_ok [OF rt [OF mg(2)] mg(3) sc(2)] show ?thesis by blast
      next
        case False
        obtain p' path' where st: "steal_from_left 1 (?c idx) path fs' = Some (p', path', fs')"
          "replaces h p i n path p' path'" "node_len p' = node_len p"
          using steal_left_ok [OF sc' refl refl False [unfolded left(1)]] unfolding left(1) .
        have "fix_node_through_parent A (n, path, fs) m = Some (Fixed (p', path', fs'), m)"
          using short left(2) False st(1) one by (simp add: fix_node_through_parent_def Let_def Cons f)
        with restocked_ok [OF rt [OF st(2)] st(3) sc(2)] show ?thesis by blast
      qed
    next
      case right
      have i: "i < node_len p" using right pl by simp
      show ?thesis
      proof (cases "can_merge (?c i)")
        case True
        obtain p' path' m' where mg: "merge_right A (?c i) path fs' m = Some ((p', path', fs'), m')"
          "replaces h p i n path p' path'" "node_len p' = node_len p - 1"
          using merge_right_ok [OF sc(1) i refl refl True] .
        have "fix_node_through_parent A (n, path, fs) m = Some (Shrunk (p', path', fs'), m')"
          using short right(2) True mg(1) by (simp add: fix_node_through_parent_def Let_def Cons f)
        with shrunk_ok [OF rt [OF mg(2)] mg(3) sc(2)] show ?thesis by blast
      next
        case False
        obtain p' path' where st: "steal_from_right 1 (?c i) path fs' = Some (p', path', fs')"
          "replaces h p i n path p' path'" "node_len p' = node_len p"
          using steal_right_ok [OF sc(1) i refl refl False] .
        have "fix_node_through_parent A (n, path, fs) m = Some (Fixed (p', path', fs'), m)"
          using short right(2) False st(1) one by (simp add: fix_node_through_parent_def Let_def Cons f)
        with restocked_ok [OF rt [OF st(2)] st(3) sc(2)] show ?thesis by blast
      qed
    qed
  qed
qed

lemma fix_node_and_affected_ancestors_ok:
  assumes "tracked_ok H h tr S X" and "snd (snd tr) \<noteq> [] \<Longrightarrow> MIN_LEN_AFTER_SPLIT \<le> Suc (node_len (fst tr))" and "0 < h"
  shows "\<exists>t ok m'. fix_node_and_affected_ancestors A tr m = Some (t, ok, m') \<and> fixed_ok H t ok S X"
  using assms
proof (induction A tr m arbitrary: h rule: fix_node_and_affected_ancestors.induct)
  case (1 A tr m)
  obtain n path fs where tr: "tr = (n, path, fs)" by (cases tr)
  obtain r m' where r: "fix_node_through_parent A tr m = Some (r, m')" "fix_step_ok H h r S X"
    using fix_node_through_parent_ok [of H h n path fs S X A m] 1(2,3) tr by auto
  show ?case
  proof (cases r)
    case (Fixed tr')
    obtain n' path' fs' where tr': "tr' = (n', path', fs')" by (cases tr')
    with Fixed r(2) obtain h' where "tracked_ok H h' (n', path', fs') S X" "enough h' fs' (node_len n')" by auto
    with whole_ok [OF this] r(1) Fixed tr' have
      "fix_node_and_affected_ancestors A tr m = Some (whole tr', True, m')" "fixed_ok H (whole tr') True S X"
      by (simp_all add: fix_node_and_affected_ancestors.simps [of A tr])
    then show ?thesis by blast
  next
    case (Shrunk tr')
    have "\<exists>t ok m''. fix_node_and_affected_ancestors A tr' m' = Some (t, ok, m'') \<and> fixed_ok H t ok S X"
      by (rule "1.IH" [OF r(1) refl Shrunk, of "Suc h"]) (use r(2) Shrunk in auto)
    then show ?thesis using r(1) Shrunk by (simp add: fix_node_and_affected_ancestors.simps [of A tr])
  next
    case (EmptyRoot n' path')
    have "fixed_ok H (n', path') False S X"
      using r(2) EmptyRoot 1(4) by (auto simp: fixed_ok_def tracked_ok_def)
    moreover have "fix_node_and_affected_ancestors A tr m = Some ((n', path'), False, m')"
      using r(1) EmptyRoot by (simp add: fix_node_and_affected_ancestors.simps [of A tr])
    ultimately show ?thesis by blast
  qed
qed

section \<open>Removing a pair\<close>

lemma fix_leaf_ok:
  assumes t: "tracked_ok H 0 (n, [idx], (p, i) # fs) S X" and sh: "Suc (node_len n) = MIN_LEN_AFTER_SPLIT"
  shows "\<exists>tr m'. fix_leaf A n idx ((p, i) # fs) m = Some (tr, m') \<and> tracked_ok H 1 tr S X
    \<and> (snd (snd tr) \<noteq> [] \<longrightarrow> MIN_LEN_AFTER_SPLIT \<le> Suc (node_len (fst tr)))"
proof -
  note sc = tracked_short [OF t sh]
  have pl: "i \<le> node_len p" "0 < node_len p" and idx: "idx \<le> node_len n"
    using sc t by (simp_all add: short_child_def enough_def tracked_ok_def)
  note rt = replaces_tracked [OF t]
  have big: "snd (snd (p', path', fs)) \<noteq> [] \<longrightarrow> MIN_LEN_AFTER_SPLIT \<le> Suc (node_len (fst (p', path', fs)))"
    if "node_len p' = node_len p - 1 \<or> node_len p' = node_len p" for p' :: "('a, 'b) node" and path' :: "nat list"
    using that sc(2) by (auto simp: enough_def)
  let ?c = "consider_for_balancing (set_edge p i n)"
  from pl show ?thesis
  proof (cases rule: choose_parent_kv_cases [where n = n])
    case (left j)
    note sc' = sc(1) [unfolded left(1)]
    have "Suc j < length (edges p)"
      using sc' wf_lengths [of "Suc 0" p] by (simp add: short_child_def)
    then have rc: "right_child (?c j) = n" by (simp add: consider_for_balancing_def left(1))
    show ?thesis
    proof (cases "can_merge (?c j)")
      case True
      obtain p' path' m' where mg: "merge_left A (?c j) [idx] fs m = Some ((p', path', fs), m')"
        "replaces 0 p i n [idx] p' path'" "node_len p' = node_len p - 1"
        using merge_left_ok [OF sc' refl refl True [unfolded left(1)]] unfolding left(1) .
      have "fix_leaf A n idx ((p, i) # fs) m = Some ((p', path', fs), m')"
        using left(2) True mg(1) rc idx by (simp add: fix_leaf_def)
      moreover have "tracked_ok H 1 (p', path', fs) S X" using rt [OF mg(2)] by simp
      ultimately show ?thesis using big mg(3) by blast
    next
      case False
      obtain p' path' where st: "steal_from_left 1 (?c j) [idx] fs = Some (p', path', fs)"
        "replaces 0 p i n [idx] p' path'" "node_len p' = node_len p"
        using steal_left_ok [OF sc' refl refl False [unfolded left(1)]] unfolding left(1) .
      have "fix_leaf A n idx ((p, i) # fs) m = Some ((p', path', fs), m)"
        using left(2) False st(1) by (simp add: fix_leaf_def)
      moreover have "tracked_ok H 1 (p', path', fs) S X" using rt [OF st(2)] by simp
      ultimately show ?thesis using big st(3) by blast
    qed
  next
    case right
    have i: "i < node_len p" using right pl by simp
    have "i < length (edges p)"
      using sc i wf_lengths [of "Suc 0" p] by (simp add: short_child_def)
    then have lc: "left_child (?c i) = n" by (simp add: consider_for_balancing_def)
    show ?thesis
    proof (cases "can_merge (?c i)")
      case True
      obtain p' path' m' where mg: "merge_right A (?c i) [idx] fs m = Some ((p', path', fs), m')"
        "replaces 0 p i n [idx] p' path'" "node_len p' = node_len p - 1"
        using merge_right_ok [OF sc(1) i refl refl True] .
      have "fix_leaf A n idx ((p, i) # fs) m = Some ((p', path', fs), m')"
        using right(2) True mg(1) lc idx by (simp add: fix_leaf_def)
      moreover have "tracked_ok H 1 (p', path', fs) S X" using rt [OF mg(2)] by simp
      ultimately show ?thesis using big mg(3) by blast
    next
      case False
      obtain p' path' where st: "steal_from_right 1 (?c i) [idx] fs = Some (p', path', fs)"
        "replaces 0 p i n [idx] p' path'" "node_len p' = node_len p"
        using steal_right_ok [OF sc(1) i refl refl False] .
      have "fix_leaf A n idx ((p, i) # fs) m = Some ((p', path', fs), m)"
        using right(2) False st(1) by (simp add: fix_leaf_def)
      moreover have "tracked_ok H 1 (p', path', fs) S X" using rt [OF st(2)] by simp
      ultimately show ?thesis using big st(3) by blast
    qed
  qed
qed

lemma leaf_remove_ok:
  assumes n: "wf_node 0 n" and i: "i < node_len n" and n': "n' = snd (leaf_remove i n)"
  shows "wf_node 0 n'" and "inorder n' = list_remove i (inorder n)" and "Suc (node_len n') = node_len n"
    and "vpath 0 n' [i]" and "pos_left n' [i] = take i (inorder n)"
proof -
  note l = wf_lengths [OF n]
  have e: "edges n = []" "edges n' = []" using l by (simp_all add: n' leaf_remove_def)
  show w: "wf_node 0 n'" by (rule wf_nodeI) (use l i in \<open>simp_all add: n' leaf_remove_def\<close>)
  show len: "Suc (node_len n') = node_len n" using i by (simp add: n' leaf_remove_def)
  show io: "inorder n' = list_remove i (inorder n)"
    using l by (simp add: inorder_leaf e) (simp add: n' leaf_remove_def zip_list_remove)
  have il: "i < length (inorder n)" using i l by (simp add: inorder_leaf e)
  show "vpath 0 n' [i]" using i len by simp
  have "sofar n' i = take i (inorder n')" using sofar_leaf [OF w, of i] upto_kv_leaf [OF w] i len by simp
  then show "pos_left n' [i] = take i (inorder n)" by (simp add: io take_list_remove [OF order_refl il])
qed

lemma remove_leaf_kv_ok:
  assumes r: "wf_ref H 0 n fs" and i: "idx < node_len n"
  shows "\<exists>t emptied m'. remove_leaf_kv A (n, idx, fs) m = Some (into_kv (n, idx, fs), t, emptied, m')
    \<and> fixed_ok H t (\<not> emptied) (all_left fs @ list_remove idx (inorder n) @ all_right fs) (all_left fs @ take idx (inorder n))"
proof -
  note f = wf_ref_frames [OF r]
  define n' where "n' = snd (leaf_remove idx n)"
  note lr = leaf_remove_ok [OF f(2) i n'_def]
  have kv: "leaf_remove idx n = (into_kv (n, idx, fs), n')" by (simp add: n'_def leaf_remove_def into_kv_def)
  let ?S = "all_left fs @ list_remove idx (inorder n) @ all_right fs"
  let ?X = "all_left fs @ take idx (inorder n)"
  have t: "tracked_ok H 0 (n', [idx], fs) ?S ?X"
    using f(1) lr by (simp add: tracked_ok_def del: pos_left.simps)
  show ?thesis
  proof (cases "MIN_LEN \<le> node_len n' \<or> fs = []")
    case True
    then have "enough 0 fs (node_len n')" by (auto simp: enough_def MIN_LEN_def)
    note w = whole_ok [OF t this]
    have "remove_leaf_kv A (n, idx, fs) m = Some (into_kv (n, idx, fs), whole (n', [idx], fs), False, m)"
      using True by (auto simp: remove_leaf_kv_def kv fix_leaf_def)
    with w show ?thesis by (metis (full_types))
  next
    case False
    then obtain p i fs' where fs: "fs = (p, i) # fs'" by (cases fs) auto
    have sh: "Suc (node_len n') = MIN_LEN_AFTER_SPLIT"
      using False f(3) lr(3) by (simp add: enough_def MIN_LEN_def)
    obtain tr m1 where fl: "fix_leaf A n' idx fs m = Some (tr, m1)" "tracked_ok H 1 tr ?S ?X"
      "snd (snd tr) \<noteq> [] \<longrightarrow> MIN_LEN_AFTER_SPLIT \<le> Suc (node_len (fst tr))"
      using fix_leaf_ok [OF t [unfolded fs] sh] unfolding fs by blast
    obtain tp ok m2 where fa: "fix_node_and_affected_ancestors A tr m1 = Some (tp, ok, m2)" "fixed_ok H tp ok ?S ?X"
      using fix_node_and_affected_ancestors_ok [OF fl(2) fl(3) [rule_format] zero_less_one, of A m1] by blast
    have "remove_leaf_kv A (n, idx, fs) m = Some (into_kv (n, idx, fs), tp, \<not> ok, m2)"
      using False fl(1) fa(1) by (simp add: remove_leaf_kv_def kv)
    with fa(2) show ?thesis by auto
  qed
qed

lemma follow_at:
  "wf_ref H h n fs \<Longrightarrow> vpath h n path \<Longrightarrow> at_edge H (zip_up n fs) (follow n path fs) (all_left fs @ pos_left n path)"
proof (induction n path fs arbitrary: h rule: follow.induct)
  case (2 n i fs)
  then have h: "h = 0" by (cases h) auto
  with 2 sofar_leaf [OF wf_ref_frames(2), of H n fs i] show ?case by (simp add: at_edge_def)
next
  case (3 n i j "is" fs)
  then obtain h' where h: "h = Suc h'" by (cases h) auto
  note p = 3(3) [unfolded h]
  have i: "i \<le> node_len n" and v: "vpath h' (edges n ! i) (j # is)" using p by simp_all
  note d = wf_ref_descend [OF 3(2) [unfolded h] i]
  have "sofar n i = lefts n i" by (rule sofar_lefts [OF wf_ref_frames(2) [OF 3(2) [unfolded h]] i])
  with 3(1) [OF d(1) v] d(2) show ?case by simp
qed simp

lemma wf_root_ref: "wf_root H t \<Longrightarrow> wf_ref H H t []"
  by (simp add: wf_ref_def wf_root_def enough_def)

lemma wf_replace: "wf_node h n \<Longrightarrow> wf_node h (Node ((keys n)[i := k]) ((vals n)[i := v]) (edges n))"
  by (cases n; cases h) simp_all

lemma inorder_replace:
  assumes n: "wf_node h n" and i: "i < node_len n"
  shows "inorder (Node ((keys n)[i := fst q]) ((vals n)[i := snd q]) (edges n)) = upto_kv n i @ q # from_kv n i"
proof -
  let ?n = "Node ((keys n)[i := fst q]) ((vals n)[i := snd q]) (edges n)"
  have "split_data i ?n = (split_data i n)\<lparr>kv := q\<rparr>"
    using i wf_lengths [OF n] by (simp add: split_data_def)
  with inorder_kv_split [OF wf_replace [OF n], of i i "fst q" "snd q"] i wf_lengths [OF n] show ?thesis
    by (simp add: upto_kv_def from_kv_def)
qed

text \<open>The pair after the edge of a path is replaced.\<close>

lemma replace_next:
  assumes t: "wf_root H t" and v: "vpath H t path" and io: "inorder t = pos_left t path @ q # Y"
  obtains n i fs where "next_kv (follow t path []) = Some (n, i, fs)" and "into_kv (n, i, fs) = q"
    and "\<And>q'. wf_root H (zip_up (fst (snd (replace_kv q' (n, i, fs)))) fs)
      \<and> inorder (zip_up (fst (snd (replace_kv q' (n, i, fs)))) fs) = pos_left t path @ q' # Y"
proof -
  let ?X = "pos_left t path"
  note r = wf_root_ref [OF t]
  obtain n0 i0 fs0 where fo: "follow t path [] = (n0, i0, fs0)" by (cases "follow t path []")
  have "at_edge H t (n0, i0, fs0) ?X" using follow_at [OF r v] fo by simp
  then have "case next_kv (n0, i0, fs0) of Some kh \<Rightarrow> at_kv H t kh ?X | None \<Rightarrow> ?X = inorder t"
    by (intro next_kv_at) (auto simp: at_edge_def)
  moreover have "?X \<noteq> inorder t" unfolding io by simp
  ultimately obtain kh where kh: "next_kv (n0, i0, fs0) = Some kh" "at_kv H t kh ?X"
    by (cases "next_kv (n0, i0, fs0)") simp_all
  obtain n i fs where k: "kh = (n, i, fs)" by (cases kh)
  obtain h where h: "wf_ref H h n fs" "i < node_len n" "zip_up n fs = t" "?X = all_left fs @ upto_kv n i"
    using kh(2) by (auto simp: at_kv_def k)
  note f = wf_ref_frames [OF h(1)]
  have q: "into_kv (n, i, fs) = q" and Y: "Y = from_kv n i @ all_right fs"
    using at_kv_inorder [OF kh(2) [unfolded k]] io by simp_all
  show ?thesis
  proof (rule that [OF _ q])
    show "next_kv (follow t path []) = Some (n, i, fs)" using kh(1) by (simp add: fo k)
    fix q'
    let ?n = "fst (snd (replace_kv q' (n, i, fs)))"
    have n: "?n = Node ((keys n)[i := fst q']) ((vals n)[i := snd q']) (edges n)" by (simp add: replace_kv_def)
    have "wf_root H (zip_up ?n fs)"
      by (rule zip_up_wf [OF f(1)]) (use f in \<open>simp_all add: n wf_replace\<close>)
    moreover have "inorder (zip_up ?n fs) = ?X @ q' # Y"
      using zip_up_inorder [OF f(1), of ?n] inorder_replace [OF f(2) h(2), of q'] h(4) Y by (simp add: n)
    ultimately show "wf_root H (zip_up ?n fs) \<and> inorder (zip_up ?n fs) = ?X @ q' # Y" ..
  qed
qed

text \<open>The same below a root that was emptied.\<close>

lemma next_kv_append:
  "next_kv (n, i, fs) = Some (n', i', fs') \<Longrightarrow> next_kv (n, i, fs @ gs) = Some (n', i', fs' @ gs)"
proof (induction "(n, i, fs)" arbitrary: n i fs rule: next_kv.induct)
  case (1 n i fs)
  show ?case
  proof (cases "i < node_len n")
    case True
    with 1(2) show ?thesis by (simp add: next_kv.simps [of n] next_kv.simps [of n'] right_kv_def)
  next
    case False
    with 1(2) obtain p j fs2 where fs: "fs = (p, j) # fs2"
      by (auto simp: next_kv.simps [of n] right_kv_def ascend_def split: list.splits)
    have "next_kv (set_edge p j n, j, fs2) = Some (n', i', fs')"
      using 1(2) False by (simp add: next_kv.simps [of n] right_kv_def ascend_def fs)
    from 1(1) [OF _ _ this] False show ?thesis
      by (simp add: next_kv.simps [of n] right_kv_def ascend_def fs)
  qed
qed

lemma follow_append: "follow n path (fs @ gs) = (case follow n path fs of (n', i, fs') \<Rightarrow> (n', i, fs' @ gs))"
proof (induction n path fs rule: follow.induct)
  case (3 n i j "is" fs)
  then show ?case by simp
qed simp_all

lemma zip_up_append: "zip_up n (fs @ gs) = zip_up (zip_up n fs) gs"
  by (induction n fs rule: zip_up.induct) simp_all

lemma emptied_root:
  assumes "wf_node H t" and "node_len t = 0" and "0 < H"
  obtains e where "t = Node [] [] [e]" and "wf_root (H - 1) e"
proof -
  obtain h where h: "H = Suc h" using assms(3) by (cases H) auto
  note l = wf_lengths [OF assms(1)]
  obtain e where e: "edges t = [e]" using l assms(2) h by (cases "edges t") auto
  have t: "t = Node [] [] [e]" using l assms(2) e by (cases t) simp
  have "wf_node h e \<and> MIN_LEN_AFTER_SPLIT \<le> node_len e"
    using wf_edges [OF assms(1) [unfolded h], of e] e by simp
  then have "wf_root (H - 1) e" by (auto simp: wf_root_def h node_consts)
  with that t show ?thesis by blast
qed

definition removed_ok :: "nat \<Rightarrow> ('k, 'v) node \<Rightarrow> bool \<Rightarrow> ('k \<times> 'v) list \<Rightarrow> bool" where
  "removed_ok H t emptied S \<longleftrightarrow> inorder t = S
     \<and> (if emptied then 0 < H \<and> (\<exists>e. t = Node [] [] [e] \<and> wf_root (H - 1) e) else wf_root H t)"

lemma fixed_removed: "fixed_ok H (t, path) (\<not> emptied) S X \<Longrightarrow> removed_ok H t emptied S"
  by (auto simp: fixed_ok_def removed_ok_def elim: emptied_root split: if_splits)

lemma replace_next_fixed:
  assumes t: "fixed_ok H (t, path) (\<not> emptied) (X @ q # Y) X"
  shows "\<exists>n i fs. next_kv (follow t path []) = Some (n, i, fs) \<and> into_kv (n, i, fs) = q
    \<and> (\<forall>q'. removed_ok H (zip_up (fst (snd (replace_kv q' (n, i, fs)))) fs) emptied (X @ q' # Y))"
proof (cases emptied)
  case False
  with t have f: "wf_root H t" "vpath H t path" "pos_left t path = X" "inorder t = pos_left t path @ q # Y"
    by (simp_all add: fixed_ok_def)
  obtain n i fs where n: "next_kv (follow t path []) = Some (n, i, fs)" "into_kv (n, i, fs) = q"
    "\<And>q'. wf_root H (zip_up (fst (snd (replace_kv q' (n, i, fs)))) fs)
      \<and> inorder (zip_up (fst (snd (replace_kv q' (n, i, fs)))) fs) = pos_left t path @ q' # Y"
    using replace_next [OF f(1,2,4)] by blast
  with False f(3) show ?thesis by (simp add: removed_ok_def)
next
  case True
  with t have f: "wf_node H t" "node_len t = 0" "0 < H" "vpath H t path" "pos_left t path = X" "inorder t = X @ q # Y"
    by (simp_all add: fixed_ok_def)
  obtain h where h: "H = Suc h" using f(3) by (cases H) auto
  obtain e where e: "t = Node [] [] [e]" "wf_root h e" using emptied_root [OF f(1-3)] h by auto
  obtain path' where path: "path = 0 # path'" "vpath h e path'"
    using f(4) h e(1) by (cases path) auto
  have pl: "pos_left e path' = X" using f(5) path e(1) by (simp add: sofar_def)
  have io: "inorder e = pos_left e path' @ q # Y" using f(6) e(1) pl by simp
  obtain n i fs where n: "next_kv (follow e path' []) = Some (n, i, fs)" "into_kv (n, i, fs) = q"
    "\<And>q'. wf_root h (zip_up (fst (snd (replace_kv q' (n, i, fs)))) fs)
      \<and> inorder (zip_up (fst (snd (replace_kv q' (n, i, fs)))) fs) = pos_left e path' @ q' # Y"
    using replace_next [OF e(2) path(2) io] by blast
  obtain n0 i0 fs0 where fo: "follow e path' [] = (n0, i0, fs0)" by (cases "follow e path' []")
  obtain j "is" where pj: "path' = j # is" using path(2) by (cases path') auto
  have "follow t path [] = (n0, i0, fs0 @ [(t, 0)])"
    using follow_append [of e path' "[]" "[(t, 0)]"] fo path(1) e(1) pj by simp
  with next_kv_append [OF n(1) [unfolded fo], of "[(t, 0)]"]
  have nk: "next_kv (follow t path []) = Some (n, i, fs @ [(t, 0)])" by simp
  have "removed_ok H (zip_up (fst (snd (replace_kv q' (n, i, fs @ [(t, 0)])))) (fs @ [(t, 0)])) emptied (X @ q' # Y)" for q'
  proof -
    define e' where "e' = zip_up (fst (snd (replace_kv q' (n, i, fs)))) fs"
    have "fst (snd (replace_kv q' (n, i, fs @ [(t, 0)]))) = fst (snd (replace_kv q' (n, i, fs)))"
      by (simp add: replace_kv_def)
    then have "zip_up (fst (snd (replace_kv q' (n, i, fs @ [(t, 0)])))) (fs @ [(t, 0)]) = Node [] [] [e']"
      by (simp add: zip_up_append e'_def e(1) set_edge_def)
    then show ?thesis using n(3) [of q'] pl True h by (simp add: removed_ok_def e'_def)
  qed
  moreover have "into_kv (n, i, fs @ [(t, 0)]) = q" using n(2) by (simp add: into_kv_def)
  ultimately show ?thesis using nk by blast
qed

lemma last_leaf_edge_last:
  "last_leaf_edge n fs = (n', i', fs') \<Longrightarrow> i' = node_len n' \<and> (fs \<noteq> [] \<longrightarrow> fs' \<noteq> [])"
proof (induction n fs rule: last_leaf_edge.induct)
  case (1 n fs)
  then show ?case by (cases "edges n = []") (auto simp: last_leaf_edge.simps [of n])
qed

lemma remove_kv_tracking_ok:
  assumes k: "at_kv H t (n, i, fs) X" and io: "inorder t = X @ q # Y"
  shows "\<exists>t' emptied m'. remove_kv_tracking A (n, i, fs) m = Some (q, t', emptied, m') \<and> removed_ok H t' emptied (X @ Y)"
proof -
  obtain h where h: "wf_ref H h n fs" "i < node_len n" "zip_up n fs = t" "X = all_left fs @ upto_kv n i"
    using k by (auto simp: at_kv_def)
  note f = wf_ref_frames [OF h(1)]
  have q: "into_kv (n, i, fs) = q" and Y: "Y = from_kv n i @ all_right fs"
    using at_kv_inorder [OF k] io by simp_all
  show ?thesis
  proof (cases h)
    case 0
    note r = h(1) [unfolded 0] and n = f(2) [unfolded 0]
    have e: "edges n = []" using leaf_edges [OF n] by simp
    have X: "X = all_left fs @ take i (inorder n)" using h(4) upto_kv_leaf [OF n] by simp
    have "from_kv n i = drop (Suc i) (inorder n)"
      using e by (simp add: from_kv_def inorder_leaf split_data_def drop_zip)
    then have S: "all_left fs @ list_remove i (inorder n) @ all_right fs = X @ Y"
      by (simp add: X Y list_remove_def)
    obtain t' emptied m' where rm: "remove_leaf_kv A (n, i, fs) m = Some (q, t', emptied, m')"
      and fx: "fixed_ok H t' (\<not> emptied) (X @ Y) X"
      using remove_leaf_kv_ok [OF r h(2), of A m] q S X by auto
    obtain t1 path where t': "t' = (t1, path)" by (cases t')
    have "remove_kv_tracking A (n, i, fs) m = Some (q, t1, emptied, m')"
      using rm by (simp add: remove_kv_tracking_def e t')
    with fixed_removed fx [unfolded t'] show ?thesis by blast
  next
    case (Suc h')
    note r = h(1) [unfolded Suc] and n = f(2) [unfolded Suc]
    have e: "edges n \<noteq> []" using leaf_edges [OF n] by auto
    note d = wf_ref_descend [OF r less_imp_le [OF h(2)]]
    obtain lf j fs2 where ll: "last_leaf_edge (edges n ! i) ((n, i) # fs) = (lf, j, fs2)"
      by (cases "last_leaf_edge (edges n ! i) ((n, i) # fs)")
    have j: "j = node_len lf" "fs2 \<noteq> []" using last_leaf_edge_last [OF ll] by simp_all
    have at: "at_edge H t (lf, j, fs2) X"
      using last_leaf_edge_at [OF d(1)] ll d(2) h(3,4) upto_kv_internal [OF n, of i] h(2) by simp
    then have l: "wf_ref H 0 lf fs2" "zip_up lf fs2 = t" "X = all_left fs2 @ upto_kv lf j" by (simp_all add: at_edge_def)
    note lw = wf_ref_frames [OF l(1)]
    have pos: "0 < node_len lf" using lw(3) j(2) by (auto simp: enough_def node_consts)
    define i2 where "i2 = node_len lf - 1"
    have i2: "i2 < node_len lf" "Suc i2 = j" using pos j by (simp_all add: i2_def)
    define X' where "X' = all_left fs2 @ take i2 (inorder lf)"
    have X: "X = X' @ [into_kv (lf, i2, fs2)]"
      using upto_kv_leaf_Suc [OF lw(2) i2(1)] l(3) i2(2) by (simp add: X'_def upto_kv_leaf [OF lw(2)] into_kv_def)
    have "inorder t = X @ all_right fs2"
      using zip_up_inorder [OF lw(1), of lf] l(2,3) upto_kv_len [OF lw(2)] j(1) by simp
    then have right: "all_right fs2 = q # Y" using io by simp
    have il: "length (inorder lf) = j"
      using wf_lengths [OF lw(2)] j(1) by (simp add: inorder_leaf)
    have S: "all_left fs2 @ list_remove i2 (inorder lf) @ all_right fs2 = X' @ q # Y"
      using i2 il by (simp add: list_remove_def X'_def right)
    obtain tp emptied m1 where rm: "remove_leaf_kv A (lf, i2, fs2) m = Some (into_kv (lf, i2, fs2), tp, emptied, m1)"
      and fx: "fixed_ok H tp (\<not> emptied) (X' @ q # Y) X'"
      using remove_leaf_kv_ok [OF l(1) i2(1), of A m] S X'_def by auto
    obtain t1 path where tp: "tp = (t1, path)" by (cases tp)
    obtain n3 i3 fs3 where nx: "next_kv (follow t1 path []) = Some (n3, i3, fs3)" "into_kv (n3, i3, fs3) = q"
      and rp: "\<forall>q'. removed_ok H (zip_up (fst (snd (replace_kv q' (n3, i3, fs3)))) fs3) emptied (X' @ q' # Y)"
      using replace_next_fixed [OF fx [unfolded tp]] by blast
    have lk: "left_kv (lf, j, fs2) = Some (lf, i2, fs2)" using i2 by (auto simp: left_kv_def)
    let ?q = "into_kv (lf, i2, fs2)"
    have "remove_kv_tracking A (n, i, fs) m
        = Some (q, zip_up (fst (snd (replace_kv ?q (n3, i3, fs3)))) fs3, emptied, m1)"
      using nx by (simp add: remove_kv_tracking_def e remove_internal_kv_def descend_def ll lk rm tp)
        (simp add: replace_kv_def)
    moreover have "removed_ok H (zip_up (fst (snd (replace_kv ?q (n3, i3, fs3)))) fs3) emptied (X @ Y)"
      using spec [OF rp, of ?q] X by simp
    ultimately show ?thesis by blast
  qed
qed

section \<open>Removal from the map\<close>

lemma pop_removed:
  assumes "removed_ok H t emptied S"
  obtains t' m' where "(if emptied then pop_internal_level A t m else Some (t, m)) = Some (t', m')"
    and "wf_root (tree_height t') t'" and "inorder t' = S"
proof (cases emptied)
  case True
  then obtain e where e: "t = Node [] [] [e]" "wf_root (H - 1) e" "inorder t = S"
    using assms by (auto simp: removed_ok_def)
  then show ?thesis using True that [of e] wf_root_at_height [OF e(2)] by (simp add: pop_internal_level_def)
next
  case False
  with assms that wf_root_at_height [of H t] show ?thesis by (simp add: removed_ok_def)
qed

lemma ordered_without: "ordered (X @ (k, v) # Y) \<Longrightarrow> ordered (X @ Y) \<and> map_of (X @ Y) = (map_of (X @ (k, v) # Y))(k := None)"
proof -
  assume o: "ordered (X @ (k, v) # Y)"
  then have m: "ordered (X @ Y)" "\<forall>p\<in>set X. fst p < k" "\<forall>p\<in>set Y. k < fst p" by (simp_all add: ordered_middle)
  have "map_of (X @ Y) k = None" by (rule map_of_none [OF m(2,3)])
  with map_of_middle [OF o] m(1) show ?thesis by (simp add: fun_upd_idem)
qed

lemma occupied_remove_ok:
  assumes mp: "map_ok mp" and t: "root mp = Some t" and h: "search_ok H t key (Found (n, i, fs))"
  obtains mp' s' where "occupied_remove A (n, i, fs) mp s = Some ((key, vals n ! i), mp', s')"
    and "map_changed ((map_of (pairs mp))(key := None)) mp'" and "map_of (pairs mp) key = Some (vals n ! i)"
proof -
  obtain h' where fr: "wf_ref H h' n fs" "i < node_len n" and k: "keys n ! i = key" "zip_up n fs = t"
    using h by (auto simp: wf_ref_def)
  let ?X = "all_left fs @ upto_kv n i" and ?Y = "from_kv n i @ all_right fs"
  have at: "at_kv H t (n, i, fs) ?X" using fr k by (auto simp: at_kv_def)
  have io: "inorder t = ?X @ (key, vals n ! i) # ?Y" using at_kv_inorder [OF at] k by (simp add: into_kv_def)
  have o: "ordered (?X @ (key, vals n ! i) # ?Y)" "map_length mp = Suc (length (?X @ ?Y))"
    using mp t io by (simp_all add: map_ok_def pairs_def)
  let ?m = "\<lparr>allocated_memory = map_memory mp, alloc_state = s\<rparr>"
  obtain t1 emptied m1 where rm: "remove_kv_tracking A (n, i, fs) ?m = Some ((key, vals n ! i), t1, emptied, m1)"
    and ok: "removed_ok H t1 emptied (?X @ ?Y)"
    using remove_kv_tracking_ok [OF at io, of A ?m] by auto
  obtain t2 m2 where pop: "(if emptied then pop_internal_level A t1 m1 else Some (t1, m1)) = Some (t2, m2)"
    and wf: "wf_root (tree_height t2) t2" and io2: "inorder t2 = ?X @ ?Y"
    using pop_removed [OF ok] .
  define mp' where "mp' = mp\<lparr>root := Some t2, map_length := map_length mp - 1, map_memory := allocated_memory m2\<rparr>"
  have run: "occupied_remove A (n, i, fs) mp s = Some ((key, vals n ! i), mp', alloc_state m2)"
    unfolding occupied_remove_def rm by (simp add: pop mp'_def)
  note w = ordered_without [OF o(1)]
  have "map_ok mp'" using wf io2 w o(2) by (simp add: map_ok_def mp'_def pairs_def)
  moreover have "map_of (pairs mp') = (map_of (pairs mp))(key := None)"
    using w io io2 t by (simp add: mp'_def pairs_def)
  ultimately have ch: "map_changed ((map_of (pairs mp))(key := None)) mp'" by (simp add: map_changed_def)
  have "map_of (pairs mp) key = Some (vals n ! i)"
    using map_of_middle [OF o(1)] io t by (simp add: pairs_def)
  from that [OF run ch this] show ?thesis .
qed

lemma remove_entry_correct:
  assumes mp: "map_ok mp"
  shows "\<exists>mp' s'. remove_entry A key mp s = Some (map_option (Pair key) (map_of (pairs mp) key), mp', s')
    \<and> map_ok mp' \<and> map_of (pairs mp') = (map_of (pairs mp))(key := None)"
proof (cases "root mp")
  case None
  then show ?thesis using mp by (simp add: remove_entry_def pairs_def)
next
  case (Some t)
  note e = entry_is_ok [OF mp refl, of key]
  show ?thesis
  proof (cases "search_tree key t []")
    case (Found kh)
    obtain n i fs where kh: "kh = (n, i, fs)" by (cases kh)
    have "entry key mp = Occupied (n, i, fs)" by (simp add: entry_def Some Found kh)
    with e have s: "search_ok (tree_height t) t key (Found (n, i, fs))" by (simp add: Some del: search_ok.simps)
    obtain mp' s' where "occupied_remove A (n, i, fs) mp s = Some ((key, vals n ! i), mp', s')"
      "map_changed ((map_of (pairs mp))(key := None)) mp'" "map_of (pairs mp) key = Some (vals n ! i)"
      using occupied_remove_ok [OF mp Some s] .
    then show ?thesis by (simp add: remove_entry_def Some Found kh map_changed_def)
  next
    case (GoDown kh)
    have "entry key mp = Vacant key (Some kh)" by (simp add: entry_def Some GoDown)
    then have "map_of (pairs mp) key = None"
      using btree_get_correct [OF mp, of key] by (simp add: btree_get_def)
    then show ?thesis using mp by (simp add: remove_entry_def Some GoDown fun_upd_idem)
  qed
qed

text \<open>C5: \<open>remove_entry\<close> on a well-formed map never panics, returns the pair of the key when there is one,
  and gives a well-formed map without the key and with every other key as before: merging, stealing,
  the repair of the ancestors and the popped root leave the sequence of the remaining pairs.\<close>

theorem remove_entry_removes:
  assumes "map_ok mp"
  shows "\<exists>mp' s'. remove_entry A key mp s = Some (map_option (Pair key) (map_of (pairs mp) key), mp', s')
    \<and> map_ok mp' \<and> map_of (pairs mp') = (map_of (pairs mp))(key := None)"
  using assms by (rule remove_entry_correct)

text \<open>Removing from a tree of two minimal leaves merges them and pops the root.\<close>

definition minimal_tree :: "(nat, nat) btree_map" where
  "minimal_tree = \<lparr>root = Some (Node [60] [6] [Node [10, 20, 30, 40, 50] [1, 2, 3, 4, 5] [],
     Node [70, 80, 90, 100, 110] [7, 8, 9, 10, 11] []]), map_length = 11, map_memory = new_memory\<rparr>"

lemma minimal_tree_ok: "map_ok minimal_tree"
  by code_simp

theorem remove_entry_removes_witness:
  "\<exists>mp' s'. remove_entry counting 60 minimal_tree 480 = Some (Some (60, 6), mp', s') \<and> map_ok mp'
     \<and> map_of (pairs mp') 60 = None \<and> map_of (pairs mp') 50 = Some 5"
proof -
  have "map_of (pairs minimal_tree) 60 = Some 6" "map_of (pairs minimal_tree) 50 = Some 5" by code_simp+
  with remove_entry_removes [OF minimal_tree_ok, of counting 60 480] show ?thesis by auto
qed

end
