(* ===== verification/ExtraLarge.thy ===== *)
theory ExtraLarge
  imports BTreeRemove OsMem Limit Interfaces
begin

text \<open>
  Extra-large objects, \<open>thread_local_allocator.rs\<close>: \<open>alloc_extra_large\<close> maps them directly and
  \<open>dealloc_extra_large\<close> unmaps them. The B-tree map \<open>allocated_large_sizes\<close> counts how many of a
  size are in use.

  The allocator is a state \<open>'s\<close> that the record \<open>xl_env\<close> reads and writes: the map, the two parts of
  the process, and the allocator of the map's nodes, which is the thread-local allocator itself.
\<close>

record ('k, 's) xl_env =
  xl_nodes :: "'s allocator"
  xl_map :: "'s \<Rightarrow> (usize, usize) btree_map"
  xl_set_map :: "(usize, usize) btree_map \<Rightarrow> 's \<Rightarrow> 's"
  xl_lim :: "'s \<Rightarrow> limit_state"
  xl_set_lim :: "limit_state \<Rightarrow> 's \<Rightarrow> 's"
  xl_os :: "'s \<Rightarrow> 'k os_state"
  xl_set_os :: "'k os_state \<Rightarrow> 's \<Rightarrow> 's"

text \<open>\<open>entry(key).and_modify(f).or_insert(v)\<close>.\<close>

definition and_modify_or_insert ::
  "'s allocator \<Rightarrow> 'k::linorder \<Rightarrow> ('v \<Rightarrow> 'v) \<Rightarrow> 'v \<Rightarrow> ('k, 'v) btree_map \<Rightarrow> 's \<Rightarrow> (('k, 'v) btree_map \<times> 's) outcome" where
  "and_modify_or_insert A key f v mp s =
     (case entry key mp of
        Occupied h \<Rightarrow> Ok (occupied_write f h mp, s)
      | Vacant key' h \<Rightarrow> vacant_insert A key' h v mp s)"

definition alloc_extra_large ::
  "libc \<Rightarrow> 'k kernel \<Rightarrow> ('k, 's) xl_env \<Rightarrow> usize \<Rightarrow> 's \<Rightarrow> (addr option \<times> 's) outcome" where
  "alloc_extra_large L K X sz s =
     (case may_allocate (word_of_nat sz) (xl_lim X s) of (ok, l) \<Rightarrow>
        let s1 = xl_set_lim X l s in
        if \<not> ok then Ok (None, s1)
        else case alloc_from_os L K 0 sz True False (xl_os X s1) of ((p, _), os') \<Rightarrow>
          let s2 = xl_set_os X os' s1;
              s3 = (if p = 0 then xl_set_lim X (mark_deallocated (word_of_nat sz) (xl_lim X s2)) s2 else s2)
          in case and_modify_or_insert (xl_nodes X) sz Suc 1 (xl_map X s3) s3 of
               Ok (mp, s4) \<Rightarrow> Ok (if p = 0 then None else Some p, xl_set_map X mp s4)
             | Err \<Rightarrow> Panic
             | Panic \<Rightarrow> Panic)"

text \<open>The closure given to \<open>and_modify\<close> also reports whether the count was 1.\<close>

definition dealloc_extra_large ::
  "'k kernel \<Rightarrow> ('k, 's) xl_env \<Rightarrow> addr \<Rightarrow> usize \<Rightarrow> 's \<Rightarrow> 's outcome" where
  "dealloc_extra_large K X p sz s =
     (let s1 = xl_set_os X (os_free K p sz (xl_os X s)) s;
          s2 = xl_set_lim X (mark_deallocated (word_of_nat sz) (xl_lim X s1)) s1;
          (mp, was_last) =
            (case entry sz (xl_map X s2) of
               Occupied (n, i, fs) \<Rightarrow> (occupied_write (\<lambda>u. u - 1) (n, i, fs) (xl_map X s2), vals n ! i = 1)
             | Vacant _ _ \<Rightarrow> (xl_map X s2, False))
      in if was_last then
           case map_remove (xl_nodes X) sz mp s2 of
             None \<Rightarrow> Panic
           | Some (_, mp', s3) \<Rightarrow> Ok (xl_set_map X mp' s3)
         else Ok (xl_set_map X mp s2))"

section \<open>The map counts\<close>

text \<open>The three parts are independent.\<close>

definition xl_lens :: "('k, 's) xl_env \<Rightarrow> bool" where
  "xl_lens X \<longleftrightarrow> (\<forall>m s. xl_map X (xl_set_map X m s) = m) \<and>
     (\<forall>l s. xl_map X (xl_set_lim X l s) = xl_map X s) \<and> (\<forall>o' s. xl_map X (xl_set_os X o' s) = xl_map X s) \<and>
     (\<forall>l s. xl_os X (xl_set_lim X l s) = xl_os X s)"

lemma xl_lensD [simp]:
  "xl_lens X \<Longrightarrow> xl_map X (xl_set_map X m s) = m" "xl_lens X \<Longrightarrow> xl_map X (xl_set_lim X l s) = xl_map X s"
  "xl_lens X \<Longrightarrow> xl_map X (xl_set_os X o' s) = xl_map X s" "xl_lens X \<Longrightarrow> xl_os X (xl_set_lim X l s) = xl_os X s"
  by (simp_all add: xl_lens_def)

definition size_count :: "(usize, usize) btree_map \<Rightarrow> usize \<Rightarrow> nat" where
  "size_count mp sz = (case map_of (pairs mp) sz of None \<Rightarrow> 0 | Some n \<Rightarrow> n)"

definition sizes_ok :: "(usize, usize) btree_map \<Rightarrow> bool" where
  "sizes_ok mp \<longleftrightarrow> map_ok mp \<and> 0 \<notin> ran (map_of (pairs mp))"

definition xl_count :: "('k, 's) xl_env \<Rightarrow> 's \<Rightarrow> usize \<Rightarrow> nat" where
  "xl_count X s = size_count (xl_map X s)"

definition xl_ok :: "('k, 's) xl_env \<Rightarrow> 's \<Rightarrow> bool" where
  "xl_ok X s \<longleftrightarrow> xl_lens X \<and> sizes_ok (xl_map X s)"

lemma and_modify_or_insert_eq: "and_modify_or_insert A key Suc (Suc 0) mp s = entry_or_insert A key 0 Suc mp s"
  for mp :: "('k::linorder, nat) btree_map"
  by (simp add: and_modify_or_insert_def entry_or_insert_def split: Entry.splits)

lemma count_up:
  assumes mp: "sizes_ok mp" and A: "always_gives A"
  shows "\<exists>mp' s'. and_modify_or_insert A sz Suc (Suc 0) mp s = Ok (mp', s') \<and> sizes_ok mp' \<and>
    size_count mp' = (size_count mp)(sz := size_count mp sz + 1)"
proof -
  let ?m = "map_of (pairs mp)"
  obtain mp' s' where e: "entry_or_insert A sz 0 Suc mp s = Ok (mp', s')" "map_ok mp'"
    "map_of (pairs mp') = ?m(sz \<mapsto> Suc (case ?m sz of None \<Rightarrow> 0 | Some v \<Rightarrow> v))"
    using entry_or_insert_correct [OF _ A, of mp sz 0 Suc s] mp by (auto simp: sizes_ok_def)
  have "0 \<notin> ran (map_of (pairs mp'))" using mp by (auto simp: e(3) sizes_ok_def ran_def split: if_splits)
  with e show ?thesis by (simp add: and_modify_or_insert_eq sizes_ok_def size_count_def fun_eq_iff)
qed

lemma alloc_extra_large_ok:
  assumes ok: "xl_ok X s" and A: "always_gives (xl_nodes X)"
  shows "\<exists>r s'. alloc_extra_large L K X sz s = Ok (r, s') \<and> xl_ok X s' \<and>
    (if fst (may_allocate (word_of_nat sz) (xl_lim X s))
     then xl_count X s' = (xl_count X s)(sz := xl_count X s sz + 1) \<and>
       (let p = fst (fst (alloc_from_os L K 0 sz True False (xl_os X s)))
        in r = (if p = 0 then None else Some p))
     else r = None \<and> xl_count X s' = xl_count X s)"
proof -
  have X: "xl_lens X" and mp: "sizes_ok (xl_map X s)" using ok by (simp_all add: xl_ok_def)
  obtain b l where l: "may_allocate (word_of_nat sz) (xl_lim X s) = (b, l)" by fastforce
  show ?thesis
  proof (cases b)
    case False
    with l X mp show ?thesis by (simp add: alloc_extra_large_def xl_ok_def xl_count_def Let_def)
  next
    case True
    obtain p r os' where o: "alloc_from_os L K 0 sz True False (xl_os X s) = ((p, r), os')" by (metis prod.collapse)
    let ?s2 = "xl_set_os X os' (xl_set_lim X l s)"
    let ?s3 = "if p = 0 then xl_set_lim X (mark_deallocated (word_of_nat sz) (xl_lim X ?s2)) ?s2 else ?s2"
    have m: "xl_map X ?s3 = xl_map X s" using X by simp
    obtain mp' s4 where c: "and_modify_or_insert (xl_nodes X) sz Suc (Suc 0) (xl_map X s) ?s3 = Ok (mp', s4)"
      "sizes_ok mp'" "size_count mp' = (size_count (xl_map X s))(sz := size_count (xl_map X s) sz + 1)"
      using count_up [OF mp A] by blast
    have "alloc_extra_large L K X sz s = Ok (if p = 0 then None else Some p, xl_set_map X mp' s4)"
      using l True o X c(1) m by (cases "p = 0") (simp_all add: alloc_extra_large_def Let_def)
    then show ?thesis using l True o X c(2,3) by (simp add: xl_ok_def xl_count_def)
  qed
qed

lemma count_down:
  assumes mp: "sizes_ok mp" and used: "0 < size_count mp sz"
  shows "\<exists>n i fs. entry sz mp = Occupied (n, i, fs) \<and> vals n ! i = size_count mp sz \<and>
    map_ok (occupied_write (\<lambda>u. u - 1) (n, i, fs) mp) \<and>
    map_of (pairs (occupied_write (\<lambda>u. u - 1) (n, i, fs) mp)) = (map_of (pairs mp))(sz \<mapsto> size_count mp sz - 1)"
proof -
  have ok: "map_ok mp" using mp by (simp add: sizes_ok_def)
  have some: "map_of (pairs mp) sz = Some (size_count mp sz)" using used by (auto simp: size_count_def split: option.splits)
  note e = entry_is_ok [OF ok refl, of sz]
  obtain n i fs where occ: "entry sz mp = Occupied (n, i, fs)"
    using btree_get_correct [OF ok, of sz] some by (cases "entry sz mp") (auto simp: btree_get_def)
  obtain t where t: "root mp = Some t" "search_ok (tree_height t) t sz (Found (n, i, fs))"
    using entry_ok_Occupied [OF e [unfolded occ]] .
  have w: "map_changed ((map_of (pairs mp))(sz \<mapsto> vals n ! i - Suc 0)) (occupied_write (\<lambda>u. u - Suc 0) (n, i, fs) mp)"
    by (rule occupied_write_changed(1) [OF ok t])
  have "vals n ! i = size_count mp sz" using occupied_write_changed(2) [OF ok t] some by simp
  with w occ show ?thesis by (auto simp: map_changed_def)
qed

lemma dealloc_extra_large_ok:
  assumes ok: "xl_ok X s" and used: "0 < xl_count X s sz"
  shows "\<exists>s'. dealloc_extra_large K X p sz s = Ok s' \<and> xl_ok X s' \<and>
    xl_count X s' = (xl_count X s)(sz := xl_count X s sz - 1)"
proof -
  let ?mp = "xl_map X s"
  have X: "xl_lens X" and mp: "sizes_ok ?mp" using ok by (simp_all add: xl_ok_def)
  let ?s1 = "xl_set_os X (os_free K p sz (xl_os X s)) s"
  let ?s2 = "xl_set_lim X (mark_deallocated (word_of_nat sz) (xl_lim X ?s1)) ?s1"
  have m: "xl_map X ?s2 = ?mp" using X by simp
  obtain n i fs where c: "entry sz ?mp = Occupied (n, i, fs)" "vals n ! i = size_count ?mp sz"
    and w: "map_ok (occupied_write (\<lambda>u. u - 1) (n, i, fs) ?mp)"
      "map_of (pairs (occupied_write (\<lambda>u. u - 1) (n, i, fs) ?mp)) = (map_of (pairs ?mp))(sz \<mapsto> size_count ?mp sz - 1)"
    using count_down [OF mp used [unfolded xl_count_def]] by blast
  define mp1 where "mp1 = occupied_write (\<lambda>u. u - Suc 0) (n, i, fs) ?mp"
  have w1: "map_ok mp1" "map_of (pairs mp1) = (map_of (pairs ?mp))(sz \<mapsto> size_count ?mp sz - 1)"
    using w by (simp_all add: mp1_def)
  show ?thesis
  proof (cases "size_count ?mp sz = 1")
    case True
    obtain mp2 s3 where r: "remove_entry (xl_nodes X) sz mp1 ?s2 = Some (Some (sz, 0), mp2, s3)" "map_ok mp2"
      "map_of (pairs mp2) = (map_of (pairs mp1))(sz := None)"
      using remove_entry_correct [OF w1(1), of "xl_nodes X" sz ?s2] w1(2) True by auto
    have q: "map_of (pairs mp2) = (map_of (pairs ?mp))(sz := None)" using r(3) w1(2) by simp
    have "dealloc_extra_large K X p sz s = Ok (xl_set_map X mp2 s3)"
      using c True r(1) m by (simp add: dealloc_extra_large_def map_remove_def mp1_def [symmetric] Let_def)
    moreover have "sizes_ok mp2" using r(2) q mp by (auto simp: sizes_ok_def ran_def)
    moreover have "size_count mp2 = (size_count ?mp)(sz := size_count ?mp sz - 1)"
      unfolding True by (rule ext) (simp add: size_count_def q)
    ultimately show ?thesis using X by (simp add: xl_ok_def xl_count_def)
  next
    case False
    have "dealloc_extra_large K X p sz s = Ok (xl_set_map X mp1 ?s2)"
      using c False m by (simp add: dealloc_extra_large_def mp1_def [symmetric] Let_def)
    moreover have "sizes_ok mp1"
      using mp used False w1 by (auto simp: sizes_ok_def ran_def xl_count_def split: if_splits)
    moreover have "size_count mp1 = (size_count ?mp)(sz := size_count ?mp sz - 1)"
      by (rule ext) (simp add: size_count_def w1(2))
    ultimately show ?thesis using X by (simp add: xl_ok_def xl_count_def)
  qed
qed

text \<open>The allocation counts, whatever size: adding \<open>n\<close> is allocating \<open>n\<close> times within the limit.\<close>

fun alloc_times :: "libc \<Rightarrow> 'k kernel \<Rightarrow> ('k, 's) xl_env \<Rightarrow> usize \<Rightarrow> nat \<Rightarrow> 's \<Rightarrow> 's option" where
  "alloc_times L K X sz 0 x = Some x"
| "alloc_times L K X sz (Suc n) x =
     (case alloc_extra_large L K X sz x of Ok (r, x') \<Rightarrow> alloc_times L K X sz n x' | _ \<Rightarrow> None)"

fun granted :: "libc \<Rightarrow> 'k kernel \<Rightarrow> ('k, 's) xl_env \<Rightarrow> usize \<Rightarrow> nat \<Rightarrow> 's \<Rightarrow> bool" where
  "granted L K X sz 0 x \<longleftrightarrow> True"
| "granted L K X sz (Suc n) x \<longleftrightarrow> fst (may_allocate (word_of_nat sz) (xl_lim X x)) \<and>
     (case alloc_extra_large L K X sz x of Ok (r, x') \<Rightarrow> granted L K X sz n x' | _ \<Rightarrow> True)"

lemma alloc_times_count:
  assumes "always_gives (xl_nodes X)"
  shows "xl_ok X x \<Longrightarrow> granted L K X sz n x \<Longrightarrow>
    \<exists>x'. alloc_times L K X sz n x = Some x' \<and> xl_ok X x' \<and> xl_count X x' = (xl_count X x)(sz := xl_count X x sz + n)"
proof (induction n arbitrary: x)
  case (Suc n)
  obtain r x1 where 1: "alloc_extra_large L K X sz x = Ok (r, x1)" "xl_ok X x1"
    "xl_count X x1 = (xl_count X x)(sz := xl_count X x sz + 1)"
    using alloc_extra_large_ok [OF Suc.prems(1) assms, of L K sz] Suc.prems(2) by auto
  with Suc show ?case by fastforce
qed auto

interpretation xl: counter "xl_ok X" "xl_count X" "\<lambda>sz n x. always_gives (xl_nodes X) \<and> granted L K X sz n x" "alloc_times L K X"
  for L :: libc and K :: "'k kernel" and X :: "('k, 's) xl_env"
  by (rule counter.intro, erule conjE) (rule alloc_times_count)

lemma extra_large_totals:
  assumes "xl_ok X x" and "all_ok (\<lambda>sz n x. always_gives (xl_nodes X) \<and> granted L K X sz n x) (alloc_times L K X) kns x"
  shows "\<exists>x'. add_all (alloc_times L K X) kns x = Some x' \<and> xl_ok X x' \<and>
    xl_count X x' = (\<lambda>sz. xl_count X x sz + total_of kns sz)"
  using assms by (rule xl.add_all_counts)

text \<open>C30: The map of extra-large sizes, with an allocator that always gives memory for its nodes: an
  allocation within the limit adds one to the count of its size and a deallocation of a size in use
  takes one off, the map keeping no zero counts and staying a well-formed tree, and neither panics.
  The count goes up even when the operating system gave nothing and null is returned.
\<close>

theorem extra_large_counted:
  assumes "xl_ok X x" and "always_gives (xl_nodes X)"
  shows "(fst (may_allocate (word_of_nat sz) (xl_lim X x)) \<longrightarrow>
      (\<exists>x'. alloc_extra_large L K X sz x =
          Ok (let p = fst (fst (alloc_from_os L K 0 sz True False (xl_os X x))) in (if p = 0 then None else Some p), x') \<and>
        xl_ok X x' \<and> xl_count X x' = (xl_count X x)(sz := xl_count X x sz + 1))) \<and>
    (0 < xl_count X x sz \<longrightarrow>
      (\<exists>x'. dealloc_extra_large K X p sz x = Ok x' \<and> xl_ok X x' \<and>
        xl_count X x' = (xl_count X x)(sz := xl_count X x sz - 1)))"
  using alloc_extra_large_ok [OF assms, of L K sz] dealloc_extra_large_ok [OF assms(1), of sz K p]
  by (auto simp: Let_def)

text \<open>A first allocation of 200 KB from a system that has no memory, with an allocator that counts the
  nodes it gives.\<close>

type_synonym small_world = "(usize, usize) btree_map \<times> limit_state \<times> unit os_state \<times> usize"

definition small_nodes :: "small_world allocator" where
  "small_nodes = \<lparr>allocator.self_alloc = (\<lambda>sz (m, l, os', n). (True, (m, l, os', n + 1))),
     self_dealloc = (\<lambda>sz (m, l, os', n). (m, l, os', n - 1)), size_of_leaf = 192, size_of_internal = 288\<rparr>"

definition small_env :: "(unit, small_world) xl_env" where
  "small_env = \<lparr>xl_nodes = small_nodes, xl_map = fst, xl_set_map = (\<lambda>m (_, r). (m, r)),
     xl_lim = (\<lambda>(m, l, r). l), xl_set_lim = (\<lambda>l (m, _, r). (m, l, r)),
     xl_os = (\<lambda>(m, l, os', n). os'), xl_set_os = (\<lambda>os' (m, l, _, n). (m, l, os', n))\<rparr>"

definition xl_start :: small_world where
  "xl_start = (new_map, initial_limit_state, initial_os_state (), 0)"

theorem extra_large_counted_witness:
  "\<exists>x'. alloc_extra_large linux_libc never_commits small_env 204800 xl_start = Ok (None, x') \<and> xl_count small_env x' 204800 = 1"
proof -
  have ok: "xl_ok small_env xl_start"
    by (auto simp: xl_ok_def xl_lens_def small_env_def sizes_ok_def xl_start_def new_map_def map_ok_def pairs_def)
  have gives: "always_gives (xl_nodes small_env)" by (simp add: always_gives_def small_env_def small_nodes_def split: prod.splits)
  have "fst (may_allocate (word_of_nat 204800) (xl_lim small_env xl_start))"
    by (simp add: xl_start_def small_env_def may_allocate_def initial_limit_state_def)
  moreover have "fst (fst (alloc_from_os linux_libc never_commits 0 204800 True False (xl_os small_env xl_start))) = 0"
    by (simp add: xl_start_def small_env_def initial_os_state_def alloc_from_os_def custom_mmap_def Let_def mmap_not_huge_def
        os_mmap_def never_commits_def linux_libc_def SHOULD_TRY_1GB_HUGE_PAGE_def SHOULD_TRY_2MB_HUGE_PAGE_def)
  moreover have "xl_count small_env xl_start 204800 = 0"
    by (simp add: xl_count_def size_count_def small_env_def xl_start_def new_map_def pairs_def)
  ultimately show ?thesis using extra_large_counted [OF ok gives, of 204800 linux_libc never_commits]
    by (auto simp: Let_def)
qed

end
