(* ===== verification/StateOwner.thy ===== *)
theory StateOwner
  imports SelfAllocState "HOL-Library.Multiset"
begin

text \<open>
  Who owns the bytes of a chain of states. The locale \<open>chain_owner\<close> states what an owner of a chain,
  a world and the bytes \<open>u\<close> held elsewhere has to allow: bytes may move from the chain to a holder,
  states may be dropped, and a region got from the source joins the chain. Every operation of
  \<open>SelfAllocState\<close> then keeps such an owner, whatever else it owns: with \<open>n\<close> bytes at \<open>p\<close> handed out
  it ends with these bytes among those held. The owner of a plain list of regions is one instance;
  the whole thread-local allocator is another.
\<close>

section \<open>What an owner allows\<close>

text \<open>A chunk lies on a multiple of its size. The sizes the used chunks of a state are cut into are
  \<open>good\<close>, and its free chunks are aligned.\<close>

definition aligned_chunk :: "nat \<Rightarrow> addr \<Rightarrow> bool" where
  "aligned_chunk n p \<longleftrightarrow> n dvd p \<and> p + n \<le> 2 ^ 64"

definition chunk_sizes :: "(SizeClass \<Rightarrow> usize \<Rightarrow> bool) \<Rightarrow> (nat \<Rightarrow> addr \<Rightarrow> bool) \<Rightarrow> State \<Rightarrow> bool" where
  "chunk_sizes good al s \<longleftrightarrow>
     (\<forall>u\<in>set (used_common_chunks s). good Common (uc_size u)) \<and>
     (\<forall>u\<in>set (used_large_chunks s). good Large (uc_size u)) \<and>
     (\<forall>p\<in>set (free_common_chunks s). al COMMON_CHUNK_SIZE p) \<and>
     (\<forall>p\<in>set (free_large_chunks s). al LARGE_CHUNK_SIZE p)"

lemma aligned_from_fn:
  assumes "step dvd p" and "p + n * step \<le> 2 ^ 64" and "q \<in> set (from_fn_chunks n step p)"
  shows "aligned_chunk step q"
proof -
  from assms(3) obtain i where i: "i < n" "q = p + i * step" by (auto simp: from_fn_chunks_eq_map)
  from i(1) have "i * step + step \<le> n * step" by (metis Suc_leI mult_Suc mult_le_mono1 add.commute)
  with i(2) assms(1,2) show ?thesis by (simp add: aligned_chunk_def)
qed

lemma aligned_split:
  assumes "aligned_chunk LARGE_CHUNK_SIZE p" and "q \<in> set (split_large_chunk_to_common p)"
  shows "aligned_chunk COMMON_CHUNK_SIZE q"
proof (rule aligned_from_fn)
  have "COMMON_CHUNK_SIZE dvd LARGE_CHUNK_SIZE" by (simp add: layout_simps)
  with assms(1) show "COMMON_CHUNK_SIZE dvd p" unfolding aligned_chunk_def by (meson dvd_trans)
  show "p + 8 * COMMON_CHUNK_SIZE \<le> 2 ^ 64" using assms(1) by (simp add: aligned_chunk_def layout_simps)
  show "q \<in> set (from_fn_chunks 8 COMMON_CHUNK_SIZE p)"
    using assms(2) by (simp add: split_large_chunk_to_common_def layout_simps)
qed

lemma chunk_sizes_from_region:
  assumes "is_region r"
  shows "chunk_sizes good aligned_chunk (from_region r)"
proof -
  have r: "REGION_SIZE dvd r" "r + REGION_SIZE \<le> 2 ^ 64" using assms by (simp_all add: is_region_def)
  have "COMMON_CHUNK_SIZE dvd REGION_SIZE" "LARGE_CHUNK_SIZE dvd REGION_SIZE" by (simp_all add: layout_simps)
  with r(1) have d: "COMMON_CHUNK_SIZE dvd r" "LARGE_CHUNK_SIZE dvd r" by (meson dvd_trans)+
  have "aligned_chunk COMMON_CHUNK_SIZE q" if "q \<in> set (common_chunks (parse_region r))" for q
    by (rule aligned_from_fn [of _ "r + COMMON_CHUNK_SIZE" REST_COMMON_CHUNKS_IN_REGION])
      (use that d r in \<open>simp_all add: parse_region_def Let_def layout_simps\<close>)
  moreover have "r + COMMON_CHUNK_SIZE + REST_COMMON_CHUNKS_IN_REGION * COMMON_CHUNK_SIZE = r + LARGE_CHUNK_SIZE"
    by (simp add: layout_simps)
  then have "aligned_chunk LARGE_CHUNK_SIZE q" if "q \<in> set (large_chunks (parse_region r))" for q
    by (intro aligned_from_fn [of _ "r + LARGE_CHUNK_SIZE" LARGE_CHUNKS_IN_REGION])
      (use that d r in \<open>simp_all add: parse_region_def Let_def, simp_all add: layout_simps add.commute\<close>)
  ultimately show ?thesis by (simp add: chunk_sizes_def from_region_def Let_def)
qed

definition plus_block :: "(addr \<Rightarrow> nat) \<Rightarrow> addr \<Rightarrow> nat \<Rightarrow> addr \<Rightarrow> nat" where
  "plus_block u p n a = u a + occ p n a"

fun held_too :: "nat \<Rightarrow> (nat \<times> addr) option \<Rightarrow> (addr \<Rightarrow> nat) \<Rightarrow> addr \<Rightarrow> nat" where
  "held_too n None u = u"
| "held_too n (Some (j, p)) u = plus_block u p n"

text \<open>An operation that hands out a chunk of \<open>n\<close> bytes keeps the owner \<open>R\<close>, beside any chain \<open>d\<close>.\<close>

definition gives :: "(nat \<Rightarrow> addr \<Rightarrow> bool) \<Rightarrow> (State list \<Rightarrow> 'w \<Rightarrow> (addr \<Rightarrow> nat) \<Rightarrow> bool) \<Rightarrow> nat \<Rightarrow> 'w get_chunk \<Rightarrow> bool" where
  "gives al R n g \<longleftrightarrow>
     (\<forall>i c d w u r c' w'. i < length c \<longrightarrow> R (c @ d) w u \<longrightarrow> g i c w = Some (r, c', w') \<longrightarrow>
        length c \<le> length c' \<and> (case r of None \<Rightarrow> True | Some (j, p) \<Rightarrow> j < length c' \<and> al n p) \<and>
        R (c' @ d) w' (held_too n r u))"

lemma givesD:
  assumes "gives al R n g" and "i < length c" and "R (c @ d) w u" and "g i c w = Some (r, c', w')"
  shows "length c \<le> length c'" and "R (c' @ d) w' (held_too n r u)" and "r = Some (j, p) \<Longrightarrow> j < length c'"
    and "r = Some (j, p) \<Longrightarrow> al n p"
  using assms unfolding gives_def by fastforce+

lemma take_slot_sizes: "take_slot sz us = Some (p, us') \<Longrightarrow> map uc_size us' = map uc_size us"
  by (induction us arbitrary: us') (auto split: if_splits option.splits simp: Let_def)

lemma all_sizes:
  assumes "map uc_size us' = map uc_size us"
  shows "(\<forall>u\<in>set us'. P (uc_size u)) = (\<forall>u\<in>set us. P (uc_size u))"
proof -
  have "uc_size ` set us' = uc_size ` set us" using arg_cong [OF assms, of set] by simp
  then have "(\<forall>x\<in>uc_size ` set us'. P x) = (\<forall>x\<in>uc_size ` set us. P x)" by simp
  then show ?thesis by simp
qed

lemma list_all_same: "map P xs = map P ys \<Longrightarrow> list_all P xs = list_all P ys"
proof -
  have "list_all P zs = (False \<notin> set (map P zs))" for zs by (auto simp: list_all_iff)
  then show "map P xs = map P ys \<Longrightarrow> list_all P xs = list_all P ys" by (simp only:)
qed

lemma try_alloc_size_keeps:
  "try_alloc_size cl sz c = Some (p, c') \<Longrightarrow>
   map region_ptr c' = map region_ptr c \<and> map (chunk_sizes good al) c' = map (chunk_sizes good al) c"
proof (induction c arbitrary: c')
  case (Cons s c)
  show ?case
  proof (cases cl)
    case Common
    with Cons show ?thesis
      by (cases "take_slot sz (used_common_chunks s)")
        (auto simp: chunk_sizes_def all_sizes [OF take_slot_sizes, of _ _ _ _ "good Common"])
  next
    case Large
    with Cons show ?thesis
      by (cases "take_slot sz (used_large_chunks s)")
        (auto simp: chunk_sizes_def all_sizes [OF take_slot_sizes, of _ _ _ _ "good Large"])
  next
    case ExtraLarge
    with Cons show ?thesis by auto
  qed
qed simp

locale chain_owner =
  fixes areg :: "'w \<Rightarrow> addr \<times> 'w"
    and sos :: usize
    and good :: "SizeClass \<Rightarrow> usize \<Rightarrow> bool"
    and al :: "nat \<Rightarrow> addr \<Rightarrow> bool"
    and R :: "State list \<Rightarrow> 'w \<Rightarrow> (addr \<Rightarrow> nat) \<Rightarrow> bool"
  assumes moves: "R c w u \<Longrightarrow> (\<And>a. chain_count sos c' a + u' a \<le> chain_count sos c a + u a) \<Longrightarrow>
      mset (map region_ptr c') \<subseteq># mset (map region_ptr c) \<Longrightarrow> list_all (chunk_sizes good al) c' \<Longrightarrow> R c' w u'"
    and sizes: "R c w u \<Longrightarrow> list_all (chunk_sizes good al) c"
    and state_size: "R c w u \<Longrightarrow> size_of_state_ok sos \<and> good (size_class_define sos) sos"
    and null: "R c w u \<Longrightarrow> areg w = (0, w') \<Longrightarrow> R c w' u"
    and region: "R c w u \<Longrightarrow> areg w = (r, w') \<Longrightarrow> r \<noteq> 0 \<Longrightarrow>
      chunk_sizes good al (from_region r) \<and> R (from_region r # c) w' u"
    and cut: "al LARGE_CHUNK_SIZE p \<Longrightarrow> q \<in> set (split_large_chunk_to_common p) \<Longrightarrow> al COMMON_CHUNK_SIZE q"

context chain_owner
begin

lemma update:
  assumes "R (c @ d) w u" and "i < length c" and "region_ptr s = region_ptr (c ! i)" and "chunk_sizes good al s"
    and "\<And>a. state_count sos s a + u' a \<le> state_count sos (c ! i) a + u a"
  shows "R (c[i := s] @ d) w u'"
proof (rule moves [OF assms(1)])
  show "chain_count sos (c[i := s] @ d) a + u' a \<le> chain_count sos (c @ d) a + u a" for a
    using chain_count_update [OF assms(2), of sos s a] assms(5) [of a] by simp
  have "map region_ptr (c[i := s]) = map region_ptr c"
    using assms(2,3) by (simp add: map_update list_update_same_conv)
  then show "mset (map region_ptr (c[i := s] @ d)) \<subseteq># mset (map region_ptr (c @ d))" by simp
  show "list_all (chunk_sizes good al) (c[i := s] @ d)"
    using sizes [OF assms(1)] assms(4) by (simp add: list_all_update)
qed

lemma sizes_at: "R (c @ d) w u \<Longrightarrow> i < length c \<Longrightarrow> chunk_sizes good al (c ! i)"
  using sizes [of "c @ d" w u] by (simp add: list_all_iff)

lemma try_alloc_size_gives:
  assumes R: "R (c @ d) w u" and t: "try_alloc_size cl sz (drop i c) = Some (p, rest)"
  shows "R ((take i c @ rest) @ d) w (plus_block u p sz)"
proof (rule moves [OF R])
  note k = try_alloc_size_keeps [OF t, of good] try_alloc_size_count [OF t, of sos]
  have c: "c = take i c @ drop i c" by simp
  show "chain_count sos ((take i c @ rest) @ d) a + plus_block u p sz a \<le> chain_count sos (c @ d) a + u a" for a
    using k(2) [of a] by (subst (2) c) (simp del: append_take_drop_id add: plus_block_def)
  have "map region_ptr (take i c @ rest) = map region_ptr c" using k(1) by (subst (2) c) (simp del: append_take_drop_id)
  then show "mset (map region_ptr ((take i c @ rest) @ d)) \<subseteq># mset (map region_ptr (c @ d))"
    by (simp only: map_append mset_append)
  have "list_all (chunk_sizes good al) (drop i c)" and "list_all (chunk_sizes good al) (take i c)" "list_all (chunk_sizes good al) d"
    using sizes [OF R] by (subst (asm) c, simp del: append_take_drop_id)+
  moreover have "list_all (chunk_sizes good al) rest = list_all (chunk_sizes good al) (drop i c)"
    by (rule list_all_same) (use k(1) in simp)
  ultimately show "list_all (chunk_sizes good al) ((take i c @ rest) @ d)" by simp
qed

lemma alloc_size_slow_gives:
  assumes L: "gives al R LARGE_CHUNK_SIZE getL" and C: "gives al R COMMON_CHUNK_SIZE getC"
    and i: "i < length c" and sz: "0 < sz" "sz \<le> LARGE_SIZE_MAX" "cl = size_class_define sz" "good cl sz"
    and R: "R (c @ d) w u" and run: "alloc_size_slow getL getC cl sz i c w = Some (r, c', w')"
  shows "length c \<le> length c' \<and> R (c' @ d) w' (case r of None \<Rightarrow> u | Some p \<Rightarrow> plus_block u p sz)"
proof (cases cl)
  case Common
  then have le: "sz \<le> COMMON_CHUNK_SIZE"
    using sz by (auto simp: size_class_define_def layout_simps split: if_splits)
  from run Common obtain r1 c1 w1 where g: "getC i c w = Some (r1, c1, w1)"
    by (auto simp: alloc_size_slow_def split: option.splits)
  note k = givesD [OF C, OF i R g]
  show ?thesis
  proof (cases r1)
    case None
    with g run Common k show ?thesis by (auto simp: alloc_size_slow_def)
  next
    case (Some jq)
    obtain j q where jq: "jq = (j, q)" by fastforce
    let ?u = "used_chunk sz q COMMON_CHUNK_SIZE"
    let ?s = "(c1 ! j)\<lparr>used_common_chunks := used_common_chunks (c1 ! j) @ [?u]\<rparr>"
    have r: "r = Some (q + sz * number_of_free_slots ?u)" "w' = w1" "c' = c1[j := ?s]"
      using run Common g Some jq by (auto simp: alloc_size_slow_def Let_def)
    have j: "j < length c1" using k(3) Some jq by simp
    have R1: "R (c1 @ d) w1 (plus_block u q COMMON_CHUNK_SIZE)" using k(2) Some jq by simp
    have "R (c1[j := ?s] @ d) w1 (plus_block u (q + sz * number_of_free_slots ?u) sz)"
    proof (rule update [OF R1 j])
      show "chunk_sizes good al ?s"
        using sizes_at [OF R1 j] sz(4) Common by (auto simp: chunk_sizes_def used_chunk_def)
      show "state_count sos ?s a + plus_block u (q + sz * number_of_free_slots ?u) sz a
          \<le> state_count sos (c1 ! j) a + plus_block u q COMMON_CHUNK_SIZE a" for a
        using used_chunk_count [OF sz(1) le refl, of q a] by (simp add: state_count_def plus_block_def)
    qed simp
    with r k(1) show ?thesis by simp
  qed
next
  case Large
  then have le: "sz \<le> LARGE_CHUNK_SIZE"
    using sz(2) by (simp add: layout_simps)
  from run Large obtain r1 c1 w1 where g: "getL i c w = Some (r1, c1, w1)"
    by (auto simp: alloc_size_slow_def split: option.splits)
  note k = givesD [OF L, OF i R g]
  show ?thesis
  proof (cases r1)
    case None
    with g run Large k show ?thesis by (auto simp: alloc_size_slow_def)
  next
    case (Some jq)
    obtain j q where jq: "jq = (j, q)" by fastforce
    let ?u = "used_chunk sz q LARGE_CHUNK_SIZE"
    let ?s = "(c1 ! j)\<lparr>used_large_chunks := used_large_chunks (c1 ! j) @ [?u]\<rparr>"
    have r: "r = Some (q + sz * number_of_free_slots ?u)" "w' = w1" "c' = c1[j := ?s]"
      using run Large g Some jq by (auto simp: alloc_size_slow_def Let_def)
    have j: "j < length c1" using k(3) Some jq by simp
    have R1: "R (c1 @ d) w1 (plus_block u q LARGE_CHUNK_SIZE)" using k(2) Some jq by simp
    have "R (c1[j := ?s] @ d) w1 (plus_block u (q + sz * number_of_free_slots ?u) sz)"
    proof (rule update [OF R1 j])
      show "chunk_sizes good al ?s"
        using sizes_at [OF R1 j] sz(4) Large by (auto simp: chunk_sizes_def used_chunk_def)
      show "state_count sos ?s a + plus_block u (q + sz * number_of_free_slots ?u) sz a
          \<le> state_count sos (c1 ! j) a + plus_block u q LARGE_CHUNK_SIZE a" for a
        using used_chunk_count [OF sz(1) le refl, of q a] by (simp add: state_count_def plus_block_def)
    qed simp
    with r k(1) show ?thesis by simp
  qed
next
  case ExtraLarge
  with run show ?thesis by (simp add: alloc_size_slow_def)
qed

lemma alloc_size_gives:
  assumes "gives al R LARGE_CHUNK_SIZE getL" and "gives al R COMMON_CHUNK_SIZE getC"
    and "i < length c" and "0 < sz" and "sz \<le> LARGE_SIZE_MAX" and "cl = size_class_define sz" and "good cl sz"
    and "R (c @ d) w u" and run: "alloc_size getL getC cl sz i c w = Some (r, c', w')"
  shows "length c \<le> length c' \<and> R (c' @ d) w' (case r of None \<Rightarrow> u | Some p \<Rightarrow> plus_block u p sz)"
proof (cases "try_alloc_size cl sz (drop i c)")
  case None
  with run show ?thesis by (intro alloc_size_slow_gives [OF assms(1-8)]) (simp add: alloc_size_def)
next
  case (Some q)
  obtain p rest where q: "q = (p, rest)" by fastforce
  with Some run have r: "r = Some p" "c' = take i c @ rest" "w' = w" by (simp_all add: alloc_size_def)
  have "length rest = length (drop i c)" using try_alloc_size_count [OF Some [unfolded q]] by simp
  then show ?thesis using try_alloc_size_gives [OF assms(8) Some [unfolded q]] assms(3) by (simp add: r)
qed

lemma alloc_new_state_gives:
  assumes L: "gives al R LARGE_CHUNK_SIZE getL" and C: "gives al R COMMON_CHUNK_SIZE getC"
    and R: "R (c @ d) w u" and run: "alloc_new_state_in areg sos getL getC c w = Some (r, c', w')"
  shows "length c' = length c \<and> R ((case r of None \<Rightarrow> c' | Some st \<Rightarrow> c' @ [st]) @ d) w' u"
proof -
  note sos = state_size [OF R]
  then have sos': "0 < sos" "sos \<le> LARGE_SIZE_MAX" "good (size_class_define sos) sos" by (simp_all add: size_of_state_ok_def)
  obtain q w1 where q: "areg w = (q, w1)" by fastforce
  show ?thesis
  proof (cases "q = 0")
    case True
    with run q null [OF R] show ?thesis by (auto simp: alloc_new_state_in_def)
  next
    case False
    have new: "chunk_sizes good al (from_region q)" and R1: "R (from_region q # c @ d) w1 u" using region [OF R q False] by simp_all
    show ?thesis
    proof (cases "try_alloc_size (size_class_define sos) sos c")
      case (Some pc)
      obtain p c1 where pc: "pc = (p, c1)" by fastforce
      let ?st = "(from_region q)\<lparr>state_at := p\<rparr>"
      have r: "r = Some ?st" "c' = c1" "w' = w1"
        using run q False Some pc by (simp_all add: alloc_new_state_in_def)
      note t = try_alloc_size_count [OF Some [unfolded pc], of sos] try_alloc_size_keeps [OF Some [unfolded pc], of good]
      have "R ((c1 @ [?st]) @ d) w1 u"
      proof (rule moves [OF R1])
        show "chain_count sos ((c1 @ [?st]) @ d) a + u a \<le> chain_count sos (from_region q # c @ d) a + u a" for a
          using t(1) [of a] state_count_relocate [of sos p "from_region q" a] by simp
        show "mset (map region_ptr ((c1 @ [?st]) @ d)) \<subseteq># mset (map region_ptr (from_region q # c @ d))"
          using t(2) by (simp add: mset_map [symmetric] del: mset_map)
        have "list_all (chunk_sizes good al) c1 = list_all (chunk_sizes good al) c"
          by (rule list_all_same) (use t(2) in simp)
        then show "list_all (chunk_sizes good al) ((c1 @ [?st]) @ d)"
          using sizes [OF R] new by (simp add: chunk_sizes_def)
      qed
      with t(1) show ?thesis by (simp add: r)
    next
      case None
      obtain r1 c2 w2 where a: "alloc_size getL getC (size_class_define sos) sos 0 [from_region q] w1
          = Some (r1, c2, w2)" and w': "w' = w2"
        using run q False None by (auto simp: alloc_new_state_in_def split: option.splits)
      have k: "length [from_region q] \<le> length c2 \<and>
          R (c2 @ c @ d) w2 (case r1 of None \<Rightarrow> u | Some p \<Rightarrow> plus_block u p sos)"
        by (rule alloc_size_gives [OF L C _ sos'(1,2) refl sos'(3) _ a]) (use R1 in simp_all)
      then obtain s rest where c2: "c2 = s # rest" by (cases c2) auto
      show ?thesis
      proof (cases r1)
        case n: None
        with run q False None a have r: "r = None" "c' = c" by (simp_all add: alloc_new_state_in_def)
        have "R (c @ d) w2 u"
        proof (rule moves)
          show "R (c2 @ c @ d) w2 u" using k n by simp
          show "list_all (chunk_sizes good al) (c @ d)" using sizes [OF R] .
        qed simp_all
        with r w' show ?thesis by simp
      next
        case (Some p)
        let ?st = "s\<lparr>state_at := p\<rparr>"
        from Some run q False None a have r: "r = Some ?st" "c' = c"
          by (simp_all add: alloc_new_state_in_def c2)
        have k': "R (c2 @ c @ d) w2 (plus_block u p sos)" using k Some by simp
        have "R ((c @ [?st]) @ d) w2 u"
        proof (rule moves [OF k'])
          show "chain_count sos ((c @ [?st]) @ d) a + u a \<le> chain_count sos (c2 @ c @ d) a + plus_block u p sos a" for a
            using state_count_relocate [of sos p s a] by (simp add: c2 plus_block_def)
          show "mset (map region_ptr ((c @ [?st]) @ d)) \<subseteq># mset (map region_ptr (c2 @ c @ d))"
            by (simp add: c2)
          show "list_all (chunk_sizes good al) ((c @ [?st]) @ d)"
            using sizes [OF k'] by (simp add: c2 chunk_sizes_def)
        qed
        with r w' show ?thesis by simp
      qed
    qed
  qed
qed

lemma get_large_step_gives:
  assumes L: "gives al R LARGE_CHUNK_SIZE getL" and C: "gives al R COMMON_CHUNK_SIZE getC"
  shows "gives al R LARGE_CHUNK_SIZE (get_free_large_chunk_step areg sos getL getC)"
  unfolding gives_def
proof (intro allI impI)
  fix i c d w u r c' w'
  assume i: "i < length c" and R: "R (c @ d) w u"
    and run: "get_free_large_chunk_step areg sos getL getC i c w = Some (r, c', w')"
  show "length c \<le> length c' \<and> (case r of None \<Rightarrow> True | Some (j, p) \<Rightarrow> j < length c' \<and> al LARGE_CHUNK_SIZE p) \<and>
      R (c' @ d) w' (held_too LARGE_CHUNK_SIZE r u)"
  proof (cases "free_large_chunks (c ! i) = []")
    case False
    let ?s = "(c ! i)\<lparr>free_large_chunks := butlast (free_large_chunks (c ! i))\<rparr>"
    let ?p = "last (free_large_chunks (c ! i))"
    have r: "r = Some (i, ?p)" "c' = c[i := ?s]" "w' = w"
      using run False by (simp_all add: get_free_large_chunk_step_def Let_def)
    have "R (c[i := ?s] @ d) w (plus_block u ?p LARGE_CHUNK_SIZE)"
      by (rule update [OF R i])
        (use sizes_at [OF R i] chunks_count_pop [OF False] in
          \<open>auto simp: chunk_sizes_def state_count_def plus_block_def dest: in_set_butlastD\<close>)
    moreover have "al LARGE_CHUNK_SIZE ?p"
      using sizes_at [OF R i] last_in_set [OF False] by (simp add: chunk_sizes_def)
    ultimately show ?thesis using i by (simp add: r)
  next
    case empty: True
    show ?thesis
    proof (cases "Suc i < length c")
      case True
      with run empty have g: "getL (Suc i) c w = Some (r, c', w')"
        by (simp add: get_free_large_chunk_step_def)
      from givesD [OF L, OF True R g] show ?thesis by (auto split: option.splits)
    next
      case False
      with run empty obtain r1 c1 w1 where a: "alloc_new_state_in areg sos getL getC c w = Some (r1, c1, w1)"
        by (auto simp: get_free_large_chunk_step_def Let_def split: option.splits)
      note k = alloc_new_state_gives [OF L C R a]
      show ?thesis
      proof (cases r1)
        case None
        with run empty False a k show ?thesis by (auto simp: get_free_large_chunk_step_def)
      next
        case (Some st)
        with run empty False a have g: "getL (Suc i) (c1 @ [st]) w1 = Some (r, c', w')"
          by (simp add: get_free_large_chunk_step_def)
        have k': "length c1 = length c" "R ((c1 @ [st]) @ d) w1 u" using k Some by simp_all
        then have "Suc i < length (c1 @ [st])" using i by simp
        from givesD [OF L, OF this k'(2) g] k'(1) show ?thesis by (auto split: option.splits)
      qed
    qed
  qed
qed

lemma get_common_step_gives:
  assumes L: "gives al R LARGE_CHUNK_SIZE getL" and C: "gives al R COMMON_CHUNK_SIZE getC"
  shows "gives al R COMMON_CHUNK_SIZE (get_free_common_chunk_step areg sos getL getC)"
  unfolding gives_def
proof (intro allI impI)
  fix i c d w u r c' w'
  assume i: "i < length c" and R: "R (c @ d) w u"
    and run: "get_free_common_chunk_step areg sos getL getC i c w = Some (r, c', w')"
  show "length c \<le> length c' \<and> (case r of None \<Rightarrow> True | Some (j, p) \<Rightarrow> j < length c' \<and> al COMMON_CHUNK_SIZE p) \<and>
      R (c' @ d) w' (held_too COMMON_CHUNK_SIZE r u)"
  proof (cases "free_common_chunks (c ! i) = []")
    case False
    let ?s = "(c ! i)\<lparr>free_common_chunks := butlast (free_common_chunks (c ! i))\<rparr>"
    let ?p = "last (free_common_chunks (c ! i))"
    have r: "r = Some (i, ?p)" "c' = c[i := ?s]" "w' = w"
      using run False by (simp_all add: get_free_common_chunk_step_def Let_def)
    have "R (c[i := ?s] @ d) w (plus_block u ?p COMMON_CHUNK_SIZE)"
      by (rule update [OF R i])
        (use sizes_at [OF R i] chunks_count_pop [OF False] in
          \<open>auto simp: chunk_sizes_def state_count_def plus_block_def dest: in_set_butlastD\<close>)
    moreover have "al COMMON_CHUNK_SIZE ?p"
      using sizes_at [OF R i] last_in_set [OF False] by (simp add: chunk_sizes_def)
    ultimately show ?thesis using i by (simp add: r)
  next
    case empty: True
    show ?thesis
    proof (cases "Suc i < length c")
      case True
      with run empty have g: "getC (Suc i) c w = Some (r, c', w')"
        by (simp add: get_free_common_chunk_step_def)
      from givesD [OF C, OF True R g] show ?thesis by (auto split: option.splits)
    next
      case False
      with run empty obtain r1 c1 w1 where a: "getL i c w = Some (r1, c1, w1)"
        by (auto simp: get_free_common_chunk_step_def Let_def split: option.splits)
      note k = givesD [OF L, OF i R a]
      show ?thesis
      proof (cases r1)
        case None
        with run empty False a k show ?thesis by (auto simp: get_free_common_chunk_step_def)
      next
        case (Some jp)
        obtain j p where jp: "jp = (j, p)" by fastforce
        have j: "j < length c1" using k(3) Some jp by simp
        have R1: "R (c1 @ d) w1 (plus_block u p LARGE_CHUNK_SIZE)" using k(2) Some jp by simp
        show ?thesis
        proof (cases "free_common_chunks (c1 ! j) = []")
          case True
          let ?ch = "split_large_chunk_to_common p"
          let ?s = "(c1 ! j)\<lparr>free_common_chunks := butlast ?ch\<rparr>"
          have r: "r = Some (j, last ?ch)" "c' = c1[j := ?s]" "w' = w1"
            using run empty False a Some jp True by (simp_all add: get_free_common_chunk_step_def Let_def)
          have ne: "?ch \<noteq> []" by (metis length_0_conv split_length zero_neq_numeral)
          have "R (c1[j := ?s] @ d) w1 (plus_block u (last ?ch) COMMON_CHUNK_SIZE)"
          proof (rule update [OF R1 j])
            show "state_count sos ?s a + plus_block u (last ?ch) COMMON_CHUNK_SIZE a
                \<le> state_count sos (c1 ! j) a + plus_block u p LARGE_CHUNK_SIZE a" for a
              using True chunks_count_pop [OF ne, of COMMON_CHUNK_SIZE a] split_count [of p a]
              by (simp add: state_count_def plus_block_def)
            show "chunk_sizes good al ?s"
              using sizes_at [OF R1 j] cut [OF k(4)] Some jp by (auto simp: chunk_sizes_def dest: in_set_butlastD)
          qed simp
          moreover have "al COMMON_CHUNK_SIZE (last ?ch)"
            using cut [OF k(4)] Some jp last_in_set [OF ne] by simp
          ultimately show ?thesis using j k(1) by (simp add: r)
        next
          case nonempty: False
          with run empty False a Some jp have g: "getC j c1 w1 = Some (r, c', w')"
            by (simp add: get_free_common_chunk_step_def Let_def)
          have "R (c1 @ d) w1 u"
            by (rule moves [OF R1]) (use sizes [OF R1] in \<open>simp_all add: plus_block_def\<close>)
          from givesD [OF C, OF j this g] k(1) show ?thesis by (auto split: option.splits)
        qed
      qed
    qed
  qed
qed

lemma free_chunk_ops_give:
  "gives al R LARGE_CHUNK_SIZE (get_free_large_chunk_owned areg sos n) \<and>
   gives al R COMMON_CHUNK_SIZE (get_free_common_chunk areg sos n)"
proof (induction n)
  case 0
  show ?case by (simp add: gives_def)
next
  case (Suc n)
  then show ?case
    using get_large_step_gives [OF conjunct1 [OF Suc] conjunct2 [OF Suc]]
      get_common_step_gives [OF conjunct1 [OF Suc] conjunct2 [OF Suc]]
    by (simp add: case_prod_unfold)
qed

lemma state_alloc_size_gives:
  assumes "R (c @ d) w u" and "i < length c" and "0 < sz" and "sz \<le> LARGE_SIZE_MAX"
    and "good (size_class_define sz) sz"
    and "state_alloc_size areg sos n (size_class_define sz) sz i c w = Some (r, c', w')"
  shows "length c \<le> length c' \<and> R (c' @ d) w' (case r of None \<Rightarrow> u | Some p \<Rightarrow> plus_block u p sz)"
  using free_chunk_ops_give [of n] assms
  by (intro alloc_size_gives [of "get_free_large_chunk_owned areg sos n" "get_free_common_chunk areg sos n" i c sz])
    (simp_all add: state_alloc_size_def)

lemma get_free_large_chunk_gives:
  assumes "R (c @ d) w u" and "i < length c" and "get_free_large_chunk areg sos n i c w = Some (r, c', w')"
  shows "length c \<le> length c' \<and> R (c' @ d) w' (case r of None \<Rightarrow> u | Some p \<Rightarrow> plus_block u p LARGE_CHUNK_SIZE) \<and>
    (case r of None \<Rightarrow> True | Some p \<Rightarrow> al LARGE_CHUNK_SIZE p)"
proof -
  obtain q where q: "get_free_large_chunk_owned areg sos n i c w = Some (q, c', w')" "r = map_option snd q"
    using assms(3) by (auto simp: get_free_large_chunk_def)
  from givesD [OF conjunct1 [OF free_chunk_ops_give], OF assms(2,1) q(1)] q(2)
  show ?thesis by (cases q) auto
qed

end

section \<open>The owner of a list of regions\<close>

text \<open>The source of regions: \<open>regs w\<close> are the regions taken so far. It returns null, or a new region
  that overlaps none of them.\<close>

definition regions_disjoint :: "addr list \<Rightarrow> bool" where
  "regions_disjoint rs \<longleftrightarrow> sorted_wrt (\<lambda>r q. disjoint_ranges r REGION_SIZE q REGION_SIZE) rs"

definition source_ok :: "('w \<Rightarrow> addr \<times> 'w) \<Rightarrow> ('w \<Rightarrow> addr list) \<Rightarrow> bool" where
  "source_ok areg regs \<longleftrightarrow>
     (\<forall>w. regions_disjoint (regs w) \<longrightarrow>
        (case areg w of (r, w') \<Rightarrow>
           if r = 0 then regs w' = regs w
           else regs w' = r # regs w \<and> is_region r \<and> regions_disjoint (regs w')))"

definition regs_count :: "('w \<Rightarrow> addr list) \<Rightarrow> 'w \<Rightarrow> addr \<Rightarrow> nat" where
  "regs_count regs w a = chunks_count (regs w) REGION_SIZE a"

definition regions_own :: "('w \<Rightarrow> addr \<times> 'w) \<Rightarrow> usize \<Rightarrow> ('w \<Rightarrow> addr list) \<Rightarrow> State list \<Rightarrow> 'w \<Rightarrow> (addr \<Rightarrow> nat) \<Rightarrow> bool" where
  "regions_own areg sos regs c w u \<longleftrightarrow>
     source_ok areg regs \<and> size_of_state_ok sos \<and> regions_disjoint (regs w) \<and>
     list_all (chunk_sizes (\<lambda>_ _. True) (\<lambda>_ _. True)) c \<and> (\<forall>a. chain_count sos c a + u a \<le> regs_count regs w a)"

lemma any_chunks: "chunk_sizes (\<lambda>_ _. True) (\<lambda>_ _. True) s"
  by (simp add: chunk_sizes_def)

lemma source_null:
  assumes "source_ok areg regs" and "areg w = (0, w')" and "regions_disjoint (regs w)"
  shows "regs w' = regs w"
  using assms unfolding source_ok_def by fastforce

lemma source_region:
  assumes "source_ok areg regs" and "areg w = (r, w')" and "r \<noteq> 0" and "regions_disjoint (regs w)"
  shows "regs w' = r # regs w \<and> is_region r \<and> regions_disjoint (regs w')"
  using assms unfolding source_ok_def by fastforce

interpretation regions: chain_owner areg sos "\<lambda>_ _. True" "\<lambda>_ _. True" "regions_own areg sos regs"
  for areg :: "'w \<Rightarrow> addr \<times> 'w" and sos :: usize and regs :: "'w \<Rightarrow> addr list"
proof
  fix c c' :: "State list" and w w' :: 'w and u u' :: "addr \<Rightarrow> nat" and r :: addr
  assume R: "regions_own areg sos regs c w u"
  then have src: "source_ok areg regs" and dis: "regions_disjoint (regs w)"
    and le: "\<And>a. chain_count sos c a + u a \<le> regs_count regs w a" and sos: "size_of_state_ok sos"
    by (simp_all add: regions_own_def)
  show ok: "list_all (chunk_sizes (\<lambda>_ _. True) (\<lambda>_ _. True)) c" using R by (simp add: regions_own_def)
  show "size_of_state_ok sos \<and> True" using sos by simp
  { assume "\<And>a. chain_count sos c' a + u' a \<le> chain_count sos c a + u a" "list_all (chunk_sizes (\<lambda>_ _. True) (\<lambda>_ _. True)) c'"
    then show "regions_own areg sos regs c' w u'"
      using src sos dis le unfolding regions_own_def by (meson le_trans) }
  { assume "areg w = (0, w')"
    from source_null [OF src this dis] show "regions_own areg sos regs c w' u"
      using src sos dis le ok by (simp add: regions_own_def regs_count_def) }
  { assume "areg w = (r, w')" "r \<noteq> 0"
    from source_region [OF src this dis]
    have new: "regs w' = r # regs w" "regions_disjoint (regs w')" "is_region r" by blast+
    have "chain_count sos (from_region r # c) a + u a \<le> regs_count regs w' a" for a
      using le [of a] state_count_from_region [of sos r a] new(1) by (simp add: regs_count_def)
    with new src sos ok show "chunk_sizes (\<lambda>_ _. True) (\<lambda>_ _. True) (from_region r) \<and> regions_own areg sos regs (from_region r # c) w' u"
      by (simp add: regions_own_def any_chunks) }
qed

section \<open>Blocks handed out\<close>

text \<open>A sequence of requests made on the first state; a refused one gives no block.\<close>

fun alloc_run ::
  "('w \<Rightarrow> addr \<times> 'w) \<Rightarrow> usize \<Rightarrow> nat \<Rightarrow> usize list \<Rightarrow> State list \<Rightarrow> 'w \<Rightarrow> ((addr \<times> usize) list \<times> State list \<times> 'w) option" where
  "alloc_run areg sos n [] c w = Some ([], c, w)"
| "alloc_run areg sos n (sz # szs) c w =
     (case state_alloc_size areg sos n (size_class_define sz) sz 0 c w of
        None \<Rightarrow> None
      | Some (r, c1, w1) \<Rightarrow>
          (case alloc_run areg sos n szs c1 w1 of
             None \<Rightarrow> None
           | Some (blocks, c2, w2) \<Rightarrow>
               Some ((case r of None \<Rightarrow> blocks | Some p \<Rightarrow> (p, sz) # blocks), c2, w2)))"

definition blocks_count :: "(addr \<times> usize) list \<Rightarrow> addr \<Rightarrow> nat" where
  "blocks_count bs a = sum_list (map (\<lambda>(p, n). occ p n a) bs)"

lemma blocks_count_simps [simp]:
  "blocks_count [] a = 0"
  "blocks_count ((p, n) # bs) a = occ p n a + blocks_count bs a"
  by (simp_all add: blocks_count_def)

definition request_ok :: "usize \<Rightarrow> bool" where
  "request_ok sz \<longleftrightarrow> 0 < sz \<and> sz \<le> LARGE_SIZE_MAX"

lemma alloc_run_owned:
  "alloc_run areg sos n szs c w = Some (bs, c', w') \<Longrightarrow> list_all request_ok szs \<Longrightarrow> c \<noteq> [] \<Longrightarrow>
   regions_own areg sos regs c w u \<Longrightarrow>
   list_all (\<lambda>(p, n). 0 < n) bs \<and> regions_own areg sos regs c' w' (\<lambda>a. u a + blocks_count bs a)"
proof (induction szs arbitrary: c w bs u)
  case (Cons sz szs)
  then obtain r c1 w1 where a: "state_alloc_size areg sos n (size_class_define sz) sz 0 c w = Some (r, c1, w1)"
    by (auto split: option.splits)
  with Cons.prems obtain bs1 where b: "alloc_run areg sos n szs c1 w1 = Some (bs1, c', w')"
    and bs: "bs = (case r of None \<Rightarrow> bs1 | Some p \<Rightarrow> (p, sz) # bs1)"
    by (auto split: option.splits)
  have req: "request_ok sz" "list_all request_ok szs" using Cons.prems(2) by simp_all
  have "0 < length c" using Cons.prems(3) by simp
  from regions.state_alloc_size_gives [of areg sos regs c "[]" w u, OF _ this _ _ _ a] Cons.prems(4) req(1)
  have k: "length c \<le> length c1" "regions_own areg sos regs c1 w1 (case r of None \<Rightarrow> u | Some p \<Rightarrow> plus_block u p sz)"
    by (simp_all add: request_ok_def)
  from k(1) Cons.prems(3) have "c1 \<noteq> []" by auto
  note IH = Cons.IH [OF b req(2) this k(2)]
  have e: "(\<lambda>a. plus_block u p sz a + blocks_count bs1 a) = (\<lambda>a. u a + (occ p sz a + blocks_count bs1 a))" for p
    by (simp add: plus_block_def fun_eq_iff)
  show ?case using IH req(1) by (cases r) (simp_all add: bs e request_ok_def)
qed simp

lemma chunks_count_le_1:
  "sorted_wrt (\<lambda>r q. disjoint_ranges r n q n) rs \<Longrightarrow> chunks_count rs n a \<le> 1"
proof (induction rs)
  case (Cons r rs)
  show ?case
  proof (cases "occ r n a = 0")
    case False
    then have "r \<le> a" "a < r + n" by (auto simp: occ_def split: if_splits)
    with Cons.prems have "\<forall>q\<in>set rs. occ q n a = 0" by (auto simp: occ_def disjoint_ranges_def)
    then have "chunks_count rs n a = 0" by (simp add: chunks_count_def)
    then show ?thesis by (simp add: occ_def)
  qed (use Cons in simp)
qed simp

lemma blocks_count_member: "(p, n) \<in> set bs \<Longrightarrow> occ p n a \<le> blocks_count bs a"
  by (induction bs) auto

lemma blocks_disjointI:
  "\<forall>a. blocks_count bs a \<le> 1 \<Longrightarrow> list_all (\<lambda>(p, n). 0 < n) bs \<Longrightarrow>
   sorted_wrt (\<lambda>(p, n) (q, m). disjoint_ranges p n q m) bs"
proof (induction bs)
  case (Cons b bs)
  obtain p n where b: "b = (p, n)" by fastforce
  have "disjoint_ranges p n q m" if "(q, m) \<in> set bs" for q m
  proof (rule ccontr)
    assume "\<not> disjoint_ranges p n q m"
    moreover have "0 < n" "0 < m" using Cons.prems(2) that by (auto simp: b list_all_iff)
    ultimately have "occ p n (max p q) = 1" "occ q m (max p q) = 1"
      by (auto simp: disjoint_ranges_def occ_def)
    with blocks_count_member [OF that, of "max p q"] Cons.prems(1) show False
      by (auto simp: b dest!: spec [of _ "max p q"])
  qed
  moreover have "\<forall>a. blocks_count bs a \<le> 1"
  proof
    fix a show "blocks_count bs a \<le> 1" using Cons.prems(1) [rule_format, of a] by (simp add: b)
  qed
  ultimately show ?case using Cons by (auto simp: b)
qed simp

lemma chunks_count_pos: "0 < chunks_count rs n a \<Longrightarrow> \<exists>r\<in>set rs. a \<in> range_of r n"
  by (induction rs) (auto simp: occ_def range_of_def split: if_splits)

text \<open>C6: whatever sequence of sizes is allocated from a state that starts as one region, the blocks
  handed out are pairwise disjoint and lie in the regions taken, also across states added on the way
  and beside the states themselves, provided the source of regions never hands out overlapping ones.\<close>

theorem state_blocks_disjoint:
  assumes "source_ok areg regs" and "size_of_state_ok sos" and "list_all request_ok szs"
    and "regs w = [r]" and "alloc_run areg sos n szs [from_region r] w = Some (bs, c', w')"
  shows "sorted_wrt (\<lambda>(p, n) (q, m). disjoint_ranges p n q m) bs
    \<and> (\<forall>(p, n)\<in>set bs. range_of p n \<subseteq> (\<Union>q\<in>set (regs w'). range_of q REGION_SIZE))"
proof -
  have "regions_disjoint (regs w)" by (simp add: assms(4) regions_disjoint_def)
  then have "regions_own areg sos regs [from_region r] w (\<lambda>a. 0)"
    using assms(1,2) state_count_from_region [of sos r]
    by (simp add: regions_own_def assms(4) regs_count_def any_chunks)
  from alloc_run_owned [OF assms(5,3) _ this]
  have k: "list_all (\<lambda>(p, n). 0 < n) bs" "regions_own areg sos regs c' w' (blocks_count bs)" by simp_all
  have le: "blocks_count bs a \<le> regs_count regs w' a" for a
    using k(2) by (auto simp: regions_own_def dest!: spec [of _ a])
  moreover have "regs_count regs w' a \<le> 1" for a
    using k(2) chunks_count_le_1 by (simp add: regs_count_def regions_disjoint_def regions_own_def)
  ultimately have "blocks_count bs a \<le> 1" for a by (meson le_trans)
  with k(1) have "sorted_wrt (\<lambda>(p, n) (q, m). disjoint_ranges p n q m) bs"
    by (intro blocks_disjointI) simp_all
  moreover have "range_of p n \<subseteq> (\<Union>q\<in>set (regs w'). range_of q REGION_SIZE)" if "(p, n) \<in> set bs" for p n
  proof
    fix a assume "a \<in> range_of p n"
    then have "0 < occ p n a" by (simp add: range_of_def occ_def)
    with blocks_count_member [OF that, of a] le [of a] have "0 < regs_count regs w' a" by linarith
    then show "a \<in> (\<Union>q\<in>set (regs w'). range_of q REGION_SIZE)"
      using chunks_count_pos by (auto simp: regs_count_def)
  qed
  ultimately show ?thesis by blast
qed

lemma no_more_regions_ok: "source_ok no_more_regions (\<lambda>w. w)"
  by (simp add: source_ok_def no_more_regions_def)

theorem state_blocks_disjoint_witness:
  "\<exists>c' w'. alloc_run no_more_regions 14408 3 [64, 64] [from_region REGION_SIZE] [REGION_SIZE]
     = Some ([(34078656, 64), (34078592, 64)], c', w')
     \<and> range_of 34078656 64 \<subseteq> (\<Union>q\<in>set w'. range_of q REGION_SIZE)"
proof -
  obtain c' where run: "alloc_run no_more_regions 14408 3 [64, 64] [from_region REGION_SIZE] [REGION_SIZE]
      = Some ([(34078656, 64), (34078592, 64)], c', [REGION_SIZE])"
    by (simp add: state_alloc_size_def alloc_size_def alloc_size_slow_def size_class_define_def
      numeral_3_eq_3 get_free_common_chunk_step_def from_region_commons used_chunk_def last_map
      case_prod_unfold Let_def layout_simps)
  have "size_of_state_ok 14408" "list_all request_ok [64, 64]"
    by (simp_all add: size_of_state_ok_def request_ok_def layout_simps)
  from state_blocks_disjoint [OF no_more_regions_ok this refl run] run show ?thesis by auto
qed

end
