(* ===== verification/BTreeRange.thy ===== *)
theory BTreeRange
  imports BTreeRemove
begin

text \<open>
  Searching by bounds (\<open>search.rs\<close>) and the ranges of \<open>navigate.rs\<close>: the leaf edges that delimit the keys
  within two bounds, and the iteration between them, which compares the two edges at every step.
\<close>

section \<open>Bounds\<close>

text \<open>\<open>core::ops::Bound\<close>, and the bound of a search, which may have become unconditional.\<close>

datatype 'k Bound = Bound_Included 'k | Bound_Excluded 'k | Unbounded

datatype 'k SearchBound = Included 'k | Excluded 'k | AllIncluded | AllExcluded

fun from_range :: "'k Bound \<Rightarrow> 'k SearchBound" where
  "from_range (Bound_Included t) = Included t"
| "from_range (Bound_Excluded t) = Excluded t"
| "from_range Unbounded = AllIncluded"

definition find_lower_bound_index :: "'k::linorder SearchBound \<Rightarrow> ('k, 'v) node \<Rightarrow> nat \<times> 'k SearchBound" where
  "find_lower_bound_index b n =
     (case b of
        Included key \<Rightarrow> (case find_key_index key n 0 of KV i \<Rightarrow> (i, AllExcluded) | Edge i \<Rightarrow> (i, b))
      | Excluded key \<Rightarrow> (case find_key_index key n 0 of KV i \<Rightarrow> (i + 1, AllIncluded) | Edge i \<Rightarrow> (i, b))
      | AllIncluded \<Rightarrow> (0, AllIncluded)
      | AllExcluded \<Rightarrow> (node_len n, AllExcluded))"

definition find_upper_bound_index :: "'k::linorder SearchBound \<Rightarrow> nat \<Rightarrow> ('k, 'v) node \<Rightarrow> nat \<times> 'k SearchBound" where
  "find_upper_bound_index b start_index n =
     (case b of
        Included key \<Rightarrow> (case find_key_index key n start_index of KV i \<Rightarrow> (i + 1, AllExcluded) | Edge i \<Rightarrow> (i, b))
      | Excluded key \<Rightarrow> (case find_key_index key n start_index of KV i \<Rightarrow> (i, AllIncluded) | Edge i \<Rightarrow> (i, b))
      | AllIncluded \<Rightarrow> (node_len n, AllIncluded)
      | AllExcluded \<Rightarrow> (start_index, AllExcluded))"

definition find_lower_bound_edge :: "'k::linorder SearchBound \<Rightarrow> ('k, 'v) node \<Rightarrow> ('k, 'v) frame list \<Rightarrow> ('k, 'v) handle \<times> 'k SearchBound" where
  "find_lower_bound_edge b n fs = (case find_lower_bound_index b n of (i, b') \<Rightarrow> ((n, i, fs), b'))"

definition find_upper_bound_edge :: "'k::linorder SearchBound \<Rightarrow> ('k, 'v) node \<Rightarrow> ('k, 'v) frame list \<Rightarrow> ('k, 'v) handle \<times> 'k SearchBound" where
  "find_upper_bound_edge b n fs = (case find_upper_bound_index b 0 n of (i, b') \<Rightarrow> ((n, i, fs), b'))"

section \<open>Descending\<close>

text \<open>The loops descend along an edge of an internal node. In a well-formed tree the edge exists (the source
  reads it unchecked); the model stops where it does not.\<close>

abbreviation has_edge :: "('k, 'v) node \<Rightarrow> nat \<Rightarrow> bool" where
  "has_edge n i \<equiv> i < length (edges n)"

function lower_bound :: "'k::linorder SearchBound \<Rightarrow> ('k, 'v) node \<Rightarrow> ('k, 'v) frame list \<Rightarrow> ('k, 'v) handle" where
  "lower_bound b n fs =
     (case find_lower_bound_edge b n fs of ((_, i, _), b') \<Rightarrow>
        if has_edge n i then lower_bound b' (edges n ! i) ((n, i) # fs) else (n, i, fs))"
  by pat_completeness auto

termination
  by (relation "measure (\<lambda>(_, n, _). size n)") (auto intro: size_edge nth_mem)

function upper_bound :: "'k::linorder SearchBound \<Rightarrow> ('k, 'v) node \<Rightarrow> ('k, 'v) frame list \<Rightarrow> ('k, 'v) handle" where
  "upper_bound b n fs =
     (case find_upper_bound_edge b n fs of ((_, i, _), b') \<Rightarrow>
        if has_edge n i then upper_bound b' (edges n ! i) ((n, i) # fs) else (n, i, fs))"
  by pat_completeness auto

termination
  by (relation "measure (\<lambda>(_, n, _). size n)") (auto intro: size_edge nth_mem)

text \<open>\<open>Inl\<close> is the leaf edge of \<open>Err\<close>; \<open>Inr\<close> the node with its two edges and the bounds for its children.\<close>

type_synonym ('k, 'v) bifurcation = "('k, 'v) handle + ('k, 'v) node \<times> ('k, 'v) frame list \<times> nat \<times> nat \<times> 'k SearchBound \<times> 'k SearchBound"

function bifurcation_loop ::
  "'k::linorder SearchBound \<Rightarrow> 'k SearchBound \<Rightarrow> ('k, 'v) node \<Rightarrow> ('k, 'v) frame list \<Rightarrow> ('k, 'v) bifurcation" where
  "bifurcation_loop lower upper n fs =
     (case find_lower_bound_index lower n of (i, lower') \<Rightarrow>
        case find_upper_bound_index upper i n of (j, upper') \<Rightarrow>
          if i < j then Inr (n, fs, i, j, lower', upper')
          else if has_edge n i then bifurcation_loop lower' upper' (edges n ! i) ((n, i) # fs)
          else Inl (n, i, fs))"
  by pat_completeness auto

termination
  by (relation "measure (\<lambda>(_, _, n, _). size n)") (auto intro: size_edge nth_mem)

declare lower_bound.simps [simp del] upper_bound.simps [simp del] bifurcation_loop.simps [simp del]

fun panics :: "'k::linorder Bound \<Rightarrow> 'k Bound \<Rightarrow> bool" where
  "panics (Bound_Excluded s) (Bound_Excluded e) = (s = e \<or> s > e)"
| "panics (Bound_Excluded s) (Bound_Included e) = (s > e)"
| "panics (Bound_Included s) (Bound_Included e) = (s > e)"
| "panics (Bound_Included s) (Bound_Excluded e) = (s > e)"
| "panics _ _ = False"

text \<open>\<open>None\<close> is the panic of impossible bounds.\<close>

definition search_tree_for_bifurcation :: "'k::linorder Bound \<Rightarrow> 'k Bound \<Rightarrow> ('k, 'v) node \<Rightarrow> ('k, 'v) bifurcation option" where
  "search_tree_for_bifurcation start end t =
     (if panics start end then None else Some (bifurcation_loop (from_range start) (from_range end) t []))"

record ('k, 'v) LeafRange =
  lr_front :: "('k, 'v) handle option"
  lr_back :: "('k, 'v) handle option"

definition no_range :: "('k, 'v) LeafRange" where
  "no_range = \<lparr>lr_front = None, lr_back = None\<rparr>"

text \<open>The loop that descends from the two edges. \<open>None\<close> is the branch for a tree of different depths, or a
  panic.\<close>

function span_loop :: "('k, 'v) handle \<Rightarrow> ('k, 'v) handle \<Rightarrow> 'k::linorder SearchBound \<Rightarrow> 'k SearchBound \<Rightarrow> ('k, 'v) LeafRange option" where
  "span_loop (n, i, fs) (n', j, fs') lower upper =
     (if edges n = [] \<and> edges n' = [] then Some \<lparr>lr_front = Some (n, i, fs), lr_back = Some (n', j, fs')\<rparr>
      else if has_edge n i \<and> has_edge n' j then
        case find_lower_bound_edge lower (edges n ! i) ((n, i) # fs) of (f, lower') \<Rightarrow>
          case find_upper_bound_edge upper (edges n' ! j) ((n', j) # fs') of (b, upper') \<Rightarrow>
            span_loop f b lower' upper'
      else None)"
  by pat_completeness auto

termination
  by (relation "measure (\<lambda>((n, _), _). size n)")
    (auto simp: find_lower_bound_edge_def split: prod.splits intro: size_edge nth_mem)

declare span_loop.simps [simp del]

definition find_leaf_edges_spanning_range :: "'k::linorder Bound \<Rightarrow> 'k Bound \<Rightarrow> ('k, 'v) node \<Rightarrow> ('k, 'v) LeafRange option" where
  "find_leaf_edges_spanning_range start end t =
     (case search_tree_for_bifurcation start end t of
        None \<Rightarrow> None
      | Some (Inl _) \<Rightarrow> Some no_range
      | Some (Inr (n, fs, i, j, lower, upper)) \<Rightarrow> span_loop (n, i, fs) (n, j, fs) lower upper)"

section \<open>Iterating over a range\<close>

text \<open>Handles are equal when they are the same place: the node, which within a tree is the way to it, and the index.\<close>

definition same_place :: "('k, 'v) handle \<Rightarrow> ('k, 'v) handle \<Rightarrow> bool" where
  "same_place h h' \<longleftrightarrow> map snd (snd (snd h)) = map snd (snd (snd h')) \<and> fst (snd h) = fst (snd h')"

definition lr_is_empty :: "('k, 'v) LeafRange \<Rightarrow> bool" where
  "lr_is_empty r = (case (lr_front r, lr_back r) of
     (None, None) \<Rightarrow> True | (Some f, Some b) \<Rightarrow> same_place f b | _ \<Rightarrow> False)"

text \<open>\<open>None\<close> for the whole is the panic of an \<open>unwrap\<close>.\<close>

definition next_checked :: "('k, 'v) LeafRange \<Rightarrow> (('k \<times> 'v) option \<times> ('k, 'v) LeafRange) option" where
  "next_checked r =
     (if lr_is_empty r then Some (None, r)
      else Option.bind (lr_front r) (\<lambda>f. Option.bind (next_kv f) (\<lambda>h.
        Some (Some (into_kv h), r\<lparr>lr_front := Some (next_leaf_edge h)\<rparr>))))"

definition next_back_checked :: "('k, 'v) LeafRange \<Rightarrow> (('k \<times> 'v) option \<times> ('k, 'v) LeafRange) option" where
  "next_back_checked r =
     (if lr_is_empty r then Some (None, r)
      else Option.bind (lr_back r) (\<lambda>b. Option.bind (next_back_kv b) (\<lambda>h.
        Some (Some (into_kv h), r\<lparr>lr_back := Some (next_back_leaf_edge h)\<rparr>))))"

fun iterate_range :: "bool list \<Rightarrow> ('k, 'v) LeafRange \<Rightarrow> (('k \<times> 'v) option list \<times> ('k, 'v) LeafRange) option" where
  "iterate_range [] r = Some ([], r)"
| "iterate_range (b # bs) r =
     (case (if b then next_back_checked r else next_checked r) of
        None \<Rightarrow> None
      | Some (x, r') \<Rightarrow> map_option (\<lambda>(xs, r''). (x # xs, r'')) (iterate_range bs r'))"


section \<open>Where a bound cuts the keys\<close>

text \<open>The keys before a lower bound, and those up to an upper bound.\<close>

fun before_lower :: "'k::linorder SearchBound \<Rightarrow> 'k \<Rightarrow> bool" where
  "before_lower (Included s) k = (k < s)"
| "before_lower (Excluded s) k = (k \<le> s)"
| "before_lower AllIncluded k = False"
| "before_lower AllExcluded k = True"

fun within_upper :: "'k::linorder SearchBound \<Rightarrow> 'k \<Rightarrow> bool" where
  "within_upper (Included e) k = (k \<le> e)"
| "within_upper (Excluded e) k = (k < e)"
| "within_upper AllIncluded k = True"
| "within_upper AllExcluded k = False"

text \<open>An upper bound is a lower bound seen from the other side.\<close>

fun flip :: "'k SearchBound \<Rightarrow> 'k SearchBound" where
  "flip (Included k) = Excluded k"
| "flip (Excluded k) = Included k"
| "flip AllIncluded = AllExcluded"
| "flip AllExcluded = AllIncluded"

lemma flip_flip [simp]: "flip (flip b) = b" by (cases b) simp_all

lemma within_flip: "within_upper b = before_lower (flip b)"
  by (rule ext, cases b) simp_all

lemma upper_index_flip: "find_upper_bound_index b 0 n = map_prod id flip (find_lower_bound_index (flip b) n)"
  by (cases b) (auto simp: find_upper_bound_index_def find_lower_bound_index_def split: IndexResult.splits)

lemma upper_edge_flip: "find_upper_bound_edge b n fs = map_prod id flip (find_lower_bound_edge (flip b) n fs)"
  by (simp add: find_upper_bound_edge_def find_lower_bound_edge_def upper_index_flip case_prod_unfold)

lemma upper_bound_flip: "upper_bound b n fs = lower_bound (flip b) n fs"
proof (induction b n fs rule: upper_bound.induct)
  case (1 b n fs)
  then show ?case
    by (simp add: upper_bound.simps [of b] lower_bound.simps [of "flip b"] upper_edge_flip split: prod.splits)
qed

lemma before_lower_mono: "before_lower b y \<Longrightarrow> x \<le> y \<Longrightarrow> before_lower b x"
  by (cases b) auto

definition downward :: "('k::linorder \<Rightarrow> bool) \<Rightarrow> bool" where
  "downward P \<longleftrightarrow> (\<forall>x y. P y \<longrightarrow> x \<le> y \<longrightarrow> P x)"

lemma downward_before [simp]: "downward (before_lower b)"
  unfolding downward_def using before_lower_mono by blast

lemma downward_within [simp]: "downward (within_upper b)"
  by (simp add: within_flip)

text \<open>The index \<open>i\<close> separates the keys of the node that have the property from those that do not; a key is at
  edge \<open>i\<close> when it lies between the keys around it.\<close>

definition cuts :: "('k \<Rightarrow> bool) \<Rightarrow> ('k, 'v) node \<Rightarrow> nat \<Rightarrow> bool" where
  "cuts P n i \<longleftrightarrow> i \<le> node_len n \<and> (\<forall>m < i. P (keys n ! m)) \<and> (i < node_len n \<longrightarrow> \<not> P (keys n ! i))"

definition at_gap :: "('k::linorder, 'v) node \<Rightarrow> nat \<Rightarrow> 'k \<Rightarrow> bool" where
  "at_gap n i k \<longleftrightarrow> (\<forall>m < i. keys n ! m < k) \<and> (i < node_len n \<longrightarrow> k < keys n ! i)"

text \<open>The index in a node: the keys left of it are before the bound, the others are not; in the child there the
  new bound cuts like the old one.\<close>

lemma lower_index_cut:
  assumes "find_lower_bound_index b n = (i, b')" and "sorted_wrt (<) (keys n)"
  shows "cuts (before_lower b) n i" and "\<forall>k. at_gap n i k \<longrightarrow> before_lower b' k = before_lower b k"
proof -
  have s: "keys n ! m < keys n ! j" if "m < j" "j < node_len n" for m j
    using sorted_wrt_nth_less [OF assms(2)] that by blast
  have "i \<le> node_len n \<and> (\<forall>m<i. before_lower b (keys n ! m)) \<and> (i < node_len n \<longrightarrow> \<not> before_lower b (keys n ! i))
      \<and> (\<forall>k. (\<forall>m<i. keys n ! m < k) \<longrightarrow> (i < node_len n \<longrightarrow> k < keys n ! i) \<longrightarrow> before_lower b' k = before_lower b k)"
  proof (cases b)
    case (Included key)
    show ?thesis
    proof (cases "find_key_index key n 0")
      case (KV j)
      with assms(1) Included find_key_index_KV [OF KV] s show ?thesis by (auto simp: find_lower_bound_index_def)
    next
      case (Edge j)
      with assms(1) Included find_key_index_Edge [OF Edge] show ?thesis by (auto simp: find_lower_bound_index_def)
    qed
  next
    case (Excluded key)
    show ?thesis
    proof (cases "find_key_index key n 0")
      case (KV j)
      note f = find_key_index_KV [OF KV]
      have i: "i = Suc j" "b' = AllIncluded" using assms(1) Excluded KV by (simp_all add: find_lower_bound_index_def)
      have "keys n ! m \<le> key" if "m < Suc j" for m using that s [of m j] f by (cases "m = j") auto
      moreover have "\<not> keys n ! Suc j \<le> key" if "Suc j < node_len n" using s [of j "Suc j"] f that by auto
      moreover have "\<not> k \<le> key" if "\<forall>m<Suc j. keys n ! m < k" for k using that f by auto
      ultimately show ?thesis using f by (auto simp: i Excluded)
    next
      case (Edge j)
      with assms(1) Excluded find_key_index_Edge [OF Edge] show ?thesis by (auto simp: find_lower_bound_index_def)
    qed
  qed (use assms(1) in \<open>auto simp: find_lower_bound_index_def\<close>)
  then show "cuts (before_lower b) n i" and "\<forall>k. at_gap n i k \<longrightarrow> before_lower b' k = before_lower b k"
    unfolding cuts_def at_gap_def by blast+
qed


lemma find_key_index_from:
  assumes "s \<le> node_len n"
  shows "find_key_index key n s = KV i \<Longrightarrow> s \<le> i \<and> i < node_len n \<and> keys n ! i = key"
    and "find_key_index key n s = Edge i \<Longrightarrow> s \<le> i \<and> i \<le> node_len n
      \<and> (\<forall>m. s \<le> m \<longrightarrow> m < i \<longrightarrow> keys n ! m < key) \<and> (i < node_len n \<longrightarrow> key < keys n ! i)"
proof -
  show "s \<le> i \<and> i < node_len n \<and> keys n ! i = key" if "find_key_index key n s = KV i"
    using find_key_from_KV [of key "drop s (keys n)" s i] that assms by (auto simp: find_key_index_def)
  assume "find_key_index key n s = Edge i"
  then have e: "s \<le> i" "i - s \<le> node_len n - s" "\<forall>m<i - s. keys n ! (s + m) < key"
    "i - s < node_len n - s \<longrightarrow> key < keys n ! (s + (i - s))"
    using find_key_from_Edge [of key "drop s (keys n)" s i] assms by (auto simp: find_key_index_def)
  have "keys n ! m < key" if "s \<le> m" "m < i" for m
    using e(3) [rule_format, of "m - s"] that by simp
  with e assms show "s \<le> i \<and> i \<le> node_len n \<and> (\<forall>m. s \<le> m \<longrightarrow> m < i \<longrightarrow> keys n ! m < key)
      \<and> (i < node_len n \<longrightarrow> key < keys n ! i)" by auto
qed

text \<open>The upper bound may start its search at the index of the lower bound, the keys before which are all
  within the upper bound.\<close>

lemma upper_index_cut:
  assumes run: "find_upper_bound_index b s n = (j, b')" and sorted: "sorted_wrt (<) (keys n)"
    and s: "s \<le> node_len n" "\<forall>m < s. within_upper b (keys n ! m)"
  shows "s \<le> j" and "cuts (within_upper b) n j" and "\<forall>k. at_gap n j k \<longrightarrow> within_upper b' k = within_upper b k"
proof -
  have less: "keys n ! m < keys n ! i" if "m < i" "i < node_len n" for m i
    using sorted_wrt_nth_less [OF sorted] that by blast
  have "s \<le> j \<and> j \<le> node_len n \<and> (\<forall>m<j. within_upper b (keys n ! m)) \<and> (j < node_len n \<longrightarrow> \<not> within_upper b (keys n ! j))
      \<and> (\<forall>k. (\<forall>m<j. keys n ! m < k) \<longrightarrow> (j < node_len n \<longrightarrow> k < keys n ! j) \<longrightarrow> within_upper b' k = within_upper b k)"
  proof (cases b)
    case (Included key)
    show ?thesis
    proof (cases "find_key_index key n s")
      case (KV i)
      note f = find_key_index_from(1) [OF s(1) KV]
      have i: "j = Suc i" "b' = AllExcluded" using run Included KV by (simp_all add: find_upper_bound_index_def)
      have "keys n ! m \<le> key" if "m < Suc i" for m using that less [of m i] f by (cases "m = i") auto
      moreover have "\<not> keys n ! Suc i \<le> key" if "Suc i < node_len n" using less [of i "Suc i"] f that by auto
      moreover have "\<not> k \<le> key" if "\<forall>m<Suc i. keys n ! m < k" for k using that f by auto
      ultimately show ?thesis using f by (auto simp: i Included)
    next
      case (Edge i)
      have "j = i" "b' = b" using run Included Edge by (simp_all add: find_upper_bound_index_def)
      note f = find_key_index_from(2) [OF s(1) Edge]
      then have "keys n ! m \<le> key" if "m < i" for m
        using that s(2) by (cases "m < s") (auto simp: Included intro: less_imp_le)
      with f \<open>j = i\<close> \<open>b' = b\<close> show ?thesis by (auto simp: Included)
    qed
  next
    case (Excluded key)
    show ?thesis
    proof (cases "find_key_index key n s")
      case (KV i)
      note f = find_key_index_from(1) [OF s(1) KV]
      have "j = i" "b' = AllIncluded" using run Excluded KV by (simp_all add: find_upper_bound_index_def)
      with f less show ?thesis by (auto simp: Excluded)
    next
      case (Edge i)
      have "j = i" "b' = b" using run Excluded Edge by (simp_all add: find_upper_bound_index_def)
      note f = find_key_index_from(2) [OF s(1) Edge]
      then have "keys n ! m < key" if "m < i" for m
        using that s(2) by (cases "m < s") (auto simp: Excluded)
      with f \<open>j = i\<close> \<open>b' = b\<close> show ?thesis by (auto simp: Excluded)
    qed
  qed (use run s in \<open>auto simp: find_upper_bound_index_def\<close>)
  then show "s \<le> j" and "cuts (within_upper b) n j" and "\<forall>k. at_gap n j k \<longrightarrow> within_upper b' k = within_upper b k"
    unfolding cuts_def at_gap_def by blast+
qed

text \<open>The positions of the pairs of a node grow with the index.\<close>

lemma sofar_prefix:
  assumes "wf_node h n" and "i \<le> node_len n"
  shows "\<exists>xs. upto_kv n i = sofar n i @ xs"
proof (cases h)
  case 0
  with assms sofar_leaf [of n i] show ?thesis by simp
next
  case (Suc h')
  with assms sofar_lefts [of h' n i] upto_kv_internal [of h' n i] show ?thesis by simp
qed

lemma upto_less_sofar:
  assumes n: "wf_node h n" and "i < j" and "j \<le> node_len n"
  shows "length (upto_kv n i) < length (sofar n j)"
  using assms(2,3)
proof (induction j)
  case (Suc j)
  have s: "length (sofar n (Suc j)) = Suc (length (upto_kv n j))" by (simp add: sofar_def)
  show ?case
  proof (cases "i = j")
    case False
    obtain xs where "upto_kv n j = sofar n j @ xs" using sofar_prefix [OF n, of j] Suc.prems by auto
    with Suc False s show ?thesis by simp
  qed (simp add: s)
qed simp

lemma keys_of_ordered:
  assumes n: "wf_node h n" and ord: "ordered (inorder n)"
  shows "sorted_wrt (<) (keys n)" and "i < node_len n \<Longrightarrow> keys n ! i \<in> fst ` set (inorder n)"
proof -
  have at: "length (upto_kv n i) < length (inorder n) \<and> map fst (inorder n) ! length (upto_kv n i) = keys n ! i"
    if "i < node_len n" for i
    unfolding inorder_kv_split [OF n that] by (simp add: nth_append)
  show "keys n ! i \<in> fst ` set (inorder n)" if "i < node_len n"
    using at [OF that] by (metis length_map nth_mem set_map)
  show "sorted_wrt (<) (keys n)"
  proof (rule sorted_wrt_iff_nth_less [THEN iffD2], intro allI impI)
    fix i j assume ij: "i < j" "j < length (keys n)"
    obtain xs where "upto_kv n j = sofar n j @ xs" using sofar_prefix [OF n, of j] ij by auto
    then have "length (upto_kv n i) < length (upto_kv n j)" using upto_less_sofar [OF n, of i j] ij by simp
    then have "map fst (inorder n) ! length (upto_kv n i) < map fst (inorder n) ! length (upto_kv n j)"
      using at [of j] ij(2) ord unfolding ordered_def by (intro sorted_wrt_nth_less [of "(<)"]) simp_all
    then show "keys n ! i < keys n ! j" using at [of i] at [of j] ij by (metis less_trans)
  qed
qed

text \<open>An index that cuts the keys of a node by a downward closed property cuts the pairs below it.\<close>

lemma node_cut:
  fixes n :: "('k::linorder, 'v) node"
  assumes n: "wf_node h n" and ord: "ordered (inorder n)" and P: "cuts P n i" "downward P"
  shows "\<forall>p\<in>set (sofar n i). P (fst p)"
    and "h = 0 \<Longrightarrow> filter (P \<circ> fst) (inorder n) = upto_kv n i"
    and "h = Suc h' \<Longrightarrow> \<forall>p\<in>set (rights n i). \<not> P (fst p)"
    and "h = Suc h' \<Longrightarrow> p \<in> set (inorder (edges n ! i)) \<Longrightarrow> at_gap n i (fst p)"
proof -
  have i: "i \<le> node_len n" and cut: "\<forall>m < i. P (keys n ! m)" "i < node_len n \<Longrightarrow> \<not> P (keys n ! i)"
    and down: "\<And>x y. P y \<Longrightarrow> x \<le> y \<Longrightarrow> P x"
    using P unfolding cuts_def downward_def by blast+
  have behind: "\<not> P (fst p)" if "i < node_len n" "p = (keys n ! i, vals n ! i) \<or> p \<in> set (from_kv n i)" for p
    using that cut(2) down [of "fst p" "keys n ! i"] ord inorder_kv_split [OF n that(1)]
    by (auto simp: ordered_append ordered_Cons less_imp_le)
  show before: "\<forall>p\<in>set (sofar n i). P (fst p)"
  proof (cases i)
    case (Suc j)
    then have j: "j < node_len n" "P (keys n ! j)" using i cut(1) by simp_all
    then have "\<forall>p\<in>set (upto_kv n j). P (fst p)"
      using ord inorder_kv_split [OF n j(1)] down [OF j(2)] by (auto simp: ordered_append ordered_Cons less_imp_le)
    with j Suc show ?thesis by (auto simp: sofar_def)
  qed (simp add: sofar_def)
  show "filter (P \<circ> fst) (inorder n) = upto_kv n i" if h: "h = 0"
  proof -
    have u: "sofar n i = upto_kv n i" using sofar_leaf n i h by simp
    show ?thesis
    proof (cases "i < node_len n")
      case True
      show ?thesis
        unfolding inorder_kv_split [OF n True] filter_append
        using before behind [OF True] cut(2) [OF True] by (simp add: u filter_empty_conv)
    next
      case False
      then have "upto_kv n i = inorder n" using i upto_kv_len [OF n] by simp
      with before u show ?thesis by simp
    qed
  qed
  assume h: "h = Suc h'"
  note n' = n [unfolded h]
  have io: "inorder n = lefts n i @ inorder (edges n ! i) @ rights n i"
    using inorder_at [OF n' i, of "edges n ! i"] by (cases n) (simp add: set_edge_def)
  show r: "\<forall>p\<in>set (rights n i). \<not> P (fst p)"
  proof (cases "i < node_len n")
    case True
    have "inorder n = (lefts n i @ inorder (edges n ! i)) @ (keys n ! i, vals n ! i) # from_kv n i"
      using inorder_kv_split [OF n True] upto_kv_internal [OF n' i] by simp
    then have "rights n i = (keys n ! i, vals n ! i) # from_kv n i" using io by simp
    with behind [OF True] show ?thesis by auto
  next
    case False
    with rights_len [OF n, of i] show ?thesis by simp
  qed
  assume p: "p \<in> set (inorder (edges n ! i))"
  have "keys n ! m < fst p" if m: "m < i" for m
  proof -
    obtain xs where "lefts n i = xs @ [(keys n ! (i - 1), vals n ! (i - 1))]"
      using lefts_last [OF n', of i] m i by auto
    moreover have "\<forall>q\<in>set (lefts n i). fst q < fst p" using ord p io by (auto simp: ordered_append)
    ultimately have "keys n ! (i - 1) < fst p" by simp
    moreover have "keys n ! m \<le> keys n ! (i - 1)"
      using sorted_wrt_nth_less [OF keys_of_ordered(1) [OF n ord], of m "i - 1"] m i by (cases "m = i - 1") (simp_all add: less_imp_le)
    ultimately show ?thesis by simp
  qed
  moreover have "fst p < keys n ! i" if len: "i < node_len n"
  proof -
    obtain xs where xs: "rights n i = (keys n ! i, vals n ! i) # xs" using rights_first [OF n' len] .
    have "\<forall>q\<in>set (rights n i). fst p < fst q" using ord p io by (auto simp: ordered_append)
    with xs show ?thesis by simp
  qed
  ultimately show "at_gap n i (fst p)" unfolding at_gap_def by blast
qed


section \<open>The leaf edge of a bound\<close>

text \<open>From the edge of a node down to a leaf, as the loops of \<open>lower_bound\<close> and of the range do.\<close>

definition to_lower :: "('k, 'v) handle \<Rightarrow> 'k::linorder SearchBound \<Rightarrow> ('k, 'v) handle" where
  "to_lower e b = (case e of (n, i, fs) \<Rightarrow> if edges n = [] then e else lower_bound b (edges n ! i) ((n, i) # fs))"

definition to_upper :: "('k, 'v) handle \<Rightarrow> 'k::linorder SearchBound \<Rightarrow> ('k, 'v) handle" where
  "to_upper e b = to_lower e (flip b)"

lemma has_edge_iff: "wf_node h n \<Longrightarrow> i \<le> node_len n \<Longrightarrow> has_edge n i \<longleftrightarrow> edges n \<noteq> []"
  using wf_lengths [of h n] by (cases h) auto

lemma cut_child:
  assumes r: "wf_ref H (Suc h) n fs" and ord: "ordered (inorder n)" and P: "cuts P n i" "downward P"
    and same: "\<forall>k. at_gap n i k \<longrightarrow> P' k = P k"
  shows "ordered (inorder (edges n ! i))"
    and "all_left ((n, i) # fs) @ filter (P' \<circ> fst) (inorder (edges n ! i)) = all_left fs @ filter (P \<circ> fst) (inorder n)"
    and "\<forall>p\<in>set (inorder (edges n ! i)). P' (fst p) = P (fst p)"
proof -
  note n = wf_ref_frames(2) [OF r]
  note c = node_cut [OF n ord P]
  have i: "i \<le> node_len n" using P(1) by (simp add: cuts_def)
  have io: "inorder n = lefts n i @ inorder (edges n ! i) @ rights n i"
    using inorder_at [OF n i, of "edges n ! i"] by (cases n) (simp add: set_edge_def)
  show "ordered (inorder (edges n ! i))" using ord io by (simp add: ordered_append)
  show e: "\<forall>p\<in>set (inorder (edges n ! i)). P' (fst p) = P (fst p)"
    using c(4) [OF refl] same by blast
  have "filter (P' \<circ> fst) (inorder (edges n ! i)) = filter (P \<circ> fst) (inorder (edges n ! i))"
    by (rule filter_cong) (use e in auto)
  moreover have "filter (P \<circ> fst) (lefts n i) = lefts n i"
    using c(1) sofar_lefts [OF n i] by simp
  moreover have "filter (P \<circ> fst) (rights n i) = []"
    using c(3) [OF refl] by (simp add: filter_empty_conv)
  ultimately show "all_left ((n, i) # fs) @ filter (P' \<circ> fst) (inorder (edges n ! i))
      = all_left fs @ filter (P \<circ> fst) (inorder n)"
    by (simp add: io)
qed

lemma cut_leaf:
  assumes r: "wf_ref H 0 n fs" and ord: "ordered (inorder n)" and P: "cuts P n i" "downward P"
  shows "at_edge H (zip_up n fs) (n, i, fs) (all_left fs @ filter (P \<circ> fst) (inorder n))"
  using node_cut(2) [OF wf_ref_frames(2) [OF r] ord P refl] r P(1) by (simp add: at_edge_def cuts_def)

lemma lower_bound_at:
  assumes "wf_ref H h n fs" and "ordered (inorder n)"
  shows "at_edge H (zip_up n fs) (lower_bound b n fs) (all_left fs @ filter (before_lower b \<circ> fst) (inorder n))"
  using assms
proof (induction b n fs arbitrary: h rule: lower_bound.induct)
  case (1 b n fs)
  note f = wf_ref_frames [OF 1(2)]
  obtain i b' where i: "find_lower_bound_index b n = (i, b')" by (cases "find_lower_bound_index b n")
  then have e: "find_lower_bound_edge b n fs = ((n, i, fs), b')" by (simp add: find_lower_bound_edge_def)
  note c = lower_index_cut [OF i keys_of_ordered(1) [OF f(2) 1(3)]]
  then have len: "i \<le> node_len n" by (simp add: cuts_def)
  show ?case
  proof (cases h)
    case 0
    then have "edges n = []" using leaf_edges [OF f(2)] by simp
    with cut_leaf [OF 1(2) [unfolded 0] 1(3) c(1)] e show ?thesis
      by (simp add: lower_bound.simps [of b] comp_def)
  next
    case (Suc h')
    note r = 1(2) [unfolded Suc]
    note d = wf_ref_descend [OF r len]
    note cc = cut_child [OF r 1(3) c(1) downward_before c(2)]
    have "has_edge n i" using has_edge_iff [OF f(2) len] leaf_edges [OF f(2)] Suc by simp
    with 1(1) [OF e [symmetric] refl refl this d(1) cc(1), unfolded d(2) comp_def cc(2) [unfolded comp_def]] show ?thesis
      by (simp add: lower_bound.simps [of b n] e comp_def)
  qed
qed

lemma to_lower_at:
  assumes r: "wf_ref H h n fs" and ord: "ordered (inorder n)" and c: "cuts P n i" "downward P"
    and same: "\<forall>k. at_gap n i k \<longrightarrow> before_lower b' k = P k"
  shows "at_edge H (zip_up n fs) (to_lower (n, i, fs) b') (all_left fs @ filter (P \<circ> fst) (inorder n))"
proof (cases h)
  case 0
  have "edges n = []" using leaf_edges [OF wf_ref_frames(2) [OF r]] 0 by simp
  with cut_leaf [OF r [unfolded 0] ord c] show ?thesis by (simp add: to_lower_def)
next
  case (Suc h')
  note r' = r [unfolded Suc]
  have "i \<le> node_len n" using c(1) by (simp add: cuts_def)
  note d = wf_ref_descend [OF r' this]
  note cc = cut_child [OF r' ord c same]
  have "edges n \<noteq> []" using leaf_edges [OF wf_ref_frames(2) [OF r]] Suc by simp
  with lower_bound_at [OF d(1) cc(1), of b', unfolded d(2)] show ?thesis
    unfolding cc(2) [symmetric] by (simp add: to_lower_def)
qed

lemma upper_bound_at:
  assumes "wf_ref H h n fs" and "ordered (inorder n)"
  shows "at_edge H (zip_up n fs) (upper_bound b n fs) (all_left fs @ filter (within_upper b \<circ> fst) (inorder n))"
  unfolding upper_bound_flip within_flip by (rule lower_bound_at [OF assms])


section \<open>The two edges of a range\<close>

lemma lower_index_le: "find_lower_bound_index b n = (i, b') \<Longrightarrow> i \<le> node_len n"
  using find_key_index_KV find_key_index_Edge
  by (cases b) (fastforce simp: find_lower_bound_index_def split: IndexResult.splits)+

lemma lower_bound_step:
  assumes "wf_node h n" and "find_lower_bound_index b n = (i, b')"
  shows "lower_bound b n fs = to_lower (n, i, fs) b'"
  using assms has_edge_iff [OF assms(1) lower_index_le [OF assms(2)]]
  by (simp add: lower_bound.simps [of b n] to_lower_def find_lower_bound_edge_def)

lemma to_lower_descend:
  assumes "wf_node (Suc h) n" and "i \<le> node_len n"
    and "find_lower_bound_index b (edges n ! i) = (i', b')"
  shows "to_lower (n, i, fs) b = to_lower (edges n ! i, i', (n, i) # fs) b'"
proof -
  have "i < length (edges n)" using wf_lengths [OF assms(1)] assms(2) by simp
  then have "wf_node h (edges n ! i)" "edges n \<noteq> []" using wf_edges [OF assms(1) nth_mem] by auto
  then show ?thesis using lower_bound_step [OF _ assms(3)] by (simp add: to_lower_def)
qed

text \<open>The loop goes down on both sides at once; each side ends where it would end alone.\<close>

lemma span_loop_leaves:
  assumes "wf_node h n" and "wf_node h n'" and "i \<le> node_len n" and "j \<le> node_len n'"
  shows "span_loop (n, i, fs) (n', j, fs') l u
    = Some \<lparr>lr_front = Some (to_lower (n, i, fs) l), lr_back = Some (to_upper (n', j, fs') u)\<rparr>"
  using assms
proof (induction h arbitrary: n n' i j fs fs' l u)
  case 0
  then have "edges n = []" "edges n' = []" using leaf_edges by blast+
  then show ?case by (simp add: span_loop.simps [of n] to_lower_def to_upper_def)
next
  case (Suc h)
  have e: "has_edge n i" "has_edge n' j" using Suc.prems wf_lengths by fastforce+
  obtain i' l' where l: "find_lower_bound_index l (edges n ! i) = (i', l')" by fastforce
  obtain j' u' where u: "find_lower_bound_index (flip u) (edges n' ! j) = (j', u')" by fastforce
  have "wf_node h (edges n ! i)" "wf_node h (edges n' ! j)"
    using wf_edges [OF Suc.prems(1) nth_mem [OF e(1)]] wf_edges [OF Suc.prems(2) nth_mem [OF e(2)]] by simp_all
  note ih = Suc.IH [OF this lower_index_le [OF l] lower_index_le [OF u]]
  have "edges n \<noteq> []" using e(1) by auto
  with ih e show ?case
    using to_lower_descend [OF Suc.prems(1,3) l] to_lower_descend [OF Suc.prems(2,4) u]
    by (simp add: span_loop.simps [of n] find_lower_bound_edge_def upper_edge_flip l u to_upper_def)
qed

text \<open>Down to the node where the two bounds part, or to the leaf edge that is the whole range.\<close>

definition range_edges :: "nat \<Rightarrow> ('k::linorder, 'v) node \<Rightarrow> ('k \<times> 'v) list \<Rightarrow> ('k \<times> 'v) list \<Rightarrow> ('k, 'v) bifurcation \<Rightarrow> bool" where
  "range_edges H t X Y r \<longleftrightarrow> (case r of
     Inl _ \<Rightarrow> X = Y
   | Inr (n, fs, i, j, l, u) \<Rightarrow> (\<exists>h. wf_node h n) \<and> i \<le> node_len n \<and> j \<le> node_len n
       \<and> at_edge H t (to_lower (n, i, fs) l) X \<and> at_edge H t (to_upper (n, j, fs) u) Y)"

lemma bifurcation_at:
  assumes "wf_ref H h n fs" and "ordered (inorder n)"
    and "\<forall>p\<in>set (inorder n). before_lower l (fst p) \<longrightarrow> within_upper u (fst p)"
  shows "range_edges H (zip_up n fs) (all_left fs @ filter (before_lower l \<circ> fst) (inorder n))
    (all_left fs @ filter (within_upper u \<circ> fst) (inorder n)) (bifurcation_loop l u n fs)"
  using assms
proof (induction l u n fs arbitrary: h rule: bifurcation_loop.induct)
  case (1 l u n fs)
  note f = wf_ref_frames [OF 1(2)]
  note ks = keys_of_ordered [OF f(2) 1(3)]
  obtain i l' where l: "find_lower_bound_index l n = (i, l')" by fastforce
  obtain j u' where u: "find_upper_bound_index u i n = (j, u')" by fastforce
  note cl = lower_index_cut [OF l ks(1)]
  have i: "i \<le> node_len n" "\<forall>m < i. before_lower l (keys n ! m)" using cl(1) by (simp_all add: cuts_def)
  have "\<forall>m < i. within_upper u (keys n ! m)"
    using i 1(4) ks(2) by (metis (no_types, lifting) imageE order_less_le_trans)
  note cu = upper_index_cut [OF u ks(1) i(1) this]
  have j: "j \<le> node_len n" using cu(2) by (simp add: cuts_def)
  show ?case
  proof (cases "i < j")
    case True
    have "\<forall>k. at_gap n j k \<longrightarrow> before_lower (flip u') k = within_upper u k" using cu(3) by (simp add: within_flip)
    note up = to_lower_at [OF 1(2,3) cu(2) downward_within this]
    from to_lower_at [OF 1(2,3) cl(1) downward_before cl(2)] up f(2) i(1) j True show ?thesis
      by (auto simp: bifurcation_loop.simps [of l u n] l u range_edges_def to_upper_def comp_def)
  next
    case False
    with cu(1) have ij: "j = i" by simp
    show ?thesis
    proof (cases h)
      case 0
      then have "edges n = []" using leaf_edges [OF f(2)] by simp
      with node_cut(2) [OF f(2) 1(3) cl(1) downward_before 0] node_cut(2) [OF f(2) 1(3) cu(2) downward_within 0] ij
      show ?thesis by (simp add: bifurcation_loop.simps [of l u n] l u range_edges_def comp_def)
    next
      case (Suc h')
      note r = 1(2) [unfolded Suc]
      note d = wf_ref_descend [OF r i(1)]
      note ccl = cut_child [OF r 1(3) cl(1) downward_before cl(2)]
      note ccu = cut_child [OF r 1(3) cu(2) [unfolded ij] downward_within cu(3) [unfolded ij]]
      have sub: "\<forall>p\<in>set (inorder (edges n ! i)). before_lower l (fst p) \<longrightarrow> within_upper u (fst p)"
        using 1(4) inorder_at [OF f(2) [unfolded Suc] i(1), of "edges n ! i"] by (cases n) (simp add: set_edge_def)
      have e: "has_edge n i" using has_edge_iff [OF f(2) i(1)] leaf_edges [OF f(2)] Suc by simp
      have "range_edges H (zip_up n fs) (all_left fs @ filter (before_lower l \<circ> fst) (inorder n))
          (all_left fs @ filter (within_upper u \<circ> fst) (inorder n)) (bifurcation_loop l' u' (edges n ! i) ((n, i) # fs))"
        using 1(1) [OF l [symmetric] u [symmetric] False e d(1) ccl(1)] sub ccl(3) ccu(3)
        unfolding d(2) ccl(2) ccu(2) by simp
      then show ?thesis using False e by (simp add: bifurcation_loop.simps [of l u n] l u comp_def)
    qed
  qed
qed


section \<open>A leaf edge is known by what is before it\<close>

lemma inorder_sofar:
  assumes n: "wf_node (Suc h) n" and i: "i \<le> node_len n"
  shows "\<exists>xs. inorder n = sofar n i @ inorder (edges n ! i) @ xs"
  using inorder_at [OF n i, of "edges n ! i"] sofar_lefts [OF n i] by (cases n) (auto simp: set_edge_def)

lemma pos_left_le: "wf_node h n \<Longrightarrow> vpath h n p \<Longrightarrow> length (pos_left n p) \<le> length (inorder n)"
proof (induction h n p rule: vpath.induct)
  case (2 n i "is")
  then show ?case using sofar_leaf [of n i] by (simp add: upto_kv_leaf)
next
  case (3 h n i "is")
  then have i: "i \<le> node_len n" "wf_node h (edges n ! i)"
    using wf_edges [OF 3(2) nth_mem] wf_lengths [OF 3(2)] by auto
  obtain xs where "inorder n = sofar n i @ inorder (edges n ! i) @ xs" using inorder_sofar [OF 3(2) i(1)] ..
  with 3(1) [OF i(2)] 3(3) show ?case by simp
qed simp

lemma pos_left_less:
  assumes n: "wf_node h n" and p: "vpath h n (i # is)" and q: "vpath h n (j # js)" and ij: "i < j"
  shows "length (pos_left n (i # is)) < length (pos_left n (j # js))"
proof -
  have j: "j \<le> node_len n" using q by (cases h) simp_all
  have "length (pos_left n (i # is)) \<le> length (upto_kv n i)"
  proof (cases h)
    case 0
    with p sofar_leaf [of n i] n show ?thesis by simp
  next
    case (Suc h')
    then have i: "i \<le> node_len n" "vpath h' (edges n ! i) is" using p by simp_all
    have "wf_node h' (edges n ! i)"
      using wf_edges [OF n [unfolded Suc] nth_mem] wf_lengths [OF n [unfolded Suc]] i(1) by auto
    from pos_left_le [OF this i(2)] show ?thesis
      using sofar_lefts [OF n [unfolded Suc] i(1)] upto_kv_internal [OF n [unfolded Suc] i(1)] by simp
  qed
  also have "\<dots> < length (sofar n j)" by (rule upto_less_sofar [OF n ij j])
  finally show ?thesis by simp
qed

lemma pos_left_unique:
  "wf_node h n \<Longrightarrow> vpath h n p \<Longrightarrow> vpath h n q \<Longrightarrow> pos_left n p = pos_left n q \<Longrightarrow> p = q"
proof (induction h n p arbitrary: q rule: vpath.induct)
  case (2 n i "is")
  then obtain j where q: "q = [j]" "is = []" by (cases q) auto
  with 2 pos_left_less [of 0 n i "[]" j "[]"] pos_left_less [of 0 n j "[]" i "[]"] show ?case
    by (cases i j rule: linorder_cases) auto
next
  case (3 h n i "is")
  then obtain j js where q: "q = j # js" by (cases q) auto
  with 3 pos_left_less [of "Suc h" n i "is" j js] pos_left_less [of "Suc h" n j js i "is"] have ij: "i = j"
    by (cases i j rule: linorder_cases) auto
  have "wf_node h (edges n ! i)"
    using wf_edges [OF 3(2) nth_mem] wf_lengths [OF 3(2)] 3(3) by auto
  from 3(1) [OF this, of js] 3(3-5) q ij show ?case by simp
qed simp

definition way :: "('k, 'v) handle \<Rightarrow> nat list" where
  "way h = (case h of (n, i, fs) \<Rightarrow> rev (map snd fs) @ [i])"

lemma same_place_way: "same_place h h' \<longleftrightarrow> way h = way h'"
  by (auto simp: same_place_def way_def split: prod.splits)

lemma at_edge_way:
  assumes "at_edge H t h X"
  shows "vpath H t (way h) \<and> pos_left t (way h) = X"
proof -
  obtain n i fs where h: "h = (n, i, fs)" by (cases h)
  with assms have e: "wf_ref H 0 n fs" "i \<le> node_len n" "zip_up n fs = t" "X = all_left fs @ upto_kv n i"
    by (simp_all add: at_edge_def)
  have "pos_left n [i] = upto_kv n i" using sofar_leaf [OF wf_ref_frames(2) [OF e(1)] e(2)] by simp
  with zip_up_path [OF e(1), of "[i]"] e show ?thesis by (simp add: way_def h del: pos_left.simps)
qed

lemma same_place_iff:
  assumes "wf_node H t" and "at_edge H t f X" and "at_edge H t b Y"
  shows "same_place f b \<longleftrightarrow> X = Y"
  unfolding same_place_way
  using pos_left_unique [OF assms(1)] at_edge_way [OF assms(2)] at_edge_way [OF assms(3)] by metis

section \<open>The range is a double-ended queue\<close>

definition range_ok :: "nat \<Rightarrow> ('k, 'v) node \<Rightarrow> ('k, 'v) LeafRange \<Rightarrow> ('k \<times> 'v) list \<Rightarrow> ('k \<times> 'v) list \<Rightarrow> ('k \<times> 'v) list \<Rightarrow> bool" where
  "range_ok H t r pre mid post \<longleftrightarrow> wf_node H t \<and> inorder t = pre @ mid @ post
     \<and> (mid = [] \<and> r = no_range
        \<or> (\<exists>f b. lr_front r = Some f \<and> lr_back r = Some b \<and> at_edge H t f pre \<and> at_edge H t b (pre @ mid)))"

lemma range_okI:
  "wf_node H t \<Longrightarrow> inorder t = pre @ mid @ post \<Longrightarrow> lr_front r = Some f \<Longrightarrow> lr_back r = Some b \<Longrightarrow>
     at_edge H t f pre \<Longrightarrow> at_edge H t b (pre @ mid) \<Longrightarrow> range_ok H t r pre mid post"
  unfolding range_ok_def by blast

lemma range_ok_empty: "range_ok H t r pre mid post \<Longrightarrow> lr_is_empty r \<longleftrightarrow> mid = []"
  using same_place_iff [of H t] by (fastforce simp: range_ok_def lr_is_empty_def no_range_def)

lemma next_checked_ok:
  assumes "range_ok H t r pre (x # mid) post"
  shows "\<exists>r'. next_checked r = Some (Some x, r') \<and> range_ok H t r' (pre @ [x]) mid post"
proof -
  note r = assms [unfolded range_ok_def]
  then obtain f b where f: "lr_front r = Some f" "lr_back r = Some b" "at_edge H t f pre" "at_edge H t b (pre @ x # mid)"
    by auto
  from next_from_edge [OF f(3), of x "mid @ post"] r obtain kh where
    kh: "next_kv f = Some kh" "into_kv kh = x" "at_edge H t (next_leaf_edge kh) (pre @ [x])" by auto
  have "\<not> lr_is_empty r" using range_ok_empty [OF assms] by simp
  with kh(1,2) f(1) have "next_checked r = Some (Some x, r\<lparr>lr_front := Some (next_leaf_edge kh)\<rparr>)"
    by (simp add: next_checked_def)
  moreover have "range_ok H t (r\<lparr>lr_front := Some (next_leaf_edge kh)\<rparr>) (pre @ [x]) mid post"
    using r f kh(3) by (intro range_okI [where f = "next_leaf_edge kh" and b = b]) simp_all
  ultimately show ?thesis by blast
qed

lemma next_back_checked_ok:
  assumes "range_ok H t r pre (mid @ [x]) post"
  shows "\<exists>r'. next_back_checked r = Some (Some x, r') \<and> range_ok H t r' pre mid (x # post)"
proof -
  note r = assms [unfolded range_ok_def]
  then obtain f b where f: "lr_front r = Some f" "lr_back r = Some b" "at_edge H t f pre" "at_edge H t b ((pre @ mid) @ [x])"
    by auto
  from next_back_from_edge [OF f(4)] obtain kh where
    kh: "next_back_kv b = Some kh" "into_kv kh = x" "at_edge H t (next_back_leaf_edge kh) (pre @ mid)" by auto
  have "\<not> lr_is_empty r" using range_ok_empty [OF assms] by simp
  with kh(1,2) f(2) have "next_back_checked r = Some (Some x, r\<lparr>lr_back := Some (next_back_leaf_edge kh)\<rparr>)"
    by (simp add: next_back_checked_def)
  moreover have "range_ok H t (r\<lparr>lr_back := Some (next_back_leaf_edge kh)\<rparr>) pre mid (x # post)"
    using r f kh(3) by (intro range_okI [where f = f and b = "next_back_leaf_edge kh"]) simp_all
  ultimately show ?thesis by blast
qed

lemma iterate_range_empty: "lr_is_empty r \<Longrightarrow> iterate_range bs r = Some (both_ends bs [], r)"
  by (induction bs) (simp_all add: next_checked_def next_back_checked_def)

lemma iterate_range_ok:
  "range_ok H t r pre mid post \<Longrightarrow> \<exists>r'. iterate_range bs r = Some (both_ends bs mid, r')"
proof (induction bs arbitrary: r pre mid post)
  case (Cons b bs)
  show ?case
  proof (cases mid)
    case Nil
    with range_ok_empty [OF Cons.prems] have "lr_is_empty r" by simp
    from iterate_range_empty [OF this, of "b # bs"] Nil show ?thesis by blast
  next
    case m: (Cons x xs)
    show ?thesis
    proof (cases b)
      case True
      have "range_ok H t r pre (butlast mid @ [last mid]) post"
        using Cons.prems m by (simp only: append_butlast_last_id list.distinct(2) simp_thms)
      from next_back_checked_ok [OF this] obtain r' where
        r': "next_back_checked r = Some (Some (last mid), r')" "range_ok H t r' pre (butlast mid) (last mid # post)" by blast
      from Cons.IH [OF r'(2)] r'(1) True m show ?thesis by auto
    next
      case False
      from next_checked_ok [OF Cons.prems [unfolded m]] obtain r' where
        r': "next_checked r = Some (Some x, r')" "range_ok H t r' (pre @ [x]) xs post" by blast
      from Cons.IH [OF r'(2)] r'(1) False m show ?thesis by auto
    qed
  qed
qed simp

text \<open>The keys a pair of bounds asks for.\<close>

fun above_start :: "'k::linorder Bound \<Rightarrow> 'k \<Rightarrow> bool" where
  "above_start (Bound_Included s) k = (s \<le> k)"
| "above_start (Bound_Excluded s) k = (s < k)"
| "above_start Unbounded k = True"

fun below_end :: "'k::linorder Bound \<Rightarrow> 'k \<Rightarrow> bool" where
  "below_end (Bound_Included e) k = (k \<le> e)"
| "below_end (Bound_Excluded e) k = (k < e)"
| "below_end Unbounded k = True"

lemma bounds_of_range:
  "before_lower (from_range s) k \<longleftrightarrow> \<not> above_start s k" "within_upper (from_range e) k \<longleftrightarrow> below_end e k"
  by (cases s; simp add: not_le not_less) (cases e; simp)

lemma possible_bounds: "\<not> panics s e \<Longrightarrow> \<not> above_start s k \<Longrightarrow> below_end e k"
  by (cases s; cases e) auto

lemma ordered_filter_split:
  assumes "ordered xs" and "downward P"
  shows "xs = filter (P \<circ> fst) xs @ filter (Not \<circ> P \<circ> fst) xs"
  using assms(1)
proof (induction xs)
  case (Cons x xs)
  show ?case
  proof (cases "P (fst x)")
    case False
    then have "\<not> P (fst p)" if "p \<in> set xs" for p
      using that Cons.prems assms(2) unfolding downward_def ordered_Cons by (meson less_imp_le)
    then have "filter (P \<circ> fst) xs = []" "filter (Not \<circ> P \<circ> fst) xs = xs"
      by (auto simp: filter_empty_conv intro: filter_True)
    with False show ?thesis by (simp add: comp_def)
  qed (use Cons in \<open>simp add: ordered_Cons comp_def\<close>)
qed simp

lemma between_bounds:
  assumes ord: "ordered xs" and p: "\<not> panics s e"
  shows "filter (within_upper (from_range e) \<circ> fst) xs = filter (before_lower (from_range s) \<circ> fst) xs
    @ filter (\<lambda>p. above_start s (fst p) \<and> below_end e (fst p)) xs"
proof -
  let ?D = "before_lower (from_range s)" and ?U = "within_upper (from_range e)"
  have "filter (?U \<circ> fst) xs = filter (?U \<circ> fst) (filter (?D \<circ> fst) xs @ filter (Not \<circ> ?D \<circ> fst) xs)"
    using ordered_filter_split [OF ord downward_before, of "from_range s"] by (rule arg_cong)
  moreover have "filter (\<lambda>x. ?U (fst x) \<and> ?D (fst x)) xs = filter (?D \<circ> fst) xs"
    by (rule filter_cong) (use possible_bounds [OF p] in \<open>auto simp: bounds_of_range\<close>)
  moreover have "filter (\<lambda>x. ?U (fst x) \<and> \<not> ?D (fst x)) xs
      = filter (\<lambda>p. above_start s (fst p) \<and> below_end e (fst p)) xs"
    by (rule filter_cong) (auto simp: bounds_of_range)
  ultimately show ?thesis by (simp add: conj_commute)
qed

lemma find_range_ok:
  assumes r: "wf_ref H h t []" and ord: "ordered (inorder t)" and p: "\<not> panics s e"
  shows "\<exists>r pre post. find_leaf_edges_spanning_range s e t = Some r
    \<and> range_ok H t r pre (filter (\<lambda>p. above_start s (fst p) \<and> below_end e (fst p)) (inorder t)) post"
proof -
  let ?D = "before_lower (from_range s)" and ?U = "within_upper (from_range e)" and ?xs = "inorder t"
  let ?mid = "filter (\<lambda>p. above_start s (fst p) \<and> below_end e (fst p)) ?xs"
  let ?post = "filter (Not \<circ> ?U \<circ> fst) ?xs"
  have sub: "\<forall>p\<in>set ?xs. ?D (fst p) \<longrightarrow> ?U (fst p)"
    using possible_bounds [OF p] by (simp add: bounds_of_range)
  note U = between_bounds [OF ord p]
  then have io: "?xs = filter (?D \<circ> fst) ?xs @ ?mid @ ?post"
    using ordered_filter_split [OF ord downward_within, of "from_range e"] by simp
  define b where "b = bifurcation_loop (from_range s) (from_range e) t []"
  have t: "wf_node H t" using r by (auto simp: wf_ref_def)
  have "range_edges H t (filter (?D \<circ> fst) ?xs) (filter (?D \<circ> fst) ?xs @ ?mid) b"
    using bifurcation_at [OF r ord sub] U by (simp add: b_def)
  note re = this
  have b: "search_tree_for_bifurcation s e t = Some b" using p by (simp add: search_tree_for_bifurcation_def b_def)
  have "\<exists>r. find_leaf_edges_spanning_range s e t = Some r \<and> range_ok H t r (filter (?D \<circ> fst) ?xs) ?mid ?post"
  proof (cases b)
    case (Inl h)
    then have "?mid = []" using re by (simp add: range_edges_def)
    with io t have "range_ok H t no_range (filter (?D \<circ> fst) ?xs) ?mid ?post"
      unfolding range_ok_def by blast
    then show ?thesis using b Inl by (simp add: find_leaf_edges_spanning_range_def)
  next
    case (Inr x)
    obtain n fs i j l u where x: "x = (n, fs, i, j, l, u)" by (cases x) blast
    from re obtain h where n: "wf_node h n" "i \<le> node_len n" "j \<le> node_len n"
      and at: "at_edge H t (to_lower (n, i, fs) l) (filter (?D \<circ> fst) ?xs)"
        "at_edge H t (to_upper (n, j, fs) u) (filter (?D \<circ> fst) ?xs @ ?mid)"
      unfolding Inr x range_edges_def by auto
    let ?r = "\<lparr>lr_front = Some (to_lower (n, i, fs) l), lr_back = Some (to_upper (n, j, fs) u)\<rparr>"
    have "find_leaf_edges_spanning_range s e t = Some ?r"
      using span_loop_leaves [OF n(1,1,2,3)] b by (simp add: find_leaf_edges_spanning_range_def Inr x)
    moreover have "range_ok H t ?r (filter (?D \<circ> fst) ?xs) ?mid ?post"
      by (rule range_okI [OF t io _ _ at]) simp_all
    ultimately show ?thesis by blast
  qed
  then show ?thesis by blast
qed

text \<open>C20: the range of a well-formed map between two bounds: impossible bounds panic, and
  otherwise any interleaving of \<open>next_checked\<close> and \<open>next_back_checked\<close> on the leaf edges found yields, from
  both ends, exactly the pairs whose keys the bounds ask for, in increasing order, and then \<open>None\<close>:
  the edges that the comparison of places stops at are those where nothing is left, and no
  \<open>unwrap\<close> panics.\<close>

theorem range_yields_pairs:
  assumes "map_ok mp" and "root mp = Some t"
  shows "if panics s e then find_leaf_edges_spanning_range s e t = None
    else \<exists>r r'. find_leaf_edges_spanning_range s e t = Some r
      \<and> iterate_range bs r = Some (both_ends bs (filter (\<lambda>p. above_start s (fst p) \<and> below_end e (fst p)) (pairs mp)), r')"
proof (cases "panics s e")
  case True
  then show ?thesis by (simp add: find_leaf_edges_spanning_range_def search_tree_for_bifurcation_def)
next
  case False
  have w: "wf_root (tree_height t) t" "ordered (inorder t)" "pairs mp = inorder t"
    using assms by (simp_all add: map_ok_def pairs_def)
  then have r: "wf_ref (tree_height t) (tree_height t) t []" by (simp add: wf_ref_def wf_root_def enough_def)
  from find_range_ok [OF r w(2) False] iterate_range_ok False w(3) show ?thesis by fastforce
qed

theorem range_yields_pairs_witness:
  "\<exists>t r r'. root two_level = Some t
    \<and> find_leaf_edges_spanning_range (Bound_Excluded 30) (Bound_Included 70) t = Some r
    \<and> iterate_range [False, True, False, True, True] r = Some ([Some (40, 4), Some (70, 7), Some (50, 5), Some (60, 6), None], r')
    \<and> find_leaf_edges_spanning_range (Bound_Excluded 30) (Bound_Excluded 30) t = None"
proof -
  obtain t where t: "root two_level = Some t" by (simp add: two_level_def)
  have "both_ends [False, True, False, True, True]
      (filter (\<lambda>p. above_start (Bound_Excluded 30) (fst p) \<and> below_end (Bound_Included 70) (fst p)) (pairs two_level))
      = [Some (40, 4), Some (70, 7), Some (50, 5), Some (60, 6), None]" by code_simp
  with range_yields_pairs [OF two_level_ok t, of "Bound_Excluded 30" "Bound_Included 70" "[False, True, False, True, True]"]
    range_yields_pairs [OF two_level_ok t, of "Bound_Excluded 30" "Bound_Excluded 30" "[]"] t
  show ?thesis by auto
qed

end
