(* ===== verification/ThreadLocal.thy ===== *)
theory ThreadLocal
  imports ChunkManager ExtraLarge NonLocal
begin

text \<open>
  \<open>ThreadLocalAllocator\<close>: \<open>thread_local_allocator.rs\<close> and the part of
  \<open>thread_local_self_alloc_impl.rs\<close> that makes it an allocator for its own vectors.

  An object of a common or large size is popped from the vector of its size; when the vector is
  empty a chunk is cut into objects. The vectors live in memory of the allocator itself, so most
  operations call each other: they act on one world, are given the others as the record
  \<open>tla_ops\<close>, and are tied together at the end by recursion on a nesting depth.

  \<open>Option<&mut State>\<close>, which the code passes down, is the field \<open>maybe_state\<close> of the world;
  \<open>without_state\<close> is a call with \<open>None\<close>. A panic, or undefined behaviour the code excludes by an
  unchecked hint, is \<open>None\<close>; inside an operation that another one calls it sets \<open>panicked\<close>,
  which nothing resets and which makes the whole call \<open>None\<close>.
\<close>

section \<open>The world\<close>

record inner =
  non_local_ptr_manager_box :: "addr option"
  chunk_manager :: ChunkManager
  common_object_table :: "addr self_vec list"
  common_chunk_table :: "(addr \<times> addr self_vec list) option"
  large_object_table :: "addr self_vec list"
  large_chunk_table :: "(addr \<times> addr self_vec list) option"
  allocated_large_sizes :: "(usize, usize) btree_map"
  is_borrowed_for_unknown_time :: bool
  is_already_destructured :: bool
  is_destructor_registered :: bool

definition new_inner :: inner where
  "new_inner =
     \<lparr>non_local_ptr_manager_box = None, chunk_manager = new_chunk_manager,
      common_object_table = replicate COMMON_SIZE_TABLE_LEN new_vec, common_chunk_table = None,
      large_object_table = replicate REAL_NUMBER_OF_LARGE_OBJECT_VECTORS new_vec, large_chunk_table = None,
      allocated_large_sizes = new_map, is_borrowed_for_unknown_time = False,
      is_already_destructured = False, is_destructor_registered = False\<rparr>"

text \<open>\<open>node_memory\<close> are the blocks of the nodes of \<open>allocated_large_sizes\<close>, whose addresses the model of
  the tree does not keep; \<open>nl\<close> is the state of the manager of non-local pointers.\<close>

record ('k, 'n) world =
  inner :: inner
  proc :: "'k process"
  cells :: metadata
  maybe_state :: "State list option"
  node_memory :: "(addr \<times> usize) list"
  nl :: 'n
  panicked :: bool

text \<open>What the allocator is generic in or calls. The type \<open>NLPM\<close> implements the trait
  \<open>NonLocalPtrManager\<close>: \<open>nl_deallocate\<close> may allocate its node with the function it is given,
  \<open>nl_check\<close> hands incoming pointers to the function it is given. \<open>which_node\<close> tells which of the
  blocks of its size a node that is freed has.\<close>

record ('k, 'n) env =
  env_libc :: libc
  env_kernel :: "'k kernel"
  size_of_state :: usize
  size_of_nlpm :: usize
  align_of_nlpm :: usize
  should_auto_check :: bool
  nl_deallocate :: "(usize \<Rightarrow> ('k, 'n) world \<Rightarrow> addr option \<times> ('k, 'n) world) \<Rightarrow> addr \<Rightarrow> NonLocalPtrData \<Rightarrow>
    ('k, 'n) world \<Rightarrow> ('k, 'n) world"
  nl_check :: "(NonLocalPtrData list \<Rightarrow> ('k, 'n) world \<Rightarrow> ('k, 'n) world) \<Rightarrow> ('k, 'n) world \<Rightarrow> ('k, 'n) world"
  env_size_of_leaf :: usize
  env_size_of_internal :: usize
  which_node :: "usize \<Rightarrow> (addr \<times> usize) list \<Rightarrow> nat"

text \<open>The operations that call each other, and the number of rounds their loops may take.\<close>

record 'w tla_ops =
  op_self_alloc :: "bool \<Rightarrow> usize \<Rightarrow> 'w \<Rightarrow> addr option \<times> 'w"
  op_self_dealloc :: "addr \<Rightarrow> usize \<Rightarrow> 'w \<Rightarrow> 'w"
  op_handle_state :: "State list \<Rightarrow> 'w \<Rightarrow> 'w"
  op_try_alloc :: "usize \<Rightarrow> 'w \<Rightarrow> addr option \<times> 'w"
  rounds :: nat

definition or_panic :: "'r \<Rightarrow> ('k, 'n) world \<Rightarrow> ('r \<times> ('k, 'n) world) option \<Rightarrow> 'r \<times> ('k, 'n) world" where
  "or_panic r w x = (case x of Some rw \<Rightarrow> rw | None \<Rightarrow> (r, w\<lparr>panicked := True\<rparr>))"

definition panic_unit :: "('k, 'n) world \<Rightarrow> ('k, 'n) world option \<Rightarrow> ('k, 'n) world" where
  "panic_unit w x = (case x of Some w' \<Rightarrow> w' | None \<Rightarrow> w\<lparr>panicked := True\<rparr>)"

definition without_state :: "(('k, 'n) world \<Rightarrow> ('r \<times> ('k, 'n) world) option) \<Rightarrow> ('k, 'n) world \<Rightarrow> ('r \<times> ('k, 'n) world) option" where
  "without_state f w =
     map_option (\<lambda>(r, w'). (r, w'\<lparr>maybe_state := maybe_state w\<rparr>)) (f (w\<lparr>maybe_state := None\<rparr>))"

section \<open>Vectors of the allocator\<close>

definition vec_of :: "('k, 'n) world tla_ops \<Rightarrow> usize \<Rightarrow> (inner \<Rightarrow> 'a self_vec) \<Rightarrow>
    ('a self_vec \<Rightarrow> inner \<Rightarrow> inner) \<Rightarrow> ('a, ('k, 'n) world) vec_env" where
  "vec_of ops sz get put =
     \<lparr>vec_env.self_alloc = op_self_alloc ops True, self_alloc_without_counting_limit = op_self_alloc ops False,
      self_dealloc = op_self_dealloc ops, the_vec = (\<lambda>w. get (inner w)),
      set_vec = (\<lambda>v w. w\<lparr>inner := put v (inner w)\<rparr>), elem_size = sz\<rparr>"

definition common_objects :: "('k, 'n) world tla_ops \<Rightarrow> nat \<Rightarrow> (addr, ('k, 'n) world) vec_env" where
  "common_objects ops i = vec_of ops 8 (\<lambda>x. common_object_table x ! i)
     (\<lambda>v x. x\<lparr>common_object_table := (common_object_table x)[i := v]\<rparr>)"

definition large_objects :: "('k, 'n) world tla_ops \<Rightarrow> nat \<Rightarrow> (addr, ('k, 'n) world) vec_env" where
  "large_objects ops i = vec_of ops 8 (\<lambda>x. large_object_table x ! i)
     (\<lambda>v x. x\<lparr>large_object_table := (large_object_table x)[i := v]\<rparr>)"

text \<open>The tables behind a box are read and written only once the box is there.\<close>

definition put_in_box :: "nat \<Rightarrow> 'v \<Rightarrow> (addr \<times> 'v list) option \<Rightarrow> (addr \<times> 'v list) option" where
  "put_in_box i v = map_option (map_prod id (\<lambda>vs. vs[i := v]))"

definition common_chunks_vec :: "('k, 'n) world tla_ops \<Rightarrow> nat \<Rightarrow> (addr, ('k, 'n) world) vec_env" where
  "common_chunks_vec ops i = vec_of ops 8 (\<lambda>x. snd (the (common_chunk_table x)) ! i)
     (\<lambda>v x. x\<lparr>common_chunk_table := put_in_box i v (common_chunk_table x)\<rparr>)"

definition large_chunks_vec :: "('k, 'n) world tla_ops \<Rightarrow> nat \<Rightarrow> (addr, ('k, 'n) world) vec_env" where
  "large_chunks_vec ops i = vec_of ops 8 (\<lambda>x. snd (the (large_chunk_table x)) ! i)
     (\<lambda>v x. x\<lparr>large_chunk_table := put_in_box i v (large_chunk_table x)\<rparr>)"

abbreviation set_cm_inner :: "(ChunkManager \<Rightarrow> ChunkManager) \<Rightarrow> inner \<Rightarrow> inner" where
  "set_cm_inner f x \<equiv> x\<lparr>chunk_manager := f (chunk_manager x)\<rparr>"

definition pop_common :: "nat \<Rightarrow> ('k, 'n) world \<Rightarrow> addr option \<times> ('k, 'n) world" where
  "pop_common i w =
     (case vec_pop (common_object_table (inner w) ! i) of (p, v) \<Rightarrow>
        (p, w\<lparr>inner := (inner w)\<lparr>common_object_table := (common_object_table (inner w))[i := v]\<rparr>\<rparr>))"

definition pop_large :: "nat \<Rightarrow> ('k, 'n) world \<Rightarrow> addr option \<times> ('k, 'n) world" where
  "pop_large i w =
     (case vec_pop (large_object_table (inner w) ! i) of (p, v) \<Rightarrow>
        (p, w\<lparr>inner := (inner w)\<lparr>large_object_table := (large_object_table (inner w))[i := v]\<rparr>\<rparr>))"

section \<open>Regions and the chunk manager in the world\<close>

definition counted :: "('k, 'n) env \<Rightarrow> ('k, 'n) world \<Rightarrow> addr \<times> ('k, 'n) world" where
  "counted E w = (case alloc_region (env_libc E) (env_kernel E) (proc w) of (r, p) \<Rightarrow> (r, w\<lparr>proc := p\<rparr>))"

definition uncounted :: "('k, 'n) env \<Rightarrow> ('k, 'n) world \<Rightarrow> addr \<times> ('k, 'n) world" where
  "uncounted E w =
     (case alloc_region_without_counting_limit (env_libc E) (env_kernel E) (proc w) of (r, p) \<Rightarrow> (r, w\<lparr>proc := p\<rparr>))"

definition cm_env_of :: "('k, 'n) env \<Rightarrow> ('k, 'n) world tla_ops \<Rightarrow> ('k, 'n) world cm_env" where
  "cm_env_of E ops =
     \<lparr>the_cm = (\<lambda>w. chunk_manager (inner w)), set_cm = (\<lambda>cm w. w\<lparr>inner := (inner w)\<lparr>chunk_manager := cm\<rparr>\<rparr>),
      large_vec = vec_of ops 8 (\<lambda>x. cm_free_large_chunks (chunk_manager x))
        (\<lambda>v. set_cm_inner (\<lambda>cm. cm\<lparr>cm_free_large_chunks := v\<rparr>)),
      common_vec = vec_of ops 8 (\<lambda>x. cm_free_common_chunks (chunk_manager x))
        (\<lambda>v. set_cm_inner (\<lambda>cm. cm\<lparr>cm_free_common_chunks := v\<rparr>)),
      regions_vec = vec_of ops 16 (\<lambda>x. cm_regions (chunk_manager x))
        (\<lambda>v. set_cm_inner (\<lambda>cm. cm\<lparr>cm_regions := v\<rparr>)),
      counted_region = counted E, uncounted_region = uncounted E, state_size = size_of_state E,
      handle_state = (\<lambda>c w. Some (op_handle_state ops c w)), vec_fuel = rounds ops\<rparr>"

text \<open>\<open>free_common\<close> and \<open>free_large\<close> on the world.\<close>

definition give_back :: "('k, 'n) env \<Rightarrow> usize \<Rightarrow> addr \<Rightarrow> ('k, 'n) world \<Rightarrow> ('k, 'n) world option" where
  "give_back E n chunk w =
     map_option (\<lambda>(cm, p). w\<lparr>inner := (inner w)\<lparr>chunk_manager := cm\<rparr>, proc := p\<rparr>)
       (free_chunk (env_kernel E) n chunk (chunk_manager (inner w), proc w))"

section \<open>Boxes: the manager of non-local pointers and the chunk tables\<close>

definition set_is_allocating :: "bool \<Rightarrow> ('k, 'n) world \<Rightarrow> ('k, 'n) world" where
  "set_is_allocating b w =
     (case maybe_state w of
        Some (s # c) \<Rightarrow> w\<lparr>maybe_state := Some (s\<lparr>is_allocating_non_local_ptr_manager_now := b\<rparr> # c)\<rparr>
      | _ \<Rightarrow> w)"

definition register_destructor :: "('k, 'n) world \<Rightarrow> ('k, 'n) world" where
  "register_destructor w =
     w\<lparr>inner := (inner w)\<lparr>is_destructor_registered := True, is_already_destructured := False\<rparr>\<rparr>"

text \<open>\<open>SelfAllocatedBox::new\<close>: the address of the new box; the value in it is in the record \<open>inner\<close>.\<close>

definition box_new :: "('k, 'n) world tla_ops \<Rightarrow> usize \<Rightarrow> ('k, 'n) world \<Rightarrow> addr option \<times> ('k, 'n) world" where
  "box_new ops size_of w =
     (if size_of = 0 then (None, w\<lparr>panicked := True\<rparr>) else op_self_alloc ops True (recommended_size size_of) w)"

text \<open>The box of the manager, allocated from the state the world has; \<open>None\<close>: there is no memory.\<close>

definition box_nlpm :: "('k, 'n) env \<Rightarrow> ('k, 'n) world tla_ops \<Rightarrow> ('k, 'n) world \<Rightarrow> ('k, 'n) world option" where
  "box_nlpm E ops w =
     (case box_new ops (size_of_nlpm E) (set_is_allocating True w) of
        (None, w1) \<Rightarrow> None
      | (Some p, w1) \<Rightarrow>
          Some (set_is_allocating False (w1\<lparr>inner := (inner w1)\<lparr>non_local_ptr_manager_box := Some p\<rparr>\<rparr>)))"

definition nlpm_slow_path :: "('k, 'n) env \<Rightarrow> ('k, 'n) world tla_ops \<Rightarrow> ('k, 'n) world \<Rightarrow> ('k, 'n) world option" where
  "nlpm_slow_path E ops w =
     (let w0 = (if is_destructor_registered (inner w) then w else register_destructor w)
      in if size_of_nlpm E = 0 then
           Some (w0\<lparr>inner := (inner w0)\<lparr>non_local_ptr_manager_box := Some (align_of_nlpm E)\<rparr>\<rparr>)
         else case maybe_state w0 of
           Some _ \<Rightarrow> box_nlpm E ops w0
         | None \<Rightarrow>
             (case uncounted E w0 of (r, w1) \<Rightarrow>
                if r = 0 then None
                else map_option (\<lambda>w2. op_handle_state ops (the (maybe_state w2)) (w2\<lparr>maybe_state := None\<rparr>))
                       (box_nlpm E ops (w1\<lparr>maybe_state := Some [from_region r]\<rparr>))))"

definition get_or_init_non_local_ptr_manager ::
  "('k, 'n) env \<Rightarrow> ('k, 'n) world tla_ops \<Rightarrow> ('k, 'n) world \<Rightarrow> (addr \<times> ('k, 'n) world) option" where
  "get_or_init_non_local_ptr_manager E ops w =
     (case non_local_ptr_manager_box (inner w) of
        Some p \<Rightarrow> Some (p, w)
      | None \<Rightarrow>
          Option.bind (nlpm_slow_path E ops w)
            (\<lambda>w'. map_option (\<lambda>p. (p, w')) (non_local_ptr_manager_box (inner w'))))"

text \<open>A \<open>SelfAllocatedVec\<close> is a pointer and two \<open>u32\<close>. The functions make sure that the table is
  there; the code returns a reference to it.\<close>

definition size_of_vec :: usize where "size_of_vec = 16"

definition get_common_chunk_table :: "('k, 'n) world tla_ops \<Rightarrow> ('k, 'n) world \<Rightarrow> ('k, 'n) world option" where
  "get_common_chunk_table ops w =
     (if common_chunk_table (inner w) \<noteq> None then Some w
      else case box_new ops (COMMON_SIZE_TABLE_LEN * size_of_vec) w of
          (None, _) \<Rightarrow> None
        | (Some p, w1) \<Rightarrow>
            Some (w1\<lparr>inner := (inner w1)\<lparr>common_chunk_table :=
                    Some (p, replicate COMMON_SIZE_TABLE_LEN new_vec)\<rparr>\<rparr>))"

definition get_large_chunk_table :: "('k, 'n) world tla_ops \<Rightarrow> ('k, 'n) world \<Rightarrow> ('k, 'n) world option" where
  "get_large_chunk_table ops w =
     (if large_chunk_table (inner w) \<noteq> None then Some w
      else case box_new ops (REAL_NUMBER_OF_LARGE_OBJECT_VECTORS * size_of_vec) w of
          (None, _) \<Rightarrow> None
        | (Some p, w1) \<Rightarrow>
            Some (w1\<lparr>inner := (inner w1)\<lparr>large_chunk_table :=
                    Some (p, replicate REAL_NUMBER_OF_LARGE_OBJECT_VECTORS new_vec)\<rparr>\<rparr>))"

text \<open>\<open>push_without_counting_limit(\<dots>)\<close>, which panics on \<open>Err\<close>.\<close>

definition push_back :: "('k, 'n) world tla_ops \<Rightarrow> (addr, ('k, 'n) world) vec_env \<Rightarrow> addr \<Rightarrow> ('k, 'n) world \<Rightarrow> ('k, 'n) world option" where
  "push_back ops V p w =
     (case push_without_counting_limit (rounds ops) V p w of Some (True, w') \<Rightarrow> Some w' | _ \<Rightarrow> None)"

definition push_back_without_state :: "('k, 'n) world tla_ops \<Rightarrow> (addr, ('k, 'n) world) vec_env \<Rightarrow> addr \<Rightarrow> ('k, 'n) world \<Rightarrow> ('k, 'n) world option" where
  "push_back_without_state ops V p w =
     map_option snd (without_state (\<lambda>w. map_option (Pair ()) (push_back ops V p w)) w)"

section \<open>Incoming non-local pointers\<close>

definition return_ptr :: "('k, 'n) world tla_ops \<Rightarrow> NonLocalPtrData \<Rightarrow> ('k, 'n) world \<Rightarrow> ('k, 'n) world option" where
  "return_ptr ops d w =
     (let off = data_offset d;
          V = (if is_common off then common_objects ops (slot_idx off) else large_objects ops (slot_idx off))
      in if slot_idx off < length (if is_common off then common_object_table (inner w) else large_object_table (inner w))
         then push_back_without_state ops V (data_ptr d) w
         else None)"

fun return_ptrs :: "('k, 'n) world tla_ops \<Rightarrow> NonLocalPtrData list \<Rightarrow> ('k, 'n) world \<Rightarrow> ('k, 'n) world" where
  "return_ptrs ops [] w = w"
| "return_ptrs ops (d # ds) w = return_ptrs ops ds (panic_unit w (return_ptr ops d w))"

definition check_non_local_ptrs :: "('k, 'n) env \<Rightarrow> ('k, 'n) world tla_ops \<Rightarrow> ('k, 'n) world \<Rightarrow> ('k, 'n) world" where
  "check_non_local_ptrs E ops w =
     (case non_local_ptr_manager_box (inner w) of
        Some _ \<Rightarrow> nl_check E (return_ptrs ops) w
      | None \<Rightarrow> w)"

section \<open>Cutting a chunk into objects\<close>

text \<open>The loop \<open>for _ in 0..additional_size\<close>: \<open>cur\<close> moves on over the objects pushed.\<close>

fun carve :: "nat \<Rightarrow> usize \<Rightarrow> addr \<Rightarrow> addr self_vec \<Rightarrow> (addr \<times> addr self_vec) option" where
  "carve 0 real_size cur v = Some (cur, v)"
| "carve (Suc n) real_size cur v =
     (case try_push cur v of
        Inl _ \<Rightarrow> None
      | Inr v' \<Rightarrow> carve n real_size (cur + real_size) v')"

text \<open>What is common to \<open>alloc_common_slow\<close> and \<open>alloc_large_slow\<close> after the chunk is in its table:
  room for all its objects but one, these objects pushed, the last one and the address where
  \<open>cur\<close> stands.\<close>

definition fill_from_chunk :: "nat \<Rightarrow> (addr, ('k, 'n) world) vec_env \<Rightarrow> usize \<Rightarrow> usize \<Rightarrow> addr \<Rightarrow> ('k, 'n) world \<Rightarrow>
    (addr option \<times> ('k, 'n) world) option" where
  "fill_from_chunk fuel V real_size chunk_size chunk w =
     (let additional_size = chunk_size div real_size - 1
      in case reserve fuel V True (u32 additional_size) w of
          None \<Rightarrow> None
        | Some (Inl _, w1) \<Rightarrow> Some (None, w1)
        | Some (Inr _, w1) \<Rightarrow>
            map_option (\<lambda>(cur, v). (Some cur, set_vec V v w1))
              (carve additional_size real_size chunk (the_vec V w1)))"

definition alloc_common_slow :: "('k, 'n) env \<Rightarrow> ('k, 'n) world tla_ops \<Rightarrow> bool \<Rightarrow> usize \<Rightarrow>
    (('k, 'n) world \<Rightarrow> (addr option \<times> ('k, 'n) world) option) \<Rightarrow> ('k, 'n) world \<Rightarrow>
    (addr option \<times> ('k, 'n) world) option" where
  "alloc_common_slow E ops is_allocating_nlpm real_size get_chunk w =
     (let i = common_size_to_index (word_of_nat real_size);
          w0 = (if \<not> is_allocating_nlpm \<and> should_auto_check E then check_non_local_ptrs E ops w else w)
      in case (if \<not> is_allocating_nlpm \<and> should_auto_check E then pop_common i w0 else (None, w0)) of
          (Some p, w1) \<Rightarrow> Some (Some p, w1)
        | (None, w1) \<Rightarrow>
            (case get_chunk w1 of
               None \<Rightarrow> None
             | Some (None, w2) \<Rightarrow> Some (None, w2)
             | Some (Some chunk, w2) \<Rightarrow>
                 (case pop_common i w2 of
                    (Some p, w3) \<Rightarrow> map_option (Pair (Some p)) (give_back E 1 chunk w3)
                  | (None, w3) \<Rightarrow>
                      Option.bind (get_common_chunk_table ops w3) (\<lambda>w4.
                      case vec_push (rounds ops) (common_chunks_vec ops i) chunk w4 of
                        None \<Rightarrow> None
                      | Some (False, w5) \<Rightarrow> Some (None, w5)
                      | Some (True, w5) \<Rightarrow>
                          (case fill_from_chunk (rounds ops) (common_objects ops i) real_size COMMON_CHUNK_SIZE chunk w5 of
                             None \<Rightarrow> None
                           | Some (None, w6) \<Rightarrow> Some (None, w6)
                           | Some (Some cur, w6) \<Rightarrow>
                               map_option (\<lambda>(m, w7). (Some cur, w7\<lparr>cells :=
                                   init_metadata_for_common_chunk m (new_for_common_chunk i) cur (cells w7)\<rparr>))
                                 (if is_allocating_nlpm then Some (cur, w6)
                                  else get_or_init_non_local_ptr_manager E ops w6))))))"

definition alloc_large_slow :: "('k, 'n) env \<Rightarrow> ('k, 'n) world tla_ops \<Rightarrow> bool \<Rightarrow> usize \<Rightarrow> usize \<Rightarrow>
    (('k, 'n) world \<Rightarrow> (addr option \<times> ('k, 'n) world) option) \<Rightarrow> ('k, 'n) world \<Rightarrow>
    (addr option \<times> ('k, 'n) world) option" where
  "alloc_large_slow E ops is_allocating_nlpm size_id real_size get_chunk w =
     (let i = get_idx_by_id size_id;
          w0 = (if \<not> is_allocating_nlpm \<and> should_auto_check E then check_non_local_ptrs E ops w else w)
      in case (if \<not> is_allocating_nlpm \<and> should_auto_check E then pop_large i w0 else (None, w0)) of
          (Some p, w1) \<Rightarrow> Some (Some p, w1)
        | (None, w1) \<Rightarrow>
            (case get_chunk w1 of
               None \<Rightarrow> None
             | Some (None, w2) \<Rightarrow> Some (None, w2)
             | Some (Some chunk, w2) \<Rightarrow>
                 (case pop_large i w2 of
                    (Some p, w3) \<Rightarrow> map_option (Pair (Some p)) (give_back E COMMON_CHUNKS_IN_LARGE_CHUNK chunk w3)
                  | (None, w3) \<Rightarrow>
                      Option.bind (get_large_chunk_table ops w3) (\<lambda>w4.
                      case vec_push (rounds ops) (large_chunks_vec ops i) chunk w4 of
                        None \<Rightarrow> None
                      | Some (False, w5) \<Rightarrow> Some (None, w5)
                      | Some (True, w5) \<Rightarrow>
                          (case fill_from_chunk (rounds ops) (large_objects ops i) real_size LARGE_CHUNK_SIZE chunk w5 of
                             None \<Rightarrow> None
                           | Some (None, w6) \<Rightarrow> Some (None, w6)
                           | Some (Some cur, w6) \<Rightarrow>
                               map_option (\<lambda>(m, w7). (Some cur, w7\<lparr>cells :=
                                   init_metadata_for_large_chunk m (new_for_large_chunk i) cur (cells w7)\<rparr>))
                                 (if is_allocating_nlpm then Some (cur, w6)
                                  else get_or_init_non_local_ptr_manager E ops w6))))))"

section \<open>Allocation\<close>

definition alloc_common :: "('k, 'n) env \<Rightarrow> ('k, 'n) world tla_ops \<Rightarrow> usize \<Rightarrow> ('k, 'n) world \<Rightarrow> (addr option \<times> ('k, 'n) world) option" where
  "alloc_common E ops sz w =
     (case pop_common (common_size_to_index (word_of_nat sz)) w of
        (Some p, w1) \<Rightarrow> Some (Some p, w1)
      | (None, w1) \<Rightarrow>
          without_state (alloc_common_slow E ops False (and_not (sz + 7) 7) (get_common_chunk (cm_env_of E ops))) w1)"

definition alloc_large :: "('k, 'n) env \<Rightarrow> ('k, 'n) world tla_ops \<Rightarrow> usize \<Rightarrow> ('k, 'n) world \<Rightarrow> (addr option \<times> ('k, 'n) world) option" where
  "alloc_large E ops sz w =
     (case large_size_to_id_and_real_size sz of (size_id, real_size) \<Rightarrow>
        case pop_large (get_idx_by_id size_id) w of
          (Some p, w1) \<Rightarrow> Some (Some p, w1)
        | (None, w1) \<Rightarrow>
            without_state (alloc_large_slow E ops False size_id real_size (get_large_chunk (cm_env_of E ops))) w1)"

text \<open>The nodes of \<open>allocated_large_sizes\<close> come from \<open>self_alloc\<close> with no state. The map is borrowed
  meanwhile: an allocation that gets to the map itself is undefined.\<close>

definition same_sizes :: "('k, 'n) world \<Rightarrow> ('k, 'n) world \<Rightarrow> ('k, 'n) world" where
  "same_sizes w w' =
     (if allocated_large_sizes (inner w') = allocated_large_sizes (inner w) then w' else w'\<lparr>panicked := True\<rparr>)"

definition alloc_node :: "('k, 'n) world tla_ops \<Rightarrow> usize \<Rightarrow> ('k, 'n) world \<Rightarrow> bool \<times> ('k, 'n) world" where
  "alloc_node ops sz w =
     (case op_self_alloc ops True sz (w\<lparr>maybe_state := None\<rparr>) of (r, w1) \<Rightarrow>
        let w2 = same_sizes w (w1\<lparr>maybe_state := maybe_state w\<rparr>)
        in case r of
             None \<Rightarrow> (False, w2)
           | Some p \<Rightarrow> (True, w2\<lparr>node_memory := node_memory w2 @ [(p, sz)]\<rparr>))"

definition dealloc_node :: "('k, 'n) env \<Rightarrow> ('k, 'n) world tla_ops \<Rightarrow> usize \<Rightarrow> ('k, 'n) world \<Rightarrow> ('k, 'n) world" where
  "dealloc_node E ops sz w =
     (let ns = node_memory w; k = which_node E sz ns
      in if k < length ns \<and> snd (ns ! k) = recommended_size sz then
           same_sizes w
             ((op_self_dealloc ops (fst (ns ! k)) sz (w\<lparr>maybe_state := None, node_memory := list_remove k ns\<rparr>))
                \<lparr>maybe_state := maybe_state w\<rparr>)
         else w\<lparr>panicked := True\<rparr>)"

definition xl_env_of :: "('k, 'n) env \<Rightarrow> ('k, 'n) world tla_ops \<Rightarrow> ('k, ('k, 'n) world) xl_env" where
  "xl_env_of E ops =
     \<lparr>xl_nodes = \<lparr>allocator.self_alloc = alloc_node ops, self_dealloc = dealloc_node E ops,
        size_of_leaf = env_size_of_leaf E, size_of_internal = env_size_of_internal E\<rparr>,
      xl_map = (\<lambda>w. allocated_large_sizes (inner w)),
      xl_set_map = (\<lambda>m w. w\<lparr>inner := (inner w)\<lparr>allocated_large_sizes := m\<rparr>\<rparr>),
      xl_lim = (\<lambda>w. lim (proc w)), xl_set_lim = (\<lambda>l w. w\<lparr>proc := (proc w)\<lparr>lim := l\<rparr>\<rparr>),
      xl_os = (\<lambda>w. os (proc w)), xl_set_os = (\<lambda>s w. w\<lparr>proc := (proc w)\<lparr>os := s\<rparr>\<rparr>)\<rparr>"

definition alloc_extra :: "('k, 'n) env \<Rightarrow> ('k, 'n) world tla_ops \<Rightarrow> usize \<Rightarrow> ('k, 'n) world \<Rightarrow> (addr option \<times> ('k, 'n) world) option" where
  "alloc_extra E ops sz w =
     (case alloc_extra_large (env_libc E) (env_kernel E) (xl_env_of E ops) sz w of Ok rw \<Rightarrow> Some rw | _ \<Rightarrow> None)"

definition dealloc_extra :: "('k, 'n) env \<Rightarrow> ('k, 'n) world tla_ops \<Rightarrow> addr \<Rightarrow> usize \<Rightarrow> ('k, 'n) world \<Rightarrow> ('k, 'n) world option" where
  "dealloc_extra E ops p sz w =
     (case dealloc_extra_large (env_kernel E) (xl_env_of E ops) p sz w of Ok w' \<Rightarrow> Some w' | _ \<Rightarrow> None)"

definition try_alloc_body :: "('k, 'n) env \<Rightarrow> ('k, 'n) world tla_ops \<Rightarrow> usize \<Rightarrow> ('k, 'n) world \<Rightarrow> (addr option \<times> ('k, 'n) world) option" where
  "try_alloc_body E ops sz w =
     (case size_class_define sz of
        Common \<Rightarrow> alloc_common E ops sz w
      | Large \<Rightarrow> alloc_large E ops sz w
      | ExtraLarge \<Rightarrow> alloc_extra E ops sz w)"

section \<open>Deallocation\<close>

definition dealloc_non_local_ptr :: "('k, 'n) env \<Rightarrow> ('k, 'n) world tla_ops \<Rightarrow> addr \<Rightarrow> ChunkMetadata \<Rightarrow> ('k, 'n) world \<Rightarrow> ('k, 'n) world option" where
  "dealloc_non_local_ptr E ops p md w =
     map_option (\<lambda>(_, w1). nl_deallocate E (op_try_alloc ops) (non_local_ptr_manager md)
         (new_non_local p (offset_to_slot_in_table md)) w1)
       (without_state (get_or_init_non_local_ptr_manager E ops) w)"

definition is_local_ptr :: "ChunkMetadata \<Rightarrow> ('k, 'n) world \<Rightarrow> bool" where
  "is_local_ptr md w \<longleftrightarrow>
     non_local_ptr_manager md = (case non_local_ptr_manager_box (inner w) of Some q \<Rightarrow> q | None \<Rightarrow> 0)"

text \<open>Reading a metadata cell that was never written is undefined.\<close>

definition dealloc_common :: "('k, 'n) env \<Rightarrow> ('k, 'n) world tla_ops \<Rightarrow> addr \<Rightarrow> usize \<Rightarrow> ('k, 'n) world \<Rightarrow> ('k, 'n) world option" where
  "dealloc_common E ops p sz w =
     Option.bind (metadata_of (cells w) p) (\<lambda>md.
       if is_local_ptr md w
       then push_back_without_state ops (common_objects ops (common_size_to_index (word_of_nat sz))) p w
       else dealloc_non_local_ptr E ops p md w)"

definition dealloc_large :: "('k, 'n) env \<Rightarrow> ('k, 'n) world tla_ops \<Rightarrow> addr \<Rightarrow> usize \<Rightarrow> ('k, 'n) world \<Rightarrow> ('k, 'n) world option" where
  "dealloc_large E ops p sz w =
     Option.bind (metadata_of (cells w) p) (\<lambda>md.
       if is_local_ptr md w
       then push_back_without_state ops (large_objects ops (get_idx_by_id (fst (large_size_to_id_and_real_size sz)))) p w
       else dealloc_non_local_ptr E ops p md w)"

definition dealloc_body :: "('k, 'n) env \<Rightarrow> ('k, 'n) world tla_ops \<Rightarrow> addr \<Rightarrow> usize \<Rightarrow> ('k, 'n) world \<Rightarrow> ('k, 'n) world option" where
  "dealloc_body E ops p sz w =
     (case size_class_define sz of
        Common \<Rightarrow> dealloc_common E ops p sz w
      | Large \<Rightarrow> dealloc_large E ops p sz w
      | ExtraLarge \<Rightarrow> dealloc_extra E ops p sz w)"

end
