(* ===== verification/SelfAlloc.thy ===== *)
theory SelfAlloc
  imports ThreadLocal
begin

text \<open>
  \<open>thread_local_self_alloc_impl.rs\<close>, the \<open>impl\<close> blocks of \<open>ThreadLocalAllocator\<close>: allocation for the
  allocator itself, \<open>handle_state\<close>, which takes a state over into the allocator, and the knot that
  ties the operations of \<open>ThreadLocal\<close> and these together.

  \<open>self_alloc\<close> tries the vector of the size, then a free chunk, and then the state it is given; when
  it is given none it makes one from a new region and has \<open>handle_state\<close> take it over.
\<close>

section \<open>From the cache\<close>

definition is_allocating_now :: "('k, 'n) world \<Rightarrow> bool" where
  "is_allocating_now w =
     (case maybe_state w of Some (s # _) \<Rightarrow> is_allocating_non_local_ptr_manager_now s | _ \<Rightarrow> False)"

definition cached_common_chunk :: "('k, 'n) world \<Rightarrow> (addr option \<times> ('k, 'n) world) option" where
  "cached_common_chunk w =
     (case try_get_common_chunk (chunk_manager (inner w)) of (p, cm) \<Rightarrow>
        Some (p, w\<lparr>inner := (inner w)\<lparr>chunk_manager := cm\<rparr>\<rparr>))"

definition cached_large_chunk :: "('k, 'n) world \<Rightarrow> (addr option \<times> ('k, 'n) world) option" where
  "cached_large_chunk w =
     (case try_get_large_chunk (chunk_manager (inner w)) of (p, cm) \<Rightarrow>
        Some (p, w\<lparr>inner := (inner w)\<lparr>chunk_manager := cm\<rparr>\<rparr>))"

definition try_alloc_common_from_cache :: "('k, 'n) env \<Rightarrow> ('k, 'n) world tla_ops \<Rightarrow> usize \<Rightarrow> ('k, 'n) world \<Rightarrow>
    (addr option \<times> ('k, 'n) world) option" where
  "try_alloc_common_from_cache E ops sz w =
     (case pop_common (common_size_to_index (word_of_nat sz)) w of
        (Some p, w1) \<Rightarrow> Some (Some p, w1)
      | (None, w1) \<Rightarrow>
          if is_allocating_now w1
          then alloc_common_slow E ops True sz cached_common_chunk (set_is_allocating False w1)
          else alloc_common_slow E ops False sz cached_common_chunk w1)"

definition try_alloc_large_from_cache :: "('k, 'n) env \<Rightarrow> ('k, 'n) world tla_ops \<Rightarrow> usize \<Rightarrow> ('k, 'n) world \<Rightarrow>
    (addr option \<times> ('k, 'n) world) option" where
  "try_alloc_large_from_cache E ops sz w =
     (let size_id = fst (large_size_to_id_and_real_size sz)
      in case pop_large (get_idx_by_id size_id) w of
        (Some p, w1) \<Rightarrow> Some (Some p, w1)
      | (None, w1) \<Rightarrow>
          if is_allocating_now w1
          then alloc_large_slow E ops True size_id sz cached_large_chunk (set_is_allocating False w1)
          else alloc_large_slow E ops False size_id sz cached_large_chunk w1)"

section \<open>self_alloc and self_dealloc\<close>

definition region_source :: "('k, 'n) env \<Rightarrow> bool \<Rightarrow> ('k, 'n) world \<Rightarrow> addr \<times> ('k, 'n) world" where
  "region_source E with_counting_limit = (if with_counting_limit then counted E else uncounted E)"

definition slow_self_alloc :: "('k, 'n) env \<Rightarrow> ('k, 'n) world tla_ops \<Rightarrow> bool \<Rightarrow> usize \<Rightarrow> SizeClass \<Rightarrow> ('k, 'n) world \<Rightarrow>
    (addr option \<times> ('k, 'n) world) option" where
  "slow_self_alloc E ops with_counting_limit sz cl w =
     (let areg = region_source E with_counting_limit
      in case maybe_state w of
        Some c \<Rightarrow>
          map_option (\<lambda>(r, c', w1). (r, w1\<lparr>maybe_state := Some c'\<rparr>))
            (state_alloc_size areg (size_of_state E) (length c + 2) cl sz 0 c w)
      | None \<Rightarrow>
          (case areg w of (region, w1) \<Rightarrow>
             if region = 0 then Some (None, w1)
             else map_option (\<lambda>(r, c', w2). (r, op_handle_state ops c' w2))
                    (state_alloc_size areg (size_of_state E) 3 cl sz 0 [from_region region] w1)))"

definition self_alloc_body :: "('k, 'n) env \<Rightarrow> ('k, 'n) world tla_ops \<Rightarrow> bool \<Rightarrow> usize \<Rightarrow> ('k, 'n) world \<Rightarrow>
    (addr option \<times> ('k, 'n) world) option" where
  "self_alloc_body E ops with_counting_limit sz w =
     (let cl = size_class_define sz
      in if cl = ExtraLarge then alloc_extra E ops sz w
         else case (if cl = Common then try_alloc_common_from_cache E ops sz w
                    else try_alloc_large_from_cache E ops sz w) of
             None \<Rightarrow> None
           | Some (Some p, w1) \<Rightarrow> Some (Some p, w1)
           | Some (None, w1) \<Rightarrow> slow_self_alloc E ops with_counting_limit sz cl w1)"

definition self_dealloc_body :: "('k, 'n) env \<Rightarrow> ('k, 'n) world tla_ops \<Rightarrow> addr \<Rightarrow> usize \<Rightarrow> ('k, 'n) world \<Rightarrow> ('k, 'n) world option" where
  "self_dealloc_body E ops p sz w =
     (case size_class_define sz of
        Common \<Rightarrow>
          if maybe_state w \<noteq> None
          then push_back ops (common_objects ops (common_size_to_index (word_of_nat sz))) p w
          else dealloc_common E ops p sz w
      | Large \<Rightarrow>
          if maybe_state w \<noteq> None
          then push_back ops (large_objects ops (get_idx_by_id (fst (large_size_to_id_and_real_size sz)))) p w
          else dealloc_large E ops p sz w
      | ExtraLarge \<Rightarrow> dealloc_extra E ops p sz w)"

section \<open>handle_state\<close>

abbreviation state_now :: "('k, 'n) world \<Rightarrow> State" where
  "state_now w \<equiv> hd (the (maybe_state w))"

text \<open>Room for the objects of every used chunk: \<open>for_each_used_\<dots>_chunk_with_state\<close> over the indices
  the buffer had, the chunks read as they are then.\<close>

fun reserve_for_slots :: "('k, 'n) world tla_ops \<Rightarrow> (('k, 'n) world \<Rightarrow> UsedChunk list) \<Rightarrow>
    (usize \<Rightarrow> (addr, ('k, 'n) world) vec_env) \<Rightarrow> nat list \<Rightarrow> ('k, 'n) world \<Rightarrow> (bool \<times> ('k, 'n) world) option" where
  "reserve_for_slots ops chunks V [] w = Some (False, w)"
| "reserve_for_slots ops chunks V (i # is) w =
     (let u = chunks w ! i
      in case reserve_or_panic (rounds ops) (V (uc_size u)) (number_of_free_slots u) w of
          None \<Rightarrow> None
        | Some (b, w1) \<Rightarrow> map_option (\<lambda>(b', w2). (b \<or> b', w2)) (reserve_for_slots ops chunks V is w1))"

fun count_used_chunks :: "UsedChunk list \<Rightarrow> UsedObjectsFixed \<Rightarrow> UsedObjectsFixed option" where
  "count_used_chunks [] arr = Some arr"
| "count_used_chunks (u # us) arr = Option.bind (write_used_number_and_size (uc_size u) 1 arr) (count_used_chunks us)"

text \<open>Room for the used chunks in the tables, per size. \<open>table\<close> makes the table be there.\<close>

fun reserve_in_tables :: "('k, 'n) world tla_ops \<Rightarrow> (('k, 'n) world \<Rightarrow> ('k, 'n) world option) \<Rightarrow>
    (usize \<Rightarrow> (addr, ('k, 'n) world) vec_env) \<Rightarrow> UsedObjEntry list \<Rightarrow> ('k, 'n) world \<Rightarrow> (bool \<times> ('k, 'n) world) option" where
  "reserve_in_tables ops table V [] w = Some (False, w)"
| "reserve_in_tables ops table V ((None, sz) # es) w = Some (False, w)"
| "reserve_in_tables ops table V ((Some number, sz) # es) w =
     Option.bind (table w) (\<lambda>w1.
     case reserve (rounds ops) (V sz) True (unat number) w1 of
       Some (Inr b, w2) \<Rightarrow> map_option (\<lambda>(b', w3). (b \<or> b', w3)) (reserve_in_tables ops table V es w2)
     | _ \<Rightarrow> None)"

definition common_idx :: "usize \<Rightarrow> nat" where
  "common_idx sz = common_size_to_index (word_of_nat sz)"

definition large_idx :: "usize \<Rightarrow> nat" where
  "large_idx sz = get_idx_by_id (fst (large_size_to_id_and_real_size sz))"

text \<open>One round of the inner loop: \<open>did_allocate_more\<close> and the world after it.\<close>

definition prepare_round :: "('k, 'n) env \<Rightarrow> ('k, 'n) world tla_ops \<Rightarrow> ('k, 'n) world \<Rightarrow> (bool \<times> ('k, 'n) world) option" where
  "prepare_round E ops w =
     Option.bind (reserve_for_slots ops (\<lambda>w. used_common_chunks (state_now w)) (\<lambda>sz. common_objects ops (common_idx sz))
         [0 ..< length (used_common_chunks (state_now w))] w) (\<lambda>(a, w1).
     Option.bind (reserve_for_slots ops (\<lambda>w. used_large_chunks (state_now w)) (\<lambda>sz. large_objects ops (large_idx sz))
         [0 ..< length (used_large_chunks (state_now w1))] w1) (\<lambda>(b, w2).
     Option.bind (count_used_chunks (used_large_chunks (state_now w2)) (new_used LARGE_CHUNKS_IN_REGION)) (\<lambda>larges.
     Option.bind (reserve_in_tables ops (get_large_chunk_table ops) (\<lambda>sz. large_chunks_vec ops (large_idx sz))
         (used_entries larges) w2) (\<lambda>(c, w3).
     Option.bind (count_used_chunks (used_common_chunks (state_now w3)) (new_used MAX_COMMON_CHUNKS_IN_REGION)) (\<lambda>commons.
     Option.bind (reserve_in_tables ops (get_common_chunk_table ops) (\<lambda>sz. common_chunks_vec ops (common_idx sz))
         (used_entries commons) w3) (\<lambda>(d, w4).
     map_option (\<lambda>(e, w5). (a \<or> b \<or> c \<or> d \<or> e, w5)) (prepare_to_handle_state (cm_env_of E ops) state_now w4)))))))"

fun prepare_loop :: "nat \<Rightarrow> ('k, 'n) env \<Rightarrow> ('k, 'n) world tla_ops \<Rightarrow> ('k, 'n) world \<Rightarrow> ('k, 'n) world option" where
  "prepare_loop 0 E ops w = None"
| "prepare_loop (Suc n) E ops w =
     (case prepare_round E ops w of
        None \<Rightarrow> None
      | Some (did_allocate_more, w1) \<Rightarrow> if did_allocate_more then prepare_loop n E ops w1 else Some w1)"

text \<open>The closures of \<open>clear_with\<close>: the free slots of a used chunk become objects, its metadata is
  written and the chunk enters its table. Everything has room by now: \<open>None\<close> is the branch
  \<open>unwrap_or_bug_hint\<close> excludes.\<close>

definition push_there :: "('a, 'w) vec_env \<Rightarrow> 'a \<Rightarrow> 'w \<Rightarrow> 'w option" where
  "push_there V x w = (case try_push x (the_vec V w) of Inl _ \<Rightarrow> None | Inr v \<Rightarrow> Some (set_vec V v w))"

definition push_slots :: "(addr, 'w) vec_env \<Rightarrow> UsedChunk \<Rightarrow> 'w \<Rightarrow> 'w option" where
  "push_slots V u w =
     map_option (\<lambda>(_, v). set_vec V v w) (carve (number_of_free_slots u) (uc_size u) (uc_ptr u) (the_vec V w))"

definition commit_common :: "('k, 'n) world tla_ops \<Rightarrow> addr \<Rightarrow> UsedChunk \<Rightarrow> ('k, 'n) world \<Rightarrow> ('k, 'n) world option" where
  "commit_common ops m u w =
     (let i = common_idx (uc_size u)
      in Option.bind (push_slots (common_objects ops i) u w) (\<lambda>w1.
         push_there (common_chunks_vec ops i) (uc_ptr u)
           (w1\<lparr>cells := init_metadata_for_common_chunk m (new_for_common_chunk i) (uc_ptr u) (cells w1)\<rparr>)))"

definition commit_large :: "('k, 'n) world tla_ops \<Rightarrow> addr \<Rightarrow> UsedChunk \<Rightarrow> ('k, 'n) world \<Rightarrow> ('k, 'n) world option" where
  "commit_large ops m u w =
     (let i = large_idx (uc_size u)
      in Option.bind (push_slots (large_objects ops i) u
           (w\<lparr>cells := init_metadata_for_large_chunk m (new_for_large_chunk i) (uc_ptr u) (cells w)\<rparr>))
           (push_there (large_chunks_vec ops i) (uc_ptr u)))"

fun commit_all :: "(UsedChunk \<Rightarrow> 'w \<Rightarrow> 'w option) \<Rightarrow> UsedChunk list \<Rightarrow> 'w \<Rightarrow> 'w option" where
  "commit_all f [] w = Some w"
| "commit_all f (u # us) w = Option.bind (f u w) (commit_all f us)"

definition set_state_now :: "State \<Rightarrow> ('k, 'n) world \<Rightarrow> ('k, 'n) world" where
  "set_state_now s w = w\<lparr>maybe_state := Some (s # tl (the (maybe_state w)))\<rparr>"

definition commit_state :: "('k, 'n) env \<Rightarrow> ('k, 'n) world tla_ops \<Rightarrow> ('k, 'n) world \<Rightarrow> ('k, 'n) world option" where
  "commit_state E ops w =
     Option.bind (get_or_init_non_local_ptr_manager E ops w) (\<lambda>(m, w1).
     Option.bind (get_common_chunk_table ops w1) (\<lambda>w2.
     Option.bind (commit_all (commit_common ops m) (used_common_chunks (state_now w2))
         (set_state_now ((state_now w2)\<lparr>used_common_chunks := []\<rparr>) w2)) (\<lambda>w3.
     Option.bind (get_large_chunk_table ops w3) (\<lambda>w4.
     Option.bind (commit_all (commit_large ops m) (used_large_chunks (state_now w4))
         (set_state_now ((state_now w4)\<lparr>used_large_chunks := []\<rparr>) w4)) (\<lambda>w5.
     map_option (\<lambda>cm. w5\<lparr>inner := (inner w5)\<lparr>chunk_manager := cm\<rparr>\<rparr>)
       (cm_handle_state (state_now w5) (chunk_manager (inner w5))))))))"

text \<open>The outer loop over the chain; \<open>to_dealloc\<close> has room for 8 states, and the pointer to the next state,
  a \<open>NonNull\<close>, is not null.\<close>

fun handle_states :: "nat \<Rightarrow> ('k, 'n) env \<Rightarrow> ('k, 'n) world tla_ops \<Rightarrow> addr list \<Rightarrow> ('k, 'n) world \<Rightarrow>
    (addr list \<times> ('k, 'n) world) option" where
  "handle_states 0 E ops to_dealloc w = None"
| "handle_states (Suc n) E ops to_dealloc w =
     Option.bind (prepare_loop (rounds ops) E ops w) (\<lambda>w1.
     Option.bind (commit_state E ops w1) (\<lambda>w2.
     case tl (the (maybe_state w2)) of
       [] \<Rightarrow> Some (to_dealloc, w2\<lparr>maybe_state := None\<rparr>)
     | state # rest \<Rightarrow>
         if length to_dealloc < 8 \<and> state_at state \<noteq> 0
         then handle_states n E ops (to_dealloc @ [state_at state]) (w2\<lparr>maybe_state := Some (state # rest)\<rparr>)
         else None))"

fun dealloc_states :: "('k, 'n) env \<Rightarrow> ('k, 'n) world tla_ops \<Rightarrow> addr list \<Rightarrow> ('k, 'n) world \<Rightarrow> ('k, 'n) world option" where
  "dealloc_states E ops [] w = Some w"
| "dealloc_states E ops (p # ps) w = Option.bind (dealloc_body E ops p (size_of_state E) w) (dealloc_states E ops ps)"

definition handle_state_body :: "('k, 'n) env \<Rightarrow> ('k, 'n) world tla_ops \<Rightarrow> State list \<Rightarrow> ('k, 'n) world \<Rightarrow> ('k, 'n) world option" where
  "handle_state_body E ops c w =
     (let w0 = w\<lparr>maybe_state := Some c\<rparr>
      in Option.bind (if is_destructor_registered (inner w0) then Some w0
                      else map_option snd (get_or_init_non_local_ptr_manager E ops w0)) (\<lambda>w1.
         Option.bind (handle_states (rounds ops) E ops [] w1) (\<lambda>(to_dealloc, w2).
         map_option (\<lambda>w3. w3\<lparr>maybe_state := maybe_state w\<rparr>) (dealloc_states E ops to_dealloc w2))))"

section \<open>The knot\<close>

text \<open>The operations nested at most \<open>n\<close> deep, their loops taking at most \<open>n\<close> rounds.\<close>

primrec allocator_at :: "('k, 'n) env \<Rightarrow> nat \<Rightarrow> ('k, 'n) world tla_ops" where
  "allocator_at E 0 =
     \<lparr>op_self_alloc = (\<lambda>_ _ w. (None, w\<lparr>panicked := True\<rparr>)), op_self_dealloc = (\<lambda>_ _ w. w\<lparr>panicked := True\<rparr>),
      op_handle_state = (\<lambda>_ w. w\<lparr>panicked := True\<rparr>), op_try_alloc = (\<lambda>_ w. (None, w\<lparr>panicked := True\<rparr>)), rounds = 0\<rparr>"
| "allocator_at E (Suc n) =
     (let ops = allocator_at E n
      in \<lparr>op_self_alloc = (\<lambda>counted sz w. or_panic None w (self_alloc_body E ops counted sz w)),
          op_self_dealloc = (\<lambda>p sz w. panic_unit w (self_dealloc_body E ops p sz w)),
          op_handle_state = (\<lambda>c w. panic_unit w (handle_state_body E ops c w)),
          op_try_alloc = (\<lambda>sz w. or_panic None w (try_alloc_body E ops sz w)),
          rounds = Suc n\<rparr>)"

text \<open>The public operations: \<open>None\<close> is a panic, undefined behaviour or a spent depth.\<close>

definition settled :: "('r \<times> ('k, 'n) world) option \<Rightarrow> ('r \<times> ('k, 'n) world) option" where
  "settled x = (case x of Some (r, w) \<Rightarrow> if panicked w then None else Some (r, w) | None \<Rightarrow> None)"

definition try_alloc :: "('k, 'n) env \<Rightarrow> nat \<Rightarrow> usize \<Rightarrow> ('k, 'n) world \<Rightarrow> (addr option \<times> ('k, 'n) world) option" where
  "try_alloc E n sz w = settled (try_alloc_body E (allocator_at E n) sz w)"

definition dealloc :: "('k, 'n) env \<Rightarrow> nat \<Rightarrow> addr \<Rightarrow> usize \<Rightarrow> ('k, 'n) world \<Rightarrow> ('k, 'n) world option" where
  "dealloc E n p sz w = map_option snd (settled (map_option (Pair ()) (dealloc_body E (allocator_at E n) p sz w)))"

end
