(* ===== verification/ObjectSizes.thy ===== *)
theory ObjectSizes
  imports Sizes
begin

text \<open>
  How the sizes of objects, their classes and the slots of the tables fit together: the facts about
  \<open>sizes/*.rs\<close> that the proofs about the whole allocator use.
\<close>

lemma class_iff:
  "size_class_define sz = Common \<longleftrightarrow> sz \<le> COMMON_SIZE_MAX"
  "size_class_define sz = Large \<longleftrightarrow> COMMON_SIZE_MAX < sz \<and> sz \<le> LARGE_SIZE_MAX"
  "size_class_define sz = ExtraLarge \<longleftrightarrow> LARGE_SIZE_MAX < sz"
  by (auto simp: size_class_define_def layout_simps)

text \<open>The size of the objects in a slot of the two tables.\<close>

definition slot_size :: "bool \<Rightarrow> nat \<Rightarrow> usize" where
  "slot_size common i = (if common then 8 * (i + 1) else REAL_LARGE_SIZES ! i)"

lemma common_slot:
  assumes "0 < sz" and "size_class_define sz = Common"
  shows "common_index_of sz < COMMON_SIZE_TABLE_LEN" and "slot_size True (common_index_of sz) = recommended_size sz"
proof -
  have sz: "sz \<le> 1024" using assms(2) by (simp add: class_iff layout_simps)
  have i: "common_index_of sz = (sz - 1) div 8" using assms(1) sz by (intro common_index_eq) simp_all
  show "common_index_of sz < COMMON_SIZE_TABLE_LEN" unfolding i using assms(1) sz by (simp add: layout_simps)
  have "(sz + 7) div 8 = (sz - 1) div 8 + 1" using assms(1) by linarith
  then show "slot_size True (common_index_of sz) = recommended_size sz"
    unfolding i using sz by (simp add: slot_size_def recommended_common layout_simps)
qed

lemma large_slot:
  assumes "size_class_define sz = Large"
  shows "get_idx_by_id (fst (large_size_to_id_and_real_size sz)) < REAL_NUMBER_OF_LARGE_OBJECT_VECTORS"
    and "slot_size False (get_idx_by_id (fst (large_size_to_id_and_real_size sz))) = recommended_size sz"
    and "snd (large_size_to_id_and_real_size sz) = recommended_size sz"
proof -
  have sz: "COMMON_SIZE_MAX < sz" "sz \<le> LARGE_SIZE_MAX" using assms by (simp_all add: class_iff)
  note e = large_size_lookup_eq [OF sz] and t = large_tables_at [OF large_slot_range [OF sz]]
  from t(2,3) show "get_idx_by_id (fst (large_size_to_id_and_real_size sz)) < REAL_NUMBER_OF_LARGE_OBJECT_VECTORS"
    and "slot_size False (get_idx_by_id (fst (large_size_to_id_and_real_size sz))) = recommended_size sz"
    and "snd (large_size_to_id_and_real_size sz) = recommended_size sz"
    by (simp_all add: e slot_size_def get_idx_by_id_def recommended_large [OF sz] layout_simps)
qed

lemma recommended_facts:
  shows recommended_ge: "sz \<le> recommended_size sz"
    and recommended_class: "size_class_define (recommended_size sz) = size_class_define sz"
    and recommended_idem: "recommended_size (recommended_size sz) = recommended_size sz"
proof -
  consider "sz \<le> COMMON_SIZE_MAX" | "COMMON_SIZE_MAX < sz" "sz \<le> LARGE_SIZE_MAX"
    | "COMMON_SIZE_MAX < sz" "LARGE_SIZE_MAX < sz" by linarith
  then have "sz \<le> recommended_size sz \<and> size_class_define (recommended_size sz) = size_class_define sz
    \<and> recommended_size (recommended_size sz) = recommended_size sz"
  proof cases
    case 1
    let ?r = "(sz + 7) div 8 * 8"
    have r: "?r \<le> COMMON_SIZE_MAX" "sz \<le> ?r" "(?r + 7) div 8 * 8 = ?r"
      using 1 unfolding COMMON_SIZE_MAX_def by presburger+
    with 1 show ?thesis by (simp add: recommended_common size_class_define_def)
  next
    case 2
    let ?r = "LARGE_SIZES_FOR_ID ! find_large_slot_id sz"
    note f = large_real_facts [OF 2]
    have r: "COMMON_SIZE_MAX < ?r" using f(1) 2(1) by simp
    note g = large_real_facts [OF r f(3)]
    have "LARGE_SIZES_FOR_ID ! find_large_slot_id ?r = ?r"
      using g(4) [OF f(2)] g(1) by simp
    with 2 r f show ?thesis by (simp add: recommended_large size_class_define_def)
  next
    case 3
    then show ?thesis by (simp add: recommended_size_def)
  qed
  then show "sz \<le> recommended_size sz" "size_class_define (recommended_size sz) = size_class_define sz"
    "recommended_size (recommended_size sz) = recommended_size sz" by simp_all
qed

lemma recommended_xl: "size_class_define sz = ExtraLarge \<Longrightarrow> recommended_size sz = sz"
  by (simp add: class_iff recommended_size_def layout_simps)

end
