(* ===== verification/LocalObjects.thy ===== *)
theory LocalObjects
  imports SelfAlloc ObjectSizes
begin

text \<open>
  Two facts about the objects of one thread that hold at every depth, whatever re-entrant calls
  happen in between: an object freed by its owner is the next one of its size handed out, and the
  metadata \<open>alloc_large_slow\<close> writes for a new chunk is not that of the chunk's first objects.
\<close>

section \<open>Freed objects are reused\<close>

definition object_vec :: "('k, 'n) world \<Rightarrow> usize \<Rightarrow> addr self_vec" where
  "object_vec w sz =
     (if size_class_define sz = Common then common_object_table (inner w) ! common_idx sz
      else large_object_table (inner w) ! large_idx sz)"

definition has_table :: "('k, 'n) world \<Rightarrow> usize \<Rightarrow> bool" where
  "has_table w sz \<longleftrightarrow>
     (case size_class_define sz of
        Common \<Rightarrow> common_idx sz < length (common_object_table (inner w))
      | Large \<Rightarrow> large_idx sz < length (large_object_table (inner w))
      | ExtraLarge \<Rightarrow> False)"

lemma push_without_counting_limit_last:
  assumes "push_without_counting_limit n V x w = Some (True, w')" and "the_vec V w' = v"
    and "\<And>v w. the_vec V (set_vec V v w) = v \<or> P (set_vec V v w)" and "\<not> P w'"
  shows "\<exists>xs. vec_elems v = xs @ [x]"
proof -
  obtain w1 b where "w' = set_vec V ((the_vec V w1)\<lparr>vec_elems := vec_elems (the_vec V w1) @ [x]\<rparr>) w1"
    using assms(1) by (auto simp: push_without_counting_limit_def extend_by_def Let_def split: option.splits sum.splits)
  with assms(2-4) have "v = (the_vec V w1)\<lparr>vec_elems := vec_elems (the_vec V w1) @ [x]\<rparr>" by metis
  then show ?thesis by simp
qed

lemma push_back_without_state_last:
  assumes "push_back_without_state ops V p w = Some w'"
    and "\<And>v w. the_vec V (set_vec V v w) = v \<or> P (set_vec V v w)"
    and "\<And>w s. the_vec V (w\<lparr>maybe_state := s\<rparr>) = the_vec V w \<and> P (w\<lparr>maybe_state := s\<rparr>) = P w" and "\<not> P w'"
  shows "\<exists>xs. vec_elems (the_vec V w') = xs @ [p]"
proof -
  obtain w1 where w1: "push_without_counting_limit (rounds ops) V p (w\<lparr>maybe_state := None\<rparr>) = Some (True, w1)"
    and w': "w' = w1\<lparr>maybe_state := maybe_state w\<rparr>"
    using assms(1) by (auto simp: push_back_without_state_def without_state_def push_back_def split: option.splits bool.splits)
  have "the_vec V w' = the_vec V w1" "\<not> P w1" using assms(3,4) by (simp_all add: w')
  with push_without_counting_limit_last [OF w1 refl assms(2)] show ?thesis by simp
qed

lemma freed_object_is_last:
  assumes run: "dealloc_body E ops p sz w = Some w'" and loc: "metadata_of (cells w) p = Some md" "is_local_ptr md w"
    and t: "has_table w' sz"
  shows "\<exists>xs. vec_elems (object_vec w' sz) = xs @ [p]"
proof (cases "size_class_define sz")
  case Common
  then have "push_back_without_state ops (common_objects ops (common_idx sz)) p w = Some w'"
    using run loc by (simp add: dealloc_body_def dealloc_common_def common_idx_def)
  then have "\<exists>xs. vec_elems (the_vec (common_objects ops (common_idx sz)) w') = xs @ [p]"
    by (rule push_back_without_state_last [where P = "\<lambda>w. \<not> common_idx sz < length (common_object_table (inner w))"])
      (use t Common in \<open>auto simp: common_objects_def vec_of_def has_table_def nth_list_update\<close>)
  with Common show ?thesis by (simp add: common_objects_def vec_of_def object_vec_def)
next
  case Large
  then have "push_back_without_state ops (large_objects ops (large_idx sz)) p w = Some w'"
    using run loc by (simp add: dealloc_body_def dealloc_large_def large_idx_def)
  then have "\<exists>xs. vec_elems (the_vec (large_objects ops (large_idx sz)) w') = xs @ [p]"
    by (rule push_back_without_state_last [where P = "\<lambda>w. \<not> large_idx sz < length (large_object_table (inner w))"])
      (use t Large in \<open>auto simp: large_objects_def vec_of_def has_table_def nth_list_update\<close>)
  with Large show ?thesis by (simp add: large_objects_def vec_of_def object_vec_def)
next
  case ExtraLarge
  with t show ?thesis by (simp add: has_table_def)
qed

lemma last_object_is_allocated:
  assumes "vec_elems (object_vec w sz) = xs @ [p]" and "has_table w sz"
  shows "\<exists>w'. try_alloc_body E ops sz w = Some (Some p, w') \<and> panicked w' = panicked w
    \<and> vec_elems (object_vec w' sz) = xs"
proof (cases "size_class_define sz")
  case Common
  with assms show ?thesis
    by (simp add: try_alloc_body_def alloc_common_def pop_common_def vec_pop_def vec_len_def object_vec_def common_idx_def has_table_def)
next
  case Large
  obtain size_id real where "large_size_to_id_and_real_size sz = (size_id, real)" by fastforce
  with Large assms show ?thesis
    by (simp add: try_alloc_body_def alloc_large_def pop_large_def vec_pop_def vec_len_def object_vec_def large_idx_def has_table_def)
next
  case ExtraLarge
  with assms(2) show ?thesis by (simp add: has_table_def)
qed

text \<open>C7: a common or large object that its owner frees is the object the next request of its size
  gets, even if the free list had to grow and the allocator re-entered for that. (The free list
  has a place in its table.)\<close>

theorem local_free_is_reused:
  assumes "dealloc E n p sz w = Some w'" and "metadata_of (cells w) p = Some md" and "is_local_ptr md w"
    and "has_table w' sz"
  shows "\<exists>w''. try_alloc E m sz w' = Some (Some p, w'')"
proof -
  have run: "dealloc_body E (allocator_at E n) p sz w = Some w'" and np: "\<not> panicked w'"
    using assms(1) by (auto simp: dealloc_def settled_def split: option.splits if_splits)
  obtain xs where "vec_elems (object_vec w' sz) = xs @ [p]"
    using freed_object_is_last [OF run assms(2-4)] by blast
  from last_object_is_allocated [OF this assms(4), of E "allocator_at E m"] np
  show ?thesis by (auto simp: try_alloc_def settled_def)
qed

section \<open>The metadata of a new large chunk\<close>

text \<open>A world in which nothing has to grow: the manager and the table exist, the free list of slot \<open>i\<close> is
  empty and has room for the objects of a chunk.\<close>

definition ready_for_large :: "nat \<Rightarrow> usize \<Rightarrow> ('k, 'n) world \<Rightarrow> bool" where
  "ready_for_large i real_size w \<longleftrightarrow>
     non_local_ptr_manager_box (inner w) \<noteq> None \<and>
     (case large_chunk_table (inner w) of
        None \<Rightarrow> False
      | Some (_, t) \<Rightarrow> i < length t \<and> vec_len (t ! i) < vec_cap (t ! i) \<and> vec_cap (t ! i) < 2 ^ 32) \<and>
     i < length (large_object_table (inner w)) \<and> vec_elems (large_object_table (inner w) ! i) = [] \<and>
     LARGE_CHUNK_SIZE div real_size \<le> vec_cap (large_object_table (inner w) ! i)"

lemma carve_room:
  "vec_len v + n \<le> vec_cap v \<Longrightarrow> \<exists>v'. carve n sz p v = Some (p + n * sz, v')"
proof (induction n arbitrary: p v)
  case (Suc n)
  then have "try_push p v = Inr (v\<lparr>vec_elems := vec_elems v @ [p]\<rparr>)" by (simp add: try_push_def vacant_def)
  moreover have "vec_len (v\<lparr>vec_elems := vec_elems v @ [p]\<rparr>) + n \<le> vec_cap (v\<lparr>vec_elems := vec_elems v @ [p]\<rparr>)"
    using Suc.prems by (simp add: vec_len_def)
  from Suc.IH [OF this, of "p + sz"] have "\<exists>v'. carve n sz (p + sz) (v\<lparr>vec_elems := vec_elems v @ [p]\<rparr>) = Some (p + sz + n * sz, v')" .
  ultimately show ?case by (simp add: add.assoc)
qed simp

lemma fill_ready:
  assumes "vec_elems (large_object_table (inner w) ! i) = []" and "i < length (large_object_table (inner w))"
    and "LARGE_CHUNK_SIZE div sz \<le> vec_cap (large_object_table (inner w) ! i)" and "LARGE_CHUNK_SIZE div sz < 2 ^ 32"
  shows "\<exists>v. fill_from_chunk f (large_objects ops i) sz LARGE_CHUNK_SIZE p w =
    Some (Some (p + (LARGE_CHUNK_SIZE div sz - 1) * sz), set_vec (large_objects ops i) v w)"
proof -
  let ?V = "large_objects ops i" and ?n = "LARGE_CHUNK_SIZE div sz - 1"
  have v: "the_vec ?V w = large_object_table (inner w) ! i" by (simp add: large_objects_def vec_of_def)
  have n: "u32 ?n = ?n" "?n \<le> vec_cap (the_vec ?V w)" "vec_len (the_vec ?V w) = 0"
    using assms by (simp_all add: v vec_len_def)
  then have "reserve f ?V True (u32 ?n) w = Some (Inr False, w)"
    by (simp add: reserve_def needed_def)
  moreover obtain v' where "carve ?n sz p (the_vec ?V w) = Some (p + ?n * sz, v')"
    using carve_room [of "the_vec ?V w" ?n] n by auto
  ultimately show ?thesis by (auto simp: fill_from_chunk_def Let_def)
qed

lemma push_room:
  assumes "vec_len (the_vec V w) < vec_cap (the_vec V w)" and "vec_cap (the_vec V w) < 2 ^ 32"
  shows "vec_push f V x w = Some (True, set_vec V ((the_vec V w)\<lparr>vec_elems := vec_elems (the_vec V w) @ [x]\<rparr>) w)"
    and "push_without_counting_limit f V x w = Some (True, set_vec V ((the_vec V w)\<lparr>vec_elems := vec_elems (the_vec V w) @ [x]\<rparr>) w)"
proof -
  have "vec_len (the_vec V w) + 1 < 2 ^ 32" using assms by linarith
  with assms show "vec_push f V x w = Some (True, set_vec V ((the_vec V w)\<lparr>vec_elems := vec_elems (the_vec V w) @ [x]\<rparr>) w)"
    and "push_without_counting_limit f V x w = Some (True, set_vec V ((the_vec V w)\<lparr>vec_elems := vec_elems (the_vec V w) @ [x]\<rparr>) w)"
    by (simp_all add: vec_push_def push_without_counting_limit_def extend_by_def reserve_def needed_def Let_def)
qed

lemma last_object_cell:
  assumes sz: "COMMON_SIZE_MAX < sz" "sz \<le> LARGE_SIZE_MAX"
  shows "4 * COMMON_CHUNK_SIZE \<le> (LARGE_CHUNK_SIZE div sz - 1) * sz" and "(LARGE_CHUNK_SIZE div sz - 1) * sz < LARGE_CHUNK_SIZE"
proof -
  have "LARGE_CHUNK_SIZE = LARGE_CHUNK_SIZE div sz * sz + LARGE_CHUNK_SIZE mod sz" by simp
  moreover have "LARGE_CHUNK_SIZE mod sz < sz" using sz(1) by simp
  moreover have "(LARGE_CHUNK_SIZE div sz - 1) * sz = LARGE_CHUNK_SIZE div sz * sz - sz" by (simp add: diff_mult_distrib)
  moreover have "LARGE_CHUNK_SIZE = 8 * COMMON_CHUNK_SIZE" "2 * sz \<le> 4 * COMMON_CHUNK_SIZE" "0 < COMMON_CHUNK_SIZE" "0 < sz"
    using sz by (simp_all add: layout_simps)
  ultimately show "4 * COMMON_CHUNK_SIZE \<le> (LARGE_CHUNK_SIZE div sz - 1) * sz" "(LARGE_CHUNK_SIZE div sz - 1) * sz < LARGE_CHUNK_SIZE"
    by linarith+
qed

lemma chunk_index_plus:
  assumes "LARGE_CHUNK_SIZE dvd r" and "LARGE_CHUNK_SIZE dvd chunk" and "r \<le> chunk"
  shows "chunk_index r (chunk + x) = chunk_index r chunk + x div COMMON_CHUNK_SIZE"
proof -
  have "LARGE_CHUNK_SIZE dvd chunk - r" using assms(1,2) by (rule dvd_diff_nat [rotated])
  moreover have "COMMON_CHUNK_SIZE dvd LARGE_CHUNK_SIZE" "COMMON_CHUNK_SIZE \<noteq> 0" by (simp_all add: layout_simps)
  ultimately obtain k where "chunk - r = COMMON_CHUNK_SIZE * k" by (meson dvdE dvd_trans)
  then have "chunk + x - r = COMMON_CHUNK_SIZE * k + x" using assms(3) by linarith
  with \<open>chunk - r = _\<close> \<open>COMMON_CHUNK_SIZE \<noteq> 0\<close> show ?thesis by (simp add: chunk_index_def)
qed

text \<open>C8: \<open>alloc_large_slow\<close> passes the address of the last object of the new chunk, not of the chunk, to
  \<open>init_metadata_for_large_chunk\<close>. For every large size, the metadata read for the first four of the eight
  parts of the chunk is what was there before, and the metadata of the first four parts of the chunk
  behind it is overwritten. The first object of a chunk in a fresh region, given to \<open>dealloc\<close>, makes it read
  metadata that was never written.\<close>

theorem large_chunk_metadata_misplaced:
  assumes get: "get_chunk w = Some (Some chunk, w2)" and quiet: "\<not> should_auto_check E"
    and sz: "size_class_define sz = Large" "large_size_to_id_and_real_size sz = (size_id, sz)"
    and ready: "ready_for_large (large_idx sz) sz w2"
    and r: "is_region r" "chunk \<in> range_of r REGION_SIZE" "LARGE_CHUNK_SIZE dvd chunk"
  shows "\<exists>cur w'. alloc_large_slow E ops False size_id sz get_chunk w = Some (Some cur, w')
    \<and> cur \<in> range_of chunk LARGE_CHUNK_SIZE
    \<and> (\<forall>q\<in>range_of chunk (4 * COMMON_CHUNK_SIZE). metadata_of (cells w') q = metadata_of (cells w2) q)
    \<and> (\<forall>q\<in>range_of (chunk + LARGE_CHUNK_SIZE) (4 * COMMON_CHUNK_SIZE) \<inter> range_of r REGION_SIZE.
        map_option offset_to_slot_in_table (metadata_of (cells w') q) = Some (new_for_large_chunk (large_idx sz)))
    \<and> (metadata_of (cells w2) chunk = None \<longrightarrow> dealloc_body E ops chunk sz w' = None)"
proof -
  have bounds: "COMMON_SIZE_MAX < sz" "sz \<le> LARGE_SIZE_MAX"
    using sz(1) by (auto simp: size_class_define_def split: if_splits)
  define i where "i = large_idx sz"
  have idx: "get_idx_by_id size_id = i" using sz(2) by (simp add: i_def large_idx_def)
  obtain m b t where w2: "non_local_ptr_manager_box (inner w2) = Some m" "large_chunk_table (inner w2) = Some (b, t)"
    "i < length t" "vec_len (t ! i) < vec_cap (t ! i)" "vec_cap (t ! i) < 2 ^ 32"
    "i < length (large_object_table (inner w2))" "vec_elems (large_object_table (inner w2) ! i) = []"
    "LARGE_CHUNK_SIZE div sz \<le> vec_cap (large_object_table (inner w2) ! i)"
    using ready by (auto simp: ready_for_large_def i_def split: option.splits)
  let ?cur = "chunk + (LARGE_CHUNK_SIZE div sz - 1) * sz"
  have pop: "pop_large i w2 = (None, w2)"
    using w2(7) by (simp add: pop_large_def vec_pop_def vec_len_def)
  obtain w5 where w5: "vec_push (rounds ops) (large_chunks_vec ops i) chunk w2 = Some (True, w5)" "cells w5 = cells w2"
    "inner w5 = (inner w2)\<lparr>large_chunk_table := large_chunk_table (inner w5)\<rparr>"
    using push_room(1) [of "large_chunks_vec ops i" w2 "rounds ops" chunk] w2
    by (simp add: large_chunks_vec_def vec_of_def)
  have tbl: "large_object_table (inner w5) = large_object_table (inner w2)" by (subst w5(3)) simp
  have "LARGE_CHUNK_SIZE div sz < 2 ^ 32"
    by (rule le_less_trans [OF div_le_dividend]) (simp add: layout_simps)
  then obtain v where fill: "fill_from_chunk (rounds ops) (large_objects ops i) sz LARGE_CHUNK_SIZE chunk w5 =
      Some (Some ?cur, set_vec (large_objects ops i) v w5)"
    using fill_ready [of w5 i sz "rounds ops" ops chunk] w2(6-8) by (simp add: tbl) blast
  let ?w6 = "set_vec (large_objects ops i) v w5"
  have w6: "cells ?w6 = cells w2" "non_local_ptr_manager_box (inner ?w6) = Some m"
    using w5(2) w2(1) by (simp_all add: large_objects_def vec_of_def, subst w5(3), simp)
  define w' where "w' = ?w6\<lparr>cells := init_metadata_for_large_chunk m (new_for_large_chunk i) ?cur (cells w2)\<rparr>"
  have run: "alloc_large_slow E ops False size_id sz get_chunk w = Some (Some ?cur, w')"
    using get quiet pop w5(1) fill w6 w2(2)
    by (simp add: alloc_large_slow_def idx Let_def get_large_chunk_table_def get_or_init_non_local_ptr_manager_def w'_def)
  note c = last_object_cell [OF bounds]
  have k: "LARGE_CHUNK_SIZE dvd r" "LARGE_CHUNK_SIZE dvd REGION_SIZE"
    using r(1) by (auto simp: is_region_def layout_simps elim: dvd_trans [rotated])
  have inside: "chunk + LARGE_CHUNK_SIZE \<le> r + REGION_SIZE"
    using r(2,3) k by (intro dvd_less_add) (auto simp: range_of_def)
  have cur: "?cur \<in> range_of r REGION_SIZE" using inside c(2) r(2) by (auto simp: range_of_def)
  note covers = init_metadata_covers [OF r(1) cur, of _ m "new_for_large_chunk i" "cells w2"]
  have "r \<le> chunk" using r(2) by (simp add: range_of_def)
  note plus = chunk_index_plus [OF k(1) r(3) this]
  have ix: "chunk_index r chunk + 4 \<le> chunk_index r ?cur" "chunk_index r ?cur < chunk_index r chunk + 8"
    using c unfolding plus by (simp_all add: less_eq_div_iff_mult_less_eq div_less_iff_less_mult layout_simps)
  have kept: "metadata_of (cells w') q = metadata_of (cells w2) q" if q: "q \<in> range_of chunk (4 * COMMON_CHUNK_SIZE)" for q
  proof -
    have "q \<in> range_of r REGION_SIZE" using q inside r(2) by (auto simp: range_of_def layout_simps)
    moreover have "chunk_index r q < chunk_index r chunk + 4"
      using q plus [of "q - chunk"] by (auto simp: range_of_def div_less_iff_less_mult layout_simps)
    ultimately show ?thesis using ix(1) covers [of q] by (simp add: w'_def)
  qed
  have over: "map_option offset_to_slot_in_table (metadata_of (cells w') q) = Some (new_for_large_chunk i)"
    if q: "q \<in> range_of (chunk + LARGE_CHUNK_SIZE) (4 * COMMON_CHUNK_SIZE) \<inter> range_of r REGION_SIZE" for q
  proof -
    have "chunk_index r chunk + 8 \<le> chunk_index r q" "chunk_index r q < chunk_index r chunk + 12"
      using q plus [of "q - chunk"]
      by (auto simp: range_of_def less_eq_div_iff_mult_less_eq div_less_iff_less_mult layout_simps)
    then show ?thesis using ix q covers [of q] by (simp add: w'_def)
  qed
  have "metadata_of (cells w2) chunk = None \<longrightarrow> dealloc_body E ops chunk sz w' = None"
    using kept [of chunk] sz(1) by (simp add: dealloc_body_def dealloc_large_def range_of_def layout_simps)
  moreover have "?cur \<in> range_of chunk LARGE_CHUNK_SIZE" using c(2) by (simp add: range_of_def)
  ultimately show ?thesis using run kept over unfolding i_def [symmetric]
    by (intro exI [of _ ?cur] exI [of _ w'] conjI ballI) simp_all
qed

text \<open>A world for the witnesses: every free list and table has room, nothing is free, the manager's box
  is at 8, and the metadata of the region at 32 MB belongs to it.\<close>

definition lone_env :: "(addr set, unit) env" where
  "lone_env =
     \<lparr>env_libc = linux_libc, env_kernel = one_place, size_of_state = 8192, size_of_nlpm = 64, align_of_nlpm = 8,
      should_auto_check = False, nl_deallocate = (\<lambda>_ _ _ w. w), nl_check = (\<lambda>_ w. w),
      env_size_of_leaf = 192, env_size_of_internal = 288, which_node = (\<lambda>_ _. 0)\<rparr>"

definition roomy :: "addr self_vec" where
  "roomy = \<lparr>vec_ptr = 4096, vec_elems = [], vec_cap = 512\<rparr>"

definition lone_inner :: inner where
  "lone_inner = new_inner\<lparr>non_local_ptr_manager_box := Some 8,
     common_object_table := replicate COMMON_SIZE_TABLE_LEN roomy,
     large_object_table := replicate REAL_NUMBER_OF_LARGE_OBJECT_VECTORS roomy,
     large_chunk_table := Some (16, replicate REAL_NUMBER_OF_LARGE_OBJECT_VECTORS roomy)\<rparr>"

definition lone_world :: "metadata \<Rightarrow> (addr set, unit) world" where
  "lone_world md = \<lparr>inner = lone_inner, proc = \<lparr>lim = initial_limit_state, os = initial_os_state {}\<rparr>,
     cells = md, maybe_state = None, node_memory = [], nl = (), panicked = False\<rparr>"


lemma id_65536: "size_class_define 65536 = Large" "large_size_to_id_and_real_size 65536 = (255, 65536)"
proof -
  have "find_large_slot_id 65536 = 255"
    by (rule find_large_slot_id_eqI) (simp_all add: slot_lo_def slot_hi_def)
  then show "large_size_to_id_and_real_size 65536 = (255, 65536)"
    by (subst large_size_lookup_eq) (simp_all add: layout_simps LARGE_SIZES_FOR_ID_def nth_append)
  show "size_class_define 65536 = Large" by (simp add: size_class_define_def layout_simps)
qed

theorem local_free_is_reused_witness:
  "\<exists>w' w''. dealloc lone_env 1 4096 64 (lone_world (\<lambda>_. Some \<lparr>non_local_ptr_manager = 8, offset_to_slot_in_table = new_for_common_chunk 7\<rparr>)) = Some w'
     \<and> try_alloc lone_env 0 64 w' = Some (Some 4096, w'')"
proof -
  let ?md = "\<lparr>non_local_ptr_manager = 8, offset_to_slot_in_table = new_for_common_chunk 7\<rparr>"
  let ?w = "lone_world (\<lambda>_. Some ?md)"
  have md: "metadata_of (cells ?w) 4096 = Some ?md" "is_local_ptr ?md ?w"
    by (simp_all add: metadata_of_def lone_world_def is_local_ptr_def lone_inner_def)
  obtain w' where d: "dealloc lone_env 1 4096 64 ?w = Some w'" and t: "has_table w' 64"
  proof -
    have "common_index_of 64 = 7" by (rule trans [OF common_index_eq]) simp_all
    then have c: "size_class_define 64 = Common" "common_size_to_index 64 = 7"
      by (simp_all add: size_class_define_def layout_simps)
    let ?V = "common_objects (allocator_at lone_env 1) 7"
    have v: "the_vec ?V (?w\<lparr>maybe_state := None\<rparr>) = roomy"
      by (simp add: common_objects_def vec_of_def lone_world_def lone_inner_def layout_simps)
    have "push_without_counting_limit n ?V 4096 (?w\<lparr>maybe_state := None\<rparr>) =
        Some (True, set_vec ?V (roomy\<lparr>vec_elems := [4096]\<rparr>) (?w\<lparr>maybe_state := None\<rparr>))" for n
      using push_room(2) [of ?V "?w\<lparr>maybe_state := None\<rparr>" n 4096] unfolding v by (simp add: roomy_def vec_len_def)
    then have "push_back_without_state (allocator_at lone_env 1) ?V 4096 ?w = Some (set_vec ?V (roomy\<lparr>vec_elems := [4096]\<rparr>) ?w)"
      by (simp add: push_back_without_state_def without_state_def push_back_def del: allocator_at.simps)
        (simp add: common_objects_def vec_of_def lone_world_def)
    then have "dealloc lone_env 1 4096 64 ?w = Some (set_vec (common_objects (allocator_at lone_env 1) 7) (roomy\<lparr>vec_elems := [4096]\<rparr>) ?w)"
      using md by (simp add: dealloc_def settled_def dealloc_body_def dealloc_common_def c del: allocator_at.simps)
        (simp add: common_objects_def vec_of_def lone_world_def)
    moreover have "has_table (set_vec (common_objects (allocator_at lone_env 1) 7) (roomy\<lparr>vec_elems := [4096]\<rparr>) ?w) 64"
      by (simp add: has_table_def c common_idx_def common_objects_def vec_of_def lone_world_def lone_inner_def new_inner_def layout_simps)
    ultimately show thesis by (rule that)
  qed
  from local_free_is_reused [OF d md t, of 0] d show ?thesis by auto
qed

theorem large_chunk_metadata_misplaced_witness:
  "\<exists>cur w'. alloc_large_slow lone_env (allocator_at lone_env 1) False 255 65536
       (\<lambda>w. Some (Some (REGION_SIZE + 524288), w)) (lone_world Map.empty) = Some (Some cur, w')
     \<and> dealloc_body lone_env (allocator_at lone_env 1) (REGION_SIZE + 524288) 65536 w' = None"
proof -
  let ?w = "lone_world Map.empty" and ?p = "REGION_SIZE + 524288"
  have ready: "ready_for_large (large_idx 65536) 65536 ?w"
    using large_slot(1) [OF id_65536(1)] by (simp add: ready_for_large_def lone_world_def lone_inner_def new_inner_def roomy_def vec_len_def layout_simps large_idx_def)
  have r: "is_region REGION_SIZE" "?p \<in> range_of REGION_SIZE REGION_SIZE" "LARGE_CHUNK_SIZE dvd ?p"
    by (simp_all add: is_region_def range_of_def layout_simps)
  have "metadata_of (cells ?w) ?p = None" by (simp add: lone_world_def metadata_of_def)
  with large_chunk_metadata_misplaced [where get_chunk = "\<lambda>w. Some (Some ?p, w)",
      OF refl _ id_65536 ready r, of lone_env "allocator_at lone_env 1"]
  show ?thesis by (auto simp: lone_env_def)
qed

end
