(* ===== verification/BTreeAlloc.thy ===== *)
theory BTreeAlloc
  imports BTreeRemove
begin

text \<open>
  What the map does to the state of its allocator. Insertion and removal touch it only through
  \<open>self_alloc\<close> and \<open>self_dealloc\<close> with the sizes of the two kinds of nodes, so they keep whatever these
  two keep: the locale \<open>node_keeper\<close>.
\<close>

locale node_keeper =
  fixes A :: "'s allocator"
    and P :: "'s \<Rightarrow> bool"
  assumes alloc: "P s \<Longrightarrow> sz = size_of_leaf A \<or> sz = size_of_internal A \<Longrightarrow> P (snd (self_alloc A (recommended_size sz) s))"
    and dealloc: "P s \<Longrightarrow> sz = size_of_leaf A \<or> sz = size_of_internal A \<Longrightarrow> P (self_dealloc A sz s)"

context node_keeper
begin

lemma new_nodes:
  "P (alloc_state m) \<Longrightarrow> leaf_new A m = (ok, m') \<Longrightarrow> P (alloc_state m')"
  "P (alloc_state m) \<Longrightarrow> internal_new A m = (ok, m') \<Longrightarrow> P (alloc_state m')"
  using alloc [of "alloc_state m" "size_of_leaf A"] alloc [of "alloc_state m" "size_of_internal A"]
  by (auto simp: leaf_new_def internal_new_def new_box_def Let_def split: prod.splits)

lemma leaf_insert_keeps:
  "leaf_insert A i k v n m = Some (r, m') \<Longrightarrow> P (alloc_state m) \<Longrightarrow> P (alloc_state m')"
  by (auto simp: leaf_insert_def leaf_split_def split: if_splits prod.splits option.splits dest: new_nodes)

lemma internal_insert_keeps:
  "internal_insert A i k v e n m = Some (r, m') \<Longrightarrow> P (alloc_state m) \<Longrightarrow> P (alloc_state m')"
  by (auto simp: internal_insert_def internal_split_def split: if_splits prod.splits option.splits dest: new_nodes)

lemma insert_loop_keeps:
  "insert_loop A split fs m = Some (t, m') \<Longrightarrow> P (alloc_state m) \<Longrightarrow> P (alloc_state m')"
proof (induction fs arbitrary: split m)
  case Nil
  then show ?case
    by (auto simp: split_root_def push_internal_level_def split: if_splits prod.splits option.splits dest: new_nodes)
next
  case (Cons f fs)
  obtain n i where f: "f = (n, i)" by fastforce
  with Cons.prems(1) obtain r m1
    where r: "internal_insert A i (fst (kv split)) (snd (kv split)) (right split) (set_edge n i (left split)) m = Some (r, m1)"
    by (auto split: option.splits)
  from internal_insert_keeps [OF r Cons.prems(2)] Cons r f show ?case by (cases r) auto
qed

lemma insert_recursing_keeps:
  "insert_recursing A h k v m = Some (t, m') \<Longrightarrow> P (alloc_state m) \<Longrightarrow> P (alloc_state m')"
  by (auto simp: insert_recursing_def split: prod.splits option.splits sum.splits
      dest: leaf_insert_keeps insert_loop_keeps)

lemma vacant_insert_keeps:
  assumes "vacant_insert A k h v mp s = Ok (mp', s')" and P: "P s"
  shows "P s'"
  using assms(1) new_nodes(1) [of "\<lparr>allocated_memory = map_memory mp, alloc_state = s\<rparr>"] P
    insert_recursing_keeps [of _ k v "\<lparr>allocated_memory = map_memory mp, alloc_state = s\<rparr>"]
  by (auto simp: vacant_insert_def Let_def split: option.splits if_splits prod.splits)

lemma do_merge_keeps:
  "do_merge A c m = Some (p, l, m') \<Longrightarrow> P (alloc_state m) \<Longrightarrow> P (alloc_state m')"
  by (auto simp: do_merge_def node_dealloc_def Let_def split: if_splits intro: dealloc)

lemma merge_keeps:
  "merge_left A c path fs m = Some (tr, m') \<Longrightarrow> P (alloc_state m) \<Longrightarrow> P (alloc_state m')"
  "merge_right A c path fs m = Some (tr, m') \<Longrightarrow> P (alloc_state m) \<Longrightarrow> P (alloc_state m')"
  by (auto simp: merge_left_def merge_right_def split: option.splits dest: do_merge_keeps)

lemma fix_through_keeps:
  "fix_node_through_parent A tr m = Some (r, m') \<Longrightarrow> P (alloc_state m) \<Longrightarrow> P (alloc_state m')"
  by (auto simp: fix_node_through_parent_def Let_def split: prod.splits list.splits option.splits sum.splits if_splits
      dest: merge_keeps)

lemma fix_ancestors_keeps:
  "fix_node_and_affected_ancestors A tr m = Some (t, b, m') \<Longrightarrow> P (alloc_state m) \<Longrightarrow> P (alloc_state m')"
proof (induction "length (snd (snd tr))" arbitrary: tr m rule: less_induct)
  case less
  from less.prems(1) obtain r m1 where r: "fix_node_through_parent A tr m = Some (r, m1)"
    by (subst (asm) fix_node_and_affected_ancestors.simps) (auto split: option.splits)
  note P1 = fix_through_keeps [OF r less.prems(2)]
  show ?case
  proof (cases r)
    case (Shrunk p)
    with less.prems(1) r have "fix_node_and_affected_ancestors A p m1 = Some (t, b, m')"
      by (subst (asm) fix_node_and_affected_ancestors.simps) simp
    moreover obtain n path fs where "tr = (n, path, fs)" by (cases tr)
    with r Shrunk have "length (snd (snd p)) < length (snd (snd tr))" by (auto dest: fix_shrinks)
    ultimately show ?thesis using less.hyps P1 by blast
  qed (use less.prems(1) r P1 in \<open>subst (asm) fix_node_and_affected_ancestors.simps, simp\<close>)+
qed

lemma fix_leaf_keeps:
  "fix_leaf A n i fs m = Some (tr, m') \<Longrightarrow> P (alloc_state m) \<Longrightarrow> P (alloc_state m')"
  by (auto simp: fix_leaf_def split: prod.splits list.splits option.splits sum.splits if_splits dest: merge_keeps)

lemma remove_leaf_kv_keeps:
  "remove_leaf_kv A kh m = Some (r, t, b, m') \<Longrightarrow> P (alloc_state m) \<Longrightarrow> P (alloc_state m')"
  by (auto simp: remove_leaf_kv_def split: prod.splits option.splits if_splits dest: fix_leaf_keeps fix_ancestors_keeps)

lemma remove_kv_tracking_keeps:
  "remove_kv_tracking A kh m = Some (r, t, b, m') \<Longrightarrow> P (alloc_state m) \<Longrightarrow> P (alloc_state m')"
  by (auto simp: remove_kv_tracking_def remove_internal_kv_def split: prod.splits option.splits if_splits
      dest: remove_leaf_kv_keeps)

lemma occupied_remove_keeps:
  assumes "occupied_remove A kh mp s = Some (r, mp', s')" and "P s"
  shows "P s'"
proof -
  obtain t b m where t: "remove_kv_tracking A kh \<lparr>allocated_memory = map_memory mp, alloc_state = s\<rparr> = Some (r, t, b, m)"
    and s': "(if b then pop_internal_level A t m else Some (t, m)) \<noteq> None"
      "s' = alloc_state (snd (the (if b then pop_internal_level A t m else Some (t, m))))"
    using assms(1) by (auto simp: occupied_remove_def split: option.splits if_splits)
  have "P (alloc_state m)" using remove_kv_tracking_keeps [OF t] assms(2) by simp
  with s' dealloc [of "alloc_state m"] show ?thesis
    by (auto simp: pop_internal_level_def node_dealloc_def split: if_splits list.splits)
qed

lemma map_remove_keeps:
  assumes "map_remove A key mp s = Some (r, mp', s')" and "P s"
  shows "P s'"
  using assms by (auto simp: map_remove_def remove_entry_def split: option.splits SearchResult.splits dest: occupied_remove_keeps)

end

end
