(* ===== verification/Ownership.thy ===== *)
theory Ownership
  imports SelfAlloc StateOwner ObjectSizes
begin

text \<open>
  Who owns which bytes in the world of a thread-local allocator. Every byte is counted as often as
  something may hand it out or uses it: objects in the free lists, free chunks, the blocks of the
  vectors, of the boxes and of the map's nodes, pointers other threads have sent back, the chains of
  states, the metadata chunks of the regions, and what is held outside (\<open>u\<close>). The invariant \<open>own\<close> says
  that no byte is counted twice, that only mapped bytes are counted, and that a region has no more
  bytes counted in it than its number of chunks in use accounts for, so that it is empty when it is
  unmapped.

  Bytes are counted in two kinds, those of extra-large blocks (\<open>True\<close>), which are mapped on their own,
  and those that lie in regions (\<open>False\<close>).
\<close>

type_synonym held = "bool \<Rightarrow> addr \<Rightarrow> nat"

section \<open>What is counted\<close>

text \<open>The bytes a block asked for with a size has: whole pages, or an object of its slot.\<close>

definition owned_size :: "usize \<Rightarrow> usize" where
  "owned_size sz = (if size_class_define sz = ExtraLarge then pages sz else recommended_size sz)"

definition in_regions :: "(addr \<Rightarrow> nat) \<Rightarrow> held" where
  "in_regions f k a = (if k then 0 else f a)"

definition block :: "addr \<Rightarrow> usize \<Rightarrow> held" where
  "block p sz k a = (if k = (size_class_define sz = ExtraLarge) then occ p (owned_size sz) a else 0)"

definition both :: "held \<Rightarrow> held \<Rightarrow> held" where
  "both u v k a = u k a + v k a"

definition vec_block :: "usize \<Rightarrow> 'a self_vec \<Rightarrow> held" where
  "vec_block esz v k a = (if vec_cap v = 0 then 0 else block (vec_ptr v) (vec_cap v * esz) k a)"

definition blocks :: "(addr \<times> usize) list \<Rightarrow> held" where
  "blocks bs k a = sum_list (map (\<lambda>(p, sz). block p sz k a) bs)"

definition objects :: "bool \<Rightarrow> addr self_vec list \<Rightarrow> held" where
  "objects common t k a =
     (\<Sum>i<length t. in_regions (chunks_count (vec_elems (t ! i)) (slot_size common i)) k a + vec_block 8 (t ! i) k a)"

definition vec_blocks :: "addr self_vec list \<Rightarrow> held" where
  "vec_blocks t k a = (\<Sum>i<length t. vec_block 8 (t ! i) k a)"

definition chunk_table :: "(addr \<times> addr self_vec list) option \<Rightarrow> held" where
  "chunk_table b k a =
     (case b of None \<Rightarrow> 0 | Some (p, t) \<Rightarrow> block p (length t * size_of_vec) k a + vec_blocks t k a)"

definition chunk_vec :: "nat \<Rightarrow> addr self_vec \<Rightarrow> held" where
  "chunk_vec n v k a = in_regions (chunks_count (vec_elems v) n) k a + vec_block 8 v k a"

definition cm_bytes :: "ChunkManager \<Rightarrow> held" where
  "cm_bytes cm k a = chunk_vec LARGE_CHUNK_SIZE (cm_free_large_chunks cm) k a
     + chunk_vec COMMON_CHUNK_SIZE (cm_free_common_chunks cm) k a + vec_block 16 (cm_regions cm) k a"

definition manager_box :: "usize \<Rightarrow> addr option \<Rightarrow> held" where
  "manager_box sz b k a = (case b of None \<Rightarrow> 0 | Some p \<Rightarrow> if sz = 0 then 0 else block p sz k a)"

definition inner_bytes :: "usize \<Rightarrow> inner \<Rightarrow> held" where
  "inner_bytes sz x k a =
     objects True (common_object_table x) k a + objects False (large_object_table x) k a
     + chunk_table (common_chunk_table x) k a + chunk_table (large_chunk_table x) k a
     + cm_bytes (chunk_manager x) k a + manager_box sz (non_local_ptr_manager_box x) k a"

text \<open>Pointers on their way back to this thread.\<close>

definition incoming :: "NonLocalPtrData list \<Rightarrow> addr \<Rightarrow> nat" where
  "incoming ds a =
     sum_list (map (\<lambda>d. occ (data_ptr d) (slot_size (is_common (data_offset d)) (slot_idx (data_offset d))) a) ds)"

text \<open>The regions in use, with the number of common chunks that may be in use; the metadata chunk of
  each belongs to it.\<close>

definition live :: "State list \<Rightarrow> ('k, 'n) world \<Rightarrow> (addr \<times> nat) list" where
  "live c w = map (\<lambda>v. (view_ptr v, number_of_common_chunks_occupied v)) (vec_elems (cm_regions (chunk_manager (inner w))))
     @ map (\<lambda>s. (region_ptr s, MAX_COMMON_CHUNKS_IN_REGION)) c"

definition first_chunks :: "(addr \<times> nat) list \<Rightarrow> addr \<Rightarrow> nat" where
  "first_chunks rs a = chunks_count (map fst rs) COMMON_CHUNK_SIZE a"

definition bytes :: "('k, 'n) env \<Rightarrow> ('n \<Rightarrow> NonLocalPtrData list) \<Rightarrow> State list \<Rightarrow> ('k, 'n) world \<Rightarrow> held \<Rightarrow> held" where
  "bytes E waiting c w u k a =
     inner_bytes (size_of_nlpm E) (inner w) k a + blocks (node_memory w) k a
     + in_regions (incoming (waiting (nl w))) k a + in_regions (chain_count (size_of_state E) c) k a
     + in_regions (first_chunks (live c w)) k a + u k a"

section \<open>The environment\<close>

text \<open>Unmapping removes at most the pages named.\<close>

definition unmaps_only :: "'k kernel \<Rightarrow> ('k \<Rightarrow> addr set) \<Rightarrow> bool" where
  "unmaps_only K mapped \<longleftrightarrow>
     (\<forall>p sz w. 0 < sz \<longrightarrow> mapped w - range_of p (pages sz) \<subseteq> mapped (sys_munmap K p sz w)
        \<and> mapped (sys_munmap K p sz w) \<subseteq> mapped w)"

text \<open>The manager of non-local pointers: freeing may take one block and adds nothing to what comes in; checking hands
  over, in any number of calls, pointers that were coming in.\<close>

definition manager_ok :: "('k, 'n) env \<Rightarrow> ('n \<Rightarrow> NonLocalPtrData list) \<Rightarrow> bool" where
  "manager_ok E waiting \<longleftrightarrow>
     (\<forall>alloc m d w. \<exists>sz n. 0 < sz \<and>
        (let w1 = nl_deallocate E alloc m d w
         in (w1 = w\<lparr>nl := n\<rparr> \<and> waiting n = waiting (nl w) \<or>
             w1 = (snd (alloc sz w))\<lparr>nl := n\<rparr> \<and> waiting n = waiting (nl (snd (alloc sz w)))))) \<and>
     (\<forall>give w. \<exists>dss n. nl_check E give w = fold give dss (w\<lparr>nl := n\<rparr>)
        \<and> mset (concat dss) + mset (waiting n) = mset (waiting (nl w)))"

definition env_ok :: "('k, 'n) env \<Rightarrow> ('k \<Rightarrow> addr set) \<Rightarrow> ('n \<Rightarrow> NonLocalPtrData list) \<Rightarrow> bool" where
  "env_ok E mapped waiting \<longleftrightarrow>
     libc_ok (env_libc E) \<and> libc_huge_ok (env_libc E)
     \<and> kernel_ok (env_libc E) (env_kernel E) mapped \<and> kernel_huge_ok (env_libc E) (env_kernel E) mapped
     \<and> unmaps_only (env_kernel E) mapped
     \<and> size_of_state_ok (size_of_state E) \<and> recommended_size (size_of_state E) = size_of_state E
     \<and> 0 < env_size_of_leaf E \<and> 0 < env_size_of_internal E
     \<and> manager_ok E waiting"

section \<open>The invariant\<close>

definition good_size :: "SizeClass \<Rightarrow> usize \<Rightarrow> bool" where
  "good_size cl sz \<longleftrightarrow> 0 < sz \<and> size_class_define sz = cl \<and> recommended_size sz = sz"

definition shaped :: "inner \<Rightarrow> bool" where
  "shaped x \<longleftrightarrow>
     list_all (aligned_chunk COMMON_CHUNK_SIZE) (vec_elems (cm_free_common_chunks (chunk_manager x)))
     \<and> list_all (aligned_chunk LARGE_CHUNK_SIZE) (vec_elems (cm_free_large_chunks (chunk_manager x)))
     \<and> length (common_object_table x) = COMMON_SIZE_TABLE_LEN
     \<and> length (large_object_table x) = REAL_NUMBER_OF_LARGE_OBJECT_VECTORS
     \<and> (\<forall>b t. common_chunk_table x = Some (b, t) \<longrightarrow> length t = COMMON_SIZE_TABLE_LEN)
     \<and> (\<forall>b t. large_chunk_table x = Some (b, t) \<longrightarrow> length t = REAL_NUMBER_OF_LARGE_OBJECT_VECTORS)"

abbreviation mapped_now :: "('k \<Rightarrow> addr set) \<Rightarrow> ('k, 'n) world \<Rightarrow> addr set" where
  "mapped_now mapped w \<equiv> mapped (kern (os (proc w)))"

text \<open>A region in use: mapped, free of extra-large blocks, and with no more bytes counted than its chunks have.\<close>

definition region_owned :: "addr set \<Rightarrow> held \<Rightarrow> addr \<times> nat \<Rightarrow> bool" where
  "region_owned m f rq \<longleftrightarrow>
     (case rq of (r, q) \<Rightarrow> is_region r \<and> range_of r REGION_SIZE \<subseteq> m \<and> q \<le> MAX_COMMON_CHUNKS_IN_REGION
        \<and> (\<forall>a\<in>range_of r REGION_SIZE. f True a = 0)
        \<and> sum (f False) (range_of r REGION_SIZE) \<le> (q + 1) * COMMON_CHUNK_SIZE)"

definition owned_once :: "addr set \<Rightarrow> held \<Rightarrow> bool" where
  "owned_once m f \<longleftrightarrow> (\<forall>a. f False a + f True a \<le> (if a \<in> m then 1 else 0))"

definition own :: "('k, 'n) env \<Rightarrow> ('k \<Rightarrow> addr set) \<Rightarrow> ('n \<Rightarrow> NonLocalPtrData list) \<Rightarrow>
    State list \<Rightarrow> ('k, 'n) world \<Rightarrow> held \<Rightarrow> bool" where
  "own E mapped waiting c w u \<longleftrightarrow>
     env_ok E mapped waiting \<and> list_all (chunk_sizes good_size aligned_chunk) c \<and> shaped (inner w)
     \<and> owned_once (mapped_now mapped w) (bytes E waiting c w u)
     \<and> list_all (region_owned (mapped_now mapped w) (bytes E waiting c w u)) (live c w)"

text \<open>The chain the world has, beside the chains \<open>A\<close> held by callers.\<close>

definition chain_now :: "('k, 'n) world \<Rightarrow> State list" where
  "chain_now w = (case maybe_state w of None \<Rightarrow> [] | Some c \<Rightarrow> c)"

definition holds :: "('k, 'n) env \<Rightarrow> ('k \<Rightarrow> addr set) \<Rightarrow> ('n \<Rightarrow> NonLocalPtrData list) \<Rightarrow>
    State list \<Rightarrow> ('k, 'n) world \<Rightarrow> held \<Rightarrow> bool" where
  "holds E mapped waiting A w u \<longleftrightarrow> env_ok E mapped waiting \<and>
     (panicked w \<or> maybe_state w \<noteq> Some [] \<and> own E mapped waiting (chain_now w @ A) w u)"

text \<open>What every operation leaves as it is: a panic stays, there is a state or there is none, the first state
  keeps its place and its used chunks, the tables of chunks stay.\<close>

definition grown :: "State \<Rightarrow> State \<Rightarrow> bool" where
  "grown s t \<longleftrightarrow> state_at t = state_at s \<and> length (used_common_chunks s) \<le> length (used_common_chunks t)
     \<and> length (used_large_chunks s) \<le> length (used_large_chunks t)"

definition chain_grown :: "State list option \<Rightarrow> State list option \<Rightarrow> bool" where
  "chain_grown m m' \<longleftrightarrow>
     (case m of
        None \<Rightarrow> m' = None
      | Some [] \<Rightarrow> m' \<noteq> None
      | Some (s # c) \<Rightarrow> (case m' of Some (t # d) \<Rightarrow> grown s t | _ \<Rightarrow> False))"

definition follows :: "('k, 'n) world \<Rightarrow> ('k, 'n) world \<Rightarrow> bool" where
  "follows w w' \<longleftrightarrow>
     (if panicked w' then True
      else \<not> panicked w \<and> chain_grown (maybe_state w) (maybe_state w')
        \<and> (common_chunk_table (inner w) \<noteq> None \<longrightarrow> common_chunk_table (inner w') \<noteq> None)
        \<and> (large_chunk_table (inner w) \<noteq> None \<longrightarrow> large_chunk_table (inner w') \<noteq> None))"

lemma grown_refl [simp]: "grown s s" by (simp add: grown_def)

lemma chain_grown_refl [simp]: "chain_grown m m"
  by (auto simp: chain_grown_def split: option.splits list.splits)

lemma follows_refl [simp]: "follows w w" by (simp add: follows_def)

lemma chain_grown_trans: "chain_grown a b \<Longrightarrow> chain_grown b c \<Longrightarrow> chain_grown a c"
  by (auto simp: chain_grown_def grown_def split: option.splits list.splits)

lemma follows_trans: "follows a b \<Longrightarrow> follows b c \<Longrightarrow> follows a c"
  by (auto simp: follows_def split: if_splits intro: chain_grown_trans)

lemma holds_env: "holds E M P A w u \<Longrightarrow> env_ok E M P" by (simp add: holds_def)

lemma follows_panicked: "follows w w' \<Longrightarrow> panicked w \<Longrightarrow> panicked w'"
  by (auto simp: follows_def split: if_splits)

text \<open>From a world with \<open>u\<close> held outside to one with \<open>u'\<close>.\<close>

definition goes :: "('k, 'n) env \<Rightarrow> ('k \<Rightarrow> addr set) \<Rightarrow> ('n \<Rightarrow> NonLocalPtrData list) \<Rightarrow> State list \<Rightarrow>
    ('k, 'n) world \<Rightarrow> held \<Rightarrow> ('k, 'n) world \<Rightarrow> held \<Rightarrow> bool" where
  "goes E mapped waiting A w u w' u' \<longleftrightarrow>
     (holds E mapped waiting A w u \<longrightarrow> follows w w' \<and> holds E mapped waiting A w' u')"

lemma goes_refl [simp]: "goes E M P A w u w u" by (simp add: goes_def)

lemma goes_trans [trans]:
  "goes E M P A w u w1 u1 \<Longrightarrow> goes E M P A w1 u1 w2 u2 \<Longrightarrow> goes E M P A w u w2 u2"
  by (auto simp: goes_def intro: follows_trans)

lemma goesD: "goes E M P A w u w' u' \<Longrightarrow> holds E M P A w u \<Longrightarrow> follows w w' \<and> holds E M P A w' u'"
  by (simp add: goes_def)

lemma goes_step:
  "follows w w1 \<and> holds E M P A w1 u1 \<Longrightarrow> goes E M P A w1 u1 w2 u2 \<Longrightarrow> follows w w2 \<and> holds E M P A w2 u2"
  by (auto simp: goes_def intro: follows_trans)

lemma goesI2: "(holds E M P A w u \<Longrightarrow> follows w w' \<and> holds E M P A w' u') \<Longrightarrow> goes E M P A w u w' u'"
  by (simp add: goes_def)

lemma goes_panicked: "panicked w' \<Longrightarrow> goes E M P A w u w' u'"
  by (simp add: goes_def follows_def holds_def)

section \<open>Moving bytes\<close>

lemma in_regions_add: "in_regions (\<lambda>a. f a + g a) k a = in_regions f k a + in_regions g k a"
  by (simp add: in_regions_def)

lemma in_regions_0 [simp]: "in_regions (\<lambda>a. 0) k a = 0" "in_regions f True a = 0" "in_regions f False a = f a"
  by (simp_all add: in_regions_def)

lemma in_regions_mono: "(\<And>a. f a \<le> g a) \<Longrightarrow> in_regions f k a \<le> in_regions g k a"
  by (simp add: in_regions_def)

lemma region_owned_mono:
  assumes "region_owned m f rq" and "\<And>k a. g k a \<le> f k a"
  shows "region_owned m g rq"
proof -
  obtain r q where rq: "rq = (r, q)" by fastforce
  have "sum (g False) (range_of r REGION_SIZE) \<le> sum (f False) (range_of r REGION_SIZE)"
    by (rule sum_mono) (rule assms(2))
  moreover have "f True a = 0 \<Longrightarrow> g True a = 0" for a using assms(2) [of True a] by simp
  ultimately show ?thesis using assms(1) by (auto simp: region_owned_def rq intro: order_trans)
qed

lemma owned_once_mono:
  assumes "owned_once m f" and "\<And>k a. g k a \<le> f k a"
  shows "owned_once m g"
  unfolding owned_once_def
proof
  fix a
  show "g False a + g True a \<le> (if a \<in> m then 1 else 0)"
    using assms(1) [unfolded owned_once_def, rule_format, of a] assms(2) [of False a] assms(2) [of True a] by linarith
qed

text \<open>Most steps move bytes that are counted, and forget some.\<close>

lemma own_le:
  assumes "own E M P c w u" and "mapped_now M w' = mapped_now M w"
    and "list_all (chunk_sizes good_size aligned_chunk) c'" and "shaped (inner w')"
    and "\<And>k a. bytes E P c' w' u' k a \<le> bytes E P c w u k a" and "set (live c' w') \<subseteq> set (live c w)"
  shows "own E M P c' w' u'"
proof -
  have "region_owned (mapped_now M w) (bytes E P c' w' u') rq" if "rq \<in> set (live c' w')" for rq
    using assms(1,6) that by (intro region_owned_mono [OF _ assms(5)]) (auto simp: own_def list_all_iff)
  then show ?thesis
    using assms(1-4) owned_once_mono [OF _ assms(5)] by (simp add: own_def list_all_iff)
qed

lemma own_frame: "own E M P c w u \<Longrightarrow> (\<And>k a. u' k a \<le> u k a) \<Longrightarrow> own E M P c w u'"
  by (rule own_le) (auto simp: own_def bytes_def)

lemma sum_list_mset: "mset c = mset c' \<Longrightarrow> sum_list (map f c) = sum_list (map f c')" for f :: "'x \<Rightarrow> nat"
  by (metis mset_map sum_mset_sum_list)

lemma live_chain: "mset c = mset c' \<Longrightarrow> set (live c w) = set (live c' w)"
  using mset_eq_setD [of c c'] by (simp add: live_def)

lemma bytes_chain:
  assumes "mset c = mset c'"
  shows "bytes E P c w u = bytes E P c' w u"
proof -
  have "chain_count n c a = chain_count n c' a" for n a
    unfolding chain_count_def by (rule sum_list_mset [OF assms])
  moreover have "first_chunks (live c w) a = first_chunks (live c' w) a" for a
    using sum_list_mset [OF assms, of "\<lambda>s. occ (region_ptr s) COMMON_CHUNK_SIZE a"]
    by (simp add: first_chunks_def live_def chunks_count_def comp_def)
  ultimately show ?thesis by (simp add: bytes_def fun_eq_iff in_regions_def)
qed

lemma own_chain:
  assumes "own E M P c w u" and "mset c = mset c'"
  shows "own E M P c' w u"
proof (rule own_le [OF assms(1) refl])
  show "list_all (chunk_sizes good_size aligned_chunk) c'" "shaped (inner w)"
    using assms mset_eq_setD [OF assms(2)] by (simp_all add: own_def list_all_iff)
qed (simp_all add: bytes_chain [OF assms(2)] live_chain [OF assms(2)])

lemma follows_nonempty: "follows w w' \<Longrightarrow> \<not> panicked w' \<Longrightarrow> maybe_state w \<noteq> Some [] \<Longrightarrow> maybe_state w' \<noteq> Some []"
  by (auto simp: follows_def chain_grown_def split: option.splits list.splits)

lemma goesI:
  assumes "panicked w \<Longrightarrow> panicked w'"
    and "own E M P (chain_now w @ A) w u \<Longrightarrow> \<not> panicked w \<Longrightarrow> \<not> panicked w' \<Longrightarrow>
      follows w w' \<and> own E M P (chain_now w' @ A) w' u'"
  shows "goes E M P A w u w' u'"
  using assms follows_nonempty [of w w'] by (cases "panicked w'") (auto simp: goes_def holds_def follows_def)

lemma goes_same:
  assumes "goes E M P A w u w' u'" and "\<And>k a. v k a \<le> u' k a"
  shows "goes E M P A w u w' v"
  using assms own_frame [of E M P "chain_now w' @ A" w' u' v] by (auto simp: goes_def holds_def)

lemma goes_less:
  assumes "goes E M P A w u w' u'" and "\<And>k a. u k a \<le> v k a"
  shows "goes E M P A w v w' u'"
  using assms own_frame [of E M P "chain_now w @ A" w v u] by (auto simp: goes_def holds_def)

text \<open>A step inside the record of the allocator.\<close>

definition same_tables :: "inner \<Rightarrow> inner \<Rightarrow> bool" where
  "same_tables x y \<longleftrightarrow>
     (common_chunk_table x \<noteq> None \<longrightarrow> common_chunk_table y \<noteq> None)
     \<and> (large_chunk_table x \<noteq> None \<longrightarrow> large_chunk_table y \<noteq> None)"

lemma goes_inner:
  assumes "shaped (inner w) \<Longrightarrow> \<not> panicked w \<Longrightarrow> shaped x \<and> same_tables (inner w) x
      \<and> vec_elems (cm_regions (chunk_manager x)) = vec_elems (cm_regions (chunk_manager (inner w)))
      \<and> (\<forall>k a. inner_bytes (size_of_nlpm E) x k a + u' k a \<le> inner_bytes (size_of_nlpm E) (inner w) k a + u k a)"
  shows "goes E M P A w u (w\<lparr>inner := x\<rparr>) u'"
proof (rule goesI)
  assume o: "own E M P (chain_now w @ A) w u" and np: "\<not> panicked w"
  have "shaped (inner w)" using o by (simp add: own_def)
  note x = assms [OF this np]
  have l: "live c (w\<lparr>inner := x\<rparr>) = live c w" for c using x by (simp add: live_def)
  have "own E M P (chain_now w @ A) (w\<lparr>inner := x\<rparr>) u'"
    using o x by (intro own_le [OF o]) (auto simp: own_def l bytes_def add.assoc intro: add_mono)
  then show "follows w (w\<lparr>inner := x\<rparr>) \<and> own E M P (chain_now (w\<lparr>inner := x\<rparr>) @ A) (w\<lparr>inner := x\<rparr>) u'"
    using np x by (simp add: follows_def chain_now_def same_tables_def)
qed simp

section \<open>Regions from the system\<close>

lemma range_of_iff: "a \<in> range_of p n \<longleftrightarrow> 0 < occ p n a"
  by (simp add: range_of_def occ_def)

lemma occ_le_1: "occ p n a \<le> 1" by (simp add: occ_def)

lemma state_count_region: "state_count sos (from_region r) a + occ r COMMON_CHUNK_SIZE a = occ r REGION_SIZE a"
proof -
  let ?m = "REST_COMMON_CHUNKS_IN_REGION * COMMON_CHUNK_SIZE"
  let ?l = "LARGE_CHUNKS_IN_REGION * LARGE_CHUNK_SIZE"
  have "state_count sos (from_region r) a + occ r COMMON_CHUNK_SIZE a
      = occ r COMMON_CHUNK_SIZE a + (occ (r + COMMON_CHUNK_SIZE) ?m a + occ (r + COMMON_CHUNK_SIZE + ?m) ?l a)"
    unfolding state_count_def from_region_def parse_region_def Let_def by (simp add: chunks_count_laid)
  also have "\<dots> = occ r (COMMON_CHUNK_SIZE + (?m + ?l)) a" by (simp only: occ_add)
  also have "COMMON_CHUNK_SIZE + (?m + ?l) = REGION_SIZE" by (simp add: layout_simps)
  finally show ?thesis .
qed

lemma regions_apart:
  assumes "is_region r" and "is_region q" and "r \<noteq> q"
  shows "range_of r REGION_SIZE \<inter> range_of q REGION_SIZE = {}"
proof -
  have d: "REGION_SIZE dvd r" "REGION_SIZE dvd q" using assms by (simp_all add: is_region_def)
  from assms(3) consider "r < q" | "q < r" by linarith
  then show ?thesis
    by cases (use dvd_less_add [OF d] dvd_less_add [OF d(2,1)] in \<open>auto simp: range_of_def\<close>)
qed

lemma card_range_of [simp]: "card (range_of p n) = n"
  by (simp add: range_of_def)

lemma range_of_finite [simp]: "finite (range_of p n)"
  by (simp add: range_of_def)

lemma region_owned_outside:
  assumes "region_owned m f (r, q)" and "m \<subseteq> m'" and "\<And>k a. a \<in> range_of r REGION_SIZE \<Longrightarrow> g k a = f k a"
  shows "region_owned m' g (r, q)"
proof -
  have "sum (g False) (range_of r REGION_SIZE) = sum (f False) (range_of r REGION_SIZE)"
    by (rule sum.cong) (simp_all add: assms(3))
  then show ?thesis using assms by (auto simp: region_owned_def)
qed

lemma own_once: "own E M P c w u \<Longrightarrow> a \<notin> mapped_now M w \<Longrightarrow> bytes E P c w u k a = 0"
  by (cases k) (auto simp: own_def owned_once_def dest!: spec [of _ a])

lemma own_region:
  assumes o: "own E M P c w u" and r: "is_region r" "mapped_now M w \<inter> range_of r REGION_SIZE = {}"
    and w': "w' = w\<lparr>proc := p'\<rparr>" "mapped_now M w' = mapped_now M w \<union> range_of r REGION_SIZE"
  shows "own E M P (from_region r # c) w' u"
proof -
  let ?f = "bytes E P c w u" and ?g = "bytes E P (from_region r # c) w' u" and ?n = "size_of_state E"
  have rp: "region_ptr (from_region r) = r" by (simp add: from_region_def Let_def)
  have live: "live (from_region r # c) w' = map (\<lambda>v. (view_ptr v, number_of_common_chunks_occupied v)) (vec_elems (cm_regions (chunk_manager (inner w))))
     @ (r, MAX_COMMON_CHUNKS_IN_REGION) # map (\<lambda>s. (region_ptr s, MAX_COMMON_CHUNKS_IN_REGION)) c"
    by (simp add: live_def w'(1) rp)
  have "first_chunks (live (from_region r # c) w') a = first_chunks (live c w) a + occ r COMMON_CHUNK_SIZE a" for a
    by (simp add: live first_chunks_def) (simp add: live_def)
  then have g: "?g k a = ?f k a + in_regions (occ r REGION_SIZE) k a" for k a
    using state_count_region [of ?n r a] by (cases k) (simp_all add: bytes_def w'(1))
  have once: "owned_once (mapped_now M w') ?g"
    unfolding owned_once_def
  proof
    fix a
    show "?g False a + ?g True a \<le> (if a \<in> mapped_now M w' then 1 else 0)"
    proof (cases "a \<in> range_of r REGION_SIZE")
      case True
      with r(2) have "a \<notin> mapped_now M w" by blast
      from own_once [OF o this] True w'(2) show ?thesis using occ_le_1 [of r REGION_SIZE a] by (simp add: g)
    next
      case False
      then have "occ r REGION_SIZE a = 0" by (simp add: range_of_iff)
      moreover have "?f False a + ?f True a \<le> (if a \<in> mapped_now M w then 1 else 0)"
        using o by (simp add: own_def owned_once_def)
      ultimately show ?thesis using False w'(2) by (simp add: g)
    qed
  qed
  have new: "region_owned (mapped_now M w') ?g (r, MAX_COMMON_CHUNKS_IN_REGION)"
  proof -
    have z: "?f k a = 0" if "a \<in> range_of r REGION_SIZE" for k a
      using own_once [OF o] that r(2) by blast
    have "?g False a \<le> 1" for a
      using once [unfolded owned_once_def, rule_format, of a] by (simp split: if_splits)
    then have "sum (?g False) (range_of r REGION_SIZE) \<le> REGION_SIZE"
      using sum_bounded_above [of "range_of r REGION_SIZE" "?g False" 1] by simp
    also have "REGION_SIZE = (MAX_COMMON_CHUNKS_IN_REGION + 1) * COMMON_CHUNK_SIZE" by (simp add: layout_simps)
    finally show ?thesis using r(1) w'(2) z by (simp add: region_owned_def g)
  qed
  have old: "region_owned (mapped_now M w') ?g rq" if rq: "rq \<in> set (live c w)" for rq
  proof -
    obtain q n where e: "rq = (q, n)" by fastforce
    have q: "region_owned (mapped_now M w) ?f (q, n)" using o rq by (simp add: own_def list_all_iff e)
    then have "is_region q" "range_of q REGION_SIZE \<subseteq> mapped_now M w" by (simp_all add: region_owned_def)
    then have "range_of q REGION_SIZE \<inter> range_of r REGION_SIZE = {}" using r(2) by blast
    then have "?g k a = ?f k a" if "a \<in> range_of q REGION_SIZE" for k a
      using that by (auto simp: g range_of_iff in_regions_def)
    with q w'(2) show ?thesis unfolding e by (intro region_owned_outside [OF q]) auto
  qed
  have "list_all (region_owned (mapped_now M w') ?g) (live (from_region r # c) w')"
    using old new by (auto simp: live list_all_iff) (auto simp: live_def)
  moreover have "chunk_sizes good_size aligned_chunk (from_region r)" using r(1) by (rule chunk_sizes_from_region)
  ultimately show ?thesis using o once by (simp add: own_def w'(1))
qed

text \<open>The owner of a chain of states, inside a world whose other bytes it leaves alone.\<close>

definition hold :: "(addr \<Rightarrow> nat) \<Rightarrow> (addr \<Rightarrow> nat) \<Rightarrow> held" where
  "hold x u k a = (if k then x a else u a)"

definition chain_owned :: "('k, 'n) env \<Rightarrow> ('k \<Rightarrow> addr set) \<Rightarrow> ('n \<Rightarrow> NonLocalPtrData list) \<Rightarrow> (addr \<Rightarrow> nat) \<Rightarrow> State list \<Rightarrow>
    State list \<Rightarrow> ('k, 'n) world \<Rightarrow> (addr \<Rightarrow> nat) \<Rightarrow> bool" where
  "chain_owned E M P x A c w u \<longleftrightarrow> own E M P (c @ A) w (hold x u)"

lemma region_source_facts:
  assumes "own E M P c w u" and "region_source E cnt w = (r, w')"
  shows "r = 0 \<and> own E M P c w' u \<or> r \<noteq> 0 \<and> own E M P (from_region r # c) w' u"
    and "\<exists>p'. w' = w\<lparr>proc := p'\<rparr>"
proof -
  have K: "kernel_ok (env_libc E) (env_kernel E) M" "libc_ok (env_libc E)" using assms(1) by (simp_all add: own_def env_ok_def)
  obtain p' where w': "w' = w\<lparr>proc := p'\<rparr>"
    and a: "alloc_region (env_libc E) (env_kernel E) (proc w) = (r, p') \<or>
      alloc_region_without_counting_limit (env_libc E) (env_kernel E) (proc w) = (r, p')"
    using assms(2) by (auto simp: region_source_def counted_def uncounted_def split: if_splits prod.splits)
  then show "\<exists>p'. w' = w\<lparr>proc := p'\<rparr>" by blast
  from alloc_region_facts [OF K a]
  show "r = 0 \<and> own E M P c w' u \<or> r \<noteq> 0 \<and> own E M P (from_region r # c) w' u"
  proof
    assume "r = 0 \<and> M (kern (os p')) = M (kern (os (proc w)))"
    then have "r = 0" and m: "mapped_now M w' = mapped_now M w" by (simp_all add: w')
    moreover have "own E M P c w' u"
      by (rule own_le [OF assms(1) m]) (use assms(1) in \<open>simp_all add: own_def w' bytes_def live_def\<close>)
    ultimately show ?thesis by simp
  next
    assume "r \<noteq> 0 \<and> is_region r \<and> M (kern (os (proc w))) \<inter> range_of r REGION_SIZE = {} \<and>
        M (kern (os p')) = M (kern (os (proc w))) \<union> range_of r REGION_SIZE"
    then show ?thesis using own_region [OF assms(1), of r w' p'] by (simp add: w')
  qed
qed

interpretation tla: chain_owner "region_source E cnt" "size_of_state E" good_size aligned_chunk "chain_owned E M P x A"
  for E :: "('k, 'n) env" and cnt :: bool and M :: "'k \<Rightarrow> addr set" and P :: "'n \<Rightarrow> NonLocalPtrData list"
    and x :: "addr \<Rightarrow> nat" and A :: "State list"
proof
  fix c c' :: "State list" and w w' :: "('k, 'n) world" and u u' :: "addr \<Rightarrow> nat" and r :: addr
  assume R: "chain_owned E M P x A c w u"
  then have o: "own E M P (c @ A) w (hold x u)" by (simp add: chain_owned_def)
  then have A: "list_all (chunk_sizes good_size aligned_chunk) A" by (simp add: own_def)
  show "list_all (chunk_sizes good_size aligned_chunk) c" using o by (simp add: own_def)
  show "size_of_state_ok (size_of_state E) \<and> good_size (size_class_define (size_of_state E)) (size_of_state E)"
    using o by (simp add: own_def env_ok_def size_of_state_ok_def good_size_def)
  { assume le: "\<And>a. chain_count (size_of_state E) c' a + u' a \<le> chain_count (size_of_state E) c a + u a"
      and reg: "mset (map region_ptr c') \<subseteq># mset (map region_ptr c)"
      and ok: "list_all (chunk_sizes good_size aligned_chunk) c'"
    obtain ms where ms: "mset (map region_ptr c) = mset (map region_ptr c') + ms" using reg by (auto simp: mset_subset_eq_exists_conv)
    have fc: "first_chunks (live (c' @ A) w) a \<le> first_chunks (live (c @ A) w) a" for a
    proof -
      have "sum_mset (image_mset (\<lambda>p. occ p COMMON_CHUNK_SIZE a) (mset (map region_ptr c')))
          \<le> sum_mset (image_mset (\<lambda>p. occ p COMMON_CHUNK_SIZE a) (mset (map region_ptr c)))"
        unfolding ms by simp
      then show ?thesis
        by (simp add: first_chunks_def live_def chunks_count_def comp_def sum_mset_sum_list flip: mset_map)
    qed
    have "set (map region_ptr c') \<subseteq> set (map region_ptr c)" using reg by (metis set_mset_mono set_mset_mset)
    then have sub: "set (live (c' @ A) w) \<subseteq> set (live (c @ A) w)" by (auto simp: live_def)
    have "bytes E P (c' @ A) w (hold x u') k a \<le> bytes E P (c @ A) w (hold x u) k a" for k a
      using fc [of a] le [of a] by (simp add: bytes_def in_regions_def hold_def)
    then have "own E M P (c' @ A) w (hold x u')"
      using o ok A sub by (intro own_le [OF o]) (auto simp: own_def)
    then show "chain_owned E M P x A c' w u'" by (simp add: chain_owned_def) }
  { assume "region_source E cnt w = (0, w')"
    from region_source_facts [OF o this] show "chain_owned E M P x A c w' u" by (auto simp: chain_owned_def) }
  { assume s: "region_source E cnt w = (r, w')" "r \<noteq> 0"
    from region_source_facts(1) [OF o s(1)] s(2)
    have "own E M P (from_region r # c @ A) w' (hold x u)" by simp
    then show "chunk_sizes good_size aligned_chunk (from_region r) \<and> chain_owned E M P x A (from_region r # c) w' u"
      by (simp add: chain_owned_def own_def) }
next
  fix p q assume "aligned_chunk LARGE_CHUNK_SIZE p" "q \<in> set (split_large_chunk_to_common p)"
  then show "aligned_chunk COMMON_CHUNK_SIZE q" by (rule aligned_split)
qed

end
