(* ===== verification/OwnRegions.thy ===== *)
theory OwnRegions
  imports Ownership
begin

text \<open>
  Bytes that are mapped and unmapped on their own, and chunks that are given back: the region of the
  last one is empty and is unmapped.
\<close>

section \<open>Extra-large blocks\<close>

lemma both_simps [simp]: "both u v k a = u k a + v k a" by (simp add: both_def)

lemma block_xl: "size_class_define sz = ExtraLarge \<Longrightarrow> block p sz k a = (if k then occ p (pages sz) a else 0)"
  by (simp add: block_def owned_size_def)

lemma block_regions:
  "size_class_define sz \<noteq> ExtraLarge \<Longrightarrow> block p sz k a = in_regions (occ p (recommended_size sz)) k a"
  by (simp add: block_def owned_size_def in_regions_def)

lemma bytes_both: "bytes E P c w (both u v) k a = bytes E P c w u k a + v k a"
  by (simp add: bytes_def)

lemma bytes_proc [simp]: "bytes E P c (w\<lparr>proc := p\<rparr>) u = bytes E P c w u"
  by (simp add: bytes_def live_def fun_eq_iff)

lemma live_proc [simp]: "live c (w\<lparr>proc := p\<rparr>) = live c w"
  by (simp add: live_def)

lemma own_map:
  assumes o: "own E M P c w u" and xl: "size_class_define sz = ExtraLarge"
    and m: "M (kern (os p')) = mapped_now M w \<union> range_of p (pages sz)" "mapped_now M w \<inter> range_of p (pages sz) = {}"
  shows "own E M P c (w\<lparr>proc := p'\<rparr>) (both u (block p sz))"
proof -
  let ?f = "bytes E P c w u" and ?g = "bytes E P c w (both u (block p sz))"
  have g: "?g k a = ?f k a + (if k then occ p (pages sz) a else 0)" for k a
    by (simp add: bytes_both block_xl [OF xl])
  have "owned_once (M (kern (os p'))) ?g"
    unfolding owned_once_def
  proof
    fix a
    show "?g False a + ?g True a \<le> (if a \<in> M (kern (os p')) then 1 else 0)"
    proof (cases "a \<in> range_of p (pages sz)")
      case True
      with m(2) have "a \<notin> mapped_now M w" by blast
      from own_once [OF o this] True m(1) show ?thesis using occ_le_1 [of p "pages sz" a] by (simp add: g)
    next
      case False
      then have "occ p (pages sz) a = 0" by (simp add: range_of_iff)
      moreover have "?f False a + ?f True a \<le> (if a \<in> mapped_now M w then 1 else 0)"
        using o by (simp add: own_def owned_once_def)
      ultimately show ?thesis using False m(1) by (simp add: g)
    qed
  qed
  moreover have "region_owned (M (kern (os p'))) ?g rq" if "rq \<in> set (live c w)" for rq
  proof -
    obtain q n where e: "rq = (q, n)" by fastforce
    have q: "region_owned (mapped_now M w) ?f (q, n)" using o that by (simp add: own_def list_all_iff e)
    then have "range_of q REGION_SIZE \<inter> range_of p (pages sz) = {}" using m(2) by (auto simp: region_owned_def)
    then have "?g k a = ?f k a" if "a \<in> range_of q REGION_SIZE" for k a
      using that by (auto simp: g range_of_iff)
    with q m(1) show ?thesis unfolding e by (intro region_owned_outside [OF q]) auto
  qed
  ultimately show ?thesis using o by (simp add: own_def list_all_iff)
qed

lemma own_unmap:
  assumes o: "own E M P c w (both u (block p sz))" and xl: "size_class_define sz = ExtraLarge"
    and k: "os p' = os_free (env_kernel E) p sz (os (proc w))"
  shows "own E M P c (w\<lparr>proc := p'\<rparr>) u"
proof -
  let ?f = "bytes E P c w (both u (block p sz))" and ?g = "bytes E P c w u"
  have f: "?f k a = ?g k a + (if k then occ p (pages sz) a else 0)" for k a
    by (simp add: bytes_both block_xl [OF xl])
  have sz: "0 < sz" using xl by (simp add: class_iff)
  have "unmaps_only (env_kernel E) M" using o by (simp add: own_def env_ok_def)
  with sz have m: "mapped_now M w - range_of p (pages sz) \<subseteq> M (kern (os p'))" "M (kern (os p')) \<subseteq> mapped_now M w"
    by (auto simp: unmaps_only_def k os_free_def)
  have "owned_once (M (kern (os p'))) ?g"
    unfolding owned_once_def
  proof
    fix a
    have 1: "?f False a + ?f True a \<le> (if a \<in> mapped_now M w then 1 else 0)"
      using o by (simp add: own_def owned_once_def)
    show "?g False a + ?g True a \<le> (if a \<in> M (kern (os p')) then 1 else 0)"
    proof (cases "a \<in> range_of p (pages sz)")
      case True
      then have "occ p (pages sz) a = 1" using range_of_iff [of a p "pages sz"] occ_le_1 [of p "pages sz" a] by simp
      with 1 show ?thesis by (simp add: f split: if_splits)
    next
      case False
      with 1 m show ?thesis by (auto simp: f split: if_splits)
    qed
  qed
  moreover have "region_owned (M (kern (os p'))) ?g rq" if "rq \<in> set (live c w)" for rq
  proof -
    obtain q n where e: "rq = (q, n)" by fastforce
    have "region_owned (mapped_now M w) ?f (q, n)" using o that by (simp add: own_def list_all_iff e)
    then have q: "region_owned (mapped_now M w) ?g (q, n)" by (rule region_owned_mono) (simp add: f)
    have "occ p (pages sz) a = 0" if "a \<in> range_of q REGION_SIZE" for a
      using \<open>region_owned (mapped_now M w) ?f (q, n)\<close> that by (auto simp: region_owned_def f)
    then have "a \<notin> range_of p (pages sz)" if "a \<in> range_of q REGION_SIZE" for a
      using that by (simp add: range_of_iff)
    with q m(1) show ?thesis by (auto simp: e region_owned_def)
  qed
  ultimately show ?thesis using o by (simp add: own_def list_all_iff)
qed

section \<open>Giving a chunk back\<close>

lemma sum_occ: "range_of p n \<subseteq> range_of r m \<Longrightarrow> sum (occ p n) (range_of r m) = n"
proof -
  assume sub: "range_of p n \<subseteq> range_of r m"
  have "sum (occ p n) (range_of r m) = sum (occ p n) (range_of p n)"
    by (rule sum.mono_neutral_right) (use sub in \<open>auto simp: range_of_iff\<close>)
  also have "\<dots> = sum (\<lambda>_. 1) (range_of p n)" by (rule sum.cong) (auto simp: range_of_def occ_def)
  finally show ?thesis by simp
qed

lemma chunk_in_region:
  assumes "is_region r" and "region_ptr_from_chunk_ptr p = r" and "aligned_chunk n p" and "n dvd REGION_SIZE" and "0 < n"
  shows "range_of p n \<subseteq> range_of r REGION_SIZE"
proof -
  have e: "REGION_SIZE = 2 ^ 25" by (simp add: layout_simps)
  have "p < 2 ^ 64" using assms(3,5) by (simp add: aligned_chunk_def)
  then have "r = p div 2 ^ 25 * 2 ^ 25" using assms(2) and_not_pow2 [of p 25] by (simp add: region_ptr_from_chunk_ptr_def e)
  then have p: "r \<le> p" "p < r + REGION_SIZE"
    unfolding e by (simp_all add: div_times_less_eq_dividend dividend_less_div_times)
  have "n dvd r" using assms(1,4) by (auto simp: is_region_def elim: dvd_trans)
  then have "p + n \<le> r + REGION_SIZE"
    using assms(3,4) p(2) by (intro dvd_less_add) (auto simp: aligned_chunk_def)
  with p show ?thesis by (auto simp: range_of_def)
qed

text \<open>The manager of chunks with other views, the process after it.\<close>

definition with_views :: "RegionView self_vec \<Rightarrow> 'k process \<Rightarrow> ('k, 'n) world \<Rightarrow> ('k, 'n) world" where
  "with_views v p w = w\<lparr>inner := (inner w)\<lparr>chunk_manager := (chunk_manager (inner w))\<lparr>cm_regions := v\<rparr>\<rparr>, proc := p\<rparr>"

definition views_of :: "('k, 'n) world \<Rightarrow> RegionView self_vec" where
  "views_of w = cm_regions (chunk_manager (inner w))"

definition regions_of :: "RegionView list \<Rightarrow> (addr \<times> nat) list" where
  "regions_of vs = map (\<lambda>v. (view_ptr v, number_of_common_chunks_occupied v)) vs"

lemma views_of_with [simp]: "views_of (with_views v p w) = v" "proc (with_views v p w) = p"
  by (simp_all add: views_of_def with_views_def)

lemma live_with_views:
  "live c (with_views v p w) = regions_of (vec_elems v) @ map (\<lambda>s. (region_ptr s, MAX_COMMON_CHUNKS_IN_REGION)) c"
  "live c w = regions_of (vec_elems (views_of w)) @ map (\<lambda>s. (region_ptr s, MAX_COMMON_CHUNKS_IN_REGION)) c"
  by (simp_all add: live_def with_views_def regions_of_def views_of_def)

lemma first_chunks_append [simp]: "first_chunks (xs @ ys) a = first_chunks xs a + first_chunks ys a"
  by (simp add: first_chunks_def)

lemma first_chunks_mset: "mset xs = mset ys \<Longrightarrow> first_chunks xs a = first_chunks ys a"
  using sum_list_mset [of xs ys "\<lambda>rq. occ (fst rq) COMMON_CHUNK_SIZE a"]
  by (simp add: first_chunks_def chunks_count_def comp_def)

lemma first_chunks_Cons [simp]: "first_chunks (rq # xs) a = occ (fst rq) COMMON_CHUNK_SIZE a + first_chunks xs a"
  by (simp add: first_chunks_def)

lemma bytes_with_views:
  assumes "vec_ptr v = vec_ptr (views_of w)" and "vec_cap v = vec_cap (views_of w)"
    and "\<And>a. first_chunks (regions_of (vec_elems (views_of w))) a = f a + first_chunks (regions_of (vec_elems v)) a"
  shows "bytes E P c w u k a = bytes E P c (with_views v p w) u k a + in_regions f k a"
proof -
  have "vec_block 16 v k a = vec_block 16 (views_of w) k a" using assms(1,2) by (simp add: vec_block_def)
  then have "inner_bytes n (inner (with_views v p w)) k a = inner_bytes n (inner w) k a" for n
    by (simp add: inner_bytes_def cm_bytes_def with_views_def views_of_def)
  then show ?thesis
    using assms(3) [of a] by (simp add: bytes_def live_with_views(2) in_regions_def) (simp add: with_views_def)
qed

lemma free_chunk_cases:
  assumes "give_back E n chunk w = Some w'"
  obtains i q where "i < length (vec_elems (views_of w))" "view_ptr (vec_elems (views_of w) ! i) = region_ptr_from_chunk_ptr chunk"
    "q = number_of_common_chunks_occupied (vec_elems (views_of w) ! i)"
    "(q + 2 ^ 64 - n) mod 2 ^ 64 \<noteq> 0" "w' = with_views (write_mut i ((vec_elems (views_of w) ! i)\<lparr>number_of_common_chunks_occupied := (q + 2 ^ 64 - n) mod 2 ^ 64\<rparr>) (views_of w)) (proc w) w"
  | i q v where "i < length (vec_elems (views_of w))" "view_ptr (vec_elems (views_of w) ! i) = region_ptr_from_chunk_ptr chunk"
    "q = number_of_common_chunks_occupied (vec_elems (views_of w) ! i)"
    "(q + 2 ^ 64 - n) mod 2 ^ 64 = 0"
    "vec_ptr v = vec_ptr (views_of w)" "vec_cap v = vec_cap (views_of w)"
    "mset ((vec_elems (views_of w))[i := (vec_elems (views_of w) ! i)\<lparr>number_of_common_chunks_occupied := 0\<rparr>]) =
       add_mset ((vec_elems (views_of w) ! i)\<lparr>number_of_common_chunks_occupied := 0\<rparr>) (mset (vec_elems v))"
    "w' = with_views v (dealloc_region (env_kernel E) (region_ptr_from_chunk_ptr chunk) (proc w)) w"
proof -
  let ?vs = "vec_elems (views_of w)"
  obtain cm p where f: "free_chunk (env_kernel E) n chunk (chunk_manager (inner w), proc w) = Some (cm, p)"
    and w': "w' = w\<lparr>inner := (inner w)\<lparr>chunk_manager := cm\<rparr>, proc := p\<rparr>"
    using assms by (auto simp: give_back_def)
  obtain i where i: "position (\<lambda>v. view_ptr v = region_ptr_from_chunk_ptr chunk) ?vs = Some i"
    using f by (auto simp: free_chunk_def views_of_def Let_def split: option.splits)
  note ip = position_Some [OF i]
  define q where "q = number_of_common_chunks_occupied (?vs ! i)"
  define left where "left = (q + 2 ^ 64 - n) mod 2 ^ 64"
  let ?r = "write_mut i ((?vs ! i)\<lparr>number_of_common_chunks_occupied := left\<rparr>) (views_of w)"
  show thesis
  proof (cases "left = 0")
    case False
    with f i have "cm = (chunk_manager (inner w))\<lparr>cm_regions := ?r\<rparr>" "p = proc w"
      by (simp_all add: free_chunk_def Let_def left_def q_def views_of_def)
    then have "w' = with_views ?r (proc w) w" by (simp add: w' with_views_def)
    with ip False show thesis by (intro that(1) [of i q]) (simp_all add: q_def left_def)
  next
    case True
    with f i obtain x v where sw: "swap_remove i ?r = Some (x, v)"
      and "cm = (chunk_manager (inner w))\<lparr>cm_regions := v\<rparr>" "p = dealloc_region (env_kernel E) (view_ptr (?vs ! i)) (proc w)"
      by (auto simp: free_chunk_def Let_def left_def q_def views_of_def)
    then have w'': "w' = with_views v (dealloc_region (env_kernel E) (region_ptr_from_chunk_ptr chunk) (proc w)) w"
      using ip by (simp add: w' with_views_def)
    have "vec_ptr v = vec_ptr (views_of w)" "vec_cap v = vec_cap (views_of w)"
      using sw by (auto simp: swap_remove_def write_mut_def Let_def split: if_splits)
    moreover have "mset (?vs[i := (?vs ! i)\<lparr>number_of_common_chunks_occupied := 0\<rparr>]) =
        add_mset ((?vs ! i)\<lparr>number_of_common_chunks_occupied := 0\<rparr>) (mset (vec_elems v))"
      using swap_remove_mset [OF sw] ip True by (simp add: write_mut_def)
    ultimately show thesis using ip True w'' by (intro that(2) [of i q v]) (simp_all add: q_def left_def)
  qed
qed

lemma mset_regions_of: "mset (map f (regions_of vs)) = image_mset (\<lambda>v. f (view_ptr v, number_of_common_chunks_occupied v)) (mset vs)"
  by (simp add: regions_of_def multiset.map_comp comp_def)

lemma regions_of_views: "first_chunks (regions_of vs) a = sum_list (map (\<lambda>v. occ (view_ptr v) COMMON_CHUNK_SIZE a) vs)"
  by (simp add: first_chunks_def regions_of_def chunks_count_def comp_def)

lemma own_give_back:
  assumes o: "own E M P c w (both u (in_regions (occ chunk (n * COMMON_CHUNK_SIZE))))"
    and al: "aligned_chunk (n * COMMON_CHUNK_SIZE) chunk" "n * COMMON_CHUNK_SIZE dvd REGION_SIZE" "0 < n"
    and run: "give_back E n chunk w = Some w'"
  shows "own E M P c w' u"
  using run
proof (rule free_chunk_cases)
  let ?vs = "vec_elems (views_of w)" and ?r = "region_ptr_from_chunk_ptr chunk" and ?m = "n * COMMON_CHUNK_SIZE"
  let ?f = "bytes E P c w (both u (in_regions (occ chunk ?m)))" and ?h = "bytes E P c w u"
  have f: "?f k a = ?h k a + in_regions (occ chunk ?m) k a" for k a by (simp add: bytes_both)
  have pos: "0 < COMMON_CHUNK_SIZE" "0 < ?m" using al(3) by (simp_all add: layout_simps)
  fix i q assume i: "i < length ?vs" "view_ptr (?vs ! i) = ?r" "q = number_of_common_chunks_occupied (?vs ! i)"
  then have "(?r, q) \<in> set (live c w)" unfolding live_with_views(2) regions_of_def by force
  then have ro: "region_owned (mapped_now M w) ?f (?r, q)" using o by (simp add: own_def list_all_iff)
  then have reg: "is_region ?r" and q511: "q \<le> MAX_COMMON_CHUNKS_IN_REGION" by (simp_all add: region_owned_def)
  have sub: "range_of chunk ?m \<subseteq> range_of ?r REGION_SIZE"
    by (rule chunk_in_region [OF reg refl al(1,2) pos(2)])
  have sumf: "sum (?f False) (range_of ?r REGION_SIZE) = sum (?h False) (range_of ?r REGION_SIZE) + ?m"
    using sum_occ [OF sub] by (simp add: f sum.distrib)
  have h1: "occ ?r COMMON_CHUNK_SIZE a \<le> ?h False a" for a
  proof -
    have "occ (view_ptr (?vs ! i)) COMMON_CHUNK_SIZE a \<le> first_chunks (regions_of ?vs) a"
      unfolding regions_of_views using i(1) by (intro member_le_sum_list) auto
    then show ?thesis by (simp add: i(2) bytes_def live_with_views(2))
  qed
  have sub1: "range_of ?r COMMON_CHUNK_SIZE \<subseteq> range_of ?r REGION_SIZE" by (auto simp: range_of_def layout_simps)
  have "COMMON_CHUNK_SIZE \<le> sum (?h False) (range_of ?r REGION_SIZE)"
    using sum_mono [of "range_of ?r REGION_SIZE" "occ ?r COMMON_CHUNK_SIZE" "?h False", OF h1] sum_occ [OF sub1] by simp
  moreover have le: "sum (?h False) (range_of ?r REGION_SIZE) + ?m \<le> (q + 1) * COMMON_CHUNK_SIZE"
    using ro sumf by (simp add: region_owned_def)
  moreover have "(q + 1) * COMMON_CHUNK_SIZE = q * COMMON_CHUNK_SIZE + COMMON_CHUNK_SIZE" by simp
  ultimately have "n * COMMON_CHUNK_SIZE \<le> q * COMMON_CHUNK_SIZE" by linarith
  then have nq: "n \<le> q" using pos(1) by simp
  have q: "(q + 2 ^ 64 - n) mod 2 ^ 64 = q - n"
  proof -
    have "q + 2 ^ 64 - n = (q - n) + 2 ^ 64" using nq by linarith
    moreover have "q - n < 2 ^ 64" using le_trans [OF diff_le_self q511, of n] by (simp add: layout_simps)
    ultimately show ?thesis by (simp only: mod_add_self2 mod_less)
  qed
  { assume ne: "(q + 2 ^ 64 - n) mod 2 ^ 64 \<noteq> 0"
      and w': "w' = with_views (write_mut i ((?vs ! i)\<lparr>number_of_common_chunks_occupied := (q + 2 ^ 64 - n) mod 2 ^ 64\<rparr>) (views_of w)) (proc w) w"
    let ?x = "(?vs ! i)\<lparr>number_of_common_chunks_occupied := q - n\<rparr>"
    have w'': "w' = with_views (write_mut i ?x (views_of w)) (proc w) w" unfolding w' q ..
    have vs: "vec_elems (views_of w') = ?vs[i := ?x]" by (simp add: w'' write_mut_def)
    have "map (\<lambda>v. occ (view_ptr v) COMMON_CHUNK_SIZE a) (?vs[i := ?x]) = map (\<lambda>v. occ (view_ptr v) COMMON_CHUNK_SIZE a) ?vs" for a
      using i(1) by (simp add: map_update list_update_same_conv)
    then have "first_chunks (regions_of ?vs) a = 0 + first_chunks (regions_of (?vs[i := ?x])) a" for a
      unfolding regions_of_views by (simp only: add_0)
    then have h': "bytes E P c w' u k a = ?h k a" for k a
      using bytes_with_views [of "write_mut i ?x (views_of w)" w "\<lambda>_. 0" E P c u k a "proc w"]
      by (simp add: w'' write_mut_def)
    have "set (regions_of (?vs[i := ?x])) \<subseteq> insert (?r, q - n) (set (regions_of ?vs))"
      using set_update_subset_insert [of ?vs i ?x] i(2) by (auto simp: regions_of_def)
    then have live': "set (live c w') \<subseteq> insert (?r, q - n) (set (live c w))"
      unfolding live_with_views(2) vs by auto
    have "region_owned (mapped_now M w) ?h (?r, q - n)"
    proof -
      have "q + 1 = q - n + 1 + n" using nq by simp
      then have "(q + 1) * COMMON_CHUNK_SIZE = (q - n + 1) * COMMON_CHUNK_SIZE + ?m" by (simp only: add_mult_distrib)
      then have "sum (?h False) (range_of ?r REGION_SIZE) \<le> (q - n + 1) * COMMON_CHUNK_SIZE" using le by linarith
      then show ?thesis using ro q511 by (auto simp: region_owned_def f)
    qed
    moreover have h_f: "?h k a \<le> ?f k a" for k a by (simp add: f)
    have "region_owned (mapped_now M w) ?h rq" if "rq \<in> set (live c w)" for rq
      using o that by (intro region_owned_mono [OF _ h_f]) (simp add: own_def list_all_iff)
    moreover have "owned_once (mapped_now M w) ?h"
      using o by (intro owned_once_mono [OF _ h_f]) (simp add: own_def)
    moreover have "bytes E P c w' u = ?h" by (simp add: fun_eq_iff h')
    moreover have "shaped (inner w')" using o by (simp add: own_def w'' with_views_def shaped_def)
    ultimately show "own E M P c w' u" using o live' by (auto simp: own_def list_all_iff w'') }
  { fix v assume z: "(q + 2 ^ 64 - n) mod 2 ^ 64 = 0"
    and v: "vec_ptr v = vec_ptr (views_of w)" "vec_cap v = vec_cap (views_of w)"
      "mset (?vs[i := (?vs ! i)\<lparr>number_of_common_chunks_occupied := 0\<rparr>]) =
         add_mset ((?vs ! i)\<lparr>number_of_common_chunks_occupied := 0\<rparr>) (mset (vec_elems v))"
    and w': "w' = with_views v (dealloc_region (env_kernel E) ?r (proc w)) w"
    have n: "n = q" using z nq unfolding q by simp
    have mv: "image_mset view_ptr (mset ?vs) = add_mset ?r (image_mset view_ptr (mset (vec_elems v)))"
    proof -
      have "map view_ptr (?vs[i := (?vs ! i)\<lparr>number_of_common_chunks_occupied := 0\<rparr>]) = map view_ptr ?vs"
        using i(1) by (simp add: map_update list_update_same_conv)
      then show ?thesis using arg_cong [OF v(3), of "image_mset view_ptr"] i(2) by (simp flip: mset_map)
    qed
    have fc: "first_chunks (regions_of ?vs) a = occ ?r COMMON_CHUNK_SIZE a + first_chunks (regions_of (vec_elems v)) a" for a
      using arg_cong [OF mv, of "\<lambda>m. sum_mset (image_mset (\<lambda>p. occ p COMMON_CHUNK_SIZE a) m)"]
      unfolding regions_of_views by (simp add: multiset.map_comp comp_def flip: sum_mset_sum_list)
    have h': "?h k a = bytes E P c w' u k a + in_regions (occ ?r COMMON_CHUNK_SIZE) k a" for k a
      unfolding w' by (rule bytes_with_views [OF v(1,2) fc])
    let ?g = "bytes E P c w' u"
    have "sum (?g False) (range_of ?r REGION_SIZE) + COMMON_CHUNK_SIZE \<le> COMMON_CHUNK_SIZE"
      using le sum_occ [OF sub1] by (simp add: h' sum.distrib n algebra_simps)
    then have empty: "?g k a = 0" if "a \<in> range_of ?r REGION_SIZE" for k a
      using that ro by (cases k) (auto simp: region_owned_def f h')
    have m: "mapped_now M w' = mapped_now M w - range_of ?r REGION_SIZE"
      using o dealloc_region_facts [OF _ reg, of "env_libc E" "env_kernel E" M "proc w"] by (simp add: w' own_def env_ok_def)
    have le_f: "?g k a \<le> ?f k a" for k a by (simp add: f h')
    have once: "owned_once (mapped_now M w') ?g"
      unfolding owned_once_def
    proof
      fix a
      have "owned_once (mapped_now M w) ?g" using o by (intro owned_once_mono [OF _ le_f]) (simp add: own_def)
      then show "?g False a + ?g True a \<le> (if a \<in> mapped_now M w' then 1 else 0)"
        using empty [of a] by (auto simp: owned_once_def m dest: spec [of _ a])
    qed
    have "region_owned (mapped_now M w') ?g (r, k)" if rk: "(r, k) \<in> set (live c w')" for r k
    proof -
      have "0 < first_chunks (live c w') r"
        using rk by (force simp: first_chunks_def chunks_count_def occ_def layout_simps in_set_conv_decomp)
      then have "0 < ?g False r" by (simp add: bytes_def)
      with empty [of r False] have ne: "r \<noteq> ?r" by (auto simp: range_of_def layout_simps)
      have "set (vec_elems v) \<subseteq> insert ((?vs ! i)\<lparr>number_of_common_chunks_occupied := 0\<rparr>) (set ?vs)"
        using arg_cong [OF v(3), of set_mset] set_update_subset_insert [of ?vs i] by auto
      then have "set (live c w') \<subseteq> insert (?r, 0) (set (live c w))"
        using i(2) by (auto simp: w' live_with_views regions_of_def)
      with rk ne have "(r, k) \<in> set (live c w)" by auto
      then have old: "region_owned (mapped_now M w) ?f (r, k)" using o by (simp add: own_def list_all_iff)
      with regions_apart [OF _ reg ne] have "range_of r REGION_SIZE \<subseteq> mapped_now M w'"
        by (auto simp: region_owned_def m)
      with region_owned_mono [OF old le_f] show ?thesis by (simp add: region_owned_def)
    qed
    then have "list_all (region_owned (mapped_now M w') ?g) (live c w')" by (auto simp: list_all_iff)
    moreover have "shaped (inner w')" using o by (simp add: own_def w' with_views_def shaped_def)
    ultimately show "own E M P c w' u" using o once by (simp add: own_def) }
qed

end
