(* ===== verification/OwnVectors.thy ===== *)
theory OwnVectors
  imports OwnRegions
begin

text \<open>
  The vectors of the allocator, and the locale \<open>owning\<close>: what the four entry points of \<open>tla_ops\<close> promise
  each other about ownership. Inside it, what growing a vector and pushing on it do.
\<close>

section \<open>The vectors of the allocator\<close>

text \<open>A vector in the record of the allocator: writing one with the same elements and perhaps more moves the
  bytes of its block and of the new elements, and nothing else.\<close>

definition vec_slot :: "usize \<Rightarrow> (inner \<Rightarrow> 'a self_vec) \<Rightarrow> ('a self_vec \<Rightarrow> inner \<Rightarrow> inner) \<Rightarrow> ('a list \<Rightarrow> addr \<Rightarrow> nat) \<Rightarrow>
    ('a \<Rightarrow> bool) \<Rightarrow> (inner \<Rightarrow> bool) \<Rightarrow> bool" where
  "vec_slot esz get put wt ok here \<longleftrightarrow>
     (esz = 8 \<or> esz = 16) \<and> (\<forall>a. wt [] a = 0) \<and>
     (\<forall>x y. here x \<and> same_tables x y \<longrightarrow> here y) \<and>
     (\<forall>x v xs. shaped x \<and> here x \<and> vec_elems v = vec_elems (get x) @ xs \<and> list_all ok xs \<longrightarrow>
        get (put v x) = v \<and> shaped (put v x) \<and> same_tables x (put v x)
        \<and> vec_elems (cm_regions (chunk_manager (put v x))) = vec_elems (cm_regions (chunk_manager x))
        \<and> (\<forall>n k a. inner_bytes n (put v x) k a + vec_block esz (get x) k a =
             inner_bytes n x k a + vec_block esz v k a + in_regions (wt xs) k a))"

lemma sum_update:
  fixes f :: "nat \<Rightarrow> 'x \<Rightarrow> 'n::comm_monoid_add"
  assumes "i < length t"
  shows "(\<Sum>j<length t. f j (t[i := v] ! j)) + f i (t ! i) = (\<Sum>j<length t. f j (t ! j)) + f i v"
proof -
  let ?I = "{..<length t}"
  have i: "i \<in> ?I" using assms by simp
  have "(\<Sum>j\<in>?I - {i}. f j (t[i := v] ! j)) = (\<Sum>j\<in>?I - {i}. f j (t ! j))"
    by (rule sum.cong) auto
  then show ?thesis
    using sum.remove [OF _ i, of "\<lambda>j. f j (t[i := v] ! j)"] sum.remove [OF _ i, of "\<lambda>j. f j (t ! j)"] assms by (simp add: ac_simps)
qed

lemma objects_update:
  assumes "i < length t"
  shows "objects common (t[i := v]) k a
      + (in_regions (chunks_count (vec_elems (t ! i)) (slot_size common i)) k a + vec_block 8 (t ! i) k a)
    = objects common t k a + (in_regions (chunks_count (vec_elems v) (slot_size common i)) k a + vec_block 8 v k a)"
  using sum_update [OF assms, of "\<lambda>i v. in_regions (chunks_count (vec_elems v) (slot_size common i)) k a + vec_block 8 v k a" v]
  by (simp add: objects_def)

lemma vec_blocks_update:
  assumes "i < length t"
  shows "vec_blocks (t[i := v]) k a + vec_block 8 (t ! i) k a = vec_blocks t k a + vec_block 8 v k a"
  using sum_update [OF assms, of "\<lambda>i v. vec_block 8 v k a" v] by (simp add: vec_blocks_def)

lemma common_objects_slot:
  "vec_slot 8 (\<lambda>x. common_object_table x ! i) (\<lambda>v x. x\<lparr>common_object_table := (common_object_table x)[i := v]\<rparr>)
    (\<lambda>xs. chunks_count xs (slot_size True i)) (\<lambda>_. True) (\<lambda>_. i < COMMON_SIZE_TABLE_LEN)"
proof -
  have "inner_bytes n (x\<lparr>common_object_table := (common_object_table x)[i := v]\<rparr>) k a + vec_block 8 (common_object_table x ! i) k a =
      inner_bytes n x k a + vec_block 8 v k a + in_regions (chunks_count xs (slot_size True i)) k a"
    if "i < length (common_object_table x)" "vec_elems v = vec_elems (common_object_table x ! i) @ xs" for n x v xs k a
    using objects_update [OF that(1), of True v k a] that(2) by (cases k) (simp_all add: inner_bytes_def)
  then show ?thesis by (simp add: vec_slot_def shaped_def same_tables_def)
qed

lemma large_objects_slot:
  "vec_slot 8 (\<lambda>x. large_object_table x ! i) (\<lambda>v x. x\<lparr>large_object_table := (large_object_table x)[i := v]\<rparr>)
    (\<lambda>xs. chunks_count xs (slot_size False i)) (\<lambda>_. True) (\<lambda>_. i < REAL_NUMBER_OF_LARGE_OBJECT_VECTORS)"
proof -
  have "inner_bytes n (x\<lparr>large_object_table := (large_object_table x)[i := v]\<rparr>) k a + vec_block 8 (large_object_table x ! i) k a =
      inner_bytes n x k a + vec_block 8 v k a + in_regions (chunks_count xs (slot_size False i)) k a"
    if "i < length (large_object_table x)" "vec_elems v = vec_elems (large_object_table x ! i) @ xs" for n x v xs k a
    using objects_update [OF that(1), of False v k a] that(2) by (cases k) (simp_all add: inner_bytes_def)
  then show ?thesis by (simp add: vec_slot_def shaped_def same_tables_def)
qed

lemma chunk_table_update:
  assumes "b = Some (p, t)" and "i < length t"
  shows "chunk_table (put_in_box i v b) k a + vec_block 8 (t ! i) k a = chunk_table b k a + vec_block 8 v k a"
  using vec_blocks_update [OF assms(2), of v k a] by (simp add: chunk_table_def put_in_box_def assms(1))

lemma common_chunks_slot:
  "vec_slot 8 (\<lambda>x. snd (the (common_chunk_table x)) ! i)
    (\<lambda>v x. x\<lparr>common_chunk_table := put_in_box i v (common_chunk_table x)\<rparr>) (\<lambda>_ _. 0) (\<lambda>_. True) (\<lambda>x. i < COMMON_SIZE_TABLE_LEN \<and> common_chunk_table x \<noteq> None)"
proof -
  have "snd (the (put_in_box i v b)) ! i = v \<and> put_in_box i v b \<noteq> None
      \<and> (\<forall>q s. put_in_box i v b = Some (q, s) \<longrightarrow> length s = COMMON_SIZE_TABLE_LEN)
      \<and> (\<forall>k a. chunk_table (put_in_box i v b) k a + vec_block 8 (snd (the b) ! i) k a = chunk_table b k a + vec_block 8 v k a)"
    if "i < COMMON_SIZE_TABLE_LEN" "b \<noteq> None" "\<forall>q s. b = Some (q, s) \<longrightarrow> length s = COMMON_SIZE_TABLE_LEN" for b v
    using that chunk_table_update [of b _ _ i v] by (cases b) (auto simp: put_in_box_def)
  then show ?thesis
    by (simp add: vec_slot_def shaped_def same_tables_def inner_bytes_def) force
qed

lemma large_chunks_slot:
  "vec_slot 8 (\<lambda>x. snd (the (large_chunk_table x)) ! i)
    (\<lambda>v x. x\<lparr>large_chunk_table := put_in_box i v (large_chunk_table x)\<rparr>) (\<lambda>_ _. 0) (\<lambda>_. True) (\<lambda>x. i < REAL_NUMBER_OF_LARGE_OBJECT_VECTORS \<and> large_chunk_table x \<noteq> None)"
proof -
  have "snd (the (put_in_box i v b)) ! i = v \<and> put_in_box i v b \<noteq> None
      \<and> (\<forall>q s. put_in_box i v b = Some (q, s) \<longrightarrow> length s = REAL_NUMBER_OF_LARGE_OBJECT_VECTORS)
      \<and> (\<forall>k a. chunk_table (put_in_box i v b) k a + vec_block 8 (snd (the b) ! i) k a = chunk_table b k a + vec_block 8 v k a)"
    if "i < REAL_NUMBER_OF_LARGE_OBJECT_VECTORS" "b \<noteq> None" "\<forall>q s. b = Some (q, s) \<longrightarrow> length s = REAL_NUMBER_OF_LARGE_OBJECT_VECTORS" for b v
    using that chunk_table_update [of b _ _ i v] by (cases b) (auto simp: put_in_box_def)
  then show ?thesis
    by (simp add: vec_slot_def shaped_def same_tables_def inner_bytes_def) force
qed

lemma list_all_False [simp]: "list_all (\<lambda>_. False) xs \<longleftrightarrow> xs = []"
  by (cases xs) simp_all

lemma manager_slots:
  shows free_common_slot: "vec_slot 8 (\<lambda>x. cm_free_common_chunks (chunk_manager x))
      (\<lambda>v. set_cm_inner (\<lambda>cm. cm\<lparr>cm_free_common_chunks := v\<rparr>)) (\<lambda>xs. chunks_count xs COMMON_CHUNK_SIZE) (aligned_chunk COMMON_CHUNK_SIZE) (\<lambda>_. True)"
    and free_large_slot: "vec_slot 8 (\<lambda>x. cm_free_large_chunks (chunk_manager x))
      (\<lambda>v. set_cm_inner (\<lambda>cm. cm\<lparr>cm_free_large_chunks := v\<rparr>)) (\<lambda>xs. chunks_count xs LARGE_CHUNK_SIZE) (aligned_chunk LARGE_CHUNK_SIZE) (\<lambda>_. True)"
    and regions_slot: "vec_slot 16 (\<lambda>x. cm_regions (chunk_manager x))
      (\<lambda>v. set_cm_inner (\<lambda>cm. cm\<lparr>cm_regions := v\<rparr>)) (\<lambda>_ _. 0) (\<lambda>_. False) (\<lambda>_. True)"
  by (simp_all add: vec_slot_def shaped_def same_tables_def inner_bytes_def cm_bytes_def chunk_vec_def in_regions_def)

lemma u32_pow2: "u32 (2 ^ j) = (if j < 32 then 2 ^ j else 0)"
proof (cases "j < 32")
  case False
  then have "(2::nat) ^ j = 2 ^ 32 * 2 ^ (j - 32)" by (simp only: le_add_diff_inverse not_less flip: power_add)
  then show ?thesis using False by (simp add: u32_def)
next
  case True
  then have "(2::nat) ^ j < 2 ^ 32" by (rule power_strict_increasing) simp
  then show ?thesis using True by (simp only: u32_small if_True)
qed

lemma block_or_nothing:
  assumes "esz = 8 \<or> esz = 16" and "S = recommended_size (next_power_of_two n)"
  shows "u32 (S div esz) = 0 \<or> u32 (S div esz) * esz = S" and "0 < S" and "recommended_size S = S"
proof -
  obtain k where k: "next_power_of_two n = 2 ^ k" by (rule next_power_of_twoE)
  obtain m where m: "S = 2 ^ m" "3 \<le> m"
  proof (cases "3 \<le> k")
    case True
    then have "(8::nat) \<le> 2 ^ k" using power_increasing [of 3 k "2::nat"] by simp
    with True k assms(2) show ?thesis by (intro that [of k]) (simp_all add: recommended_pow2)
  next
    case False
    then have "(2::nat) ^ k \<le> 2 ^ 3" by (intro power_increasing) simp_all
    then have "recommended_size (next_power_of_two n) = 8" using block_size [of n] unfolding k by simp
    with assms(2) show ?thesis by (intro that [of 3]) simp_all
  qed
  then show "0 < S" by simp
  show "recommended_size S = S" unfolding assms(2) by (rule recommended_idem)
  obtain j where j: "m = j + 3" using m(2) by (metis add.commute le_Suc_ex)
  have 8: "S = 2 ^ j * 8" by (simp add: m(1) j power_add)
  have "u32 (S div 8) = 0 \<or> u32 (S div 8) * 8 = S" by (simp add: 8 u32_pow2)
  moreover have "u32 (S div 16) = 0 \<or> u32 (S div 16) * 16 = S"
  proof (cases j)
    case (Suc i)
    then have "S = 2 ^ i * 16" by (simp add: 8)
    then show ?thesis by (simp add: u32_pow2)
  qed (simp add: 8 u32_def)
  ultimately show "u32 (S div esz) = 0 \<or> u32 (S div esz) * esz = S" using assms(1) by blast
qed

lemma block_recommended: "block p (recommended_size sz) k a = block p sz k a"
  by (simp add: block_def owned_size_def recommended_class recommended_idem recommended_xl)

section \<open>What the operations promise each other\<close>

locale owning =
  fixes E :: "('k, 'n) env"
    and M :: "'k \<Rightarrow> addr set"
    and P :: "'n \<Rightarrow> NonLocalPtrData list"
    and ops :: "('k, 'n) world tla_ops"
  assumes self_alloc: "op_self_alloc ops cnt sz w = (r, w') \<Longrightarrow> 0 < sz \<Longrightarrow> recommended_size sz = sz \<Longrightarrow>
      goes E M P A w u w' (case r of None \<Rightarrow> u | Some p \<Rightarrow> both u (block p sz))"
    and self_dealloc: "0 < sz \<Longrightarrow> goes E M P A w (both u (block p sz)) (op_self_dealloc ops p sz w) u"
    and handle: "c \<noteq> [] \<or> panicked w \<Longrightarrow> holds E M P (c @ A) w u \<Longrightarrow>
      follows w (op_handle_state ops c w) \<and> holds E M P A (op_handle_state ops c w) u"
    and try_alloc: "op_try_alloc ops sz w = (r, w') \<Longrightarrow> 0 < sz \<Longrightarrow>
      goes E M P A w u w' (case r of None \<Rightarrow> u | Some p \<Rightarrow> both u (block p sz))"

text \<open>A vector is there.\<close>

definition present :: "(inner \<Rightarrow> bool) \<Rightarrow> ('k, 'n) world \<Rightarrow> bool" where
  "present here w \<longleftrightarrow> panicked w \<or> here (inner w)"

context owning
begin

abbreviation to :: "State list \<Rightarrow> ('k, 'n) world \<Rightarrow> held \<Rightarrow> ('k, 'n) world \<Rightarrow> held \<Rightarrow> bool" where
  "to \<equiv> goes E M P"

abbreviation vec_at :: "usize \<Rightarrow> (inner \<Rightarrow> 'a self_vec) \<Rightarrow> ('a self_vec \<Rightarrow> inner \<Rightarrow> inner) \<Rightarrow> ('a, ('k, 'n) world) vec_env" where
  "vec_at \<equiv> vec_of ops"

lemma vec_of_simps [simp]:
  "the_vec (vec_of ops esz get put) w = get (inner w)" "set_vec (vec_of ops esz get put) v w = w\<lparr>inner := put v (inner w)\<rparr>"
  "elem_size (vec_of ops esz get put) = esz" "vec_env.self_dealloc (vec_of ops esz get put) = op_self_dealloc ops"
  by (simp_all add: vec_of_def)

lemma alloc_with_goes:
  assumes "alloc_with (vec_of ops esz get put) cnt n w = ((r, cap), w')" and esz: "esz = 8 \<or> esz = 16"
  shows "to A w u w' (case r of None \<Rightarrow> u | Some p \<Rightarrow> both u (\<lambda>k a. if cap = 0 then 0 else block p (cap * esz) k a))"
proof -
  let ?S = "recommended_size (next_power_of_two (n * esz))"
  note b = block_or_nothing [OF esz refl, of "n * esz"]
  have run: "op_self_alloc ops cnt ?S w = (r, w')" and cap: "cap = u32 (?S div esz)"
    using assms(1) by (auto simp: alloc_with_def vec_of_def Let_def split: prod.splits if_splits)
  show ?thesis
  proof (rule goes_same [OF self_alloc [OF run b(2,3)]])
    fix k a
    show "(case r of None \<Rightarrow> u | Some p \<Rightarrow> both u (\<lambda>k a. if cap = 0 then 0 else block p (cap * esz) k a)) k a
        \<le> (case r of None \<Rightarrow> u | Some p \<Rightarrow> both u (block p ?S)) k a"
      using b(1) by (cases r) (auto simp: cap)
  qed
qed

lemma maybe_dealloc_goes:
  assumes "0 < esz"
  shows "to A w (both u (\<lambda>k a. if cap = 0 then 0 else block p (cap * esz) k a)) (maybe_dealloc (vec_of ops esz get put) p cap w) u"
proof (cases "cap = 0")
  case True
  then show ?thesis by (simp add: maybe_dealloc_def goes_same [OF goes_refl])
next
  case False
  then show ?thesis using self_dealloc [of "cap * esz" A w u p] assms by (simp add: maybe_dealloc_def)
qed

lemma goes_set_vec:
  assumes V: "vec_slot esz get put wt ok here" and r: "present here w"
    and v: "vec_elems v = vec_elems (get (inner w)) @ xs" "panicked w \<or> list_all ok xs"
    and le: "\<And>k a. vec_block esz v k a + in_regions (wt xs) k a + u' k a \<le> vec_block esz (get (inner w)) k a + u k a"
  shows "to A w u (w\<lparr>inner := put v (inner w)\<rparr>) u'"
proof (rule goes_inner)
  assume s: "shaped (inner w)" "\<not> panicked w"
  with r v have "shaped (inner w) \<and> here (inner w) \<and> vec_elems v = vec_elems (get (inner w)) @ xs \<and> list_all ok xs"
    by (simp add: present_def)
  with V have w: "shaped (put v (inner w))" "same_tables (inner w) (put v (inner w))"
    "vec_elems (cm_regions (chunk_manager (put v (inner w)))) = vec_elems (cm_regions (chunk_manager (inner w)))"
    and b: "inner_bytes n (put v (inner w)) k a + vec_block esz (get (inner w)) k a =
      inner_bytes n (inner w) k a + vec_block esz v k a + in_regions (wt xs) k a" for n k a
    unfolding vec_slot_def by blast+
  have "inner_bytes n (put v (inner w)) k a + u' k a \<le> inner_bytes n (inner w) k a + u k a" for n k a
    using b [of n k a] le [of k a] by linarith
  with w show "shaped (put v (inner w)) \<and> same_tables (inner w) (put v (inner w)) \<and>
      vec_elems (cm_regions (chunk_manager (put v (inner w)))) = vec_elems (cm_regions (chunk_manager (inner w))) \<and>
      (\<forall>k a. inner_bytes (size_of_nlpm E) (put v (inner w)) k a + u' k a \<le> inner_bytes (size_of_nlpm E) (inner w) k a + u k a)"
    by simp
qed

lemma present_follows:
  assumes "vec_slot esz get put wt ok here" and "present here w" and "follows w w'"
  shows "present here w'"
proof (cases "panicked w'")
  case False
  with assms(2,3) have "here (inner w)" "same_tables (inner w) (inner w')"
    by (auto simp: present_def follows_def same_tables_def)
  with assms(1) show ?thesis unfolding vec_slot_def present_def by blast
qed (simp add: present_def)

lemma reserve_loop_goes:
  assumes V: "vec_slot esz get put wt ok here"
  shows "reserve_loop fuel (vec_of ops esz get put) cnt n min_cap w = Some (b, w') \<Longrightarrow> present here w \<Longrightarrow>
    to A w u w' u"
proof (induction fuel arbitrary: min_cap w)
  case (Suc fuel)
  let ?V = "vec_of ops esz get put"
  have esz: "esz = 8 \<or> esz = 16" "0 < esz" using V by (auto simp: vec_slot_def)
  obtain r cap w1 where a: "alloc_with ?V cnt min_cap w = ((r, cap), w1)" by (metis prod.collapse)
  let ?b = "\<lambda>p k a. if cap = 0 then 0 else block p (cap * esz) k a"
  note a1 = alloc_with_goes [OF a esz(1), of A u]
  show ?case
    unfolding goes_def
  proof
    assume H: "holds E M P A w u"
    note h1 = goesD [OF a1 H]
    have p1: "present here w1" using present_follows [OF V Suc.prems(2)] h1 by simp
    show "follows w w' \<and> holds E M P A w' u"
    proof (cases "cap < needed ?V n w1")
      case True
      let ?w2 = "case r of None \<Rightarrow> w1 | Some p \<Rightarrow> maybe_dealloc ?V p cap w1"
      have rest: "reserve_loop fuel ?V cnt n (needed ?V n w1) ?w2 = Some (b, w')"
        using Suc.prems(1) a True by simp
      have "to A w1 (case r of None \<Rightarrow> u | Some p \<Rightarrow> both u (?b p)) ?w2 u"
        using maybe_dealloc_goes [OF esz(2)] by (cases r) simp_all
      note h2 = goesD [OF this conjunct2 [OF h1]]
      have "present here ?w2" using present_follows [OF V p1] h2 by blast
      from goesD [OF Suc.IH [OF rest this] conjunct2 [OF h2]] h1 h2 show ?thesis
        by (meson follows_trans)
    next
      case False
      show ?thesis
      proof (cases r)
        case None
        with Suc.prems(1) a False h1 show ?thesis by auto
      next
        case (Some p)
        let ?v = "get (inner w1)"
        let ?w2 = "w1\<lparr>inner := put (?v\<lparr>vec_ptr := p, vec_cap := cap\<rparr>) (inner w1)\<rparr>"
        let ?w3 = "maybe_dealloc ?V (vec_ptr ?v) (vec_cap ?v) ?w2"
        have "to A w1 (both u (?b p)) ?w2 (both u (vec_block esz ?v))"
        proof (rule goes_set_vec [OF V, of _ _ "[]"])
          show "present here w1" by (fact p1)
          have "in_regions (wt []) k a = 0" for k a using V by (simp add: vec_slot_def in_regions_def)
          then show "vec_block esz (?v\<lparr>vec_ptr := p, vec_cap := cap\<rparr>) k a + in_regions (wt []) k a + both u (vec_block esz ?v) k a
              \<le> vec_block esz ?v k a + both u (?b p) k a" for k a
            by (simp add: vec_block_def)
        qed simp_all
        moreover have "to A ?w2 (both u (vec_block esz ?v)) ?w3 u"
          using maybe_dealloc_goes [OF esz(2), of A ?w2 u "vec_cap ?v" "vec_ptr ?v"] by (simp add: vec_block_def [abs_def])
        ultimately have t: "to A w1 (both u (?b p)) ?w3 u" by (rule goes_trans)
        have h3: "follows w1 ?w3" "holds E M P A ?w3 u" using goesD [OF t] h1 Some by simp_all
        show ?thesis
        proof (cases "cap < needed ?V n ?w3")
          case True
          then have rest: "reserve_loop fuel ?V cnt n (needed ?V n ?w3) ?w3 = Some (b, w')"
            using Suc.prems(1) a False Some by (simp add: Let_def)
          from goesD [OF Suc.IH [OF rest present_follows [OF V p1 h3(1)]] h3(2)] h1 h3 show ?thesis
            by (meson follows_trans)
        next
          case False
          with Suc.prems(1) a \<open>\<not> cap < needed ?V n w1\<close> Some have "w' = ?w3" by (simp add: Let_def)
          with h1 h3 show ?thesis by (meson follows_trans)
        qed
      qed
    qed
  qed
qed simp

lemma reserve_goes:
  assumes "vec_slot esz get put wt ok here" and "present here w"
    and "reserve fuel (vec_of ops esz get put) cnt n w = Some (r, w')"
  shows "to A w u w' u"
  using assms(3) reserve_loop_goes [OF assms(1) _ assms(2)]
  by (auto simp: reserve_def reserve_slow_def split: if_splits option.splits)

lemma extend_by_goes:
  assumes V: "vec_slot esz get put wt ok here" and p: "present here w" and xs: "panicked w \<or> list_all ok xs"
    and run: "extend_by fuel (vec_of ops esz get put) cnt xs w = Some (b, w')"
  shows "to A w (both u (in_regions (wt xs))) w' (if b then u else both u (in_regions (wt xs)))"
proof -
  obtain r w1 where res: "reserve fuel (vec_of ops esz get put) cnt (u32 (length xs)) w = Some (r, w1)"
    using run by (auto simp: extend_by_def split: option.splits)
  note t = reserve_goes [OF V p res, of A "both u (in_regions (wt xs))"]
  show ?thesis
  proof (cases r)
    case (Inl x)
    with run res t show ?thesis by (simp add: extend_by_def)
  next
    case (Inr x)
    let ?v = "(get (inner w1))\<lparr>vec_elems := vec_elems (get (inner w1)) @ xs\<rparr>"
    from Inr run res have r: "b" "w' = w1\<lparr>inner := put ?v (inner w1)\<rparr>" by (simp_all add: extend_by_def Let_def)
    show ?thesis
      unfolding goes_def
    proof
      assume H: "holds E M P A w (both u (in_regions (wt xs)))"
      note h = goesD [OF t H]
      have "to A w1 (both u (in_regions (wt xs))) w' u"
        unfolding r(2)
        by (rule goes_set_vec [OF V present_follows [OF V p], of _ _ xs])
          (use h xs in \<open>auto simp: vec_block_def follows_def split: if_splits\<close>)
      from goesD [OF this] h r(1) show "follows w w' \<and> holds E M P A w' (if b then u else both u (in_regions (wt xs)))"
        by (auto intro: follows_trans)
    qed
  qed
qed

lemma push_back_goes:
  assumes "vec_slot esz get put wt ok here" and "present here w" and "panicked w \<or> ok p"
    and "push_back ops (vec_of ops esz get put) p w = Some w'"
  shows "to A w (both u (in_regions (wt [p]))) w' u"
  using assms(4) extend_by_goes [OF assms(1,2), of "[p]" "rounds ops" False True w' A u] assms(3)
  by (auto simp: push_back_def push_without_counting_limit_def split: option.splits bool.splits)

text \<open>A call with no state: its chain is held by the caller meanwhile.\<close>

lemma without_state_goes:
  assumes run: "without_state f w = Some (r, w')"
    and f: "\<And>w1. f (w\<lparr>maybe_state := None\<rparr>) = Some (r, w1) \<Longrightarrow> to (chain_now w @ A) (w\<lparr>maybe_state := None\<rparr>) u w1 u'"
  shows "to A w u w' u'"
proof -
  obtain w1 where w1: "f (w\<lparr>maybe_state := None\<rparr>) = Some (r, w1)" "w' = w1\<lparr>maybe_state := maybe_state w\<rparr>"
    using run by (auto simp: without_state_def)
  have own: "own E M P c (v\<lparr>maybe_state := m\<rparr>) x \<longleftrightarrow> own E M P c v x" for c v m x
    by (simp add: own_def bytes_def [abs_def] live_def)
  show ?thesis
    using f [OF w1(1)] by (auto simp: goes_def holds_def w1(2) own chain_now_def follows_def chain_grown_def)
qed

lemma push_back_without_state_goes:
  assumes V: "vec_slot esz get put wt (\<lambda>_. True) here" and p: "present here w"
    and run: "push_back_without_state ops (vec_of ops esz get put) p w = Some w'"
  shows "to A w (both u (in_regions (wt [p]))) w' u"
proof -
  obtain w1 where ws: "without_state (\<lambda>w. map_option (Pair ()) (push_back ops (vec_of ops esz get put) p w)) w = Some ((), w1)" and w': "w' = w1"
    using run by (auto simp: push_back_without_state_def simp del: split_paired_Ex)
  show ?thesis
    unfolding w'
  proof (rule without_state_goes [OF ws])
    fix w2 assume "map_option (Pair ()) (push_back ops (vec_of ops esz get put) p (w\<lparr>maybe_state := None\<rparr>)) = Some ((), w2)"
    then have b: "push_back ops (vec_of ops esz get put) p (w\<lparr>maybe_state := None\<rparr>) = Some w2" by auto
    show "to (chain_now w @ A) (w\<lparr>maybe_state := None\<rparr>) (both u (in_regions (wt [p]))) w2 u"
      by (rule push_back_goes [OF V _ _ b]) (use p in \<open>simp_all add: present_def\<close>)
  qed
qed

end

end
