(* ===== verification/OwnObjects.thy ===== *)
theory OwnObjects
  imports OwnVectors
begin

text \<open>
  Objects and chunks that are taken, cut and given back; the boxes of the manager and of the tables.
\<close>

section \<open>Objects and chunks\<close>

lemma carve_facts:
  "carve n sz p v = Some (q, v') \<Longrightarrow> q = p + n * sz \<and> vec_ptr v' = vec_ptr v \<and> vec_cap v' = vec_cap v
   \<and> vec_elems v' = vec_elems v @ from_fn_chunks n sz p"
proof (induction n arbitrary: p v)
  case (Suc n)
  then have push: "try_push p v = Inr (v\<lparr>vec_elems := vec_elems v @ [p]\<rparr>)"
    by (auto simp: try_push_def split: if_splits)
  with Suc.prems have "carve n sz (p + sz) (v\<lparr>vec_elems := vec_elems v @ [p]\<rparr>) = Some (q, v')" by simp
  from Suc.IH [OF this] show ?case by simp
qed simp

lemma pop_bytes:
  assumes "i < length t" and "vec_pop (t ! i) = (r, v)"
  shows "objects common (t[i := v]) k a + (case r of None \<Rightarrow> 0 | Some p \<Rightarrow> in_regions (occ p (slot_size common i)) k a)
    = objects common t k a"
proof (cases "vec_elems (t ! i) = []")
  case True
  with assms(2) show ?thesis by (auto simp: vec_pop_def vec_len_def)
next
  case False
  with assms(2) have r: "r = Some (last (vec_elems (t ! i)))" and v: "v = (t ! i)\<lparr>vec_elems := butlast (vec_elems (t ! i))\<rparr>"
    by (auto simp: vec_pop_def vec_len_def)
  from False have "chunks_count (butlast (vec_elems (t ! i))) (slot_size common i) a + occ (last (vec_elems (t ! i))) (slot_size common i) a =
      chunks_count (vec_elems (t ! i)) (slot_size common i) a" by (rule chunks_count_pop)
  then have c: "chunks_count (vec_elems v) (slot_size common i) a + occ (last (vec_elems (t ! i))) (slot_size common i) a =
      chunks_count (vec_elems (t ! i)) (slot_size common i) a" by (simp add: v)
  have "vec_block 8 v k a = vec_block 8 (t ! i) k a" by (simp add: vec_block_def v)
  with c objects_update [OF assms(1), of common v k a] show ?thesis by (cases k) (simp_all add: r)
qed

definition gets :: "('k, 'n) env \<Rightarrow> ('k \<Rightarrow> addr set) \<Rightarrow> ('n \<Rightarrow> NonLocalPtrData list) \<Rightarrow> State list \<Rightarrow> nat \<Rightarrow>
    (('k, 'n) world \<Rightarrow> (addr option \<times> ('k, 'n) world) option) \<Rightarrow> bool" where
  "gets E M P A n f \<longleftrightarrow>
     (\<forall>w u r w'. f w = Some (r, w') \<longrightarrow> holds E M P A w u \<longrightarrow> follows w w' \<and>
        (case r of None \<Rightarrow> holds E M P A w' u
         | Some p \<Rightarrow> holds E M P A w' (both u (in_regions (occ p n))) \<and> (panicked w' \<or> aligned_chunk n p)))"

context owning
begin

lemma pop_common_goes:
  assumes "pop_common i w = (r, w')" and "i < COMMON_SIZE_TABLE_LEN"
  shows "to A w u w' (case r of None \<Rightarrow> u | Some p \<Rightarrow> both u (in_regions (occ p (slot_size True i))))"
proof -
  obtain v where v: "vec_pop (common_object_table (inner w) ! i) = (r, v)"
    and w': "w' = w\<lparr>inner := (inner w)\<lparr>common_object_table := (common_object_table (inner w))[i := v]\<rparr>\<rparr>"
    using assms(1) by (auto simp: pop_common_def split: prod.splits)
  let ?x = "(inner w)\<lparr>common_object_table := (common_object_table (inner w))[i := v]\<rparr>"
  show ?thesis
    unfolding w'
  proof (rule goes_inner, intro conjI allI)
    assume s: "shaped (inner w)"
    then show "shaped ?x" by (simp add: shaped_def)
    have "i < length (common_object_table (inner w))" using assms(2) s by (simp add: shaped_def)
    note b = pop_bytes [OF this v, of True]
    show "inner_bytes (size_of_nlpm E) ?x k a
        + (case r of None \<Rightarrow> u | Some p \<Rightarrow> both u (in_regions (occ p (slot_size True i)))) k a
        \<le> inner_bytes (size_of_nlpm E) (inner w) k a + u k a" for k a
      using b [of k a] by (cases r) (simp_all add: inner_bytes_def)
  qed (simp_all add: same_tables_def)
qed

lemma pop_large_goes:
  assumes "pop_large i w = (r, w')" and "i < REAL_NUMBER_OF_LARGE_OBJECT_VECTORS"
  shows "to A w u w' (case r of None \<Rightarrow> u | Some p \<Rightarrow> both u (in_regions (occ p (slot_size False i))))"
proof -
  obtain v where v: "vec_pop (large_object_table (inner w) ! i) = (r, v)"
    and w': "w' = w\<lparr>inner := (inner w)\<lparr>large_object_table := (large_object_table (inner w))[i := v]\<rparr>\<rparr>"
    using assms(1) by (auto simp: pop_large_def split: prod.splits)
  let ?x = "(inner w)\<lparr>large_object_table := (large_object_table (inner w))[i := v]\<rparr>"
  show ?thesis
    unfolding w'
  proof (rule goes_inner, intro conjI allI)
    assume s: "shaped (inner w)"
    then show "shaped ?x" by (simp add: shaped_def)
    have "i < length (large_object_table (inner w))" using assms(2) s by (simp add: shaped_def)
    note b = pop_bytes [OF this v, of False]
    show "inner_bytes (size_of_nlpm E) ?x k a
        + (case r of None \<Rightarrow> u | Some p \<Rightarrow> both u (in_regions (occ p (slot_size False i)))) k a
        \<le> inner_bytes (size_of_nlpm E) (inner w) k a + u k a" for k a
      using b [of k a] by (cases r) (simp_all add: inner_bytes_def)
  qed (simp_all add: same_tables_def)
qed

lemma give_back_goes:
  assumes "give_back E n p w = Some w'" and "panicked w \<or> aligned_chunk (n * COMMON_CHUNK_SIZE) p"
    and "n * COMMON_CHUNK_SIZE dvd REGION_SIZE" and "0 < n"
  shows "to A w (both u (in_regions (occ p (n * COMMON_CHUNK_SIZE)))) w' u"
proof -
  obtain cm q where w': "w' = w\<lparr>inner := (inner w)\<lparr>chunk_manager := cm\<rparr>, proc := q\<rparr>"
    using assms(1) by (auto simp: give_back_def)
  show ?thesis
  proof (rule goesI)
    assume o: "own E M P (chain_now w @ A) w (both u (in_regions (occ p (n * COMMON_CHUNK_SIZE))))" and np: "\<not> panicked w"
    with own_give_back [OF o _ assms(3,4,1)] assms(2)
    show "follows w w' \<and> own E M P (chain_now w' @ A) w' u"
      by (simp add: w' follows_def chain_now_def)
  qed (simp add: w')
qed

text \<open>A vector of objects of one size: the chunk becomes its objects, the last one is left.\<close>

lemma fill_goes:
  assumes V: "vec_slot esz get put (\<lambda>xs. chunks_count xs sz) (\<lambda>_. True) here" and p: "present here w"
    and sz: "0 < sz" "sz \<le> n" and run: "fill_from_chunk fuel (vec_of ops esz get put) sz n q w = Some (r, w')"
  shows "to A w (both u (in_regions (occ q n))) w' (case r of None \<Rightarrow> u | Some p \<Rightarrow> both u (in_regions (occ p sz)))"
proof -
  let ?V = "vec_of ops esz get put" and ?k = "n div sz - 1" and ?u = "both u (in_regions (occ q n))"
  obtain x w1 where res: "reserve fuel ?V True (u32 ?k) w = Some (x, w1)"
    using run by (auto simp: fill_from_chunk_def Let_def split: option.splits)
  note t = reserve_goes [OF V p res, of A ?u]
  show ?thesis
  proof (cases x)
    case (Inl y)
    with run res have "r = None" "w' = w1" by (auto simp: fill_from_chunk_def Let_def)
    then show ?thesis using goes_same [OF t, of u] by simp
  next
    case (Inr y)
    then obtain cur v where c: "carve ?k sz q (get (inner w1)) = Some (cur, v)" and r: "r = Some cur" "w' = w1\<lparr>inner := put v (inner w1)\<rparr>"
      using run res by (auto simp: fill_from_chunk_def Let_def)
    note cf = carve_facts [OF c]
    have "?k + 1 = n div sz" using sz by (simp add: div_greater_zero_iff)
    then have "?k * sz + sz = n div sz * sz" by (metis add_mult_distrib mult_1)
    then have le: "?k * sz + sz \<le> n" by simp
    have o: "occ q (?k * sz) a + occ cur sz a \<le> occ q n a" for a
      using occ_add [of q "?k * sz" sz a] occ_mono [OF le, of q a] cf by simp
    show ?thesis
      unfolding goes_def
    proof
      assume H: "holds E M P A w ?u"
      note h = goesD [OF t H]
      have "to A w1 ?u w' (both u (in_regions (occ cur sz)))"
        unfolding r(2)
      proof (rule goes_set_vec [OF V present_follows [OF V p conjunct1 [OF h]], of _ "from_fn_chunks ?k sz q"])
        show "vec_elems v = vec_elems (get (inner w1)) @ from_fn_chunks ?k sz q" using cf by simp
        show "panicked w1 \<or> list_all (\<lambda>_. True) (from_fn_chunks ?k sz q)" by (simp add: list_all_iff)
        have vb: "vec_block esz v k a = vec_block esz (get (inner w1)) k a" for k a using cf by (simp add: vec_block_def)
        show "vec_block esz v k a + in_regions (chunks_count (from_fn_chunks ?k sz q) sz) k a + both u (in_regions (occ cur sz)) k a
            \<le> vec_block esz (get (inner w1)) k a + both u (in_regions (occ q n)) k a" for k a
          using o [of a] by (cases k) (simp_all add: vb chunks_count_laid)
      qed
      from goesD [OF this] h r(1) show "follows w w' \<and> holds E M P A w' (case r of None \<Rightarrow> u | Some p \<Rightarrow> both u (in_regions (occ p sz)))"
        by (auto intro: follows_trans)
    qed
  qed
qed

end

lemma hold_self: "hold (u True) (u False) = u"
  by (auto simp: hold_def fun_eq_iff)

lemma own_maybe [simp]: "own E M P c (w\<lparr>maybe_state := m\<rparr>) u = own E M P c w u"
  by (simp add: own_def bytes_def [abs_def] live_def)

lemma own_moves:
  assumes o: "own E M P (c @ A) w u"
    and le: "\<And>a. chain_count (size_of_state E) c' a + u' False a \<le> chain_count (size_of_state E) c a + u False a"
    and x: "\<And>a. u' True a \<le> u True a"
    and c': "mset (map region_ptr c') \<subseteq># mset (map region_ptr c)" "list_all (chunk_sizes good_size aligned_chunk) c'"
  shows "own E M P (c' @ A) w u'"
proof -
  have "chain_owned E M P (u True) A c w (u False)" using o by (simp add: chain_owned_def hold_self)
  from tla.moves [OF this le c'] have "own E M P (c' @ A) w (hold (u True) (u' False))" by (simp add: chain_owned_def)
  then show ?thesis by (rule own_frame) (use x in \<open>simp add: hold_def\<close>)
qed

lemma goes_flags:
  assumes "inner_bytes (size_of_nlpm E) x = inner_bytes (size_of_nlpm E) (inner w)" and "shaped x = shaped (inner w)"
    and "same_tables (inner w) x" and "chunk_manager x = chunk_manager (inner w)"
  shows "goes E M P A w u (w\<lparr>inner := x\<rparr>) u"
  by (rule goes_inner) (use assms in simp)

lemma set_is_allocating_goes: "goes E M P A w u (set_is_allocating b w) u"
proof (cases "maybe_state w")
  case (Some c)
  show ?thesis
  proof (cases c)
    case (Cons s d)
    let ?s = "s\<lparr>is_allocating_non_local_ptr_manager_now := b\<rparr>"
    have w': "set_is_allocating b w = w\<lparr>maybe_state := Some (?s # d)\<rparr>" using Some Cons by (simp add: set_is_allocating_def)
    show ?thesis
      unfolding w'
    proof (rule goesI)
      assume o: "own E M P (chain_now w @ A) w u" and np: "\<not> panicked w"
      have "own E M P ((?s # d) @ A) w u"
        by (rule own_moves [of E M P "s # d" A w u]) (use o Some Cons in \<open>auto simp: chain_now_def state_count_def own_def chunk_sizes_def\<close>)
      then show "follows w (w\<lparr>maybe_state := Some (?s # d)\<rparr>) \<and>
          own E M P (chain_now (w\<lparr>maybe_state := Some (?s # d)\<rparr>) @ A) (w\<lparr>maybe_state := Some (?s # d)\<rparr>) u"
        using np Some Cons by (simp add: follows_def chain_grown_def grown_def chain_now_def)
    qed simp
  qed (use Some in \<open>simp add: set_is_allocating_def\<close>)
qed (simp add: set_is_allocating_def)

lemma vec_blocks_new [simp]: "vec_blocks (replicate n new_vec) k a = 0"
  by (simp add: vec_blocks_def vec_block_def new_vec_def)

lemma follows_maybe:
  "follows w w' \<Longrightarrow> panicked w' \<or> (maybe_state w = None \<longleftrightarrow> maybe_state w' = None)"
  by (auto simp: follows_def chain_grown_def split: if_splits option.splits list.splits)

context owning
begin

lemma box_new_goes:
  assumes "box_new ops sz w = (r, w')"
  shows "to A w u w' (case r of None \<Rightarrow> u | Some p \<Rightarrow> both u (block p sz))"
proof (cases "sz = 0")
  case True
  with assms show ?thesis by (auto simp: box_new_def intro: goes_panicked)
next
  case False
  then have run: "op_self_alloc ops True (recommended_size sz) w = (r, w')" using assms by (simp add: box_new_def)
  have "0 < recommended_size sz" using False recommended_ge [of sz] by linarith
  from self_alloc [OF run this recommended_idem, of A u] show ?thesis
    by (cases r) (simp_all add: block_recommended [abs_def])
qed

lemma box_new_Some: "box_new ops sz w = (Some p, w') \<Longrightarrow> sz \<noteq> 0"
  by (auto simp: box_new_def split: if_splits)

lemma box_nlpm_goes:
  assumes "box_nlpm E ops w = Some w'"
  shows "to A w u w' u"
proof -
  obtain p w1 where b: "box_new ops (size_of_nlpm E) (set_is_allocating True w) = (Some p, w1)"
    and w': "w' = set_is_allocating False (w1\<lparr>inner := (inner w1)\<lparr>non_local_ptr_manager_box := Some p\<rparr>\<rparr>)"
    using assms by (auto simp: box_nlpm_def split: prod.splits option.splits)
  have "to A w u (set_is_allocating True w) u" by (rule set_is_allocating_goes)
  also have "to A (set_is_allocating True w) u w1 (both u (block p (size_of_nlpm E)))" using box_new_goes [OF b, of A u] by simp
  also have "to A w1 (both u (block p (size_of_nlpm E))) (w1\<lparr>inner := (inner w1)\<lparr>non_local_ptr_manager_box := Some p\<rparr>\<rparr>) u"
    by (rule goes_inner) (use box_new_Some [OF b] in \<open>simp add: shaped_def same_tables_def inner_bytes_def manager_box_def\<close>)
  also have "to A (w1\<lparr>inner := (inner w1)\<lparr>non_local_ptr_manager_box := Some p\<rparr>\<rparr>) u w' u" unfolding w' by (rule set_is_allocating_goes)
  finally show ?thesis .
qed

lemma nlpm_slow_path_goes:
  assumes "nlpm_slow_path E ops w = Some w'"
  shows "to A w u w' u"
proof -
  define w0 where "w0 = (if is_destructor_registered (inner w) then w else register_destructor w)"
  have "to A w u w0 u"
    unfolding w0_def register_destructor_def
    by (auto intro!: goes_flags simp: shaped_def same_tables_def inner_bytes_def [abs_def])
  also have "to A w0 u w' u"
  proof (cases "size_of_nlpm E = 0")
    case True
    with assms have "w' = w0\<lparr>inner := (inner w0)\<lparr>non_local_ptr_manager_box := Some (align_of_nlpm E)\<rparr>\<rparr>"
      by (simp add: nlpm_slow_path_def w0_def Let_def)
    then show ?thesis
      using True by (auto intro!: goes_inner simp: shaped_def same_tables_def inner_bytes_def manager_box_def split: option.splits)
  next
    case nz: False
    show ?thesis
    proof (cases "maybe_state w0")
      case (Some c)
      with assms nz have "box_nlpm E ops w0 = Some w'" by (simp add: nlpm_slow_path_def w0_def Let_def)
      then show ?thesis by (rule box_nlpm_goes)
    next
      case None
      obtain r w1 where r: "uncounted E w0 = (r, w1)" by fastforce
      with assms nz None obtain w2 where r0: "r \<noteq> 0" and b: "box_nlpm E ops (w1\<lparr>maybe_state := Some [from_region r]\<rparr>) = Some w2"
        and w': "w' = op_handle_state ops (the (maybe_state w2)) (w2\<lparr>maybe_state := None\<rparr>)"
        by (auto simp: nlpm_slow_path_def w0_def Let_def split: if_splits)
      let ?w1 = "w1\<lparr>maybe_state := Some [from_region r]\<rparr>"
      have src: "region_source E False w0 = (r, w1)" using r by (simp add: region_source_def)
      obtain q where q: "w1 = w0\<lparr>proc := q\<rparr>" using r by (auto simp: uncounted_def split: prod.splits)
      show ?thesis
        unfolding goes_def
      proof
        assume H: "holds E M P A w0 u"
        have H1: "holds E M P A ?w1 u"
        proof (cases "panicked w0")
          case False
          then have "own E M P A w0 u" using H None by (simp add: holds_def chain_now_def)
          from region_source_facts(1) [OF this src] r0 show ?thesis using holds_env [OF H] by (simp add: holds_def chain_now_def)
        qed (use holds_env [OF H] in \<open>simp add: holds_def q\<close>)
        note h = goesD [OF box_nlpm_goes [OF b] H1]
        have c: "panicked w2 \<or> (\<exists>s d. maybe_state w2 = Some (s # d))"
          using h by (auto simp: follows_def chain_grown_def split: if_splits option.splits list.splits)
        then have "holds E M P (the (maybe_state w2) @ A) (w2\<lparr>maybe_state := None\<rparr>) u"
          using h by (auto simp: holds_def chain_now_def)
        moreover have "the (maybe_state w2) \<noteq> [] \<or> panicked (w2\<lparr>maybe_state := None\<rparr>)" using c by auto
        ultimately have k: "follows (w2\<lparr>maybe_state := None\<rparr>) w'" "holds E M P A w' u"
          using handle [of "the (maybe_state w2)" "w2\<lparr>maybe_state := None\<rparr>" A u] by (simp_all add: w')
        have "follows w0 w'"
          using h k(1) None by (auto simp: follows_def q chain_grown_def split: if_splits)
        with k(2) show "follows w0 w' \<and> holds E M P A w' u" by simp
      qed
    qed
  qed
  finally show ?thesis .
qed

lemma get_or_init_goes:
  assumes "get_or_init_non_local_ptr_manager E ops w = Some (p, w')"
  shows "to A w u w' u"
  using assms nlpm_slow_path_goes [of w w' A u]
  by (auto simp: get_or_init_non_local_ptr_manager_def split: option.splits bind_splits)

lemma get_common_chunk_table_goes:
  assumes "get_common_chunk_table ops w = Some w'"
  shows "to A w u w' u" and "common_chunk_table (inner w') \<noteq> None"
proof -
  show "common_chunk_table (inner w') \<noteq> None"
    using assms by (auto simp: get_common_chunk_table_def split: if_splits prod.splits option.splits)
  show "to A w u w' u"
  proof (cases "common_chunk_table (inner w) \<noteq> None")
    case True
    with assms show ?thesis by (simp add: get_common_chunk_table_def)
  next
    case False
    with assms obtain p w1 where b: "box_new ops (COMMON_SIZE_TABLE_LEN * size_of_vec) w = (Some p, w1)"
      and w': "w' = w1\<lparr>inner := (inner w1)\<lparr>common_chunk_table := Some (p, replicate COMMON_SIZE_TABLE_LEN new_vec)\<rparr>\<rparr>"
      by (auto simp: get_common_chunk_table_def split: prod.splits option.splits)
    have "to A w u w1 (both u (block p (COMMON_SIZE_TABLE_LEN * size_of_vec)))" using box_new_goes [OF b, of A u] by simp
    also have "to A w1 (both u (block p (COMMON_SIZE_TABLE_LEN * size_of_vec))) w' u"
      unfolding w' by (rule goes_inner) (simp add: shaped_def same_tables_def inner_bytes_def chunk_table_def)
    finally show ?thesis .
  qed
qed

lemma get_large_chunk_table_goes:
  assumes "get_large_chunk_table ops w = Some w'"
  shows "to A w u w' u" and "large_chunk_table (inner w') \<noteq> None"
proof -
  show "large_chunk_table (inner w') \<noteq> None"
    using assms by (auto simp: get_large_chunk_table_def split: if_splits prod.splits option.splits)
  show "to A w u w' u"
  proof (cases "large_chunk_table (inner w) \<noteq> None")
    case True
    with assms show ?thesis by (simp add: get_large_chunk_table_def)
  next
    case False
    with assms obtain p w1 where b: "box_new ops (REAL_NUMBER_OF_LARGE_OBJECT_VECTORS * size_of_vec) w = (Some p, w1)"
      and w': "w' = w1\<lparr>inner := (inner w1)\<lparr>large_chunk_table := Some (p, replicate REAL_NUMBER_OF_LARGE_OBJECT_VECTORS new_vec)\<rparr>\<rparr>"
      by (auto simp: get_large_chunk_table_def split: prod.splits option.splits)
    have "to A w u w1 (both u (block p (REAL_NUMBER_OF_LARGE_OBJECT_VECTORS * size_of_vec)))" using box_new_goes [OF b, of A u] by simp
    also have "to A w1 (both u (block p (REAL_NUMBER_OF_LARGE_OBJECT_VECTORS * size_of_vec))) w' u"
      unfolding w' by (rule goes_inner) (simp add: shaped_def same_tables_def inner_bytes_def chunk_table_def)
    finally show ?thesis .
  qed
qed

end

end
