(* ===== verification/OwnSlowPaths.thy ===== *)
theory OwnSlowPaths
  imports OwnObjects
begin

text \<open>
  Pointers that come back from other threads, and the slow paths, which cut a chunk.
\<close>

section \<open>Incoming pointers\<close>

lemma incoming_simps [simp]:
  "incoming [] a = 0"
  "incoming (d # ds) a = occ (data_ptr d) (slot_size (is_common (data_offset d)) (slot_idx (data_offset d))) a + incoming ds a"
  "incoming (ds @ es) a = incoming ds a + incoming es a"
  by (simp_all add: incoming_def)

lemma chunks_count_one [simp]: "chunks_count [p] n = occ p n"
  by (simp add: fun_eq_iff)

lemma incoming_mset: "mset ds = mset es \<Longrightarrow> incoming ds a = incoming es a"
  unfolding incoming_def by (rule sum_list_mset)

lemma own_nl:
  assumes o: "own E M P c w u" and "\<And>a. incoming (P n) a + u' False a \<le> incoming (P (nl w)) a + u False a" and "\<And>a. u' True a \<le> u True a"
  shows "own E M P c (w\<lparr>nl := n\<rparr>) u'"
proof (rule own_le [OF o])
  show "bytes E P c (w\<lparr>nl := n\<rparr>) u' k a \<le> bytes E P c w u k a" for k a
    using assms(2) [of a] assms(3) [of a] by (cases k) (simp_all add: bytes_def live_def)
qed (use o in \<open>simp_all add: own_def live_def\<close>)

context owning
begin

lemma return_ptr_goes:
  assumes "return_ptr ops d w = Some w'"
  shows "to A w (both u (in_regions (occ (data_ptr d) (slot_size (is_common (data_offset d)) (slot_idx (data_offset d)))))) w' u"
proof (rule goesI2)
  let ?i = "slot_idx (data_offset d)" and ?c = "is_common (data_offset d)"
  let ?u = "both u (in_regions (occ (data_ptr d) (slot_size ?c ?i)))"
  have run: "push_back_without_state ops (if ?c then common_objects ops ?i else large_objects ops ?i) (data_ptr d) w = Some w'"
    and i: "?i < length (if ?c then common_object_table (inner w) else large_object_table (inner w))"
    using assms by (auto simp: return_ptr_def Let_def split: if_splits)
  assume H: "holds E M P A w ?u"
  have p: "panicked w \<or> ?i < (if ?c then COMMON_SIZE_TABLE_LEN else REAL_NUMBER_OF_LARGE_OBJECT_VECTORS)"
    using H i by (auto simp: holds_def own_def shaped_def)
  have "to A w (both u (in_regions (chunks_count [data_ptr d] (slot_size ?c ?i)))) w' u"
  proof (cases ?c)
    case True
    then show ?thesis
      using push_back_without_state_goes [OF common_objects_slot [of ?i], of w "data_ptr d" w' A u] run p
      by (simp add: present_def common_objects_def)
  next
    case False
    then show ?thesis
      using push_back_without_state_goes [OF large_objects_slot [of ?i], of w "data_ptr d" w' A u] run p
      by (simp add: present_def large_objects_def)
  qed
  from goesD [OF this] H show "follows w w' \<and> holds E M P A w' u" by simp
qed

lemma return_ptrs_goes: "to A w (both u (in_regions (incoming ds))) (return_ptrs ops ds w) u"
proof (induction ds arbitrary: w)
  case Nil
  then show ?case by (simp add: goes_same [OF goes_refl])
next
  case (Cons d ds)
  let ?o = "in_regions (occ (data_ptr d) (slot_size (is_common (data_offset d)) (slot_idx (data_offset d))))"
  let ?w1 = "panic_unit w (return_ptr ops d w)"
  have "to A w (both (both u (in_regions (incoming ds))) ?o) ?w1 (both u (in_regions (incoming ds)))"
  proof (cases "return_ptr ops d w")
    case None
    then show ?thesis by (intro goes_panicked) (simp add: panic_unit_def)
  next
    case (Some w1)
    then show ?thesis using return_ptr_goes [OF Some] by (simp add: panic_unit_def)
  qed
  also have "to A ?w1 (both u (in_regions (incoming ds))) (return_ptrs ops ds ?w1) u" by (rule Cons.IH)
  finally have "to A w (both (both u (in_regions (incoming ds))) ?o) (return_ptrs ops (d # ds) w) u" by simp
  then show ?case by (rule goes_less) (simp add: in_regions_def)
qed

lemma return_all_goes: "to A w (both u (in_regions (incoming (concat dss)))) (fold (return_ptrs ops) dss w) u"
proof (induction dss arbitrary: w)
  case Nil
  then show ?case by (simp add: goes_same [OF goes_refl])
next
  case (Cons ds dss)
  let ?r = "in_regions (incoming (concat dss))"
  have "to A w (both (both u ?r) (in_regions (incoming ds))) (return_ptrs ops ds w) (both u ?r)" by (rule return_ptrs_goes)
  also have "to A (return_ptrs ops ds w) (both u ?r) (fold (return_ptrs ops) (ds # dss) w) u"
    unfolding fold_simps by (rule Cons.IH)
  finally show ?case by (rule goes_less) (simp add: in_regions_def)
qed

lemma check_non_local_ptrs_goes: "to A w u (check_non_local_ptrs E ops w) u"
proof (rule goesI2)
  assume H: "holds E M P A w u"
  have "env_ok E M P \<Longrightarrow> to A w u (check_non_local_ptrs E ops w) u"
  proof (cases "non_local_ptr_manager_box (inner w)")
    case (Some p)
    assume "env_ok E M P"
    then obtain dss n where run: "nl_check E (return_ptrs ops) w = fold (return_ptrs ops) dss (w\<lparr>nl := n\<rparr>)"
      and m: "mset (concat dss) + mset (P n) = mset (P (nl w))"
      unfolding env_ok_def manager_ok_def by blast
    have "to A w u (w\<lparr>nl := n\<rparr>) (both u (in_regions (incoming (concat dss))))"
    proof (rule goesI)
      assume o: "own E M P (chain_now w @ A) w u" and np: "\<not> panicked w"
      have i: "incoming (concat dss @ P n) a = incoming (P (nl w)) a" for a by (rule incoming_mset) (simp add: m)
      have "incoming (P n) a + incoming (concat dss) a = incoming (P (nl w)) a" for a using i [of a] by simp
      then have "own E M P (chain_now w @ A) (w\<lparr>nl := n\<rparr>) (both u (in_regions (incoming (concat dss))))"
        by (intro own_nl [OF o]) (simp_all add: add.left_commute [of _ "u False _"] add.commute [of _ "u False _"])
      then show "follows w (w\<lparr>nl := n\<rparr>) \<and> own E M P (chain_now (w\<lparr>nl := n\<rparr>) @ A) (w\<lparr>nl := n\<rparr>) (both u (in_regions (incoming (concat dss))))"
        using np by (simp add: follows_def chain_now_def)
    qed simp
    also have "to A (w\<lparr>nl := n\<rparr>) (both u (in_regions (incoming (concat dss)))) (check_non_local_ptrs E ops w) u"
      using return_all_goes by (simp add: check_non_local_ptrs_def Some run)
    finally show ?thesis .
  qed (simp add: check_non_local_ptrs_def)
  from goesD [OF this [OF holds_env [OF H]] H] show "follows w (check_non_local_ptrs E ops w) \<and> holds E M P A (check_non_local_ptrs E ops w) u" .
qed

end

section \<open>The slow paths\<close>

lemma goes_cells [simp]: "goes E M P A w u (w\<lparr>cells := m\<rparr>) u"
proof -
  have "own E M P c (w\<lparr>cells := m\<rparr>) u = own E M P c w u" for c by (simp add: own_def bytes_def [abs_def] live_def)
  then show ?thesis by (auto simp: goes_def holds_def follows_def chain_now_def)
qed

text \<open>The two slow paths have one shape.\<close>

definition slow_path :: "('k, 'n) env \<Rightarrow> ('k, 'n) world tla_ops \<Rightarrow> bool \<Rightarrow> (('k, 'n) world \<Rightarrow> addr option \<times> ('k, 'n) world) \<Rightarrow>
    (('k, 'n) world \<Rightarrow> ('k, 'n) world option) \<Rightarrow> (addr, ('k, 'n) world) vec_env \<Rightarrow> (addr, ('k, 'n) world) vec_env \<Rightarrow>
    usize \<Rightarrow> usize \<Rightarrow> nat \<Rightarrow> (addr \<Rightarrow> addr \<Rightarrow> metadata \<Rightarrow> metadata) \<Rightarrow>
    (('k, 'n) world \<Rightarrow> (addr option \<times> ('k, 'n) world) option) \<Rightarrow> ('k, 'n) world \<Rightarrow> (addr option \<times> ('k, 'n) world) option" where
  "slow_path E ops b pop table T V sz n k put_md get w =
     (let w0 = (if \<not> b \<and> should_auto_check E then check_non_local_ptrs E ops w else w)
      in case (if \<not> b \<and> should_auto_check E then pop w0 else (None, w0)) of
          (Some p, w1) \<Rightarrow> Some (Some p, w1)
        | (None, w1) \<Rightarrow>
            (case get w1 of
               None \<Rightarrow> None
             | Some (None, w2) \<Rightarrow> Some (None, w2)
             | Some (Some chunk, w2) \<Rightarrow>
                 (case pop w2 of
                    (Some p, w3) \<Rightarrow> map_option (Pair (Some p)) (give_back E k chunk w3)
                  | (None, w3) \<Rightarrow>
                      Option.bind (table w3) (\<lambda>w4.
                      case vec_push (rounds ops) T chunk w4 of
                        None \<Rightarrow> None
                      | Some (False, w5) \<Rightarrow> Some (None, w5)
                      | Some (True, w5) \<Rightarrow>
                          (case fill_from_chunk (rounds ops) V sz n chunk w5 of
                             None \<Rightarrow> None
                           | Some (None, w6) \<Rightarrow> Some (None, w6)
                           | Some (Some cur, w6) \<Rightarrow>
                               map_option (\<lambda>(m, w7). (Some cur, w7\<lparr>cells := put_md m cur (cells w7)\<rparr>))
                                 (if b then Some (cur, w6) else get_or_init_non_local_ptr_manager E ops w6))))))"

lemma slow_paths:
  "alloc_common_slow E ops b sz get =
     (let i = common_size_to_index (word_of_nat sz)
      in slow_path E ops b (pop_common i) (get_common_chunk_table ops) (common_chunks_vec ops i) (common_objects ops i)
           sz COMMON_CHUNK_SIZE 1 (\<lambda>m. init_metadata_for_common_chunk m (new_for_common_chunk i)) get)"
  "alloc_large_slow E ops b id' sz get =
     (let i = get_idx_by_id id'
      in slow_path E ops b (pop_large i) (get_large_chunk_table ops) (large_chunks_vec ops i) (large_objects ops i)
           sz LARGE_CHUNK_SIZE COMMON_CHUNKS_IN_LARGE_CHUNK (\<lambda>m. init_metadata_for_large_chunk m (new_for_large_chunk i)) get)"
  unfolding alloc_common_slow_def [abs_def] alloc_large_slow_def [abs_def] slow_path_def [abs_def] Let_def by (rule refl)+

lemma pops_panicked:
  "pop_common i w = (r, w') \<Longrightarrow> panicked w' = panicked w" "pop_large i w = (r, w') \<Longrightarrow> panicked w' = panicked w"
  by (auto simp: pop_common_def pop_large_def split: prod.splits)

context owning
begin

lemma new_chunk_goes:
  assumes T: "vec_slot 8 getT putT (\<lambda>_ _. 0) (\<lambda>_. True) hereT" "\<And>w w'. table w = Some w' \<Longrightarrow> (\<forall>u. to A w u w' u) \<and> present hereT w'"
    and V: "vec_slot 8 getV putV (\<lambda>xs. chunks_count xs sz) (\<lambda>_. True) (\<lambda>_. hereV)" "hereV"
    and sz: "0 < sz" "sz \<le> n"
    and run: "Option.bind (table w) (\<lambda>w4.
        case vec_push (rounds ops) (vec_of ops 8 getT putT) q w4 of
          None \<Rightarrow> None
        | Some (False, w5) \<Rightarrow> Some (None, w5)
        | Some (True, w5) \<Rightarrow>
            (case fill_from_chunk (rounds ops) (vec_of ops 8 getV putV) sz n q w5 of
               None \<Rightarrow> None
             | Some (None, w6) \<Rightarrow> Some (None, w6)
             | Some (Some cur, w6) \<Rightarrow>
                 map_option (\<lambda>(m, w7). (Some cur, w7\<lparr>cells := put_md m cur (cells w7)\<rparr>))
                   (if b then Some (cur, w6) else get_or_init_non_local_ptr_manager E ops w6))) = Some (r, w')"
  shows "to A w (both u (in_regions (occ q n))) w' (case r of None \<Rightarrow> u | Some p \<Rightarrow> both u (in_regions (occ p sz)))"
proof (rule goesI2)
  let ?u = "both u (in_regions (occ q n))"
  assume H: "holds E M P A w ?u"
  obtain w4 where t: "table w = Some w4" using run by (auto simp: bind_eq_Some_conv)
  note k4 = goesD [OF conjunct1 [OF T(2) [OF t], rule_format] H]
  obtain ok w5 where p: "vec_push (rounds ops) (vec_of ops 8 getT putT) q w4 = Some (ok, w5)"
    using run t by (auto split: option.splits)
  have "to A w4 ?u w5 ?u"
  proof (rule goes_less)
    show "to A w4 (both ?u (in_regions (\<lambda>_. 0))) w5 ?u"
    proof (rule goes_same)
      show "to A w4 (both ?u (in_regions (\<lambda>_. 0))) w5 (if ok then ?u else both ?u (in_regions (\<lambda>_. 0)))"
        using extend_by_goes [OF T(1) conjunct2 [OF T(2) [OF t]], of "[q]"] p by (simp add: vec_push_def)
    qed simp
  qed simp
  note k5 = goes_step [OF k4 this]
  show "follows w w' \<and> holds E M P A w' (case r of None \<Rightarrow> u | Some p \<Rightarrow> both u (in_regions (occ p sz)))"
  proof (cases ok)
    case False
    with run t p have "r = None" "w' = w5" by simp_all
    with goes_step [OF k5 goes_same [OF goes_refl, of u]] show ?thesis by simp
  next
    case True
    then obtain c w6 where f: "fill_from_chunk (rounds ops) (vec_of ops 8 getV putV) sz n q w5 = Some (c, w6)"
      using run t p by (auto split: option.splits)
    have "present (\<lambda>_. hereV) w5" using V(2) by (simp add: present_def)
    note k6 = goes_step [OF k5 fill_goes [OF V(1) this sz f]]
    show ?thesis
    proof (cases c)
      case None
      with run t p True f have "r = None" "w' = w6" by simp_all
      with k6 None show ?thesis by simp
    next
      case (Some cur)
      obtain m w7 where m: "(if b then Some (cur, w6) else get_or_init_non_local_ptr_manager E ops w6) = Some (m, w7)"
        and r: "r = Some cur" "w' = w7\<lparr>cells := put_md m cur (cells w7)\<rparr>"
        using run t p True f Some by (auto split: if_splits)
      have "to A w6 (both u (in_regions (occ cur sz))) w7 (both u (in_regions (occ cur sz)))"
        using m get_or_init_goes by (auto split: if_splits)
      also have "to A w7 (both u (in_regions (occ cur sz))) w' (both u (in_regions (occ cur sz)))" by (simp add: r)
      finally show ?thesis using goes_step [OF k6 [unfolded Some option.case]] by (simp add: r)
    qed
  qed
qed

lemma slow_path_goes:
  assumes G: "gets E M P A n get" and n: "n = k * COMMON_CHUNK_SIZE" "n dvd REGION_SIZE" "0 < k"
    and pop: "\<And>w r w' u. pop w = (r, w') \<Longrightarrow> to A w u w' (case r of None \<Rightarrow> u | Some p \<Rightarrow> both u (in_regions (occ p sz)))"
      "\<And>w r w'. pop w = (r, w') \<Longrightarrow> panicked w' = panicked w"
    and T: "vec_slot 8 getT putT (\<lambda>_ _. 0) (\<lambda>_. True) hereT" "\<And>w w'. table w = Some w' \<Longrightarrow> (\<forall>u. to A w u w' u) \<and> present hereT w'"
    and V: "vec_slot 8 getV putV (\<lambda>xs. chunks_count xs sz) (\<lambda>_. True) (\<lambda>_. hereV)" "hereV"
    and sz: "0 < sz" "sz \<le> n"
    and run: "slow_path E ops b pop table (vec_of ops 8 getT putT) (vec_of ops 8 getV putV) sz n k put_md get w = Some (r, w')"
  shows "to A w u w' (case r of None \<Rightarrow> u | Some p \<Rightarrow> both u (in_regions (occ p sz)))"
proof (rule goesI2)
  assume H: "holds E M P A w u"
  define w0 where "w0 = (if \<not> b \<and> should_auto_check E then check_non_local_ptrs E ops w else w)"
  have "to A w u w0 u" unfolding w0_def by (simp add: check_non_local_ptrs_goes)
  note h0 = goesD [OF this H]
  obtain x w1 where x: "(if \<not> b \<and> should_auto_check E then pop w0 else (None, w0)) = (x, w1)" by (metis surj_pair)
  have "to A w0 u w1 (case x of None \<Rightarrow> u | Some p \<Rightarrow> both u (in_regions (occ p sz)))"
    using x pop(1) [of w0 x w1 u] by (auto split: if_splits)
  note h1 = goes_step [OF h0 this]
  note run = run [unfolded slow_path_def Let_def, folded w0_def, unfolded x]
  show "follows w w' \<and> holds E M P A w' (case r of None \<Rightarrow> u | Some p \<Rightarrow> both u (in_regions (occ p sz)))"
  proof (cases x)
    case (Some p)
    with run h1 show ?thesis by auto
  next
    case None
    then have k1: "follows w w1 \<and> holds E M P A w1 u" using h1 by simp
    from run None obtain y w2 where y: "get w1 = Some (y, w2)" by (auto split: option.splits)
    show ?thesis
    proof (cases y)
      case n: None
      with run None y have "r = None" "w' = w2" by simp_all
      with G y n k1 show ?thesis unfolding gets_def by (fastforce intro: follows_trans)
    next
      case (Some q)
      then have k2: "follows w w2 \<and> holds E M P A w2 (both u (in_regions (occ q n)))"
        and al: "panicked w2 \<or> aligned_chunk n q"
        using G y k1 unfolding gets_def by (fastforce intro: follows_trans)+
      obtain z w3 where z: "pop w2 = (z, w3)" by fastforce
      note k3 = goes_step [OF k2 pop(1) [OF z]]
      show ?thesis
      proof (cases z)
        case (Some p)
        obtain w4 where g: "give_back E k q w3 = Some w4" and r: "r = Some p" "w' = w4"
          using run None y \<open>y = Some q\<close> z Some by auto
        have "panicked w3 \<or> aligned_chunk (k * COMMON_CHUNK_SIZE) q" using al pop(2) [OF z] by (simp add: n(1))
        note gb = give_back_goes [OF g this n(2) [unfolded n(1)] n(3), of A "both u (in_regions (occ p sz))"]
        have "to A w3 (both (both u (in_regions (occ q n))) (in_regions (occ p sz))) w' (both u (in_regions (occ p sz)))"
          unfolding r(2) by (rule goes_less [OF gb]) (simp add: n(1))
        from goes_step [OF k3 [unfolded Some option.case] this] show ?thesis by (simp add: r)
      next
        case zn: None
        note run' = run [unfolded None prod.case option.case y \<open>y = Some q\<close> z zn]
        from goes_step [OF k3 [unfolded zn option.case] new_chunk_goes [where table = table and put_md = put_md and b = b and getT = getT and putT = putT
            and getV = getV and putV = putV, OF T V sz run']]
        show ?thesis .
      qed
    qed
  qed
qed

lemma block_good: "good_size cl sz \<Longrightarrow> cl \<noteq> ExtraLarge \<Longrightarrow> block p sz = in_regions (occ p sz)"
  using block_regions [of sz p] by (simp add: good_size_def fun_eq_iff)

lemma alloc_common_slow_goes:
  assumes run: "alloc_common_slow E ops b sz get w = Some (r, w')" and sz: "good_size Common sz"
    and G: "gets E M P A COMMON_CHUNK_SIZE get"
  shows "to A w u w' (case r of None \<Rightarrow> u | Some p \<Rightarrow> both u (block p sz))"
proof -
  let ?i = "common_size_to_index (word_of_nat sz)"
  have s: "0 < sz" "size_class_define sz = Common" "recommended_size sz = sz" using sz by (simp_all add: good_size_def)
  note i = common_slot [OF s(1,2)]
  have slot: "slot_size True ?i = sz" using i(2) s(3) by simp
  have le: "sz \<le> COMMON_CHUNK_SIZE" using s(2) by (simp add: class_iff layout_simps)
  have T: "(\<forall>u. to A w u w' u) \<and> present (\<lambda>x. ?i < COMMON_SIZE_TABLE_LEN \<and> common_chunk_table x \<noteq> None) w'"
    if "get_common_chunk_table ops w = Some w'" for w w'
    using get_common_chunk_table_goes [OF that] i(1) by (simp add: present_def)
  show ?thesis
    unfolding block_good [OF sz, simplified]
    by (rule slow_path_goes [OF G _ _ _ pop_common_goes [OF _ i(1), unfolded slot] pops_panicked(1) common_chunks_slot T
          common_objects_slot [of ?i, unfolded slot] i(1) s(1) le
          run [unfolded slow_paths Let_def common_chunks_vec_def common_objects_def]])
      (simp_all add: layout_simps)
qed

lemma alloc_large_slow_goes:
  assumes run: "alloc_large_slow E ops b id' sz get w = Some (r, w')"
    and sz: "good_size Large sz" and G: "gets E M P A LARGE_CHUNK_SIZE get"
    and i: "get_idx_by_id id' < REAL_NUMBER_OF_LARGE_OBJECT_VECTORS" and slot: "slot_size False (get_idx_by_id id') = sz"
  shows "to A w u w' (case r of None \<Rightarrow> u | Some p \<Rightarrow> both u (block p sz))"
proof -
  let ?i = "get_idx_by_id id'"
  have s: "0 < sz" "size_class_define sz = Large" "recommended_size sz = sz" using sz by (simp_all add: good_size_def)
  have le: "sz \<le> LARGE_CHUNK_SIZE" using s(2) by (simp add: class_iff layout_simps)
  have T: "(\<forall>u. to A w u w' u) \<and> present (\<lambda>x. ?i < REAL_NUMBER_OF_LARGE_OBJECT_VECTORS \<and> large_chunk_table x \<noteq> None) w'"
    if "get_large_chunk_table ops w = Some w'" for w w'
    using get_large_chunk_table_goes [OF that] i by (simp add: present_def)
  show ?thesis
    unfolding block_good [OF sz, simplified]
    by (rule slow_path_goes [OF G _ _ _ pop_large_goes [OF _ i, unfolded slot] pops_panicked(2) large_chunks_slot T
          large_objects_slot [of ?i, unfolded slot] i s(1) le
          run [unfolded slow_paths Let_def large_chunks_vec_def large_objects_def]])
      (simp_all add: layout_simps)
qed

end

end
