(* ===== verification/OwnChains.thy ===== *)
theory OwnChains
  imports OwnSlowPaths
begin

text \<open>
  Chains of states in the world: they only grow, and what is taken from them, or through the chunk
  manager, is owned by nobody else.
\<close>

section \<open>A chain only grows\<close>

definition grows :: "State list \<Rightarrow> State list \<Rightarrow> bool" where
  "grows c d \<longleftrightarrow> length c \<le> length d \<and> (\<forall>i<length c. grown (c ! i) (d ! i))"

lemma grows_refl [simp]: "grows c c" by (simp add: grows_def)

lemma grown_trans: "grown a b \<Longrightarrow> grown b c \<Longrightarrow> grown a c"
  by (simp add: grown_def)

lemma grows_trans: "grows a b \<Longrightarrow> grows b c \<Longrightarrow> grows a c"
  by (auto simp: grows_def intro: grown_trans less_le_trans)

lemma grows_update: "(i < length c \<Longrightarrow> grown (c ! i) s) \<Longrightarrow> grows c (c[i := s])"
  by (cases "i < length c") (auto simp: grows_def nth_list_update)

lemma grows_append [simp]: "grows c (c @ d)"
  by (simp add: grows_def nth_append)

lemma grows_Cons: "grown s t \<Longrightarrow> grows c d \<Longrightarrow> grows (s # c) (t # d)"
  by (auto simp: grows_def nth_Cons split: nat.splits)

lemma grows_take: "grows (drop i c) d \<Longrightarrow> grows c (take i c @ d)"
proof (cases "i \<le> length c")
  case True
  assume g: "grows (drop i c) d"
  show ?thesis
    unfolding grows_def
  proof (intro conjI allI impI)
    show "length c \<le> length (take i c @ d)" using g True unfolding grows_def by auto
    fix j assume j: "j < length c"
    show "grown (c ! j) ((take i c @ d) ! j)"
    proof (cases "j < i")
      case False
      then have "j - i < length (drop i c)" using j True by simp
      with g have "grown (drop i c ! (j - i)) (d ! (j - i))" by (simp add: grows_def)
      then show ?thesis using False True j by (simp add: nth_append)
    qed (use True in \<open>simp add: nth_append\<close>)
  qed
qed simp

text \<open>An operation on a chain keeps what the source of regions keeps, and the chain grows.\<close>

definition keeps :: "('w \<Rightarrow> bool) \<Rightarrow> 'w get_chunk \<Rightarrow> bool" where
  "keeps Q g \<longleftrightarrow> (\<forall>i c w r c' w'. g i c w = Some (r, c', w') \<longrightarrow> Q w \<longrightarrow> Q w' \<and> grows c c')"

lemma keepsD: "keeps Q g \<Longrightarrow> g i c w = Some (r, c', w') \<Longrightarrow> Q w \<Longrightarrow> Q w' \<and> grows c c'"
  unfolding keeps_def by blast

lemma try_alloc_size_grows: "try_alloc_size cl sz c = Some (p, c') \<Longrightarrow> grows c c'"
proof (induction c arbitrary: c')
  case (Cons s c)
  then show ?case
    by (cases cl)
      (auto split: option.splits simp: grown_def dest: take_slot_length intro!: grows_Cons)
qed simp

lemma alloc_size_keeps:
  assumes L: "keeps Q getL" and C: "keeps Q getC" and run: "alloc_size getL getC cl sz i c w = Some (r, c', w')" and Q: "Q w"
  shows "Q w' \<and> grows c c'"
proof (cases "try_alloc_size cl sz (drop i c)")
  case (Some q)
  with run Q show ?thesis by (cases q) (auto simp: alloc_size_def dest: try_alloc_size_grows intro: grows_take)
next
  case None
  with run have slow: "alloc_size_slow getL getC cl sz i c w = Some (r, c', w')" by (simp add: alloc_size_def)
  show ?thesis
  proof (cases cl)
    case Common
    with slow obtain r1 c1 w1 where g: "getC i c w = Some (r1, c1, w1)" by (auto simp: alloc_size_slow_def split: option.splits)
    note k = keepsD [OF C g Q]
    with slow Common g show ?thesis
      by (auto simp: alloc_size_slow_def Let_def grown_def split: option.splits prod.splits intro!: grows_trans [OF conjunct2 [OF k]] grows_update)
  next
    case Large
    with slow obtain r1 c1 w1 where g: "getL i c w = Some (r1, c1, w1)" by (auto simp: alloc_size_slow_def split: option.splits)
    note k = keepsD [OF L g Q]
    with slow Large g show ?thesis
      by (auto simp: alloc_size_slow_def Let_def grown_def split: option.splits prod.splits intro!: grows_trans [OF conjunct2 [OF k]] grows_update)
  next
    case ExtraLarge
    with slow show ?thesis by (simp add: alloc_size_slow_def)
  qed
qed

lemma new_state_keeps:
  assumes A: "\<And>w. Q w \<Longrightarrow> Q (snd (areg w))" and L: "keeps Q getL" and C: "keeps Q getC"
    and run: "alloc_new_state_in areg sos getL getC c w = Some (r, c', w')" and Q: "Q w"
  shows "Q w' \<and> grows c c'"
proof -
  obtain q w1 where q: "areg w = (q, w1)" by fastforce
  with A [OF Q] have Q1: "Q w1" by simp
  show ?thesis
  proof (cases "q = 0")
    case False
    show ?thesis
    proof (cases "try_alloc_size (size_class_define sos) sos c")
      case (Some pc)
      with run q False Q1 show ?thesis
        by (cases pc) (auto simp: alloc_new_state_in_def dest: try_alloc_size_grows)
    next
      case None
      with run q False obtain r1 c2 w2
        where a: "alloc_size getL getC (size_class_define sos) sos 0 [from_region q] w1 = Some (r1, c2, w2)"
        by (auto simp: alloc_new_state_in_def split: option.splits)
      from alloc_size_keeps [OF L C a Q1] run q False None a show ?thesis
        by (auto simp: alloc_new_state_in_def split: option.splits)
    qed
  qed (use run q Q1 in \<open>auto simp: alloc_new_state_in_def\<close>)
qed

lemma free_chunk_ops_keep:
  assumes A: "\<And>w. Q w \<Longrightarrow> Q (snd (areg w))"
  shows "keeps Q (get_free_large_chunk_owned areg sos n) \<and> keeps Q (get_free_common_chunk areg sos n)"
proof (induction n)
  case 0
  show ?case by (simp add: keeps_def)
next
  case (Suc n)
  let ?L = "get_free_large_chunk_owned areg sos n" and ?C = "get_free_common_chunk areg sos n"
  from Suc have L: "keeps Q ?L" and C: "keeps Q ?C" by simp_all
  have "keeps Q (get_free_large_chunk_step areg sos ?L ?C)"
    unfolding keeps_def
  proof (intro allI impI)
    fix i c w r c' w' assume run: "get_free_large_chunk_step areg sos ?L ?C i c w = Some (r, c', w')" and Q: "Q w"
    show "Q w' \<and> grows c c'"
    proof (cases "free_large_chunks (c ! i) = [] \<and> \<not> Suc i < length c")
      case True
      with run obtain r1 c1 w1 where a: "alloc_new_state_in areg sos ?L ?C c w = Some (r1, c1, w1)"
        by (auto simp: get_free_large_chunk_step_def Let_def split: option.splits)
      note k = new_state_keeps [OF A L C a Q]
      show ?thesis
      proof (cases r1)
        case None
        with run True a k show ?thesis by (auto simp: get_free_large_chunk_step_def)
      next
        case (Some st)
        with run True a have "?L (Suc i) (c1 @ [st]) w1 = Some (r, c', w')" by (simp add: get_free_large_chunk_step_def)
        from keepsD [OF L this] k show ?thesis by (meson grows_append grows_trans)
      qed
    qed (use run Q keepsD [OF L, of "Suc i" c w r c' w'] in
        \<open>auto simp: get_free_large_chunk_step_def Let_def grown_def split: if_splits intro!: grows_update\<close>)
  qed
  moreover have "keeps Q (get_free_common_chunk_step areg sos ?L ?C)"
    unfolding keeps_def
  proof (intro allI impI)
    fix i c w r c' w' assume run: "get_free_common_chunk_step areg sos ?L ?C i c w = Some (r, c', w')" and Q: "Q w"
    show "Q w' \<and> grows c c'"
    proof (cases "free_common_chunks (c ! i) = [] \<and> \<not> Suc i < length c")
      case True
      with run obtain r1 c1 w1 where a: "?L i c w = Some (r1, c1, w1)"
        by (auto simp: get_free_common_chunk_step_def Let_def split: option.splits)
      note k = keepsD [OF L a Q]
      show ?thesis
      proof (cases r1)
        case None
        with run True a k show ?thesis by (auto simp: get_free_common_chunk_step_def)
      next
        case (Some jp)
        obtain j p where jp: "jp = (j, p)" by fastforce
        show ?thesis
        proof (cases "free_common_chunks (c1 ! j) = []")
          case e: True
          with run True a Some jp k show ?thesis
            by (auto simp: get_free_common_chunk_step_def Let_def grown_def intro!: grows_trans [OF conjunct2 [OF k]] grows_update)
        next
          case False
          with run True a Some jp have "?C j c1 w1 = Some (r, c', w')" by (simp add: get_free_common_chunk_step_def Let_def)
          from keepsD [OF C this] k show ?thesis by (meson grows_trans)
        qed
      qed
    qed (use run Q keepsD [OF C, of "Suc i" c w r c' w'] in
        \<open>auto simp: get_free_common_chunk_step_def Let_def grown_def split: if_splits intro!: grows_update\<close>)
  qed
  ultimately show ?case by (simp add: case_prod_unfold)
qed

lemma state_alloc_size_keeps:
  assumes "\<And>w. Q w \<Longrightarrow> Q (snd (areg w))" and "state_alloc_size areg sos n cl sz i c w = Some (r, c', w')" and "Q w"
  shows "Q w' \<and> grows c c'"
  using alloc_size_keeps [OF conjunct1 conjunct2, OF free_chunk_ops_keep free_chunk_ops_keep, of Q areg areg sos n sos n cl sz i c w r c' w']
    assms by (simp add: state_alloc_size_def)

lemma get_free_large_chunk_keeps:
  assumes "\<And>w. Q w \<Longrightarrow> Q (snd (areg w))" and "get_free_large_chunk areg sos n i c w = Some (r, c', w')" and "Q w"
  shows "Q w' \<and> grows c c'"
proof -
  obtain q where "get_free_large_chunk_owned areg sos n i c w = Some (q, c', w')"
    using assms(2) by (auto simp: get_free_large_chunk_def)
  with free_chunk_ops_keep [of Q areg sos n] assms(1,3) show ?thesis unfolding keeps_def by blast
qed

section \<open>Allocation from a chain in the world\<close>

lemma region_source_proc: "\<exists>p. snd (region_source E cnt w) = w\<lparr>proc := p\<rparr>"
  by (auto simp: region_source_def counted_def uncounted_def split: prod.splits)

lemma chain_world:
  fixes w :: "('k, 'n) world"
  assumes "state_alloc_size (region_source E cnt) sos n cl sz i c w = Some (r, c', w') \<or>
    get_free_large_chunk (region_source E cnt) sos n i c w = Some (r', c', w')"
  shows "\<exists>p. w' = w\<lparr>proc := p\<rparr>" and "grows c c'"
proof -
  let ?Q = "\<lambda>v. \<exists>p. v = w\<lparr>proc := p\<rparr>"
  have A: "?Q (snd (region_source E cnt v))" if "?Q v" for v
    using region_source_proc [of E cnt v] that by auto
  have Q: "?Q w" by (rule exI [of _ "proc w"]) simp
  have "?Q w' \<and> grows c c'"
    using assms state_alloc_size_keeps [of ?Q "region_source E cnt", OF A _ Q] get_free_large_chunk_keeps [of ?Q "region_source E cnt", OF A _ Q]
    by blast
  then show "\<exists>p. w' = w\<lparr>proc := p\<rparr>" and "grows c c'" by blast+
qed

lemma hold_plus: "hold (u True) (plus_block (u False) p n) = both u (in_regions (occ p n))"
  by (auto simp: hold_def plus_block_def in_regions_def fun_eq_iff)

lemma chain_alloc:
  assumes o: "own E M P (c @ A) w u" and c: "c \<noteq> []" and sz: "good_size (size_class_define sz) sz" "size_class_define sz \<noteq> ExtraLarge"
    and run: "state_alloc_size (region_source E cnt) (size_of_state E) n (size_class_define sz) sz 0 c w = Some (r, c', w')"
  shows "own E M P (c' @ A) w' (case r of None \<Rightarrow> u | Some p \<Rightarrow> both u (in_regions (occ p sz)))"
proof -
  have R: "chain_owned E M P (u True) A (c @ []) w (u False)" using o by (simp add: chain_owned_def hold_self)
  have "0 < length c" "0 < sz" "sz \<le> LARGE_SIZE_MAX" using c sz
    by (auto simp: good_size_def size_class_define_def layout_simps split: if_splits)
  from tla.state_alloc_size_gives [OF R this sz(1) run]
  have "chain_owned E M P (u True) A (c' @ []) w' (case r of None \<Rightarrow> u False | Some p \<Rightarrow> plus_block (u False) p sz)" by blast
  then show ?thesis by (cases r) (simp_all add: chain_owned_def hold_self hold_plus)
qed

lemma chain_large_chunk:
  assumes o: "own E M P (c @ A) w u" and c: "c \<noteq> []"
    and run: "get_free_large_chunk (region_source E cnt) (size_of_state E) n 0 c w = Some (r, c', w')"
  shows "own E M P (c' @ A) w' (case r of None \<Rightarrow> u | Some p \<Rightarrow> both u (in_regions (occ p LARGE_CHUNK_SIZE)))
    \<and> (case r of None \<Rightarrow> True | Some p \<Rightarrow> aligned_chunk LARGE_CHUNK_SIZE p)"
proof -
  have R: "chain_owned E M P (u True) A (c @ []) w (u False)" using o by (simp add: chain_owned_def hold_self)
  have "0 < length c" using c by simp
  from tla.get_free_large_chunk_gives [OF R this run]
  have "chain_owned E M P (u True) A (c' @ []) w' (case r of None \<Rightarrow> u False | Some p \<Rightarrow> plus_block (u False) p LARGE_CHUNK_SIZE)"
    and "case r of None \<Rightarrow> True | Some p \<Rightarrow> aligned_chunk LARGE_CHUNK_SIZE p" by blast+
  then show ?thesis by (cases r) (simp_all add: chain_owned_def hold_self hold_plus)
qed

section \<open>The chunk manager\<close>

lemma pop_chunks_count:
  "vec_pop v = (r, v') \<Longrightarrow> chunks_count (vec_elems v') n a + (case r of None \<Rightarrow> 0 | Some p \<Rightarrow> occ p n a) = chunks_count (vec_elems v) n a
    \<and> vec_ptr v' = vec_ptr v \<and> vec_cap v' = vec_cap v \<and> set (vec_elems v') \<subseteq> set (vec_elems v)
    \<and> (case r of None \<Rightarrow> True | Some p \<Rightarrow> p \<in> set (vec_elems v))"
  using chunks_count_pop [of "vec_elems v" n a]
  by (cases "vec_elems v = []") (auto simp: vec_pop_def vec_len_def dest: in_set_butlastD)

context owning
begin

lemma take_common_chunk_goes:
  assumes "try_get_common_chunk (chunk_manager (inner w)) = (r, cm)"
  shows "to A w u (w\<lparr>inner := (inner w)\<lparr>chunk_manager := cm\<rparr>\<rparr>) (case r of None \<Rightarrow> u | Some p \<Rightarrow> both u (in_regions (occ p COMMON_CHUNK_SIZE)))"
    and "shaped (inner w) \<Longrightarrow> r = Some p \<Longrightarrow> aligned_chunk COMMON_CHUNK_SIZE p"
proof -
  let ?cm = "chunk_manager (inner w)"
  obtain v where v: "vec_pop (cm_free_common_chunks ?cm) = (r, v)" "cm = ?cm\<lparr>cm_free_common_chunks := v\<rparr>"
    using assms by (auto simp: try_get_common_chunk_def split: prod.splits)
  note p = pop_chunks_count [OF v(1)]
  show "shaped (inner w) \<Longrightarrow> r = Some p \<Longrightarrow> aligned_chunk COMMON_CHUNK_SIZE p"
    using p [of COMMON_CHUNK_SIZE] by (simp add: shaped_def list_all_iff)
  show "to A w u (w\<lparr>inner := (inner w)\<lparr>chunk_manager := cm\<rparr>\<rparr>) (case r of None \<Rightarrow> u | Some p \<Rightarrow> both u (in_regions (occ p COMMON_CHUNK_SIZE)))"
  proof (rule goes_inner, intro conjI allI)
    assume s: "shaped (inner w)"
    then show "shaped ((inner w)\<lparr>chunk_manager := cm\<rparr>)" using p [of COMMON_CHUNK_SIZE] by (auto simp: shaped_def list_all_iff v(2))
    have "vec_block 8 v k a = vec_block 8 (cm_free_common_chunks ?cm) k a" for k a using p by (simp add: vec_block_def)
    then show "inner_bytes (size_of_nlpm E) ((inner w)\<lparr>chunk_manager := cm\<rparr>) k a
        + (case r of None \<Rightarrow> u | Some p \<Rightarrow> both u (in_regions (occ p COMMON_CHUNK_SIZE))) k a
        \<le> inner_bytes (size_of_nlpm E) (inner w) k a + u k a" for k a
      using p [of COMMON_CHUNK_SIZE a] by (cases r; cases k) (simp_all add: inner_bytes_def cm_bytes_def chunk_vec_def v(2))
  qed (simp_all add: same_tables_def v(2))
qed

lemma take_large_chunk_goes:
  assumes "try_get_large_chunk (chunk_manager (inner w)) = (r, cm)"
  shows "to A w u (w\<lparr>inner := (inner w)\<lparr>chunk_manager := cm\<rparr>\<rparr>) (case r of None \<Rightarrow> u | Some p \<Rightarrow> both u (in_regions (occ p LARGE_CHUNK_SIZE)))"
    and "shaped (inner w) \<Longrightarrow> r = Some p \<Longrightarrow> aligned_chunk LARGE_CHUNK_SIZE p"
proof -
  let ?cm = "chunk_manager (inner w)"
  obtain v where v: "vec_pop (cm_free_large_chunks ?cm) = (r, v)" "cm = ?cm\<lparr>cm_free_large_chunks := v\<rparr>"
    using assms by (auto simp: try_get_large_chunk_def split: prod.splits)
  note p = pop_chunks_count [OF v(1)]
  show "shaped (inner w) \<Longrightarrow> r = Some p \<Longrightarrow> aligned_chunk LARGE_CHUNK_SIZE p"
    using p [of LARGE_CHUNK_SIZE] by (simp add: shaped_def list_all_iff)
  show "to A w u (w\<lparr>inner := (inner w)\<lparr>chunk_manager := cm\<rparr>\<rparr>) (case r of None \<Rightarrow> u | Some p \<Rightarrow> both u (in_regions (occ p LARGE_CHUNK_SIZE)))"
  proof (rule goes_inner, intro conjI allI)
    assume s: "shaped (inner w)"
    then show "shaped ((inner w)\<lparr>chunk_manager := cm\<rparr>)" using p [of LARGE_CHUNK_SIZE] by (auto simp: shaped_def list_all_iff v(2))
    have "vec_block 8 v k a = vec_block 8 (cm_free_large_chunks ?cm) k a" for k a using p by (simp add: vec_block_def)
    then show "inner_bytes (size_of_nlpm E) ((inner w)\<lparr>chunk_manager := cm\<rparr>) k a
        + (case r of None \<Rightarrow> u | Some p \<Rightarrow> both u (in_regions (occ p LARGE_CHUNK_SIZE))) k a
        \<le> inner_bytes (size_of_nlpm E) (inner w) k a + u k a" for k a
      using p [of LARGE_CHUNK_SIZE a] by (cases r; cases k) (simp_all add: inner_bytes_def cm_bytes_def chunk_vec_def v(2))
  qed (simp_all add: same_tables_def v(2))
qed

lemma cached_chunks_get:
  "gets E M P A COMMON_CHUNK_SIZE cached_common_chunk" "gets E M P A LARGE_CHUNK_SIZE cached_large_chunk"
proof -
  have a: "panicked w \<or> shaped (inner w)" if "holds E M P A w u" for w u
    using that by (auto simp: holds_def own_def)
  show "gets E M P A COMMON_CHUNK_SIZE cached_common_chunk"
    unfolding gets_def
  proof (intro allI impI)
    fix w u r w' assume "cached_common_chunk w = Some (r, w')" and H: "holds E M P A w u"
    then obtain cm where cm: "try_get_common_chunk (chunk_manager (inner w)) = (r, cm)" "w' = w\<lparr>inner := (inner w)\<lparr>chunk_manager := cm\<rparr>\<rparr>"
      by (auto simp: cached_common_chunk_def split: prod.splits)
    from goesD [OF take_common_chunk_goes(1) [OF cm(1)] H] take_common_chunk_goes(2) [OF cm(1)] a [OF H]
    show "follows w w' \<and> (case r of None \<Rightarrow> holds E M P A w' u
        | Some p \<Rightarrow> holds E M P A w' (both u (in_regions (occ p COMMON_CHUNK_SIZE))) \<and> (panicked w' \<or> aligned_chunk COMMON_CHUNK_SIZE p))"
      by (cases r) (auto simp: cm(2))
  qed
  show "gets E M P A LARGE_CHUNK_SIZE cached_large_chunk"
    unfolding gets_def
  proof (intro allI impI)
    fix w u r w' assume "cached_large_chunk w = Some (r, w')" and H: "holds E M P A w u"
    then obtain cm where cm: "try_get_large_chunk (chunk_manager (inner w)) = (r, cm)" "w' = w\<lparr>inner := (inner w)\<lparr>chunk_manager := cm\<rparr>\<rparr>"
      by (auto simp: cached_large_chunk_def split: prod.splits)
    from goesD [OF take_large_chunk_goes(1) [OF cm(1)] H] take_large_chunk_goes(2) [OF cm(1)] a [OF H]
    show "follows w w' \<and> (case r of None \<Rightarrow> holds E M P A w' u
        | Some p \<Rightarrow> holds E M P A w' (both u (in_regions (occ p LARGE_CHUNK_SIZE))) \<and> (panicked w' \<or> aligned_chunk LARGE_CHUNK_SIZE p))"
      by (cases r) (auto simp: cm(2))
  qed
qed

text \<open>A new region, cut into a state of which one chunk is taken and which the allocator takes over.\<close>

lemma new_region_goes:
  assumes src: "region_source E cnt w = (r, w1)" "r \<noteq> 0" and H: "holds E M P A w u"
    and own': "\<And>p. w2 = w1\<lparr>proc := p\<rparr> \<Longrightarrow> own E M P ([from_region r] @ chain_now w @ A) w1 u \<Longrightarrow> own E M P (c @ chain_now w @ A) w2 u'"
    and w2: "\<exists>p. w2 = w1\<lparr>proc := p\<rparr>" and c: "c \<noteq> []"
  shows "follows w (op_handle_state ops c w2) \<and> holds E M P A (op_handle_state ops c w2) u'"
proof -
  obtain p1 p2 where p: "w1 = w\<lparr>proc := p1\<rparr>" "w2 = w1\<lparr>proc := p2\<rparr>"
    using region_source_proc [of E cnt w] w2 src(1) by auto
  have "holds E M P (c @ A) w2 u'"
  proof (cases "panicked w")
    case False
    then have o: "own E M P (chain_now w @ A) w u" using H by (simp add: holds_def)
    from region_source_facts(1) [OF this src(1)] src(2)
    have "own E M P ([from_region r] @ chain_now w @ A) w1 u" by simp
    from own' [OF p(2) this] have "own E M P (c @ chain_now w @ A) w2 u'" .
    then have "own E M P (chain_now w2 @ c @ A) w2 u'" by (rule own_chain) (simp add: p chain_now_def)
    then show ?thesis using holds_env [OF H] H False by (simp add: holds_def p)
  qed (use holds_env [OF H] in \<open>simp add: holds_def p\<close>)
  from handle [OF _ this] c have "follows w2 (op_handle_state ops c w2) \<and> holds E M P A (op_handle_state ops c w2) u'" by simp
  moreover have "follows w w2" by (simp add: p follows_def)
  ultimately show ?thesis by (auto intro: follows_trans)
qed

lemma get_large_chunk_gets: "gets E M P A LARGE_CHUNK_SIZE (get_large_chunk (cm_env_of E ops))"
  unfolding gets_def
proof (intro allI impI)
  fix w u r w' assume run: "get_large_chunk (cm_env_of E ops) w = Some (r, w')" and H: "holds E M P A w u"
  obtain x cm where x: "try_get_large_chunk (chunk_manager (inner w)) = (x, cm)" by fastforce
  show "follows w w' \<and> (case r of None \<Rightarrow> holds E M P A w' u
      | Some p \<Rightarrow> holds E M P A w' (both u (in_regions (occ p LARGE_CHUNK_SIZE))) \<and> (panicked w' \<or> aligned_chunk LARGE_CHUNK_SIZE p))"
  proof (cases x)
    case (Some q)
    with run x have "cached_large_chunk w = Some (r, w')"
      by (simp add: get_large_chunk_def cm_env_of_def cached_large_chunk_def)
    with cached_chunks_get(2) H show ?thesis unfolding gets_def by blast
  next
    case None
    obtain q w1 where q: "counted E w = (q, w1)" by fastforce
    then have src: "region_source E True w = (q, w1)" by (simp add: region_source_def)
    obtain p1 where p1: "w1 = w\<lparr>proc := p1\<rparr>" using region_source_proc [of E True w] src by auto
    from None run x have al: "alloc_large_chunk (cm_env_of E ops) w = Some (r, w')"
      by (simp add: get_large_chunk_def cm_env_of_def)
    show ?thesis
    proof (cases "q = 0")
      case True
      with al q have r: "r = None" "w' = w1" by (simp_all add: alloc_large_chunk_def cm_env_of_def)
      have "panicked w \<or> own E M P (chain_now w @ A) w1 u"
        using H region_source_facts(1) [OF _ src] True by (auto simp: holds_def)
      then show ?thesis using holds_env [OF H] H by (auto simp: r holds_def p1 follows_def chain_now_def)
    next
      case False
      with al q obtain ch c w2 where g: "get_free_large_chunk (uncounted E) (size_of_state E) 3 0 [from_region q] w1 = Some (Some ch, c, w2)"
        and r: "r = Some ch" "w' = op_handle_state ops c w2"
        by (auto simp: alloc_large_chunk_def cm_env_of_def split: option.splits)
      then have g': "get_free_large_chunk (region_source E False) (size_of_state E) 3 0 [from_region q] w1 = Some (Some ch, c, w2)"
        by (simp add: region_source_def)
      note cw = chain_world [of E False "size_of_state E" 3 _ _ 0 "[from_region q]" w1 _ c w2, OF disjI2, OF g']
      have c: "c \<noteq> []" using cw(2) by (auto simp: grows_def)
      have cl: "own E M P (c @ chain_now w @ A) w2 (both u (in_regions (occ ch LARGE_CHUNK_SIZE))) \<and> aligned_chunk LARGE_CHUNK_SIZE ch"
        if "own E M P ([from_region q] @ chain_now w @ A) w1 u"
        using chain_large_chunk [OF that _ g'] by simp
      note k = new_region_goes [OF src False H conjunct1 [OF cl] cw(1) c]
      have "panicked w' \<or> aligned_chunk LARGE_CHUNK_SIZE ch"
      proof (cases "panicked w")
        case True
        with k show ?thesis by (auto simp: follows_def r split: if_splits)
      next
        case False
        then have "own E M P (chain_now w @ A) w u" using H by (simp add: holds_def)
        from region_source_facts(1) [OF this src] \<open>q \<noteq> 0\<close> cl show ?thesis by simp
      qed
      with k show ?thesis by (simp add: r)
    qed
  qed
qed

lemma get_common_chunk_gets: "gets E M P A COMMON_CHUNK_SIZE (ChunkManager.get_common_chunk (cm_env_of E ops))"
  unfolding gets_def
proof (intro allI impI)
  fix w u r w' assume run: "ChunkManager.get_common_chunk (cm_env_of E ops) w = Some (r, w')" and H: "holds E M P A w u"
  let ?X = "cm_env_of E ops"
  obtain x cm where x: "try_get_common_chunk (chunk_manager (inner w)) = (x, cm)" by fastforce
  show "follows w w' \<and> (case r of None \<Rightarrow> holds E M P A w' u
      | Some p \<Rightarrow> holds E M P A w' (both u (in_regions (occ p COMMON_CHUNK_SIZE))) \<and> (panicked w' \<or> aligned_chunk COMMON_CHUNK_SIZE p))"
  proof (cases x)
    case (Some q)
    with run x have "cached_common_chunk w = Some (r, w')"
      by (simp add: ChunkManager.get_common_chunk_def cm_env_of_def cached_common_chunk_def)
    with cached_chunks_get(1) H show ?thesis unfolding gets_def by blast
  next
    case None
    from None run x have slow: "get_common_chunk_slow ?X w = Some (r, w')"
      by (simp add: ChunkManager.get_common_chunk_def cm_env_of_def)
    then obtain y w1 where y: "get_large_chunk ?X w = Some (y, w1)" by (auto simp: get_common_chunk_slow_def split: option.splits)
    have k: "follows w w1 \<and> (case y of None \<Rightarrow> holds E M P A w1 u
        | Some p \<Rightarrow> holds E M P A w1 (both u (in_regions (occ p LARGE_CHUNK_SIZE))) \<and> (panicked w1 \<or> aligned_chunk LARGE_CHUNK_SIZE p))"
      using get_large_chunk_gets y H unfolding gets_def by blast
    show ?thesis
    proof (cases y)
      case n: None
      with slow y k show ?thesis by (simp add: get_common_chunk_slow_def)
    next
      case (Some q)
      let ?u = "both u (in_regions (occ q LARGE_CHUNK_SIZE))"
      have k1: "follows w w1 \<and> holds E M P A w1 ?u" and al: "panicked w1 \<or> aligned_chunk LARGE_CHUNK_SIZE q" using k Some by simp_all
      obtain z cm' where z: "try_get_common_chunk (chunk_manager (inner w1)) = (z, cm')" by fastforce
      show ?thesis
      proof (cases z)
        case (Some ch)
        let ?w2 = "w1\<lparr>inner := (inner w1)\<lparr>chunk_manager := cm'\<rparr>\<rparr>"
        let ?v = "both u (in_regions (occ ch COMMON_CHUNK_SIZE))"
        obtain ok where p: "vec_push (rounds ops) (large_vec ?X) q ?w2 = Some (ok, w')" and r: "r = Some ch"
          using slow y \<open>y = Some q\<close> z Some by (auto simp: get_common_chunk_slow_def cm_env_of_def)
        have ch: "panicked w1 \<or> aligned_chunk COMMON_CHUNK_SIZE ch"
          using take_common_chunk_goes(2) [OF z] Some k1 by (auto simp: holds_def own_def)
        have "to A w1 ?u ?w2 (both ?u (in_regions (occ ch COMMON_CHUNK_SIZE)))"
          using take_common_chunk_goes(1) [OF z, of A ?u] Some by simp
        note k2 = goes_step [OF k1 this]
        have "panicked ?w2 \<or> list_all (aligned_chunk LARGE_CHUNK_SIZE) [q]" using al by simp
        have "to A ?w2 (both ?v (in_regions (occ q LARGE_CHUNK_SIZE))) w' ?v"
        proof -
          have "to A ?w2 (both ?v (in_regions (chunks_count [q] LARGE_CHUNK_SIZE))) w' (if ok then ?v else both ?v (in_regions (chunks_count [q] LARGE_CHUNK_SIZE)))"
            by (rule extend_by_goes [OF free_large_slot]) (use p al in \<open>simp_all add: present_def vec_push_def cm_env_of_def\<close>)
          then have "to A ?w2 (both ?v (in_regions (occ q LARGE_CHUNK_SIZE))) w' (if ok then ?v else both ?v (in_regions (occ q LARGE_CHUNK_SIZE)))"
            unfolding chunks_count_one .
          then show ?thesis by (rule goes_same) simp
        qed
        then have t: "to A ?w2 (both ?u (in_regions (occ ch COMMON_CHUNK_SIZE))) w' ?v"
          by (rule goes_less) simp
        note k3 = goes_step [OF k2 t]
        have "follows ?w2 w'" using goesD [OF t] k2 by blast
        then have "panicked w' \<or> aligned_chunk COMMON_CHUNK_SIZE ch" using ch by (auto dest: follows_panicked)
        with k3 show ?thesis by (simp add: r)
      next
        case None
        let ?cs = "split_large_chunk_to_common q"
        have ne: "?cs \<noteq> []" by (metis length_0_conv split_length zero_neq_numeral)
        obtain ok where p: "extend_from_slice (rounds ops) (common_vec ?X) (butlast ?cs) w1 = Some (ok, w')"
          and r: "r = (if ok then Some (last ?cs) else None)"
          using slow y \<open>y = Some q\<close> z None by (auto simp: get_common_chunk_slow_def cm_env_of_def Let_def)
        let ?rest = "in_regions (chunks_count (butlast ?cs) COMMON_CHUNK_SIZE)" and ?v = "both u (in_regions (occ (last ?cs) COMMON_CHUNK_SIZE))"
        have al': "panicked w1 \<or> list_all (aligned_chunk COMMON_CHUNK_SIZE) ?cs"
          using al by (auto simp: list_all_iff dest: aligned_split)
        have "to A w1 (both ?v ?rest) w' (if ok then ?v else both ?v ?rest)"
          by (rule extend_by_goes [OF free_common_slot])
            (use p al' in \<open>auto simp: present_def extend_from_slice_def cm_env_of_def list_all_iff dest: in_set_butlastD\<close>)
        moreover have "both ?v ?rest k a \<le> ?u k a" for k a
          using chunks_count_pop [OF ne, of COMMON_CHUNK_SIZE a] split_count [of q a] by (cases k) simp_all
        ultimately have "to A w1 ?u w' (if ok then ?v else both ?v ?rest)" by (rule goes_less)
        then have t: "to A w1 ?u w' (if ok then ?v else u)" by (rule goes_same) simp
        note k3 = goes_step [OF k1 t]
        have "follows w1 w'" using goesD [OF t] k1 by blast
        then have "panicked w' \<or> aligned_chunk COMMON_CHUNK_SIZE (last ?cs)"
          using al' last_in_set [OF ne] by (auto simp: list_all_iff dest: follows_panicked)
        with k3 show ?thesis by (cases ok) (simp_all add: r)
      qed
    qed
  qed
qed

end

end
