(* ===== verification/OwnBlocks.thy ===== *)
theory OwnBlocks
  imports OwnChains BTreeAlloc
begin

text \<open>
  Allocation and deallocation of blocks of every class, for the thread and for the allocator itself.
  The nodes of the map are blocks as well: \<open>node_keeper\<close> holds in \<open>owning\<close>.
\<close>

section \<open>Allocation and deallocation\<close>

lemma goes_proc:
  assumes "M (kern (os q)) = mapped_now M w"
  shows "goes E M P A w u (w\<lparr>proc := q\<rparr>) u"
proof (rule goesI)
  assume o: "own E M P (chain_now w @ A) w u" and np: "\<not> panicked w"
  have "own E M P (chain_now w @ A) (w\<lparr>proc := q\<rparr>) u"
    by (rule own_le [OF o]) (use o assms in \<open>simp_all add: own_def\<close>)
  then show "follows w (w\<lparr>proc := q\<rparr>) \<and> own E M P (chain_now (w\<lparr>proc := q\<rparr>) @ A) (w\<lparr>proc := q\<rparr>) u"
    using np by (simp add: follows_def chain_now_def)
qed simp

lemma blocks_simps [simp]:
  "blocks [] k a = 0" "blocks (b # bs) k a = block (fst b) (snd b) k a + blocks bs k a"
  "blocks (bs @ cs) k a = blocks bs k a + blocks cs k a"
  by (simp_all add: blocks_def case_prod_unfold)

lemma blocks_remove: "i < length bs \<Longrightarrow> blocks (list_remove i bs) k a + block (fst (bs ! i)) (snd (bs ! i)) k a = blocks bs k a"
proof -
  assume i: "i < length bs"
  then have "bs = take i bs @ bs ! i # drop (Suc i) bs" by (simp add: id_take_nth_drop)
  then have "blocks bs k a = blocks (take i bs @ bs ! i # drop (Suc i) bs) k a" by simp
  then show ?thesis by (simp add: list_remove_def)
qed

lemma goes_nodes:
  assumes "\<And>k a. blocks ns k a + u' k a \<le> blocks (node_memory w) k a + u k a"
  shows "goes E M P A w u (w\<lparr>node_memory := ns\<rparr>) u'"
proof (rule goesI)
  assume o: "own E M P (chain_now w @ A) w u" and np: "\<not> panicked w"
  have "own E M P (chain_now w @ A) (w\<lparr>node_memory := ns\<rparr>) u'"
  proof (rule own_le [OF o])
    show "bytes E P (chain_now w @ A) (w\<lparr>node_memory := ns\<rparr>) u' k a \<le> bytes E P (chain_now w @ A) w u k a" for k a
      using assms [of k a] by (simp add: bytes_def live_def)
  qed (use o in \<open>simp_all add: own_def live_def\<close>)
  then show "follows w (w\<lparr>node_memory := ns\<rparr>) \<and> own E M P (chain_now (w\<lparr>node_memory := ns\<rparr>) @ A) (w\<lparr>node_memory := ns\<rparr>) u'"
    using np by (simp add: follows_def chain_now_def)
qed simp

lemma same_sizes_goes: "goes E M P A w' u (same_sizes w w') u"
  by (simp add: same_sizes_def goes_panicked)

text \<open>With the state hidden and put back.\<close>

lemma goes_hidden:
  assumes "goes E M P (chain_now w @ A) (w\<lparr>maybe_state := None\<rparr>) u w1 u'"
  shows "goes E M P A w u (w1\<lparr>maybe_state := maybe_state w\<rparr>) u'"
  using assms by (auto simp: goes_def holds_def chain_now_def follows_def chain_grown_def)

lemma goes_set_map: "goes E M P A w u (w\<lparr>inner := (inner w)\<lparr>allocated_large_sizes := m\<rparr>\<rparr>) u"
  by (rule goes_flags) (simp_all add: inner_bytes_def [abs_def] shaped_def same_tables_def)

context owning
begin

lemma alloc_node_goes:
  assumes "0 < sz" and "recommended_size sz = sz"
  shows "to A w u (snd (alloc_node ops sz w)) u"
proof -
  obtain r w1 where a: "op_self_alloc ops True sz (w\<lparr>maybe_state := None\<rparr>) = (r, w1)" by fastforce
  let ?u = "case r of None \<Rightarrow> u | Some p \<Rightarrow> both u (block p sz)"
  have "to A w u (w1\<lparr>maybe_state := maybe_state w\<rparr>) ?u"
    by (rule goes_hidden) (rule self_alloc [OF a assms])
  also have "to A (w1\<lparr>maybe_state := maybe_state w\<rparr>) ?u (same_sizes w (w1\<lparr>maybe_state := maybe_state w\<rparr>)) ?u"
    by (rule same_sizes_goes)
  also have "to A (same_sizes w (w1\<lparr>maybe_state := maybe_state w\<rparr>)) ?u (snd (alloc_node ops sz w)) u"
  proof (cases r)
    case None
    then show ?thesis using a by (simp add: alloc_node_def Let_def)
  next
    case (Some p)
    then have "snd (alloc_node ops sz w) = (let w2 = same_sizes w (w1\<lparr>maybe_state := maybe_state w\<rparr>) in w2\<lparr>node_memory := node_memory w2 @ [(p, sz)]\<rparr>)"
      using a by (simp add: alloc_node_def Let_def)
    then show ?thesis using Some by (simp add: Let_def goes_nodes)
  qed
  finally show ?thesis .
qed

lemma dealloc_node_goes:
  assumes "0 < sz"
  shows "to A w u (dealloc_node E ops sz w) u"
proof -
  define ns k where "ns = node_memory w" and "k = which_node E sz ns"
  show ?thesis
  proof (cases "k < length ns \<and> snd (ns ! k) = recommended_size sz")
    case False
    then have "dealloc_node E ops sz w = w\<lparr>panicked := True\<rparr>"
      unfolding dealloc_node_def ns_def k_def Let_def by (rule if_not_P)
    then show ?thesis by (simp add: goes_panicked)
  next
    case True
    let ?p = "fst (ns ! k)"
    let ?w1 = "w\<lparr>node_memory := list_remove k ns\<rparr>"
    let ?w2 = "(op_self_dealloc ops ?p sz (?w1\<lparr>maybe_state := None\<rparr>))\<lparr>maybe_state := maybe_state ?w1\<rparr>"
    have comm: "w\<lparr>maybe_state := None, node_memory := list_remove k ns\<rparr> = ?w1\<lparr>maybe_state := None\<rparr>" by simp
    have "dealloc_node E ops sz w = same_sizes w ((op_self_dealloc ops ?p sz (w\<lparr>maybe_state := None, node_memory := list_remove k ns\<rparr>))
        \<lparr>maybe_state := maybe_state w\<rparr>)"
      using True unfolding dealloc_node_def ns_def k_def Let_def by (rule if_P)
    then have d: "dealloc_node E ops sz w = same_sizes w ?w2" unfolding comm by simp
    have "to A w u ?w1 (both u (block ?p sz))"
    proof (rule goes_nodes)
      show "blocks (list_remove k ns) x a + both u (block ?p sz) x a \<le> blocks (node_memory w) x a + u x a" for x a
        using blocks_remove [of k ns x a] True by (simp add: block_recommended flip: ns_def)
    qed
    also have "to A ?w1 (both u (block ?p sz)) ?w2 u"
      by (rule goes_hidden) (rule self_dealloc [OF assms])
    also have "to A ?w2 u (same_sizes w ?w2) u" by (rule same_sizes_goes)
    finally show ?thesis unfolding d .
  qed
qed

end

sublocale owning \<subseteq> nk: node_keeper "xl_nodes (xl_env_of E ops)" "\<lambda>s. follows w s \<and> holds E M P A s u"
  for w :: "('k, 'n) world" and A :: "State list" and u :: held
proof
  fix s sz
  assume s: "follows w s \<and> holds E M P A s u"
    and sz: "sz = size_of_leaf (xl_nodes (xl_env_of E ops)) \<or> sz = size_of_internal (xl_nodes (xl_env_of E ops))"
  have "0 < sz" using s sz by (auto simp: xl_env_of_def holds_def env_ok_def)
  then have "0 < recommended_size sz" using recommended_ge [of sz] by linarith
  from goes_step [OF s alloc_node_goes [OF this recommended_idem]]
  show "follows w (snd (self_alloc (xl_nodes (xl_env_of E ops)) (recommended_size sz) s)) \<and>
      holds E M P A (snd (self_alloc (xl_nodes (xl_env_of E ops)) (recommended_size sz) s)) u"
    by (simp add: xl_env_of_def)
  from goes_step [OF s dealloc_node_goes [OF \<open>0 < sz\<close>]]
  show "follows w (self_dealloc (xl_nodes (xl_env_of E ops)) sz s) \<and> holds E M P A (self_dealloc (xl_nodes (xl_env_of E ops)) sz s) u"
    by (simp add: xl_env_of_def)
qed

context owning
begin

lemma count_goes:
  assumes "and_modify_or_insert (xl_nodes (xl_env_of E ops)) k f v mp w = Ok (mp', w')"
  shows "to A w u w' u"
proof (rule goesI2)
  assume H: "holds E M P A w u"
  show "follows w w' \<and> holds E M P A w' u"
  proof (cases "entry k mp")
    case (Vacant k' h)
    with assms have "vacant_insert (xl_nodes (xl_env_of E ops)) k' h v mp w = Ok (mp', w')"
      by (simp add: and_modify_or_insert_def)
    from nk.vacant_insert_keeps [OF this, of w A u] H show ?thesis by simp
  qed (use assms H in \<open>simp add: and_modify_or_insert_def\<close>)
qed

lemma uncount_goes:
  assumes "map_remove (xl_nodes (xl_env_of E ops)) k mp w = Some (r, mp', w')"
  shows "to A w u w' u"
  using assms nk.map_remove_keeps [of k mp w r mp' w' w A u] by (auto simp: goes_def)

lemma alloc_extra_goes:
  assumes "alloc_extra E ops sz w = Some (r, w')" and xl: "size_class_define sz = ExtraLarge"
  shows "to A w u w' (case r of None \<Rightarrow> u | Some p \<Rightarrow> both u (block p sz))"
proof -
  obtain ok l where l: "may_allocate (word_of_nat sz) (lim (proc w)) = (ok, l)" by fastforce
  obtain p x k where a: "alloc_from_os (env_libc E) (env_kernel E) 0 sz True False (os (proc w)) = ((p, x), k)"
    by (metis prod.collapse)
  show ?thesis
  proof (cases ok)
    case False
    with assms(1) l have r: "r = None" "w' = w\<lparr>proc := (proc w)\<lparr>lim := l\<rparr>\<rparr>"
      by (simp_all add: alloc_extra_def alloc_extra_large_def xl_env_of_def)
    show ?thesis unfolding r by (simp add: goes_proc)
  next
    case True
    let ?u = "if p = 0 then u else both u (block p sz)"
    let ?l = "if p = 0 then mark_deallocated (word_of_nat sz) l else l"
    let ?w1 = "w\<lparr>proc := \<lparr>lim = ?l, os = k\<rparr>\<rparr>"
    have "to A w u ?w1 ?u"
    proof (rule goesI)
      assume o: "own E M P (chain_now w @ A) w u" and np: "\<not> panicked w"
      have "0 < sz" using xl by (simp add: class_iff)
      then have f: "fresh_or_null M (pages sz) (kern (os (proc w))) p (kern k)"
        using o a by (intro alloc_from_os_facts [OF _ _ _ _ _ a]) (simp_all add: own_def env_ok_def)
      have "own E M P (chain_now w @ A) ?w1 ?u"
      proof (cases "p = 0")
        case True
        then have "M (kern k) = mapped_now M w" using f by (simp add: fresh_or_null_def)
        then show ?thesis using True by (intro own_le [OF o]) (use o in \<open>simp_all add: own_def\<close>)
      next
        case False
        with f own_map [OF o xl, of "\<lparr>lim = ?l, os = k\<rparr>" p] show ?thesis by (simp add: fresh_or_null_def)
      qed
      then show "follows w ?w1 \<and> own E M P (chain_now ?w1 @ A) ?w1 ?u" using np by (simp add: follows_def chain_now_def)
    qed simp
    also obtain mp w2 where m: "and_modify_or_insert (xl_nodes (xl_env_of E ops)) sz Suc 1 (allocated_large_sizes (inner w)) ?w1 = Ok (mp, w2)"
      and r: "r = (if p = 0 then None else Some p)" "w' = w2\<lparr>inner := (inner w2)\<lparr>allocated_large_sizes := mp\<rparr>\<rparr>"
    proof -
      have e: "(proc w)\<lparr>lim := l, os := k\<rparr> = \<lparr>lim = l, os = k\<rparr>" "(proc w)\<lparr>os := k, lim := m\<rparr> = \<lparr>lim = m, os = k\<rparr>" for m
        by simp_all
      obtain mp w2 where "and_modify_or_insert (xl_nodes (xl_env_of E ops)) sz Suc 1 (allocated_large_sizes (inner w)) ?w1 = Ok (mp, w2)"
        and "Some (r, w') = Some (if p = 0 then None else Some p, w2\<lparr>inner := (inner w2)\<lparr>allocated_large_sizes := mp\<rparr>\<rparr>)"
        using assms(1) l True a
        by (cases "p = 0") (auto simp: alloc_extra_def alloc_extra_large_def xl_env_of_def Let_def e split: outcome.splits)
      then show thesis by (intro that) simp_all
    qed
    have "to A ?w1 ?u w2 ?u" by (rule count_goes [OF m])
    also have "to A w2 ?u w' ?u" unfolding r(2) by (rule goes_set_map)
    finally show ?thesis by (simp add: r(1) split: if_splits)
  qed
qed

lemma dealloc_extra_goes:
  assumes "dealloc_extra E ops p sz w = Some w'" and xl: "size_class_define sz = ExtraLarge"
  shows "to A w (both u (block p sz)) w' u"
proof -
  let ?q = "\<lparr>lim = mark_deallocated (word_of_nat sz) (lim (proc w)), os = os_free (env_kernel E) p sz (os (proc w))\<rparr>"
  let ?w1 = "w\<lparr>proc := ?q\<rparr>"
  have "to A w (both u (block p sz)) ?w1 u"
  proof (rule goesI)
    assume o: "own E M P (chain_now w @ A) w (both u (block p sz))" and np: "\<not> panicked w"
    from own_unmap [OF o xl, of ?q] np
    show "follows w ?w1 \<and> own E M P (chain_now ?w1 @ A) ?w1 u" by (simp add: follows_def chain_now_def)
  qed simp
  also obtain w2 mp where w2: "w2 = ?w1 \<or> (\<exists>mp0 r. map_remove (xl_nodes (xl_env_of E ops)) sz mp0 ?w1 = Some (r, mp, w2))"
    and w': "w' = w2\<lparr>inner := (inner w2)\<lparr>allocated_large_sizes := mp\<rparr>\<rparr>"
  proof -
    let ?X = "xl_env_of E ops"
    have e: "(proc w)\<lparr>os := k, lim := m\<rparr> = \<lparr>lim = m, os = k\<rparr>" for m k by simp
    have w1: "xl_set_lim ?X (mark_deallocated (word_of_nat sz) (xl_lim ?X (xl_set_os ?X (os_free (env_kernel E) p sz (xl_os ?X w)) w)))
        (xl_set_os ?X (os_free (env_kernel E) p sz (xl_os ?X w)) w) = ?w1"
      by (simp add: xl_env_of_def e)
    obtain mp0 b where "(case entry sz (xl_map ?X ?w1) of
        Occupied (n, i, fs) \<Rightarrow> (occupied_write (\<lambda>u. u - 1) (n, i, fs) (xl_map ?X ?w1), vals n ! i = 1)
      | Vacant _ _ \<Rightarrow> (xl_map ?X ?w1, False)) = (mp0, b)"
      by fastforce
    then have d: "dealloc_extra_large (env_kernel E) ?X p sz w =
        (if b then case map_remove (xl_nodes ?X) sz mp0 ?w1 of None \<Rightarrow> Panic | Some (_, mp', s3) \<Rightarrow> Ok (xl_set_map ?X mp' s3)
         else Ok (xl_set_map ?X mp0 ?w1))"
      unfolding dealloc_extra_large_def Let_def w1 by (simp only: prod.case)
    have set: "xl_set_map ?X mp v = v\<lparr>inner := (inner v)\<lparr>allocated_large_sizes := mp\<rparr>\<rparr>" for mp v by (simp add: xl_env_of_def)
    show thesis
    proof (cases b)
      case False
      then show thesis using assms(1) by (intro that [of ?w1 mp0]) (simp_all add: dealloc_extra_def d set)
    next
      case True
      obtain r mp v where m: "map_remove (xl_nodes ?X) sz mp0 ?w1 = Some (r, mp, v)"
        using assms(1) True by (auto simp: dealloc_extra_def d split: option.splits)
      then show thesis using assms(1) True by (intro that [of v mp]) (auto simp: dealloc_extra_def d set)
    qed
  qed
  have "to A ?w1 u w2 u" using w2 uncount_goes by auto
  also have "to A w2 u w' u" unfolding w' by (rule goes_set_map)
  finally show ?thesis .
qed

end

text \<open>A chain of states the world has is used up as far as it must and grows.\<close>

lemma round_8_recommended:
  assumes "size_class_define sz = Common"
  shows "and_not (sz + 7) 7 = recommended_size sz"
  using assms by (simp add: class_iff recommended_size_def round_up_8 layout_simps)

lemma good_recommended: "0 < sz \<Longrightarrow> size_class_define sz = cl \<Longrightarrow> good_size cl (recommended_size sz)"
  using recommended_ge [of sz] by (simp add: good_size_def recommended_class recommended_idem)

lemma block_as_object: "size_class_define sz \<noteq> ExtraLarge \<Longrightarrow> block p sz = in_regions (occ p (recommended_size sz))"
  using block_regions [of sz p] by (simp add: fun_eq_iff)

lemma block_real: "block p (recommended_size sz) = block p sz"
  by (simp add: fun_eq_iff block_recommended)

context owning
begin

lemma alloc_common_goes:
  assumes run: "alloc_common E ops sz w = Some (r, w')" and sz: "0 < sz" "size_class_define sz = Common"
  shows "to A w u w' (case r of None \<Rightarrow> u | Some p \<Rightarrow> both u (block p sz))"
proof -
  let ?i = "common_size_to_index (word_of_nat sz)"
  note i = common_slot [OF sz]
  obtain q w1 where pop: "pop_common ?i w = (q, w1)" by fastforce
  have nx: "size_class_define sz \<noteq> ExtraLarge" using sz(2) by simp
  have p1: "to A w u w1 (case q of None \<Rightarrow> u | Some p \<Rightarrow> both u (block p sz))"
    using pop_common_goes [OF pop i(1), of A u] unfolding i(2) block_as_object [OF nx] .
  show ?thesis
  proof (cases q)
    case None
    then have ws: "without_state (alloc_common_slow E ops False (recommended_size sz) (ChunkManager.get_common_chunk (cm_env_of E ops))) w1 = Some (r, w')"
      using run pop round_8_recommended [OF sz(2)] by (simp add: alloc_common_def)
    have "to A w1 u w' (case r of None \<Rightarrow> u | Some p \<Rightarrow> both u (block p (recommended_size sz)))"
      by (rule without_state_goes [OF ws]) (rule alloc_common_slow_goes [OF _ good_recommended [OF sz] get_common_chunk_gets])
    from goes_trans [OF p1 [unfolded None option.case] this] show ?thesis unfolding block_real .
  qed (use run pop p1 in \<open>auto simp: alloc_common_def\<close>)
qed

lemma alloc_large_goes:
  assumes run: "alloc_large E ops sz w = Some (r, w')" and sz: "0 < sz" "size_class_define sz = Large"
  shows "to A w u w' (case r of None \<Rightarrow> u | Some p \<Rightarrow> both u (block p sz))"
proof -
  obtain id' real where e: "large_size_to_id_and_real_size sz = (id', real)" by fastforce
  note i = large_slot [OF sz(2), unfolded e, simplified]
  obtain q w1 where pop: "pop_large (get_idx_by_id id') w = (q, w1)" by fastforce
  have nx: "size_class_define sz \<noteq> ExtraLarge" using sz(2) by simp
  have p1: "to A w u w1 (case q of None \<Rightarrow> u | Some p \<Rightarrow> both u (block p sz))"
    using pop_large_goes [OF pop i(1), of A u] unfolding i(2) block_as_object [OF nx] .
  show ?thesis
  proof (cases q)
    case None
    then have ws: "without_state (alloc_large_slow E ops False id' (recommended_size sz) (get_large_chunk (cm_env_of E ops))) w1 = Some (r, w')"
      using run pop e i(3) by (simp add: alloc_large_def)
    have "to A w1 u w' (case r of None \<Rightarrow> u | Some p \<Rightarrow> both u (block p (recommended_size sz)))"
      by (rule without_state_goes [OF ws]) (rule alloc_large_slow_goes [OF _ good_recommended [OF sz] get_large_chunk_gets i(1,2)])
    from goes_trans [OF p1 [unfolded None option.case] this] show ?thesis unfolding block_real .
  qed (use run pop p1 e in \<open>auto simp: alloc_large_def\<close>)
qed

lemma try_alloc_body_goes:
  assumes "try_alloc_body E ops sz w = Some (r, w')" and "0 < sz"
  shows "to A w u w' (case r of None \<Rightarrow> u | Some p \<Rightarrow> both u (block p sz))"
  using assms alloc_common_goes alloc_large_goes alloc_extra_goes
  by (cases "size_class_define sz") (simp_all add: try_alloc_body_def)

lemma dealloc_non_local_goes:
  assumes "dealloc_non_local_ptr E ops p md w = Some w'"
  shows "to A w u w' u"
proof -
  obtain m w1 where g: "without_state (get_or_init_non_local_ptr_manager E ops) w = Some (m, w1)"
    and w': "w' = nl_deallocate E (op_try_alloc ops) (non_local_ptr_manager md) (new_non_local p (offset_to_slot_in_table md)) w1"
    using assms by (auto simp: dealloc_non_local_ptr_def)
  have "to A w u w1 u" by (rule without_state_goes [OF g]) (rule get_or_init_goes)
  also have "to A w1 u w' u"
  proof (rule goesI2)
    assume H: "holds E M P A w1 u"
    have nl: "to A v u (v\<lparr>nl := n\<rparr>) u" if "P n = P (nl v)" for v n
    proof (rule goesI)
      assume o: "own E M P (chain_now v @ A) v u" and np: "\<not> panicked v"
      have "own E M P (chain_now v @ A) (v\<lparr>nl := n\<rparr>) u" by (rule own_nl [OF o]) (simp_all add: that)
      then show "follows v (v\<lparr>nl := n\<rparr>) \<and> own E M P (chain_now (v\<lparr>nl := n\<rparr>) @ A) (v\<lparr>nl := n\<rparr>) u"
        using np by (simp add: follows_def chain_now_def)
    qed simp
    obtain sz n where sz: "0 < sz" and d: "w' = w1\<lparr>nl := n\<rparr> \<and> P n = P (nl w1) \<or>
        w' = (snd (op_try_alloc ops sz w1))\<lparr>nl := n\<rparr> \<and> P n = P (nl (snd (op_try_alloc ops sz w1)))"
      using holds_env [OF H] unfolding env_ok_def manager_ok_def Let_def w' by blast
    obtain r w2 where a: "op_try_alloc ops sz w1 = (r, w2)" by fastforce
    have "to A w1 u w2 u" by (rule goes_same [OF try_alloc [OF a sz]]) (auto split: option.splits)
    from d nl [of n w1] goes_trans [OF this nl [of n w2]] have "to A w1 u w' u" by (auto simp: a)
    from goesD [OF this H] show "follows w1 w' \<and> holds E M P A w' u" .
  qed
  finally show ?thesis .
qed

lemma dealloc_common_goes:
  assumes run: "dealloc_common E ops p sz w = Some w'" and sz: "0 < sz" "size_class_define sz = Common"
  shows "to A w (both u (block p sz)) w' u"
proof -
  let ?i = "common_size_to_index (word_of_nat sz)"
  note i = common_slot [OF sz]
  obtain md where "metadata_of (cells w) p = Some md" using run by (auto simp: dealloc_common_def bind_eq_Some_conv)
  with run consider "push_back_without_state ops (common_objects ops ?i) p w = Some w'" | "dealloc_non_local_ptr E ops p md w = Some w'"
    by (auto simp: dealloc_common_def split: if_splits)
  then show ?thesis
  proof cases
    case 1
    have "to A w (both u (in_regions (chunks_count [p] (slot_size True ?i)))) w' u"
      by (rule push_back_without_state_goes [OF common_objects_slot]) (use 1 i(1) in \<open>auto simp: present_def common_objects_def\<close>)
    then show ?thesis using sz(2) by (simp add: i(2) block_as_object)
  next
    case 2
    have "to A w (both u (block p sz)) w' (both u (block p sz))" by (rule dealloc_non_local_goes [OF 2])
    then show ?thesis by (rule goes_same) simp
  qed
qed

lemma dealloc_large_goes:
  assumes run: "dealloc_large E ops p sz w = Some w'" and sz: "size_class_define sz = Large"
  shows "to A w (both u (block p sz)) w' u"
proof -
  let ?i = "get_idx_by_id (fst (large_size_to_id_and_real_size sz))"
  note i = large_slot [OF sz]
  obtain md where "metadata_of (cells w) p = Some md" using run by (auto simp: dealloc_large_def bind_eq_Some_conv)
  with run consider "push_back_without_state ops (large_objects ops ?i) p w = Some w'" | "dealloc_non_local_ptr E ops p md w = Some w'"
    by (auto simp: dealloc_large_def split: if_splits)
  then show ?thesis
  proof cases
    case 1
    have "to A w (both u (in_regions (chunks_count [p] (slot_size False ?i)))) w' u"
      by (rule push_back_without_state_goes [OF large_objects_slot]) (use 1 i(1) in \<open>auto simp: present_def large_objects_def\<close>)
    then show ?thesis using sz by (simp add: i(2) block_as_object)
  next
    case 2
    have "to A w (both u (block p sz)) w' (both u (block p sz))" by (rule dealloc_non_local_goes [OF 2])
    then show ?thesis by (rule goes_same) simp
  qed
qed

lemma dealloc_body_goes:
  assumes "dealloc_body E ops p sz w = Some w'" and "0 < sz"
  shows "to A w (both u (block p sz)) w' u"
  using assms dealloc_common_goes dealloc_large_goes dealloc_extra_goes
  by (cases "size_class_define sz") (simp_all add: dealloc_body_def)

end

section \<open>Allocation for the allocator itself\<close>

lemma chain_grown_grows: "grows c d \<Longrightarrow> c \<noteq> [] \<Longrightarrow> chain_grown (Some c) (Some d)"
  by (cases c; cases d) (auto simp: grows_def chain_grown_def)

context owning
begin

lemma try_alloc_common_from_cache_goes:
  assumes run: "try_alloc_common_from_cache E ops sz w = Some (r, w')" and sz: "good_size Common sz"
  shows "to A w u w' (case r of None \<Rightarrow> u | Some p \<Rightarrow> both u (block p sz))"
proof -
  have s: "0 < sz" "size_class_define sz = Common" "recommended_size sz = sz" using sz by (simp_all add: good_size_def)
  let ?i = "common_size_to_index (word_of_nat sz)"
  note i = common_slot [OF s(1,2), unfolded s(3)]
  obtain q w1 where pop: "pop_common ?i w = (q, w1)" by fastforce
  note p1 = pop_common_goes [OF pop i(1), of A u, unfolded i(2), folded block_good [OF sz, simplified]]
  show ?thesis
  proof (cases q)
    case None
    let ?b = "is_allocating_now w1"
    let ?w2 = "if ?b then set_is_allocating False w1 else w1"
    have "alloc_common_slow E ops ?b sz cached_common_chunk ?w2 = Some (r, w')"
      using run pop None by (simp add: try_alloc_common_from_cache_def split: if_splits)
    note slow = alloc_common_slow_goes [OF this sz cached_chunks_get(1)]
    have "to A w1 u ?w2 u" by (simp add: set_is_allocating_goes)
    from goes_trans [OF p1 [unfolded None option.case] goes_trans [OF this slow]] show ?thesis .
  qed (use run pop p1 in \<open>auto simp: try_alloc_common_from_cache_def\<close>)
qed

lemma try_alloc_large_from_cache_goes:
  assumes run: "try_alloc_large_from_cache E ops sz w = Some (r, w')" and sz: "good_size Large sz"
  shows "to A w u w' (case r of None \<Rightarrow> u | Some p \<Rightarrow> both u (block p sz))"
proof -
  have s: "0 < sz" "size_class_define sz = Large" "recommended_size sz = sz" using sz by (simp_all add: good_size_def)
  let ?id = "fst (large_size_to_id_and_real_size sz)"
  note i = large_slot [OF s(2), unfolded s(3)]
  obtain q w1 where pop: "pop_large (get_idx_by_id ?id) w = (q, w1)" by fastforce
  note p1 = pop_large_goes [OF pop i(1), of A u, unfolded i(2), folded block_good [OF sz, simplified]]
  show ?thesis
  proof (cases q)
    case None
    let ?b = "is_allocating_now w1"
    let ?w2 = "if ?b then set_is_allocating False w1 else w1"
    have "alloc_large_slow E ops ?b ?id sz cached_large_chunk ?w2 = Some (r, w')"
      using run pop None by (simp add: try_alloc_large_from_cache_def Let_def split: if_splits)
    note slow = alloc_large_slow_goes [OF this sz cached_chunks_get(2) i(1,2)]
    have "to A w1 u ?w2 u" by (simp add: set_is_allocating_goes)
    from goes_trans [OF p1 [unfolded None option.case] goes_trans [OF this slow]] show ?thesis .
  qed (use run pop p1 in \<open>auto simp: try_alloc_large_from_cache_def Let_def\<close>)
qed

lemma slow_self_alloc_goes:
  assumes run: "slow_self_alloc E ops cnt sz cl w = Some (r, w')" and sz: "good_size cl sz" "cl \<noteq> ExtraLarge"
  shows "to A w u w' (case r of None \<Rightarrow> u | Some p \<Rightarrow> both u (block p sz))"
proof (rule goesI2)
  let ?u = "case r of None \<Rightarrow> u | Some p \<Rightarrow> both u (block p sz)"
  have cl: "size_class_define sz = cl" using sz(1) by (simp add: good_size_def)
  have u': "(case r of None \<Rightarrow> u | Some p \<Rightarrow> both u (in_regions (occ p sz))) = ?u" unfolding block_good [OF sz] ..
  assume H: "holds E M P A w u"
  show "follows w w' \<and> holds E M P A w' ?u"
  proof (cases "maybe_state w")
    case (Some c)
    obtain d w1 where a: "state_alloc_size (region_source E cnt) (size_of_state E) (length c + 2) cl sz 0 c w = Some (r, d, w1)"
      and w': "w' = w1\<lparr>maybe_state := Some d\<rparr>"
      using run Some by (auto simp: slow_self_alloc_def)
    note cw = chain_world [OF disjI1, OF a]
    obtain p where p: "w1 = w\<lparr>proc := p\<rparr>" using cw(1) by blast
    show ?thesis
    proof (cases "panicked w")
      case False
      then have o: "own E M P (c @ A) w u" and c: "c \<noteq> []" using H Some by (simp_all add: holds_def chain_now_def)
      from chain_alloc [OF o c sz(1) [folded cl] sz(2) [folded cl] a [folded cl]]
      have "own E M P (d @ A) w1 ?u" unfolding cl u' .
      moreover have "d \<noteq> []" using cw(2) c by (auto simp: grows_def)
      ultimately show ?thesis
        using False Some chain_grown_grows [OF cw(2) c] holds_env [OF H]
        by (simp add: holds_def follows_def chain_now_def w' p)
    qed (use H in \<open>simp add: w' p follows_def holds_def\<close>)
  next
    case None
    obtain q w1 where q: "region_source E cnt w = (q, w1)" by fastforce
    obtain p1 where p1: "w1 = w\<lparr>proc := p1\<rparr>" using region_source_proc [of E cnt w] q by auto
    show ?thesis
    proof (cases "q = 0")
      case True
      with run None q have r: "r = None" "w' = w1" by (simp_all add: slow_self_alloc_def)
      have "panicked w \<or> own E M P (chain_now w @ A) w1 u"
        using H region_source_facts(1) [OF _ q] True by (auto simp: holds_def)
      then show ?thesis using H by (auto simp: r holds_def p1 follows_def chain_now_def)
    next
      case False
      obtain c w2 where a: "state_alloc_size (region_source E cnt) (size_of_state E) 3 cl sz 0 [from_region q] w1 = Some (r, c, w2)"
        and w': "w' = op_handle_state ops c w2"
        using run None q False by (auto simp: slow_self_alloc_def)
      note cw = chain_world [OF disjI1, OF a]
      have c: "c \<noteq> []" using cw(2) by (auto simp: grows_def)
      have "own E M P (c @ chain_now w @ A) w2 ?u" if "own E M P ([from_region q] @ chain_now w @ A) w1 u"
        using chain_alloc [OF that _ sz(1) [folded cl] sz(2) [folded cl] a [folded cl]] unfolding cl u' by simp
      from new_region_goes [OF q False H this cw(1) c] show ?thesis unfolding w' .
    qed
  qed
qed

lemma self_alloc_body_goes:
  assumes run: "self_alloc_body E ops cnt sz w = Some (r, w')" and sz: "0 < sz" "recommended_size sz = sz"
  shows "to A w u w' (case r of None \<Rightarrow> u | Some p \<Rightarrow> both u (block p sz))"
proof -
  let ?cl = "size_class_define sz"
  have g: "good_size ?cl sz" using sz by (simp add: good_size_def)
  show ?thesis
  proof (cases "?cl = ExtraLarge")
    case True
    with run show ?thesis by (intro alloc_extra_goes) (simp_all add: self_alloc_body_def)
  next
    case False
    obtain q w1 where c: "(if ?cl = Common then try_alloc_common_from_cache E ops sz w else try_alloc_large_from_cache E ops sz w) = Some (q, w1)"
      using run False unfolding self_alloc_body_def Let_def by (auto split: option.splits)
    have q: "to A w u w1 (case q of None \<Rightarrow> u | Some p \<Rightarrow> both u (block p sz))"
    proof (cases ?cl)
      case Common
      with c g show ?thesis by (intro try_alloc_common_from_cache_goes) simp_all
    next
      case Large
      with c g show ?thesis by (intro try_alloc_large_from_cache_goes) simp_all
    qed (use False in simp)
    show ?thesis
    proof (cases q)
      case None
      with run False c have "slow_self_alloc E ops cnt sz ?cl w1 = Some (r, w')" unfolding self_alloc_body_def Let_def c by simp
      from goes_trans [OF q [unfolded None option.case] slow_self_alloc_goes [OF this g False]] show ?thesis .
    qed (use run False c q in \<open>unfold self_alloc_body_def Let_def c, auto\<close>)
  qed
qed

lemma self_dealloc_body_goes:
  assumes run: "self_dealloc_body E ops p sz w = Some w'" and sz: "0 < sz"
  shows "to A w (both u (block p sz)) w' u"
proof (cases "size_class_define sz")
  case Common
  let ?i = "common_size_to_index (word_of_nat sz)"
  note i = common_slot [OF sz Common]
  show ?thesis
  proof (cases "maybe_state w")
    case None
    with run Common show ?thesis by (intro dealloc_common_goes [OF _ sz]) (simp_all add: self_dealloc_body_def)
  next
    case (Some c)
    have "to A w (both u (in_regions (chunks_count [p] (slot_size True ?i)))) w' u"
      by (rule push_back_goes [OF common_objects_slot]) (use run Common Some i(1) in \<open>auto simp: self_dealloc_body_def present_def common_objects_def\<close>)
    then show ?thesis using Common by (simp add: i(2) block_as_object)
  qed
next
  case Large
  let ?i = "get_idx_by_id (fst (large_size_to_id_and_real_size sz))"
  note i = large_slot [OF Large]
  show ?thesis
  proof (cases "maybe_state w")
    case None
    with run Large show ?thesis by (intro dealloc_large_goes) (simp_all add: self_dealloc_body_def)
  next
    case (Some c)
    have "to A w (both u (in_regions (chunks_count [p] (slot_size False ?i)))) w' u"
      by (rule push_back_goes [OF large_objects_slot]) (use run Large Some i(1) in \<open>auto simp: self_dealloc_body_def present_def large_objects_def\<close>)
    then show ?thesis using Large by (simp add: i(2) block_as_object)
  qed
next
  case ExtraLarge
  with run show ?thesis by (intro dealloc_extra_goes) (simp_all add: self_dealloc_body_def)
qed

end

end
