(* ===== verification/OwnHandleState.thy ===== *)
theory OwnHandleState
  imports OwnBlocks
begin

text \<open>
  \<open>handle_state\<close>: room is made for everything the chain of states has, then its objects, chunks and
  regions enter the allocator, state by state, and the places of the states are given back.
\<close>

section \<open>The sizes in the table of used chunks\<close>

lemma binary_search_le: "binary_search_loop arr sz low high = Inl i \<Longrightarrow> low \<le> high \<Longrightarrow> i \<le> high"
proof (induction arr sz low high rule: binary_search_loop.induct)
  case (1 arr sz low high)
  show ?case
  proof (cases "low < high")
    case True
    let ?mid = "(low + high) div 2"
    have mid: "?mid + 1 \<le> high" "low \<le> ?mid" using True by linarith+
    consider "snd (arr ! ?mid) < sz" | "sz < snd (arr ! ?mid)" | "snd (arr ! ?mid) = sz" by linarith
    then show ?thesis
    proof cases
      case 1
      with "1.prems"(1) True have "binary_search_loop arr sz (?mid + 1) high = Inl i"
        by (subst (asm) binary_search_loop.simps) (simp add: Let_def)
      from "1.IH"(1) [OF True refl refl 1 this mid(1)] show ?thesis .
    next
      case 2
      with "1.prems"(1) True have "binary_search_loop arr sz low ?mid = Inl i"
        by (subst (asm) binary_search_loop.simps) (simp add: Let_def)
      from "1.IH"(2) [OF True refl refl _ 2 this mid(2)] 2 mid show ?thesis by simp
    next
      case 3
      with "1.prems"(1) True show ?thesis by (subst (asm) binary_search_loop.simps) (simp add: Let_def)
    qed
  qed (use "1.prems" in \<open>subst (asm) binary_search_loop.simps, simp\<close>)
qed

lemma write_used_sizes:
  assumes "write_used_number_and_size sz n u = Some u'"
  shows "snd ` set (used_entries u') \<subseteq> insert sz (snd ` set (used_entries u))"
proof (cases "sz = 0 \<or> n = 0")
  case False
  let ?arr = "used_arr u" and ?len = "used_len u"
  show ?thesis
  proof (cases "binary_search ?arr sz ?len")
    case (Inr i)
    then obtain m where u': "u' = u\<lparr>used_arr := ?arr[i := (Some m, snd (?arr ! i))]\<rparr>"
      using assms False by (auto simp: write_used_number_and_size_def split: option.splits)
    have e: "used_entries u' = (used_entries u)[i := (Some m, snd (?arr ! i))]"
      by (simp add: used_entries_def u' take_update_swap)
    show ?thesis
    proof (cases "i < length (used_entries u)")
      case True
      then have "?arr ! i = used_entries u ! i" by (simp add: used_entries_def)
      then have "map snd (used_entries u') = map snd (used_entries u)"
        using True by (simp add: e map_update list_update_same_conv)
      then have "snd ` set (used_entries u') = snd ` set (used_entries u)" by (metis list.set_map)
      then show ?thesis by blast
    qed (simp add: e list_update_beyond subset_insertI)
  next
    case (Inl i)
    then have i: "i \<le> ?len" using binary_search_le [of ?arr sz 0 ?len i] by (simp add: binary_search_def)
    have len: "?len < length ?arr"
      and u': "u' = u\<lparr>used_arr := (ptr_copy i (i + 1) (?len - i) ?arr)[i := (Some n, sz)], used_len := ?len + 1\<rparr>"
      using Inl assms False by (simp_all add: write_used_number_and_size_def split: if_splits)
    have "(ptr_copy i (i + 1) (?len - i) ?arr)[i := (Some n, sz)] =
        take i ?arr @ (Some n, sz) # take (?len - i) (drop i ?arr) @ drop (?len + 1) ?arr"
      using i len by (simp add: ptr_copy_def take_Suc_conv_app_nth list_update_append)
    then have "used_entries u' = take i ?arr @ (Some n, sz) # take (?len - i) (drop i ?arr)"
      using i len by (simp add: used_entries_def u' take_Cons')
    moreover have "set (take i ?arr) \<subseteq> set (used_entries u)" "set (take (?len - i) (drop i ?arr)) \<subseteq> set (used_entries u)"
      using i by (auto simp: used_entries_def set_take_subset_set_take take_drop dest: in_set_dropD)
    ultimately show ?thesis by auto
  qed
qed (use assms in \<open>auto simp: write_used_number_and_size_def\<close>)

lemma count_used_sizes:
  "count_used_chunks us u = Some u' \<Longrightarrow> snd ` set (used_entries u') \<subseteq> uc_size ` set us \<union> snd ` set (used_entries u)"
proof (induction us arbitrary: u)
  case (Cons c us)
  then obtain v where v: "write_used_number_and_size (uc_size c) 1 u = Some v" "count_used_chunks us v = Some u'"
    by (auto simp: bind_eq_Some_conv)
  from Cons.IH [OF v(2)] write_used_sizes [OF v(1)] show ?case by auto
qed simp

lemma counted_sizes:
  "count_used_chunks us (new_used N) = Some u \<Longrightarrow> e \<in> set (used_entries u) \<Longrightarrow> \<exists>c\<in>set us. snd e = uc_size c"
  using count_used_sizes [of us "new_used N" u] by (auto simp: used_entries_def new_used_def)

section \<open>Room for a state\<close>

text \<open>One of the two kinds of used chunks of a state, and the vectors of its sizes.\<close>

definition kind_of_chunks :: "SizeClass \<Rightarrow> (State \<Rightarrow> UsedChunk list) \<Rightarrow> bool" where
  "kind_of_chunks cl f \<longleftrightarrow>
     (\<forall>s t. grown s t \<longrightarrow> length (f s) \<le> length (f t))
     \<and> (\<forall>s. chunk_sizes good_size aligned_chunk s \<longrightarrow> list_all (\<lambda>u. good_size cl (uc_size u)) (f s))"

lemma kinds_of_chunks: "kind_of_chunks Common used_common_chunks" "kind_of_chunks Large used_large_chunks"
  by (simp_all add: kind_of_chunks_def grown_def chunk_sizes_def list_all_iff)

definition vectors_of :: "('k, 'n) world tla_ops \<Rightarrow> SizeClass \<Rightarrow> (inner \<Rightarrow> bool) \<Rightarrow> (usize \<Rightarrow> addr list \<Rightarrow> addr \<Rightarrow> nat) \<Rightarrow>
    (usize \<Rightarrow> (addr, ('k, 'n) world) vec_env) \<Rightarrow> bool" where
  "vectors_of ops cl here wt V \<longleftrightarrow>
     (\<forall>sz. \<exists>get put. V sz = vec_of ops 8 get put
        \<and> vec_slot 8 get put (wt sz) (\<lambda>_. True) (\<lambda>x. good_size cl sz \<and> here x))"

lemma vec_slot_good:
  assumes "b \<Longrightarrow> vec_slot esz get put wt ok h" and "esz = 8 \<or> esz = 16" "\<And>a. wt [] a = 0"
  shows "vec_slot esz get put wt ok (\<lambda>x. b \<and> h x)"
  using assms by (cases b) (simp, simp add: vec_slot_def)

lemma vec_slot_here:
  "vec_slot esz get put wt ok (\<lambda>x. b \<and> h x) \<Longrightarrow> b \<Longrightarrow> vec_slot esz get put wt ok h"
  by (cases b) simp_all

lemma object_vectors:
  "vectors_of ops Common (\<lambda>_. True) (\<lambda>sz xs. chunks_count xs sz) (\<lambda>sz. common_objects ops (common_idx sz))"
  "vectors_of ops Large (\<lambda>_. True) (\<lambda>sz xs. chunks_count xs sz) (\<lambda>sz. large_objects ops (large_idx sz))"
proof -
  have "vec_slot 8 (\<lambda>x. common_object_table x ! common_idx sz) (\<lambda>v x. x\<lparr>common_object_table := (common_object_table x)[common_idx sz := v]\<rparr>)
      (\<lambda>xs. chunks_count xs sz) (\<lambda>_. True) (\<lambda>x. good_size Common sz \<and> True)" for sz
    using common_objects_slot [of "common_idx sz"] common_slot [of sz]
    by (intro vec_slot_good) (simp_all add: good_size_def common_idx_def)
  then show "vectors_of ops Common (\<lambda>_. True) (\<lambda>sz xs. chunks_count xs sz) (\<lambda>sz. common_objects ops (common_idx sz))"
    unfolding vectors_of_def common_objects_def by blast
  have "vec_slot 8 (\<lambda>x. large_object_table x ! large_idx sz) (\<lambda>v x. x\<lparr>large_object_table := (large_object_table x)[large_idx sz := v]\<rparr>)
      (\<lambda>xs. chunks_count xs sz) (\<lambda>_. True) (\<lambda>x. good_size Large sz \<and> True)" for sz
    using large_objects_slot [of "large_idx sz"] large_slot [of sz]
    by (intro vec_slot_good) (simp_all add: good_size_def large_idx_def)
  then show "vectors_of ops Large (\<lambda>_. True) (\<lambda>sz xs. chunks_count xs sz) (\<lambda>sz. large_objects ops (large_idx sz))"
    unfolding vectors_of_def large_objects_def by blast
qed

lemma chunk_vectors:
  "vectors_of ops Common (\<lambda>x. common_chunk_table x \<noteq> None) (\<lambda>_ _ _. 0) (\<lambda>sz. common_chunks_vec ops (common_idx sz))"
  "vectors_of ops Large (\<lambda>x. large_chunk_table x \<noteq> None) (\<lambda>_ _ _. 0) (\<lambda>sz. large_chunks_vec ops (large_idx sz))"
proof -
  have "vec_slot 8 (\<lambda>x. snd (the (common_chunk_table x)) ! common_idx sz)
      (\<lambda>v x. x\<lparr>common_chunk_table := put_in_box (common_idx sz) v (common_chunk_table x)\<rparr>)
      (\<lambda>_ _. 0) (\<lambda>_. True) (\<lambda>x. good_size Common sz \<and> common_chunk_table x \<noteq> None)" for sz
    by (intro vec_slot_good vec_slot_here [OF common_chunks_slot])
      (use common_slot [of sz] in \<open>simp_all add: good_size_def common_idx_def\<close>)
  then show "vectors_of ops Common (\<lambda>x. common_chunk_table x \<noteq> None) (\<lambda>_ _ _. 0) (\<lambda>sz. common_chunks_vec ops (common_idx sz))"
    unfolding vectors_of_def common_chunks_vec_def by blast
  have "vec_slot 8 (\<lambda>x. snd (the (large_chunk_table x)) ! large_idx sz)
      (\<lambda>v x. x\<lparr>large_chunk_table := put_in_box (large_idx sz) v (large_chunk_table x)\<rparr>)
      (\<lambda>_ _. 0) (\<lambda>_. True) (\<lambda>x. good_size Large sz \<and> large_chunk_table x \<noteq> None)" for sz
    by (intro vec_slot_good vec_slot_here [OF large_chunks_slot])
      (use large_slot [of sz] in \<open>simp_all add: good_size_def large_idx_def\<close>)
  then show "vectors_of ops Large (\<lambda>x. large_chunk_table x \<noteq> None) (\<lambda>_ _ _. 0) (\<lambda>sz. large_chunks_vec ops (large_idx sz))"
    unfolding vectors_of_def large_chunks_vec_def by blast
qed

text \<open>The first state, when there is one.\<close>

definition first_state :: "(State \<Rightarrow> bool) \<Rightarrow> ('k, 'n) world \<Rightarrow> bool" where
  "first_state Q w \<longleftrightarrow> panicked w \<or> (\<exists>s c. maybe_state w = Some (s # c) \<and> Q s)"

lemma first_state_follows:
  assumes "first_state Q w" and "follows w w'" and "\<And>s t. Q s \<Longrightarrow> grown s t \<Longrightarrow> Q t"
  shows "first_state Q w'"
  using assms by (auto simp: first_state_def follows_def chain_grown_def split: if_splits option.splits list.splits)

lemma first_state_good: "holds E M P A w u \<Longrightarrow> first_state (\<lambda>_. True) w \<Longrightarrow> first_state (chunk_sizes good_size aligned_chunk) w"
  by (auto simp: holds_def first_state_def own_def chain_now_def)

context owning
begin

lemma reserve_or_panic_goes:
  assumes "vec_slot esz get put wt ok here" and "present here w" and "reserve_or_panic fuel (vec_of ops esz get put) n w = Some (b, w')"
  shows "to A w u w' u"
  using assms(3) reserve_goes [OF assms(1,2)] by (auto simp: reserve_or_panic_def split: option.splits sum.splits)

lemma reserve_for_slots_goes:
  assumes f: "kind_of_chunks cl f" and V: "vectors_of ops cl (\<lambda>_. True) wt V"
  shows "reserve_for_slots ops (\<lambda>w. f (state_now w)) V is w = Some (b, w') \<Longrightarrow> first_state (\<lambda>s. \<forall>i\<in>set is. i < length (f s)) w \<Longrightarrow>
    to A w u w' u"
proof (induction "is" arbitrary: w b)
  case (Cons i "is")
  let ?c = "f (state_now w) ! i"
  obtain b1 w1 b2 where r: "reserve_or_panic (rounds ops) (V (uc_size ?c)) (number_of_free_slots ?c) w = Some (b1, w1)"
    "reserve_for_slots ops (\<lambda>w. f (state_now w)) V is w1 = Some (b2, w')"
    using Cons.prems(1) by (auto simp: Let_def split: option.splits)
  obtain get put where v: "V (uc_size ?c) = vec_of ops 8 get put"
    "vec_slot 8 get put (wt (uc_size ?c)) (\<lambda>_. True) (\<lambda>x. good_size cl (uc_size ?c) \<and> True)"
    using V unfolding vectors_of_def by blast
  show ?case
  proof (rule goesI2)
    assume H: "holds E M P A w u"
    have "first_state (chunk_sizes good_size aligned_chunk) w"
      by (rule first_state_good [OF H]) (use Cons.prems(2) in \<open>auto simp: first_state_def\<close>)
    then have "present (\<lambda>x. good_size cl (uc_size ?c) \<and> True) w"
      using Cons.prems(2) f by (auto simp: first_state_def present_def kind_of_chunks_def list_all_length)
    from goesD [OF reserve_or_panic_goes [OF v(2) this r(1) [unfolded v(1)]] H]
    have k1: "follows w w1 \<and> holds E M P A w1 u" .
    have "first_state (\<lambda>s. \<forall>i\<in>set is. i < length (f s)) w1"
    proof (rule first_state_follows [OF _ conjunct1 [OF k1]])
      show "first_state (\<lambda>s. \<forall>i\<in>set is. i < length (f s)) w" using Cons.prems(2) by (auto simp: first_state_def)
      show "\<forall>i\<in>set is. i < length (f t)" if "\<forall>i\<in>set is. i < length (f s)" "grown s t" for s t
        using f that by (auto simp: kind_of_chunks_def intro: less_le_trans)
    qed
    from goes_step [OF k1 Cons.IH [OF r(2) this]] show "follows w w' \<and> holds E M P A w' u" .
  qed
qed simp

lemma reserve_in_tables_goes:
  assumes table: "\<And>w w'. table w = Some w' \<Longrightarrow> (\<forall>u. to A w u w' u) \<and> present here w'" and V: "vectors_of ops cl here wt V"
  shows "reserve_in_tables ops table V es w = Some (b, w') \<Longrightarrow> panicked w \<or> list_all (\<lambda>e. good_size cl (snd e)) es \<Longrightarrow> to A w u w' u"
proof (induction es arbitrary: w b)
  case (Cons e es)
  obtain c sz where e: "e = (c, sz)" by fastforce
  show ?case
  proof (cases c)
    case None
    with Cons.prems(1) show ?thesis by (simp add: e)
  next
    case (Some number)
    note run = Cons.prems(1) [unfolded e Some]
    obtain w1 where t: "table w = Some w1" using run by (auto simp: bind_eq_Some_conv)
    obtain x w2 where x: "reserve (rounds ops) (V sz) True (unat number) w1 = Some (x, w2)"
      using run t by (cases "reserve (rounds ops) (V sz) True (unat number) w1") auto
    obtain b1 where "x = Inr b1" using run t x by (cases x) simp_all
    with run t x obtain b2 where r: "table w = Some w1" "reserve (rounds ops) (V sz) True (unat number) w1 = Some (Inr b1, w2)"
      "reserve_in_tables ops table V es w2 = Some (b2, w')" by auto
    obtain get put where v: "V sz = vec_of ops 8 get put" "vec_slot 8 get put (wt sz) (\<lambda>_. True) (\<lambda>x. good_size cl sz \<and> here x)"
      using V unfolding vectors_of_def by blast
    show ?thesis
    proof (rule goesI2)
      assume H: "holds E M P A w u"
      have k1: "follows w w1 \<and> holds E M P A w1 u" using goesD [OF _ H] table [OF r(1)] by blast
      have p1: "panicked w1 \<or> list_all (\<lambda>e. good_size cl (snd e)) (e # es)"
        using Cons.prems(2) k1 follows_panicked by blast
      then have "present (\<lambda>x. good_size cl sz \<and> here x) w1" using table [OF r(1)] by (auto simp: present_def e)
      note k2 = goes_step [OF k1 reserve_goes [OF v(2) this r(2) [unfolded v(1)]]]
      have "follows w1 w2" using goesD [OF reserve_goes [OF v(2) \<open>present _ w1\<close> r(2) [unfolded v(1)]]] k1 by blast
      with p1 have "panicked w2 \<or> list_all (\<lambda>e. good_size cl (snd e)) es" by (auto dest: follows_panicked)
      from goes_step [OF k2 Cons.IH [OF r(3) this]] show "follows w w' \<and> holds E M P A w' u" .
    qed
  qed
qed simp

lemma prepare_to_handle_state_goes:
  assumes "prepare_to_handle_state (cm_env_of E ops) f w = Some (b, w')"
  shows "to A w u w' u"
proof -
  let ?X = "cm_env_of E ops"
  obtain b1 w1 b2 w2 b3 where r: "reserve_or_panic (rounds ops) (regions_vec ?X) 1 w = Some (b1, w1)"
    "reserve_or_panic (rounds ops) (large_vec ?X) (length (free_large_chunks (f w1))) w1 = Some (b2, w2)"
    "reserve_or_panic (rounds ops) (common_vec ?X) (length (free_common_chunks (f w2))) w2 = Some (b3, w')"
    using assms unfolding prepare_to_handle_state_def cm_env_of_def by (simp split: option.splits prod.splits) blast
  have "to A w u w1 u"
    by (rule reserve_or_panic_goes [OF regions_slot]) (use r(1) in \<open>simp_all add: present_def cm_env_of_def\<close>)
  also have "to A w1 u w2 u"
    by (rule reserve_or_panic_goes [OF free_large_slot]) (use r(2) in \<open>simp_all add: present_def cm_env_of_def\<close>)
  also have "to A w2 u w' u"
    by (rule reserve_or_panic_goes [OF free_common_slot]) (use r(3) in \<open>simp_all add: present_def cm_env_of_def\<close>)
  finally show ?thesis .
qed

text \<open>Room in the tables of chunks for what is counted in the state the world has.\<close>

lemma reserve_counted_goes:
  assumes f: "kind_of_chunks cl f" and c: "count_used_chunks (f (state_now w)) (new_used N) = Some arr"
    and table: "\<And>w w'. table w = Some w' \<Longrightarrow> (\<forall>u. to A w u w' u) \<and> present here w'" and V: "vectors_of ops cl here wt V"
    and run: "reserve_in_tables ops table V (used_entries arr) w = Some (b, w')" and s: "first_state (\<lambda>_. True) w"
  shows "to A w u w' u"
proof (rule goesI2)
  assume H: "holds E M P A w u"
  have "panicked w \<or> list_all (\<lambda>u. good_size cl (uc_size u)) (f (state_now w))"
    using first_state_good [OF H s] f by (auto simp: first_state_def kind_of_chunks_def)
  then have "panicked w \<or> list_all (\<lambda>e. good_size cl (snd e)) (used_entries arr)"
    using counted_sizes [OF c] by (fastforce simp: list_all_iff)
  from goesD [OF reserve_in_tables_goes [OF table V run this] H]
  show "follows w w' \<and> holds E M P A w' u" .
qed

lemma chunk_tables_there:
  "get_common_chunk_table ops w = Some w' \<Longrightarrow> (\<forall>u. to A w u w' u) \<and> present (\<lambda>x. common_chunk_table x \<noteq> None) w'"
  "get_large_chunk_table ops w = Some w' \<Longrightarrow> (\<forall>u. to A w u w' u) \<and> present (\<lambda>x. large_chunk_table x \<noteq> None) w'"
  using get_common_chunk_table_goes [of w w'] get_large_chunk_table_goes [of w w'] by (simp_all add: present_def)

lemma has_state_follows: "first_state (\<lambda>_. True) w \<Longrightarrow> follows w w' \<Longrightarrow> first_state (\<lambda>_. True) w'"
  by (erule first_state_follows) simp_all

lemma prepare_round_goes:
  assumes run: "prepare_round E ops w = Some (b, w')" and s: "first_state (\<lambda>_. True) w"
  shows "to A w u w' u"
proof (rule goesI2)
  assume H: "holds E M P A w u"
  from run obtain b1 w1 b2 w2 larges b3 w3 commons b4 w4 b5 where
    r1: "reserve_for_slots ops (\<lambda>w. used_common_chunks (state_now w)) (\<lambda>sz. common_objects ops (common_idx sz))
           [0 ..< length (used_common_chunks (state_now w))] w = Some (b1, w1)"
    and r2: "reserve_for_slots ops (\<lambda>w. used_large_chunks (state_now w)) (\<lambda>sz. large_objects ops (large_idx sz))
           [0 ..< length (used_large_chunks (state_now w1))] w1 = Some (b2, w2)"
    and c3: "count_used_chunks (used_large_chunks (state_now w2)) (new_used LARGE_CHUNKS_IN_REGION) = Some larges"
    and r3: "reserve_in_tables ops (get_large_chunk_table ops) (\<lambda>sz. large_chunks_vec ops (large_idx sz)) (used_entries larges) w2 = Some (b3, w3)"
    and c4: "count_used_chunks (used_common_chunks (state_now w3)) (new_used MAX_COMMON_CHUNKS_IN_REGION) = Some commons"
    and r4: "reserve_in_tables ops (get_common_chunk_table ops) (\<lambda>sz. common_chunks_vec ops (common_idx sz)) (used_entries commons) w3 = Some (b4, w4)"
    and r5: "prepare_to_handle_state (cm_env_of E ops) state_now w4 = Some (b5, w')"
    unfolding prepare_round_def by (simp add: bind_eq_Some_conv split_paired_Ex) blast
  have all: "first_state (\<lambda>s. \<forall>i\<in>set [0 ..< length (f (state_now v))]. i < length (f s)) v" if "first_state (\<lambda>_. True) v"
    for f :: "State \<Rightarrow> UsedChunk list" and v :: "('k, 'n) world"
    using that by (auto simp: first_state_def)
  note k1 = goesD [OF reserve_for_slots_goes [OF kinds_of_chunks(1) object_vectors(1) r1 all [OF s]] H]
  note s1 = has_state_follows [OF s conjunct1 [OF k1]]
  note k2 = goes_step [OF k1 reserve_for_slots_goes [OF kinds_of_chunks(2) object_vectors(2) r2 all [OF s1]]]
  note s2 = has_state_follows [OF s conjunct1 [OF k2]]
  note k3 = goes_step [OF k2 reserve_counted_goes [OF kinds_of_chunks(2) c3 chunk_tables_there(2) chunk_vectors(2) r3 s2]]
  note s3 = has_state_follows [OF s conjunct1 [OF k3]]
  note k4 = goes_step [OF k3 reserve_counted_goes [OF kinds_of_chunks(1) c4 chunk_tables_there(1) chunk_vectors(1) r4 s3]]
  from goes_step [OF k4 prepare_to_handle_state_goes [OF r5]]
  show "follows w w' \<and> holds E M P A w' u" .
qed

lemma prepare_loop_goes:
  "prepare_loop n E ops w = Some w' \<Longrightarrow> first_state (\<lambda>_. True) w \<Longrightarrow> to A w u w' u"
proof (induction n arbitrary: w)
  case (Suc n)
  obtain b w1 where r: "prepare_round E ops w = Some (b, w1)" and rest: "if b then prepare_loop n E ops w1 = Some w' else w' = w1"
    using Suc.prems(1) by (auto split: option.splits if_splits)
  show ?case
  proof (rule goesI2)
    assume H: "holds E M P A w u"
    note k1 = goesD [OF prepare_round_goes [OF r Suc.prems(2)] H]
    have "to A w1 u w' u"
      using rest Suc.IH [OF _ has_state_follows [OF Suc.prems(2) conjunct1 [OF k1]]] by (cases b) simp_all
    from goes_step [OF k1 this] show "follows w w' \<and> holds E M P A w' u" .
  qed
qed simp

end

section \<open>Taking over a state\<close>

text \<open>Taking over uses up the first state, so only a part of \<open>follows\<close> is left.\<close>

definition comes :: "('k, 'n) world \<Rightarrow> ('k, 'n) world \<Rightarrow> bool" where
  "comes w w' \<longleftrightarrow> (panicked w \<longrightarrow> panicked w') \<and> (panicked w' \<or> same_tables (inner w) (inner w'))"

lemma comes_refl [simp]: "comes w w"
  by (simp add: comes_def same_tables_def)

lemma comes_trans: "comes a b \<Longrightarrow> comes b c \<Longrightarrow> comes a c"
  by (auto simp: comes_def same_tables_def)

lemma follows_comes: "follows w w' \<Longrightarrow> comes w w'"
  by (auto simp: follows_def comes_def same_tables_def split: if_splits)

lemma comes_follows: "comes (w\<lparr>maybe_state := m\<rparr>) w' \<Longrightarrow> follows w (w'\<lparr>maybe_state := maybe_state w\<rparr>)"
  by (auto simp: follows_def comes_def same_tables_def)

lemma goes_comes:
  "goes E M P A w1 u1 w2 u2 \<Longrightarrow> comes w w1 \<and> holds E M P A w1 u1 \<Longrightarrow> comes w w2 \<and> holds E M P A w2 u2"
  by (auto simp: goes_def intro: comes_trans follows_comes)

lemma clear_used:
  assumes H: "holds E M P A w u" and s: "first_state (\<lambda>s. state_at s = p) w"
    and f: "f = used_common_chunks \<and> t = (state_now w)\<lparr>used_common_chunks := []\<rparr> \<or>
      f = used_large_chunks \<and> t = (state_now w)\<lparr>used_large_chunks := []\<rparr>"
  shows "comes w (set_state_now t w) \<and> holds E M P A (set_state_now t w) (both u (in_regions (slots_count (f (state_now w)))))"
    and "first_state (\<lambda>s. state_at s = p) (set_state_now t w)"
proof -
  show "first_state (\<lambda>s. state_at s = p) (set_state_now t w)"
    using s f by (auto simp: first_state_def set_state_now_def)
  have "own E M P (chain_now (set_state_now t w) @ A) w (both u (in_regions (slots_count (f (state_now w)))))"
    if np: "\<not> panicked w"
  proof -
    obtain s c where c: "maybe_state w = Some (s # c)" using s np by (auto simp: first_state_def)
    have o: "own E M P ((s # c) @ A) w u" using H np c by (simp add: holds_def chain_now_def)
    have "own E M P ((t # c) @ A) w (both u (in_regions (slots_count (f s))))"
    proof (rule own_moves [OF o])
      show "chain_count (size_of_state E) (t # c) a + both u (in_regions (slots_count (f s))) False a
          \<le> chain_count (size_of_state E) (s # c) a + u False a" for a
        using f c by (auto simp: state_count_def)
      show "list_all (chunk_sizes good_size aligned_chunk) (t # c)"
        using o f c by (auto simp: own_def chunk_sizes_def)
    qed (use f c in auto)
    then show ?thesis by (simp add: set_state_now_def chain_now_def c)
  qed
  then show "comes w (set_state_now t w) \<and> holds E M P A (set_state_now t w) (both u (in_regions (slots_count (f (state_now w)))))"
    using H by (auto simp: holds_def set_state_now_def comes_def same_tables_def)
qed

lemma own_cm_handle_state:
  assumes o: "own E M P (s # c) w u" and run: "cm_handle_state s (chunk_manager (inner w)) = Some cm"
  shows "own E M P c (w\<lparr>inner := (inner w)\<lparr>chunk_manager := cm\<rparr>\<rparr>) (both u (in_regions (location_count (size_of_state E) (state_at s))))"
proof -
  let ?cm = "chunk_manager (inner w)" and ?w = "w\<lparr>inner := (inner w)\<lparr>chunk_manager := cm\<rparr>\<rparr>"
  let ?v = "\<lparr>view_ptr = region_ptr s, number_of_common_chunks_occupied = MAX_COMMON_CHUNKS_IN_REGION\<rparr>"
  let ?ext = "\<lambda>v xs. v\<lparr>vec_elems := vec_elems v @ xs\<rparr>"
  have cm: "cm = \<lparr>cm_free_large_chunks = ?ext (cm_free_large_chunks ?cm) (free_large_chunks s),
      cm_free_common_chunks = ?ext (cm_free_common_chunks ?cm) (free_common_chunks s), cm_regions = ?ext (cm_regions ?cm) [?v]\<rparr>"
    using run by (auto simp: cm_handle_state_def try_push_def try_extend_from_slice_def split: if_splits option.splits)
  have s: "chunk_sizes good_size aligned_chunk s" "list_all (chunk_sizes good_size aligned_chunk) c" "shaped (inner w)"
    using o by (simp_all add: own_def)
  have live: "set (live c ?w) = set (live (s # c) w)" by (auto simp: live_def cm)
  have fc: "first_chunks (live c ?w) a = first_chunks (live (s # c) w) a" for a
    by (simp add: live_def cm)
  have "vec_block n (?ext v xs) k a = vec_block n v k a" for n xs k a and v :: "'x self_vec" by (simp add: vec_block_def)
  then have ib: "inner_bytes n ((inner w)\<lparr>chunk_manager := cm\<rparr>) k a = inner_bytes n (inner w) k a
      + in_regions (chunks_count (free_large_chunks s) LARGE_CHUNK_SIZE) k a
      + in_regions (chunks_count (free_common_chunks s) COMMON_CHUNK_SIZE) k a" for n k a
    by (cases k) (simp_all add: inner_bytes_def cm_bytes_def cm chunk_vec_def vec_block_def)
  show ?thesis
  proof (rule own_le [OF o])
    show "shaped (inner ?w)" using s(1,3) by (auto simp: shaped_def cm chunk_sizes_def list_all_iff)
    show "bytes E P c ?w (both u (in_regions (location_count (size_of_state E) (state_at s)))) k a \<le> bytes E P (s # c) w u k a" for k a
      by (cases k) (simp_all add: bytes_def ib fc state_count_def)
  qed (use s live in simp_all)
qed

context owning
begin

lemma push_slots_goes:
  assumes V: "vec_slot 8 get put (\<lambda>xs. chunks_count xs (uc_size c)) (\<lambda>_. True) here" and p: "present here w"
    and run: "push_slots (vec_of ops 8 get put) c w = Some w'"
  shows "to A w (both u (in_regions (slots_count [c]))) w' u"
proof -
  obtain q v where v: "carve (number_of_free_slots c) (uc_size c) (uc_ptr c) (get (inner w)) = Some (q, v)"
    and w': "w' = w\<lparr>inner := put v (inner w)\<rparr>"
    using run by (auto simp: push_slots_def)
  note f = carve_facts [OF v]
  have "vec_block 8 v k a = vec_block 8 (get (inner w)) k a" for k a using f by (simp add: vec_block_def)
  then show ?thesis
    unfolding w' by (intro goes_set_vec [OF V p])
      (use f in \<open>auto simp: list_all_iff chunks_count_laid mult.commute in_regions_def\<close>)
qed

lemma push_there_goes:
  assumes V: "vec_slot 8 get put (\<lambda>_ _. 0) (\<lambda>_. True) here" and p: "present here w"
    and run: "push_there (vec_of ops 8 get put) x w = Some w'"
  shows "to A w u w' u"
proof -
  let ?v = "(get (inner w))\<lparr>vec_elems := vec_elems (get (inner w)) @ [x]\<rparr>"
  have w': "w' = w\<lparr>inner := put ?v (inner w)\<rparr>"
    using run by (auto simp: push_there_def try_push_def split: if_splits)
  have "vec_block 8 ?v k a = vec_block 8 (get (inner w)) k a" for k a by (simp add: vec_block_def)
  then show ?thesis
    unfolding w' by (intro goes_set_vec [OF V p, where xs = "[x]"]) (simp_all add: in_regions_def)
qed

text \<open>One chunk.\<close>

lemma commit_goes:
  assumes V: "vectors_of ops cl (\<lambda>_. True) (\<lambda>sz xs. chunks_count xs sz) V" and T: "vectors_of ops cl here (\<lambda>_ _ _. 0) T"
    and p: "present (\<lambda>x. good_size cl (uc_size c) \<and> here x) w"
    and run: "push_slots (V (uc_size c)) c (w\<lparr>cells := m1\<rparr>) = Some w1" "push_there (T (uc_size c)) (uc_ptr c) (w1\<lparr>cells := m2\<rparr>) = Some w'"
  shows "to A w (both u (in_regions (slots_count [c]))) w' u"
proof (rule goesI2)
  let ?u = "both u (in_regions (slots_count [c]))"
  assume H: "holds E M P A w ?u"
  obtain get put where v: "V (uc_size c) = vec_of ops 8 get put"
    "vec_slot 8 get put (\<lambda>xs. chunks_count xs (uc_size c)) (\<lambda>_. True) (\<lambda>x. good_size cl (uc_size c) \<and> True)"
    using V unfolding vectors_of_def by blast
  obtain getT putT where t: "T (uc_size c) = vec_of ops 8 getT putT"
    "vec_slot 8 getT putT (\<lambda>_ _. 0) (\<lambda>_. True) (\<lambda>x. good_size cl (uc_size c) \<and> here x)"
    using T unfolding vectors_of_def by blast
  have k0: "follows w (w\<lparr>cells := m1\<rparr>) \<and> holds E M P A (w\<lparr>cells := m1\<rparr>) ?u" using goesD [OF goes_cells H] .
  have "present (\<lambda>x. good_size cl (uc_size c) \<and> True) (w\<lparr>cells := m1\<rparr>)" using p by (auto simp: present_def)
  note k1 = goes_step [OF k0 push_slots_goes [OF v(2) this run(1) [unfolded v(1)]]]
  note k2 = goes_step [OF k1 goes_cells [where m = m2]]
  have "present (\<lambda>x. good_size cl (uc_size c) \<and> here x) (w1\<lparr>cells := m2\<rparr>)"
    by (rule present_follows [OF t(2) p conjunct1 [OF k2]])
  from goes_step [OF k2 push_there_goes [OF t(2) this run(2) [unfolded t(1)]]]
  show "follows w w' \<and> holds E M P A w' u" .
qed

lemma commit_common_goes:
  assumes "commit_common ops m c w = Some w'" and "present (\<lambda>x. good_size Common (uc_size c) \<and> common_chunk_table x \<noteq> None) w"
  shows "to A w (both u (in_regions (slots_count [c]))) w' u"
proof -
  obtain w1 m2 where "push_slots (common_objects ops (common_idx (uc_size c))) c w = Some w1"
    "push_there (common_chunks_vec ops (common_idx (uc_size c))) (uc_ptr c) (w1\<lparr>cells := m2\<rparr>) = Some w'"
    using assms(1) by (auto simp: commit_common_def Let_def bind_eq_Some_conv)
  then show ?thesis
    by (intro commit_goes [OF object_vectors(1) chunk_vectors(1) assms(2), of "cells w" w1 m2]) simp_all
qed

lemma commit_large_goes:
  assumes "commit_large ops m c w = Some w'" and "present (\<lambda>x. good_size Large (uc_size c) \<and> large_chunk_table x \<noteq> None) w"
  shows "to A w (both u (in_regions (slots_count [c]))) w' u"
proof -
  obtain w1 m1 where "push_slots (large_objects ops (large_idx (uc_size c))) c (w\<lparr>cells := m1\<rparr>) = Some w1"
    "push_there (large_chunks_vec ops (large_idx (uc_size c))) (uc_ptr c) w1 = Some w'"
    using assms(1) by (auto simp: commit_large_def Let_def bind_eq_Some_conv)
  then show ?thesis
    by (intro commit_goes [OF object_vectors(2) chunk_vectors(2) assms(2), of m1 w1 "cells w1"]) simp_all
qed

lemma commit_all_goes:
  assumes f: "\<And>c w w' u. f c w = Some w' \<Longrightarrow> present (\<lambda>x. good_size cl (uc_size c) \<and> here x) w \<Longrightarrow>
      to A w (both u (in_regions (slots_count [c]))) w' u"
    and here: "\<And>x y. here x \<Longrightarrow> same_tables x y \<Longrightarrow> here y"
  shows "commit_all f cs w = Some w' \<Longrightarrow> present here w \<Longrightarrow> panicked w \<or> list_all (\<lambda>c. good_size cl (uc_size c)) cs \<Longrightarrow>
    to A w (both u (in_regions (slots_count cs))) w' u"
proof (induction cs arbitrary: w)
  case Nil
  then show ?case by (simp add: goes_same [OF goes_refl])
next
  case (Cons c cs)
  obtain w1 where r: "f c w = Some w1" "commit_all f cs w1 = Some w'" using Cons.prems(1) by (auto simp: bind_eq_Some_conv)
  let ?u = "both u (in_regions (slots_count cs))"
  have u: "both u (in_regions (slots_count (c # cs))) = both ?u (in_regions (slots_count [c]))"
    by (auto simp: fun_eq_iff in_regions_def)
  have "present (\<lambda>x. good_size cl (uc_size c) \<and> here x) w" using Cons.prems(2,3) by (auto simp: present_def)
  note t = f [OF r(1) this, of ?u]
  show ?case
    unfolding u
  proof (rule goesI2)
    assume H: "holds E M P A w (both ?u (in_regions (slots_count [c])))"
    note k1 = goesD [OF t H]
    have "present here w1" "panicked w1 \<or> list_all (\<lambda>c. good_size cl (uc_size c)) cs"
      using k1 Cons.prems(2,3) here by (auto simp: present_def follows_def same_tables_def split: if_splits)
    from goes_step [OF k1 Cons.IH [OF r(2) this]] show "follows w w' \<and> holds E M P A w' u" .
  qed
qed

lemma commit_state_comes:
  assumes run: "commit_state E ops w = Some w'" and H: "holds E M P A w u" and s: "first_state (\<lambda>s. state_at s = p) w"
  shows "comes w w' \<and> (panicked w' \<or> (\<exists>s c. maybe_state w' = Some (s # c)
    \<and> own E M P (c @ A) w' (both u (in_regions (location_count (size_of_state E) p)))))"
proof -
  let ?S = "first_state (\<lambda>s. state_at s = p)"
  obtain m w1 w2 w3 w4 w5 cm where r1: "get_or_init_non_local_ptr_manager E ops w = Some (m, w1)"
    and r2: "get_common_chunk_table ops w1 = Some w2"
    and r3: "commit_all (commit_common ops m) (used_common_chunks (state_now w2)) (set_state_now ((state_now w2)\<lparr>used_common_chunks := []\<rparr>) w2) = Some w3"
    and r4: "get_large_chunk_table ops w3 = Some w4"
    and r5: "commit_all (commit_large ops m) (used_large_chunks (state_now w4)) (set_state_now ((state_now w4)\<lparr>used_large_chunks := []\<rparr>) w4) = Some w5"
    and cm: "cm_handle_state (state_now w5) (chunk_manager (inner w5)) = Some cm" and w': "w' = w5\<lparr>inner := (inner w5)\<lparr>chunk_manager := cm\<rparr>\<rparr>"
    using run unfolding commit_state_def by (auto simp: bind_eq_Some_conv)
  have keep: "?S w'" if "?S w" "follows w w'" for w w' :: "('k, 'n) world"
    by (rule first_state_follows [OF that]) (simp add: grown_def)
  have good: "panicked w \<or> list_all (\<lambda>c. good_size cl (uc_size c)) (f (state_now w))"
    if "holds E M P A w u" "?S w" "kind_of_chunks cl f" for w u cl and f :: "State \<Rightarrow> UsedChunk list"
    using first_state_good [OF that(1)] that(2,3) by (auto simp: first_state_def kind_of_chunks_def)
  note k1 = goesD [OF get_or_init_goes [OF r1] H]
  note k2 = goes_step [OF k1 get_common_chunk_table_goes(1) [OF r2]]
  have s2: "?S w2" using keep [OF s] k2 by blast
  let ?v2 = "set_state_now ((state_now w2)\<lparr>used_common_chunks := []\<rparr>) w2"
  have c2: "comes w w2" using k2 follows_comes by blast
  note v2 = clear_used [OF conjunct2 [OF k2] s2, of used_common_chunks "(state_now w2)\<lparr>used_common_chunks := []\<rparr>", OF disjI1, simplified]
  have p2: "present (\<lambda>x. common_chunk_table x \<noteq> None) ?v2" "panicked ?v2 \<or> list_all (\<lambda>c. good_size Common (uc_size c)) (used_common_chunks (state_now w2))"
    using get_common_chunk_table_goes(2) [OF r2] good [OF conjunct2 [OF k2] s2 kinds_of_chunks(1)] by (simp_all add: present_def set_state_now_def)
  have t3: "to A ?v2 (both u (in_regions (slots_count (used_common_chunks (state_now w2))))) w3 u"
    by (rule commit_all_goes [OF commit_common_goes _ r3 p2]) (simp_all add: same_tables_def)
  note k3 = goesD [OF t3 conjunct2 [OF v2(1)]]
  have c3: "comes w w3" using c2 v2(1) k3 comes_trans follows_comes by blast
  have s3: "?S w3" using keep v2(2) k3 by blast
  note k4 = goesD [OF get_large_chunk_table_goes(1) [OF r4] conjunct2 [OF k3]]
  have c4: "comes w w4" using c3 k4 comes_trans follows_comes by blast
  have s4: "?S w4" using keep s3 k4 by blast
  let ?v4 = "set_state_now ((state_now w4)\<lparr>used_large_chunks := []\<rparr>) w4"
  note v4 = clear_used [OF conjunct2 [OF k4] s4, of used_large_chunks "(state_now w4)\<lparr>used_large_chunks := []\<rparr>", OF disjI2, simplified]
  have p4: "present (\<lambda>x. large_chunk_table x \<noteq> None) ?v4" "panicked ?v4 \<or> list_all (\<lambda>c. good_size Large (uc_size c)) (used_large_chunks (state_now w4))"
    using get_large_chunk_table_goes(2) [OF r4] good [OF conjunct2 [OF k4] s4 kinds_of_chunks(2)] by (simp_all add: present_def set_state_now_def)
  have t5: "to A ?v4 (both u (in_regions (slots_count (used_large_chunks (state_now w4))))) w5 u"
    by (rule commit_all_goes [OF commit_large_goes _ r5 p4]) (simp_all add: same_tables_def)
  note k5 = goesD [OF t5 conjunct2 [OF v4(1)]]
  have c5: "comes w w5" using c4 v4(1) k5 comes_trans follows_comes by blast
  have s5: "?S w5" using keep v4(2) k5 by blast
  have "comes w5 w'" by (auto simp: comes_def w' same_tables_def)
  with c5 have "comes w w'" by (rule comes_trans)
  moreover have "\<exists>s c. maybe_state w' = Some (s # c) \<and> own E M P (c @ A) w' (both u (in_regions (location_count (size_of_state E) p)))"
    if np: "\<not> panicked w'"
  proof -
    have np5: "\<not> panicked w5" using np by (simp add: w')
    then obtain s c where c: "maybe_state w5 = Some (s # c)" "state_at s = p" using s5 by (auto simp: first_state_def)
    then have "own E M P (s # c @ A) w5 u" using k5 np5 by (simp add: holds_def chain_now_def)
    from own_cm_handle_state [OF this, of cm] cm c show ?thesis by (simp add: w')
  qed
  ultimately show ?thesis by blast
qed

text \<open>The chain, state by state. The places of the states but the first are given back at the end.\<close>

lemma handle_states_comes:
  "handle_states n E ops L w = Some (L', w') \<Longrightarrow>
    holds E M P A w (both u (in_regions (chunks_count L0 (size_of_state E)))) \<Longrightarrow>
    L = L0 \<and> first_state (\<lambda>_. True) w \<or> (\<exists>p. L = L0 @ [p] \<and> p \<noteq> 0 \<and> first_state (\<lambda>s. state_at s = p) w) \<Longrightarrow>
    comes w w' \<and> maybe_state w' = None \<and> holds E M P A w' (both u (in_regions (chunks_count L' (size_of_state E))))"
proof (induction n arbitrary: L L0 w)
  case (Suc n)
  let ?sos = "size_of_state E"
  let ?u = "\<lambda>L. both u (in_regions (chunks_count L ?sos))"
  obtain w1 w2 where r1: "prepare_loop (rounds ops) E ops w = Some w1" and r2: "commit_state E ops w1 = Some w2"
    and raw: "(case tl (the (maybe_state w2)) of [] \<Rightarrow> Some (L, w2\<lparr>maybe_state := None\<rparr>)
       | state # rest \<Rightarrow> if length L < 8 \<and> state_at state \<noteq> 0
          then handle_states n E ops (L @ [state_at state]) (w2\<lparr>maybe_state := Some (state # rest)\<rparr>) else None) = Some (L', w')"
    using Suc.prems(1) unfolding handle_states.simps bind_eq_Some_conv by blast
  have fs: "first_state (\<lambda>_. True) w" using Suc.prems(3) by (auto simp: first_state_def)
  note k1 = goesD [OF prepare_loop_goes [OF r1 fs] Suc.prems(2)]
  obtain p where p: "first_state (\<lambda>s. state_at s = p) w1" "L = L0 \<or> L = L0 @ [p] \<and> p \<noteq> 0"
  proof -
    from Suc.prems(3) consider "L = L0" | q where "L = L0 @ [q]" "q \<noteq> 0" "first_state (\<lambda>s. state_at s = q) w" by blast
    then show thesis
    proof cases
      case 1
      have "first_state (\<lambda>_. True) w1" using has_state_follows [OF fs] k1 by blast
      then obtain q where "first_state (\<lambda>s. state_at s = q) w1" by (auto simp: first_state_def)
      with 1 that show thesis by blast
    next
      case 2
      have "first_state (\<lambda>s. state_at s = q) w1"
        by (rule first_state_follows [OF 2(3) conjunct1 [OF k1]]) (simp add: grown_def)
      with 2 that show thesis by blast
    qed
  qed
  note k2 = commit_state_comes [OF r2 conjunct2 [OF k1] p(1)]
  have c2: "comes w w2" using k1 k2 comes_trans follows_comes by blast
  have env: "env_ok E M P" using k1 by (simp add: holds_def)
  have o: "own E M P (tl (the (maybe_state w2)) @ A) w2 (?u L)" if "\<not> panicked w2"
  proof -
    from k2 that have "own E M P (tl (the (maybe_state w2)) @ A) w2 (both (?u L0) (in_regions (location_count ?sos p)))"
      by (auto simp del: both_simps)
    then show ?thesis by (rule own_frame) (use p(2) in \<open>auto simp: in_regions_def location_count_def\<close>)
  qed
  show ?case
  proof (cases "tl (the (maybe_state w2))")
    case Nil
    with raw have r: "L' = L" "w' = w2\<lparr>maybe_state := None\<rparr>" by simp_all
    have "comes w2 w'" by (simp add: r comes_def same_tables_def)
    with c2 have "comes w w'" by (rule comes_trans)
    moreover have "holds E M P A w' (?u L')" using o Nil env by (auto simp: holds_def r chain_now_def)
    ultimately show ?thesis by (simp add: r del: both_simps)
  next
    case (Cons state rest')
    let ?w3 = "w2\<lparr>maybe_state := Some (state # rest')\<rparr>"
    from raw Cons have r: "handle_states n E ops (L @ [state_at state]) ?w3 = Some (L', w')" "state_at state \<noteq> 0" by (simp_all split: if_splits)
    have "holds E M P A ?w3 (?u L)" using o Cons env by (auto simp: holds_def chain_now_def)
    moreover have "first_state (\<lambda>s. state_at s = state_at state) ?w3" by (simp add: first_state_def)
    ultimately have "comes ?w3 w' \<and> maybe_state w' = None \<and> holds E M P A w' (?u L')"
      using Suc.IH [OF r(1)] r(2) by blast
    moreover have "comes w2 ?w3" by (simp add: comes_def same_tables_def)
    ultimately show ?thesis using c2 comes_trans by blast
  qed
qed simp

lemma dealloc_states_goes:
  "dealloc_states E ops L w = Some w' \<Longrightarrow> to A w (both u (in_regions (chunks_count L (size_of_state E)))) w' u"
proof (induction L arbitrary: w)
  case Nil
  then show ?case by (simp add: goes_same [OF goes_refl])
next
  case (Cons p L)
  obtain w1 where r: "dealloc_body E ops p (size_of_state E) w = Some w1" "dealloc_states E ops L w1 = Some w'"
    using Cons.prems by (auto simp: bind_eq_Some_conv)
  let ?u = "both u (in_regions (chunks_count L (size_of_state E)))"
  have u: "both u (in_regions (chunks_count (p # L) (size_of_state E))) = both ?u (in_regions (occ p (size_of_state E)))"
    by (auto simp: fun_eq_iff in_regions_def)
  show ?case
    unfolding u
  proof (rule goesI2)
    assume H: "holds E M P A w (both ?u (in_regions (occ p (size_of_state E))))"
    have sos: "0 < size_of_state E" "size_class_define (size_of_state E) \<noteq> ExtraLarge" "recommended_size (size_of_state E) = size_of_state E"
      using holds_env [OF H] by (simp_all add: env_ok_def size_of_state_ok_def class_iff)
    have b: "block p (size_of_state E) = in_regions (occ p (size_of_state E))"
      using block_as_object [OF sos(2), of p] by (simp add: sos(3))
    from goes_step [OF goesD [OF dealloc_body_goes [OF r(1) sos(1), of A ?u, unfolded b] H] Cons.IH [OF r(2)]]
    show "follows w w' \<and> holds E M P A w' u" .
  qed
qed

lemma handle_state_body_goes:
  assumes run: "handle_state_body E ops c w = Some w'" and c: "c \<noteq> [] \<or> panicked w" and H: "holds E M P (c @ A) w u"
  shows "follows w w' \<and> holds E M P A w' u"
proof -
  let ?w0 = "w\<lparr>maybe_state := Some c\<rparr>" and ?A = "chain_now w @ A"
  obtain w1 L w2 w3 where r1: "(if is_destructor_registered (inner ?w0) then Some ?w0
      else map_option snd (get_or_init_non_local_ptr_manager E ops ?w0)) = Some w1"
    and r2: "handle_states (rounds ops) E ops [] w1 = Some (L, w2)" and r3: "dealloc_states E ops L w2 = Some w3"
    and w': "w' = w3\<lparr>maybe_state := maybe_state w\<rparr>"
    using run unfolding handle_state_body_def Let_def by (auto simp: bind_eq_Some_conv simp del: split_paired_Ex split del: if_split)
  have "own E M P (c @ ?A) w u" if "\<not> panicked w"
    by (rule own_chain) (use H that in \<open>auto simp: holds_def\<close>)
  then have H0: "holds E M P ?A ?w0 u" using H c by (auto simp: holds_def chain_now_def)
  have "to ?A ?w0 u w1 u" using r1 get_or_init_goes by (auto split: if_splits)
  note k1 = goesD [OF this H0]
  have "first_state (\<lambda>_. True) ?w0" using c by (cases c) (auto simp: first_state_def)
  then have s1: "first_state (\<lambda>_. True) w1" using has_state_follows k1 by blast
  have "holds E M P ?A w1 (both u (in_regions (chunks_count [] (size_of_state E))))"
    by (rule conjunct2 [OF goes_step [OF k1 goes_same [OF goes_refl]]]) (simp add: in_regions_def)
  from handle_states_comes [OF r2 this] s1
  have k2: "comes w1 w2" "maybe_state w2 = None" "holds E M P ?A w2 (both u (in_regions (chunks_count L (size_of_state E))))" by simp_all
  note k3 = goesD [OF dealloc_states_goes [OF r3] k2(3)]
  have "comes ?w0 w3" using k1 k2(1) k3 comes_trans follows_comes by blast
  then have f: "follows w w'" unfolding w' by (rule comes_follows)
  have "maybe_state w3 = None \<or> panicked w3" using follows_maybe [of w2 w3] k3 k2(2) by auto
  then have "holds E M P A w' u"
    using k3 H f by (auto simp: holds_def w' chain_now_def dest: follows_panicked)
  with f show ?thesis by blast
qed

end

end
