(* ===== verification/ThreadOwner.thy ===== *)
theory ThreadOwner
  imports OwnHandleState LocalObjects
begin

text \<open>
  The promises of \<open>owning\<close> hold at every depth, so that they hold for a thread that allocates and frees.
\<close>

section \<open>Every depth\<close>

lemma panic_goes: "goes E M P A w u (w\<lparr>panicked := True\<rparr>) u'"
  by (rule goes_panicked) simp

lemma panic_holds: "holds E M P D w u \<Longrightarrow> follows w (w\<lparr>panicked := True\<rparr>) \<and> holds E M P A (w\<lparr>panicked := True\<rparr>) u'"
  by (simp add: follows_def holds_def)

lemma owning_Suc:
  assumes "owning E M P (allocator_at E n)"
  shows "owning E M P (allocator_at E (Suc n))"
proof
  let ?ops = "allocator_at E n"
  fix A w u w'
  { fix cnt sz r assume run: "op_self_alloc (allocator_at E (Suc n)) cnt sz w = (r, w')" and sz: "0 < sz" "recommended_size sz = sz"
    show "goes E M P A w u w' (case r of None \<Rightarrow> u | Some p \<Rightarrow> both u (block p sz))"
    proof (cases "self_alloc_body E ?ops cnt sz w")
      case None
      with run show ?thesis by (auto simp: Let_def or_panic_def intro: panic_goes)
    next
      case (Some x)
      with run have "self_alloc_body E ?ops cnt sz w = Some (r, w')" by (simp add: Let_def or_panic_def)
      from owning.self_alloc_body_goes [OF assms this sz] show ?thesis .
    qed }
  { fix sz :: usize and p assume sz: "0 < sz"
    show "goes E M P A w (both u (block p sz)) (op_self_dealloc (allocator_at E (Suc n)) p sz w) u"
      using owning.self_dealloc_body_goes [OF assms _ sz, of p w _ A u]
      by (cases "self_dealloc_body E ?ops p sz w") (simp_all add: Let_def panic_unit_def panic_goes) }
  { fix c assume c: "c \<noteq> [] \<or> panicked w" and H: "holds E M P (c @ A) w u"
    show "follows w (op_handle_state (allocator_at E (Suc n)) c w) \<and> holds E M P A (op_handle_state (allocator_at E (Suc n)) c w) u"
      using owning.handle_state_body_goes [OF assms _ c H] panic_holds [OF H, of A u]
      by (cases "handle_state_body E ?ops c w") (simp_all add: Let_def panic_unit_def) }
  { fix sz r assume run: "op_try_alloc (allocator_at E (Suc n)) sz w = (r, w')" and sz: "0 < sz"
    show "goes E M P A w u w' (case r of None \<Rightarrow> u | Some p \<Rightarrow> both u (block p sz))"
    proof (cases "try_alloc_body E ?ops sz w")
      case None
      with run show ?thesis by (auto simp: Let_def or_panic_def intro: panic_goes)
    next
      case (Some x)
      with run have "try_alloc_body E ?ops sz w = Some (r, w')" by (simp add: Let_def or_panic_def)
      from owning.try_alloc_body_goes [OF assms this sz] show ?thesis .
    qed }
qed

lemma owning_at: "owning E M P (allocator_at E n)"
proof (induction n)
  case 0
  show ?case
    by unfold_locales (auto intro: goes_panicked panic_goes simp: follows_def holds_def)
next
  case (Suc n)
  then show ?case by (rule owning_Suc)
qed

interpretation at: owning E M P "allocator_at E n"
  for E :: "('k, 'n) env" and M :: "'k \<Rightarrow> addr set" and P :: "'n \<Rightarrow> NonLocalPtrData list" and n :: nat
  by (rule owning_at)

section \<open>A thread that allocates and frees\<close>

text \<open>The blocks a thread holds, with the sizes it asked for, newest first; it frees one it holds.\<close>

datatype request = Request usize | Release nat

fun use_allocator :: "('k, 'n) env \<Rightarrow> nat \<Rightarrow> request list \<Rightarrow> (addr \<times> usize) list \<times> ('k, 'n) world \<Rightarrow>
    ((addr \<times> usize) list \<times> ('k, 'n) world) option" where
  "use_allocator E n [] s = Some s"
| "use_allocator E n (Request sz # rs) (bs, w) =
     (case try_alloc E n sz w of
        None \<Rightarrow> None
      | Some (None, w') \<Rightarrow> use_allocator E n rs (bs, w')
      | Some (Some p, w') \<Rightarrow> use_allocator E n rs ((p, sz) # bs, w'))"
| "use_allocator E n (Release i # rs) (bs, w) =
     (if i < length bs
      then Option.bind (dealloc E n (fst (bs ! i)) (snd (bs ! i)) w) (\<lambda>w'. use_allocator E n rs (list_remove i bs, w'))
      else None)"

definition accounts :: "('k, 'n) env \<Rightarrow> ('k \<Rightarrow> addr set) \<Rightarrow> ('n \<Rightarrow> NonLocalPtrData list) \<Rightarrow> (addr \<times> usize) list \<Rightarrow> ('k, 'n) world \<Rightarrow> bool" where
  "accounts E mapped waiting bs w \<longleftrightarrow>
     \<not> panicked w \<and> maybe_state w = None \<and> list_all (\<lambda>b. 0 < snd b) bs \<and> own E mapped waiting [] w (blocks bs)"

lemma goes_accounts:
  assumes a: "accounts E M P bs w" and g: "goes E M P [] w u w' u'" and u: "\<And>k a. u k a \<le> blocks bs k a"
    and u': "\<And>k a. blocks cs k a \<le> u' k a" and np: "\<not> panicked w'" and cs: "list_all (\<lambda>b. 0 < snd b) cs"
  shows "accounts E M P cs w'"
proof -
  have "own E M P [] w u" using a u by (auto simp: accounts_def intro: own_frame)
  then have "holds E M P [] w u" using a by (simp add: accounts_def holds_def chain_now_def own_def)
  note h = goesD [OF g this]
  then have "maybe_state w' = None" using a np follows_maybe [of w w'] by (simp add: accounts_def)
  moreover have "own E M P [] w' (blocks cs)"
    using h np u' \<open>maybe_state w' = None\<close> by (auto simp: holds_def chain_now_def intro: own_frame)
  ultimately show ?thesis using np cs by (simp add: accounts_def)
qed

lemma try_alloc_accounts:
  assumes a: "accounts E M P bs w" and run: "try_alloc E n sz w = Some (r, w')" and sz: "0 < sz"
  shows "accounts E M P (case r of None \<Rightarrow> bs | Some p \<Rightarrow> (p, sz) # bs) w'"
proof -
  have b: "try_alloc_body E (allocator_at E n) sz w = Some (r, w')" and np: "\<not> panicked w'"
    using run by (auto simp: try_alloc_def settled_def split: option.splits if_splits)
  show ?thesis
    by (rule goes_accounts [OF a at.try_alloc_body_goes [OF b sz, where u = "blocks bs"]]) (use a sz np in \<open>auto simp: accounts_def split: option.splits\<close>)
qed

lemma dealloc_accounts:
  assumes a: "accounts E M P bs w" and i: "i < length bs" and run: "dealloc E n (fst (bs ! i)) (snd (bs ! i)) w = Some w'"
  shows "accounts E M P (list_remove i bs) w'"
proof -
  have b: "dealloc_body E (allocator_at E n) (fst (bs ! i)) (snd (bs ! i)) w = Some w'" and np: "\<not> panicked w'"
    using run by (auto simp: dealloc_def settled_def split: option.splits if_splits)
  have "0 < snd (bs ! i)" using a i by (simp add: accounts_def list_all_length)
  note g = at.dealloc_body_goes [OF b this, where u = "blocks (list_remove i bs)"]
  show ?thesis
    by (rule goes_accounts [OF a g])
      (use a np blocks_remove [OF i] set_list_remove [of i bs] in \<open>auto simp: accounts_def list_all_iff list_remove_def dest: in_set_takeD in_set_dropD\<close>)
qed

lemma use_allocator_accounts:
  "use_allocator E n rs (bs, w) = Some (bs', w') \<Longrightarrow> accounts E M P bs w \<Longrightarrow> \<forall>sz. Request sz \<in> set rs \<longrightarrow> 0 < sz \<Longrightarrow>
    accounts E M P bs' w'"
proof (induction rs arbitrary: bs w)
  case (Cons r rs)
  show ?case
  proof (cases r)
    case (Request sz)
    obtain x w1 where t: "try_alloc E n sz w = Some (x, w1)" using Cons.prems(1) by (auto simp: Request split: option.splits)
    have "0 < sz" using Cons.prems(3) Request by simp
    note a = try_alloc_accounts [OF Cons.prems(2) t this]
    show ?thesis
    proof (cases x)
      case None
      with Cons.prems t a show ?thesis by (intro Cons.IH [of bs w1]) (simp_all add: Request)
    next
      case (Some p)
      with Cons.prems t a show ?thesis by (intro Cons.IH [of "(p, sz) # bs" w1]) (simp_all add: Request)
    qed
  next
    case (Release i)
    obtain w1 where i: "i < length bs" and d: "dealloc E n (fst (bs ! i)) (snd (bs ! i)) w = Some w1"
      and rest: "use_allocator E n rs (list_remove i bs, w1) = Some (bs', w')"
      using Cons.prems(1) by (auto simp: Release bind_eq_Some_conv split: if_splits)
    from Cons.IH [OF rest dealloc_accounts [OF Cons.prems(2) i d]] Cons.prems(3) show ?thesis by simp
  qed
qed simp

text \<open>What the accounts say of single bytes.\<close>

definition uses_byte :: "('k, 'n) env \<Rightarrow> ('n \<Rightarrow> NonLocalPtrData list) \<Rightarrow> ('k, 'n) world \<Rightarrow> addr \<Rightarrow> bool" where
  "uses_byte E waiting w a \<longleftrightarrow> (\<exists>k. 0 < bytes E waiting [] w (\<lambda>_ _. 0) k a)"

abbreviation block_range :: "addr \<times> usize \<Rightarrow> addr set" where
  "block_range b \<equiv> range_of (fst b) (owned_size (snd b))"

lemma block_at: "a \<in> block_range b \<Longrightarrow> \<exists>k. block (fst b) (snd b) k a = 1"
  using range_of_iff [of a "fst b" "owned_size (snd b)"] occ_le_1 [of "fst b" "owned_size (snd b)" a]
  by (auto simp: block_def)

lemma blocks_nth: "i < length bs \<Longrightarrow> block (fst (bs ! i)) (snd (bs ! i)) k a \<le> blocks bs k a"
  using blocks_remove [of i bs k a] by linarith

lemma blocks_two:
  assumes "i < length bs" and "j < length bs" and "i < j"
  shows "block (fst (bs ! i)) (snd (bs ! i)) k a + block (fst (bs ! j)) (snd (bs ! j)) k a \<le> blocks bs k a"
proof -
  have "blocks bs k a = blocks (take j bs) k a + blocks (drop j bs) k a"
    by (metis append_take_drop_id blocks_simps(3))
  moreover have "block (fst (bs ! i)) (snd (bs ! i)) k a \<le> blocks (take j bs) k a"
    using blocks_nth [of i "take j bs" k a] assms by simp
  moreover have "block (fst (bs ! j)) (snd (bs ! j)) k a \<le> blocks (drop j bs) k a"
    using blocks_nth [of 0 "drop j bs" k a] assms by simp
  ultimately show ?thesis by linarith
qed

lemma accounts_disjoint:
  assumes a: "accounts E M P bs w"
  shows "\<forall>b\<in>set bs. block_range b \<subseteq> mapped_now M w \<and> (\<forall>x\<in>block_range b. \<not> uses_byte E P w x)"
    and "\<forall>i<length bs. \<forall>j<length bs. i \<noteq> j \<longrightarrow> block_range (bs ! i) \<inter> block_range (bs ! j) = {}"
proof -
  have once: "bytes E P [] w (\<lambda>_ _. 0) False x + blocks bs False x + (bytes E P [] w (\<lambda>_ _. 0) True x + blocks bs True x)
      \<le> (if x \<in> mapped_now M w then 1 else 0)" for x
    using a unfolding accounts_def own_def owned_once_def by (auto simp: bytes_def)
  have kk: "f False + f True \<ge> f k" for f :: "bool \<Rightarrow> nat" and k by (cases k) simp_all
  show "\<forall>b\<in>set bs. block_range b \<subseteq> mapped_now M w \<and> (\<forall>x\<in>block_range b. \<not> uses_byte E P w x)"
  proof
    fix b assume "b \<in> set bs"
    then obtain i where i: "i < length bs" "bs ! i = b" by (auto simp: in_set_conv_nth)
    have "x \<in> mapped_now M w \<and> \<not> uses_byte E P w x" if x: "x \<in> block_range b" for x
    proof -
      obtain k where "block (fst b) (snd b) k x = 1" using block_at [OF x] by blast
      then have "1 \<le> blocks bs k x" using blocks_nth [OF i(1), of k x] i(2) by simp
      then have "1 \<le> blocks bs False x + blocks bs True x" using kk [of "\<lambda>k. blocks bs k x" k] by linarith
      moreover have "1 \<le> bytes E P [] w (\<lambda>_ _. 0) False x + bytes E P [] w (\<lambda>_ _. 0) True x" if "uses_byte E P w x"
        using that kk [of "\<lambda>k. bytes E P [] w (\<lambda>_ _. 0) k x"] unfolding uses_byte_def by (metis One_nat_def Suc_le_eq le_trans)
      ultimately show ?thesis using once [of x] by (auto split: if_splits)
    qed
    then show "block_range b \<subseteq> mapped_now M w \<and> (\<forall>x\<in>block_range b. \<not> uses_byte E P w x)" by blast
  qed
  have two: "block_range (bs ! i) \<inter> block_range (bs ! j) = {}" if "i < length bs" "j < length bs" "i < j" for i j
  proof (rule ccontr)
    assume "block_range (bs ! i) \<inter> block_range (bs ! j) \<noteq> {}"
    then obtain x where x: "x \<in> block_range (bs ! i)" "x \<in> block_range (bs ! j)" by blast
    obtain k where k: "block (fst (bs ! i)) (snd (bs ! i)) k x = 1" using block_at [OF x(1)] by blast
    obtain l where l: "block (fst (bs ! j)) (snd (bs ! j)) l x = 1" using block_at [OF x(2)] by blast
    have "2 \<le> blocks bs False x + blocks bs True x"
      using blocks_two [OF that, of False x] blocks_two [OF that, of True x] k l
        kk [of "\<lambda>k. block (fst (bs ! i)) (snd (bs ! i)) k x" k] kk [of "\<lambda>k. block (fst (bs ! j)) (snd (bs ! j)) k x" l] by linarith
    with once [of x] show False by (auto split: if_splits)
  qed
  show "\<forall>i<length bs. \<forall>j<length bs. i \<noteq> j \<longrightarrow> block_range (bs ! i) \<inter> block_range (bs ! j) = {}"
  proof (intro allI impI)
    fix i j assume "i < length bs" "j < length bs" "i \<noteq> j"
    then show "block_range (bs ! i) \<inter> block_range (bs ! j) = {}"
      using two [of i j] two [of j i] by (cases "i < j") auto
  qed
qed

lemma fresh_accounts:
  assumes "env_ok E M P" and "inner w = new_inner" and "maybe_state w = None" and "node_memory w = []" and "\<not> panicked w"
    and "P (nl w) = []"
  shows "accounts E M P [] w"
proof -
  have o: "objects c (replicate m new_vec) k a = 0" for c m k a
    by (simp add: objects_def new_vec_def vec_block_def in_regions_def)
  have b: "bytes E P [] w (blocks []) k a = 0" for k a
    by (simp add: bytes_def assms(2,4,6) new_inner_def inner_bytes_def o [unfolded new_vec_def] chunk_table_def cm_bytes_def chunk_vec_def
        new_chunk_manager_def new_vec_def vec_block_def in_regions_def incoming_def live_def first_chunks_def chunks_count_def
        manager_box_def)
  have "shaped (inner w)" by (simp add: shaped_def assms(2) new_inner_def new_chunk_manager_def new_vec_def)
  moreover have "live [] w = []" by (simp add: live_def assms(2) new_inner_def new_chunk_manager_def new_vec_def)
  ultimately show ?thesis using assms by (simp add: accounts_def own_def owned_once_def b)
qed

text \<open>C1: a thread may request and free blocks in any order, the allocator may re-enter itself at any
  depth on the way, and blocks may come back from other threads: the blocks the thread holds never
  overlap, no byte of them is used by the allocator itself (for a free list, a vector, a table, a
  node of the map, a state, a metadata chunk), and all of them are mapped. Frees are of blocks the
  thread holds, with the size it asked for. A new allocator is a start (\<open>fresh_accounts\<close>).\<close>

theorem blocks_never_shared:
  assumes "accounts E M P bs w" and "\<forall>sz. Request sz \<in> set rs \<longrightarrow> 0 < sz"
    and "use_allocator E n rs (bs, w) = Some (bs', w')"
  shows "accounts E M P bs' w'
    \<and> (\<forall>b\<in>set bs'. block_range b \<subseteq> M (kern (os (proc w'))) \<and> (\<forall>a\<in>block_range b. \<not> uses_byte E P w' a))
    \<and> (\<forall>i<length bs'. \<forall>j<length bs'. i \<noteq> j \<longrightarrow> block_range (bs' ! i) \<inter> block_range (bs' ! j) = {})"
proof -
  have a: "accounts E M P bs' w'" by (rule use_allocator_accounts [OF assms(3,1,2)])
  from a accounts_disjoint [OF a] show ?thesis by blast
qed

section \<open>A thread at work\<close>

text \<open>A page with two free objects of 64 bytes, the vector that holds them and the manager's box.\<close>

definition page_vec :: "addr list \<Rightarrow> addr self_vec" where
  "page_vec ps = \<lparr>vec_ptr = 4224, vec_elems = ps, vec_cap = 8\<rparr>"

definition page_world :: "inner \<Rightarrow> nat \<Rightarrow> addr list \<Rightarrow> (addr set, unit) world" where
  "page_world x n ps = \<lparr>inner = x\<lparr>non_local_ptr_manager_box := Some 4288,
       common_object_table := (replicate COMMON_SIZE_TABLE_LEN new_vec)[7 := page_vec ps]\<rparr>,
     proc = \<lparr>lim = initial_limit_state, os = initial_os_state (range_of 4096 n)\<rparr>,
     cells = (\<lambda>_. Some \<lparr>non_local_ptr_manager = 4288, offset_to_slot_in_table = new_for_common_chunk 7\<rparr>),
     maybe_state = None, node_memory = [], nl = (), panicked = False\<rparr>"

lemma lone_env_ok: "env_ok lone_env (\<lambda>m. m) (\<lambda>_. [])"
proof -
  have 1: "libc_ok linux_libc" "kernel_ok linux_libc one_place (\<lambda>m. m)" by (rule linux_libc_ok one_place_ok)+
  have 2: "libc_huge_ok linux_libc" by (simp add: libc_huge_ok_def linux_libc_def)
  have 3: "kernel_huge_ok linux_libc one_place (\<lambda>m. m)"
    unfolding kernel_huge_ok_def
  proof (intro allI impI)
    fix hint sz prot flags w p w'
    assume h: "sys_mmap one_place hint sz prot flags w = (p, w') \<and> 0 < sz \<and> 2 * 1024 * 1024 dvd sz
        \<and> flags AND MAP_FIXED linux_libc = 0 \<and> flags AND MAP_HUGETLB linux_libc = MAP_HUGETLB linux_libc"
    have "PAGE dvd 2 * 1024 * 1024" by (simp add: PAGE_def)
    with h have "pages sz = sz" by (blast intro: pages_dvd dvd_trans)
    moreover have "PAGE \<noteq> MAP_FAILED linux_libc" "PAGE \<noteq> 0" by (simp_all add: PAGE_def linux_libc_def)
    ultimately show "p = MAP_FAILED linux_libc \<and> w' = w \<or> p \<noteq> MAP_FAILED linux_libc \<and> p \<noteq> 0 \<and> PAGE dvd p
        \<and> w \<inter> range_of p sz = {} \<and> w' = w \<union> range_of p sz"
      using h by (simp add: one_place_def split: if_splits)
  qed
  have 4: "unmaps_only one_place (\<lambda>m. m)" by (auto simp: unmaps_only_def one_place_def)
  have 5: "manager_ok lone_env (\<lambda>_. [])"
  proof -
    have "w = w\<lparr>nl := n\<rparr>" for w :: "(addr set, unit) world" and n by simp
    moreover have "w = fold give [] (w\<lparr>nl := n\<rparr>)" for w :: "(addr set, unit) world" and n and give :: "NonLocalPtrData list \<Rightarrow> _" by simp
    ultimately show ?thesis
      unfolding manager_ok_def by (auto simp: lone_env_def Let_def intro!: exI [of _ 1] exI [of _ "[]"])
  qed
  have "(8192::nat) = 2 ^ 13" by simp
  then have 6: "size_of_state_ok 8192" "recommended_size 8192 = 8192"
    using recommended_pow2 [of 13] by (simp_all add: size_of_state_ok_def layout_simps)
  show ?thesis using 1 2 3 4 5 6 unfolding env_ok_def by (simp add: lone_env_def)
qed

lemma page_alloc:
  assumes "common_index_of sz = 7" and "size_class_define sz = Common"
  shows "try_alloc lone_env n sz (page_world x m (ps @ [p])) = Some (Some p, page_world x m ps)"
proof -
  have "pop_common 7 (page_world x m (ps @ [p])) = (Some p, page_world x m ps)"
    by (simp add: pop_common_def page_world_def vec_pop_def vec_len_def page_vec_def layout_simps)
  with assms show ?thesis
    by (simp add: try_alloc_def settled_def try_alloc_body_def alloc_common_def) (simp add: page_world_def)
qed

lemma page_free:
  assumes "common_index_of sz = 7" and "size_class_define sz = Common" and "length ps < 8"
  shows "dealloc lone_env n p sz (page_world x m ps) = Some (page_world x m (ps @ [p]))"
proof -
  let ?ops = "allocator_at lone_env n" and ?w = "page_world x m ps"
  let ?V = "common_objects ?ops 7"
  have v: "the_vec ?V (?w\<lparr>maybe_state := None\<rparr>) = page_vec ps" "set_vec ?V (page_vec qs) ?w = page_world x m qs" for qs
    by (simp_all add: common_objects_def vec_of_def page_world_def layout_simps)
  have w: "?w\<lparr>maybe_state := None\<rparr> = ?w" "(page_world x m qs)\<lparr>maybe_state := maybe_state ?w\<rparr> = page_world x m qs" for qs
    by (simp_all add: page_world_def)
  have "push_without_counting_limit (rounds ?ops) ?V p ?w = Some (True, page_world x m (ps @ [p]))"
    using push_room(2) [of ?V "?w\<lparr>maybe_state := None\<rparr>" "rounds ?ops" p] assms(3) v unfolding w
    by (simp add: page_vec_def vec_len_def)
  then have "push_back_without_state ?ops ?V p ?w = Some (page_world x m (ps @ [p]))"
    by (simp add: push_back_without_state_def without_state_def push_back_def w)
  with assms(1,2) show ?thesis
    by (simp add: dealloc_def settled_def dealloc_body_def dealloc_common_def)
      (simp add: page_world_def metadata_of_def is_local_ptr_def)
qed

definition page_bytes :: held where
  "page_bytes k a = in_regions (\<lambda>a. occ 4096 64 a + occ 4160 64 a + occ 4224 64 a + occ 4288 64 a) k a"

lemma page_accounts:
  fixes c l :: "(addr \<times> addr self_vec list) option"
  assumes "shaped (new_inner\<lparr>common_chunk_table := c, large_chunk_table := l\<rparr>)"
    and "owned_once (range_of 4096 n) (\<lambda>k a. page_bytes k a + chunk_table c k a + chunk_table l k a)"
  shows "accounts lone_env (\<lambda>m. m) (\<lambda>_. []) [] (page_world (new_inner\<lparr>common_chunk_table := c, large_chunk_table := l\<rparr>) n [4096, 4160])"
proof -
  let ?w = "page_world (new_inner\<lparr>common_chunk_table := c, large_chunk_table := l\<rparr>) n [4096, 4160]"
    and ?t = "replicate COMMON_SIZE_TABLE_LEN new_vec"
  let ?f = "bytes lone_env (\<lambda>_. []) [] ?w (blocks [])"
  have 0: "objects c (replicate m new_vec) k a = 0" "in_regions (chunks_count (vec_elems new_vec) n) k a = 0" "vec_block 8 new_vec k a = 0"
    for c m n k a
    by (simp_all add: objects_def new_vec_def vec_block_def in_regions_def)
  have 7: "7 < length ?t" "?t ! 7 = new_vec" by (simp_all add: layout_simps)
  have "objects True (?t[7 := page_vec [4096, 4160]]) k a =
      in_regions (chunks_count [4096, 4160] 64) k a + vec_block 8 (page_vec [4096, 4160]) k a" for k a
    using objects_update [OF 7(1), of True "page_vec [4096, 4160]" k a] by (simp add: 7(2) 0 page_vec_def slot_size_def)
  moreover have r: "size_class_define 64 = Common" "recommended_size 64 = 64"
    using recommended_pow2 [of 6] by (simp_all add: class_iff layout_simps)
  ultimately have f: "?f k a = page_bytes k a + chunk_table c k a + chunk_table l k a" for k a
    by (cases k) (simp_all add: page_bytes_def bytes_def page_world_def new_inner_def inner_bytes_def 0(1) [unfolded new_vec_def] cm_bytes_def chunk_vec_def
        new_chunk_manager_def incoming_def live_def first_chunks_def manager_box_def lone_env_def
        page_vec_def vec_block_def new_vec_def block_def owned_size_def)
  have "owned_once (range_of 4096 n) ?f" using assms(2) by (simp add: owned_once_def f)
  moreover have "shaped (inner ?w)" using assms(1) by (simp add: shaped_def page_world_def new_inner_def new_chunk_manager_def new_vec_def)
  moreover have "live [] ?w = []" by (simp add: live_def page_world_def new_inner_def new_chunk_manager_def new_vec_def)
  ultimately show ?thesis using lone_env_ok by (simp add: accounts_def own_def) (simp add: page_world_def initial_os_state_def)
qed

lemma new_inner_accounts: "accounts lone_env (\<lambda>m. m) (\<lambda>_. []) [] (page_world new_inner 4096 [4096, 4160])"
proof -
  have n: "new_inner\<lparr>common_chunk_table := None, large_chunk_table := None\<rparr> = new_inner" by (simp add: new_inner_def)
  have "owned_once (range_of 4096 4096) (\<lambda>k a. page_bytes k a + chunk_table None k a + chunk_table None k a)"
    by (auto simp: owned_once_def page_bytes_def in_regions_def occ_def range_of_def chunk_table_def)
  from page_accounts [OF _ this] show ?thesis unfolding n by (simp add: shaped_def new_inner_def new_chunk_manager_def new_vec_def)
qed

lemma page_run:
  "use_allocator lone_env 1 [Request 64, Request 64, Release 1, Request 60] ([], page_world x m [4096, 4160])
    = Some ([(4160, 60), (4096, 64)], page_world x m [])"
proof -
  have i64: "common_index_of 64 = 7" by (rule trans [OF common_index_eq]) simp_all
  have i60: "common_index_of 60 = 7" by (rule trans [OF common_index_eq]) simp_all
  note i = i64 i60
  have c: "size_class_define 64 = Common" "size_class_define 60 = Common" by (simp_all add: size_class_define_def layout_simps)
  note a = page_alloc [OF i(1) c(1), where n = 1] page_alloc [OF i(2) c(2), where n = 1]
  show ?thesis
    using a(1) [of x m "[4096]" 4160] a(1) [of x m "[]" 4096] page_free [OF i(1) c(1), of "[]" 1 4160] a(2) [of x m "[]" 4160]
    by (simp add: list_remove_def)
qed

theorem blocks_never_shared_witness:
  "\<exists>w. use_allocator lone_env 1 [Request 64, Request 64, Release 1, Request 60] ([], page_world new_inner 4096 [4096, 4160])
      = Some ([(4160, 60), (4096, 64)], w)
    \<and> block_range (4160, 60) \<inter> block_range (4096, 64) = {} \<and> (\<forall>a\<in>block_range (4160, 60). \<not> uses_byte lone_env (\<lambda>_. []) w a)"
proof -
  have pos: "\<forall>sz. Request sz \<in> set [Request 64, Request 64, Release 1, Request 60] \<longrightarrow> 0 < sz" by simp
  note t = blocks_never_shared [OF new_inner_accounts pos page_run]
  from t [THEN conjunct2, THEN conjunct2, rule_format, of 0 1]
  have "block_range (4160, 60) \<inter> block_range (4096, 64) = {}" by simp
  then show ?thesis using page_run t by auto
qed

end
