(* ===== verification/Statistics.thy ===== *)
theory Statistics
  imports SelfAlloc ObjectSizes
begin

text \<open>
  What the allocator reports about itself: the objects it has allocated for its own vectors, boxes and
  nodes (\<open>ThreadLocalAllocator::allocated_for_self\<close>), the iterator over all sizes of
  \<open>info_for_size.rs\<close>, and the statistics of \<open>stats/\<close> that are built from it. The destructor decides by
  the same iterator whether the memory of a thread can go.

  The iterator borrows the record \<open>inner\<close>, which is an argument of its steps. \<open>own_sizes\<close>
  stands for \<open>NonLocalPtrManager::self_allocated_memory\<close>. \<open>None\<close> is a panic or a violated hint.
\<close>

section \<open>What the allocator holds itself\<close>

text \<open>A value of \<open>usize\<close> arithmetic.\<close>

abbreviation usize_of :: "nat \<Rightarrow> usize" where "usize_of n \<equiv> n mod 2 ^ 64"

text \<open>The bound of the table: the manager, the vectors of the chunk manager and of the tables of objects, and the
  two tables of chunks with their vectors.\<close>

definition MAX_NUMBER_OF_SELF_ALLOCATED_OBJECTS :: nat where
  "MAX_NUMBER_OF_SELF_ALLOCATED_OBJECTS =
     1 + COMMON_SIZE_TABLE_LEN + 3 + 1 + COMMON_SIZE_TABLE_LEN + REAL_NUMBER_OF_LARGE_OBJECT_VECTORS + 1
       + REAL_NUMBER_OF_LARGE_OBJECT_VECTORS"

definition write_one :: "usize \<Rightarrow> UsedObjectsFixed \<Rightarrow> UsedObjectsFixed option" where
  "write_one sz = write_used_number_and_size sz 1"

fun write_each :: "usize list \<Rightarrow> UsedObjectsFixed \<Rightarrow> UsedObjectsFixed option" where
  "write_each [] u = Some u"
| "write_each (sz # szs) u = Option.bind (write_one sz u) (write_each szs)"

definition write_manager :: "usize \<Rightarrow> usize list \<Rightarrow> addr option \<Rightarrow> UsedObjectsFixed \<Rightarrow> UsedObjectsFixed option" where
  "write_manager size_of own_sizes b u =
     (case b of
        None \<Rightarrow> Some u
      | Some _ \<Rightarrow>
          Option.bind (if size_of \<noteq> 0 then write_one (recommended_size size_of) u else Some u) (write_each own_sizes))"

definition write_chunk_table :: "usize \<Rightarrow> (addr \<times> addr self_vec list) option \<Rightarrow> UsedObjectsFixed \<Rightarrow> UsedObjectsFixed option" where
  "write_chunk_table size_of b u =
     (case b of
        None \<Rightarrow> Some u
      | Some (_, t) \<Rightarrow> Option.bind (write_one (recommended_size size_of) u) (write_each (map (bytes_allocated 8) t)))"

definition write_nodes :: "SelfAllocatedMemory \<Rightarrow> UsedObjectsFixed \<Rightarrow> UsedObjectsFixed option" where
  "write_nodes m u =
     Option.bind (write_used_number_and_size (fst (fst m)) (of_nat (snd (fst m))) u)
       (write_used_number_and_size (fst (snd m)) (of_nat (snd (snd m))))"

definition allocated_for_self :: "usize \<Rightarrow> usize list \<Rightarrow> inner \<Rightarrow> UsedObjectsFixed option" where
  "allocated_for_self size_of_manager own_sizes x =
     Option.bind (write_manager size_of_manager own_sizes (non_local_ptr_manager_box x) (new_used MAX_NUMBER_OF_SELF_ALLOCATED_OBJECTS)) (\<lambda>u.
     Option.bind (cm_write_allocated_memory (chunk_manager x) u) (\<lambda>u.
     Option.bind (write_each (map (bytes_allocated 8) (common_object_table x)) u) (\<lambda>u.
     Option.bind (write_chunk_table (COMMON_SIZE_TABLE_LEN * size_of_vec) (common_chunk_table x) u) (\<lambda>u.
     Option.bind (write_each (map (bytes_allocated 8) (large_object_table x)) u) (\<lambda>u.
     Option.bind (write_chunk_table (REAL_NUMBER_OF_LARGE_OBJECT_VECTORS * size_of_vec) (large_chunk_table x) u)
       (write_nodes (map_memory (allocated_large_sizes x))))))))"

section \<open>The iterator\<close>

record InfoForSize =
  memory_allocated :: usize
  size_of_elem :: usize
  objects_allocated :: usize
  objects_used :: usize
  allocated_for_self_objects :: usize

definition memory_used :: "InfoForSize \<Rightarrow> usize" where
  "memory_used i = usize_of (objects_used i * size_of_elem i)"

datatype CurrIter = CommonSize usize | LargeSize usize | ExtraLargeSize "(usize, usize) Iter"

record InfoForSizeIter =
  allocated_for_self_table :: UsedObjectsFixed
  curr_iter :: CurrIter

definition allocated_for_self_of_size :: "UsedObjectsFixed \<Rightarrow> usize \<Rightarrow> usize option" where
  "allocated_for_self_of_size u sz =
     (case find_size sz u of Inl _ \<Rightarrow> Some 0 | Inr (n, _) \<Rightarrow> map_option unat n)"

text \<open>The entry of a size whose objects are cut from chunks.\<close>

definition chunk_info :: "UsedObjectsFixed \<Rightarrow> usize \<Rightarrow> usize \<Rightarrow> addr self_vec \<Rightarrow> addr self_vec \<Rightarrow> InfoForSize option" where
  "chunk_info u chunk_size sz chunks objects =
     (let memory = usize_of (chunk_size * vec_len chunks);
          total = memory div sz
      in map_option (\<lambda>own. \<lparr>memory_allocated = memory, size_of_elem = sz, objects_allocated = total,
             objects_used = usize_of (total + 2 ^ 64 - vec_len objects), allocated_for_self_objects = own\<rparr>)
           (allocated_for_self_of_size u sz))"

definition extra_large_info :: "UsedObjectsFixed \<Rightarrow> usize \<times> usize \<Rightarrow> InfoForSize option" where
  "extra_large_info u sc =
     (case sc of (sz, number) \<Rightarrow>
        map_option (\<lambda>own. \<lparr>memory_allocated = usize_of (sz * number), size_of_elem = sz, objects_allocated = number,
            objects_used = number, allocated_for_self_objects = own\<rparr>)
          (allocated_for_self_of_size u sz))"

definition first_iter :: "inner \<Rightarrow> CurrIter" where
  "first_iter x =
     (if common_chunk_table x \<noteq> None then CommonSize 0
      else if large_chunk_table x \<noteq> None then LargeSize 0
      else ExtraLargeSize (map_iter (allocated_large_sizes x)))"

text \<open>\<open>InfoForSizeIter::new\<close>: the iterator, and the record with its mark that it is borrowed.\<close>

definition info_iter_new :: "usize \<Rightarrow> usize list \<Rightarrow> inner \<Rightarrow> (InfoForSizeIter \<times> inner) option" where
  "info_iter_new size_of_manager own_sizes x =
     map_option (\<lambda>u. (\<lparr>allocated_for_self_table = u, curr_iter = first_iter x\<rparr>, x\<lparr>is_borrowed_for_unknown_time := True\<rparr>))
       (allocated_for_self size_of_manager own_sizes x)"

definition info_iter_drop :: "inner \<Rightarrow> inner" where
  "info_iter_drop x = x\<lparr>is_borrowed_for_unknown_time := False\<rparr>"

fun iter_rank :: "CurrIter \<Rightarrow> nat" where
  "iter_rank (CommonSize _) = 2" | "iter_rank (LargeSize _) = 1" | "iter_rank (ExtraLargeSize _) = 0"

function info_next :: "inner \<Rightarrow> InfoForSizeIter \<Rightarrow> ((SizeClass \<times> InfoForSize) option \<times> InfoForSizeIter) option" where
  "info_next x it =
     (case curr_iter it of
        CommonSize idx \<Rightarrow>
          if idx = COMMON_SIZE_TABLE_LEN then
            info_next x (it\<lparr>curr_iter :=
              (if large_chunk_table x \<noteq> None then LargeSize 0 else ExtraLargeSize (map_iter (allocated_large_sizes x)))\<rparr>)
          else (case common_chunk_table x of
              None \<Rightarrow> None
            | Some (_, t) \<Rightarrow>
                if idx < length t \<and> common_index_of ((idx + 1) * 8) < length (common_object_table x)
                then map_option (\<lambda>i. (Some (Common, i), it\<lparr>curr_iter := CommonSize (idx + 1)\<rparr>))
                       (chunk_info (allocated_for_self_table it) COMMON_CHUNK_SIZE ((idx + 1) * 8) (t ! idx)
                         (common_object_table x ! common_index_of ((idx + 1) * 8)))
                else None)
      | LargeSize idx \<Rightarrow>
          if idx = REAL_NUMBER_OF_LARGE_OBJECT_VECTORS then
            info_next x (it\<lparr>curr_iter := ExtraLargeSize (map_iter (allocated_large_sizes x))\<rparr>)
          else (case large_chunk_table x of
              None \<Rightarrow> None
            | Some (_, t) \<Rightarrow>
                if idx < length t \<and> idx < length (large_object_table x)
                then map_option (\<lambda>i. (Some (Large, i), it\<lparr>curr_iter := LargeSize (idx + 1)\<rparr>))
                       (chunk_info (allocated_for_self_table it) LARGE_CHUNK_SIZE (REAL_LARGE_SIZES ! idx) (t ! idx)
                         (large_object_table x ! idx))
                else None)
      | ExtraLargeSize pairs_iter \<Rightarrow>
          (case iter_next pairs_iter of
             None \<Rightarrow> None
           | Some (None, i) \<Rightarrow> Some (None, it\<lparr>curr_iter := ExtraLargeSize i\<rparr>)
           | Some (Some sc, i) \<Rightarrow>
               map_option (\<lambda>info. (Some (ExtraLarge, info), it\<lparr>curr_iter := ExtraLargeSize i\<rparr>))
                 (extra_large_info (allocated_for_self_table it) sc)))"
  by auto
termination by (relation "measure (\<lambda>(x, it). iter_rank (curr_iter it))") auto

declare info_next.simps [simp del]

text \<open>The lower bound of \<open>size_hint\<close>; it has no upper bound.\<close>

definition info_size_hint :: "inner \<Rightarrow> InfoForSizeIter \<Rightarrow> nat" where
  "info_size_hint x it =
     (case curr_iter it of
        CommonSize idx \<Rightarrow> COMMON_SIZE_TABLE_LEN - idx + REAL_NUMBER_OF_LARGE_OBJECT_VECTORS + map_length (allocated_large_sizes x)
      | LargeSize idx \<Rightarrow> REAL_NUMBER_OF_LARGE_OBJECT_VECTORS - idx + map_length (allocated_large_sizes x)
      | ExtraLargeSize pairs_iter \<Rightarrow> iter_length pairs_iter)"

section \<open>The statistics\<close>

definition lazy_next :: "inner \<Rightarrow> InfoForSizeIter \<Rightarrow> (InfoForSize option \<times> InfoForSizeIter) option" where
  "lazy_next x it = map_option (map_prod (map_option snd) id) (info_next x it)"

text \<open>No loop over the iterator takes more rounds than this.\<close>

definition iteration_bound :: "inner \<Rightarrow> nat" where
  "iteration_bound x = COMMON_SIZE_TABLE_LEN + REAL_NUMBER_OF_LARGE_OBJECT_VECTORS + map_length (allocated_large_sizes x) + 1"

text \<open>The loops, of at most \<open>n\<close> rounds. \<open>SnapshotDetailedStats::new\<close> pushes to a vector with the capacity of the hint.\<close>

fun snapshot_loop :: "nat \<Rightarrow> inner \<Rightarrow> InfoForSizeIter \<Rightarrow> nat \<Rightarrow> InfoForSize list \<Rightarrow> InfoForSize list option" where
  "snapshot_loop 0 x it cap v = None"
| "snapshot_loop (Suc n) x it cap v =
     (case lazy_next x it of
        None \<Rightarrow> None
      | Some (None, _) \<Rightarrow> Some v
      | Some (Some i, it') \<Rightarrow> if length v < cap then snapshot_loop n x it' cap (v @ [i]) else None)"

definition snapshot_stats :: "usize \<Rightarrow> usize list \<Rightarrow> inner \<Rightarrow> (InfoForSize list \<times> inner) option" where
  "snapshot_stats size_of_manager own_sizes x =
     (case info_iter_new size_of_manager own_sizes x of
        None \<Rightarrow> None
      | Some (it, x') \<Rightarrow> map_option (\<lambda>v. (v, info_iter_drop x')) (snapshot_loop (iteration_bound x') x' it (info_size_hint x' it) []))"

text \<open>\<open>snapshot_detailed_stats\<close> of the allocator fills an uninitialised slice, \<open>None\<close> where nothing has
  been written, and returns it as initialised.\<close>

fun slice_loop :: "nat \<Rightarrow> inner \<Rightarrow> InfoForSizeIter \<Rightarrow> InfoForSize option list \<Rightarrow> nat \<Rightarrow> InfoForSize option list option" where
  "slice_loop 0 x it sl curr_len = None"
| "slice_loop (Suc n) x it sl curr_len =
     (case lazy_next x it of
        None \<Rightarrow> None
      | Some (None, _) \<Rightarrow> Some sl
      | Some (Some i, it') \<Rightarrow>
          if curr_len < length sl then slice_loop n x it' (sl[curr_len := Some i]) (curr_len + 1) else None)"

definition snapshot_detailed_stats :: "usize \<Rightarrow> usize list \<Rightarrow> inner \<Rightarrow> (InfoForSize option list \<times> inner) option" where
  "snapshot_detailed_stats size_of_manager own_sizes x =
     (case info_iter_new size_of_manager own_sizes x of
        None \<Rightarrow> None
      | Some (it, x') \<Rightarrow>
          map_option (\<lambda>v. (v, info_iter_drop x')) (slice_loop (iteration_bound x') x' it (replicate (info_size_hint x' it) None) 0))"

record ShortStats =
  allocated_memory_from_os :: usize
  used_memory :: usize

fun short_loop :: "nat \<Rightarrow> inner \<Rightarrow> InfoForSizeIter \<Rightarrow> ShortStats \<Rightarrow> ShortStats option" where
  "short_loop 0 x it acc = None"
| "short_loop (Suc n) x it acc =
     (case lazy_next x it of
        None \<Rightarrow> None
      | Some (None, _) \<Rightarrow> Some acc
      | Some (Some i, it') \<Rightarrow> short_loop n x it'
          \<lparr>allocated_memory_from_os = usize_of (allocated_memory_from_os acc + memory_allocated i),
           used_memory = usize_of (used_memory acc + memory_used i)\<rparr>)"

definition short_stats :: "usize \<Rightarrow> usize list \<Rightarrow> inner \<Rightarrow> (ShortStats \<times> inner) option" where
  "short_stats size_of_manager own_sizes x =
     (case info_iter_new size_of_manager own_sizes x of
        None \<Rightarrow> None
      | Some (it, x') \<Rightarrow>
          map_option (\<lambda>acc. (acc, info_iter_drop x')) (short_loop (iteration_bound x') x' it \<lparr>allocated_memory_from_os = 0, used_memory = 0\<rparr>))"

section \<open>What the iterator yields\<close>

definition chunk_entry :: "UsedObjectsFixed \<Rightarrow> usize \<Rightarrow> usize \<Rightarrow> addr self_vec \<Rightarrow> addr self_vec \<Rightarrow> InfoForSize" where
  "chunk_entry u chunk_size sz chunks objects =
     (let memory = usize_of (chunk_size * vec_len chunks)
      in \<lparr>memory_allocated = memory, size_of_elem = sz, objects_allocated = memory div sz,
           objects_used = usize_of (memory div sz + 2 ^ 64 - vec_len objects), allocated_for_self_objects = used_count u sz\<rparr>)"

definition extra_large_entry :: "UsedObjectsFixed \<Rightarrow> usize \<times> usize \<Rightarrow> InfoForSize" where
  "extra_large_entry u sc =
     \<lparr>memory_allocated = usize_of (fst sc * snd sc), size_of_elem = fst sc, objects_allocated = snd sc,
      objects_used = snd sc, allocated_for_self_objects = used_count u (fst sc)\<rparr>"

text \<open>The entries of the common sizes from the one at \<open>idx\<close> on, of the large sizes, of the extra-large ones.\<close>

definition common_entries :: "inner \<Rightarrow> UsedObjectsFixed \<Rightarrow> addr self_vec list \<Rightarrow> nat \<Rightarrow> (SizeClass \<times> InfoForSize) list" where
  "common_entries x u t idx =
     map (\<lambda>i. (Common, chunk_entry u COMMON_CHUNK_SIZE ((i + 1) * 8) (t ! i) (common_object_table x ! i)))
       [idx..<COMMON_SIZE_TABLE_LEN]"

definition large_entries :: "inner \<Rightarrow> UsedObjectsFixed \<Rightarrow> addr self_vec list \<Rightarrow> nat \<Rightarrow> (SizeClass \<times> InfoForSize) list" where
  "large_entries x u t idx =
     map (\<lambda>i. (Large, chunk_entry u LARGE_CHUNK_SIZE (REAL_LARGE_SIZES ! i) (t ! i) (large_object_table x ! i)))
       [idx..<REAL_NUMBER_OF_LARGE_OBJECT_VECTORS]"

definition extra_large_entries :: "UsedObjectsFixed \<Rightarrow> (usize \<times> usize) list \<Rightarrow> (SizeClass \<times> InfoForSize) list" where
  "extra_large_entries u ps = map (\<lambda>sc. (ExtraLarge, extra_large_entry u sc)) ps"

definition entries_from_large :: "inner \<Rightarrow> UsedObjectsFixed \<Rightarrow> (SizeClass \<times> InfoForSize) list" where
  "entries_from_large x u =
     (case large_chunk_table x of None \<Rightarrow> [] | Some (_, t) \<Rightarrow> large_entries x u t 0)
       @ extra_large_entries u (pairs (allocated_large_sizes x))"

definition entries :: "inner \<Rightarrow> UsedObjectsFixed \<Rightarrow> (SizeClass \<times> InfoForSize) list" where
  "entries x u =
     (case common_chunk_table x of None \<Rightarrow> [] | Some (_, t) \<Rightarrow> common_entries x u t 0) @ entries_from_large x u"

definition tables_full :: "inner \<Rightarrow> bool" where
  "tables_full x \<longleftrightarrow>
     length (common_object_table x) = COMMON_SIZE_TABLE_LEN
     \<and> length (large_object_table x) = REAL_NUMBER_OF_LARGE_OBJECT_VECTORS
     \<and> (\<forall>b t. common_chunk_table x = Some (b, t) \<longrightarrow> length t = COMMON_SIZE_TABLE_LEN)
     \<and> (\<forall>b t. large_chunk_table x = Some (b, t) \<longrightarrow> length t = REAL_NUMBER_OF_LARGE_OBJECT_VECTORS)
     \<and> map_ok (allocated_large_sizes x)"

text \<open>The next calls of \<open>next\<close> return these, then \<open>None\<close>.\<close>

primrec yields :: "inner \<Rightarrow> (SizeClass \<times> InfoForSize) list \<Rightarrow> InfoForSizeIter \<Rightarrow> bool" where
  "yields x [] it \<longleftrightarrow> (\<exists>it'. info_next x it = Some (None, it'))"
| "yields x (i # is) it \<longleftrightarrow> (\<exists>it'. info_next x it = Some (Some i, it') \<and> yields x is it')"

lemma yields_same: "info_next x it = info_next x it' \<Longrightarrow> yields x is it = yields x is it'"
  by (cases "is") simp_all

lemma of_size_count:
  assumes "used_ok u"
  shows "allocated_for_self_of_size u sz = Some (used_count u sz)"
proof (cases "used_map (used_entries u) sz")
  case (Some c)
  then have "(sz, c) \<in> set (map (\<lambda>e. (snd e, fst e)) (used_entries u))" unfolding used_map_def by (rule map_of_SomeD)
  then obtain n where "c = Some n" using assms by (auto simp: used_ok_def)
  then show ?thesis using find_size_count [OF assms, of sz] Some
    by (simp add: allocated_for_self_of_size_def used_count_def)
qed (use find_size_count [OF assms, of sz] in \<open>simp add: allocated_for_self_of_size_def used_count_def\<close>)

lemma chunk_info_entry: "used_ok u \<Longrightarrow> chunk_info u n sz c v = Some (chunk_entry u n sz c v)"
  by (simp add: chunk_info_def chunk_entry_def of_size_count Let_def)

lemma extra_large_info_entry: "used_ok u \<Longrightarrow> extra_large_info u sc = Some (extra_large_entry u sc)"
  by (simp add: extra_large_info_def extra_large_entry_def of_size_count split: prod.splits)

lemma next_xl:
  assumes "iter_ok H t i pre (sc # mid) post" and "used_ok u"
  shows "\<exists>i'. info_next x \<lparr>allocated_for_self_table = u, curr_iter = ExtraLargeSize i\<rparr>
      = Some (Some (ExtraLarge, extra_large_entry u sc), \<lparr>allocated_for_self_table = u, curr_iter = ExtraLargeSize i'\<rparr>)
    \<and> iter_ok H t i' (pre @ [sc]) mid post"
proof -
  obtain i' where "iter_next i = Some (Some sc, i')" "iter_ok H t i' (pre @ [sc]) mid post"
    using iter_next_ok [OF assms(1)] by blast
  then show ?thesis by (simp add: info_next.simps extra_large_info_entry [OF assms(2)])
qed

lemma yields_done: "iter_length i = 0 \<Longrightarrow> yields x [] \<lparr>allocated_for_self_table = u, curr_iter = ExtraLargeSize i\<rparr>"
  by (simp add: info_next.simps iter_next_def)

lemma yields_xl:
  "iter_ok H t i pre mid post \<Longrightarrow> used_ok u \<Longrightarrow>
    yields x (extra_large_entries u mid) \<lparr>allocated_for_self_table = u, curr_iter = ExtraLargeSize i\<rparr>"
proof (induction mid arbitrary: i pre)
  case Nil
  then have "iter_length i = 0" by (simp add: iter_ok_def)
  then show ?case unfolding extra_large_entries_def list.map by (rule yields_done)
next
  case (Cons sc mid)
  from next_xl [OF Cons.prems, of x] Cons.IH [OF _ Cons.prems(2)] show ?case
    by (auto simp: extra_large_entries_def)
qed

lemma yields_map:
  assumes "map_ok mp" and "used_ok u"
  shows "yields x (extra_large_entries u (pairs mp)) \<lparr>allocated_for_self_table = u, curr_iter = ExtraLargeSize (map_iter mp)\<rparr>"
proof (cases "root mp")
  case None
  then have "iter_length (map_iter mp) = 0" "pairs mp = []" by (simp_all add: map_iter_def pairs_def)
  then show ?thesis using yields_done by (simp add: extra_large_entries_def)
next
  case (Some t)
  from yields_xl [OF map_iter_ok [OF assms(1) Some] assms(2)] show ?thesis .
qed

lemma yields_large:
  assumes x: "tables_full x" and u: "used_ok u" and t: "large_chunk_table x = Some (b, t)"
    and idx: "idx \<le> REAL_NUMBER_OF_LARGE_OBJECT_VECTORS"
  shows "yields x (large_entries x u t idx @ extra_large_entries u (pairs (allocated_large_sizes x)))
    \<lparr>allocated_for_self_table = u, curr_iter = LargeSize idx\<rparr>"
  using idx
proof (induction rule: inc_induct)
  case base
  have "info_next x \<lparr>allocated_for_self_table = u, curr_iter = LargeSize REAL_NUMBER_OF_LARGE_OBJECT_VECTORS\<rparr>
      = info_next x \<lparr>allocated_for_self_table = u, curr_iter = ExtraLargeSize (map_iter (allocated_large_sizes x))\<rparr>"
    by (subst info_next.simps) simp
  from yields_same [OF this] yields_map [OF _ u, of "allocated_large_sizes x" x] x show ?case
    by (simp add: large_entries_def tables_full_def)
next
  case (step idx)
  have "idx < length t" "idx < length (large_object_table x)" using x t step.hyps by (auto simp: tables_full_def)
  with step t show ?case
    by (simp add: info_next.simps chunk_info_entry [OF u] large_entries_def upt_conv_Cons)
qed

lemma yields_from_large:
  assumes "tables_full x" and "used_ok u"
  shows "yields x (entries_from_large x u) \<lparr>allocated_for_self_table = u, curr_iter =
    (if large_chunk_table x \<noteq> None then LargeSize 0 else ExtraLargeSize (map_iter (allocated_large_sizes x)))\<rparr>"
  using yields_large [OF assms, of _ _ 0] yields_map [OF _ assms(2)] assms(1)
  by (auto simp: entries_from_large_def tables_full_def split: option.splits)

lemma yields_common:
  assumes x: "tables_full x" and u: "used_ok u" and t: "common_chunk_table x = Some (b, t)"
    and idx: "idx \<le> COMMON_SIZE_TABLE_LEN"
  shows "yields x (common_entries x u t idx @ entries_from_large x u)
    \<lparr>allocated_for_self_table = u, curr_iter = CommonSize idx\<rparr>"
  using idx
proof (induction rule: inc_induct)
  case base
  have "info_next x \<lparr>allocated_for_self_table = u, curr_iter = CommonSize COMMON_SIZE_TABLE_LEN\<rparr>
      = info_next x \<lparr>allocated_for_self_table = u, curr_iter =
          (if large_chunk_table x \<noteq> None then LargeSize 0 else ExtraLargeSize (map_iter (allocated_large_sizes x)))\<rparr>"
    by (subst info_next.simps) simp
  from yields_same [OF this] yields_from_large [OF x u] show ?case by (simp add: common_entries_def)
next
  case (step idx)
  have i: "common_index_of ((idx + 1) * 8) = idx"
    using step.hyps by (intro trans [OF common_index_eq]) (auto simp: layout_simps)
  have "idx < length t" "idx < length (common_object_table x)" using x t step.hyps by (auto simp: tables_full_def)
  with step t show ?case
    by (simp add: info_next.simps chunk_info_entry [OF u] common_entries_def upt_conv_Cons i [simplified])
qed

lemma yields_all:
  assumes "tables_full x" and "used_ok u"
  shows "yields x (entries x u) \<lparr>allocated_for_self_table = u, curr_iter = first_iter x\<rparr>"
  using yields_common [OF assms, of _ _ 0] yields_from_large [OF assms]
  by (auto simp: entries_def first_iter_def split: option.splits)

section \<open>The statistics report every size\<close>

lemma tables_full_borrow [simp]: "tables_full (x\<lparr>is_borrowed_for_unknown_time := b\<rparr>) = tables_full x"
  and entries_borrow [simp]: "entries (x\<lparr>is_borrowed_for_unknown_time := b\<rparr>) u = entries x u"
  by (simp_all add: tables_full_def entries_def entries_from_large_def common_entries_def large_entries_def cong: option.case_cong)

lemma new_iter_yields:
  assumes "tables_full x" and "allocated_for_self s own x = Some u" and "used_ok u"
  obtains it where "info_iter_new s own x = Some (it, x\<lparr>is_borrowed_for_unknown_time := True\<rparr>)"
    and "yields (x\<lparr>is_borrowed_for_unknown_time := True\<rparr>) (entries x u) it" and "curr_iter it = first_iter x"
    and "allocated_for_self_table it = u"
proof (rule that)
  let ?x = "x\<lparr>is_borrowed_for_unknown_time := True\<rparr>" and ?it = "\<lparr>allocated_for_self_table = u, curr_iter = first_iter x\<rparr>"
  show "info_iter_new s own x = Some (?it, ?x)" using assms(2) by (simp add: info_iter_new_def)
  have "first_iter ?x = first_iter x" by (simp add: first_iter_def)
  with yields_all [of ?x u] assms(1,3) show "yields ?x (entries x u) ?it" by simp
qed simp_all

lemma yields_lazy:
  shows "yields x [] it \<Longrightarrow> \<exists>it'. lazy_next x it = Some (None, it')"
    and "yields x (i # is) it \<Longrightarrow> \<exists>it'. lazy_next x it = Some (Some (snd i), it') \<and> yields x is it'"
  by (auto simp: lazy_next_def) (metis prod.collapse)

lemma snapshot_loop_yields:
  "yields x is it \<Longrightarrow> length is < n \<Longrightarrow> length v + length is \<le> cap \<Longrightarrow> snapshot_loop n x it cap v = Some (v @ map snd is)"
proof (induction "is" arbitrary: n it v)
  case Nil
  then obtain k where "n = Suc k" by (cases n) auto
  with yields_lazy(1) [OF Nil.prems(1)] show ?case by auto
next
  case (Cons i "is")
  then obtain k where k: "n = Suc k" by (cases n) auto
  obtain it' where it': "lazy_next x it = Some (Some (snd i), it')" "yields x is it'"
    using yields_lazy(2) [OF Cons.prems(1)] by blast
  from Cons.IH [OF it'(2), of k "v @ [snd i]"] Cons.prems k it'(1) show ?case by simp
qed

lemma slice_loop_yields:
  "yields x is it \<Longrightarrow> length is < n \<Longrightarrow> length is \<le> m \<Longrightarrow>
    slice_loop n x it (map Some v @ replicate m None) (length v)
      = Some (map Some (v @ map snd is) @ replicate (m - length is) None)"
proof (induction "is" arbitrary: n it v m)
  case Nil
  then obtain k where "n = Suc k" by (cases n) auto
  with yields_lazy(1) [OF Nil.prems(1)] show ?case by auto
next
  case (Cons i "is")
  then obtain k where k: "n = Suc k" by (cases n) auto
  obtain j where j: "m = Suc j" using Cons.prems(3) by (cases m) auto
  obtain it' where it': "lazy_next x it = Some (Some (snd i), it')" "yields x is it'"
    using yields_lazy(2) [OF Cons.prems(1)] by blast
  have "(map Some v @ replicate m None)[length v := Some (snd i)] = map Some (v @ [snd i]) @ replicate j None"
    by (simp add: j list_update_append)
  then show ?case using Cons.IH [OF it'(2), of k j "v @ [snd i]"] Cons.prems it'(1) by (simp add: k j)
qed

definition short_add :: "InfoForSize \<Rightarrow> ShortStats \<Rightarrow> ShortStats" where
  "short_add i acc = \<lparr>allocated_memory_from_os = usize_of (allocated_memory_from_os acc + memory_allocated i),
     used_memory = usize_of (used_memory acc + memory_used i)\<rparr>"

lemma short_loop_yields:
  "yields x is it \<Longrightarrow> length is < n \<Longrightarrow> short_loop n x it acc = Some (fold (short_add \<circ> snd) is acc)"
proof (induction "is" arbitrary: n it acc)
  case Nil
  then obtain k where "n = Suc k" by (cases n) auto
  with yields_lazy(1) [OF Nil.prems(1)] show ?case by auto
next
  case (Cons i "is")
  then obtain k where k: "n = Suc k" by (cases n) auto
  obtain it' where it': "lazy_next x it = Some (Some (snd i), it')" "yields x is it'"
    using yields_lazy(2) [OF Cons.prems(1)] by blast
  from Cons.IH [OF it'(2), of k] Cons.prems k it'(1) show ?case by (simp add: short_add_def)
qed

lemma short_fold:
  "a < 2 ^ 64 \<Longrightarrow> b < 2 ^ 64 \<Longrightarrow>
    fold (short_add \<circ> snd) is \<lparr>allocated_memory_from_os = a, used_memory = b\<rparr>
      = \<lparr>allocated_memory_from_os = usize_of (a + sum_list (map (memory_allocated \<circ> snd) is)),
         used_memory = usize_of (b + sum_list (map (memory_used \<circ> snd) is))\<rparr>"
proof (induction "is" arbitrary: a b)
  case (Cons i "is")
  have "usize_of (usize_of (c + d) + e) = usize_of (c + (d + e))" for c d e by (simp add: mod_add_left_eq add.assoc)
  with Cons.IH show ?case by (simp add: short_add_def)
qed simp

lemma hint_length:
  assumes "tables_full x" and "curr_iter it = first_iter x"
  shows "info_size_hint (x\<lparr>is_borrowed_for_unknown_time := b\<rparr>) it = length (entries x u)
    + (if common_chunk_table x \<noteq> None \<and> large_chunk_table x = None then REAL_NUMBER_OF_LARGE_OBJECT_VECTORS else 0)"
proof -
  let ?mp = "allocated_large_sizes x"
  have m: "map_length ?mp = length (pairs ?mp)" "iter_length (map_iter ?mp) = length (pairs ?mp)"
    using assms(1) by (auto simp: tables_full_def map_ok_def map_iter_def pairs_def split: option.splits)
  show ?thesis
    using assms(2) m by (auto simp: info_size_hint_def first_iter_def entries_def entries_from_large_def
      common_entries_def large_entries_def extra_large_entries_def split: option.splits)
qed

lemma entries_bound:
  assumes "tables_full x"
  shows "length (entries x u) < iteration_bound (x\<lparr>is_borrowed_for_unknown_time := b\<rparr>)"
proof -
  have "map_length (allocated_large_sizes x) = length (pairs (allocated_large_sizes x))"
    using assms by (auto simp: tables_full_def map_ok_def pairs_def split: option.splits)
  then show ?thesis
    by (auto simp: iteration_bound_def entries_def entries_from_large_def common_entries_def large_entries_def
        extra_large_entries_def split: option.splits)
qed

text \<open>C9: the statistics of a thread visit every common size if it has a table of common chunks, every large
  size if it has one of large chunks, and every extra-large size with its count, once and in increasing
  order within each class; then the iterator ends. \<open>SnapshotDetailedStats::new\<close> returns exactly these
  entries, the capacity it reserves is never exceeded; the short statistics are their sums; the mark that
  the allocator is borrowed is taken back.\<close>

theorem stats_report_all:
  assumes "tables_full x" and "allocated_for_self s own_sizes x = Some u" and "used_ok u"
  shows "snapshot_stats s own_sizes x = Some (map snd (entries x u), x\<lparr>is_borrowed_for_unknown_time := False\<rparr>)
    \<and> short_stats s own_sizes x = Some (\<lparr>allocated_memory_from_os = usize_of (sum_list (map (memory_allocated \<circ> snd) (entries x u))),
        used_memory = usize_of (sum_list (map (memory_used \<circ> snd) (entries x u)))\<rparr>, x\<lparr>is_borrowed_for_unknown_time := False\<rparr>)"
proof -
  obtain it where it: "info_iter_new s own_sizes x = Some (it, x\<lparr>is_borrowed_for_unknown_time := True\<rparr>)"
    "yields (x\<lparr>is_borrowed_for_unknown_time := True\<rparr>) (entries x u) it" "curr_iter it = first_iter x"
    using new_iter_yields [OF assms] by metis
  note b = entries_bound [OF assms(1), of u True]
  have "length ([]::InfoForSize list) + length (entries x u) \<le> info_size_hint (x\<lparr>is_borrowed_for_unknown_time := True\<rparr>) it"
    using hint_length [OF assms(1) it(3), of True u] by simp
  from snapshot_loop_yields [OF it(2) b this] short_loop_yields [OF it(2) b, of "\<lparr>allocated_memory_from_os = 0, used_memory = 0\<rparr>"]
    short_fold [of 0 0 "entries x u"] it(1)
  show ?thesis by (simp add: snapshot_stats_def short_stats_def info_iter_drop_def)
qed

text \<open>C11: \<open>snapshot_detailed_stats\<close> allocates as many entries as the lower bound of \<open>size_hint\<close> says and
  returns all of them as initialised. When a thread has a table of common chunks and none of large
  chunks (it has never needed a large object), the bound counts the large sizes, which are not
  visited, and the last 88 entries of the result are uninitialised memory. In every other case the
  result is exactly the entries.\<close>

theorem snapshot_uninitialised:
  assumes "tables_full x" and "allocated_for_self s own_sizes x = Some u" and "used_ok u"
  shows "snapshot_detailed_stats s own_sizes x =
    Some (map Some (map snd (entries x u))
        @ replicate (if common_chunk_table x \<noteq> None \<and> large_chunk_table x = None then 88 else 0) None,
      x\<lparr>is_borrowed_for_unknown_time := False\<rparr>)"
proof -
  let ?x = "x\<lparr>is_borrowed_for_unknown_time := True\<rparr>"
  obtain it where it: "info_iter_new s own_sizes x = Some (it, ?x)" "yields ?x (entries x u) it" "curr_iter it = first_iter x"
    using new_iter_yields [OF assms] by metis
  note h = hint_length [OF assms(1) it(3), of True u]
  from slice_loop_yields [OF it(2) entries_bound [OF assms(1), of u True], of "info_size_hint ?x it" "[]"] h it(1)
  show ?thesis by (simp add: snapshot_detailed_stats_def info_iter_drop_def layout_simps)
qed

section \<open>A thread with small objects only\<close>

definition small_objects :: inner where
  "small_objects = new_inner\<lparr>common_chunk_table := Some (65536, replicate COMMON_SIZE_TABLE_LEN new_vec)\<rparr>"

lemma write_each_0: "\<forall>sz\<in>set szs. sz = 0 \<Longrightarrow> write_each szs u = Some u"
  by (induction szs) (simp_all add: write_one_def write_used_number_and_size_def)

lemma bytes_new_vec: "bytes_allocated n new_vec = 0"
  by (simp add: bytes_allocated_def new_vec_def recommended_common)

lemma small_objects_ready:
  obtains u where "allocated_for_self 1 [] small_objects = Some u" and "used_ok u" and "tables_full small_objects"
    and "length (entries small_objects u) = 128"
proof -
  let ?N = MAX_NUMBER_OF_SELF_ALLOCATED_OBJECTS
  have r: "recommended_size 2048 = 2048" using recommended_pow2 [of 11] by (simp add: layout_simps)
  have "used_addable 2048 1 (new_used ?N)"
    by (simp add: used_addable_def new_used_def used_count_def used_map_def used_entries_def MAX_NUMBER_OF_SELF_ALLOCATED_OBJECTS_def)
  from write_used_adds [OF new_used_ok this] obtain u where u: "write_one 2048 (new_used ?N) = Some u" "used_ok u"
    by (auto simp: write_one_def)
  have z: "write_each (replicate m 0) v = Some v" for m v
    by (rule write_each_0) auto
  have zero: "write_used_number_and_size 0 n v = Some v" for n v by (simp add: write_used_number_and_size_def)
  have "allocated_for_self 1 [] small_objects = Some u"
    unfolding allocated_for_self_def small_objects_def new_inner_def
    by (simp add: write_manager_def cm_write_allocated_memory_def new_chunk_manager_def bytes_new_vec zero z write_chunk_table_def
        write_nodes_def new_map_def new_memory_def r size_of_vec_def u COMMON_SIZE_TABLE_LEN_def COMMON_SIZE_MAX_def)
  moreover have m: "map_ok new_map" "pairs new_map = []" by (simp_all add: map_ok_def new_map_def pairs_def)
  then have "tables_full small_objects" by (simp add: tables_full_def small_objects_def new_inner_def)
  moreover have "length (entries small_objects u) = 128"
    by (simp add: entries_def entries_from_large_def small_objects_def new_inner_def m extra_large_entries_def common_entries_def layout_simps)
  ultimately show ?thesis using that u(2) by blast
qed

theorem stats_report_all_witness:
  "\<exists>v st. snapshot_stats 1 [] small_objects = Some (v, small_objects) \<and> length v = 128
    \<and> short_stats 1 [] small_objects = Some (st, small_objects)"
proof -
  obtain u where u: "allocated_for_self 1 [] small_objects = Some u" "used_ok u" "tables_full small_objects"
    "length (entries small_objects u) = 128" by (rule small_objects_ready)
  have "small_objects\<lparr>is_borrowed_for_unknown_time := False\<rparr> = small_objects" by (simp add: small_objects_def new_inner_def)
  with stats_report_all [OF u(3,1,2)] u(4) show ?thesis by auto
qed

theorem snapshot_uninitialised_witness:
  "\<exists>v. snapshot_detailed_stats 1 [] small_objects = Some (v, small_objects) \<and> length v = 216 \<and> v ! 127 \<noteq> None \<and> v ! 128 = None"
proof -
  obtain u where u: "allocated_for_self 1 [] small_objects = Some u" "used_ok u" "tables_full small_objects"
    "length (entries small_objects u) = 128" by (rule small_objects_ready)
  have s: "common_chunk_table small_objects \<noteq> None" "large_chunk_table small_objects = None"
    "small_objects\<lparr>is_borrowed_for_unknown_time := False\<rparr> = small_objects" by (simp_all add: small_objects_def new_inner_def)
  from snapshot_uninitialised [OF u(3,1,2)] s u(4) show ?thesis by (simp add: nth_append)
qed

end
