(* ===== verification/Destructor.thy ===== *)
theory Destructor
  imports Statistics ThreadOwner
begin

text \<open>
  The end of a thread's allocator: \<open>try_free_all_memory\<close>, \<open>move_to_another_thread\<close> and
  \<open>destructor\<close> of \<open>thread_local_allocator.rs\<close>, and the functions \<open>tls.rs\<close> generates, the
  implementation of \<open>GlobalAlloc\<close> among them.

  The code of the manager of non-local pointers is a parameter (\<open>manager_end\<close>), as are the threads that
  run while the moved allocator sleeps. The key of \<open>pthread\<close> that calls the destructor is not part of
  the world.
\<close>

section \<open>Freeing all memory\<close>

record 'n manager_end =
  self_allocated_memory :: "'n \<Rightarrow> usize list"
  self_drop :: "'n \<Rightarrow> 'n"

datatype verdict = FoundExtraLarge | FoundInUse | NothingInUse

text \<open>The loop over the sizes, of at most \<open>n\<close> rounds.\<close>

fun check_sizes :: "nat \<Rightarrow> inner \<Rightarrow> InfoForSizeIter \<Rightarrow> verdict option" where
  "check_sizes 0 x it = None"
| "check_sizes (Suc n) x it =
     (case info_next x it of
        None \<Rightarrow> None
      | Some (None, _) \<Rightarrow> Some NothingInUse
      | Some (Some (cl, info), it') \<Rightarrow>
          if cl = ExtraLarge then Some FoundExtraLarge
          else if objects_used info \<noteq> allocated_for_self_objects info then Some FoundInUse
          else check_sizes n x it')"

text \<open>The pointers of the boxes, tables and the map are set to null before the record is replaced by a new one.\<close>

definition force_null :: "inner \<Rightarrow> inner" where
  "force_null x = x\<lparr>non_local_ptr_manager_box := None, common_chunk_table := None, large_chunk_table := None,
     common_object_table := map force_become_null (common_object_table x),
     large_object_table := map force_become_null (large_object_table x), allocated_large_sizes := new_map\<rparr>"

definition set_deallocated :: "inner \<Rightarrow> inner" where
  "set_deallocated x = new_inner\<lparr>is_already_destructured := True\<rparr>"

definition free_everything :: "('k, 'n) env \<Rightarrow> 'n manager_end \<Rightarrow> nat \<Rightarrow> ('k, 'n) world \<Rightarrow> ('k, 'n) world option" where
  "free_everything E D n w =
     Option.bind (without_state (get_or_init_non_local_ptr_manager E (allocator_at E n)) w) (\<lambda>(_, w1).
       let w2 = w1\<lparr>nl := self_drop D (nl w1)\<rparr>
       in map_option (\<lambda>(cm, p).
            let x = set_deallocated (force_null ((inner w2)\<lparr>chunk_manager := cm\<rparr>))
            in w2\<lparr>inner := x\<lparr>is_destructor_registered := False\<rparr>, proc := p, node_memory := []\<rparr>)
          (free_all_memory (env_libc E) (env_kernel E) (chunk_manager (inner w2), proc w2)))"

text \<open>\<open>True\<close> is \<open>Ok(())\<close>, \<open>False\<close> is \<open>Err(())\<close>.\<close>

definition try_free_all_memory :: "('k, 'n) env \<Rightarrow> 'n manager_end \<Rightarrow> nat \<Rightarrow> ('k, 'n) world \<Rightarrow> (bool \<times> ('k, 'n) world) option" where
  "try_free_all_memory E D n w =
     (if is_already_destructured (inner w) \<or> is_borrowed_for_unknown_time (inner w) then None
      else case info_iter_new (size_of_nlpm E) (self_allocated_memory D (nl w)) (inner w) of
        None \<Rightarrow> None
      | Some (it, x) \<Rightarrow>
          (let w1 = w\<lparr>inner := info_iter_drop x\<rparr>
           in case check_sizes (iteration_bound x) x it of
             None \<Rightarrow> None
           | Some FoundExtraLarge \<Rightarrow> Some (True, w1)
           | Some FoundInUse \<Rightarrow> Some (False, w1)
           | Some NothingInUse \<Rightarrow> settled (map_option (Pair True) (free_everything E D n w1))))"

section \<open>The destructor\<close>

text \<open>The world of the thread afterwards, and the allocator that was moved to another thread, if it was.\<close>

definition destructor :: "('k, 'n) env \<Rightarrow> 'n manager_end \<Rightarrow> nat \<Rightarrow> bool \<Rightarrow> ('k, 'n) world \<Rightarrow>
    (('k, 'n) world \<times> inner option) option" where
  "destructor E D n is_panicking w =
     (if is_panicking \<or> is_already_destructured (inner w) then Some (w, None)
      else case try_free_all_memory E D n w of
        None \<Rightarrow> None
      | Some (True, w1) \<Rightarrow> Some (w1, None)
      | Some (False, w1) \<Rightarrow> Some (w1\<lparr>inner := set_deallocated (inner w1)\<rparr>, Some (inner w1)))"

text \<open>The thread an allocator is moved to, at most \<open>k\<close> rounds of its loop; \<open>meanwhile\<close> is what the others do
  while it sleeps for \<open>timeout\<close> microseconds.\<close>

fun moved_thread :: "('k, 'n) env \<Rightarrow> 'n manager_end \<Rightarrow> nat \<Rightarrow> (nat \<Rightarrow> ('k, 'n) world \<Rightarrow> ('k, 'n) world) \<Rightarrow> nat \<Rightarrow> nat \<Rightarrow>
    ('k, 'n) world \<Rightarrow> ('k, 'n) world option" where
  "moved_thread E D n meanwhile 0 timeout w = None"
| "moved_thread E D n meanwhile (Suc k) timeout w =
     (let w1 = check_non_local_ptrs E (allocator_at E n) w
      in if panicked w1 then None
         else case try_free_all_memory E D n w1 of
           None \<Rightarrow> None
         | Some (True, w2) \<Rightarrow> Some w2
         | Some (False, w2) \<Rightarrow> moved_thread E D n meanwhile k (min (timeout * 2) 1000000) (meanwhile timeout w2))"

section \<open>The global allocator\<close>

record Layout =
  layout_size :: usize
  layout_align :: usize

definition global_alloc :: "('k, 'n) env \<Rightarrow> nat \<Rightarrow> Layout \<Rightarrow> ('k, 'n) world \<Rightarrow> (addr \<times> ('k, 'n) world) option" where
  "global_alloc E n layout w =
     map_option (map_prod (case_option 0 id) id) (try_alloc E n (layout_size layout) w)"

definition global_dealloc :: "('k, 'n) env \<Rightarrow> nat \<Rightarrow> addr \<Rightarrow> Layout \<Rightarrow> ('k, 'n) world \<Rightarrow> ('k, 'n) world option" where
  "global_dealloc E n p layout w = (if p = 0 then None else dealloc E n p (layout_size layout) w)"

section \<open>What freeing all memory does to the regions\<close>

lemma ov_push_all_room:
  "length (ov_elems v) + length xs \<le> ov_cap v \<Longrightarrow> ov_push_all L K sz xs (v, s) = Some (v\<lparr>ov_elems := ov_elems v @ xs\<rparr>, s)"
proof (induction xs arbitrary: v)
  case (Cons x xs)
  from Cons.prems have "ov_push L K sz x (v, s) = Some (v\<lparr>ov_elems := ov_elems v @ [x]\<rparr>, s)" by (simp add: ov_push_def)
  with Cons.IH [of "v\<lparr>ov_elems := ov_elems v @ [x]\<rparr>"] Cons.prems show ?case by simp
qed simp

lemma dealloc_regions:
  assumes "kernel_ok L K mapped"
  shows "\<forall>r\<in>set rs. is_region r \<Longrightarrow>
    mapped (kern (os (fold (dealloc_region K) rs w))) = mapped (kern (os w)) - (\<Union>r\<in>set rs. range_of r REGION_SIZE)
    \<and> lim (fold (dealloc_region K) rs w) = (lim w)\<lparr>ALLOCATED := ALLOCATED (lim w) - of_nat (length rs * REGION_SIZE)\<rparr>"
proof (induction rs arbitrary: w)
  case (Cons r rs)
  have l: "lim (dealloc_region K r w) = (lim w)\<lparr>ALLOCATED := ALLOCATED (lim w) - of_nat REGION_SIZE\<rparr>"
    by (simp add: dealloc_region_def mark_deallocated_def)
  from Cons.IH [of "dealloc_region K r w"] Cons.prems dealloc_region_facts [OF assms, of r w] show ?case
    by (auto simp: l algebra_simps)
qed simp

lemma free_all_memory_facts:
  assumes K: "kernel_ok L K mapped" "kernel_huge_ok L K mapped" and L: "libc_ok L" "libc_huge_ok L"
    and regs: "\<forall>v\<in>set (vec_elems (cm_regions cm)). is_region (view_ptr v)" and len: "vec_len (cm_regions cm) < 2 ^ 40"
    and run: "free_all_memory L K (cm, w) = Some (cm', w')"
  shows "mapped (kern (os w')) = mapped (kern (os w)) - (\<Union>v\<in>set (vec_elems (cm_regions cm)). range_of (view_ptr v) REGION_SIZE)"
    and "ALLOCATED (lim w') = ALLOCATED (lim w) - of_nat (vec_len (cm_regions cm) * REGION_SIZE)"
proof -
  let ?rs = "map view_ptr (vec_elems (cm_regions cm))" and ?M = "mapped (kern (os w))"
  have rs: "\<forall>r\<in>set ?rs. is_region r" using regs by simp
  obtain v o1 where r: "ov_reserve L K 8 (length ?rs) (ov_new :: addr VecInOs, os w) = Some (v, o1)"
    using run by (cases "ov_reserve L K 8 (length ?rs) (ov_new :: addr VecInOs, os w)") (auto simp: free_all_memory_def Let_def)
  have v: "ov_elems v = []" "length ?rs \<le> ov_cap v" "ov_cap v * 8 mod 2 ^ 64 = ov_cap v * 8"
    and m: "mapped (kern o1) = ?M \<union> ov_memory 8 v" "?M \<inter> ov_memory 8 v = {}" "0 < ov_cap v \<Longrightarrow> PAGE dvd ov_ptr v"
  proof -
    have small: "length ?rs < 2 ^ 40" using len by (simp add: vec_len_def)
    have "ov_elems v = [] \<and> length ?rs \<le> ov_cap v \<and> ov_cap v * 8 mod 2 ^ 64 = ov_cap v * 8 \<and> mapped (kern o1) = ?M \<union> ov_memory 8 v
        \<and> ?M \<inter> ov_memory 8 v = {} \<and> (0 < ov_cap v \<longrightarrow> PAGE dvd ov_ptr v)"
    proof (cases "?rs = []")
      case True
      with r show ?thesis by (auto simp: ov_reserve_def ov_new_def Let_def ov_memory_def)
    next
      case False
      let ?c = "max (length ?rs) 4"
      have c: "?c * 8 mod 2 ^ 64 = ?c * 8" using small by (simp add: max_def)
      obtain p res where a: "alloc_from_os L K 0 (?c * 8) True False (os w) = ((p, res), o1)" "p \<noteq> 0"
        and v: "v = \<lparr>ov_ptr = p, ov_elems = [], ov_cap = ?c\<rparr>"
        using r False small c by (auto simp: ov_reserve_def ov_new_def Let_def split: prod.splits if_splits)
      have "0 < ?c * 8" by simp
      from alloc_from_os_facts [OF K L this a(1)] a(2) c v show ?thesis by (auto simp: ov_memory_def fresh_or_null_def)
    qed
    then show "ov_elems v = []" "length ?rs \<le> ov_cap v" "ov_cap v * 8 mod 2 ^ 64 = ov_cap v * 8"
      "mapped (kern o1) = ?M \<union> ov_memory 8 v" "?M \<inter> ov_memory 8 v = {}" "0 < ov_cap v \<Longrightarrow> PAGE dvd ov_ptr v" by blast+
  qed
  let ?w1 = "fold (dealloc_region K) ?rs (w\<lparr>os := o1\<rparr>)"
  have "ov_push_all L K 8 ?rs (v, o1) = Some (v\<lparr>ov_elems := ?rs\<rparr>, o1)" using ov_push_all_room [of v ?rs] v(1,2) by simp
  with run r have w': "w' = ?w1\<lparr>os := ov_drop K 8 (v\<lparr>ov_elems := ?rs\<rparr>, os ?w1)\<rparr>"
    by (auto simp: free_all_memory_def Let_def)
  note d = dealloc_regions [OF K(1) rs, of "w\<lparr>os := o1\<rparr>"]
  have "mapped (kern (ov_drop K 8 (v\<lparr>ov_elems := ?rs\<rparr>, os ?w1))) = mapped (kern (os ?w1)) - ov_memory 8 v"
    using kernel_unmap [OF K(1), of "ov_ptr v" "ov_cap v * 8" "os ?w1"] m(3) v(3)
    by (auto simp: ov_drop_def ov_memory_def os_free_def munmap_raw_def)
  then show "mapped (kern (os w')) = ?M - (\<Union>v\<in>set (vec_elems (cm_regions cm)). range_of (view_ptr v) REGION_SIZE)"
    using d m(1,2) by (auto simp: w')
  show "ALLOCATED (lim w') = ALLOCATED (lim w) - of_nat (vec_len (cm_regions cm) * REGION_SIZE)"
    using d by (simp add: w' vec_len_def)
qed

section \<open>The outcome\<close>

text \<open>The entry of a size whose objects are all free or the allocator's own.\<close>

definition settled_entry :: "SizeClass \<times> InfoForSize \<Rightarrow> bool" where
  "settled_entry e \<longleftrightarrow> fst e = ExtraLarge \<or> objects_used (snd e) = allocated_for_self_objects (snd e)"

lemma check_sizes_yields:
  "yields x is it \<Longrightarrow> length is < n \<Longrightarrow> check_sizes n x it = Some
    (case dropWhile (\<lambda>e. fst e \<noteq> ExtraLarge \<and> settled_entry e) is of
       [] \<Rightarrow> NothingInUse | e # _ \<Rightarrow> if fst e = ExtraLarge then FoundExtraLarge else FoundInUse)"
proof (induction "is" arbitrary: n it)
  case Nil
  then obtain k where "n = Suc k" by (cases n) auto
  with Nil.prems show ?case by auto
next
  case (Cons i "is")
  then obtain k where k: "n = Suc k" by (cases n) auto
  obtain cl info where i: "i = (cl, info)" by fastforce
  from Cons.prems(1) i obtain it' where it': "info_next x it = Some (Some (cl, info), it')" "yields x is it'" by auto
  from Cons.IH [OF it'(2), of k] Cons.prems k it'(1) i show ?case by (auto simp: settled_entry_def)
qed

lemma entries_classes:
  obtains xs where "entries x u = xs @ extra_large_entries u (pairs (allocated_large_sizes x))"
    and "\<forall>e\<in>set xs. fst e \<noteq> ExtraLarge"
proof (rule that)
  let ?xs = "(case common_chunk_table x of None \<Rightarrow> [] | Some (_, t) \<Rightarrow> common_entries x u t 0)
    @ (case large_chunk_table x of None \<Rightarrow> [] | Some (_, t) \<Rightarrow> large_entries x u t 0)"
  show "entries x u = ?xs @ extra_large_entries u (pairs (allocated_large_sizes x))"
    by (simp add: entries_def entries_from_large_def)
  show "\<forall>e\<in>set ?xs. fst e \<noteq> ExtraLarge"
    by (auto simp: common_entries_def large_entries_def split: option.splits)
qed

lemma verdict_entries:
  "(case dropWhile (\<lambda>e. fst e \<noteq> ExtraLarge \<and> settled_entry e) (entries x u) of
       [] \<Rightarrow> NothingInUse | e # _ \<Rightarrow> if fst e = ExtraLarge then FoundExtraLarge else FoundInUse)
    = (if \<exists>e\<in>set (entries x u). \<not> settled_entry e then FoundInUse
       else if pairs (allocated_large_sizes x) \<noteq> [] then FoundExtraLarge else NothingInUse)"
proof -
  let ?ps = "pairs (allocated_large_sizes x)" and ?P = "\<lambda>e. fst e \<noteq> ExtraLarge \<and> settled_entry e"
  obtain xs where xs: "entries x u = xs @ extra_large_entries u ?ps" "\<forall>e\<in>set xs. fst e \<noteq> ExtraLarge"
    by (rule entries_classes)
  have xl: "\<forall>e\<in>set (extra_large_entries u ?ps). fst e = ExtraLarge \<and> settled_entry e"
    by (simp add: extra_large_entries_def settled_entry_def)
  show ?thesis
  proof (cases "\<exists>e\<in>set xs. \<not> settled_entry e")
    case True
    then obtain ys e zs where e: "xs = ys @ e # zs" "\<not> settled_entry e" "\<forall>y\<in>set ys. settled_entry y"
      using split_list_first_prop [of xs "\<lambda>e. \<not> settled_entry e"] by auto
    then have "dropWhile ?P (entries x u) = e # zs @ extra_large_entries u ?ps"
      using xs by (simp add: dropWhile_append)
    moreover have "fst e \<noteq> ExtraLarge" using xs(2) e(1) by simp
    ultimately show ?thesis using True xs(1) by auto
  next
    case False
    then have "dropWhile ?P (entries x u) = dropWhile ?P (extra_large_entries u ?ps)"
      using xs by (simp add: dropWhile_append)
    also have "\<dots> = extra_large_entries u ?ps"
      using xl by (cases "extra_large_entries u ?ps") auto
    finally have d: "dropWhile ?P (entries x u) = extra_large_entries u ?ps" .
    have "\<not> (\<exists>e\<in>set (entries x u). \<not> settled_entry e)" using False xl xs(1) by auto
    then show ?thesis unfolding d by (cases ?ps) (simp_all add: extra_large_entries_def)
  qed
qed

definition may_ask :: "inner \<Rightarrow> bool" where
  "may_ask x \<longleftrightarrow> \<not> is_already_destructured x \<and> \<not> is_borrowed_for_unknown_time x \<and> tables_full x"

lemma try_free_cases:
  assumes x: "may_ask (inner w)" and u: "allocated_for_self (size_of_nlpm E) (self_allocated_memory D (nl w)) (inner w) = Some u"
    "used_ok u"
  shows "try_free_all_memory E D n w =
    (if \<exists>e\<in>set (entries (inner w) u). \<not> settled_entry e then Some (False, w)
     else if pairs (allocated_large_sizes (inner w)) \<noteq> [] then Some (True, w)
     else settled (map_option (Pair True) (free_everything E D n w)))"
proof -
  let ?x = "(inner w)\<lparr>is_borrowed_for_unknown_time := True\<rparr>"
  have full: "tables_full (inner w)" using x by (simp add: may_ask_def)
  obtain it where it: "info_iter_new (size_of_nlpm E) (self_allocated_memory D (nl w)) (inner w) = Some (it, ?x)"
    "yields ?x (entries (inner w) u) it" by (rule new_iter_yields [OF full u])
  have w: "w\<lparr>inner := info_iter_drop ?x\<rparr> = w" using x by (simp add: may_ask_def info_iter_drop_def)
  from check_sizes_yields [OF it(2) entries_bound [OF full]] it(1) x show ?thesis
    unfolding verdict_entries by (simp add: try_free_all_memory_def w may_ask_def Let_def)
qed

lemma free_everything_box:
  assumes box: "non_local_ptr_manager_box (inner w) = Some m" and run: "free_everything E D n w = Some w'"
  obtains cm p where "free_all_memory (env_libc E) (env_kernel E) (chunk_manager (inner w), proc w) = Some (cm, p)"
    and "w' = w\<lparr>nl := self_drop D (nl w), inner := new_inner\<lparr>is_already_destructured := True\<rparr>, proc := p, node_memory := []\<rparr>"
proof -
  have "without_state (get_or_init_non_local_ptr_manager E (allocator_at E n)) w = Some (m, w)"
    using box by (simp add: without_state_def get_or_init_non_local_ptr_manager_def)
  with run that show thesis by (auto simp: free_everything_def Let_def set_deallocated_def new_inner_def)
qed

text \<open>C3: \<open>try_free_all_memory\<close> answers \<open>Ok\<close> exactly if of every common and large size the objects in use are
  as many as the allocator holds itself. Then, if no extra-large block is alive, every region is
  unmapped and nothing else, the limit's counter falls by their size, and the allocator is new and marked as
  destructured. If it answers \<open>Err\<close>, or an extra-large block is alive, nothing changes, although the
  answer in the second case is \<open>Ok\<close> too and the destructor stops there.\<close>

theorem try_free_outcome:
  assumes x: "may_ask (inner w)" and u: "allocated_for_self (size_of_nlpm E) (self_allocated_memory D (nl w)) (inner w) = Some u"
    "used_ok u"
    and box: "non_local_ptr_manager_box (inner w) = Some m"
    and sys: "env_ok E mapped waiting"
    and regs: "regions = set (map view_ptr (vec_elems (cm_regions (chunk_manager (inner w)))))" "\<forall>r\<in>regions. is_region r"
      "vec_len (cm_regions (chunk_manager (inner w))) < 2 ^ 32"
    and run: "try_free_all_memory E D n w = Some (ok, w')"
  shows "ok = (\<forall>e\<in>set (entries (inner w) u). settled_entry e)
    \<and> (if ok \<and> pairs (allocated_large_sizes (inner w)) = []
       then inner w' = new_inner\<lparr>is_already_destructured := True\<rparr>
         \<and> mapped (kern (os (proc w'))) = mapped (kern (os (proc w))) - (\<Union>r\<in>regions. range_of r REGION_SIZE)
         \<and> ALLOCATED (lim (proc w')) = ALLOCATED (lim (proc w)) - of_nat (vec_len (cm_regions (chunk_manager (inner w))) * REGION_SIZE)
       else w' = w)"
proof (cases "(\<forall>e\<in>set (entries (inner w) u). settled_entry e) \<and> pairs (allocated_large_sizes (inner w)) = []")
  case False
  with run try_free_cases [OF x u, of n] show ?thesis by (auto split: if_splits)
next
  case True
  with run try_free_cases [OF x u, of n] have "settled (map_option (Pair True) (free_everything E D n w)) = Some (ok, w')" by auto
  then have ok: "ok" and f: "free_everything E D n w = Some w'" by (auto simp: settled_def split: option.splits if_splits)
  obtain cm p where p: "free_all_memory (env_libc E) (env_kernel E) (chunk_manager (inner w), proc w) = Some (cm, p)"
    and w': "w' = w\<lparr>nl := self_drop D (nl w), inner := new_inner\<lparr>is_already_destructured := True\<rparr>, proc := p, node_memory := []\<rparr>"
    by (rule free_everything_box [OF box f])
  have is_regs: "\<forall>v\<in>set (vec_elems (cm_regions (chunk_manager (inner w)))). is_region (view_ptr v)" using regs by auto
  have K: "kernel_ok (env_libc E) (env_kernel E) mapped" "kernel_huge_ok (env_libc E) (env_kernel E) mapped"
    "libc_ok (env_libc E)" "libc_huge_ok (env_libc E)" using sys by (simp_all add: env_ok_def)
  have "vec_len (cm_regions (chunk_manager (inner w))) < 2 ^ 40" using regs(3) by simp
  note facts = free_all_memory_facts [OF K is_regs this p]
  show ?thesis using True ok facts by (simp add: w' regs(1))
qed

section \<open>Objects that were never there\<close>

lemma chunk_entry_used:
  assumes "n * vec_len c < 2 ^ 64" and "vec_len v \<le> vec_len c * (n div sz)" and "0 < sz"
  shows "objects_used (chunk_entry u n sz c v) = vec_len c * (n div sz) - vec_len v + vec_len c * (n mod sz) div sz"
proof -
  let ?k = "vec_len c"
  have "n * ?k = (sz * (n div sz) + n mod sz) * ?k" by (simp only: mult_div_mod_eq)
  also have "\<dots> = sz * (?k * (n div sz)) + ?k * (n mod sz)" by (simp only: add_mult_distrib) (simp only: ac_simps)
  finally have "n * ?k = sz * (?k * (n div sz)) + ?k * (n mod sz)" .
  then have d: "n * ?k div sz = ?k * (n div sz) + ?k * (n mod sz) div sz" using assms(3) by simp
  have "n * ?k div sz < 2 ^ 64" using assms(1) by (rule le_less_trans [OF div_le_dividend])
  moreover have le: "vec_len v \<le> n * ?k div sz" using assms(2) d by linarith
  then have "n * ?k div sz + 2 ^ 64 - vec_len v = 2 ^ 64 + (n * ?k div sz - vec_len v)" by linarith
  ultimately have "usize_of (n * ?k div sz + 2 ^ 64 - vec_len v) = n * ?k div sz - vec_len v"
    by (simp only: mod_add_self1) (rule mod_less, linarith)
  moreover have "usize_of (n * ?k) = n * ?k" using assms(1) by (rule mod_less)
  ultimately show ?thesis using d assms(2) by (simp add: chunk_entry_def Let_def)
qed

text \<open>C10: the number of objects of a size is taken as the memory of all its chunks divided by the size, but
  each chunk holds only its own whole objects. As soon as the remainders of the chunks add up to an object
  (the 24-byte objects need two chunks, of 2730 each), an object that never existed counts as used:
  although every object is free again or the allocator's own, \<open>try_free_all_memory\<close> answers \<open>Err\<close>, so that the
  memory of the thread is never given back.\<close>

theorem phantom_objects_keep_memory:
  assumes x: "may_ask (inner w)" and u: "allocated_for_self (size_of_nlpm E) (self_allocated_memory D (nl w)) (inner w) = Some u"
    "used_ok u"
    and t: "common_chunk_table (inner w) = Some (b, t)" and i: "i < COMMON_SIZE_TABLE_LEN" "sz = (i + 1) * 8"
    and k: "k = vec_len (t ! i)" "k < 2 ^ 32"
    and all_free: "vec_len (common_object_table (inner w) ! i) + used_count u sz = k * (COMMON_CHUNK_SIZE div sz)"
    and remainders: "sz \<le> k * (COMMON_CHUNK_SIZE mod sz)"
  shows "try_free_all_memory E D n w = Some (False, w)"
proof -
  let ?e = "chunk_entry u COMMON_CHUNK_SIZE sz (t ! i) (common_object_table (inner w) ! i)"
  have "COMMON_CHUNK_SIZE * k < 2 ^ 64" using k(2) by (simp add: layout_simps)
  moreover have "vec_len (common_object_table (inner w) ! i) \<le> k * (COMMON_CHUNK_SIZE div sz)" using all_free by linarith
  moreover have "0 < sz" using i(2) by simp
  ultimately have "objects_used ?e = used_count u sz + k * (COMMON_CHUNK_SIZE mod sz) div sz"
    using chunk_entry_used [of COMMON_CHUNK_SIZE "t ! i" "common_object_table (inner w) ! i" sz u] all_free
    unfolding k(1) by linarith
  moreover have "1 \<le> k * (COMMON_CHUNK_SIZE mod sz) div sz"
    using div_le_mono [OF remainders, of sz] \<open>0 < sz\<close> by simp
  ultimately have "\<not> settled_entry (Common, ?e)" by (simp add: settled_entry_def chunk_entry_def Let_def)
  moreover have "(Common, ?e) \<in> set (entries (inner w) u)"
    using t i by (auto simp: entries_def common_entries_def)
  ultimately show ?thesis using try_free_cases [OF x u] by auto
qed

section \<open>Threads at their end\<close>

definition used_ready :: "nat \<Rightarrow> UsedObjectsFixed \<Rightarrow> bool" where
  "used_ready k u \<longleftrightarrow> used_ok u \<and> used_len u \<le> k \<and> length (used_arr u) = MAX_NUMBER_OF_SELF_ALLOCATED_OBJECTS
     \<and> (\<forall>sz. used_count u sz \<le> k)"

lemma used_ready_0: "used_ready 0 (new_used MAX_NUMBER_OF_SELF_ALLOCATED_OBJECTS)"
  by (simp add: used_ready_def) (simp add: new_used_def)

lemma write_ready:
  assumes "used_ready k u" and "k < 100" and "sz \<noteq> 0"
  obtains u' where "write_one sz u = Some u'" and "used_ready (Suc k) u'" and "used_count u' = (used_count u)(sz := used_count u sz + 1)"
proof -
  have "used_count u sz \<le> k" using assms(1) by (simp add: used_ready_def)
  with assms(2) have c: "used_count u sz + 1 < 2 ^ 32" by simp
  then have "used_addable sz 1 u"
    using assms by (simp add: used_addable_def used_ready_def MAX_NUMBER_OF_SELF_ALLOCATED_OBJECTS_def layout_simps)
  moreover have "used_ok u" using assms(1) by (simp add: used_ready_def)
  ultimately obtain u' where u': "write_one sz u = Some u'" "used_ok u'" "length (used_arr u') = length (used_arr u)"
    "used_count u' = (used_count u)(sz := used_count u sz + 1)"
    using write_used_adds [of u sz 1] by (auto simp: write_one_def)
  then have "used_len u' \<le> used_len u + 1"
    by (auto simp: write_one_def write_used_number_and_size_def split: if_splits sum.splits option.splits)
  with u' assms(1) have "used_ready (Suc k) u'" by (auto simp: used_ready_def intro: le_SucI)
  with u' that show ?thesis by blast
qed

lemma write_each_zeros [simp]: "write_each (replicate m 0) v = Some v"
  by (rule write_each_0) auto

lemma write_each_append: "write_each (xs @ ys) v = Option.bind (write_each xs v) (write_each ys)"
  by (induction xs arbitrary: v) (auto split: bind_splits)

lemma write_each_one: "i < m \<Longrightarrow> write_each ((replicate m 0)[i := sz]) v = write_one sz v"
  by (simp add: upd_conv_take_nth_drop write_each_append) (cases "write_one sz v", simp_all)

lemma write_zero [simp]: "write_used_number_and_size 0 n v = Some v" "write_one 0 v = Some v"
  by (simp_all add: write_used_number_and_size_def write_one_def)

lemma empty_map [simp]: "map_ok new_map" "pairs new_map = []" "map_memory new_map = ((0, 0), (0, 0))"
  by (simp_all add: map_ok_def new_map_def pairs_def new_memory_def)

text \<open>A thread that has freed everything: the manager's box and the vector of its one region are left.\<close>

definition idle_world :: "addr \<Rightarrow> (addr set, unit) world" where
  "idle_world r = \<lparr>inner = new_inner\<lparr>non_local_ptr_manager_box := Some (r + 65536),
       chunk_manager := new_chunk_manager\<lparr>cm_regions := \<lparr>vec_ptr = r + 65600,
         vec_elems = [\<lparr>view_ptr = r, number_of_common_chunks_occupied = MAX_COMMON_CHUNKS_IN_REGION\<rparr>], vec_cap = 4\<rparr>\<rparr>\<rparr>,
     proc = \<lparr>lim = initial_limit_state, os = (initial_os_state (range_of r REGION_SIZE))\<lparr>SHOULD_TRY_OPTION := SHOULD_NOT_TRY_HUGE_PAGE\<rparr>\<rparr>,
     cells = (\<lambda>_. None), maybe_state = None, node_memory = [], nl = (), panicked = False\<rparr>"

definition lone_end :: "unit manager_end" where
  "lone_end = \<lparr>self_allocated_memory = (\<lambda>_. []), self_drop = (\<lambda>n. n)\<rparr>"

lemma idle_ready:
  obtains u where "allocated_for_self (size_of_nlpm lone_env) (self_allocated_memory lone_end (nl (idle_world r))) (inner (idle_world r)) = Some u"
    and "used_ok u" and "may_ask (inner (idle_world r))" and "entries (inner (idle_world r)) u = []"
proof -
  have r64: "recommended_size 64 = 64" using recommended_pow2 [of 6] by (simp add: layout_simps)
  obtain u1 where u1: "write_one 64 (new_used MAX_NUMBER_OF_SELF_ALLOCATED_OBJECTS) = Some u1" "used_ready 1 u1"
    using write_ready [OF used_ready_0, of 64] by auto
  obtain u2 where u2: "write_one 64 u1 = Some u2" "used_ready 2 u2"
    using write_ready [OF u1(2), of 64] by (auto simp: numeral_2_eq_2)
  have "allocated_for_self (size_of_nlpm lone_env) (self_allocated_memory lone_end (nl (idle_world r))) (inner (idle_world r)) = Some u2"
    using u1(1) u2(1)
    by (simp add: allocated_for_self_def idle_world_def new_inner_def write_manager_def lone_env_def lone_end_def r64
        cm_write_allocated_memory_def new_chunk_manager_def bytes_new_vec write_chunk_table_def write_nodes_def)
      (simp add: bytes_allocated_def r64 write_one_def)
  moreover have "may_ask (inner (idle_world r))" by (simp add: may_ask_def tables_full_def idle_world_def new_inner_def)
  moreover have "entries (inner (idle_world r)) u2 = []"
    by (simp add: entries_def entries_from_large_def extra_large_entries_def idle_world_def new_inner_def)
  moreover have "used_ok u2" using u2(2) by (simp add: used_ready_def)
  ultimately show ?thesis using that by blast
qed

lemma idle_frees:
  assumes "r = 2 ^ 25"
  obtains cm p where "free_all_memory linux_libc one_place (chunk_manager (inner (idle_world r)), proc (idle_world r)) = Some (cm, p)"
proof -
  let ?s = "os (proc (idle_world r))"
  have "range_of r REGION_SIZE \<inter> range_of PAGE (pages 32) = {}"
    by (auto simp: assms range_of_def pages_def PAGE_def)
  then have a: "alloc_from_os linux_libc one_place 0 32 True False ?s =
      ((PAGE, NotHugePage), ?s\<lparr>kern := range_of r REGION_SIZE \<union> range_of PAGE (pages 32)\<rparr>)"
    by (simp add: alloc_from_os_def custom_mmap_def Let_def mmap_not_huge_def os_mmap_def idle_world_def initial_os_state_def
        SHOULD_NOT_TRY_HUGE_PAGE_def SHOULD_TRY_1GB_HUGE_PAGE_def SHOULD_TRY_2MB_HUGE_PAGE_def one_place_def linux_libc_def PAGE_def pages_def)
  have cm: "vec_elems (cm_regions (chunk_manager (inner (idle_world r)))) = [\<lparr>view_ptr = r, number_of_common_chunks_occupied = MAX_COMMON_CHUNKS_IN_REGION\<rparr>]"
    by (simp add: idle_world_def)
  have "ov_reserve linux_libc one_place 8 1 (ov_new :: addr VecInOs, ?s) =
      Some (\<lparr>ov_ptr = PAGE, ov_elems = [], ov_cap = 4\<rparr>, ?s\<lparr>kern := range_of r REGION_SIZE \<union> range_of PAGE (pages 32)\<rparr>)"
    using a by (simp add: ov_reserve_def ov_new_def Let_def PAGE_def)
  then have "\<exists>x. free_all_memory linux_libc one_place (chunk_manager (inner (idle_world r)), proc (idle_world r)) = Some x"
    by (simp add: free_all_memory_def cm Let_def ov_push_def)
  then show ?thesis using that by (auto simp: split_paired_Ex)
qed

theorem try_free_outcome_witness:
  "\<exists>w'. try_free_all_memory lone_env lone_end 0 (idle_world (2 ^ 25)) = Some (True, w')
    \<and> kern (os (proc w')) = {} \<and> inner w' = new_inner\<lparr>is_already_destructured := True\<rparr>"
proof -
  define r :: addr where "r = 2 ^ 25"
  let ?w = "idle_world r"
  obtain u where u: "allocated_for_self (size_of_nlpm lone_env) (self_allocated_memory lone_end (nl ?w)) (inner ?w) = Some u" "used_ok u"
    and x: "may_ask (inner ?w)" "entries (inner ?w) u = []" by (rule idle_ready)
  have box: "non_local_ptr_manager_box (inner ?w) = Some (r + 65536)" by (simp add: idle_world_def)
  have regs: "{r} = set (map view_ptr (vec_elems (cm_regions (chunk_manager (inner ?w)))))" "\<forall>r\<in>{r}. is_region r"
    "vec_len (cm_regions (chunk_manager (inner ?w))) < 2 ^ 32"
    by (simp_all add: idle_world_def vec_len_def r_def is_region_def layout_simps)
  obtain cm p where "free_all_memory linux_libc one_place (chunk_manager (inner ?w), proc ?w) = Some (cm, p)"
    by (rule idle_frees [OF r_def])
  then obtain w' where f: "free_everything lone_env lone_end 0 ?w = Some w'" "\<not> panicked w'"
    using box by (simp add: free_everything_def without_state_def get_or_init_non_local_ptr_manager_def lone_env_def Let_def)
      (simp add: idle_world_def)
  have "pairs (allocated_large_sizes (inner ?w)) = []" by (simp add: idle_world_def new_inner_def)
  then have run: "try_free_all_memory lone_env lone_end 0 ?w = Some (True, w')"
    using try_free_cases [OF x(1) u, of 0] x(2) f by (simp add: settled_def)
  from try_free_outcome [OF x(1) u box lone_env_ok regs run] x(2) \<open>pairs _ = []\<close> have
    "inner w' = new_inner\<lparr>is_already_destructured := True\<rparr>" "kern (os (proc w')) = kern (os (proc ?w)) - range_of r REGION_SIZE" by simp_all
  with run show ?thesis unfolding r_def [symmetric] by (simp add: idle_world_def initial_os_state_def)
qed

text \<open>Two chunks of objects of 1016 bytes, all 128 of them free.\<close>

definition phantom_inner :: inner where
  "phantom_inner = new_inner\<lparr>
     common_chunk_table := Some (65536, (replicate COMMON_SIZE_TABLE_LEN new_vec)
       [126 := \<lparr>vec_ptr = 69632, vec_elems = [131072, 196608], vec_cap = 2\<rparr>]),
     common_object_table := (replicate COMMON_SIZE_TABLE_LEN new_vec)
       [126 := \<lparr>vec_ptr = 69640, vec_elems = map (\<lambda>j. if j < 64 then 131072 + 1016 * j else 196608 + 1016 * (j - 64)) [0..<128], vec_cap = 128\<rparr>]\<rparr>"

theorem phantom_objects_keep_memory_witness:
  "try_free_all_memory lone_env lone_end 0 ((idle_world 0)\<lparr>inner := phantom_inner\<rparr>) = Some (False, (idle_world 0)\<lparr>inner := phantom_inner\<rparr>)"
proof -
  let ?w = "(idle_world 0)\<lparr>inner := phantom_inner\<rparr>"
  let ?N = "new_used MAX_NUMBER_OF_SELF_ALLOCATED_OBJECTS"
  have r: "recommended_size 1024 = 1024" "recommended_size 2048 = 2048" "recommended_size 16 = 16"
    using recommended_pow2 [of 10] recommended_pow2 [of 11] recommended_pow2 [of 4] by (simp_all add: layout_simps)
  have bytes: "bytes_allocated 8 \<lparr>vec_ptr = p, vec_elems = xs, vec_cap = 128\<rparr> = 1024"
    "bytes_allocated 8 \<lparr>vec_ptr = p, vec_elems = xs, vec_cap = 2\<rparr> = 16" for p and xs :: "addr list"
    by (simp_all add: bytes_allocated_def r)
  obtain u1 where u1: "write_one 1024 ?N = Some u1" "used_ready 1 u1" "used_count u1 = (\<lambda>_. 0)(1024 := 1)"
    using write_ready [OF used_ready_0, of 1024] by auto
  obtain u2 where u2: "write_one 2048 u1 = Some u2" "used_ready 2 u2" "used_count u2 = (used_count u1)(2048 := 1)"
    using write_ready [OF u1(2), of 2048] u1(3) by (auto simp: numeral_2_eq_2)
  obtain u where u: "write_one 16 u2 = Some u" "used_ready 3 u" "used_count u = (used_count u2)(16 := 1)"
    using write_ready [OF u2(2), of 16] u1(3) u2(3) by (auto simp: numeral_3_eq_3)
  have len: "126 < COMMON_SIZE_TABLE_LEN" "COMMON_SIZE_TABLE_LEN * size_of_vec = 2048" by (simp_all add: layout_simps size_of_vec_def)
  have "allocated_for_self (size_of_nlpm lone_env) (self_allocated_memory lone_end (nl ?w)) (inner ?w) = Some u"
    using u1(1) u2(1) u(1)
    by (simp add: allocated_for_self_def phantom_inner_def new_inner_def write_manager_def cm_write_allocated_memory_def
        new_chunk_manager_def bytes_new_vec write_chunk_table_def write_nodes_def map_update write_each_one len r(2) bytes)
  moreover have "used_ok u" "used_count u 1016 = 0" using u(2,3) u1(3) u2(3) by (simp_all add: used_ready_def)
  moreover have "may_ask (inner ?w)" by (auto simp: may_ask_def tables_full_def phantom_inner_def new_inner_def)
  moreover have "common_chunk_table (inner ?w) = Some (65536, (replicate COMMON_SIZE_TABLE_LEN new_vec)
       [126 := \<lparr>vec_ptr = 69632, vec_elems = [131072, 196608], vec_cap = 2\<rparr>])" by (simp add: phantom_inner_def)
  ultimately show ?thesis
    by (intro phantom_objects_keep_memory [where i = 126 and sz = 1016 and k = 2 and u = u])
      (simp_all add: len vec_len_def phantom_inner_def, simp_all add: layout_simps)
qed

end
