(* ===== verification/Balance.thy ===== *)
theory Balance
  imports ThreadOwner
begin

text \<open>
  How many objects of each size a thread's allocator can account for. \<open>slack\<close> compares the objects its
  chunks have room for with those that are free, that the allocator holds itself, or that are on
  their way back; what is left are objects the thread may hold. \<open>earns\<close> says what an operation adds to
  it. The destructor frees the chunks when it finds that nothing is left, so that no object the
  thread holds may be missing here.
\<close>

section \<open>Counting objects\<close>

type_synonym amount = "usize \<Rightarrow> int"

text \<open>The object a block of a size is, if it is one.\<close>

definition object_of :: "usize \<Rightarrow> amount" where
  "object_of sz s = (if size_class_define sz \<noteq> ExtraLarge \<and> recommended_size sz = s then 1 else 0)"

definition of_size :: "int \<Rightarrow> usize \<Rightarrow> amount" where
  "of_size n sz s = (if sz = s then n else 0)"

definition got :: "'r option \<Rightarrow> amount \<Rightarrow> amount" where
  "got r d s = (case r of None \<Rightarrow> 0 | Some _ \<Rightarrow> d s)"

definition vec_one :: "usize \<Rightarrow> 'a self_vec \<Rightarrow> amount" where
  "vec_one esz v s = (if vec_cap v = 0 then 0 else object_of (vec_cap v * esz) s)"

text \<open>A table of free objects, with the blocks of its vectors; a table of chunks.\<close>

definition free_objects :: "bool \<Rightarrow> addr self_vec list \<Rightarrow> amount" where
  "free_objects common t s = (\<Sum>i<length t. of_size (int (vec_len (t ! i))) (slot_size common i) s + vec_one 8 (t ! i) s)"

definition chunk_room :: "nat \<Rightarrow> bool \<Rightarrow> (addr \<times> addr self_vec list) option \<Rightarrow> amount" where
  "chunk_room n common b s =
     (case b of
        None \<Rightarrow> 0
      | Some (p, t) \<Rightarrow>
          (\<Sum>i<length t. of_size (int (vec_len (t ! i)) * int (n div s)) (slot_size common i) s - vec_one 8 (t ! i) s)
            - object_of (length t * size_of_vec) s)"

definition cm_ones :: "ChunkManager \<Rightarrow> amount" where
  "cm_ones cm s = vec_one 8 (cm_free_large_chunks cm) s + vec_one 8 (cm_free_common_chunks cm) s + vec_one 16 (cm_regions cm) s"

definition manager_one :: "usize \<Rightarrow> addr option \<Rightarrow> amount" where
  "manager_one sz b s = (case b of None \<Rightarrow> 0 | Some _ \<Rightarrow> if sz = 0 then 0 else object_of sz s)"

definition inner_slack :: "usize \<Rightarrow> inner \<Rightarrow> amount" where
  "inner_slack n x s =
     chunk_room COMMON_CHUNK_SIZE True (common_chunk_table x) s + chunk_room LARGE_CHUNK_SIZE False (large_chunk_table x) s
     - free_objects True (common_object_table x) s - free_objects False (large_object_table x) s
     - cm_ones (chunk_manager x) s - manager_one n (non_local_ptr_manager_box x) s"

text \<open>The chunks in use of a state, of which some objects were handed out, and the place of a state.\<close>

definition chunk_slack :: "nat \<Rightarrow> UsedChunk list \<Rightarrow> amount" where
  "chunk_slack n us s = (\<Sum>u\<leftarrow>us. of_size (int (n div s) - int (number_of_free_slots u)) (uc_size u) s)"

definition state_slack :: "usize \<Rightarrow> State \<Rightarrow> amount" where
  "state_slack sos st s =
     chunk_slack COMMON_CHUNK_SIZE (used_common_chunks st) s + chunk_slack LARGE_CHUNK_SIZE (used_large_chunks st) s
     - (if state_at st = 0 then 0 else object_of sos s)"

definition chain_slack :: "usize \<Rightarrow> State list \<Rightarrow> amount" where
  "chain_slack sos c s = (\<Sum>st\<leftarrow>c. state_slack sos st s)"

definition block_ones :: "(addr \<times> usize) list \<Rightarrow> amount" where
  "block_ones ns s = (\<Sum>n\<leftarrow>ns. object_of (snd n) s)"

definition coming_back :: "NonLocalPtrData list \<Rightarrow> amount" where
  "coming_back ds s = (\<Sum>d\<leftarrow>ds. of_size 1 (slot_size (is_common (data_offset d)) (slot_idx (data_offset d))) s)"

definition slack :: "('k, 'n) env \<Rightarrow> ('n \<Rightarrow> NonLocalPtrData list) \<Rightarrow> ('k, 'n) world \<Rightarrow> amount" where
  "slack E waiting w s =
     inner_slack (size_of_nlpm E) (inner w) s + chain_slack (size_of_state E) (chain_now w) s
     - block_ones (node_memory w) s - coming_back (waiting (nl w)) s"

section \<open>What an operation adds\<close>

definition tables_there :: "inner \<Rightarrow> bool" where
  "tables_there x \<longleftrightarrow>
     length (common_object_table x) = COMMON_SIZE_TABLE_LEN
     \<and> length (large_object_table x) = REAL_NUMBER_OF_LARGE_OBJECT_VECTORS
     \<and> (\<forall>b t. common_chunk_table x = Some (b, t) \<longrightarrow> length t = COMMON_SIZE_TABLE_LEN)
     \<and> (\<forall>b t. large_chunk_table x = Some (b, t) \<longrightarrow> length t = REAL_NUMBER_OF_LARGE_OBJECT_VECTORS)"

definition sizes_good :: "State \<Rightarrow> bool" where
  "sizes_good st \<longleftrightarrow> list_all (\<lambda>u. good_size Common (uc_size u)) (used_common_chunks st)
     \<and> list_all (\<lambda>u. good_size Large (uc_size u)) (used_large_chunks st)"

text \<open>Free chunks and pointers from other threads come only after both tables of chunks are there. A call
  that makes a table could lose one a nested call made meanwhile; without chunks and pointers there is no
  such call.\<close>

definition both_tables :: "inner \<Rightarrow> bool" where
  "both_tables x \<longleftrightarrow> common_chunk_table x \<noteq> None \<and> large_chunk_table x \<noteq> None"

definition chunkless :: "inner \<Rightarrow> bool" where
  "chunkless x \<longleftrightarrow> vec_elems (cm_free_common_chunks (chunk_manager x)) = [] \<and> vec_elems (cm_free_large_chunks (chunk_manager x)) = []"

definition no_new_chunks :: "inner \<Rightarrow> inner \<Rightarrow> bool" where
  "no_new_chunks x y \<longleftrightarrow> both_tables x \<or> (chunkless x \<longrightarrow> chunkless y)"

definition ready :: "('n \<Rightarrow> NonLocalPtrData list) \<Rightarrow> ('k, 'n) world \<Rightarrow> bool" where
  "ready waiting w \<longleftrightarrow> maybe_state w \<noteq> Some [] \<and> tables_there (inner w) \<and> list_all sizes_good (chain_now w)
     \<and> (both_tables (inner w) \<or> chunkless (inner w) \<and> waiting (nl w) = [])"

definition gains :: "('k, 'n) env \<Rightarrow> ('n \<Rightarrow> NonLocalPtrData list) \<Rightarrow> ('k, 'n) world \<Rightarrow> ('k, 'n) world \<Rightarrow> amount \<Rightarrow> bool" where
  "gains E waiting w w' d \<longleftrightarrow>
     follows w w' \<and> (panicked w' \<or> ready waiting w' \<and> (\<forall>s. slack E waiting w s + d s \<le> slack E waiting w' s))"

definition earns :: "('k, 'n) env \<Rightarrow> ('n \<Rightarrow> NonLocalPtrData list) \<Rightarrow> ('k, 'n) world \<Rightarrow> ('k, 'n) world \<Rightarrow> amount \<Rightarrow> bool" where
  "earns E waiting w w' d \<longleftrightarrow> (panicked w \<or> ready waiting w \<longrightarrow> gains E waiting w w' d)"

lemma gains_fine: "gains E P w w' d \<Longrightarrow> panicked w' \<or> ready P w'"
  by (auto simp: gains_def)

lemma gains_follows: "gains E P w w' d \<Longrightarrow> follows w w'"
  by (simp add: gains_def)

lemma earnsI: "(panicked w \<or> ready P w \<Longrightarrow> gains E P w w' d) \<Longrightarrow> earns E P w w' d"
  by (simp add: earns_def)

lemma earnsD: "earns E P w w' d \<Longrightarrow> panicked w \<or> ready P w \<Longrightarrow> gains E P w w' d"
  by (simp add: earns_def)

lemma gains_step:
  assumes g: "gains E P w w1 d" and e: "earns E P w1 w2 e" and le: "\<And>s. f s \<le> d s + e s"
  shows "gains E P w w2 f"
proof -
  have g2: "gains E P w1 w2 e" using earnsD [OF e gains_fine [OF g]] .
  have fo: "follows w w2" using gains_follows [OF g] gains_follows [OF g2] by (rule follows_trans)
  have "slack E P w s + f s \<le> slack E P w2 s" if "\<not> panicked w2" for s
  proof -
    have "\<not> panicked w1" using that follows_panicked [OF gains_follows [OF g2]] by blast
    with g g2 that have "slack E P w s + d s \<le> slack E P w1 s" "slack E P w1 s + e s \<le> slack E P w2 s"
      by (simp_all add: gains_def)
    with le [of s] show ?thesis by linarith
  qed
  with fo g2 show ?thesis by (auto simp: gains_def)
qed

lemma earns_trans:
  "earns E P w w1 d \<Longrightarrow> earns E P w1 w2 e \<Longrightarrow> (\<And>s. f s \<le> d s + e s) \<Longrightarrow> earns E P w w2 f"
  by (rule earnsI) (rule gains_step [OF earnsD])

lemma gains_less: "gains E P w w' d \<Longrightarrow> (\<And>s. e s \<le> d s) \<Longrightarrow> gains E P w w' e"
  unfolding gains_def by (meson add_left_mono order_trans)

lemma earns_less: "earns E P w w' d \<Longrightarrow> (\<And>s. e s \<le> d s) \<Longrightarrow> earns E P w w' e"
  by (auto simp: earns_def intro: gains_less)

lemma gains_refl: "panicked w \<or> ready P w \<Longrightarrow> (\<And>s. d s \<le> 0) \<Longrightarrow> gains E P w w d"
  by (simp add: gains_def)

lemma earns_refl: "(\<And>s. d s \<le> 0) \<Longrightarrow> earns E P w w d"
  by (simp add: earns_def gains_refl)

lemma earns_panicked: "panicked w' \<Longrightarrow> earns E P w w' d"
  by (simp add: earns_def gains_def follows_def)

lemma earns_step:
  assumes "panicked w \<Longrightarrow> panicked w'"
    and "ready P w \<Longrightarrow> \<not> panicked w \<Longrightarrow> \<not> panicked w' \<Longrightarrow> follows w w' \<and> ready P w' \<and> (\<forall>s. slack E P w s + d s \<le> slack E P w' s)"
  shows "earns E P w w' d"
proof (cases "panicked w'")
  case False
  with assms show ?thesis unfolding earns_def gains_def by blast
qed (rule earns_panicked)

text \<open>A step inside the record of the allocator.\<close>

lemma earns_inner:
  assumes "tables_there (inner w) \<Longrightarrow> \<not> panicked w \<Longrightarrow> tables_there x \<and> same_tables (inner w) x \<and> no_new_chunks (inner w) x
      \<and> (\<forall>s. inner_slack (size_of_nlpm E) (inner w) s + d s \<le> inner_slack (size_of_nlpm E) x s)"
  shows "earns E P w (w\<lparr>inner := x\<rparr>) d"
proof (rule earns_step)
  assume r: "ready P w" and np: "\<not> panicked w"
  then have "tables_there (inner w)" by (simp add: ready_def)
  note x = assms [OF this np]
  have "slack E P w s + d s \<le> slack E P (w\<lparr>inner := x\<rparr>) s" for s
    using x [THEN conjunct2, THEN conjunct2, THEN conjunct2, rule_format, of s] by (simp add: slack_def chain_now_def)
  moreover have "both_tables x \<or> chunkless x \<and> P (nl w) = []"
    using x r by (auto simp: ready_def no_new_chunks_def both_tables_def same_tables_def)
  ultimately show "follows w (w\<lparr>inner := x\<rparr>) \<and> ready P (w\<lparr>inner := x\<rparr>) \<and> (\<forall>s. slack E P w s + d s \<le> slack E P (w\<lparr>inner := x\<rparr>) s)"
    using x r np by (simp add: follows_def same_tables_def ready_def chain_now_def)
qed simp

text \<open>Fields that do not count.\<close>

lemma earns_world:
  assumes "inner w' = inner w" and "maybe_state w' = maybe_state w" and "node_memory w' = node_memory w" and "nl w' = nl w"
    and "panicked w' = panicked w"
  shows "earns E P w w' (\<lambda>_. 0)"
  by (rule earns_step) (simp_all add: assms follows_def ready_def slack_def chain_now_def)

lemma got_simps [simp]: "got None d = (\<lambda>_. 0)" "got (Some p) d = d"
  by (simp_all add: got_def fun_eq_iff)

lemma object_of_recommended [simp]: "object_of (recommended_size sz) = object_of sz"
  by (auto simp: fun_eq_iff object_of_def recommended_class recommended_idem)

lemma object_of_nonneg [simp]: "0 \<le> object_of sz s" by (simp add: object_of_def)

lemma got_nonneg: "(\<And>s. 0 \<le> d s) \<Longrightarrow> 0 \<le> got r d s"
  by (simp add: got_def split: option.splits)

lemma times_add: "of_size (n + m) sz s = of_size n sz s + of_size m sz s"
  by (simp add: of_size_def)

lemma object_of_times: "size_class_define sz \<noteq> ExtraLarge \<Longrightarrow> object_of sz = of_size 1 (recommended_size sz)"
  by (simp add: fun_eq_iff object_of_def of_size_def)

text \<open>A call with no state: the chain is set aside meanwhile.\<close>

lemma earns_hidden:
  assumes t: "earns E P (w\<lparr>maybe_state := None\<rparr>) w1 d"
  shows "earns E P w (w1\<lparr>maybe_state := maybe_state w\<rparr>) d"
proof (rule earns_step)
  let ?w' = "w1\<lparr>maybe_state := maybe_state w\<rparr>"
  assume "panicked w"
  then have "panicked (w\<lparr>maybe_state := None\<rparr>) \<or> ready P (w\<lparr>maybe_state := None\<rparr>)" by simp
  from gains_follows [OF earnsD [OF t this]] \<open>panicked w\<close> show "panicked ?w'" by (auto dest: follows_panicked)
next
  let ?w' = "w1\<lparr>maybe_state := maybe_state w\<rparr>"
  assume r: "ready P w" and np: "\<not> panicked w" "\<not> panicked ?w'"
  have "ready P (w\<lparr>maybe_state := None\<rparr>)" using r by (simp add: ready_def chain_now_def)
  with earnsD [OF t] have g: "gains E P (w\<lparr>maybe_state := None\<rparr>) w1 d" by blast
  then have m: "maybe_state w1 = None" using follows_maybe [OF gains_follows [OF g]] np by simp
  have "slack E P w s = slack E P (w\<lparr>maybe_state := None\<rparr>) s + chain_slack (size_of_state E) (chain_now w) s" for s
    by (simp add: slack_def chain_now_def chain_slack_def)
  moreover have "slack E P ?w' s = slack E P w1 s + chain_slack (size_of_state E) (chain_now w) s" for s
    by (simp add: slack_def chain_now_def m chain_slack_def)
  moreover have "follows w ?w'" using gains_follows [OF g] np by (simp add: follows_def)
  moreover have "ready P ?w'" using r g np m by (auto simp: gains_def ready_def chain_now_def)
  ultimately show "follows w ?w' \<and> ready P ?w' \<and> (\<forall>s. slack E P w s + d s \<le> slack E P ?w' s)"
    using g np by (auto simp: gains_def)
qed

section \<open>The vectors of the allocator\<close>

text \<open>Writing a vector of the allocator changes the slack by its block and its elements, each of which
  adds \<open>g\<close>; \<open>cm\<close> marks the vectors of free chunks.\<close>

definition slack_slot :: "usize \<Rightarrow> (inner \<Rightarrow> 'a self_vec) \<Rightarrow> ('a self_vec \<Rightarrow> inner \<Rightarrow> inner) \<Rightarrow> amount \<Rightarrow> bool \<Rightarrow> (inner \<Rightarrow> bool) \<Rightarrow> bool" where
  "slack_slot esz get put g cm here \<longleftrightarrow>
     (esz = 8 \<or> esz = 16) \<and>
     (\<forall>x y. here x \<and> same_tables x y \<longrightarrow> here y) \<and>
     (\<forall>x v. tables_there x \<and> here x \<longrightarrow>
        get (put v x) = v \<and> tables_there (put v x) \<and> same_tables x (put v x)
        \<and> (cm \<longrightarrow> both_tables x \<or> vec_elems v = vec_elems (get x) \<longrightarrow> no_new_chunks x (put v x))
        \<and> (\<not> cm \<longrightarrow> no_new_chunks x (put v x))
        \<and> (\<forall>n s. inner_slack n (put v x) s + vec_one esz v s =
             inner_slack n x s + vec_one esz (get x) s + (int (vec_len v) - int (vec_len (get x))) * g s))"

lemma sum_replace:
  fixes f :: "nat \<Rightarrow> 'x \<Rightarrow> int"
  assumes "i < length t"
  shows "(\<Sum>j<length t. f j (t[i := v] ! j)) = (\<Sum>j<length t. f j (t ! j)) - f i (t ! i) + f i v"
  using sum_update [OF assms, of f v] by simp

lemma free_objects_update:
  assumes "i < length t"
  shows "free_objects common (t[i := v]) s =
    free_objects common t s + of_size (int (vec_len v) - int (vec_len (t ! i))) (slot_size common i) s + vec_one 8 v s - vec_one 8 (t ! i) s"
  using sum_replace [OF assms, of "\<lambda>i v. of_size (int (vec_len v)) (slot_size common i) s + vec_one 8 v s" v]
  by (simp add: free_objects_def of_size_def split: if_splits)

lemma chunk_room_update:
  assumes "b = Some (p, t)" and "i < length t"
  shows "chunk_room n common (put_in_box i v b) s =
    chunk_room n common b s + of_size ((int (vec_len v) - int (vec_len (t ! i))) * int (n div s)) (slot_size common i) s
      - vec_one 8 v s + vec_one 8 (t ! i) s"
  using sum_replace [OF assms(2), of "\<lambda>i v. of_size (int (vec_len v) * int (n div s)) (slot_size common i) s - vec_one 8 v s" v]
  by (simp add: chunk_room_def put_in_box_def assms(1) of_size_def left_diff_distrib split: if_splits)

lemma times_scale: "n * of_size m sz s = of_size (n * m) sz s"
  by (simp add: of_size_def)

lemma common_objects_slack:
  "slack_slot 8 (\<lambda>x. common_object_table x ! i) (\<lambda>v x. x\<lparr>common_object_table := (common_object_table x)[i := v]\<rparr>)
    (of_size (- 1) (slot_size True i)) False (\<lambda>_. i < COMMON_SIZE_TABLE_LEN)"
proof -
  have "inner_slack n (x\<lparr>common_object_table := (common_object_table x)[i := v]\<rparr>) s + vec_one 8 v s =
      inner_slack n x s + vec_one 8 (common_object_table x ! i) s
        + (int (vec_len v) - int (vec_len (common_object_table x ! i))) * of_size (- 1) (slot_size True i) s"
    if "i < length (common_object_table x)" for n x v s
    using free_objects_update [OF that, of True v s] by (simp add: inner_slack_def of_size_def)
  then show ?thesis by (simp add: slack_slot_def tables_there_def same_tables_def no_new_chunks_def chunkless_def)
qed

lemma large_objects_slack:
  "slack_slot 8 (\<lambda>x. large_object_table x ! i) (\<lambda>v x. x\<lparr>large_object_table := (large_object_table x)[i := v]\<rparr>)
    (of_size (- 1) (slot_size False i)) False (\<lambda>_. i < REAL_NUMBER_OF_LARGE_OBJECT_VECTORS)"
proof -
  have "inner_slack n (x\<lparr>large_object_table := (large_object_table x)[i := v]\<rparr>) s + vec_one 8 v s =
      inner_slack n x s + vec_one 8 (large_object_table x ! i) s
        + (int (vec_len v) - int (vec_len (large_object_table x ! i))) * of_size (- 1) (slot_size False i) s"
    if "i < length (large_object_table x)" for n x v s
    using free_objects_update [OF that, of False v s] by (simp add: inner_slack_def of_size_def)
  then show ?thesis by (simp add: slack_slot_def tables_there_def same_tables_def no_new_chunks_def chunkless_def)
qed

text \<open>A chunk in the table of its size is room for its objects.\<close>

definition objects_in :: "nat \<Rightarrow> usize \<Rightarrow> amount" where
  "objects_in n sz s = of_size (int (n div s)) sz s"

lemma box_update:
  assumes "b \<noteq> None" and "\<forall>p t. b = Some (p, t) \<longrightarrow> length t = m" and "i < m"
  shows "snd (the (put_in_box i v b)) ! i = v \<and> put_in_box i v b \<noteq> None
    \<and> (\<forall>p t. put_in_box i v b = Some (p, t) \<longrightarrow> length t = m)
    \<and> (\<forall>s. chunk_room n common (put_in_box i v b) s + vec_one 8 v s = chunk_room n common b s + vec_one 8 (snd (the b) ! i) s
         + (int (vec_len v) - int (vec_len (snd (the b) ! i))) * objects_in n (slot_size common i) s)"
proof -
  obtain p t where b: "b = Some (p, t)" "i < length t" using assms by auto
  show ?thesis
    using assms chunk_room_update [OF b, of n common v] b by (auto simp: put_in_box_def objects_in_def of_size_def)
qed

lemma common_chunks_slack:
  "slack_slot 8 (\<lambda>x. snd (the (common_chunk_table x)) ! i)
    (\<lambda>v x. x\<lparr>common_chunk_table := put_in_box i v (common_chunk_table x)\<rparr>)
    (objects_in COMMON_CHUNK_SIZE (slot_size True i)) False (\<lambda>x. i < COMMON_SIZE_TABLE_LEN \<and> common_chunk_table x \<noteq> None)"
  unfolding slack_slot_def
proof (intro conjI allI impI)
  fix x v assume a: "tables_there x \<and> i < COMMON_SIZE_TABLE_LEN \<and> common_chunk_table x \<noteq> None"
  then have "common_chunk_table x \<noteq> None" "\<forall>p t. common_chunk_table x = Some (p, t) \<longrightarrow> length t = COMMON_SIZE_TABLE_LEN" "i < COMMON_SIZE_TABLE_LEN"
    by (simp_all add: tables_there_def)
  note u = box_update [OF this, of v COMMON_CHUNK_SIZE True]
  let ?y = "x\<lparr>common_chunk_table := put_in_box i v (common_chunk_table x)\<rparr>"
  from u show "snd (the (common_chunk_table ?y)) ! i = v" by simp
  from u a show "tables_there ?y" by (simp add: tables_there_def)
  from u show "same_tables x ?y" by (simp add: same_tables_def)
  show "no_new_chunks x ?y" "no_new_chunks x ?y" by (simp_all add: no_new_chunks_def chunkless_def)
  show "inner_slack n ?y s + vec_one 8 v s = inner_slack n x s + vec_one 8 (snd (the (common_chunk_table x)) ! i) s
      + (int (vec_len v) - int (vec_len (snd (the (common_chunk_table x)) ! i))) * objects_in COMMON_CHUNK_SIZE (slot_size True i) s" for n s
    using u [THEN conjunct2, THEN conjunct2, THEN conjunct2, rule_format, of s] by (simp add: inner_slack_def)
qed (auto simp: same_tables_def)

lemma large_chunks_slack:
  "slack_slot 8 (\<lambda>x. snd (the (large_chunk_table x)) ! i)
    (\<lambda>v x. x\<lparr>large_chunk_table := put_in_box i v (large_chunk_table x)\<rparr>)
    (objects_in LARGE_CHUNK_SIZE (slot_size False i)) False (\<lambda>x. i < REAL_NUMBER_OF_LARGE_OBJECT_VECTORS \<and> large_chunk_table x \<noteq> None)"
  unfolding slack_slot_def
proof (intro conjI allI impI)
  fix x v assume a: "tables_there x \<and> i < REAL_NUMBER_OF_LARGE_OBJECT_VECTORS \<and> large_chunk_table x \<noteq> None"
  then have "large_chunk_table x \<noteq> None" "\<forall>p t. large_chunk_table x = Some (p, t) \<longrightarrow> length t = REAL_NUMBER_OF_LARGE_OBJECT_VECTORS" "i < REAL_NUMBER_OF_LARGE_OBJECT_VECTORS"
    by (simp_all add: tables_there_def)
  note u = box_update [OF this, of v LARGE_CHUNK_SIZE False]
  let ?y = "x\<lparr>large_chunk_table := put_in_box i v (large_chunk_table x)\<rparr>"
  from u show "snd (the (large_chunk_table ?y)) ! i = v" by simp
  from u a show "tables_there ?y" by (simp add: tables_there_def)
  from u show "same_tables x ?y" by (simp add: same_tables_def)
  show "no_new_chunks x ?y" "no_new_chunks x ?y" by (simp_all add: no_new_chunks_def chunkless_def)
  show "inner_slack n ?y s + vec_one 8 v s = inner_slack n x s + vec_one 8 (snd (the (large_chunk_table x)) ! i) s
      + (int (vec_len v) - int (vec_len (snd (the (large_chunk_table x)) ! i))) * objects_in LARGE_CHUNK_SIZE (slot_size False i) s" for n s
    using u [THEN conjunct2, THEN conjunct2, THEN conjunct2, rule_format, of s] by (simp add: inner_slack_def)
qed (auto simp: same_tables_def)

lemma manager_slacks:
  shows free_common_slack: "slack_slot 8 (\<lambda>x. cm_free_common_chunks (chunk_manager x))
      (\<lambda>v. set_cm_inner (\<lambda>cm. cm\<lparr>cm_free_common_chunks := v\<rparr>)) (\<lambda>_. 0) True (\<lambda>_. True)"
    and free_large_slack: "slack_slot 8 (\<lambda>x. cm_free_large_chunks (chunk_manager x))
      (\<lambda>v. set_cm_inner (\<lambda>cm. cm\<lparr>cm_free_large_chunks := v\<rparr>)) (\<lambda>_. 0) True (\<lambda>_. True)"
    and regions_slack: "slack_slot 16 (\<lambda>x. cm_regions (chunk_manager x))
      (\<lambda>v. set_cm_inner (\<lambda>cm. cm\<lparr>cm_regions := v\<rparr>)) (\<lambda>_. 0) True (\<lambda>_. True)"
  by (auto simp: slack_slot_def tables_there_def same_tables_def inner_slack_def cm_ones_def no_new_chunks_def chunkless_def)

section \<open>What the operations promise each other\<close>

text \<open>The environment of a thread, as its documentation promises it.\<close>

locale environment =
  fixes E :: "('k, 'n) env"
    and M :: "'k \<Rightarrow> addr set"
    and P :: "'n \<Rightarrow> NonLocalPtrData list"
  assumes env: "env_ok E M P"

locale balanced = environment E M P
  for E :: "('k, 'n) env" and M :: "'k \<Rightarrow> addr set" and P :: "'n \<Rightarrow> NonLocalPtrData list" +
  fixes ops :: "('k, 'n) world tla_ops"
  assumes self_alloc: "op_self_alloc ops cnt sz w = (r, w') \<Longrightarrow> 0 < sz \<Longrightarrow> recommended_size sz = sz \<Longrightarrow>
      earns E P w w' (got r (object_of sz))"
    and self_dealloc: "0 < sz \<Longrightarrow> earns E P w (op_self_dealloc ops p sz w) (\<lambda>s. - object_of sz s)"
    and handle: "panicked w \<or> c \<noteq> [] \<and> list_all sizes_good c \<Longrightarrow>
      earns E P w (op_handle_state ops c w) (chain_slack (size_of_state E) c)"
    and handle_tables: "panicked w \<or> c \<noteq> [] \<and> list_all sizes_good c \<Longrightarrow> panicked w \<or> ready P w \<Longrightarrow>
      present both_tables (op_handle_state ops c w)"
    and quiet: "op_self_alloc ops cnt sz w = (r, w') \<Longrightarrow> size_class_define sz \<noteq> ExtraLarge \<Longrightarrow> maybe_state w = Some (s # c) \<Longrightarrow>
      chunkless (inner w) \<and> P (nl w) = [] \<Longrightarrow> panicked w' \<or>
        common_chunk_table (inner w') = common_chunk_table (inner w) \<and> large_chunk_table (inner w') = large_chunk_table (inner w)
        \<and> (size_class_define sz = Large \<longrightarrow> used_common_chunks s = [] \<longrightarrow> used_common_chunks (state_now w') = [])"
    and try_alloc: "op_try_alloc ops sz w = (r, w') \<Longrightarrow> 0 < sz \<Longrightarrow> earns E P w w' (got r (object_of sz))"

context balanced
begin

abbreviation to :: "('k, 'n) world \<Rightarrow> ('k, 'n) world \<Rightarrow> amount \<Rightarrow> bool" where
  "to \<equiv> earns E P"

lemma vec_of_simps [simp]:
  "the_vec (vec_of ops esz get put) w = get (inner w)" "set_vec (vec_of ops esz get put) v w = w\<lparr>inner := put v (inner w)\<rparr>"
  "elem_size (vec_of ops esz get put) = esz" "vec_env.self_dealloc (vec_of ops esz get put) = op_self_dealloc ops"
  by (simp_all add: vec_of_def)

abbreviation held_block :: "nat \<Rightarrow> usize \<Rightarrow> amount" where
  "held_block cap esz s \<equiv> if cap = 0 then 0 else object_of (cap * esz) s"

lemma alloc_with_earns:
  assumes "alloc_with (vec_of ops esz get put) cnt n w = ((r, cap), w')" and esz: "esz = 8 \<or> esz = 16"
  shows "to w w' (got r (held_block cap esz))"
proof -
  let ?S = "recommended_size (next_power_of_two (n * esz))"
  note b = block_or_nothing [OF esz refl, of "n * esz"]
  have run: "op_self_alloc ops cnt ?S w = (r, w')" and cap: "cap = u32 (?S div esz)"
    using assms(1) by (auto simp: alloc_with_def vec_of_def Let_def split: prod.splits if_splits)
  show ?thesis
    by (rule earns_less [OF self_alloc [OF run b(2,3)]]) (use b(1) in \<open>cases r; auto simp: cap simp del: object_of_recommended\<close>)
qed

lemma maybe_dealloc_earns:
  assumes "0 < esz"
  shows "to w (maybe_dealloc (vec_of ops esz get put) p cap w) (\<lambda>s. - held_block cap esz s)"
proof (cases "cap = 0")
  case True
  then show ?thesis by (simp add: maybe_dealloc_def earns_refl)
next
  case False
  then show ?thesis using self_dealloc [of "cap * esz" w p] assms by (simp add: maybe_dealloc_def)
qed

lemma set_vec_earns:
  assumes V: "slack_slot esz get put g cm here" and r: "present here w"
    and d: "\<And>s. d s \<le> vec_one esz (get (inner w)) s - vec_one esz v s + (int (vec_len v) - int (vec_len (get (inner w)))) * g s"
    and c: "cm \<Longrightarrow> vec_elems v = vec_elems (get (inner w)) \<or> present both_tables w"
  shows "to w (w\<lparr>inner := put v (inner w)\<rparr>) d"
proof (rule earns_inner)
  assume s: "tables_there (inner w)" "\<not> panicked w"
  with r have "tables_there (inner w) \<and> here (inner w)" by (simp add: present_def)
  with V c s have w: "tables_there (put v (inner w))" "same_tables (inner w) (put v (inner w))" "no_new_chunks (inner w) (put v (inner w))"
    and b: "inner_slack n (put v (inner w)) s + vec_one esz v s =
      inner_slack n (inner w) s + vec_one esz (get (inner w)) s + (int (vec_len v) - int (vec_len (get (inner w)))) * g s" for n s
    unfolding slack_slot_def present_def by blast+
  have "inner_slack n (inner w) s + d s \<le> inner_slack n (put v (inner w)) s" for n s
    using b [of n s] d [of s] by linarith
  with w show "tables_there (put v (inner w)) \<and> same_tables (inner w) (put v (inner w)) \<and> no_new_chunks (inner w) (put v (inner w)) \<and>
      (\<forall>s. inner_slack (size_of_nlpm E) (inner w) s + d s \<le> inner_slack (size_of_nlpm E) (put v (inner w)) s)"
    by simp
qed

lemma present_slack:
  assumes "slack_slot esz get put g cm here" and "present here w" and "follows w w'"
  shows "present here w'"
proof (cases "panicked w'")
  case False
  with assms(2,3) have "here (inner w)" "same_tables (inner w) (inner w')"
    by (auto simp: present_def follows_def same_tables_def)
  with assms(1) show ?thesis unfolding slack_slot_def present_def by blast
qed (simp add: present_def)

lemma reserve_loop_earns:
  assumes V: "slack_slot esz get put g cm here"
  shows "reserve_loop fuel (vec_of ops esz get put) cnt n min_cap w = Some (b, w') \<Longrightarrow> present here w \<Longrightarrow>
    to w w' (\<lambda>_. 0)"
proof (induction fuel arbitrary: min_cap w)
  case (Suc fuel)
  let ?V = "vec_of ops esz get put"
  have esz: "esz = 8 \<or> esz = 16" "0 < esz" using V by (auto simp: slack_slot_def)
  obtain r cap w1 where a: "alloc_with ?V cnt min_cap w = ((r, cap), w1)" by (metis prod.collapse)
  note a1 = alloc_with_earns [OF a esz(1)]
  show ?case
  proof (rule earnsI)
    assume H: "panicked w \<or> ready P w"
    note h1 = earnsD [OF a1 H]
    have p1: "present here w1" using present_slack [OF V Suc.prems(2) gains_follows [OF h1]] .
    show "gains E P w w' (\<lambda>_. 0)"
    proof (cases "cap < needed ?V n w1")
      case True
      let ?w2 = "case r of None \<Rightarrow> w1 | Some p \<Rightarrow> maybe_dealloc ?V p cap w1"
      have rest: "reserve_loop fuel ?V cnt n (needed ?V n w1) ?w2 = Some (b, w')"
        using Suc.prems(1) a True by simp
      have t: "to w1 ?w2 (\<lambda>s. - got r (held_block cap esz) s)"
        using maybe_dealloc_earns [OF esz(2)] by (cases r) (simp_all add: earns_refl)
      have h2: "gains E P w ?w2 (\<lambda>_. 0)" by (rule gains_step [OF h1 t]) simp
      have "present here ?w2" using present_slack [OF V p1 gains_follows [OF earnsD [OF t gains_fine [OF h1]]]] .
      from gains_step [OF h2 Suc.IH [OF rest this]] show ?thesis by simp
    next
      case False
      show ?thesis
      proof (cases r)
        case None
        with Suc.prems(1) a False h1 show ?thesis by (auto elim: gains_less)
      next
        case (Some p)
        let ?v = "get (inner w1)"
        let ?w2 = "w1\<lparr>inner := put (?v\<lparr>vec_ptr := p, vec_cap := cap\<rparr>) (inner w1)\<rparr>"
        let ?w3 = "maybe_dealloc ?V (vec_ptr ?v) (vec_cap ?v) ?w2"
        have t2: "to w1 ?w2 (\<lambda>s. held_block (vec_cap ?v) esz s - held_block cap esz s)"
          by (rule set_vec_earns [OF V p1]) (simp_all add: vec_one_def vec_len_def)
        have t3: "to ?w2 ?w3 (\<lambda>s. - held_block (vec_cap ?v) esz s)" by (rule maybe_dealloc_earns [OF esz(2)])
        have t: "to w1 ?w3 (\<lambda>s. - held_block cap esz s)" by (rule earns_trans [OF t2 t3]) simp
        have h3: "gains E P w ?w3 (\<lambda>_. 0)" by (rule gains_step [OF h1 t]) (simp add: Some)
        have p3: "present here ?w3" using present_slack [OF V p1 gains_follows [OF earnsD [OF t gains_fine [OF h1]]]] .
        show ?thesis
        proof (cases "cap < needed ?V n ?w3")
          case True
          then have rest: "reserve_loop fuel ?V cnt n (needed ?V n ?w3) ?w3 = Some (b, w')"
            using Suc.prems(1) a False Some by (simp add: Let_def)
          from gains_step [OF h3 Suc.IH [OF rest p3]] show ?thesis by simp
        next
          case False
          with Suc.prems(1) a \<open>\<not> cap < needed ?V n w1\<close> Some have "w' = ?w3" by (simp add: Let_def)
          with h3 show ?thesis by simp
        qed
      qed
    qed
  qed
qed simp

lemma reserve_earns:
  assumes "slack_slot esz get put g cm here" and "present here w"
    and "reserve fuel (vec_of ops esz get put) cnt n w = Some (r, w')"
  shows "to w w' (\<lambda>_. 0)"
  using assms(3) reserve_loop_earns [OF assms(1) _ assms(2)]
  by (auto simp: reserve_def reserve_slow_def earns_refl split: if_splits option.splits)

lemma tables_stay: "present both_tables w \<Longrightarrow> follows w w' \<Longrightarrow> present both_tables w'"
  by (auto simp: present_def both_tables_def follows_def split: if_splits)

lemma extend_by_earns:
  assumes V: "slack_slot esz get put g cm here" and p: "present here w" and c: "cm \<Longrightarrow> present both_tables w"
    and run: "extend_by fuel (vec_of ops esz get put) cnt xs w = Some (b, w')"
  shows "to w w' (\<lambda>s. if b then int (length xs) * g s else 0)"
proof -
  obtain r w1 where res: "reserve fuel (vec_of ops esz get put) cnt (u32 (length xs)) w = Some (r, w1)"
    using run by (auto simp: extend_by_def split: option.splits)
  note t = reserve_earns [OF V p res]
  show ?thesis
  proof (cases r)
    case (Inl x)
    with run res t show ?thesis by (simp add: extend_by_def)
  next
    case (Inr x)
    let ?v = "(get (inner w1))\<lparr>vec_elems := vec_elems (get (inner w1)) @ xs\<rparr>"
    from Inr run res have r: "b" "w' = w1\<lparr>inner := put ?v (inner w1)\<rparr>" by (simp_all add: extend_by_def Let_def)
    show ?thesis
    proof (rule earnsI)
      assume H: "panicked w \<or> ready P w"
      note h = earnsD [OF t H]
      have "to w1 w' (\<lambda>s. int (length xs) * g s)"
        unfolding r(2)
        by (rule set_vec_earns [OF V present_slack [OF V p gains_follows [OF h]]])
          (use tables_stay [OF c gains_follows [OF h]] in \<open>simp_all add: vec_one_def vec_len_def\<close>)
      from gains_step [OF h this] r(1) show "gains E P w w' (\<lambda>s. if b then int (length xs) * g s else 0)" by simp
    qed
  qed
qed

lemma push_back_earns:
  assumes "slack_slot esz get put g cm here" and "present here w" and "cm \<Longrightarrow> present both_tables w"
    and "push_back ops (vec_of ops esz get put) p w = Some w'"
  shows "to w w' g"
  using assms(4) extend_by_earns [OF assms(1,2,3), of "rounds ops" False "[p]" True w']
  by (auto simp: push_back_def push_without_counting_limit_def split: option.splits bool.splits)

lemma without_state_earns:
  assumes run: "without_state f w = Some (r, w')"
    and f: "\<And>w1. f (w\<lparr>maybe_state := None\<rparr>) = Some (r, w1) \<Longrightarrow> to (w\<lparr>maybe_state := None\<rparr>) w1 d"
  shows "to w w' d"
  using run earns_hidden [OF f] by (auto simp: without_state_def)

lemma push_back_without_state_earns:
  assumes V: "slack_slot esz get put g False here" and p: "present here w"
    and run: "push_back_without_state ops (vec_of ops esz get put) p w = Some w'"
  shows "to w w' g"
proof -
  obtain w1 where ws: "without_state (\<lambda>w. map_option (Pair ()) (push_back ops (vec_of ops esz get put) p w)) w = Some ((), w1)" and w': "w' = w1"
    using run by (auto simp: push_back_without_state_def simp del: split_paired_Ex)
  show ?thesis
    unfolding w'
  proof (rule without_state_earns [OF ws])
    fix w2 assume "map_option (Pair ()) (push_back ops (vec_of ops esz get put) p (w\<lparr>maybe_state := None\<rparr>)) = Some ((), w2)"
    then have b: "push_back ops (vec_of ops esz get put) p (w\<lparr>maybe_state := None\<rparr>) = Some w2" by auto
    show "to (w\<lparr>maybe_state := None\<rparr>) w2 g"
      by (rule push_back_earns [OF V _ _ b]) (use p in \<open>simp_all add: present_def\<close>)
  qed
qed

end

end
