(* ===== verification/BalanceObjects.thy ===== *)
theory BalanceObjects
  imports Balance
begin

text \<open>
  Objects that are taken, cut from chunks and given back; the boxes of the manager and of the tables;
  the slow paths. A chunk alone is worth nothing: its objects count once it is in its table.
\<close>

section \<open>Objects and chunks\<close>

lemma earns_cells [simp]: "earns E P w (w\<lparr>cells := m\<rparr>) (\<lambda>_. 0)"
  by (rule earns_world) simp_all

lemma vec_pop_len: "vec_pop v = (r, v') \<Longrightarrow> int (vec_len v') = int (vec_len v) - (case r of None \<Rightarrow> 0 | Some _ \<Rightarrow> 1)
    \<and> vec_one esz v' s = vec_one esz v s"
  by (cases "vec_elems v = []") (auto simp: vec_pop_def vec_len_def vec_one_def Suc_leI)

lemma free_chunk_block:
  assumes "free_chunk K n p (cm, w) = Some (cm', w')"
  shows "cm_ones cm' s = cm_ones cm s" and "cm_free_common_chunks cm' = cm_free_common_chunks cm"
    and "cm_free_large_chunks cm' = cm_free_large_chunks cm"
proof -
  have cap: "swap_remove i v = Some (x, v') \<Longrightarrow> vec_cap v' = vec_cap v" for i x and v v' :: "'z self_vec"
    by (auto simp: swap_remove_def Let_def split: if_splits)
  obtain v where v: "cm' = cm\<lparr>cm_regions := v\<rparr>" "vec_cap v = vec_cap (cm_regions cm)"
    using assms by (auto simp: free_chunk_def Let_def write_mut_def split: option.splits if_splits dest!: cap)
  then show "cm_ones cm' s = cm_ones cm s" "cm_free_common_chunks cm' = cm_free_common_chunks cm"
    "cm_free_large_chunks cm' = cm_free_large_chunks cm"
    by (simp_all add: cm_ones_def vec_one_def)
qed

context balanced
begin

lemma pop_common_earns:
  assumes "pop_common i w = (r, w')" and "i < COMMON_SIZE_TABLE_LEN"
  shows "to w w' (got r (of_size 1 (slot_size True i)))"
proof -
  obtain v where v: "vec_pop (common_object_table (inner w) ! i) = (r, v)"
    and w': "w' = w\<lparr>inner := (inner w)\<lparr>common_object_table := (common_object_table (inner w))[i := v]\<rparr>\<rparr>"
    using assms(1) by (auto simp: pop_common_def split: prod.splits)
  show ?thesis
    unfolding w'
    by (rule set_vec_earns [OF common_objects_slack]) (use assms(2) vec_pop_len [OF v, of 8] in
        \<open>auto simp: present_def got_def of_size_def split: option.splits\<close>)
qed

lemma pop_large_earns:
  assumes "pop_large i w = (r, w')" and "i < REAL_NUMBER_OF_LARGE_OBJECT_VECTORS"
  shows "to w w' (got r (of_size 1 (slot_size False i)))"
proof -
  obtain v where v: "vec_pop (large_object_table (inner w) ! i) = (r, v)"
    and w': "w' = w\<lparr>inner := (inner w)\<lparr>large_object_table := (large_object_table (inner w))[i := v]\<rparr>\<rparr>"
    using assms(1) by (auto simp: pop_large_def split: prod.splits)
  show ?thesis
    unfolding w'
    by (rule set_vec_earns [OF large_objects_slack]) (use assms(2) vec_pop_len [OF v, of 8] in
        \<open>auto simp: present_def got_def of_size_def split: option.splits\<close>)
qed

lemma give_back_earns:
  assumes "give_back E n p w = Some w'"
  shows "to w w' (\<lambda>_. 0)"
proof -
  obtain cm q where w': "w' = w\<lparr>inner := (inner w)\<lparr>chunk_manager := cm\<rparr>, proc := q\<rparr>"
    and f: "free_chunk (env_kernel E) n p (chunk_manager (inner w), proc w) = Some (cm, q)"
    using assms by (auto simp: give_back_def)
  note c = free_chunk_block [OF f]
  have "to w (w\<lparr>inner := (inner w)\<lparr>chunk_manager := cm\<rparr>\<rparr>) (\<lambda>_. 0)"
    by (rule earns_inner) (simp add: tables_there_def same_tables_def no_new_chunks_def chunkless_def inner_slack_def c)
  moreover have "to (w\<lparr>inner := (inner w)\<lparr>chunk_manager := cm\<rparr>\<rparr>) w' (\<lambda>_. 0)"
    by (rule earns_world) (simp_all add: w')
  ultimately show ?thesis by (rule earns_trans) simp
qed

text \<open>All objects of a chunk but one go to the free ones.\<close>

lemma fill_earns:
  assumes V: "slack_slot esz get put (of_size (- 1) sz) False here" and p: "present here w"
    and sz: "0 < sz" "sz \<le> n" and run: "fill_from_chunk fuel (vec_of ops esz get put) sz n q w = Some (r, w')"
  shows "to w w' (got r (of_size (1 - int (n div sz)) sz))"
proof -
  let ?V = "vec_of ops esz get put" and ?k = "n div sz - 1"
  obtain x w1 where res: "reserve fuel ?V True (u32 ?k) w = Some (x, w1)"
    using run by (auto simp: fill_from_chunk_def Let_def split: option.splits)
  note t = reserve_earns [OF V p res]
  show ?thesis
  proof (cases x)
    case (Inl y)
    with run res have "r = None" "w' = w1" by (auto simp: fill_from_chunk_def Let_def)
    then show ?thesis using earns_less [OF t] by simp
  next
    case (Inr y)
    then obtain cur v where c: "carve ?k sz q (get (inner w1)) = Some (cur, v)" and r: "r = Some cur" "w' = w1\<lparr>inner := put v (inner w1)\<rparr>"
      using run res by (auto simp: fill_from_chunk_def Let_def)
    have len: "length (from_fn_chunks m sz q) = m" for m by (simp add: from_fn_chunks_eq_map)
    have "0 < n div sz" using sz by (simp add: div_greater_zero_iff)
    then have v: "int (vec_len v) = int (vec_len (get (inner w1))) + (int (n div sz) - 1)" "vec_one esz v s = vec_one esz (get (inner w1)) s" for s
      using carve_facts [OF c] len [of ?k] by (simp_all add: vec_len_def vec_one_def of_nat_diff Suc_leI)
    show ?thesis
    proof (rule earnsI)
      assume H: "panicked w \<or> ready P w"
      note h = earnsD [OF t H]
      have "to w1 w' (of_size (1 - int (n div sz)) sz)"
        unfolding r(2) by (rule set_vec_earns [OF V present_slack [OF V p gains_follows [OF h]]]) (simp_all add: v of_size_def)
      from gains_step [OF h this] r(1) show "gains E P w w' (got r (of_size (1 - int (n div sz)) sz))" by simp
    qed
  qed
qed

end

section \<open>Boxes\<close>

lemma earns_flags:
  assumes "inner_slack (size_of_nlpm E) x = inner_slack (size_of_nlpm E) (inner w)" and "tables_there x = tables_there (inner w)"
    and "same_tables (inner w) x" and "chunk_manager x = chunk_manager (inner w)"
  shows "earns E P w (w\<lparr>inner := x\<rparr>) (\<lambda>_. 0)"
  by (rule earns_inner) (use assms in \<open>simp add: no_new_chunks_def chunkless_def\<close>)

lemma chain_slack_simps [simp]:
  "chain_slack sos [] s = 0" "chain_slack sos (st # c) s = state_slack sos st s + chain_slack sos c s"
  "chain_slack sos (c @ d) s = chain_slack sos c s + chain_slack sos d s"
  by (simp_all add: chain_slack_def)

lemma set_is_allocating_earns: "earns E P w (set_is_allocating b w) (\<lambda>_. 0)"
proof (cases "maybe_state w")
  case (Some c)
  show ?thesis
  proof (cases c)
    case (Cons s d)
    then have w': "set_is_allocating b w = w\<lparr>maybe_state := Some (s\<lparr>is_allocating_non_local_ptr_manager_now := b\<rparr> # d)\<rparr>"
      using Some by (simp add: set_is_allocating_def)
    show ?thesis
      unfolding w'
      by (rule earns_step) (use Some Cons in \<open>simp_all add: follows_def chain_grown_def grown_def ready_def chain_now_def
          sizes_good_def slack_def state_slack_def\<close>)
  qed (use Some in \<open>simp add: set_is_allocating_def earns_refl\<close>)
qed (simp add: set_is_allocating_def earns_refl)

lemma from_region_slack [simp]: "state_slack sos (from_region r) s = 0" "sizes_good (from_region r)"
  by (simp_all add: state_slack_def chunk_slack_def sizes_good_def)

lemma new_table_slack:
  "chunk_room n common (Some (p, replicate m new_vec)) s = - object_of (m * size_of_vec) s"
proof -
  have "vec_len (new_vec :: addr self_vec) = 0" "vec_one 8 (new_vec :: addr self_vec) s = 0" by (simp_all add: new_vec_def vec_len_def vec_one_def)
  then show ?thesis by (auto simp: chunk_room_def of_size_def intro!: sum.neutral)
qed

lemma source_world: "region_source E cnt w = (r, w1) \<Longrightarrow> \<exists>q. w1 = w\<lparr>proc := q\<rparr>"
  using region_source_proc [of E cnt w] by auto

context balanced
begin

lemma box_new_earns:
  assumes "box_new ops sz w = (r, w')"
  shows "to w w' (got r (object_of sz))"
proof (cases "sz = 0")
  case True
  with assms show ?thesis by (auto simp: box_new_def intro: earns_panicked)
next
  case False
  then have run: "op_self_alloc ops True (recommended_size sz) w = (r, w')" using assms by (simp add: box_new_def)
  have "0 < recommended_size sz" using False recommended_ge [of sz] by linarith
  from self_alloc [OF run this recommended_idem] show ?thesis by simp
qed

lemma box_new_nonzero: "box_new ops sz w = (Some p, w') \<Longrightarrow> sz \<noteq> 0"
  by (auto simp: box_new_def split: if_splits)

lemma box_nlpm_earns:
  assumes "box_nlpm E ops w = Some w'"
  shows "to w w' (\<lambda>_. 0)"
proof -
  obtain p w1 where b: "box_new ops (size_of_nlpm E) (set_is_allocating True w) = (Some p, w1)"
    and w': "w' = set_is_allocating False (w1\<lparr>inner := (inner w1)\<lparr>non_local_ptr_manager_box := Some p\<rparr>\<rparr>)"
    using assms by (auto simp: box_nlpm_def split: prod.splits option.splits)
  let ?w2 = "w1\<lparr>inner := (inner w1)\<lparr>non_local_ptr_manager_box := Some p\<rparr>\<rparr>"
  have "to w w1 (object_of (size_of_nlpm E))"
    by (rule earns_trans [OF set_is_allocating_earns box_new_earns [OF b]]) simp
  moreover have "to w1 ?w2 (\<lambda>s. - object_of (size_of_nlpm E) s)"
    by (rule earns_inner) (use box_new_nonzero [OF b] in \<open>simp add: tables_there_def same_tables_def no_new_chunks_def chunkless_def inner_slack_def manager_one_def split: option.splits\<close>)
  ultimately have "to w ?w2 (\<lambda>_. 0)" by (rule earns_trans) simp
  then show ?thesis unfolding w' by (rule earns_trans [OF _ set_is_allocating_earns]) simp
qed

lemma handle_new_earns:
  assumes w2: "maybe_state w = None" and t: "to (w\<lparr>proc := q, maybe_state := Some [from_region r]\<rparr>) w2 d"
  shows "to w (op_handle_state ops (the (maybe_state w2)) (w2\<lparr>maybe_state := None\<rparr>)) d"
proof (rule earnsI)
  let ?w1 = "w\<lparr>proc := q, maybe_state := Some [from_region r]\<rparr>" and ?c = "the (maybe_state w2)"
  assume H: "panicked w \<or> ready P w"
  then have "panicked ?w1 \<or> ready P ?w1" by (auto simp: ready_def chain_now_def)
  note g = earnsD [OF t this]
  have c: "panicked w2 \<or> ?c \<noteq> [] \<and> list_all sizes_good ?c \<and> maybe_state w2 = Some ?c"
  proof (cases "panicked w2")
    case False
    with g obtain s d where "maybe_state w2 = Some (s # d)" and "ready P w2"
      by (auto simp: gains_def follows_def chain_grown_def split: option.splits list.splits)
    then show ?thesis by (simp add: ready_def chain_now_def)
  qed simp
  then have h: "to (w2\<lparr>maybe_state := None\<rparr>) (op_handle_state ops ?c (w2\<lparr>maybe_state := None\<rparr>)) (chain_slack (size_of_state E) ?c)"
    by (intro handle) auto
  have "gains E P w (w2\<lparr>maybe_state := None\<rparr>) (\<lambda>s. d s - chain_slack (size_of_state E) ?c s)"
  proof (cases "panicked w2")
    case False
    with c obtain cs where m: "maybe_state w2 = Some cs" by blast
    have 1: "slack E P w s = slack E P ?w1 s" for s by (simp add: slack_def chain_now_def w2)
    have "chain_now w2 = ?c" by (simp add: chain_now_def m)
    then have 2: "slack E P w2 s = slack E P (w2\<lparr>maybe_state := None\<rparr>) s + chain_slack (size_of_state E) ?c s" for s
      by (simp add: slack_def) (simp add: chain_now_def)
    have "ready P (w2\<lparr>maybe_state := None\<rparr>)" using g False by (simp add: gains_def ready_def chain_now_def)
    moreover have "follows w (w2\<lparr>maybe_state := None\<rparr>)" using g False w2 by (simp add: gains_def follows_def)
    moreover have "slack E P w s + (d s - chain_slack (size_of_state E) ?c s) \<le> slack E P (w2\<lparr>maybe_state := None\<rparr>) s" for s
    proof -
      have "slack E P ?w1 s + d s \<le> slack E P w2 s" using g False by (simp add: gains_def)
      then show ?thesis using 1 [of s] 2 [of s] by linarith
    qed
    ultimately show ?thesis by (simp add: gains_def)
  qed (simp add: gains_def follows_def)
  from gains_step [OF this h] show "gains E P w (op_handle_state ops ?c (w2\<lparr>maybe_state := None\<rparr>)) d" by simp
qed

lemma nlpm_slow_path_earns:
  assumes run: "nlpm_slow_path E ops w = Some w'"
  shows "to w w' (\<lambda>_. 0)"
proof -
  define w0 where "w0 = (if is_destructor_registered (inner w) then w else register_destructor w)"
  have "to w w0 (\<lambda>_. 0)"
    unfolding w0_def register_destructor_def
    by (auto intro!: earns_flags earns_refl simp: tables_there_def same_tables_def inner_slack_def [abs_def])
  moreover have "to w0 w' (\<lambda>_. 0)"
  proof (cases "size_of_nlpm E = 0")
    case True
    with run have w': "w' = w0\<lparr>inner := (inner w0)\<lparr>non_local_ptr_manager_box := Some (align_of_nlpm E)\<rparr>\<rparr>"
      by (simp add: nlpm_slow_path_def w0_def Let_def)
    show ?thesis
      unfolding w' by (rule earns_inner) (use True in \<open>simp add: tables_there_def same_tables_def no_new_chunks_def chunkless_def inner_slack_def manager_one_def split: option.splits\<close>)
  next
    case nz: False
    show ?thesis
    proof (cases "maybe_state w0")
      case (Some c)
      with run nz have "box_nlpm E ops w0 = Some w'" by (simp add: nlpm_slow_path_def w0_def Let_def)
      then show ?thesis by (rule box_nlpm_earns)
    next
      case None
      obtain r w1 where r: "uncounted E w0 = (r, w1)" by fastforce
      with run nz None obtain w2 where b: "box_nlpm E ops (w1\<lparr>maybe_state := Some [from_region r]\<rparr>) = Some w2"
        and w': "w' = op_handle_state ops (the (maybe_state w2)) (w2\<lparr>maybe_state := None\<rparr>)"
        by (auto simp: nlpm_slow_path_def w0_def Let_def split: if_splits)
      obtain q where q: "w1 = w0\<lparr>proc := q\<rparr>" using r by (auto simp: uncounted_def split: prod.splits)
      have "to (w1\<lparr>maybe_state := Some [from_region r]\<rparr>) w2 (\<lambda>_. 0)" by (rule box_nlpm_earns [OF b])
      then show ?thesis unfolding w' q by (intro handle_new_earns [OF None]) simp
    qed
  qed
  ultimately show ?thesis by (rule earns_trans) simp
qed

lemma get_or_init_earns:
  assumes "get_or_init_non_local_ptr_manager E ops w = Some (p, w')"
  shows "to w w' (\<lambda>_. 0)"
  using assms nlpm_slow_path_earns [of w w']
  by (auto simp: get_or_init_non_local_ptr_manager_def earns_refl split: option.splits bind_splits)

lemma get_common_chunk_table_there: "get_common_chunk_table ops w = Some w' \<Longrightarrow> common_chunk_table (inner w') \<noteq> None"
  by (auto simp: get_common_chunk_table_def split: if_splits prod.splits option.splits)

lemma get_large_chunk_table_there: "get_large_chunk_table ops w = Some w' \<Longrightarrow> large_chunk_table (inner w') \<noteq> None"
  by (auto simp: get_large_chunk_table_def split: if_splits prod.splits option.splits)

text \<open>A table that is missing is made from the state. No nested call makes it meanwhile.\<close>

lemma table_stays_missing:
  assumes b: "box_new ops sz w = (r, w1)" and xl: "size_class_define sz \<noteq> ExtraLarge" and m: "panicked w \<or> maybe_state w \<noteq> None"
    and H: "panicked w \<or> ready P w" and none: "\<not> both_tables (inner w)"
  shows "panicked w1 \<or> common_chunk_table (inner w1) = common_chunk_table (inner w)
    \<and> large_chunk_table (inner w1) = large_chunk_table (inner w)
    \<and> (size_class_define sz = Large \<longrightarrow> used_common_chunks (state_now w) = [] \<longrightarrow> used_common_chunks (state_now w1) = [])"
proof (cases "panicked w \<or> panicked w1")
  case True
  with gains_follows [OF earnsD [OF box_new_earns [OF b] H]] show ?thesis by (auto dest: follows_panicked)
next
  case False
  then have "sz \<noteq> 0" using b by (auto simp: box_new_def split: if_splits)
  then have run: "op_self_alloc ops True (recommended_size sz) w = (r, w1)" using b by (simp add: box_new_def)
  have "chunkless (inner w) \<and> P (nl w) = []" and "maybe_state w \<noteq> Some []" using H none False by (simp_all add: ready_def)
  moreover from this m False obtain s c where s: "maybe_state w = Some (s # c)" by (metis list.exhaust option.exhaust)
  ultimately show ?thesis using quiet [OF run _ s] xl by (simp add: recommended_class s)
qed

lemma get_common_chunk_table_earns:
  assumes "get_common_chunk_table ops w = Some w'" and m: "panicked w \<or> maybe_state w \<noteq> None \<or> both_tables (inner w)"
  shows "to w w' (\<lambda>_. 0)"
proof (cases "common_chunk_table (inner w) \<noteq> None")
  case True
  with assms show ?thesis by (simp add: get_common_chunk_table_def earns_refl)
next
  case False
  let ?sz = "COMMON_SIZE_TABLE_LEN * size_of_vec"
  from assms False obtain p w1 where b: "box_new ops ?sz w = (Some p, w1)"
    and w': "w' = w1\<lparr>inner := (inner w1)\<lparr>common_chunk_table := Some (p, replicate COMMON_SIZE_TABLE_LEN new_vec)\<rparr>\<rparr>"
    by (auto simp: get_common_chunk_table_def split: prod.splits option.splits)
  show ?thesis
  proof (rule earnsI)
    assume H: "panicked w \<or> ready P w"
    have none: "\<not> both_tables (inner w)" using False by (simp add: both_tables_def)
    have "size_class_define ?sz \<noteq> ExtraLarge" by (simp add: class_iff layout_simps size_of_vec_def)
    from table_stays_missing [OF b this _ H none] m none False
    have "panicked w1 \<or> common_chunk_table (inner w1) = None" by auto
    then have "to w1 w' (\<lambda>s. - object_of ?sz s)"
      unfolding w'
      by (intro earns_inner) (auto simp: tables_there_def same_tables_def no_new_chunks_def chunkless_def inner_slack_def new_table_slack
          chunk_room_def [of _ _ None])
    from gains_step [OF earnsD [OF box_new_earns [OF b] H] this] show "gains E P w w' (\<lambda>_. 0)" by simp
  qed
qed

lemma get_large_chunk_table_earns:
  assumes "get_large_chunk_table ops w = Some w'" and m: "panicked w \<or> maybe_state w \<noteq> None \<or> both_tables (inner w)"
  shows "to w w' (\<lambda>_. 0)"
proof (cases "large_chunk_table (inner w) \<noteq> None")
  case True
  with assms show ?thesis by (simp add: get_large_chunk_table_def earns_refl)
next
  case False
  let ?sz = "REAL_NUMBER_OF_LARGE_OBJECT_VECTORS * size_of_vec"
  from assms False obtain p w1 where b: "box_new ops ?sz w = (Some p, w1)"
    and w': "w' = w1\<lparr>inner := (inner w1)\<lparr>large_chunk_table := Some (p, replicate REAL_NUMBER_OF_LARGE_OBJECT_VECTORS new_vec)\<rparr>\<rparr>"
    by (auto simp: get_large_chunk_table_def split: prod.splits option.splits)
  show ?thesis
  proof (rule earnsI)
    assume H: "panicked w \<or> ready P w"
    have none: "\<not> both_tables (inner w)" using False by (simp add: both_tables_def)
    have "size_class_define ?sz \<noteq> ExtraLarge" by (simp add: class_iff layout_simps size_of_vec_def)
    from table_stays_missing [OF b this _ H none] m none False
    have "panicked w1 \<or> large_chunk_table (inner w1) = None" by auto
    then have "to w1 w' (\<lambda>s. - object_of ?sz s)"
      unfolding w'
      by (intro earns_inner) (auto simp: tables_there_def same_tables_def no_new_chunks_def chunkless_def inner_slack_def new_table_slack
          chunk_room_def [of _ _ None])
    from gains_step [OF earnsD [OF box_new_earns [OF b] H] this] show "gains E P w w' (\<lambda>_. 0)" by simp
  qed
qed

end

end
