(* ===== verification/BalancePaths.thy ===== *)
theory BalancePaths
  imports BalanceObjects
begin

text \<open>
  Pointers that come back from other threads, and the slow paths: the chunk enters its table and all but
  one of its objects become free ones, so that one is gained.
\<close>

section \<open>Incoming pointers\<close>

lemma coming_back_simps [simp]:
  "coming_back [] s = 0"
  "coming_back (d # ds) s = of_size 1 (slot_size (is_common (data_offset d)) (slot_idx (data_offset d))) s + coming_back ds s"
  "coming_back (ds @ es) s = coming_back ds s + coming_back es s"
  by (simp_all add: coming_back_def)

lemma coming_back_mset: "mset ds = mset es \<Longrightarrow> coming_back ds s = coming_back es s"
  unfolding coming_back_def sum_mset_sum_list [symmetric] mset_map by (rule arg_cong)

context balanced
begin

lemma return_ptr_earns:
  assumes "return_ptr ops d w = Some w'"
  shows "to w w' (\<lambda>s. - coming_back [d] s)"
proof (rule earnsI)
  let ?i = "slot_idx (data_offset d)" and ?c = "is_common (data_offset d)"
  have run: "push_back_without_state ops (if ?c then common_objects ops ?i else large_objects ops ?i) (data_ptr d) w = Some w'"
    and i: "?i < length (if ?c then common_object_table (inner w) else large_object_table (inner w))"
    using assms by (auto simp: return_ptr_def Let_def split: if_splits)
  assume H: "panicked w \<or> ready P w"
  have p: "panicked w \<or> ?i < (if ?c then COMMON_SIZE_TABLE_LEN else REAL_NUMBER_OF_LARGE_OBJECT_VECTORS)"
    using H i by (auto simp: ready_def tables_there_def)
  have "to w w' (of_size (- 1) (slot_size ?c ?i))"
  proof (cases ?c)
    case True
    then show ?thesis
      using push_back_without_state_earns [OF common_objects_slack [of ?i], of w "data_ptr d" w'] run p
      by (simp add: present_def common_objects_def)
  next
    case False
    then show ?thesis
      using push_back_without_state_earns [OF large_objects_slack [of ?i], of w "data_ptr d" w'] run p
      by (simp add: present_def large_objects_def)
  qed
  from earnsD [OF this H] show "gains E P w w' (\<lambda>s. - coming_back [d] s)" by (rule gains_less) (simp add: of_size_def)
qed

lemma return_ptrs_earns: "to w (return_ptrs ops ds w) (\<lambda>s. - coming_back ds s)"
proof (induction ds arbitrary: w)
  case (Cons d ds)
  have "to w (panic_unit w (return_ptr ops d w)) (\<lambda>s. - coming_back [d] s)"
    using return_ptr_earns by (cases "return_ptr ops d w") (auto simp: panic_unit_def intro: earns_panicked)
  from earns_trans [OF this Cons.IH] show ?case by simp
qed (simp add: earns_refl)

lemma return_all_earns: "to w (fold (return_ptrs ops) dss w) (\<lambda>s. - coming_back (concat dss) s)"
proof (induction dss arbitrary: w)
  case (Cons ds dss)
  from earns_trans [OF return_ptrs_earns Cons.IH] show ?case by simp
qed (simp add: earns_refl)

lemma checked:
  obtains dss n where "nl_check E (return_ptrs ops) w = fold (return_ptrs ops) dss (w\<lparr>nl := n\<rparr>)"
    and "mset (concat dss) + mset (P n) = mset (P (nl w))"
  using env unfolding env_ok_def manager_ok_def by blast

lemma check_non_local_ptrs_earns: "to w (check_non_local_ptrs E ops w) (\<lambda>_. 0)"
proof (cases "non_local_ptr_manager_box (inner w)")
  case (Some p)
  obtain dss n where run: "nl_check E (return_ptrs ops) w = fold (return_ptrs ops) dss (w\<lparr>nl := n\<rparr>)"
    and m: "mset (concat dss) + mset (P n) = mset (P (nl w))" by (rule checked)
  have c: "coming_back (P (nl w)) s = coming_back (concat dss) s + coming_back (P n) s" for s
    using coming_back_mset [of "P (nl w)" "concat dss @ P n" s] m by simp
  have "P n = []" if "P (nl w) = []" using m that by simp
  then have "to w (w\<lparr>nl := n\<rparr>) (\<lambda>s. coming_back (concat dss) s)"
    by (intro earns_step) (auto simp: c follows_def ready_def slack_def chain_now_def)
  from earns_trans [OF this return_all_earns] show ?thesis
    by (simp add: check_non_local_ptrs_def Some run)
qed (simp add: check_non_local_ptrs_def earns_refl)

text \<open>Without pointers on their way there is nothing to check.\<close>

lemma check_nothing:
  assumes "P (nl w) = []"
  shows "inner (check_non_local_ptrs E ops w) = inner w \<and> maybe_state (check_non_local_ptrs E ops w) = maybe_state w"
proof (cases "non_local_ptr_manager_box (inner w)")
  case (Some p)
  obtain dss n where run: "nl_check E (return_ptrs ops) w = fold (return_ptrs ops) dss (w\<lparr>nl := n\<rparr>)"
    and m: "mset (concat dss) + mset (P n) = mset (P (nl w))" by (rule checked)
  then have "concat dss = []" using assms by simp
  then have "fold (return_ptrs ops) dss v = v" for v by (induction dss arbitrary: v) auto
  then show ?thesis by (simp add: check_non_local_ptrs_def Some run)
qed (simp add: check_non_local_ptrs_def)

end

section \<open>The slow paths\<close>

text \<open>A source of chunks: what it gives is worth nothing yet, and both tables of chunks are there.\<close>

definition gives_chunk :: "('k, 'n) env \<Rightarrow> ('n \<Rightarrow> NonLocalPtrData list) \<Rightarrow> (('k, 'n) world \<Rightarrow> (addr option \<times> ('k, 'n) world) option) \<Rightarrow> bool" where
  "gives_chunk E P f \<longleftrightarrow>
     (\<forall>w r w'. f w = Some (r, w') \<longrightarrow> earns E P w w' (\<lambda>_. 0)
        \<and> (panicked w \<or> ready P w \<longrightarrow> r \<noteq> None \<longrightarrow> present both_tables w'))"

context balanced
begin

lemma new_chunk_earns:
  assumes T: "slack_slot 8 getT putT (objects_in n sz) False hereT"
      "\<And>w w'. table w = Some w' \<Longrightarrow> present both_tables w \<Longrightarrow> to w w' (\<lambda>_. 0) \<and> present hereT w'"
    and V: "slack_slot 8 getV putV (of_size (- 1) sz) False (\<lambda>_. hereV)" "hereV"
    and sz: "0 < sz" "sz \<le> n" and there: "present both_tables w"
    and run: "Option.bind (table w) (\<lambda>w4.
        case vec_push (rounds ops) (vec_of ops 8 getT putT) q w4 of
          None \<Rightarrow> None
        | Some (False, w5) \<Rightarrow> Some (None, w5)
        | Some (True, w5) \<Rightarrow>
            (case fill_from_chunk (rounds ops) (vec_of ops 8 getV putV) sz n q w5 of
               None \<Rightarrow> None
             | Some (None, w6) \<Rightarrow> Some (None, w6)
             | Some (Some cur, w6) \<Rightarrow>
                 map_option (\<lambda>(m, w7). (Some cur, w7\<lparr>cells := put_md m cur (cells w7)\<rparr>))
                   (if b then Some (cur, w6) else get_or_init_non_local_ptr_manager E ops w6))) = Some (r, w')"
  shows "to w w' (got r (of_size 1 sz))"
proof (rule earnsI)
  assume H: "panicked w \<or> ready P w"
  obtain w4 where t: "table w = Some w4" using run by (auto simp: bind_eq_Some_conv)
  note k4 = earnsD [OF conjunct1 [OF T(2) [OF t there]] H]
  obtain ok w5 where p: "vec_push (rounds ops) (vec_of ops 8 getT putT) q w4 = Some (ok, w5)"
    using run t by (auto split: option.splits)
  have "to w4 w5 (\<lambda>s. if ok then objects_in n sz s else 0)"
    using extend_by_earns [OF T(1) conjunct2 [OF T(2) [OF t there]], of "rounds ops" True "[q]" ok w5] p
    by (cases ok) (simp_all add: vec_push_def)
  from gains_step [OF k4 this] have k5: "gains E P w w5 (\<lambda>s. if ok then objects_in n sz s else 0)" by simp
  show "gains E P w w' (got r (of_size 1 sz))"
  proof (cases ok)
    case False
    with run t p have "r = None" "w' = w5" by simp_all
    with k5 False show ?thesis by (auto elim: gains_less)
  next
    case True
    then obtain c w6 where f: "fill_from_chunk (rounds ops) (vec_of ops 8 getV putV) sz n q w5 = Some (c, w6)"
      using run t p by (auto split: option.splits)
    have "present (\<lambda>_. hereV) w5" using V(2) by (simp add: present_def)
    note t6 = fill_earns [OF V(1) this sz f]
    show ?thesis
    proof (cases c)
      case None
      with run t p True f have "r = None" "w' = w6" by simp_all
      with gains_step [OF k5 t6, of "\<lambda>_. 0"] None True show ?thesis by (auto simp: objects_in_def of_size_def intro: gains_less)
    next
      case (Some cur)
      have k6: "gains E P w w6 (of_size 1 sz)"
        by (rule gains_step [OF k5 t6]) (simp add: Some True objects_in_def of_size_def)
      obtain m w7 where m: "(if b then Some (cur, w6) else get_or_init_non_local_ptr_manager E ops w6) = Some (m, w7)"
        and r: "r = Some cur" "w' = w7\<lparr>cells := put_md m cur (cells w7)\<rparr>"
        using run t p True f Some by (auto split: if_splits)
      have "to w6 w7 (\<lambda>_. 0)" using m get_or_init_earns by (auto simp: earns_refl split: if_splits)
      then have "to w6 w' (\<lambda>_. 0)" unfolding r by (rule earns_trans [OF _ earns_cells]) simp
      from gains_step [OF k6 this] show ?thesis by (simp add: r)
    qed
  qed
qed

lemma slow_path_earns:
  assumes G: "gives_chunk E P get"
    and pop: "\<And>w r w'. pop w = (r, w') \<Longrightarrow> to w w' (got r (of_size 1 sz))"
    and T: "slack_slot 8 getT putT (objects_in n sz) False hereT"
      "\<And>w w'. table w = Some w' \<Longrightarrow> present both_tables w \<Longrightarrow> to w w' (\<lambda>_. 0) \<and> present hereT w'"
    and V: "slack_slot 8 getV putV (of_size (- 1) sz) False (\<lambda>_. hereV)" "hereV"
    and sz: "0 < sz" "sz \<le> n"
    and run: "slow_path E ops b pop table (vec_of ops 8 getT putT) (vec_of ops 8 getV putV) sz n k put_md get w = Some (r, w')"
  shows "to w w' (got r (of_size 1 sz))"
proof (rule earnsI)
  assume H: "panicked w \<or> ready P w"
  define w0 where "w0 = (if \<not> b \<and> should_auto_check E then check_non_local_ptrs E ops w else w)"
  have "to w w0 (\<lambda>_. 0)" unfolding w0_def by (simp add: check_non_local_ptrs_earns earns_refl)
  note h0 = earnsD [OF this H]
  obtain x w1 where x: "(if \<not> b \<and> should_auto_check E then pop w0 else (None, w0)) = (x, w1)" by (metis surj_pair)
  have t1: "to w0 w1 (got x (of_size 1 sz))"
    using x pop [of w0 x w1] by (auto simp: earns_refl split: if_splits)
  have h1: "gains E P w w1 (got x (of_size 1 sz))" by (rule gains_step [OF h0 t1]) simp
  note run = run [unfolded slow_path_def Let_def, folded w0_def, unfolded x]
  show "gains E P w w' (got r (of_size 1 sz))"
  proof (cases x)
    case (Some p)
    with run h1 show ?thesis by auto
  next
    case None
    from run None obtain y w2 where y: "get w1 = Some (y, w2)" by (auto split: option.splits)
    have t2: "to w1 w2 (\<lambda>_. 0)" and there: "y \<noteq> None \<Longrightarrow> present both_tables w2"
      using G y gains_fine [OF h1] unfolding gives_chunk_def by blast+
    have h2: "gains E P w w2 (\<lambda>_. 0)" by (rule gains_step [OF h1 t2]) (simp add: None)
    show ?thesis
    proof (cases y)
      case n: None
      with run None y have "r = None" "w' = w2" by simp_all
      with h2 show ?thesis by (auto elim: gains_less)
    next
      case (Some q)
      obtain z w3 where z: "pop w2 = (z, w3)" by fastforce
      have h3: "gains E P w w3 (got z (of_size 1 sz))" by (rule gains_step [OF h2 pop [OF z]]) simp
      show ?thesis
      proof (cases z)
        case (Some p)
        obtain w4 where g: "give_back E k q w3 = Some w4" and r: "r = Some p" "w' = w4"
          using run None y \<open>y = Some q\<close> z Some by auto
        from gains_step [OF h3 give_back_earns [OF g]] show ?thesis by (simp add: r Some)
      next
        case zn: None
        have "present both_tables w3"
          using tables_stay [OF _ gains_follows [OF earnsD [OF pop [OF z] gains_fine [OF h2]]]] there Some by simp
        note run' = run [unfolded None prod.case option.case y \<open>y = Some q\<close> z zn]
        from gains_step [OF h3 new_chunk_earns [where table = table and put_md = put_md and b = b and getT = getT and putT = putT
            and getV = getV and putV = putV, OF T V sz \<open>present both_tables w3\<close> run']]
        show ?thesis by (simp add: zn)
      qed
    qed
  qed
qed

lemma alloc_common_slow_earns:
  assumes run: "alloc_common_slow E ops b sz get w = Some (r, w')" and sz: "good_size Common sz" and G: "gives_chunk E P get"
  shows "to w w' (got r (object_of sz))"
proof -
  let ?i = "common_size_to_index (word_of_nat sz)"
  have s: "0 < sz" "size_class_define sz = Common" "recommended_size sz = sz" using sz by (simp_all add: good_size_def)
  note i = common_slot [OF s(1,2)]
  have slot: "slot_size True ?i = sz" using i(2) s(3) by simp
  have le: "sz \<le> COMMON_CHUNK_SIZE" using s(2) by (simp add: class_iff layout_simps)
  have object_of: "object_of sz = of_size 1 sz" using object_of_times [of sz] s by simp
  have T: "to w w' (\<lambda>_. 0) \<and> present (\<lambda>x. ?i < COMMON_SIZE_TABLE_LEN \<and> common_chunk_table x \<noteq> None) w'"
    if "get_common_chunk_table ops w = Some w'" "present both_tables w" for w w'
    using get_common_chunk_table_earns [OF that(1)] get_common_chunk_table_there [OF that(1)] that(2) i(1) by (auto simp: present_def)
  show ?thesis
    unfolding object_of
    by (rule slow_path_earns [OF G pop_common_earns [OF _ i(1), unfolded slot] common_chunks_slack [of ?i, unfolded slot] T
          common_objects_slack [of ?i, unfolded slot] i(1) s(1) le
          run [unfolded slow_paths Let_def common_chunks_vec_def common_objects_def]])
qed

lemma alloc_large_slow_earns:
  assumes run: "alloc_large_slow E ops b id' sz get w = Some (r, w')"
    and sz: "good_size Large sz" and G: "gives_chunk E P get"
    and i: "get_idx_by_id id' < REAL_NUMBER_OF_LARGE_OBJECT_VECTORS" and slot: "slot_size False (get_idx_by_id id') = sz"
  shows "to w w' (got r (object_of sz))"
proof -
  let ?i = "get_idx_by_id id'"
  have s: "0 < sz" "size_class_define sz = Large" "recommended_size sz = sz" using sz by (simp_all add: good_size_def)
  have le: "sz \<le> LARGE_CHUNK_SIZE" using s(2) by (simp add: class_iff layout_simps)
  have object_of: "object_of sz = of_size 1 sz" using object_of_times [of sz] s by simp
  have T: "to w w' (\<lambda>_. 0) \<and> present (\<lambda>x. ?i < REAL_NUMBER_OF_LARGE_OBJECT_VECTORS \<and> large_chunk_table x \<noteq> None) w'"
    if "get_large_chunk_table ops w = Some w'" "present both_tables w" for w w'
    using get_large_chunk_table_earns [OF that(1)] get_large_chunk_table_there [OF that(1)] that(2) i by (auto simp: present_def)
  show ?thesis
    unfolding object_of
    by (rule slow_path_earns [OF G pop_large_earns [OF _ i, unfolded slot] large_chunks_slack [of ?i, unfolded slot] T
          large_objects_slack [of ?i, unfolded slot] i s(1) le
          run [unfolded slow_paths Let_def large_chunks_vec_def large_objects_def]])
qed

end

end
