(* ===== verification/BalanceChains.thy ===== *)
theory BalanceChains
  imports BalancePaths
begin

text \<open>
  Chains of states, and the chunk manager. A chunk a state cuts counts with all its objects, less the
  free ones, so that each object taken from it is gained.
\<close>

section \<open>Chains\<close>

definition chain_earns :: "usize \<Rightarrow> State list \<Rightarrow> State list \<Rightarrow> amount \<Rightarrow> bool" where
  "chain_earns sos c c' d \<longleftrightarrow>
     (list_all sizes_good c \<longrightarrow> list_all sizes_good c') \<and> length c \<le> length c' \<and> (\<forall>s. chain_slack sos c s + d s \<le> chain_slack sos c' s)"

definition chunk_source :: "usize \<Rightarrow> 'w get_chunk \<Rightarrow> bool" where
  "chunk_source sos g \<longleftrightarrow>
     (\<forall>i c w r c' w'. g i c w = Some (r, c', w') \<longrightarrow> i < length c \<longrightarrow>
        chain_earns sos c c' (\<lambda>_. 0) \<and> (\<forall>j p. r = Some (j, p) \<longrightarrow> j < length c'))"

lemma chain_earns_refl [simp]: "chain_earns sos c c (\<lambda>_. 0)"
  by (simp add: chain_earns_def)

lemma chain_earns_trans:
  "chain_earns sos a b d \<Longrightarrow> chain_earns sos b c e \<Longrightarrow> (\<And>s. f s \<le> d s + e s) \<Longrightarrow> chain_earns sos a c f"
  unfolding chain_earns_def by (smt (verit) order_trans)

lemma chunk_sourceD:
  "chunk_source sos g \<Longrightarrow> g i c w = Some (r, c', w') \<Longrightarrow> i < length c \<Longrightarrow>
    chain_earns sos c c' (\<lambda>_. 0) \<and> (\<forall>j p. r = Some (j, p) \<longrightarrow> j < length c')"
  unfolding chunk_source_def by blast

lemma chunk_slack_simps [simp]:
  "chunk_slack n [] s = 0"
  "chunk_slack n (u # us) s = of_size (int (n div s) - int (number_of_free_slots u)) (uc_size u) s + chunk_slack n us s"
  "chunk_slack n (us @ vs) s = chunk_slack n us s + chunk_slack n vs s"
  by (simp_all add: chunk_slack_def)

lemma chain_slack_update:
  "i < length c \<Longrightarrow> chain_slack sos (c[i := t]) s = chain_slack sos c s - state_slack sos (c ! i) s + state_slack sos t s"
proof (induction c arbitrary: i)
  case (Cons st c)
  then show ?case by (cases i) auto
qed simp

lemma chain_update_earns:
  assumes "i < length c" and "sizes_good (c ! i) \<Longrightarrow> sizes_good t" and "\<And>s. state_slack sos (c ! i) s + d s \<le> state_slack sos t s"
  shows "chain_earns sos c (c[i := t]) d"
proof -
  have "list_all sizes_good (c[i := t])" if "list_all sizes_good c"
    using that assms(1,2) by (simp add: list_all_length nth_list_update)
  moreover have "chain_slack sos c s + d s \<le> chain_slack sos (c[i := t]) s" for s
    using assms(3) [of s] chain_slack_update [OF assms(1), of sos t s] by linarith
  ultimately show ?thesis by (simp add: chain_earns_def)
qed

lemma take_slot_slack:
  "take_slot sz us = Some (p, us') \<Longrightarrow>
    chunk_slack n us' s = chunk_slack n us s + of_size 1 sz s \<and> map uc_size us' = map uc_size us"
proof (induction us arbitrary: us')
  case (Cons u us)
  show ?case
  proof (cases "uc_size u \<noteq> sz \<or> number_of_free_slots u = 0")
    case True
    with Cons show ?thesis by (auto split: option.splits)
  next
    case False
    then obtain m where "number_of_free_slots u = Suc m" by (cases "number_of_free_slots u") auto
    with False Cons.prems show ?thesis by (auto simp: of_size_def)
  qed
qed simp

lemma same_sizes_good: "map uc_size us' = map uc_size us \<Longrightarrow> list_all (\<lambda>u. good_size cl (uc_size u)) us = list_all (\<lambda>u. good_size cl (uc_size u)) us'"
  by (metis (mono_tags, lifting) list.pred_map comp_apply list.pred_cong)

lemma try_alloc_size_earns:
  "try_alloc_size cl sz c = Some (p, c') \<Longrightarrow> chain_earns sos c c' (of_size 1 sz) \<and> length c' = length c"
proof (induction c arbitrary: c')
  case (Cons st c)
  have rest: ?case if "try_alloc_size cl sz c = Some (p, d)" "c' = st # d" for d
    using Cons.IH [OF that(1)] that(2) by (auto simp: chain_earns_def add.assoc)
  have here: ?case if "c' = t # c" "sizes_good st \<longrightarrow> sizes_good t" "\<forall>s. state_slack sos t s = state_slack sos st s + of_size 1 sz s" for t
    using that by (simp add: chain_earns_def)
  show ?case
  proof (cases cl)
    case Common
    show ?thesis
    proof (cases "take_slot sz (used_common_chunks st)")
      case None
      with Cons.prems Common rest show ?thesis by auto
    next
      case (Some q)
      obtain p' us where q: "q = (p', us)" by fastforce
      with Some Cons.prems Common have "take_slot sz (used_common_chunks st) = Some (p, us)" "c' = st\<lparr>used_common_chunks := us\<rparr> # c"
        by auto
      with take_slot_slack [OF this(1)] same_sizes_good [of us "used_common_chunks st"] show ?thesis
        by (intro here) (auto simp: sizes_good_def state_slack_def)
    qed
  next
    case Large
    show ?thesis
    proof (cases "take_slot sz (used_large_chunks st)")
      case None
      with Cons.prems Large rest show ?thesis by auto
    next
      case (Some q)
      obtain p' us where q: "q = (p', us)" by fastforce
      with Some Cons.prems Large have "take_slot sz (used_large_chunks st) = Some (p, us)" "c' = st\<lparr>used_large_chunks := us\<rparr> # c"
        by auto
      with take_slot_slack [OF this(1)] same_sizes_good [of us "used_large_chunks st"] show ?thesis
        by (intro here) (auto simp: sizes_good_def state_slack_def)
    qed
  next
    case ExtraLarge
    with Cons.prems rest show ?thesis by auto
  qed
qed simp

lemma good_fits: "good_size Common sz \<Longrightarrow> 0 < COMMON_CHUNK_SIZE div sz" "good_size Large sz \<Longrightarrow> 0 < LARGE_CHUNK_SIZE div sz"
  by (simp_all add: good_size_def class_iff div_greater_zero_iff layout_simps)

lemma new_used_chunk:
  "0 < n div sz \<Longrightarrow> chunk_slack n [used_chunk sz p n] s = of_size 1 sz s"
  by (simp add: used_chunk_def of_size_def of_nat_diff Suc_leI)

lemma chain_alloc_earns:
  assumes L: "chunk_source sos getL" and C: "chunk_source sos getC" and sz: "good_size cl sz" and i: "i < length c"
    and run: "alloc_size getL getC cl sz i c w = Some (r, c', w')"
  shows "chain_earns sos c c' (got r (of_size 1 sz))"
proof (cases "try_alloc_size cl sz (drop i c)")
  case (Some q)
  obtain p d where q: "q = (p, d)" by fastforce
  with run Some have r: "r = Some p" "c' = take i c @ d" by (auto simp: alloc_size_def)
  have t: "chain_earns sos (drop i c) d (of_size 1 sz)" "length d = length (drop i c)"
    using try_alloc_size_earns [of cl sz "drop i c" p d] Some q by simp_all
  have "chain_slack sos c s = chain_slack sos (take i c) s + chain_slack sos (drop i c) s" for s
    by (metis append_take_drop_id chain_slack_simps(3))
  moreover have "list_all sizes_good c \<longleftrightarrow> list_all sizes_good (take i c) \<and> list_all sizes_good (drop i c)"
    by (metis append_take_drop_id list_all_append)
  ultimately show ?thesis using t i by (auto simp: chain_earns_def r add.assoc)
next
  case None
  with run have slow: "alloc_size_slow getL getC cl sz i c w = Some (r, c', w')" by (simp add: alloc_size_def)
  show ?thesis
  proof (cases cl)
    case Common
    with slow obtain r1 c1 w1 where g: "getC i c w = Some (r1, c1, w1)" by (auto simp: alloc_size_slow_def split: option.splits)
    note k = chunk_sourceD [OF C g i]
    show ?thesis
    proof (cases r1)
      case n: None
      with slow Common g have "r = None" "c' = c1" by (simp_all add: alloc_size_slow_def)
      with k show ?thesis by simp
    next
      case (Some jp)
      obtain j p where jp: "jp = (j, p)" by fastforce
      let ?t = "(c1 ! j)\<lparr>used_common_chunks := used_common_chunks (c1 ! j) @ [used_chunk sz p COMMON_CHUNK_SIZE]\<rparr>"
      from slow Common g Some jp have r: "r \<noteq> None" "c' = c1[j := ?t]" by (auto simp: alloc_size_slow_def Let_def)
      have "chain_earns sos c1 c' (of_size 1 sz)"
        unfolding r
      proof (rule chain_update_earns)
        show "j < length c1" using k Some jp by blast
        show "sizes_good (c1 ! j) \<Longrightarrow> sizes_good ?t" using sz Common by (simp add: sizes_good_def used_chunk_def)
        show "state_slack sos (c1 ! j) s + of_size 1 sz s \<le> state_slack sos ?t s" for s
          using new_used_chunk [of COMMON_CHUNK_SIZE sz p s] good_fits(1) sz Common
          by (simp add: state_slack_def del: chunk_slack_simps(2))
      qed
      from chain_earns_trans [OF conjunct1 [OF k] this] r(1) show ?thesis by (auto simp: got_def split: option.splits)
    qed
  next
    case Large
    with slow obtain r1 c1 w1 where g: "getL i c w = Some (r1, c1, w1)" by (auto simp: alloc_size_slow_def split: option.splits)
    note k = chunk_sourceD [OF L g i]
    show ?thesis
    proof (cases r1)
      case n: None
      with slow Large g have "r = None" "c' = c1" by (simp_all add: alloc_size_slow_def)
      with k show ?thesis by simp
    next
      case (Some jp)
      obtain j p where jp: "jp = (j, p)" by fastforce
      let ?t = "(c1 ! j)\<lparr>used_large_chunks := used_large_chunks (c1 ! j) @ [used_chunk sz p LARGE_CHUNK_SIZE]\<rparr>"
      from slow Large g Some jp have r: "r \<noteq> None" "c' = c1[j := ?t]" by (auto simp: alloc_size_slow_def Let_def)
      have "chain_earns sos c1 c' (of_size 1 sz)"
        unfolding r
      proof (rule chain_update_earns)
        show "j < length c1" using k Some jp by blast
        show "sizes_good (c1 ! j) \<Longrightarrow> sizes_good ?t" using sz Large by (simp add: sizes_good_def used_chunk_def)
        show "state_slack sos (c1 ! j) s + of_size 1 sz s \<le> state_slack sos ?t s" for s
          using new_used_chunk [of LARGE_CHUNK_SIZE sz p s] good_fits(2) sz Large
          by (simp add: state_slack_def del: chunk_slack_simps(2))
      qed
      from chain_earns_trans [OF conjunct1 [OF k] this] r(1) show ?thesis by (auto simp: got_def split: option.splits)
    qed
  next
    case ExtraLarge
    with slow show ?thesis by (simp add: alloc_size_slow_def)
  qed
qed

text \<open>The place of a new state is an object of its own size.\<close>

definition state_size_ok :: "usize \<Rightarrow> bool" where
  "state_size_ok sos \<longleftrightarrow> size_of_state_ok sos \<and> recommended_size sos = sos"

lemma state_size_class:
  assumes "state_size_ok sos"
  shows "size_class_define sos \<noteq> ExtraLarge" and "good_size (size_class_define sos) sos" and "object_of sos = of_size 1 sos"
  using assms object_of_times [of sos] by (auto simp: state_size_ok_def size_of_state_ok_def class_iff good_size_def)

lemma placed_state_slack:
  assumes "state_size_ok sos" and "state_at st = 0"
  shows "state_slack sos st s - of_size 1 sos s \<le> state_slack sos (st\<lparr>state_at := p\<rparr>) s"
proof -
  have "object_of sos s = of_size 1 sos s" using state_size_class(3) [OF assms(1)] by simp
  then show ?thesis using assms(2) by (cases "sos = s") (simp_all add: state_slack_def of_size_def)
qed

lemma new_state_earns:
  fixes areg :: "'w \<Rightarrow> addr \<times> 'w"
  assumes sos: "state_size_ok sos"
    and L: "chunk_source sos (get_free_large_chunk_owned areg sos n)" and C: "chunk_source sos (get_free_common_chunk areg sos n)"
    and run: "alloc_new_state_in areg sos (get_free_large_chunk_owned areg sos n) (get_free_common_chunk areg sos n) c w = Some (r, c', w')"
  shows "case r of None \<Rightarrow> c' = c | Some st \<Rightarrow> chain_earns sos c (c' @ [st]) (\<lambda>_. 0) \<and> length c' = length c"
proof -
  let ?L = "get_free_large_chunk_owned areg sos n" and ?C = "get_free_common_chunk areg sos n" and ?cl = "size_class_define sos"
  obtain q w1 where q: "areg w = (q, w1)" by fastforce
  note cl = state_size_class [OF sos]
  show ?thesis
  proof (cases "q = 0")
    case True
    with run q have "r = None" "c' = c" by (auto simp: alloc_new_state_in_def)
    then show ?thesis by simp
  next
    case q0: False
    show ?thesis
    proof (cases "try_alloc_size ?cl sos c")
      case (Some x)
      obtain p d where x: "x = (p, d)" by fastforce
      from run q q0 Some x have r: "r = Some ((from_region q)\<lparr>state_at := p\<rparr>)" "c' = d" by (auto simp: alloc_new_state_in_def)
      have d: "chain_earns sos c d (of_size 1 sos) \<and> length d = length c" using try_alloc_size_earns Some x by blast
      have "chain_earns sos d (d @ [(from_region q)\<lparr>state_at := p\<rparr>]) (\<lambda>s. - of_size 1 sos s)"
        using placed_state_slack [OF sos, of "from_region q" _ p] from_region_slack(2) [of q] by (simp add: chain_earns_def sizes_good_def)
      from chain_earns_trans [OF conjunct1 [OF d] this] d show ?thesis by (simp add: r)
    next
      case None
      obtain r1 c2 w2 where a: "alloc_size ?L ?C ?cl sos 0 [from_region q] w1 = Some (r1, c2, w2)"
        using run q q0 None by (auto simp: alloc_new_state_in_def split: option.splits)
      show ?thesis
      proof (cases r1)
        case n: None
        with run q q0 None a have "r = None" "c' = c" by (auto simp: alloc_new_state_in_def)
        then show ?thesis by simp
      next
        case (Some p)
        with run q q0 None a have r: "r = Some ((hd c2)\<lparr>state_at := p\<rparr>)" "c' = c" by (auto simp: alloc_new_state_in_def)
        have a': "state_alloc_size areg sos n ?cl sos 0 [from_region q] w1 = Some (Some p, c2, w2)"
          using a Some by (simp add: state_alloc_size_def)
        have e: "chain_earns sos [from_region q] c2 (of_size 1 sos)"
          using chain_alloc_earns [OF L C cl(2) _ a] Some by simp
        obtain st where st: "c2 = [st]"
        proof (cases n)
          case 0
          have "\<not> (\<exists>x. alloc_size ?L ?C ?cl sos 0 [from_region q] w1 = Some x)"
            using cl(1) by (cases ?cl) (simp_all add: alloc_size_def alloc_size_slow_def 0)
          with a show thesis by blast
        next
          case (Suc m)
          from fresh_alloc [OF cl(1), of areg sos m sos q w1] a' Suc that show thesis by auto
        qed
        have "grows [from_region q] [st]" using state_alloc_size_keeps [of "\<lambda>_. True", OF _ a'] by (simp add: st)
        then have at: "state_at st = 0" by (simp add: grows_def grown_def)
        have "sizes_good st" and "of_size 1 sos s \<le> state_slack sos st s" for s
          using e by (simp_all add: chain_earns_def st)
        then have "0 \<le> state_slack sos (st\<lparr>state_at := p\<rparr>) s" for s
          using placed_state_slack [OF sos at, of s p] by (meson diff_ge_0_iff_ge order_trans)
        then show ?thesis using \<open>sizes_good st\<close> by (simp add: chain_earns_def r st sizes_good_def)
      qed
    qed
  qed
qed

lemma chunk_sources:
  fixes areg :: "'w \<Rightarrow> addr \<times> 'w"
  assumes sos: "state_size_ok sos"
  shows "chunk_source sos (get_free_large_chunk_owned areg sos n) \<and> chunk_source sos (get_free_common_chunk areg sos n)"
proof (induction n)
  case 0
  show ?case by (simp add: chunk_source_def)
next
  case (Suc n)
  let ?L = "get_free_large_chunk_owned areg sos n" and ?C = "get_free_common_chunk areg sos n"
  from Suc have L: "chunk_source sos ?L" and C: "chunk_source sos ?C" by simp_all
  have popped: "chain_earns sos c (c[i := (c ! i)\<lparr>free_large_chunks := xs\<rparr>]) (\<lambda>_. 0)"
    "chain_earns sos c (c[i := (c ! i)\<lparr>free_common_chunks := xs\<rparr>]) (\<lambda>_. 0)" if "i < length c" for i c xs
    by (rule chain_update_earns [OF that]; simp add: sizes_good_def state_slack_def)+
  have "chunk_source sos (get_free_large_chunk_step areg sos ?L ?C)"
    unfolding chunk_source_def
  proof (intro allI impI)
    fix i c w r c' w' assume run: "get_free_large_chunk_step areg sos ?L ?C i c w = Some (r, c', w')" and i: "i < length c"
    show "chain_earns sos c c' (\<lambda>_. 0) \<and> (\<forall>j p. r = Some (j, p) \<longrightarrow> j < length c')"
    proof (cases "free_large_chunks (c ! i) = []")
      case False
      with run i popped(1) [OF i] show ?thesis by (auto simp: get_free_large_chunk_step_def Let_def)
    next
      case e: True
      show ?thesis
      proof (cases "Suc i < length c")
        case True
        with run e chunk_sourceD [OF L, of "Suc i" c w r c' w'] show ?thesis by (simp add: get_free_large_chunk_step_def)
      next
        case False
        with run e obtain r1 c1 w1 where a: "alloc_new_state_in areg sos ?L ?C c w = Some (r1, c1, w1)"
          by (auto simp: get_free_large_chunk_step_def Let_def split: option.splits)
        note k = new_state_earns [OF sos L C a]
        show ?thesis
        proof (cases r1)
          case None
          with run e False a k show ?thesis by (auto simp: get_free_large_chunk_step_def)
        next
          case (Some st)
          with run e False a have g: "?L (Suc i) (c1 @ [st]) w1 = Some (r, c', w')" by (simp add: get_free_large_chunk_step_def)
          have "Suc i < length (c1 @ [st])" using k Some i by simp
          note g' = chunk_sourceD [OF L g this]
          have "chain_earns sos c (c1 @ [st]) (\<lambda>_. 0)" using k Some by simp
          from chain_earns_trans [OF this conjunct1 [OF g']] g' show ?thesis by simp
        qed
      qed
    qed
  qed
  moreover have "chunk_source sos (get_free_common_chunk_step areg sos ?L ?C)"
    unfolding chunk_source_def
  proof (intro allI impI)
    fix i c w r c' w' assume run: "get_free_common_chunk_step areg sos ?L ?C i c w = Some (r, c', w')" and i: "i < length c"
    show "chain_earns sos c c' (\<lambda>_. 0) \<and> (\<forall>j p. r = Some (j, p) \<longrightarrow> j < length c')"
    proof (cases "free_common_chunks (c ! i) = [] \<and> \<not> Suc i < length c")
      case False
      with run i popped(2) [OF i] chunk_sourceD [OF C, of "Suc i" c w r c' w'] show ?thesis
        by (auto simp: get_free_common_chunk_step_def Let_def split: if_splits)
    next
      case True
      with run obtain r1 c1 w1 where a: "?L i c w = Some (r1, c1, w1)"
        by (auto simp: get_free_common_chunk_step_def Let_def split: option.splits)
      note k = chunk_sourceD [OF L a i]
      show ?thesis
      proof (cases r1)
        case None
        with run True a k show ?thesis by (auto simp: get_free_common_chunk_step_def)
      next
        case (Some jp)
        obtain j p where jp: "jp = (j, p)" by fastforce
        then have j: "j < length c1" using k Some by blast
        show ?thesis
        proof (cases "free_common_chunks (c1 ! j) = []")
          case e: True
          with run True a Some jp have r: "c' = c1[j := (c1 ! j)\<lparr>free_common_chunks := butlast (split_large_chunk_to_common p)\<rparr>]"
            "\<exists>q. r = Some (j, q)"
            by (auto simp: get_free_common_chunk_step_def Let_def)
          from chain_earns_trans [OF conjunct1 [OF k] popped(2) [OF j]] j r show ?thesis by auto
        next
          case False
          with run True a Some jp have g: "?C j c1 w1 = Some (r, c', w')" by (simp add: get_free_common_chunk_step_def Let_def)
          note g' = chunk_sourceD [OF C g j]
          from chain_earns_trans [OF conjunct1 [OF k] conjunct1 [OF g']] g' show ?thesis by simp
        qed
      qed
    qed
  qed
  ultimately show ?case by (simp add: case_prod_unfold)
qed

lemma state_alloc_size_earns:
  assumes "state_size_ok sos" and "good_size cl sz" and "c \<noteq> []"
    and "state_alloc_size areg sos n cl sz 0 c w = Some (r, c', w')"
  shows "chain_earns sos c c' (got r (of_size 1 sz))"
  using chain_alloc_earns [OF _ _ assms(2) _ assms(4) [unfolded state_alloc_size_def], of sos] chunk_sources [OF assms(1), of areg n] assms(3)
  by simp

lemma get_free_large_chunk_earns:
  assumes "state_size_ok sos" and "c \<noteq> []" and "get_free_large_chunk areg sos n 0 c w = Some (r, c', w')"
  shows "chain_earns sos c c' (\<lambda>_. 0)"
proof -
  obtain q where "get_free_large_chunk_owned areg sos n 0 c w = Some (q, c', w')"
    using assms(3) by (auto simp: get_free_large_chunk_def)
  from chunk_sourceD [OF conjunct1 [OF chunk_sources [OF assms(1), of areg n]] this] assms(2) show ?thesis by simp
qed

section \<open>The chunk manager\<close>

lemma pop_same: "vec_pop v = (r, v') \<Longrightarrow> (r = None \<longrightarrow> v' = v) \<and> (r \<noteq> None \<longrightarrow> vec_elems v \<noteq> [])"
  by (auto simp: vec_pop_def vec_len_def split: if_splits)

context balanced
begin

lemma state_size: "state_size_ok (size_of_state E)"
  using env by (simp add: env_ok_def state_size_ok_def)

text \<open>The allocator takes a chain over; \<open>w\<close> may be at work on another one.\<close>

lemma handle_chain_earns:
  assumes w2: "w2 = w\<lparr>proc := q\<rparr>" and c: "c \<noteq> []" "list_all sizes_good c"
    and d: "\<And>s. d s \<le> chain_slack (size_of_state E) c s"
  shows "to w (op_handle_state ops c w2) d"
    and "panicked w \<or> ready P w \<Longrightarrow> present both_tables (op_handle_state ops c w2)"
proof -
  have t: "to w w2 (\<lambda>_. 0)" by (rule earns_world) (simp_all add: w2)
  have c': "panicked w2 \<or> c \<noteq> [] \<and> list_all sizes_good c" using c by simp
  from earns_trans [OF t handle [OF c']] d show "to w (op_handle_state ops c w2) d" by simp
  show "present both_tables (op_handle_state ops c w2)" if "panicked w \<or> ready P w"
    using handle_tables [OF c' gains_fine [OF earnsD [OF t that]]] .
qed

lemma new_chain:
  assumes "chain_earns sos [from_region q] c d"
  shows "c \<noteq> []" and "list_all sizes_good c" and "d s \<le> chain_slack sos c s"
proof -
  have "list_all sizes_good [from_region q]" "chain_slack sos [from_region q] s = 0" by simp_all
  with assms show "c \<noteq> []" "list_all sizes_good c" "d s \<le> chain_slack sos c s"
    by (auto simp: chain_earns_def)
qed

lemma cached_common_chunk_gives: "gives_chunk E P cached_common_chunk"
  unfolding gives_chunk_def
proof (intro allI impI)
  fix w w' :: "('k, 'n) world" and r assume run: "cached_common_chunk w = Some (r, w')"
  then obtain v where v: "vec_pop (cm_free_common_chunks (chunk_manager (inner w))) = (r, v)"
    and w': "w' = w\<lparr>inner := set_cm_inner (\<lambda>cm. cm\<lparr>cm_free_common_chunks := v\<rparr>) (inner w)\<rparr>"
    by (auto simp: cached_common_chunk_def try_get_common_chunk_def split: prod.splits)
  have there: "present both_tables w" if "panicked w \<or> ready P w" "r \<noteq> None"
    using that pop_same [OF v] by (auto simp: present_def ready_def chunkless_def)
  have t: "to w w' (\<lambda>_. 0)"
  proof (rule earnsI)
    assume H: "panicked w \<or> ready P w"
    have "to w w' (\<lambda>_. 0)"
      unfolding w'
      by (rule set_vec_earns [OF free_common_slack]) (use vec_pop_len [OF v, of 8] pop_same [OF v] there [OF H] in \<open>auto simp: present_def\<close>)
    from earnsD [OF this H] show "gains E P w w' (\<lambda>_. 0)" .
  qed
  then show "to w w' (\<lambda>_. 0) \<and> (panicked w \<or> ready P w \<longrightarrow> r \<noteq> None \<longrightarrow> present both_tables w')"
    using there tables_stay [OF there gains_follows [OF earnsD [OF t]]] by blast
qed

lemma cached_large_chunk_gives: "gives_chunk E P cached_large_chunk"
  unfolding gives_chunk_def
proof (intro allI impI)
  fix w w' :: "('k, 'n) world" and r assume run: "cached_large_chunk w = Some (r, w')"
  then obtain v where v: "vec_pop (cm_free_large_chunks (chunk_manager (inner w))) = (r, v)"
    and w': "w' = w\<lparr>inner := set_cm_inner (\<lambda>cm. cm\<lparr>cm_free_large_chunks := v\<rparr>) (inner w)\<rparr>"
    by (auto simp: cached_large_chunk_def try_get_large_chunk_def split: prod.splits)
  have there: "present both_tables w" if "panicked w \<or> ready P w" "r \<noteq> None"
    using that pop_same [OF v] by (auto simp: present_def ready_def chunkless_def)
  have t: "to w w' (\<lambda>_. 0)"
  proof (rule earnsI)
    assume H: "panicked w \<or> ready P w"
    have "to w w' (\<lambda>_. 0)"
      unfolding w'
      by (rule set_vec_earns [OF free_large_slack]) (use vec_pop_len [OF v, of 8] pop_same [OF v] there [OF H] in \<open>auto simp: present_def\<close>)
    from earnsD [OF this H] show "gains E P w w' (\<lambda>_. 0)" .
  qed
  then show "to w w' (\<lambda>_. 0) \<and> (panicked w \<or> ready P w \<longrightarrow> r \<noteq> None \<longrightarrow> present both_tables w')"
    using there tables_stay [OF there gains_follows [OF earnsD [OF t]]] by blast
qed

lemma get_large_chunk_gives: "gives_chunk E P (get_large_chunk (cm_env_of E ops))"
  unfolding gives_chunk_def
proof (intro allI impI)
  fix w r w' assume run: "get_large_chunk (cm_env_of E ops) w = Some (r, w')"
  obtain x cm where x: "try_get_large_chunk (chunk_manager (inner w)) = (x, cm)" by fastforce
  show "to w w' (\<lambda>_. 0) \<and> (panicked w \<or> ready P w \<longrightarrow> r \<noteq> None \<longrightarrow> present both_tables w')"
  proof (cases x)
    case (Some q)
    with run x have "cached_large_chunk w = Some (r, w')"
      by (simp add: get_large_chunk_def cm_env_of_def cached_large_chunk_def)
    with cached_large_chunk_gives show ?thesis unfolding gives_chunk_def by blast
  next
    case None
    obtain q w1 where q: "counted E w = (q, w1)" by fastforce
    obtain p1 where p1: "w1 = w\<lparr>proc := p1\<rparr>" using source_world [of E True w q w1] q by (auto simp: region_source_def)
    from None run x have al: "alloc_large_chunk (cm_env_of E ops) w = Some (r, w')"
      by (simp add: get_large_chunk_def cm_env_of_def)
    show ?thesis
    proof (cases "q = 0")
      case True
      with al q have r: "r = None" "w' = w1" by (simp_all add: alloc_large_chunk_def cm_env_of_def)
      have "to w w1 (\<lambda>_. 0)" by (rule earns_world) (simp_all add: p1)
      then show ?thesis by (simp add: r)
    next
      case False
      with al q obtain ch c w2 where g: "get_free_large_chunk (uncounted E) (size_of_state E) 3 0 [from_region q] w1 = Some (Some ch, c, w2)"
        and r: "r = Some ch" "w' = op_handle_state ops c w2"
        by (auto simp: alloc_large_chunk_def cm_env_of_def split: option.splits)
      then have g': "get_free_large_chunk (region_source E False) (size_of_state E) 3 0 [from_region q] w1 = Some (Some ch, c, w2)"
        by (simp add: region_source_def)
      obtain p2 where p2: "w2 = w\<lparr>proc := p2\<rparr>"
        using chain_world(1) [of E False "size_of_state E" 3 _ _ 0 "[from_region q]" w1 _ c w2, OF disjI2, OF g'] p1 by auto
      have "[from_region q] \<noteq> []" by simp
      note nc = new_chain [OF get_free_large_chunk_earns [OF state_size this g']]
      note hc = handle_chain_earns [OF p2 nc(1,2), of "\<lambda>_. 0", OF nc(3)]
      show ?thesis using hc by (simp add: r)
    qed
  qed
qed

lemma get_common_chunk_gives: "gives_chunk E P (ChunkManager.get_common_chunk (cm_env_of E ops))"
  unfolding gives_chunk_def
proof (intro allI impI)
  let ?X = "cm_env_of E ops"
  fix w r w' assume run: "ChunkManager.get_common_chunk ?X w = Some (r, w')"
  obtain x cm where x: "try_get_common_chunk (chunk_manager (inner w)) = (x, cm)" by fastforce
  show "to w w' (\<lambda>_. 0) \<and> (panicked w \<or> ready P w \<longrightarrow> r \<noteq> None \<longrightarrow> present both_tables w')"
  proof (cases x)
    case (Some q)
    with run x have "cached_common_chunk w = Some (r, w')"
      by (simp add: ChunkManager.get_common_chunk_def cm_env_of_def cached_common_chunk_def)
    with cached_common_chunk_gives show ?thesis unfolding gives_chunk_def by blast
  next
    case None
    from None run x have slow: "get_common_chunk_slow ?X w = Some (r, w')"
      by (simp add: ChunkManager.get_common_chunk_def cm_env_of_def)
    then obtain y w1 where y: "get_large_chunk ?X w = Some (y, w1)" by (auto simp: get_common_chunk_slow_def split: option.splits)
    have k: "to w w1 (\<lambda>_. 0)" "panicked w \<or> ready P w \<Longrightarrow> y \<noteq> None \<Longrightarrow> present both_tables w1"
      using get_large_chunk_gives y unfolding gives_chunk_def by blast+
    have "gains E P w w' (\<lambda>_. 0) \<and> (r \<noteq> None \<longrightarrow> present both_tables w')" if H: "panicked w \<or> ready P w"
    proof (cases y)
      case None
      with slow y k earnsD [OF k(1) H] show ?thesis by (simp add: get_common_chunk_slow_def)
    next
      case (Some q)
      note h1 = earnsD [OF k(1) H]
      have there: "present both_tables w1" using k(2) H Some by simp
      obtain z cm' where z: "try_get_common_chunk (chunk_manager (inner w1)) = (z, cm')" by fastforce
      have "to w1 w' (\<lambda>_. 0)"
      proof (cases z)
        case (Some ch)
        let ?w2 = "w1\<lparr>inner := (inner w1)\<lparr>chunk_manager := cm'\<rparr>\<rparr>"
        obtain ok where p: "vec_push (rounds ops) (large_vec ?X) q ?w2 = Some (ok, w')"
          using slow y \<open>y = Some q\<close> z Some by (auto simp: get_common_chunk_slow_def cm_env_of_def)
        have "cached_common_chunk w1 = Some (z, ?w2)" using z by (simp add: cached_common_chunk_def)
        then have t: "to w1 ?w2 (\<lambda>_. 0)" using cached_common_chunk_gives unfolding gives_chunk_def by blast
        have "to ?w2 w' (\<lambda>s. if ok then int (length [q]) * 0 else 0)"
          by (rule extend_by_earns [OF free_large_slack]) (use p there in \<open>auto simp: present_def vec_push_def cm_env_of_def both_tables_def\<close>)
        from earns_trans [OF t this] show ?thesis by simp
      next
        case None
        let ?cs = "split_large_chunk_to_common q"
        obtain ok where p: "extend_from_slice (rounds ops) (common_vec ?X) (butlast ?cs) w1 = Some (ok, w')"
          using slow y \<open>y = Some q\<close> z None by (auto simp: get_common_chunk_slow_def cm_env_of_def Let_def)
        have "to w1 w' (\<lambda>s. if ok then int (length (butlast ?cs)) * 0 else 0)"
          by (rule extend_by_earns [OF free_common_slack]) (use p there in \<open>auto simp: present_def extend_from_slice_def cm_env_of_def\<close>)
        then show ?thesis by (rule earns_less) simp
      qed
      from gains_step [OF h1 this] tables_stay [OF there gains_follows [OF earnsD [OF this gains_fine [OF h1]]]]
      show ?thesis by simp
    qed
    then show ?thesis by (auto intro: earnsI)
  qed
qed

end

end
