(* ===== verification/BalanceBlocks.thy ===== *)
theory BalanceBlocks
  imports BalanceChains
begin

text \<open>
  Allocation and deallocation of blocks of every class, for the thread and for the allocator itself. A
  block given out is an object less that the allocator accounts for, one that is freed an object more.
\<close>

section \<open>Nodes of the map\<close>

lemma block_ones_simps [simp]:
  "block_ones [] s = 0" "block_ones (n # ns) s = object_of (snd n) s + block_ones ns s"
  "block_ones (ns @ ms) s = block_ones ns s + block_ones ms s"
  by (simp_all add: block_ones_def)

lemma block_ones_remove: "i < length ns \<Longrightarrow> block_ones ns s = block_ones (list_remove i ns) s + object_of (snd (ns ! i)) s"
proof -
  assume i: "i < length ns"
  then have "ns = take i ns @ ns ! i # drop (Suc i) ns" by (simp add: id_take_nth_drop)
  then have "block_ones ns s = block_ones (take i ns @ ns ! i # drop (Suc i) ns) s" by simp
  then show ?thesis by (simp add: list_remove_def)
qed

lemma earns_nodes:
  assumes "\<And>s. block_ones ns s + d s \<le> block_ones (node_memory w) s"
  shows "earns E P w (w\<lparr>node_memory := ns\<rparr>) d"
proof (rule earns_step)
  assume r: "ready P w" and np: "\<not> panicked w"
  have "slack E P w s + d s \<le> slack E P (w\<lparr>node_memory := ns\<rparr>) s" for s
    using assms [of s] by (simp add: slack_def chain_now_def)
  then show "follows w (w\<lparr>node_memory := ns\<rparr>) \<and> ready P (w\<lparr>node_memory := ns\<rparr>)
      \<and> (\<forall>s. slack E P w s + d s \<le> slack E P (w\<lparr>node_memory := ns\<rparr>) s)"
    using r np by (simp add: follows_def ready_def chain_now_def)
qed simp

lemma same_sizes_earns: "earns E P w' (same_sizes w w') (\<lambda>_. 0)"
  by (simp add: same_sizes_def earns_panicked earns_refl)

lemma set_map_earns: "earns E P w (w\<lparr>inner := (inner w)\<lparr>allocated_large_sizes := m\<rparr>\<rparr>) (\<lambda>_. 0)"
  by (rule earns_flags) (simp_all add: inner_slack_def [abs_def] tables_there_def same_tables_def)

context balanced
begin

lemma alloc_node_earns:
  assumes "0 < sz" and "recommended_size sz = sz"
  shows "to w (snd (alloc_node ops sz w)) (\<lambda>_. 0)"
proof -
  obtain r w1 where a: "op_self_alloc ops True sz (w\<lparr>maybe_state := None\<rparr>) = (r, w1)" by fastforce
  let ?w2 = "same_sizes w (w1\<lparr>maybe_state := maybe_state w\<rparr>)"
  have "to w (w1\<lparr>maybe_state := maybe_state w\<rparr>) (got r (object_of sz))"
    by (rule earns_hidden) (rule self_alloc [OF a assms])
  then have t: "to w ?w2 (got r (object_of sz))" by (rule earns_trans [OF _ same_sizes_earns]) simp
  show ?thesis
  proof (cases r)
    case None
    then show ?thesis using a t by (simp add: alloc_node_def Let_def)
  next
    case (Some p)
    then have e: "snd (alloc_node ops sz w) = ?w2\<lparr>node_memory := node_memory ?w2 @ [(p, sz)]\<rparr>"
      using a by (simp add: alloc_node_def Let_def)
    have "to ?w2 (?w2\<lparr>node_memory := node_memory ?w2 @ [(p, sz)]\<rparr>) (\<lambda>s. - object_of sz s)"
      by (rule earns_nodes) simp
    from earns_trans [OF t this] show ?thesis unfolding e by (simp add: Some)
  qed
qed

lemma dealloc_node_earns:
  assumes "0 < sz"
  shows "to w (dealloc_node E ops sz w) (\<lambda>_. 0)"
proof -
  define ns k where "ns = node_memory w" and "k = which_node E sz ns"
  show ?thesis
  proof (cases "k < length ns \<and> snd (ns ! k) = recommended_size sz")
    case False
    then have "dealloc_node E ops sz w = w\<lparr>panicked := True\<rparr>"
      unfolding dealloc_node_def ns_def k_def Let_def by (rule if_not_P)
    then show ?thesis by (simp add: earns_panicked)
  next
    case True
    let ?p = "fst (ns ! k)"
    let ?w1 = "w\<lparr>node_memory := list_remove k ns\<rparr>"
    let ?w2 = "(op_self_dealloc ops ?p sz (?w1\<lparr>maybe_state := None\<rparr>))\<lparr>maybe_state := maybe_state ?w1\<rparr>"
    have comm: "w\<lparr>maybe_state := None, node_memory := list_remove k ns\<rparr> = ?w1\<lparr>maybe_state := None\<rparr>" by simp
    have "dealloc_node E ops sz w = same_sizes w ((op_self_dealloc ops ?p sz (w\<lparr>maybe_state := None, node_memory := list_remove k ns\<rparr>))
        \<lparr>maybe_state := maybe_state w\<rparr>)"
      using True unfolding dealloc_node_def ns_def k_def Let_def by (rule if_P)
    then have d: "dealloc_node E ops sz w = same_sizes w ?w2" unfolding comm by simp
    have t1: "to w ?w1 (object_of sz)"
      by (rule earns_nodes) (use block_ones_remove [of k ns] True in \<open>simp flip: ns_def\<close>)
    have t2: "to ?w1 ?w2 (\<lambda>s. - object_of sz s)" by (rule earns_hidden) (rule self_dealloc [OF assms])
    have "to w ?w2 (\<lambda>_. 0)" by (rule earns_trans [OF t1 t2]) simp
    then show ?thesis unfolding d by (rule earns_trans [OF _ same_sizes_earns]) simp
  qed
qed

end

sublocale balanced \<subseteq> bnk: node_keeper "xl_nodes (xl_env_of E ops)" "\<lambda>s. gains E P w s (\<lambda>_. 0)"
  for w :: "('k, 'n) world"
proof
  fix s sz
  assume s: "gains E P w s (\<lambda>_. 0)"
    and sz: "sz = size_of_leaf (xl_nodes (xl_env_of E ops)) \<or> sz = size_of_internal (xl_nodes (xl_env_of E ops))"
  have "0 < sz" using env sz by (auto simp: xl_env_of_def env_ok_def)
  then have "0 < recommended_size sz" using recommended_ge [of sz] by linarith
  from gains_step [OF s alloc_node_earns [OF this recommended_idem]]
  show "gains E P w (snd (self_alloc (xl_nodes (xl_env_of E ops)) (recommended_size sz) s)) (\<lambda>_. 0)"
    by (simp add: xl_env_of_def)
  from gains_step [OF s dealloc_node_earns [OF \<open>0 < sz\<close>]]
  show "gains E P w (self_dealloc (xl_nodes (xl_env_of E ops)) sz s) (\<lambda>_. 0)"
    by (simp add: xl_env_of_def)
qed

context balanced
begin

lemma count_earns:
  assumes "and_modify_or_insert (xl_nodes (xl_env_of E ops)) k f v mp w = Ok (mp', w')"
  shows "to w w' (\<lambda>_. 0)"
proof (rule earnsI)
  assume H: "panicked w \<or> ready P w"
  have r: "gains E P w w (\<lambda>_. 0)" using H by (rule gains_refl) simp
  show "gains E P w w' (\<lambda>_. 0)"
  proof (cases "entry k mp")
    case (Vacant k' h)
    with assms have "vacant_insert (xl_nodes (xl_env_of E ops)) k' h v mp w = Ok (mp', w')"
      by (simp add: and_modify_or_insert_def)
    from bnk.vacant_insert_keeps [OF this r] show ?thesis .
  qed (use assms r in \<open>simp add: and_modify_or_insert_def\<close>)
qed

lemma uncount_earns:
  assumes "map_remove (xl_nodes (xl_env_of E ops)) k mp w = Some (r, mp', w')"
  shows "to w w' (\<lambda>_. 0)"
  by (rule earnsI) (rule bnk.map_remove_keeps [OF assms gains_refl], simp_all)

lemma alloc_extra_earns:
  assumes "alloc_extra E ops sz w = Some (r, w')"
  shows "to w w' (\<lambda>_. 0)"
proof -
  obtain ok l where l: "may_allocate (word_of_nat sz) (lim (proc w)) = (ok, l)" by fastforce
  obtain p x k where a: "alloc_from_os (env_libc E) (env_kernel E) 0 sz True False (os (proc w)) = ((p, x), k)"
    by (metis prod.collapse)
  show ?thesis
  proof (cases ok)
    case False
    with assms(1) l have r: "w' = w\<lparr>proc := (proc w)\<lparr>lim := l\<rparr>\<rparr>"
      by (simp add: alloc_extra_def alloc_extra_large_def xl_env_of_def)
    show ?thesis unfolding r by (rule earns_world) simp_all
  next
    case True
    let ?l = "if p = 0 then mark_deallocated (word_of_nat sz) l else l"
    let ?w1 = "w\<lparr>proc := \<lparr>lim = ?l, os = k\<rparr>\<rparr>"
    have t1: "to w ?w1 (\<lambda>_. 0)" by (rule earns_world) simp_all
    obtain mp w2 where m: "and_modify_or_insert (xl_nodes (xl_env_of E ops)) sz Suc 1 (allocated_large_sizes (inner w)) ?w1 = Ok (mp, w2)"
      and r: "w' = w2\<lparr>inner := (inner w2)\<lparr>allocated_large_sizes := mp\<rparr>\<rparr>"
    proof -
      have e: "(proc w)\<lparr>lim := l, os := k\<rparr> = \<lparr>lim = l, os = k\<rparr>" "(proc w)\<lparr>os := k, lim := m\<rparr> = \<lparr>lim = m, os = k\<rparr>" for m
        by simp_all
      obtain mp w2 where "and_modify_or_insert (xl_nodes (xl_env_of E ops)) sz Suc 1 (allocated_large_sizes (inner w)) ?w1 = Ok (mp, w2)"
        and "Some (r, w') = Some (if p = 0 then None else Some p, w2\<lparr>inner := (inner w2)\<lparr>allocated_large_sizes := mp\<rparr>\<rparr>)"
        using assms(1) l True a
        by (cases "p = 0") (auto simp: alloc_extra_def alloc_extra_large_def xl_env_of_def Let_def e split: outcome.splits)
      then show thesis by (intro that) simp_all
    qed
    have "to w w2 (\<lambda>_. 0)" by (rule earns_trans [OF t1 count_earns [OF m]]) simp
    then show ?thesis unfolding r by (rule earns_trans [OF _ set_map_earns]) simp
  qed
qed

lemma dealloc_extra_earns:
  assumes "dealloc_extra E ops p sz w = Some w'"
  shows "to w w' (\<lambda>_. 0)"
proof -
  let ?X = "xl_env_of E ops"
  let ?q = "\<lparr>lim = mark_deallocated (word_of_nat sz) (lim (proc w)), os = os_free (env_kernel E) p sz (os (proc w))\<rparr>"
  let ?w1 = "w\<lparr>proc := ?q\<rparr>"
  have t1: "to w ?w1 (\<lambda>_. 0)" by (rule earns_world) simp_all
  have e: "(proc w)\<lparr>os := k, lim := m\<rparr> = \<lparr>lim = m, os = k\<rparr>" for m k by simp
  have w1: "xl_set_lim ?X (mark_deallocated (word_of_nat sz) (xl_lim ?X (xl_set_os ?X (os_free (env_kernel E) p sz (xl_os ?X w)) w)))
      (xl_set_os ?X (os_free (env_kernel E) p sz (xl_os ?X w)) w) = ?w1"
    by (simp add: xl_env_of_def e)
  obtain mp0 b where "(case entry sz (xl_map ?X ?w1) of
      Occupied (n, i, fs) \<Rightarrow> (occupied_write (\<lambda>u. u - 1) (n, i, fs) (xl_map ?X ?w1), vals n ! i = 1)
    | Vacant _ _ \<Rightarrow> (xl_map ?X ?w1, False)) = (mp0, b)"
    by fastforce
  then have d: "dealloc_extra_large (env_kernel E) ?X p sz w =
      (if b then case map_remove (xl_nodes ?X) sz mp0 ?w1 of None \<Rightarrow> Panic | Some (_, mp', s3) \<Rightarrow> Ok (xl_set_map ?X mp' s3)
       else Ok (xl_set_map ?X mp0 ?w1))"
    unfolding dealloc_extra_large_def Let_def w1 by (simp only: prod.case)
  have set: "xl_set_map ?X mp v = v\<lparr>inner := (inner v)\<lparr>allocated_large_sizes := mp\<rparr>\<rparr>" for mp v by (simp add: xl_env_of_def)
  show ?thesis
  proof (cases b)
    case False
    then have "w' = ?w1\<lparr>inner := (inner ?w1)\<lparr>allocated_large_sizes := mp0\<rparr>\<rparr>" using assms by (simp add: dealloc_extra_def d set)
    with earns_trans [OF t1 set_map_earns] show ?thesis by simp
  next
    case True
    obtain r mp v where m: "map_remove (xl_nodes ?X) sz mp0 ?w1 = Some (r, mp, v)" and w': "w' = v\<lparr>inner := (inner v)\<lparr>allocated_large_sizes := mp\<rparr>\<rparr>"
      using assms True by (auto simp: dealloc_extra_def d set split: option.splits)
    have "to w v (\<lambda>_. 0)" by (rule earns_trans [OF t1 uncount_earns [OF m]]) simp
    then show ?thesis unfolding w' by (rule earns_trans [OF _ set_map_earns]) simp
  qed
qed

section \<open>Blocks\<close>

lemma alloc_common_earns:
  assumes run: "alloc_common E ops sz w = Some (r, w')" and sz: "0 < sz" "size_class_define sz = Common"
  shows "to w w' (got r (object_of sz))"
proof -
  let ?i = "common_size_to_index (word_of_nat sz)"
  note i = common_slot [OF sz]
  obtain q w1 where pop: "pop_common ?i w = (q, w1)" by fastforce
  have o: "object_of sz = of_size 1 (slot_size True ?i)" using object_of_times [of sz] sz(2) by (simp add: i(2))
  note p1 = pop_common_earns [OF pop i(1), folded o]
  show ?thesis
  proof (cases q)
    case None
    then have ws: "without_state (alloc_common_slow E ops False (recommended_size sz) (ChunkManager.get_common_chunk (cm_env_of E ops))) w1 = Some (r, w')"
      using run pop by (simp add: alloc_common_def round_8_recommended [OF sz(2)])
    have "to w1 w' (got r (object_of (recommended_size sz)))"
      by (rule without_state_earns [OF ws]) (rule alloc_common_slow_earns [OF _ good_recommended [OF sz] get_common_chunk_gives])
    from earns_trans [OF p1 this] show ?thesis by (simp add: None)
  qed (use run pop p1 in \<open>auto simp: alloc_common_def\<close>)
qed

lemma alloc_large_earns:
  assumes run: "alloc_large E ops sz w = Some (r, w')" and sz: "0 < sz" "size_class_define sz = Large"
  shows "to w w' (got r (object_of sz))"
proof -
  obtain id' real where e: "large_size_to_id_and_real_size sz = (id', real)" by fastforce
  note i = large_slot [OF sz(2), unfolded e, simplified]
  obtain q w1 where pop: "pop_large (get_idx_by_id id') w = (q, w1)" by fastforce
  have o: "object_of sz = of_size 1 (slot_size False (get_idx_by_id id'))" using object_of_times [of sz] sz(2) by (simp add: i(2))
  note p1 = pop_large_earns [OF pop i(1), folded o]
  show ?thesis
  proof (cases q)
    case None
    then have ws: "without_state (alloc_large_slow E ops False id' (recommended_size sz) (get_large_chunk (cm_env_of E ops))) w1 = Some (r, w')"
      using run pop e i(3) by (simp add: alloc_large_def)
    have "to w1 w' (got r (object_of (recommended_size sz)))"
      by (rule without_state_earns [OF ws]) (rule alloc_large_slow_earns [OF _ good_recommended [OF sz] get_large_chunk_gives i(1,2)])
    from earns_trans [OF p1 this] show ?thesis by (simp add: None)
  qed (use run pop p1 e in \<open>auto simp: alloc_large_def\<close>)
qed

lemma xl_no_object: "size_class_define sz = ExtraLarge \<Longrightarrow> object_of sz = (\<lambda>_. 0)"
  by (simp add: fun_eq_iff object_of_def)

lemma got_nothing: "got r (\<lambda>_. 0) = (\<lambda>_. 0)"
  by (simp add: fun_eq_iff got_def split: option.splits)

lemma try_alloc_body_earns:
  assumes "try_alloc_body E ops sz w = Some (r, w')" and "0 < sz"
  shows "to w w' (got r (object_of sz))"
  using assms alloc_common_earns alloc_large_earns alloc_extra_earns
  by (cases "size_class_define sz") (simp_all add: try_alloc_body_def xl_no_object got_nothing)

lemma dealloc_non_local_earns:
  assumes "dealloc_non_local_ptr E ops p md w = Some w'"
  shows "to w w' (\<lambda>_. 0)"
proof -
  obtain m w1 where g: "without_state (get_or_init_non_local_ptr_manager E ops) w = Some (m, w1)"
    and w': "w' = nl_deallocate E (op_try_alloc ops) (non_local_ptr_manager md) (new_non_local p (offset_to_slot_in_table md)) w1"
    using assms by (auto simp: dealloc_non_local_ptr_def)
  have t1: "to w w1 (\<lambda>_. 0)" by (rule without_state_earns [OF g]) (rule get_or_init_earns)
  have nl: "to v (v\<lparr>nl := n\<rparr>) (\<lambda>_. 0)" if "P n = P (nl v)" for v n
    by (rule earns_step) (simp_all add: that follows_def ready_def slack_def chain_now_def)
  obtain sz n where sz: "0 < sz" and d: "w' = w1\<lparr>nl := n\<rparr> \<and> P n = P (nl w1) \<or>
      w' = (snd (op_try_alloc ops sz w1))\<lparr>nl := n\<rparr> \<and> P n = P (nl (snd (op_try_alloc ops sz w1)))"
    using env unfolding env_ok_def manager_ok_def Let_def w' by blast
  obtain r w2 where a: "op_try_alloc ops sz w1 = (r, w2)" by fastforce
  have t2: "to w1 w2 (\<lambda>_. 0)"
    by (rule earns_less [OF try_alloc [OF a sz]]) (simp add: got_def split: option.splits)
  from d a nl [of n w1] earns_trans [OF t2 nl [of n w2]] have "to w1 w' (\<lambda>_. 0)" by auto
  from earns_trans [OF t1 this] show ?thesis by simp
qed

lemma dealloc_common_earns:
  assumes run: "dealloc_common E ops p sz w = Some w'" and sz: "0 < sz" "size_class_define sz = Common"
  shows "to w w' (\<lambda>s. - object_of sz s)"
proof -
  let ?i = "common_size_to_index (word_of_nat sz)"
  note i = common_slot [OF sz]
  have o: "- object_of sz s = of_size (- 1) (slot_size True ?i) s" for s
    using sz(2) by (simp add: object_of_def of_size_def i(2))
  obtain md where "metadata_of (cells w) p = Some md" using run by (auto simp: dealloc_common_def bind_eq_Some_conv)
  with run consider "push_back_without_state ops (common_objects ops ?i) p w = Some w'" | "dealloc_non_local_ptr E ops p md w = Some w'"
    by (auto simp: dealloc_common_def split: if_splits)
  then show ?thesis
  proof cases
    case 1
    show ?thesis unfolding o
      by (rule push_back_without_state_earns [OF common_objects_slack]) (use 1 i(1) in \<open>auto simp: present_def common_objects_def\<close>)
  next
    case 2
    show ?thesis by (rule earns_less [OF dealloc_non_local_earns [OF 2]]) simp
  qed
qed

lemma dealloc_large_earns:
  assumes run: "dealloc_large E ops p sz w = Some w'" and sz: "size_class_define sz = Large"
  shows "to w w' (\<lambda>s. - object_of sz s)"
proof -
  let ?i = "get_idx_by_id (fst (large_size_to_id_and_real_size sz))"
  note i = large_slot [OF sz]
  have o: "- object_of sz s = of_size (- 1) (slot_size False ?i) s" for s
    using sz by (simp add: object_of_def of_size_def i(2))
  obtain md where "metadata_of (cells w) p = Some md" using run by (auto simp: dealloc_large_def bind_eq_Some_conv)
  with run consider "push_back_without_state ops (large_objects ops ?i) p w = Some w'" | "dealloc_non_local_ptr E ops p md w = Some w'"
    by (auto simp: dealloc_large_def split: if_splits)
  then show ?thesis
  proof cases
    case 1
    show ?thesis unfolding o
      by (rule push_back_without_state_earns [OF large_objects_slack]) (use 1 i(1) in \<open>auto simp: present_def large_objects_def\<close>)
  next
    case 2
    show ?thesis by (rule earns_less [OF dealloc_non_local_earns [OF 2]]) simp
  qed
qed

lemma dealloc_body_earns:
  assumes "dealloc_body E ops p sz w = Some w'" and "0 < sz"
  shows "to w w' (\<lambda>s. - object_of sz s)"
  using assms dealloc_common_earns dealloc_large_earns dealloc_extra_earns
  by (cases "size_class_define sz") (simp_all add: dealloc_body_def xl_no_object)

section \<open>For the allocator itself\<close>

lemma try_alloc_common_from_cache_earns:
  assumes run: "try_alloc_common_from_cache E ops sz w = Some (r, w')" and sz: "good_size Common sz"
  shows "to w w' (got r (object_of sz))"
proof -
  have s: "0 < sz" "size_class_define sz = Common" "recommended_size sz = sz" using sz by (simp_all add: good_size_def)
  let ?i = "common_size_to_index (word_of_nat sz)"
  note i = common_slot [OF s(1,2), unfolded s(3)]
  obtain q w1 where pop: "pop_common ?i w = (q, w1)" by fastforce
  have o: "object_of sz = of_size 1 (slot_size True ?i)" using object_of_times [of sz] s by (simp add: i(2))
  note p1 = pop_common_earns [OF pop i(1), folded o]
  show ?thesis
  proof (cases q)
    case None
    let ?b = "is_allocating_now w1"
    let ?w2 = "if ?b then set_is_allocating False w1 else w1"
    have "alloc_common_slow E ops ?b sz cached_common_chunk ?w2 = Some (r, w')"
      using run pop None by (simp add: try_alloc_common_from_cache_def split: if_splits)
    note slow = alloc_common_slow_earns [OF this sz cached_common_chunk_gives]
    have "to w1 ?w2 (\<lambda>_. 0)" by (simp add: set_is_allocating_earns earns_refl)
    then have "to w1 w' (got r (object_of sz))" by (rule earns_trans [OF _ slow]) simp
    from earns_trans [OF p1 this] show ?thesis by (simp add: None)
  qed (use run pop p1 in \<open>auto simp: try_alloc_common_from_cache_def\<close>)
qed

lemma try_alloc_large_from_cache_earns:
  assumes run: "try_alloc_large_from_cache E ops sz w = Some (r, w')" and sz: "good_size Large sz"
  shows "to w w' (got r (object_of sz))"
proof -
  have s: "0 < sz" "size_class_define sz = Large" "recommended_size sz = sz" using sz by (simp_all add: good_size_def)
  let ?id = "fst (large_size_to_id_and_real_size sz)"
  note i = large_slot [OF s(2), unfolded s(3)]
  obtain q w1 where pop: "pop_large (get_idx_by_id ?id) w = (q, w1)" by fastforce
  have o: "object_of sz = of_size 1 (slot_size False (get_idx_by_id ?id))" using object_of_times [of sz] s by (simp add: i(2))
  note p1 = pop_large_earns [OF pop i(1), folded o]
  show ?thesis
  proof (cases q)
    case None
    let ?b = "is_allocating_now w1"
    let ?w2 = "if ?b then set_is_allocating False w1 else w1"
    have "alloc_large_slow E ops ?b ?id sz cached_large_chunk ?w2 = Some (r, w')"
      using run pop None by (simp add: try_alloc_large_from_cache_def Let_def split: if_splits)
    note slow = alloc_large_slow_earns [OF this sz cached_large_chunk_gives i(1,2)]
    have "to w1 ?w2 (\<lambda>_. 0)" by (simp add: set_is_allocating_earns earns_refl)
    then have "to w1 w' (got r (object_of sz))" by (rule earns_trans [OF _ slow]) simp
    from earns_trans [OF p1 this] show ?thesis by (simp add: None)
  qed (use run pop p1 in \<open>auto simp: try_alloc_large_from_cache_def Let_def\<close>)
qed

lemma slow_self_alloc_earns:
  assumes run: "slow_self_alloc E ops cnt sz cl w = Some (r, w')" and sz: "good_size cl sz" "cl \<noteq> ExtraLarge"
  shows "to w w' (got r (object_of sz))"
proof -
  have o: "object_of sz = of_size 1 sz" using object_of_times [of sz] sz by (simp add: good_size_def)
  show ?thesis
    unfolding o
  proof (cases "maybe_state w")
    case (Some c)
    obtain d w1 where a: "state_alloc_size (region_source E cnt) (size_of_state E) (length c + 2) cl sz 0 c w = Some (r, d, w1)"
      and w': "w' = w1\<lparr>maybe_state := Some d\<rparr>"
      using run Some by (auto simp: slow_self_alloc_def)
    note cw = chain_world [OF disjI1, OF a]
    obtain p where p: "w1 = w\<lparr>proc := p\<rparr>" using cw(1) by blast
    show "to w w' (got r (of_size 1 sz))"
    proof (rule earns_step)
      assume rd: "ready P w" and np: "\<not> panicked w"
      then have c: "c \<noteq> []" "list_all sizes_good c" using Some by (simp_all add: ready_def chain_now_def)
      note e = state_alloc_size_earns [OF state_size sz(1) c(1) a]
      have d: "d \<noteq> []" using cw(2) c by (auto simp: grows_def)
      have "follows w w'" using np Some chain_grown_grows [OF cw(2) c(1)] by (simp add: follows_def w' p)
      moreover have "ready P w'" using rd d e c(2) by (simp add: ready_def chain_now_def w' p chain_earns_def)
      moreover have "slack E P w s + got r (of_size 1 sz) s \<le> slack E P w' s" for s
      proof -
        have "chain_slack (size_of_state E) c s + got r (of_size 1 sz) s \<le> chain_slack (size_of_state E) d s"
          using e by (simp add: chain_earns_def)
        then show ?thesis by (simp add: slack_def chain_now_def w' p Some)
      qed
      ultimately show "follows w w' \<and> ready P w' \<and> (\<forall>s. slack E P w s + got r (of_size 1 sz) s \<le> slack E P w' s)" by blast
    qed (simp add: w' p)
  next
    case None
    obtain q w1 where q: "region_source E cnt w = (q, w1)" by fastforce
    obtain p1 where p1: "w1 = w\<lparr>proc := p1\<rparr>" using source_world [OF q] by blast
    show "to w w' (got r (of_size 1 sz))"
    proof (cases "q = 0")
      case True
      with run None q have r: "r = None" "w' = w1" by (simp_all add: slow_self_alloc_def)
      have "to w w1 (\<lambda>_. 0)" by (rule earns_world) (simp_all add: p1)
      then show ?thesis by (simp add: r)
    next
      case False
      obtain c w2 where a: "state_alloc_size (region_source E cnt) (size_of_state E) 3 cl sz 0 [from_region q] w1 = Some (r, c, w2)"
        and w': "w' = op_handle_state ops c w2"
        using run None q False by (auto simp: slow_self_alloc_def)
      obtain p2 where p2: "w2 = w\<lparr>proc := p2\<rparr>" using chain_world(1) [OF disjI1, OF a] p1 by auto
      have "[from_region q] \<noteq> []" by simp
      note nc = new_chain [OF state_alloc_size_earns [OF state_size sz(1) this a]]
      show ?thesis unfolding w' by (rule handle_chain_earns(1) [OF p2 nc])
    qed
  qed
qed

lemma self_alloc_body_earns:
  assumes run: "self_alloc_body E ops cnt sz w = Some (r, w')" and sz: "0 < sz" "recommended_size sz = sz"
  shows "to w w' (got r (object_of sz))"
proof -
  let ?cl = "size_class_define sz"
  have g: "good_size ?cl sz" using sz by (simp add: good_size_def)
  show ?thesis
  proof (cases "?cl = ExtraLarge")
    case True
    with run have "alloc_extra E ops sz w = Some (r, w')" by (simp add: self_alloc_body_def)
    from alloc_extra_earns [OF this] True show ?thesis by (simp add: xl_no_object got_nothing)
  next
    case False
    obtain q w1 where c: "(if ?cl = Common then try_alloc_common_from_cache E ops sz w else try_alloc_large_from_cache E ops sz w) = Some (q, w1)"
      using run False unfolding self_alloc_body_def Let_def by (auto split: option.splits)
    have q: "to w w1 (got q (object_of sz))"
    proof (cases ?cl)
      case Common
      with c g show ?thesis by (intro try_alloc_common_from_cache_earns) simp_all
    next
      case Large
      with c g show ?thesis by (intro try_alloc_large_from_cache_earns) simp_all
    qed (use False in simp)
    show ?thesis
    proof (cases q)
      case None
      with run False c have "slow_self_alloc E ops cnt sz ?cl w1 = Some (r, w')" unfolding self_alloc_body_def Let_def c by simp
      from earns_trans [OF q slow_self_alloc_earns [OF this g False]] show ?thesis by (simp add: None)
    qed (use run False c q in \<open>unfold self_alloc_body_def Let_def c, auto\<close>)
  qed
qed

lemma self_dealloc_body_earns:
  assumes run: "self_dealloc_body E ops p sz w = Some w'" and sz: "0 < sz"
  shows "to w w' (\<lambda>s. - object_of sz s)"
proof (cases "size_class_define sz")
  case Common
  let ?i = "common_size_to_index (word_of_nat sz)"
  note i = common_slot [OF sz Common]
  have o: "- object_of sz s = of_size (- 1) (slot_size True ?i) s" for s
    using Common by (simp add: object_of_def of_size_def i(2))
  show ?thesis
  proof (cases "maybe_state w")
    case None
    with run Common show ?thesis by (intro dealloc_common_earns [OF _ sz]) (simp_all add: self_dealloc_body_def)
  next
    case (Some c)
    show ?thesis unfolding o
      by (rule push_back_earns [OF common_objects_slack]) (use run Common Some i(1) in \<open>auto simp: self_dealloc_body_def present_def common_objects_def\<close>)
  qed
next
  case Large
  let ?i = "get_idx_by_id (fst (large_size_to_id_and_real_size sz))"
  note i = large_slot [OF Large]
  have o: "- object_of sz s = of_size (- 1) (slot_size False ?i) s" for s
    using Large by (simp add: object_of_def of_size_def i(2))
  show ?thesis
  proof (cases "maybe_state w")
    case None
    with run Large show ?thesis by (intro dealloc_large_earns) (simp_all add: self_dealloc_body_def)
  next
    case (Some c)
    show ?thesis unfolding o
      by (rule push_back_earns [OF large_objects_slack]) (use run Large Some i(1) in \<open>auto simp: self_dealloc_body_def present_def large_objects_def\<close>)
  qed
next
  case ExtraLarge
  with run have "dealloc_extra E ops p sz w = Some w'" by (simp add: self_dealloc_body_def)
  from dealloc_extra_earns [OF this] ExtraLarge show ?thesis by (simp add: xl_no_object)
qed

end

end
