(* ===== verification/BalanceState.thy ===== *)
theory BalanceState
  imports BalanceBlocks
begin

text \<open>
  Taking over a chain of states: the chunks it has in use enter their tables, with what is free of them,
  so that nothing is lost of what was handed out.
\<close>

section \<open>Room for a state\<close>

definition counted_kind :: "SizeClass \<Rightarrow> (State \<Rightarrow> UsedChunk list) \<Rightarrow> bool" where
  "counted_kind cl f \<longleftrightarrow> kind_of_chunks cl f \<and> (\<forall>s. sizes_good s \<longrightarrow> list_all (\<lambda>u. good_size cl (uc_size u)) (f s))"

lemma counted_kinds: "counted_kind Common used_common_chunks" "counted_kind Large used_large_chunks"
  by (simp_all add: counted_kind_def kinds_of_chunks sizes_good_def)

definition slack_vectors :: "('k, 'n) world tla_ops \<Rightarrow> SizeClass \<Rightarrow> (inner \<Rightarrow> bool) \<Rightarrow> (usize \<Rightarrow> amount) \<Rightarrow>
    (usize \<Rightarrow> (addr, ('k, 'n) world) vec_env) \<Rightarrow> bool" where
  "slack_vectors ops cl here g V \<longleftrightarrow>
     (\<forall>sz. \<exists>get put. V sz = vec_of ops 8 get put \<and> (good_size cl sz \<longrightarrow> slack_slot 8 get put (g sz) False here))"

lemma good_slots:
  assumes "good_size Common sz"
  shows "common_idx sz < COMMON_SIZE_TABLE_LEN" and "slot_size True (common_idx sz) = sz"
  using common_slot [of sz] assms by (simp_all add: good_size_def common_idx_def)

lemma good_large_slots:
  assumes "good_size Large sz"
  shows "large_idx sz < REAL_NUMBER_OF_LARGE_OBJECT_VECTORS" and "slot_size False (large_idx sz) = sz"
  using large_slot [of sz] assms by (simp_all add: good_size_def large_idx_def)

lemma object_slacks:
  "slack_vectors ops Common (\<lambda>_. True) (of_size (- 1)) (\<lambda>sz. common_objects ops (common_idx sz))"
  "slack_vectors ops Large (\<lambda>_. True) (of_size (- 1)) (\<lambda>sz. large_objects ops (large_idx sz))"
proof -
  have "slack_slot 8 (\<lambda>x. common_object_table x ! common_idx sz) (\<lambda>v x. x\<lparr>common_object_table := (common_object_table x)[common_idx sz := v]\<rparr>)
      (of_size (- 1) sz) False (\<lambda>_. True)" if "good_size Common sz" for sz
    using common_objects_slack [of "common_idx sz"] good_slots [OF that] by simp
  then show "slack_vectors ops Common (\<lambda>_. True) (of_size (- 1)) (\<lambda>sz. common_objects ops (common_idx sz))"
    unfolding slack_vectors_def common_objects_def by blast
  have "slack_slot 8 (\<lambda>x. large_object_table x ! large_idx sz) (\<lambda>v x. x\<lparr>large_object_table := (large_object_table x)[large_idx sz := v]\<rparr>)
      (of_size (- 1) sz) False (\<lambda>_. True)" if "good_size Large sz" for sz
    using large_objects_slack [of "large_idx sz"] good_large_slots [OF that] by simp
  then show "slack_vectors ops Large (\<lambda>_. True) (of_size (- 1)) (\<lambda>sz. large_objects ops (large_idx sz))"
    unfolding slack_vectors_def large_objects_def by blast
qed

lemma chunk_slacks:
  "slack_vectors ops Common (\<lambda>x. common_chunk_table x \<noteq> None) (objects_in COMMON_CHUNK_SIZE) (\<lambda>sz. common_chunks_vec ops (common_idx sz))"
  "slack_vectors ops Large (\<lambda>x. large_chunk_table x \<noteq> None) (objects_in LARGE_CHUNK_SIZE) (\<lambda>sz. large_chunks_vec ops (large_idx sz))"
proof -
  have "slack_slot 8 (\<lambda>x. snd (the (common_chunk_table x)) ! common_idx sz)
      (\<lambda>v x. x\<lparr>common_chunk_table := put_in_box (common_idx sz) v (common_chunk_table x)\<rparr>)
      (objects_in COMMON_CHUNK_SIZE sz) False (\<lambda>x. common_chunk_table x \<noteq> None)" if "good_size Common sz" for sz
    using common_chunks_slack [of "common_idx sz"] good_slots [OF that] by simp
  then show "slack_vectors ops Common (\<lambda>x. common_chunk_table x \<noteq> None) (objects_in COMMON_CHUNK_SIZE) (\<lambda>sz. common_chunks_vec ops (common_idx sz))"
    unfolding slack_vectors_def common_chunks_vec_def by blast
  have "slack_slot 8 (\<lambda>x. snd (the (large_chunk_table x)) ! large_idx sz)
      (\<lambda>v x. x\<lparr>large_chunk_table := put_in_box (large_idx sz) v (large_chunk_table x)\<rparr>)
      (objects_in LARGE_CHUNK_SIZE sz) False (\<lambda>x. large_chunk_table x \<noteq> None)" if "good_size Large sz" for sz
    using large_chunks_slack [of "large_idx sz"] good_large_slots [OF that] by simp
  then show "slack_vectors ops Large (\<lambda>x. large_chunk_table x \<noteq> None) (objects_in LARGE_CHUNK_SIZE) (\<lambda>sz. large_chunks_vec ops (large_idx sz))"
    unfolding slack_vectors_def large_chunks_vec_def by blast
qed

lemma ready_chunks:
  assumes "panicked w \<or> ready P w" and "counted_kind cl f" and "first_state (\<lambda>_. True) w"
  shows "panicked w \<or> list_all (\<lambda>u. good_size cl (uc_size u)) (f (state_now w))"
  using assms by (auto simp: ready_def chain_now_def counted_kind_def first_state_def)

context balanced
begin

lemma reserve_or_panic_earns:
  assumes "slack_slot esz get put g cm here" and "present here w" and "reserve_or_panic fuel (vec_of ops esz get put) n w = Some (b, w')"
  shows "to w w' (\<lambda>_. 0)"
  using assms(3) reserve_earns [OF assms(1,2)] by (auto simp: reserve_or_panic_def split: option.splits sum.splits)

lemma panicked_reserve:
  assumes "reserve fuel (vec_of ops esz get put) cnt n w = Some (r, w')" and "esz = 8 \<or> esz = 16" and "panicked w"
  shows "panicked w'"
proof -
  have V: "slack_slot esz get put (\<lambda>_. 0) False (\<lambda>_. False)" using assms(2) by (auto simp: slack_slot_def)
  have "present (\<lambda>_. False) w" using assms(3) by (simp add: present_def)
  from gains_follows [OF earnsD [OF reserve_earns [OF V this assms(1)]]] assms(3) show ?thesis by (auto dest: follows_panicked)
qed

lemma reserve_for_slots_earns:
  assumes f: "counted_kind cl f" and V: "slack_vectors ops cl (\<lambda>_. True) g V"
  shows "reserve_for_slots ops (\<lambda>w. f (state_now w)) V is w = Some (b, w') \<Longrightarrow> first_state (\<lambda>s. \<forall>i\<in>set is. i < length (f s)) w \<Longrightarrow>
    to w w' (\<lambda>_. 0)"
proof (induction "is" arbitrary: w b)
  case (Cons i "is")
  let ?c = "f (state_now w) ! i"
  obtain b1 w1 b2 where r: "reserve_or_panic (rounds ops) (V (uc_size ?c)) (number_of_free_slots ?c) w = Some (b1, w1)"
    "reserve_for_slots ops (\<lambda>w. f (state_now w)) V is w1 = Some (b2, w')"
    using Cons.prems(1) by (auto simp: Let_def split: option.splits)
  obtain get put where v: "V (uc_size ?c) = vec_of ops 8 get put" "good_size cl (uc_size ?c) \<Longrightarrow> slack_slot 8 get put (g (uc_size ?c)) False (\<lambda>_. True)"
    using V unfolding slack_vectors_def by blast
  show ?case
  proof (rule earnsI)
    assume H: "panicked w \<or> ready P w"
    have fs: "first_state (\<lambda>_. True) w" using Cons.prems(2) by (auto simp: first_state_def)
    have t: "to w w1 (\<lambda>_. 0)"
    proof (cases "panicked w")
      case True
      then have "panicked w1"
        using r(1) panicked_reserve [of "rounds ops" 8 get put False "u32 (number_of_free_slots ?c)" w _ w1]
        by (auto simp: reserve_or_panic_def v(1) split: option.splits sum.splits)
      then show ?thesis by (rule earns_panicked)
    next
      case False
      then have "good_size cl (uc_size ?c)"
        using ready_chunks [OF H f fs] Cons.prems(2) by (auto simp: first_state_def list_all_length)
      from reserve_or_panic_earns [OF v(2) [OF this] _ r(1) [unfolded v(1)]] show ?thesis by (simp add: present_def)
    qed
    note k1 = earnsD [OF t H]
    have "first_state (\<lambda>s. \<forall>i\<in>set is. i < length (f s)) w1"
    proof (rule first_state_follows [OF _ gains_follows [OF k1]])
      show "first_state (\<lambda>s. \<forall>i\<in>set is. i < length (f s)) w" using Cons.prems(2) by (auto simp: first_state_def)
      show "\<forall>i\<in>set is. i < length (f t)" if "\<forall>i\<in>set is. i < length (f s)" "grown s t" for s t
        using f that by (auto simp: counted_kind_def kind_of_chunks_def intro: less_le_trans)
    qed
    from gains_step [OF k1 Cons.IH [OF r(2) this]] show "gains E P w w' (\<lambda>_. 0)" by simp
  qed
qed (simp add: earns_refl)

text \<open>A table that is made while a state is there.\<close>

definition makes_table :: "(inner \<Rightarrow> bool) \<Rightarrow> (('k, 'n) world \<Rightarrow> ('k, 'n) world option) \<Rightarrow> bool" where
  "makes_table here table \<longleftrightarrow>
     (\<forall>w w'. table w = Some w' \<longrightarrow> first_state (\<lambda>_. True) w \<longrightarrow> to w w' (\<lambda>_. 0) \<and> present here w')"

lemma state_or_panicked: "first_state Q w \<Longrightarrow> panicked w \<or> maybe_state w \<noteq> None \<or> both_tables (inner w)"
  by (auto simp: first_state_def)

lemma makes_tables:
  "makes_table (\<lambda>x. common_chunk_table x \<noteq> None) (get_common_chunk_table ops)"
  "makes_table (\<lambda>x. large_chunk_table x \<noteq> None) (get_large_chunk_table ops)"
  unfolding makes_table_def present_def
  using get_common_chunk_table_earns [OF _ state_or_panicked] get_common_chunk_table_there
    get_large_chunk_table_earns [OF _ state_or_panicked] get_large_chunk_table_there by blast+

lemma has_state_follows: "first_state (\<lambda>_. True) w \<Longrightarrow> follows w w' \<Longrightarrow> first_state (\<lambda>_. True) w'"
  by (erule first_state_follows) simp_all

lemma reserve_in_tables_earns:
  assumes table: "makes_table here table" and V: "slack_vectors ops cl here g V"
  shows "reserve_in_tables ops table V es w = Some (b, w') \<Longrightarrow> panicked w \<or> list_all (\<lambda>e. good_size cl (snd e)) es \<Longrightarrow>
    first_state (\<lambda>_. True) w \<Longrightarrow> to w w' (\<lambda>_. 0)"
proof (induction es arbitrary: w b)
  case (Cons e es)
  obtain c sz where e: "e = (c, sz)" by fastforce
  show ?case
  proof (cases c)
    case None
    with Cons.prems(1) show ?thesis by (simp add: e earns_refl)
  next
    case (Some number)
    note run = Cons.prems(1) [unfolded e Some]
    obtain w1 where t: "table w = Some w1" using run by (auto simp: bind_eq_Some_conv)
    obtain x w2 where x: "reserve (rounds ops) (V sz) True (unat number) w1 = Some (x, w2)"
      using run t by (cases "reserve (rounds ops) (V sz) True (unat number) w1") auto
    obtain b1 where "x = Inr b1" using run t x by (cases x) simp_all
    with run t x obtain b2 where r: "reserve_in_tables ops table V es w2 = Some (b2, w')" by auto
    obtain get put where v: "V sz = vec_of ops 8 get put" "good_size cl sz \<Longrightarrow> slack_slot 8 get put (g sz) False here"
      using V unfolding slack_vectors_def by blast
    show ?thesis
    proof (rule earnsI)
      assume H: "panicked w \<or> ready P w"
      have tb: "to w w1 (\<lambda>_. 0)" "present here w1" using table t Cons.prems(3) unfolding makes_table_def by blast+
      note k1 = earnsD [OF tb(1) H]
      have "to w1 w2 (\<lambda>_. 0)"
      proof (cases "panicked w1")
        case True
        from earns_panicked [OF panicked_reserve [OF x [unfolded v(1)] _ True]] show ?thesis by simp
      next
        case False
        then have "good_size cl sz" using Cons.prems(2) gains_follows [OF k1] by (auto simp: e dest: follows_panicked)
        from reserve_earns [OF v(2) [OF this] tb(2) x [unfolded v(1)]] show ?thesis .
      qed
      from gains_step [OF k1 this] have k2: "gains E P w w2 (\<lambda>_. 0)" by simp
      have "panicked w2 \<or> list_all (\<lambda>e. good_size cl (snd e)) es"
        using Cons.prems(2) gains_follows [OF k2] by (auto dest: follows_panicked)
      from gains_step [OF k2 Cons.IH [OF r this has_state_follows [OF Cons.prems(3) gains_follows [OF k2]]]]
      show "gains E P w w' (\<lambda>_. 0)" by simp
    qed
  qed
qed (simp add: earns_refl)

lemma prepare_to_handle_state_earns:
  assumes "prepare_to_handle_state (cm_env_of E ops) f w = Some (b, w')"
  shows "to w w' (\<lambda>_. 0)"
proof -
  let ?X = "cm_env_of E ops"
  obtain b1 w1 b2 w2 b3 where r: "reserve_or_panic (rounds ops) (regions_vec ?X) 1 w = Some (b1, w1)"
    "reserve_or_panic (rounds ops) (large_vec ?X) (length (free_large_chunks (f w1))) w1 = Some (b2, w2)"
    "reserve_or_panic (rounds ops) (common_vec ?X) (length (free_common_chunks (f w2))) w2 = Some (b3, w')"
    using assms unfolding prepare_to_handle_state_def cm_env_of_def by (simp split: option.splits prod.splits) blast
  have 1: "to w w1 (\<lambda>_. 0)"
    by (rule reserve_or_panic_earns [OF regions_slack]) (use r(1) in \<open>simp_all add: present_def cm_env_of_def\<close>)
  have 2: "to w1 w2 (\<lambda>_. 0)"
    by (rule reserve_or_panic_earns [OF free_large_slack]) (use r(2) in \<open>simp_all add: present_def cm_env_of_def\<close>)
  have 3: "to w2 w' (\<lambda>_. 0)"
    by (rule reserve_or_panic_earns [OF free_common_slack]) (use r(3) in \<open>simp_all add: present_def cm_env_of_def\<close>)
  have "to w w2 (\<lambda>_. 0)" by (rule earns_trans [OF 1 2]) simp
  then show ?thesis by (rule earns_trans [OF _ 3]) simp
qed

lemma reserve_counted_earns:
  assumes f: "counted_kind cl f" and c: "count_used_chunks (f (state_now w)) (new_used N) = Some arr"
    and table: "makes_table here table" and V: "slack_vectors ops cl here g V"
    and run: "reserve_in_tables ops table V (used_entries arr) w = Some (b, w')" and s: "first_state (\<lambda>_. True) w"
  shows "to w w' (\<lambda>_. 0)"
proof (rule earnsI)
  assume H: "panicked w \<or> ready P w"
  have "panicked w \<or> list_all (\<lambda>e. good_size cl (snd e)) (used_entries arr)"
    using counted_sizes [OF c] ready_chunks [OF H f s] by (fastforce simp: list_all_iff)
  from earnsD [OF reserve_in_tables_earns [OF table V run this s] H] show "gains E P w w' (\<lambda>_. 0)" .
qed

lemma prepare_round_earns:
  assumes run: "prepare_round E ops w = Some (b, w')" and s: "first_state (\<lambda>_. True) w"
  shows "to w w' (\<lambda>_. 0)"
proof (rule earnsI)
  assume H: "panicked w \<or> ready P w"
  from run obtain b1 w1 b2 w2 larges b3 w3 commons b4 w4 b5 where
    r1: "reserve_for_slots ops (\<lambda>w. used_common_chunks (state_now w)) (\<lambda>sz. common_objects ops (common_idx sz))
           [0 ..< length (used_common_chunks (state_now w))] w = Some (b1, w1)"
    and r2: "reserve_for_slots ops (\<lambda>w. used_large_chunks (state_now w)) (\<lambda>sz. large_objects ops (large_idx sz))
           [0 ..< length (used_large_chunks (state_now w1))] w1 = Some (b2, w2)"
    and c3: "count_used_chunks (used_large_chunks (state_now w2)) (new_used LARGE_CHUNKS_IN_REGION) = Some larges"
    and r3: "reserve_in_tables ops (get_large_chunk_table ops) (\<lambda>sz. large_chunks_vec ops (large_idx sz)) (used_entries larges) w2 = Some (b3, w3)"
    and c4: "count_used_chunks (used_common_chunks (state_now w3)) (new_used MAX_COMMON_CHUNKS_IN_REGION) = Some commons"
    and r4: "reserve_in_tables ops (get_common_chunk_table ops) (\<lambda>sz. common_chunks_vec ops (common_idx sz)) (used_entries commons) w3 = Some (b4, w4)"
    and r5: "prepare_to_handle_state (cm_env_of E ops) state_now w4 = Some (b5, w')"
    unfolding prepare_round_def by (simp add: bind_eq_Some_conv split_paired_Ex) blast
  have all: "first_state (\<lambda>s. \<forall>i\<in>set [0 ..< length (f (state_now v))]. i < length (f s)) v" if "first_state (\<lambda>_. True) v"
    for f :: "State \<Rightarrow> UsedChunk list" and v :: "('k, 'n) world"
    using that by (auto simp: first_state_def)
  note k1 = earnsD [OF reserve_for_slots_earns [OF counted_kinds(1) object_slacks(1) r1 all [OF s]] H]
  note s1 = has_state_follows [OF s gains_follows [OF k1]]
  have k2: "gains E P w w2 (\<lambda>_. 0)"
    by (rule gains_step [OF k1 reserve_for_slots_earns [OF counted_kinds(2) object_slacks(2) r2 all [OF s1]]]) simp
  note s2 = has_state_follows [OF s gains_follows [OF k2]]
  have k3: "gains E P w w3 (\<lambda>_. 0)"
    by (rule gains_step [OF k2 reserve_counted_earns [OF counted_kinds(2) c3 makes_tables(2) chunk_slacks(2) r3 s2]]) simp
  note s3 = has_state_follows [OF s gains_follows [OF k3]]
  have k4: "gains E P w w4 (\<lambda>_. 0)"
    by (rule gains_step [OF k3 reserve_counted_earns [OF counted_kinds(1) c4 makes_tables(1) chunk_slacks(1) r4 s3]]) simp
  show "gains E P w w' (\<lambda>_. 0)" by (rule gains_step [OF k4 prepare_to_handle_state_earns [OF r5]]) simp
qed

lemma prepare_loop_earns:
  "prepare_loop n E ops w = Some w' \<Longrightarrow> first_state (\<lambda>_. True) w \<Longrightarrow> to w w' (\<lambda>_. 0)"
proof (induction n arbitrary: w)
  case (Suc n)
  obtain b w1 where r: "prepare_round E ops w = Some (b, w1)" and rest: "if b then prepare_loop n E ops w1 = Some w' else w' = w1"
    using Suc.prems(1) by (auto split: option.splits if_splits)
  show ?case
  proof (rule earnsI)
    assume H: "panicked w \<or> ready P w"
    note k1 = earnsD [OF prepare_round_earns [OF r Suc.prems(2)] H]
    have "to w1 w' (\<lambda>_. 0)"
      using rest Suc.IH [OF _ has_state_follows [OF Suc.prems(2) gains_follows [OF k1]]] by (cases b) (simp_all add: earns_refl)
    from gains_step [OF k1 this] show "gains E P w w' (\<lambda>_. 0)" by simp
  qed
qed simp

end

section \<open>Taking over a state\<close>

definition leaves :: "('k, 'n) env \<Rightarrow> ('n \<Rightarrow> NonLocalPtrData list) \<Rightarrow> ('k, 'n) world \<Rightarrow> ('k, 'n) world \<Rightarrow> amount \<Rightarrow> bool" where
  "leaves E waiting w w' d \<longleftrightarrow>
     comes w w' \<and> (panicked w' \<or> ready waiting w' \<and> (\<forall>s. slack E waiting w s + d s \<le> slack E waiting w' s))"

lemma gains_leaves: "gains E P w w' d \<Longrightarrow> leaves E P w w' d"
  by (simp add: gains_def leaves_def follows_comes)

lemma leaves_fine: "leaves E P w w' d \<Longrightarrow> panicked w' \<or> ready P w'"
  by (auto simp: leaves_def)

lemma leaves_trans:
  assumes a: "leaves E P w w1 d" and b: "leaves E P w1 w2 e" and le: "\<And>s. f s \<le> d s + e s"
  shows "leaves E P w w2 f"
proof -
  have "slack E P w s + f s \<le> slack E P w2 s" if "\<not> panicked w2" for s
  proof -
    have "\<not> panicked w1" using that b by (auto simp: leaves_def comes_def)
    with a b that have "slack E P w s + d s \<le> slack E P w1 s" "slack E P w1 s + e s \<le> slack E P w2 s"
      by (simp_all add: leaves_def)
    with le [of s] show ?thesis by linarith
  qed
  then show ?thesis using a b comes_trans by (auto simp: leaves_def)
qed

lemma leaves_step: "leaves E P w w1 d \<Longrightarrow> earns E P w1 w2 e \<Longrightarrow> (\<And>s. f s \<le> d s + e s) \<Longrightarrow> leaves E P w w2 f"
  by (rule leaves_trans [OF _ gains_leaves [OF earnsD]]) (auto dest: leaves_fine)

lemma clear_used_gives:
  assumes H: "panicked w \<or> ready P w" and s: "first_state Q w"
    and f: "f = used_common_chunks \<and> t = (state_now w)\<lparr>used_common_chunks := []\<rparr> \<and> n = COMMON_CHUNK_SIZE \<or>
      f = used_large_chunks \<and> t = (state_now w)\<lparr>used_large_chunks := []\<rparr> \<and> n = LARGE_CHUNK_SIZE"
  shows "leaves E P w (set_state_now t w) (\<lambda>s. - chunk_slack n (f (state_now w)) s)"
proof (cases "panicked w")
  case False
  with s obtain st c where c: "maybe_state w = Some (st # c)" by (auto simp: first_state_def)
  have "ready P (set_state_now t w)" using H f c False by (auto simp: ready_def set_state_now_def chain_now_def sizes_good_def)
  moreover have "slack E P w s - chunk_slack n (f (state_now w)) s \<le> slack E P (set_state_now t w) s" for s
    using f by (auto simp: slack_def set_state_now_def chain_now_def c state_slack_def)
  ultimately show ?thesis using False by (simp add: leaves_def comes_def set_state_now_def same_tables_def)
qed (simp add: leaves_def comes_def set_state_now_def)

lemma vec_of_state:
  assumes "V = vec_of ops esz get put"
  shows "push_slots V c w = Some w' \<Longrightarrow> maybe_state w' = maybe_state w \<and> panicked w' = panicked w"
    and "push_there V p w = Some w' \<Longrightarrow> maybe_state w' = maybe_state w \<and> panicked w' = panicked w"
  by (auto simp: push_slots_def push_there_def assms vec_of_def split: sum.splits)

lemma commits_state:
  "commit_common ops m c w = Some w' \<Longrightarrow> maybe_state w' = maybe_state w \<and> panicked w' = panicked w"
  "commit_large ops m c w = Some w' \<Longrightarrow> maybe_state w' = maybe_state w \<and> panicked w' = panicked w"
  unfolding commit_common_def commit_large_def Let_def common_objects_def large_objects_def common_chunks_vec_def large_chunks_vec_def
  by (auto simp: bind_eq_Some_conv dest!: vec_of_state [OF refl])

lemma commit_all_state:
  assumes "\<And>c w w'. f c w = Some w' \<Longrightarrow> maybe_state w' = maybe_state w \<and> panicked w' = panicked w"
  shows "commit_all f cs w = Some w' \<Longrightarrow> maybe_state w' = maybe_state w \<and> panicked w' = panicked w"
  by (induction cs arbitrary: w) (auto simp: bind_eq_Some_conv dest: assms)

context balanced
begin

lemma push_slots_earns:
  assumes V: "slack_slot 8 get put (of_size (- 1) (uc_size c)) False here" and p: "present here w"
    and run: "push_slots (vec_of ops 8 get put) c w = Some w'"
  shows "to w w' (of_size (- int (number_of_free_slots c)) (uc_size c))"
proof -
  obtain q v where v: "carve (number_of_free_slots c) (uc_size c) (uc_ptr c) (get (inner w)) = Some (q, v)"
    and w': "w' = w\<lparr>inner := put v (inner w)\<rparr>"
    using run by (auto simp: push_slots_def)
  have "length (from_fn_chunks n sz p) = n" for n sz p by (simp add: from_fn_chunks_eq_map)
  with carve_facts [OF v] show ?thesis
    unfolding w' by (intro set_vec_earns [OF V p]) (simp_all add: vec_one_def vec_len_def of_size_def)
qed

lemma push_there_earns:
  assumes V: "slack_slot 8 get put g False here" and p: "present here w"
    and run: "push_there (vec_of ops 8 get put) x w = Some w'"
  shows "to w w' g"
proof -
  have w': "w' = w\<lparr>inner := put ((get (inner w))\<lparr>vec_elems := vec_elems (get (inner w)) @ [x]\<rparr>) (inner w)\<rparr>"
    using run by (auto simp: push_there_def try_push_def split: if_splits)
  show ?thesis
    unfolding w' by (rule set_vec_earns [OF V p]) (simp_all add: vec_one_def vec_len_def)
qed

lemma commit_earns:
  assumes V: "slack_vectors ops cl (\<lambda>_. True) (of_size (- 1)) V" and T: "slack_vectors ops cl here (objects_in n) T"
    and p: "present (\<lambda>x. good_size cl (uc_size c) \<and> here x) w"
    and run: "push_slots (V (uc_size c)) c (w\<lparr>cells := m1\<rparr>) = Some w1" "push_there (T (uc_size c)) (uc_ptr c) (w1\<lparr>cells := m2\<rparr>) = Some w'"
  shows "to w w' (chunk_slack n [c])"
proof (cases "panicked w")
  case True
  obtain get put where v: "V (uc_size c) = vec_of ops 8 get put" using V unfolding slack_vectors_def by blast
  obtain getT putT where t: "T (uc_size c) = vec_of ops 8 getT putT" using T unfolding slack_vectors_def by blast
  from vec_of_state(1) [OF v run(1)] vec_of_state(2) [OF t run(2)] True have "panicked w'" by simp
  then show ?thesis by (rule earns_panicked)
next
  case False
  with p have c: "good_size cl (uc_size c)" by (simp add: present_def)
  obtain get put where v: "V (uc_size c) = vec_of ops 8 get put" "slack_slot 8 get put (of_size (- 1) (uc_size c)) False (\<lambda>_. True)"
    using V c unfolding slack_vectors_def by blast
  obtain getT putT where t: "T (uc_size c) = vec_of ops 8 getT putT" "slack_slot 8 getT putT (objects_in n (uc_size c)) False here"
    using T c unfolding slack_vectors_def by blast
  have t1: "to (w\<lparr>cells := m1\<rparr>) w1 (of_size (- int (number_of_free_slots c)) (uc_size c))"
    by (rule push_slots_earns [OF v(2) _ run(1) [unfolded v(1)]]) (simp add: present_def)
  show ?thesis
  proof (rule earnsI)
    assume H: "panicked w \<or> ready P w"
    have k1: "gains E P w w1 (of_size (- int (number_of_free_slots c)) (uc_size c))"
      by (rule gains_step [OF earnsD [OF earns_cells H] t1]) simp
    have k2: "gains E P w (w1\<lparr>cells := m2\<rparr>) (of_size (- int (number_of_free_slots c)) (uc_size c))"
      by (rule gains_step [OF k1 earns_cells]) simp
    have "present here (w1\<lparr>cells := m2\<rparr>)"
      by (rule present_slack [OF t(2) _ gains_follows [OF k2]]) (use p in \<open>auto simp: present_def\<close>)
    from push_there_earns [OF t(2) this run(2) [unfolded t(1)]]
    show "gains E P w w' (chunk_slack n [c])"
      by (rule gains_step [OF k2]) (simp add: objects_in_def of_size_def)
  qed
qed

lemma commit_common_earns:
  assumes "commit_common ops m c w = Some w'" and "present (\<lambda>x. good_size Common (uc_size c) \<and> common_chunk_table x \<noteq> None) w"
  shows "to w w' (chunk_slack COMMON_CHUNK_SIZE [c])"
proof -
  obtain w1 m2 where "push_slots (common_objects ops (common_idx (uc_size c))) c w = Some w1"
    "push_there (common_chunks_vec ops (common_idx (uc_size c))) (uc_ptr c) (w1\<lparr>cells := m2\<rparr>) = Some w'"
    using assms(1) by (auto simp: commit_common_def Let_def bind_eq_Some_conv)
  then show ?thesis
    by (intro commit_earns [OF object_slacks(1) chunk_slacks(1) assms(2), of "cells w" w1 m2]) simp_all
qed

lemma commit_large_earns:
  assumes "commit_large ops m c w = Some w'" and "present (\<lambda>x. good_size Large (uc_size c) \<and> large_chunk_table x \<noteq> None) w"
  shows "to w w' (chunk_slack LARGE_CHUNK_SIZE [c])"
proof -
  obtain w1 m1 where "push_slots (large_objects ops (large_idx (uc_size c))) c (w\<lparr>cells := m1\<rparr>) = Some w1"
    "push_there (large_chunks_vec ops (large_idx (uc_size c))) (uc_ptr c) w1 = Some w'"
    using assms(1) by (auto simp: commit_large_def Let_def bind_eq_Some_conv)
  then show ?thesis
    by (intro commit_earns [OF object_slacks(2) chunk_slacks(2) assms(2), of m1 w1 "cells w1"]) simp_all
qed

lemma commit_all_earns:
  assumes f: "\<And>c w w'. f c w = Some w' \<Longrightarrow> present (\<lambda>x. good_size cl (uc_size c) \<and> here x) w \<Longrightarrow> to w w' (chunk_slack n [c])"
    and here: "\<And>x y. here x \<Longrightarrow> same_tables x y \<Longrightarrow> here y"
  shows "commit_all f cs w = Some w' \<Longrightarrow> present here w \<Longrightarrow> panicked w \<or> list_all (\<lambda>c. good_size cl (uc_size c)) cs \<Longrightarrow>
    to w w' (chunk_slack n cs)"
proof (induction cs arbitrary: w)
  case (Cons c cs)
  obtain w1 where r: "f c w = Some w1" "commit_all f cs w1 = Some w'" using Cons.prems(1) by (auto simp: bind_eq_Some_conv)
  have "present (\<lambda>x. good_size cl (uc_size c) \<and> here x) w" using Cons.prems(2,3) by (auto simp: present_def)
  note t = f [OF r(1) this]
  show ?case
  proof (rule earnsI)
    assume H: "panicked w \<or> ready P w"
    note k1 = earnsD [OF t H]
    have "present here w1" "panicked w1 \<or> list_all (\<lambda>c. good_size cl (uc_size c)) cs"
      using gains_follows [OF k1] Cons.prems(2,3) here by (auto simp: present_def follows_def same_tables_def split: if_splits)
    from gains_step [OF k1 Cons.IH [OF r(2) this]] show "gains E P w w' (chunk_slack n (c # cs))" by simp
  qed
qed (simp add: earns_refl)

text \<open>A missing table of large chunks does not come from the common chunks of the state.\<close>

lemma large_table_keeps:
  assumes run: "get_large_chunk_table ops w = Some w'" and H: "panicked w \<or> ready P w"
    and s: "first_state (\<lambda>s. state_at s = p \<and> used_common_chunks s = []) w"
  shows "first_state (\<lambda>s. state_at s = p \<and> used_common_chunks s = []) w'"
proof (cases "panicked w' \<or> large_chunk_table (inner w) \<noteq> None")
  case True
  with run s show ?thesis by (auto simp: get_large_chunk_table_def first_state_def)
next
  case False
  let ?sz = "REAL_NUMBER_OF_LARGE_OBJECT_VECTORS * size_of_vec"
  obtain q w1 where b: "box_new ops ?sz w = (Some q, w1)" and w': "w' = w1\<lparr>inner := (inner w1)\<lparr>large_chunk_table :=
      Some (q, replicate REAL_NUMBER_OF_LARGE_OBJECT_VECTORS new_vec)\<rparr>\<rparr>"
    using run False by (auto simp: get_large_chunk_table_def split: prod.splits option.splits)
  have "size_class_define ?sz = Large" by (simp add: class_iff layout_simps size_of_vec_def)
  moreover have "\<not> both_tables (inner w)" using False by (simp add: both_tables_def)
  moreover have np: "\<not> panicked w1" using False by (simp add: w')
  ultimately have u: "used_common_chunks (state_now w) = [] \<longrightarrow> used_common_chunks (state_now w1) = []"
    using table_stays_missing [OF b _ _ H] state_or_panicked [OF s] by (auto simp: both_tables_def)
  note f = gains_follows [OF earnsD [OF box_new_earns [OF b] H]]
  have "first_state (\<lambda>s. state_at s = p) w" using s by (auto simp: first_state_def)
  then have "first_state (\<lambda>s. state_at s = p) w1" by (rule first_state_follows [OF _ f]) (simp add: grown_def)
  moreover have "\<not> panicked w" using f np follows_panicked by blast
  ultimately show ?thesis using s u np by (auto simp: first_state_def w')
qed

lemma cm_handle_state_earns:
  assumes run: "cm_handle_state st (chunk_manager (inner w)) = Some cm" and there: "present both_tables w"
  shows "to w (w\<lparr>inner := (inner w)\<lparr>chunk_manager := cm\<rparr>\<rparr>) (\<lambda>_. 0)"
proof (rule earns_inner)
  assume "tables_there (inner w)" "\<not> panicked w"
  moreover have "vec_cap (cm_free_large_chunks cm) = vec_cap (cm_free_large_chunks (chunk_manager (inner w)))"
    "vec_cap (cm_free_common_chunks cm) = vec_cap (cm_free_common_chunks (chunk_manager (inner w)))"
    "vec_cap (cm_regions cm) = vec_cap (cm_regions (chunk_manager (inner w)))"
    using run by (auto simp: cm_handle_state_def try_push_def try_extend_from_slice_def split: if_splits option.splits)
  ultimately show "tables_there ((inner w)\<lparr>chunk_manager := cm\<rparr>) \<and> same_tables (inner w) ((inner w)\<lparr>chunk_manager := cm\<rparr>)
      \<and> no_new_chunks (inner w) ((inner w)\<lparr>chunk_manager := cm\<rparr>)
      \<and> (\<forall>s. inner_slack (size_of_nlpm E) (inner w) s + 0 \<le> inner_slack (size_of_nlpm E) ((inner w)\<lparr>chunk_manager := cm\<rparr>) s)"
    using there by (simp add: tables_there_def same_tables_def no_new_chunks_def present_def inner_slack_def cm_ones_def vec_one_def)
qed

lemma commit_state_gives:
  assumes run: "commit_state E ops w = Some w'" and H: "panicked w \<or> ready P w" and s: "first_state (\<lambda>s. state_at s = p) w"
  shows "leaves E P w w' (\<lambda>_. 0) \<and> present both_tables w'
    \<and> first_state (\<lambda>s. state_at s = p \<and> used_common_chunks s = [] \<and> used_large_chunks s = []) w'"
proof -
  let ?S = "first_state (\<lambda>s. state_at s = p)" and ?C = "first_state (\<lambda>s. state_at s = p \<and> used_common_chunks s = [])"
  obtain m w1 w2 w3 w4 w5 cm where r1: "get_or_init_non_local_ptr_manager E ops w = Some (m, w1)"
    and r2: "get_common_chunk_table ops w1 = Some w2"
    and r3: "commit_all (commit_common ops m) (used_common_chunks (state_now w2)) (set_state_now ((state_now w2)\<lparr>used_common_chunks := []\<rparr>) w2) = Some w3"
    and r4: "get_large_chunk_table ops w3 = Some w4"
    and r5: "commit_all (commit_large ops m) (used_large_chunks (state_now w4)) (set_state_now ((state_now w4)\<lparr>used_large_chunks := []\<rparr>) w4) = Some w5"
    and cm: "cm_handle_state (state_now w5) (chunk_manager (inner w5)) = Some cm" and w': "w' = w5\<lparr>inner := (inner w5)\<lparr>chunk_manager := cm\<rparr>\<rparr>"
    using run unfolding commit_state_def by (auto simp: bind_eq_Some_conv)
  let ?v2 = "set_state_now ((state_now w2)\<lparr>used_common_chunks := []\<rparr>) w2"
  let ?v4 = "set_state_now ((state_now w4)\<lparr>used_large_chunks := []\<rparr>) w4"
  have keep: "?S w'" if "?S w" "follows w w'" for w w' :: "('k, 'n) world"
    by (rule first_state_follows [OF that]) (simp add: grown_def)
  have any: "first_state (\<lambda>_. True) w" if "first_state Q w" for Q and w :: "('k, 'n) world" using that by (auto simp: first_state_def)
  note k1 = earnsD [OF get_or_init_earns [OF r1] H]
  have s1: "?S w1" using keep [OF s gains_follows [OF k1]] .
  have t2: "to w1 w2 (\<lambda>_. 0)" "present (\<lambda>x. common_chunk_table x \<noteq> None) w2"
    using makes_tables(1) r2 any [OF s1] unfolding makes_table_def by blast+
  have k2: "gains E P w w2 (\<lambda>_. 0)" by (rule gains_step [OF k1 t2(1)]) simp
  have s2: "?S w2" using keep [OF s gains_follows [OF k2]] .
  note v2 = clear_used_gives [OF gains_fine [OF k2] s2, of used_common_chunks "(state_now w2)\<lparr>used_common_chunks := []\<rparr>" COMMON_CHUNK_SIZE,
      OF disjI1, simplified]
  have p2: "present (\<lambda>x. common_chunk_table x \<noteq> None) ?v2"
    "panicked ?v2 \<or> list_all (\<lambda>c. good_size Common (uc_size c)) (used_common_chunks (state_now w2))"
    using t2(2) ready_chunks [OF gains_fine [OF k2] counted_kinds(1) any [OF s2]] by (simp_all add: present_def set_state_now_def)
  have t3: "to ?v2 w3 (chunk_slack COMMON_CHUNK_SIZE (used_common_chunks (state_now w2)))"
    by (rule commit_all_earns [OF commit_common_earns _ r3 p2]) (simp_all add: same_tables_def)
  have "leaves E P w ?v2 (\<lambda>s. - chunk_slack COMMON_CHUNK_SIZE (used_common_chunks (state_now w2)) s)"
    by (rule leaves_trans [OF gains_leaves [OF k2] v2]) simp
  from leaves_step [OF this t3] have k3: "leaves E P w w3 (\<lambda>_. 0)" by simp
  have "maybe_state w3 = maybe_state ?v2" "panicked w3 = panicked ?v2"
    using commit_all_state [OF commits_state(1) r3] by simp_all
  then have s3: "?C w3" using s2 by (auto simp: first_state_def set_state_now_def)
  have c3: "present (\<lambda>x. common_chunk_table x \<noteq> None) w3"
    using p2(1) gains_follows [OF earnsD [OF t3]] leaves_fine [OF leaves_trans [OF gains_leaves [OF k2] v2, of "\<lambda>s. - chunk_slack COMMON_CHUNK_SIZE (used_common_chunks (state_now w2)) s"]]
    by (auto simp: present_def follows_def split: if_splits)
  have t4: "to w3 w4 (\<lambda>_. 0)" "present (\<lambda>x. large_chunk_table x \<noteq> None) w4"
    using makes_tables(2) r4 any [OF s3] unfolding makes_table_def by blast+
  have k4: "leaves E P w w4 (\<lambda>_. 0)" by (rule leaves_step [OF k3 t4(1)]) simp
  have f4: "follows w3 w4" using gains_follows [OF earnsD [OF t4(1) leaves_fine [OF k3]]] .
  have c4: "present both_tables w4" using c3 t4(2) f4 by (auto simp: present_def both_tables_def follows_def split: if_splits)
  have s4: "?C w4" by (rule large_table_keeps [OF r4 leaves_fine [OF k3] s3])
  note v4 = clear_used_gives [OF leaves_fine [OF k4] s4, of used_large_chunks "(state_now w4)\<lparr>used_large_chunks := []\<rparr>" LARGE_CHUNK_SIZE,
      OF disjI2, simplified]
  have p4: "present (\<lambda>x. large_chunk_table x \<noteq> None) ?v4"
    "panicked ?v4 \<or> list_all (\<lambda>c. good_size Large (uc_size c)) (used_large_chunks (state_now w4))" "present both_tables ?v4"
    using t4(2) c4 ready_chunks [OF leaves_fine [OF k4] counted_kinds(2) any [OF s4]] by (simp_all add: present_def set_state_now_def)
  have t5: "to ?v4 w5 (chunk_slack LARGE_CHUNK_SIZE (used_large_chunks (state_now w4)))"
    by (rule commit_all_earns [OF commit_large_earns _ r5 p4(1,2)]) (simp_all add: same_tables_def)
  have kv4: "leaves E P w ?v4 (\<lambda>s. - chunk_slack LARGE_CHUNK_SIZE (used_large_chunks (state_now w4)) s)"
    by (rule leaves_trans [OF k4 v4]) simp
  from leaves_step [OF this t5] have k5: "leaves E P w w5 (\<lambda>_. 0)" by simp
  have c5: "present both_tables w5" by (rule tables_stay [OF p4(3) gains_follows [OF earnsD [OF t5 leaves_fine [OF kv4]]]])
  have "maybe_state w5 = maybe_state ?v4" "panicked w5 = panicked ?v4"
    using commit_all_state [OF commits_state(2) r5] by simp_all
  then have s5: "first_state (\<lambda>s. state_at s = p \<and> used_common_chunks s = [] \<and> used_large_chunks s = []) w5"
    using s4 by (auto simp: first_state_def set_state_now_def)
  have "leaves E P w w' (\<lambda>_. 0)" unfolding w' by (rule leaves_step [OF k5 cm_handle_state_earns [OF cm c5]]) simp
  moreover have "present both_tables w'" using c5 by (auto simp: w' present_def both_tables_def)
  moreover have "first_state (\<lambda>s. state_at s = p \<and> used_common_chunks s = [] \<and> used_large_chunks s = []) w'"
    using s5 by (simp add: w' first_state_def)
  ultimately show ?thesis by blast
qed

text \<open>The chain, state by state. The places of the states but the first are given back at the end.\<close>

definition places :: "addr list \<Rightarrow> amount" where
  "places L s = int (length L) * object_of (size_of_state E) s"

lemma drop_state_gives:
  assumes H: "panicked w \<or> ready P w" and there: "present both_tables w"
    and s: "first_state (\<lambda>s. state_at s = p \<and> used_common_chunks s = [] \<and> used_large_chunks s = []) w"
    and m: "m = (if tl (the (maybe_state w)) = [] then None else Some (tl (the (maybe_state w))))"
  shows "leaves E P w (w\<lparr>maybe_state := m\<rparr>) (\<lambda>s. if p = 0 then 0 else object_of (size_of_state E) s)"
proof (cases "panicked w")
  case False
  obtain st c where c: "maybe_state w = Some (st # c)" "state_at st = p" "used_common_chunks st = []" "used_large_chunks st = []"
    using s False by (auto simp: first_state_def)
  have now: "chain_now (w\<lparr>maybe_state := m\<rparr>) = c" using m c(1) by (simp add: chain_now_def)
  have "ready P (w\<lparr>maybe_state := m\<rparr>)"
    using H there False now m c(1) by (auto simp: ready_def present_def chain_now_def)
  moreover have "slack E P w s + (if p = 0 then 0 else object_of (size_of_state E) s) \<le> slack E P (w\<lparr>maybe_state := m\<rparr>) s" for s
    using c now by (simp add: slack_def) (simp add: chain_now_def state_slack_def)
  ultimately show ?thesis using False by (simp add: leaves_def comes_def same_tables_def)
qed (simp add: leaves_def comes_def)

lemma handle_states_gives:
  "handle_states n E ops L w = Some (L', w') \<Longrightarrow> panicked w \<or> ready P w \<Longrightarrow>
    L = L0 \<and> first_state (\<lambda>_. True) w \<or> (\<exists>p. L = L0 @ [p] \<and> p \<noteq> 0 \<and> first_state (\<lambda>s. state_at s = p) w) \<Longrightarrow>
    leaves E P w w' (\<lambda>s. places L' s - places L0 s) \<and> present both_tables w' \<and> maybe_state w' = None"
proof (induction n arbitrary: L L0 w)
  case (Suc n)
  obtain w1 w2 where r1: "prepare_loop (rounds ops) E ops w = Some w1" and r2: "commit_state E ops w1 = Some w2"
    and raw: "(case tl (the (maybe_state w2)) of [] \<Rightarrow> Some (L, w2\<lparr>maybe_state := None\<rparr>)
       | state # rest \<Rightarrow> if length L < 8 \<and> state_at state \<noteq> 0
          then handle_states n E ops (L @ [state_at state]) (w2\<lparr>maybe_state := Some (state # rest)\<rparr>) else None) = Some (L', w')"
    using Suc.prems(1) unfolding handle_states.simps bind_eq_Some_conv by blast
  have fs: "first_state (\<lambda>_. True) w" using Suc.prems(3) by (auto simp: first_state_def)
  note k1 = earnsD [OF prepare_loop_earns [OF r1 fs] Suc.prems(2)]
  obtain p where p: "first_state (\<lambda>s. state_at s = p) w1" "L = L0 \<or> L = L0 @ [p] \<and> p \<noteq> 0"
  proof -
    from Suc.prems(3) consider "L = L0" | q where "L = L0 @ [q]" "q \<noteq> 0" "first_state (\<lambda>s. state_at s = q) w" by blast
    then show thesis
    proof cases
      case 1
      have "first_state (\<lambda>_. True) w1" using has_state_follows [OF fs gains_follows [OF k1]] .
      then obtain q where "first_state (\<lambda>s. state_at s = q) w1" by (auto simp: first_state_def)
      with 1 that show thesis by blast
    next
      case 2
      have "first_state (\<lambda>s. state_at s = q) w1"
        by (rule first_state_follows [OF 2(3) gains_follows [OF k1]]) (simp add: grown_def)
      with 2 that show thesis by blast
    qed
  qed
  note cs = commit_state_gives [OF r2 gains_fine [OF k1] p(1)]
  have k2: "leaves E P w w2 (\<lambda>_. 0)" by (rule leaves_trans [OF gains_leaves [OF k1] conjunct1 [OF cs]]) simp
  define m where "m = (if tl (the (maybe_state w2)) = [] then None else Some (tl (the (maybe_state w2))))"
  let ?w3 = "w2\<lparr>maybe_state := m\<rparr>"
  have "leaves E P w2 ?w3 (\<lambda>s. if p = 0 then 0 else object_of (size_of_state E) s)"
    using drop_state_gives [OF leaves_fine [OF k2] _ _ m_def] cs by blast
  then have k3: "leaves E P w ?w3 (\<lambda>s. places L s - places L0 s)"
    by (rule leaves_trans [OF k2]) (use p(2) in \<open>auto simp: places_def distrib_right\<close>)
  have there: "present both_tables ?w3" using cs by (simp add: present_def)
  show ?case
  proof (cases "tl (the (maybe_state w2))")
    case Nil
    with raw have "L' = L" "w' = ?w3" by (simp_all add: m_def)
    moreover from Nil have "maybe_state ?w3 = None" by (simp add: m_def)
    ultimately have "L' = L" "w' = ?w3" "maybe_state w' = None" by simp_all
    with k3 there show ?thesis by simp
  next
    case (Cons state rest')
    from raw Cons have r: "handle_states n E ops (L @ [state_at state]) ?w3 = Some (L', w')" "state_at state \<noteq> 0"
      by (simp_all add: m_def split: if_splits)
    have "first_state (\<lambda>s. state_at s = state_at state) ?w3" by (simp add: first_state_def m_def Cons)
    with Suc.IH [OF r(1) leaves_fine [OF k3]] r(2)
    have "leaves E P ?w3 w' (\<lambda>s. places L' s - places L s) \<and> present both_tables w' \<and> maybe_state w' = None" by blast
    moreover from this have "leaves E P w w' (\<lambda>s. places L' s - places L0 s)" by (intro leaves_trans [OF k3, of w']) auto
    ultimately show ?thesis by blast
  qed
qed simp

lemma dealloc_states_earns:
  "dealloc_states E ops L w = Some w' \<Longrightarrow> to w w' (\<lambda>s. - places L s)"
proof (induction L arbitrary: w)
  case Nil
  then show ?case by (simp add: earns_refl places_def)
next
  case (Cons p L)
  obtain w1 where r: "dealloc_body E ops p (size_of_state E) w = Some w1" "dealloc_states E ops L w1 = Some w'"
    using Cons.prems by (auto simp: bind_eq_Some_conv)
  have sos: "0 < size_of_state E" using env by (simp add: env_ok_def size_of_state_ok_def)
  from earns_trans [OF dealloc_body_earns [OF r(1) sos] Cons.IH [OF r(2)]]
  show ?case by (simp add: places_def distrib_right)
qed

lemma handle_state_body_gains:
  assumes run: "handle_state_body E ops c w = Some w'" and c: "panicked w \<or> c \<noteq> [] \<and> list_all sizes_good c" and H: "panicked w \<or> ready P w"
  shows "gains E P w w' (chain_slack (size_of_state E) c) \<and> present both_tables w'"
proof -
  let ?w0 = "w\<lparr>maybe_state := Some c\<rparr>" and ?d = "chain_slack (size_of_state E)"
  obtain w1 L w2 w3 where r1: "(if is_destructor_registered (inner ?w0) then Some ?w0
      else map_option snd (get_or_init_non_local_ptr_manager E ops ?w0)) = Some w1"
    and r2: "handle_states (rounds ops) E ops [] w1 = Some (L, w2)" and r3: "dealloc_states E ops L w2 = Some w3"
    and w': "w' = w3\<lparr>maybe_state := maybe_state w\<rparr>"
    using run unfolding handle_state_body_def Let_def by (auto simp: bind_eq_Some_conv simp del: split_paired_Ex split del: if_split)
  have H0: "panicked ?w0 \<or> ready P ?w0" using H c by (auto simp: ready_def chain_now_def)
  have "to ?w0 w1 (\<lambda>_. 0)" using r1 get_or_init_earns by (auto simp: earns_refl split: if_splits)
  note k1 = earnsD [OF this H0]
  have "first_state (\<lambda>_. True) ?w0" using c by (cases c) (auto simp: first_state_def)
  then have s1: "first_state (\<lambda>_. True) w1" using has_state_follows gains_follows [OF k1] by blast
  have h: "leaves E P w1 w2 (\<lambda>s. places L s - places [] s)" "present both_tables w2" "maybe_state w2 = None"
    using handle_states_gives [OF r2 gains_fine [OF k1], of "[]"] s1 by blast+
  have k2: "leaves E P ?w0 w2 (places L)" by (rule leaves_trans [OF gains_leaves [OF k1] h(1)]) (simp add: places_def)
  have k3: "leaves E P ?w0 w3 (\<lambda>_. 0)" by (rule leaves_step [OF k2 dealloc_states_earns [OF r3]]) simp
  note f3 = gains_follows [OF earnsD [OF dealloc_states_earns [OF r3] leaves_fine [OF k2]]]
  have f: "follows w w'" unfolding w' by (rule comes_follows [where m = "Some c"]) (use k3 in \<open>simp add: leaves_def\<close>)
  have there: "present both_tables w3" by (rule tables_stay [OF h(2) f3])
  have "ready P w' \<and> slack E P w s + ?d c s \<le> slack E P w' s" if np: "\<not> panicked w'" for s
  proof -
    have np3: "\<not> panicked w3" "\<not> panicked w" using np f by (auto simp: w' dest: follows_panicked)
    then have m: "maybe_state w3 = None" using follows_maybe [OF f3] h(3) by auto
    have "slack E P ?w0 s = slack E P w s - ?d (chain_now w) s + ?d c s" by (simp add: slack_def chain_now_def)
    moreover have "slack E P w' s = slack E P w3 s + ?d (chain_now w) s" by (simp add: slack_def chain_now_def w' m)
    moreover have "slack E P ?w0 s \<le> slack E P w3 s" using k3 np3 by (simp add: leaves_def)
    moreover have "ready P w'" using k3 H np3 there by (auto simp: leaves_def ready_def w' chain_now_def present_def)
    ultimately show ?thesis by simp
  qed
  with f have "gains E P w w' (?d c)" by (auto simp: gains_def)
  moreover have "present both_tables w'" using there by (simp add: w' present_def)
  ultimately show ?thesis by blast
qed

end

section \<open>Alone with a state\<close>

text \<open>Without free chunks and pointers the state gives what is needed, and no table is made. The common
  chunks it has in use are not touched for a large size.\<close>

definition no_common :: "State list \<Rightarrow> bool" where
  "no_common c \<longleftrightarrow> c \<noteq> [] \<and> used_common_chunks (hd c) = []"

lemma no_common_update: "no_common c \<Longrightarrow> (used_common_chunks (c ! i) = [] \<Longrightarrow> used_common_chunks t = []) \<Longrightarrow> no_common (c[i := t])"
  by (cases c; cases i) (auto simp: no_common_def)

lemma try_alloc_size_no_common:
  assumes "try_alloc_size cl sz c = Some (p, c')" and "no_common c"
  shows "no_common c'"
proof (cases c)
  case (Cons s d)
  with assms show ?thesis by (cases cl) (auto simp: no_common_def split: option.splits)
qed (use assms in simp)

lemma get_large_no_common:
  "get_free_large_chunk_owned areg sos n i c w = Some (r, c', w') \<Longrightarrow> no_common c \<Longrightarrow> no_common c'"
proof (induction n arbitrary: i c w r c' w')
  case (Suc n)
  let ?L = "get_free_large_chunk_owned areg sos n" and ?C = "get_free_common_chunk areg sos n"
  have run: "get_free_large_chunk_step areg sos ?L ?C i c w = Some (r, c', w')"
    using Suc.prems(1) by (simp split: prod.splits)
  consider "c' = c[i := (c ! i)\<lparr>free_large_chunks := butlast (free_large_chunks (c ! i))\<rparr>]" | "?L (Suc i) c w = Some (r, c', w')"
    | x c1 w1 where "alloc_new_state_in areg sos ?L ?C c w = Some (x, c1, w1)"
        "c' = c1 \<or> (\<exists>st. ?L (Suc i) (c1 @ [st]) w1 = Some (r, c', w'))"
    using run unfolding get_free_large_chunk_step_def Let_def by (simp split: if_splits option.splits prod.splits) blast+
  then show ?case
  proof cases
    case 1
    with Suc.prems(2) show ?thesis by (auto intro: no_common_update)
  next
    case 2
    from Suc.IH [OF this Suc.prems(2)] show ?thesis .
  next
    case 3
    have "c1 = c \<or> (\<exists>p. try_alloc_size (size_class_define sos) sos c = Some (p, c1))"
      using 3(1) by (auto simp: alloc_new_state_in_def Let_def split: prod.splits if_splits option.splits)
    then have "no_common c1" using try_alloc_size_no_common Suc.prems(2) by blast
    moreover from this have "no_common (c1 @ [st])" for st by (simp add: no_common_def)
    ultimately show ?thesis using 3(2) Suc.IH by blast
  qed
qed simp

lemma alloc_large_no_common:
  assumes run: "state_alloc_size areg sos n Large sz 0 c w = Some (r, c', w')" and c: "no_common c"
  shows "no_common c'"
proof (cases "try_alloc_size Large sz c")
  case (Some x)
  with run have "try_alloc_size Large sz c = Some (fst x, c')" by (auto simp: state_alloc_size_def alloc_size_def split: prod.splits)
  then show ?thesis using c by (rule try_alloc_size_no_common)
next
  case None
  with run obtain x c1 w1 where g: "get_free_large_chunk_owned areg sos n 0 c w = Some (x, c1, w1)"
    by (auto simp: state_alloc_size_def alloc_size_def alloc_size_slow_def split: option.splits)
  note c1 = get_large_no_common [OF g c]
  show ?thesis
  proof (cases x)
    case None
    with run g c1 \<open>try_alloc_size Large sz c = None\<close> show ?thesis by (simp add: state_alloc_size_def alloc_size_def alloc_size_slow_def)
  next
    case (Some y)
    then show ?thesis
      using run g c1 None by (auto simp: state_alloc_size_def alloc_size_def alloc_size_slow_def Let_def split: prod.splits intro: no_common_update)
  qed
qed

text \<open>What stays the same when the allocator has neither chunks nor pointers coming back.\<close>

definition unmoved :: "('k, 'n) world \<Rightarrow> ('k, 'n) world \<Rightarrow> bool" where
  "unmoved w w' \<longleftrightarrow>
     common_chunk_table (inner w') = common_chunk_table (inner w) \<and> large_chunk_table (inner w') = large_chunk_table (inner w)
     \<and> (maybe_state w' = maybe_state w \<or> (\<exists>s c. maybe_state w = Some (s # c)
         \<and> maybe_state w' = Some (s\<lparr>is_allocating_non_local_ptr_manager_now := False\<rparr> # c)))"

lemma unmoved_trans: "unmoved a b \<Longrightarrow> unmoved b c \<Longrightarrow> unmoved a c"
  unfolding unmoved_def by (elim conjE disjE exE) (simp_all, metis)

lemma unmoved_same: "inner w' = inner w \<Longrightarrow> maybe_state w' = maybe_state w \<Longrightarrow> unmoved w w'"
  by (simp add: unmoved_def)

lemma set_is_allocating_unmoved: "unmoved w (set_is_allocating False w)"
  by (auto simp: unmoved_def set_is_allocating_def split: option.splits list.splits)

lemma pop_unmoved:
  "pop_common i w = (r, w') \<Longrightarrow> unmoved w w' \<and> chunk_manager (inner w') = chunk_manager (inner w) \<and> nl w' = nl w"
  "pop_large i w = (r, w') \<Longrightarrow> unmoved w w' \<and> chunk_manager (inner w') = chunk_manager (inner w) \<and> nl w' = nl w"
  by (auto simp: pop_common_def pop_large_def unmoved_def split: prod.splits)

lemma no_cached_chunk:
  assumes "chunkless (inner w)"
  shows "cached_common_chunk w = Some (r, w') \<Longrightarrow> r = None \<and> unmoved w w'"
    and "cached_large_chunk w = Some (r, w') \<Longrightarrow> r = None \<and> unmoved w w'"
  using assms by (auto simp: cached_common_chunk_def cached_large_chunk_def try_get_common_chunk_def try_get_large_chunk_def
      chunkless_def vec_pop_def vec_len_def unmoved_def split: prod.splits)

context balanced
begin

lemma slow_path_unmoved:
  assumes pop: "\<And>w r w'. pop w = (r, w') \<Longrightarrow> unmoved w w' \<and> chunk_manager (inner w') = chunk_manager (inner w) \<and> nl w' = nl w"
    and get: "\<And>w r w'. chunkless (inner w) \<Longrightarrow> get w = Some (r, w') \<Longrightarrow> r = None \<and> unmoved w w'"
    and alone: "chunkless (inner w)" "P (nl w) = []"
    and run: "slow_path E ops b pop table T V sz n k put_md get w = Some (r, w')"
  shows "unmoved w w'"
proof -
  define w0 where "w0 = (if \<not> b \<and> should_auto_check E then check_non_local_ptrs E ops w else w)"
  have i0: "inner w0 = inner w" "maybe_state w0 = maybe_state w" using check_nothing [OF alone(2)] by (simp_all add: w0_def)
  obtain x w1 where x: "(if \<not> b \<and> should_auto_check E then pop w0 else (None, w0)) = (x, w1)" by (metis surj_pair)
  have u1: "unmoved w w1" and c1: "chunkless (inner w1)"
    using x pop [of w0 x w1] unmoved_same [OF i0] i0 alone(1) by (auto simp: chunkless_def intro: unmoved_trans split: if_splits)
  note run = run [unfolded slow_path_def Let_def, folded w0_def, unfolded x]
  show ?thesis
  proof (cases x)
    case None
    with run obtain y w2 where y: "get w1 = Some (y, w2)" by (auto split: option.splits)
    with get [OF c1 y] run None have "w' = w2" by simp
    with get [OF c1 y] u1 show ?thesis by (auto intro: unmoved_trans)
  qed (use run u1 in auto)
qed

lemma from_cache_unmoved:
  assumes "chunkless (inner w)" "P (nl w) = []"
  shows "try_alloc_common_from_cache E ops sz w = Some (r, w') \<Longrightarrow> unmoved w w'"
    and "try_alloc_large_from_cache E ops sz w = Some (r, w') \<Longrightarrow> unmoved w w'"
proof -
  have nl: "nl (set_is_allocating False v) = nl v" "inner (set_is_allocating False v) = inner v" for v :: "('k, 'n) world"
    by (auto simp: set_is_allocating_def split: option.splits list.splits)
  have S: "unmoved v w'" if "slow_path E ops b pop table T V sz n k put_md get (if a then set_is_allocating False v else v) = Some (r, w')"
    "\<And>w r w'. pop w = (r, w') \<Longrightarrow> unmoved w w' \<and> chunk_manager (inner w') = chunk_manager (inner w) \<and> nl w' = nl w"
    "\<And>w r w'. chunkless (inner w) \<Longrightarrow> get w = Some (r, w') \<Longrightarrow> r = None \<and> unmoved w w'"
    "chunkless (inner v)" "P (nl v) = []" for a b pop table T V n k put_md get v and sz :: usize
  proof -
    have "unmoved (if a then set_is_allocating False v else v) w'"
      by (rule slow_path_unmoved [OF _ _ _ _ that(1)]) (use that(2-) nl in auto)
    then show ?thesis using set_is_allocating_unmoved [of v] by (auto split: if_splits intro: unmoved_trans)
  qed
  show "unmoved w w'" if run: "try_alloc_common_from_cache E ops sz w = Some (r, w')"
  proof -
    obtain p w1 where p: "pop_common (common_size_to_index (word_of_nat sz)) w = (p, w1)" by fastforce
    note u = pop_unmoved(1) [OF p]
    have c: "chunkless (inner w1)" "P (nl w1) = []" using u assms by (simp_all add: chunkless_def)
    have "unmoved w1 w'" if "p = None"
      using run p that S [OF _ pop_unmoved(1) no_cached_chunk(1) c, where a = "is_allocating_now w1"]
      by (auto simp: try_alloc_common_from_cache_def slow_paths Let_def split: if_splits)
    then show ?thesis using u run p by (cases p) (auto simp: try_alloc_common_from_cache_def intro: unmoved_trans)
  qed
  show "unmoved w w'" if run: "try_alloc_large_from_cache E ops sz w = Some (r, w')"
  proof -
    obtain p w1 where p: "pop_large (get_idx_by_id (fst (large_size_to_id_and_real_size sz))) w = (p, w1)" by fastforce
    note u = pop_unmoved(2) [OF p]
    have c: "chunkless (inner w1)" "P (nl w1) = []" using u assms by (simp_all add: chunkless_def)
    have "unmoved w1 w'" if "p = None"
      using run p that S [OF _ pop_unmoved(2) no_cached_chunk(2) c, where a = "is_allocating_now w1"]
      by (auto simp: try_alloc_large_from_cache_def slow_paths Let_def split: if_splits)
    then show ?thesis using u run p by (cases p) (auto simp: try_alloc_large_from_cache_def Let_def intro: unmoved_trans)
  qed
qed

lemma self_alloc_body_quiet:
  assumes run: "self_alloc_body E ops cnt sz w = Some (r, w')" and xl: "size_class_define sz \<noteq> ExtraLarge"
    and s: "maybe_state w = Some (s # c)" and alone: "chunkless (inner w) \<and> P (nl w) = []"
  shows "common_chunk_table (inner w') = common_chunk_table (inner w) \<and> large_chunk_table (inner w') = large_chunk_table (inner w)
    \<and> (size_class_define sz = Large \<longrightarrow> used_common_chunks s = [] \<longrightarrow> used_common_chunks (state_now w') = [])"
proof -
  let ?cl = "size_class_define sz"
  obtain q w1 where q: "(if ?cl = Common then try_alloc_common_from_cache E ops sz w else try_alloc_large_from_cache E ops sz w) = Some (q, w1)"
    and rest: "case q of Some p \<Rightarrow> (r, w') = (Some p, w1) | None \<Rightarrow> slow_self_alloc E ops cnt sz ?cl w1 = Some (r, w')"
    using run xl unfolding self_alloc_body_def Let_def by (auto split: option.splits)
  have u: "unmoved w w1" using q from_cache_unmoved alone by (auto split: if_splits)
  then obtain t where t: "maybe_state w1 = Some (t # c)" "used_common_chunks t = used_common_chunks s"
    using s by (auto simp: unmoved_def)
  show ?thesis
  proof (cases q)
    case (Some p)
    with rest u t show ?thesis by (auto simp: unmoved_def)
  next
    case None
    with rest t obtain d w2 where a: "state_alloc_size (region_source E cnt) (size_of_state E) (length (t # c) + 2) ?cl sz 0 (t # c) w1 = Some (r, d, w2)"
      and w': "w' = w2\<lparr>maybe_state := Some d\<rparr>" by (auto simp: slow_self_alloc_def)
    have "inner w2 = inner w1" using chain_world(1) [OF disjI1, OF a] by auto
    moreover have "no_common d" if "?cl = Large" "used_common_chunks s = []"
      using alloc_large_no_common [OF a [unfolded that(1)]] that(2) t(2) by (simp add: no_common_def)
    ultimately show ?thesis using u by (simp add: unmoved_def w' no_common_def)
  qed
qed

end

end
