(* ===== verification/ThreadBalance.thy ===== *)
theory ThreadBalance
  imports BalanceState
begin

text \<open>
  The promises of \<open>balanced\<close> hold at every depth, in every environment, so that a thread that allocates
  and frees never holds more objects than the chunks of its allocator account for.
\<close>

section \<open>Every depth\<close>

lemma earns_panic: "earns E P w (w\<lparr>panicked := True\<rparr>) d"
  by (rule earns_panicked) simp

lemma balanced_Suc:
  fixes E :: "('k, 'n) env"
  assumes b: "balanced E M P (allocator_at E n)"
  shows "balanced E M P (allocator_at E (Suc n))"
proof (rule balanced.intro [OF balanced.axioms(1) [OF b]], unfold_locales)
  let ?ops = "allocator_at E n"
  fix w w' :: "('k, 'n) world"
  { fix cnt sz r assume run: "op_self_alloc (allocator_at E (Suc n)) cnt sz w = (r, w')"
    note panic = or_panic_def earns_panic
    show "earns E P w w' (got r (object_of sz))" if sz: "0 < sz" "recommended_size sz = sz"
    proof (cases "self_alloc_body E ?ops cnt sz w")
      case None
      with run show ?thesis by (auto simp: Let_def panic)
    next
      case (Some x)
      with run have "self_alloc_body E ?ops cnt sz w = Some (r, w')" by (simp add: Let_def or_panic_def)
      from balanced.self_alloc_body_earns [OF b this sz] show ?thesis .
    qed
    fix s c assume q: "size_class_define sz \<noteq> ExtraLarge" "maybe_state w = Some (s # c)" "chunkless (inner w) \<and> P (nl w) = []"
    show "panicked w' \<or> common_chunk_table (inner w') = common_chunk_table (inner w) \<and> large_chunk_table (inner w') = large_chunk_table (inner w)
      \<and> (size_class_define sz = Large \<longrightarrow> used_common_chunks s = [] \<longrightarrow> used_common_chunks (state_now w') = [])"
    proof (cases "self_alloc_body E ?ops cnt sz w")
      case None
      with run show ?thesis by (auto simp: Let_def or_panic_def)
    next
      case (Some x)
      with run have "self_alloc_body E ?ops cnt sz w = Some (r, w')" by (simp add: Let_def or_panic_def)
      from balanced.self_alloc_body_quiet [OF b this q] show ?thesis by blast
    qed }
  { fix sz :: usize and p assume sz: "0 < sz"
    show "earns E P w (op_self_dealloc (allocator_at E (Suc n)) p sz w) (\<lambda>s. - object_of sz s)"
      using balanced.self_dealloc_body_earns [OF b _ sz, of p w]
      by (cases "self_dealloc_body E ?ops p sz w") (simp_all add: Let_def panic_unit_def earns_panic) }
  { fix c assume c: "panicked w \<or> c \<noteq> [] \<and> list_all sizes_good c"
    have "gains E P w (op_handle_state (allocator_at E (Suc n)) c w) (chain_slack (size_of_state E) c)
        \<and> present both_tables (op_handle_state (allocator_at E (Suc n)) c w)" if H: "panicked w \<or> ready P w"
      using balanced.handle_state_body_gains [OF b _ c H] earnsD [OF earns_panic H]
      by (cases "handle_state_body E ?ops c w") (simp_all add: Let_def panic_unit_def present_def)
    then show "earns E P w (op_handle_state (allocator_at E (Suc n)) c w) (chain_slack (size_of_state E) c)"
      and "panicked w \<or> ready P w \<Longrightarrow> present both_tables (op_handle_state (allocator_at E (Suc n)) c w)"
      by (auto intro: earnsI) }
  { fix sz r assume run: "op_try_alloc (allocator_at E (Suc n)) sz w = (r, w')" and sz: "0 < sz"
    show "earns E P w w' (got r (object_of sz))"
    proof (cases "try_alloc_body E ?ops sz w")
      case None
      with run show ?thesis by (auto simp: Let_def or_panic_def earns_panic)
    next
      case (Some x)
      with run have "try_alloc_body E ?ops sz w = Some (r, w')" by (simp add: Let_def or_panic_def)
      from balanced.try_alloc_body_earns [OF b this sz] show ?thesis .
    qed }
qed

lemma balanced_at:
  assumes "environment E M P"
  shows "balanced E M P (allocator_at E n)"
proof (induction n)
  case 0
  show ?case
    by (intro balanced.intro assms balanced_axioms.intro) (auto intro!: earns_panicked simp: present_def)
qed (rule balanced_Suc)

sublocale environment \<subseteq> depth: balanced E M P "allocator_at E n" for n :: nat
  by (rule balanced_at [OF environment_axioms])

interpretation lone: environment lone_env "\<lambda>m. m" "\<lambda>_. []"
  by unfold_locales (rule lone_env_ok)

section \<open>A thread that allocates and frees\<close>

text \<open>The blocks a thread holds are objects the slack covers.\<close>

definition covers :: "('k, 'n) env \<Rightarrow> ('n \<Rightarrow> NonLocalPtrData list) \<Rightarrow> (addr \<times> usize) list \<Rightarrow> ('k, 'n) world \<Rightarrow> bool" where
  "covers E waiting bs w \<longleftrightarrow>
     list_all (\<lambda>b. 0 < snd b) bs \<and> ready waiting w \<and> (\<forall>s. block_ones bs s \<le> slack E waiting w s)"

lemma earns_covers:
  assumes c: "covers E P bs w" and e: "earns E P w w' d" and np: "\<not> panicked w'" and cs: "list_all (\<lambda>b. 0 < snd b) cs"
    and le: "\<And>s. block_ones cs s \<le> block_ones bs s + d s"
  shows "covers E P cs w'"
proof -
  have "gains E P w w' d" using c e by (auto simp: covers_def intro: earnsD)
  then have g: "ready P w'" "slack E P w s + d s \<le> slack E P w' s" for s using np by (simp_all add: gains_def)
  moreover have "block_ones bs s \<le> slack E P w s" for s using c by (simp add: covers_def)
  ultimately have "block_ones cs s \<le> slack E P w' s" for s
    using le [of s] by (meson add_right_mono order_trans)
  with g(1) cs show ?thesis by (simp add: covers_def)
qed

lemma fresh_covers:
  assumes "inner w = new_inner" and "maybe_state w = None" and "node_memory w = []" and "P (nl w) = []"
  shows "covers E P [] w"
proof -
  have v: "vec_one esz new_vec s = 0" "vec_len new_vec = 0" for esz s by (simp_all add: vec_one_def vec_len_def new_vec_def)
  have "slack E P w s = 0" for s
    by (simp add: slack_def assms new_inner_def inner_slack_def chunk_room_def free_objects_def v of_size_def cm_ones_def
        new_chunk_manager_def manager_one_def chain_now_def)
  moreover have "ready P w"
    by (simp add: ready_def assms new_inner_def tables_there_def chunkless_def new_chunk_manager_def chain_now_def new_vec_def)
  ultimately show ?thesis by (simp add: covers_def block_ones_def)
qed

context environment
begin

lemma try_alloc_covers:
  assumes c: "covers E P bs w" and run: "try_alloc E n sz w = Some (r, w')" and sz: "0 < sz"
  shows "covers E P (case r of None \<Rightarrow> bs | Some p \<Rightarrow> (p, sz) # bs) w'"
proof -
  have b: "try_alloc_body E (allocator_at E n) sz w = Some (r, w')" and np: "\<not> panicked w'"
    using run by (auto simp: try_alloc_def settled_def split: option.splits if_splits)
  show ?thesis
    by (rule earns_covers [OF c depth.try_alloc_body_earns [OF b sz] np]) (use c sz in \<open>auto simp: covers_def split: option.splits\<close>)
qed

lemma dealloc_covers:
  assumes c: "covers E P bs w" and i: "i < length bs" and run: "dealloc E n (fst (bs ! i)) (snd (bs ! i)) w = Some w'"
  shows "covers E P (list_remove i bs) w'"
proof -
  have b: "dealloc_body E (allocator_at E n) (fst (bs ! i)) (snd (bs ! i)) w = Some w'" and np: "\<not> panicked w'"
    using run by (auto simp: dealloc_def settled_def split: option.splits if_splits)
  have "0 < snd (bs ! i)" using c i by (simp add: covers_def list_all_length)
  note e = depth.dealloc_body_earns [OF b this]
  show ?thesis
    by (rule earns_covers [OF c e np])
      (use c block_ones_remove [OF i] in \<open>auto simp: covers_def list_all_iff list_remove_def dest: in_set_takeD in_set_dropD\<close>)
qed

lemma use_allocator_covers:
  "use_allocator E n rs (bs, w) = Some (bs', w') \<Longrightarrow> covers E P bs w \<Longrightarrow> \<forall>sz. Request sz \<in> set rs \<longrightarrow> 0 < sz \<Longrightarrow>
    covers E P bs' w'"
proof (induction rs arbitrary: bs w)
  case (Cons r rs)
  show ?case
  proof (cases r)
    case (Request sz)
    obtain x w1 where t: "try_alloc E n sz w = Some (x, w1)" using Cons.prems(1) by (auto simp: Request split: option.splits)
    have "0 < sz" using Cons.prems(3) Request by simp
    note a = try_alloc_covers [OF Cons.prems(2) t this]
    show ?thesis
    proof (cases x)
      case None
      with Cons.prems t a show ?thesis by (intro Cons.IH [of bs w1]) (simp_all add: Request)
    next
      case (Some p)
      with Cons.prems t a show ?thesis by (intro Cons.IH [of "(p, sz) # bs" w1]) (simp_all add: Request)
    qed
  next
    case (Release i)
    obtain w1 where i: "i < length bs" and d: "dealloc E n (fst (bs ! i)) (snd (bs ! i)) w = Some w1"
      and rest: "use_allocator E n rs (list_remove i bs, w1) = Some (bs', w')"
      using Cons.prems(1) by (auto simp: Release bind_eq_Some_conv split: if_splits)
    from Cons.IH [OF rest dealloc_covers [OF Cons.prems(2) i d]] Cons.prems(3) show ?thesis by simp
  qed
qed simp

end

end
