(* ===== verification/ThreadEnd.thy ===== *)
theory ThreadEnd
  imports ThreadBalance Destructor
begin

text \<open>
  Why the destructor never takes a block from under a thread: it frees the chunks only when all their
  objects are free or the allocator's own, and then none is left that the thread could hold.
\<close>

section \<open>What the allocator counts for itself\<close>

definition used_le :: "UsedObjectsFixed \<Rightarrow> (usize \<Rightarrow> nat) \<Rightarrow> bool" where
  "used_le u f \<longleftrightarrow> used_len u \<le> length (used_arr u) \<and> sizes_sorted (used_entries u)
     \<and> (\<forall>e\<in>set (used_entries u). \<exists>n. fst e = Some n \<and> unat n \<le> f (snd e))"

lemma used_leE:
  assumes "used_le u f"
  obtains es rest where "used_arr u = es @ rest" "used_len u = length es" "used_entries u = es" "sizes_sorted es"
proof (rule that)
  show "used_arr u = used_entries u @ drop (used_len u) (used_arr u)" by (simp add: used_entries_def)
qed (use assms in \<open>auto simp: used_le_def used_entries_def\<close>)

lemma used_le_mono: "used_le u f \<Longrightarrow> (\<And>s. f s \<le> g s) \<Longrightarrow> used_le u g"
  unfolding used_le_def by (meson order_trans)

lemma new_used_le: "used_le (new_used N) (\<lambda>_. 0)"
  by (simp add: used_le_def new_used_def used_entries_def sizes_sorted_def)

lemma find_le:
  assumes "used_le u f" and "allocated_for_self_of_size u sz = Some m"
  shows "m \<le> f sz"
proof -
  obtain es rest where u: "used_arr u = es @ rest" "used_len u = length es" "used_entries u = es" "sizes_sorted es"
    using assms(1) by (rule used_leE)
  note bs = sizes_sorted_cases [OF u(4), of sz rest]
  show ?thesis
  proof (cases "binary_search (es @ rest) sz (length es)")
    case (Inr i)
    with bs obtain xs c ys where es: "es = xs @ (c, sz) # ys" "length xs = i" by auto
    then have "find_size sz u = Inr (c, sz)" using Inr u by (simp add: find_size_def nth_append)
    moreover obtain n where "c = Some n" "unat n \<le> f sz" using assms(1) u(3) es(1) by (auto simp: used_le_def)
    ultimately show ?thesis using assms(2) by (simp add: allocated_for_self_of_size_def)
  qed (use assms(2) u in \<open>simp add: allocated_for_self_of_size_def find_size_def\<close>)
qed

lemma write_le:
  assumes u: "used_le u f" and run: "write_used_number_and_size sz n u = Some u'"
  shows "used_le u' (\<lambda>s. f s + (if s = sz then unat n else 0))"
proof (cases "sz = 0 \<or> n = 0")
  case True
  with run have "u' = u" by (simp add: write_used_number_and_size_def)
  with used_le_mono [OF u] show ?thesis by simp
next
  case False
  obtain es rest where es: "used_arr u = es @ rest" "used_len u = length es" "used_entries u = es" "sizes_sorted es"
    using u by (rule used_leE)
  note bs = sizes_sorted_cases [OF es(4), of sz rest]
  have all: "\<forall>e\<in>set es. \<exists>n. fst e = Some n \<and> unat n \<le> f (snd e)" using u es(3) by (simp add: used_le_def)
  show ?thesis
  proof (cases "binary_search (es @ rest) sz (length es)")
    case (Inr i)
    with bs obtain xs c ys where e: "es = xs @ (c, sz) # ys" "length xs = i" by auto
    obtain m where m: "c = Some m" "unat m \<le> f sz" using all e(1) by auto
    have u': "u' = u\<lparr>used_arr := xs @ (Some (m + n), sz) # ys @ rest\<rparr>"
      using run Inr es(1,2) e m False by (simp add: write_used_number_and_size_def nth_append list_update_append)
    then have "used_entries u' = xs @ (Some (m + n), sz) # ys" using es(2) e(1) by (simp add: used_entries_def)
    moreover have "unat (m + n) \<le> f sz + unat n" using m(2) by (simp add: unat_word_ariths)
    moreover have "\<exists>n'. fst e = Some n' \<and> unat n' \<le> f (snd e) + (if snd e = sz then unat n else 0)" if "e \<in> set xs \<union> set ys" for e
      using all that \<open>es = _\<close> by (fastforce intro: le_trans [OF _ le_add1])
    ultimately show ?thesis using es(1,4) e(1) es(2) by (auto simp: used_le_def sizes_sorted_def u')
  next
    case (Inl i)
    with bs obtain xs ys where e: "es = xs @ ys" "length xs = i" "\<forall>e\<in>set xs. snd e < sz" "\<forall>e\<in>set ys. sz < snd e" by auto
    have "length es < length (es @ rest)" using run Inl es(1,2) False by (auto simp: write_used_number_and_size_def split: if_splits)
    then obtain z rest' where r: "rest = z # rest'" by (cases rest) auto
    have u': "u' = u\<lparr>used_arr := xs @ (Some n, sz) # ys @ rest', used_len := Suc (length es)\<rparr>"
      using run Inl es(1,2) e(1,2) False r ptr_copy_insert [of xs ys z rest' "(Some n, sz)"]
      by (auto simp: write_used_number_and_size_def)
    then have "used_entries u' = xs @ (Some n, sz) # ys" using e(1) by (simp add: used_entries_def)
    moreover have "\<exists>n'. fst e = Some n' \<and> unat n' \<le> f (snd e) + (if snd e = sz then unat n else 0)" if "e \<in> set xs \<union> set ys" for e
      using all that \<open>es = _\<close> by (fastforce intro: le_trans [OF _ le_add1])
    ultimately show ?thesis using es(4) e u' by (auto simp: used_le_def sizes_sorted_def sorted_wrt_append)
  qed
qed

text \<open>How many objects of a size the allocator itself holds: its vectors, boxes and the manager.\<close>

definition vectors_one :: "usize \<Rightarrow> 'a self_vec list \<Rightarrow> amount" where
  "vectors_one esz t s = (\<Sum>v\<leftarrow>t. vec_one esz v s)"

definition table_one :: "(addr \<times> addr self_vec list) option \<Rightarrow> amount" where
  "table_one b s = (case b of None \<Rightarrow> 0 | Some (_, t) \<Rightarrow> object_of (length t * size_of_vec) s + vectors_one 8 t s)"

definition own_objects :: "usize \<Rightarrow> inner \<Rightarrow> amount" where
  "own_objects n x s = vectors_one 8 (common_object_table x) s + vectors_one 8 (large_object_table x) s
     + table_one (common_chunk_table x) s + table_one (large_chunk_table x) s
     + cm_ones (chunk_manager x) s + manager_one n (non_local_ptr_manager_box x) s"

definition nodes_counted :: "SelfAllocatedMemory \<Rightarrow> amount" where
  "nodes_counted m s = of_size (int (snd (fst m))) (fst (fst m)) s + of_size (int (snd (snd m))) (fst (snd m)) s"

lemma vec_one_nonneg [simp]: "0 \<le> vec_one esz v s" by (simp add: vec_one_def)

lemma vectors_one_simps [simp]: "vectors_one esz [] s = 0" "vectors_one esz (v # t) s = vec_one esz v s + vectors_one esz t s"
  by (simp_all add: vectors_one_def)

text \<open>Counting up: what a step of \<open>allocated_for_self\<close> may add at a size of objects.\<close>

definition counts :: "usize \<Rightarrow> UsedObjectsFixed \<Rightarrow> int \<Rightarrow> bool" where
  "counts s u k \<longleftrightarrow> (\<exists>f. used_le u f \<and> int (f s) \<le> k)"

lemma counts_write:
  "counts s u k \<Longrightarrow> write_used_number_and_size sz n u = Some u' \<Longrightarrow> k + of_size (int (unat n)) sz s \<le> k' \<Longrightarrow> counts s u' k'"
  unfolding counts_def using write_le [of u _ sz n u'] by (fastforce simp: of_size_def)

lemma counts_le: "counts s u k \<Longrightarrow> k \<le> k' \<Longrightarrow> counts s u k'"
  unfolding counts_def by (meson order_trans)

lemma counts_vec:
  assumes "counts s u k" and "write_one (bytes_allocated esz v) u = Some u'" and s: "size_class_define s \<noteq> ExtraLarge"
  shows "counts s u' (k + vec_one esz v s)"
proof (cases "vec_cap v = 0")
  case True
  then have "bytes_allocated esz v = 0" by (simp add: bytes_allocated_def recommended_common layout_simps)
  with assms(1,2) True show ?thesis by (simp add: write_one_def write_used_number_and_size_def vec_one_def)
next
  case False
  have "of_size 1 (recommended_size (vec_cap v * esz)) s \<le> object_of (vec_cap v * esz) s"
    using s recommended_class [of "vec_cap v * esz"] by (auto simp: of_size_def object_of_def)
  with counts_write [OF assms(1), of "bytes_allocated esz v" 1 u'] assms(2) False show ?thesis
    by (simp add: write_one_def bytes_allocated_def vec_one_def)
qed

lemma counts_vectors:
  assumes "size_class_define s \<noteq> ExtraLarge"
  shows "counts s u k \<Longrightarrow> write_each (map (bytes_allocated esz) t) u = Some u' \<Longrightarrow> counts s u' (k + vectors_one esz t s)"
proof (induction t arbitrary: u k)
  case (Cons v t)
  obtain u1 where u1: "write_one (bytes_allocated esz v) u = Some u1" "write_each (map (bytes_allocated esz) t) u1 = Some u'"
    using Cons.prems(2) by (auto simp: bind_eq_Some_conv)
  from Cons.IH [OF counts_vec [OF Cons.prems(1) u1(1) assms] u1(2)] show ?case by (simp add: add.assoc)
qed simp

lemma counts_box:
  assumes "counts s u k" and "write_one (recommended_size sz) u = Some u'" and s: "size_class_define s \<noteq> ExtraLarge"
  shows "counts s u' (k + object_of sz s)"
proof -
  have "of_size 1 (recommended_size sz) s \<le> object_of sz s"
    using s recommended_class [of sz] by (auto simp: of_size_def object_of_def)
  with counts_write [OF assms(1), of "recommended_size sz" 1 u'] assms(2) show ?thesis by (simp add: write_one_def)
qed

lemma counts_table:
  assumes u: "counts s u k" and run: "write_chunk_table (m * size_of_vec) b u = Some u'" and s: "size_class_define s \<noteq> ExtraLarge"
    and m: "\<forall>p t. b = Some (p, t) \<longrightarrow> length t = m"
  shows "counts s u' (k + table_one b s)"
proof (cases b)
  case None
  with u run show ?thesis by (simp add: write_chunk_table_def table_one_def)
next
  case (Some pt)
  then obtain p t where b: "b = Some (p, t)" by (cases pt) simp
  obtain u1 where u1: "write_one (recommended_size (m * size_of_vec)) u = Some u1" "write_each (map (bytes_allocated 8) t) u1 = Some u'"
    using run b by (auto simp: write_chunk_table_def bind_eq_Some_conv)
  from counts_vectors [OF s counts_box [OF u u1(1) s] u1(2)] m b show ?thesis by (simp add: table_one_def add.assoc)
qed

lemma unat_of_nat_le: "unat (of_nat n :: 32 word) \<le> n"
  by (simp add: unat_of_nat)

lemma counted_for_self:
  assumes run: "allocated_for_self sz [] x = Some u" and x: "tables_there x" and s: "size_class_define s \<noteq> ExtraLarge"
  shows "counts s u (own_objects sz x s + nodes_counted (map_memory (allocated_large_sizes x)) s)"
proof -
  let ?m = "map_memory (allocated_large_sizes x)"
  obtain u1 u2 u3 u4 u5 u6 where r:
    "write_manager sz [] (non_local_ptr_manager_box x) (new_used MAX_NUMBER_OF_SELF_ALLOCATED_OBJECTS) = Some u1"
    "cm_write_allocated_memory (chunk_manager x) u1 = Some u2"
    "write_each (map (bytes_allocated 8) (common_object_table x)) u2 = Some u3"
    "write_chunk_table (COMMON_SIZE_TABLE_LEN * size_of_vec) (common_chunk_table x) u3 = Some u4"
    "write_each (map (bytes_allocated 8) (large_object_table x)) u4 = Some u5"
    "write_chunk_table (REAL_NUMBER_OF_LARGE_OBJECT_VECTORS * size_of_vec) (large_chunk_table x) u5 = Some u6"
    "write_nodes ?m u6 = Some u"
    using run by (auto simp: allocated_for_self_def bind_eq_Some_conv)
  have 0: "counts s (new_used MAX_NUMBER_OF_SELF_ALLOCATED_OBJECTS) 0" using new_used_le by (force simp: counts_def)
  have 1: "counts s u1 (manager_one sz (non_local_ptr_manager_box x) s)"
    using r(1) 0 counts_box [OF 0 _ s, of sz u1]
    by (auto simp: write_manager_def manager_one_def bind_eq_Some_conv split: option.splits if_splits)
  obtain v1 v2 where v: "write_one (bytes_allocated 8 (cm_free_large_chunks (chunk_manager x))) u1 = Some v1"
    "write_one (bytes_allocated 8 (cm_free_common_chunks (chunk_manager x))) v1 = Some v2"
    "write_one (bytes_allocated 16 (cm_regions (chunk_manager x))) v2 = Some u2"
    using r(2) by (auto simp: cm_write_allocated_memory_def write_one_def bind_eq_Some_conv)
  note 2 = counts_vec [OF counts_vec [OF counts_vec [OF 1 v(1) s] v(2) s] v(3) s]
  note 3 = counts_vectors [OF s 2 r(3)]
  have "\<forall>p t. common_chunk_table x = Some (p, t) \<longrightarrow> length t = COMMON_SIZE_TABLE_LEN"
    "\<forall>p t. large_chunk_table x = Some (p, t) \<longrightarrow> length t = REAL_NUMBER_OF_LARGE_OBJECT_VECTORS"
    using x by (simp_all add: tables_there_def)
  note 4 = counts_table [OF 3 r(4) s this(1)] and t6 = this(2)
  note 5 = counts_vectors [OF s 4 r(5)]
  note 6 = counts_table [OF 5 r(6) s t6]
  obtain v3 where v3: "write_used_number_and_size (fst (fst ?m)) (of_nat (snd (fst ?m))) u6 = Some v3"
    "write_used_number_and_size (fst (snd ?m)) (of_nat (snd (snd ?m))) v3 = Some u"
    using r(7) by (auto simp: write_nodes_def bind_eq_Some_conv)
  have le: "of_size (int (unat (of_nat n :: 32 word))) sz s \<le> of_size (int n) sz s" for n sz
    using unat_of_nat_le [of n] unfolding of_size_def by (simp only: of_nat_le_iff order_refl split: if_split) simp
  note 7 = counts_write [OF counts_write [OF 6 v3(1) order_refl] v3(2) order_refl]
  show ?thesis
    by (rule counts_le [OF 7]) (use le [of "snd (fst ?m)" "fst (fst ?m)"] le [of "snd (snd ?m)" "fst (snd ?m)"] in
      \<open>simp add: own_objects_def nodes_counted_def cm_ones_def\<close>)
qed

section \<open>What it means that nothing is in use\<close>

definition all_own :: "UsedObjectsFixed \<Rightarrow> usize \<Rightarrow> usize \<Rightarrow> addr self_vec \<Rightarrow> addr self_vec \<Rightarrow> bool" where
  "all_own u n sz c v \<longleftrightarrow> (\<exists>info. chunk_info u n sz c v = Some info \<and> objects_used info = allocated_for_self_objects info)"

lemma check_same: "info_next x it = info_next x it' \<Longrightarrow> check_sizes n x it = check_sizes n x it'"
  by (cases n) simp_all

lemma check_large:
  "check_sizes n x it = Some NothingInUse \<Longrightarrow> curr_iter it = LargeSize idx \<Longrightarrow> large_chunk_table x = Some (b, t) \<Longrightarrow>
    idx \<le> i \<Longrightarrow> i < REAL_NUMBER_OF_LARGE_OBJECT_VECTORS \<Longrightarrow>
    all_own (allocated_for_self_table it) LARGE_CHUNK_SIZE (REAL_LARGE_SIZES ! i) (t ! i) (large_object_table x ! i)"
proof (induction n arbitrary: it idx)
  case (Suc n)
  let ?u = "allocated_for_self_table it" and ?it = "it\<lparr>curr_iter := LargeSize (idx + 1)\<rparr>"
  have nx: "info_next x it = (if idx < length t \<and> idx < length (large_object_table x)
      then map_option (\<lambda>i. (Some (Large, i), ?it)) (chunk_info ?u LARGE_CHUNK_SIZE (REAL_LARGE_SIZES ! idx) (t ! idx) (large_object_table x ! idx))
      else None)"
    using Suc.prems by (subst info_next.simps) simp
  with Suc.prems(1) obtain info where i: "chunk_info ?u LARGE_CHUNK_SIZE (REAL_LARGE_SIZES ! idx) (t ! idx) (large_object_table x ! idx) = Some info"
    "objects_used info = allocated_for_self_objects info" "check_sizes n x ?it = Some NothingInUse"
    by (auto split: if_splits option.splits)
  show ?case
  proof (cases "i = idx")
    case False
    with Suc.IH [OF i(3), of "idx + 1"] Suc.prems show ?thesis by simp
  qed (use i in \<open>auto simp: all_own_def\<close>)
qed simp

lemma next_common:
  assumes "curr_iter it = CommonSize idx" and "common_chunk_table x = Some (b, t)"
  shows "idx < COMMON_SIZE_TABLE_LEN \<Longrightarrow> info_next x it =
      (if idx < length t \<and> idx < length (common_object_table x)
       then map_option (\<lambda>i. (Some (Common, i), it\<lparr>curr_iter := CommonSize (idx + 1)\<rparr>))
         (chunk_info (allocated_for_self_table it) COMMON_CHUNK_SIZE (8 * (idx + 1)) (t ! idx) (common_object_table x ! idx))
       else None)"
    and "large_chunk_table x \<noteq> None \<Longrightarrow> idx = COMMON_SIZE_TABLE_LEN \<Longrightarrow> info_next x it = info_next x (it\<lparr>curr_iter := LargeSize 0\<rparr>)"
proof -
  assume idx: "idx < COMMON_SIZE_TABLE_LEN"
  then have i: "common_index_of ((idx + 1) * 8) = idx"
    by (intro trans [OF common_index_eq]) (auto simp: layout_simps)
  show "info_next x it = (if idx < length t \<and> idx < length (common_object_table x)
       then map_option (\<lambda>i. (Some (Common, i), it\<lparr>curr_iter := CommonSize (idx + 1)\<rparr>))
         (chunk_info (allocated_for_self_table it) COMMON_CHUNK_SIZE (8 * (idx + 1)) (t ! idx) (common_object_table x ! idx))
       else None)"
    by (subst info_next.simps) (use assms idx i in \<open>simp add: mult.commute\<close>)
next
  assume "large_chunk_table x \<noteq> None" "idx = COMMON_SIZE_TABLE_LEN"
  with assms show "info_next x it = info_next x (it\<lparr>curr_iter := LargeSize 0\<rparr>)" by (subst info_next.simps) simp
qed

lemma check_common:
  "check_sizes n x it = Some NothingInUse \<Longrightarrow> curr_iter it = CommonSize idx \<Longrightarrow> common_chunk_table x = Some (b, t) \<Longrightarrow>
    idx \<le> COMMON_SIZE_TABLE_LEN \<Longrightarrow>
    (\<forall>i. idx \<le> i \<longrightarrow> i < COMMON_SIZE_TABLE_LEN \<longrightarrow>
       all_own (allocated_for_self_table it) COMMON_CHUNK_SIZE (8 * (i + 1)) (t ! i) (common_object_table x ! i))
    \<and> (large_chunk_table x \<noteq> None \<longrightarrow> (\<exists>n it'. check_sizes n x it' = Some NothingInUse \<and> curr_iter it' = LargeSize 0
         \<and> allocated_for_self_table it' = allocated_for_self_table it))"
proof (induction n arbitrary: it idx)
  case (Suc n)
  let ?u = "allocated_for_self_table it" and ?it = "it\<lparr>curr_iter := CommonSize (idx + 1)\<rparr>"
  note nx = next_common [OF Suc.prems(2,3)]
  show ?case
  proof (cases "idx = COMMON_SIZE_TABLE_LEN")
    case True
    have "check_sizes (Suc n) x (it\<lparr>curr_iter := LargeSize 0\<rparr>) = Some NothingInUse" if "large_chunk_table x \<noteq> None"
      using check_same [OF nx(2) [OF that True], of "Suc n"] Suc.prems(1) by (simp del: check_sizes.simps)
    then show ?thesis using True by (intro conjI impI exI [of _ "Suc n"] exI [of _ "it\<lparr>curr_iter := LargeSize 0\<rparr>"]) (simp_all del: check_sizes.simps)
  next
    case False
    then have lt: "idx < COMMON_SIZE_TABLE_LEN" using Suc.prems(4) by simp
    with Suc.prems(1) nx(1) obtain info where i: "chunk_info ?u COMMON_CHUNK_SIZE (8 * (idx + 1)) (t ! idx) (common_object_table x ! idx) = Some info"
      "objects_used info = allocated_for_self_objects info" "check_sizes n x ?it = Some NothingInUse"
      by (auto split: if_splits option.splits)
    have here: "all_own ?u COMMON_CHUNK_SIZE (8 * (idx + 1)) (t ! idx) (common_object_table x ! idx)"
      unfolding all_own_def using i(1,2) by blast
    from Suc.IH [OF i(3), of "idx + 1"] Suc.prems(3) lt have IH: "(\<forall>i. idx + 1 \<le> i \<longrightarrow> i < COMMON_SIZE_TABLE_LEN \<longrightarrow>
        all_own ?u COMMON_CHUNK_SIZE (8 * (i + 1)) (t ! i) (common_object_table x ! i))
      \<and> (large_chunk_table x \<noteq> None \<longrightarrow> (\<exists>n it'. check_sizes n x it' = Some NothingInUse \<and> curr_iter it' = LargeSize 0
         \<and> allocated_for_self_table it' = ?u))" by simp
    have "all_own ?u COMMON_CHUNK_SIZE (8 * (i + 1)) (t ! i) (common_object_table x ! i)" if "idx \<le> i" "i < COMMON_SIZE_TABLE_LEN" for i
      using IH here that by (cases "i = idx") auto
    with IH show ?thesis by blast
  qed
qed simp

text \<open>A verdict of nothing in use speaks of every slot of both tables.\<close>

lemma nothing_in_use:
  assumes run: "check_sizes n x it = Some NothingInUse" and it: "curr_iter it = first_iter x"
  shows "common_chunk_table x = Some (b, t) \<Longrightarrow> i < COMMON_SIZE_TABLE_LEN \<Longrightarrow>
      all_own (allocated_for_self_table it) COMMON_CHUNK_SIZE (slot_size True i) (t ! i) (common_object_table x ! i)"
    and "large_chunk_table x = Some (b, t) \<Longrightarrow> i < REAL_NUMBER_OF_LARGE_OBJECT_VECTORS \<Longrightarrow>
      all_own (allocated_for_self_table it) LARGE_CHUNK_SIZE (slot_size False i) (t ! i) (large_object_table x ! i)"
proof -
  assume c: "common_chunk_table x = Some (b, t)" and i: "i < COMMON_SIZE_TABLE_LEN"
  then have "curr_iter it = CommonSize 0" using it by (simp add: first_iter_def)
  from check_common [OF run this c] i
  show "all_own (allocated_for_self_table it) COMMON_CHUNK_SIZE (slot_size True i) (t ! i) (common_object_table x ! i)"
    by (simp add: slot_size_def)
next
  assume l: "large_chunk_table x = Some (b, t)" and i: "i < REAL_NUMBER_OF_LARGE_OBJECT_VECTORS"
  obtain m it' where m: "check_sizes m x it' = Some NothingInUse" "curr_iter it' = LargeSize 0"
    "allocated_for_self_table it' = allocated_for_self_table it"
  proof (cases "common_chunk_table x")
    case None
    then have "curr_iter it = LargeSize 0" using it l by (simp add: first_iter_def)
    with run that show thesis by blast
  next
    case (Some bt)
    then have "curr_iter it = CommonSize 0" using it by (simp add: first_iter_def)
    from check_common [OF run this, of "fst bt" "snd bt"] Some l that show thesis by auto
  qed
  from check_large [OF m(1,2) l _ i] m(3)
  show "all_own (allocated_for_self_table it) LARGE_CHUNK_SIZE (slot_size False i) (t ! i) (large_object_table x ! i)"
    by (simp add: slot_size_def)
qed

section \<open>No object is missing\<close>

abbreviation slots :: "bool \<Rightarrow> nat" where
  "slots c \<equiv> if c then COMMON_SIZE_TABLE_LEN else REAL_NUMBER_OF_LARGE_OBJECT_VECTORS"

lemma large_slot_size: "i < REAL_NUMBER_OF_LARGE_OBJECT_VECTORS \<Longrightarrow> COMMON_SIZE_MAX < slot_size False i"
proof -
  assume "i < REAL_NUMBER_OF_LARGE_OBJECT_VECTORS"
  then have "REAL_LARGE_SIZES ! i \<in> set REAL_LARGE_SIZES" by (intro nth_mem) (simp add: layout_simps REAL_LARGE_SIZES_list)
  moreover have "\<forall>x\<in>set REAL_LARGE_SIZES. COMMON_SIZE_MAX < x" by (simp add: REAL_LARGE_SIZES_list COMMON_SIZE_MAX_def)
  ultimately show ?thesis by (simp add: slot_size_def)
qed

lemma slot_size_eq:
  assumes "i < slots c" and "j < slots d"
  shows "slot_size c i = slot_size d j \<longleftrightarrow> c = d \<and> i = j"
proof -
  have small: "slot_size True k \<le> COMMON_SIZE_MAX" if "k < COMMON_SIZE_TABLE_LEN" for k
    using that by (simp add: slot_size_def layout_simps)
  have len: "length REAL_LARGE_SIZES = REAL_NUMBER_OF_LARGE_OBJECT_VECTORS" by (simp add: layout_simps REAL_LARGE_SIZES_list)
  have large: "slot_size False k = slot_size False l \<longleftrightarrow> k = l" if "k < REAL_NUMBER_OF_LARGE_OBJECT_VECTORS" "l < REAL_NUMBER_OF_LARGE_OBJECT_VECTORS" for k l
    using that sorted_REAL len by (auto simp: slot_size_def sorted_wrt_iff_nth_less) (metis less_irrefl nat_neq_iff)
  show ?thesis
    using assms small [of i] small [of j] large_slot_size [of i] large_slot_size [of j] large [of i j]
    by (cases c; cases d) (auto simp: slot_size_def)
qed

lemma sum_at_slot:
  fixes f :: "nat \<Rightarrow> int"
  assumes "i < slots c"
  shows "(\<Sum>j\<in>{..<slots d}. of_size (f j) (slot_size d j) (slot_size c i)) = (if c = d then f i else 0)"
proof -
  have "of_size (f j) (slot_size d j) (slot_size c i) = (if j = i then if c = d then f i else 0 else 0)" if "j \<in> {..<slots d}" for j
    using slot_size_eq [OF assms, of j d] that by (auto simp: of_size_def)
  then have "(\<Sum>j\<in>{..<slots d}. of_size (f j) (slot_size d j) (slot_size c i))
      = (\<Sum>j\<in>{..<slots d}. if j = i then if c = d then f i else 0 else 0)"
    by (rule sum.cong [OF refl])
  also have "\<dots> = (if c = d then f i else 0)"
    using assms by (cases "c = d") simp_all
  finally show ?thesis .
qed

lemma vectors_one_sum: "(\<Sum>i<length t. vec_one esz (t ! i) s) = vectors_one esz t s"
  unfolding vectors_one_def sum_list_sum_nth by (simp add: atLeast0LessThan)

lemma free_objects_at:
  assumes "length t = slots d" and "i < slots c"
  shows "free_objects d t (slot_size c i) = (if c = d then int (vec_len (t ! i)) else 0) + vectors_one 8 t (slot_size c i)"
  using sum_at_slot [OF assms(2), of "\<lambda>j. int (vec_len (t ! j))" d]
  by (simp add: free_objects_def sum.distrib vectors_one_sum flip: assms(1))

lemma chunk_room_at:
  assumes "\<forall>p t. b = Some (p, t) \<longrightarrow> length t = slots d" and "i < slots c"
  shows "chunk_room n d b (slot_size c i) =
    (case b of None \<Rightarrow> 0 | Some (_, t) \<Rightarrow> if c = d then int (vec_len (t ! i)) * int (n div slot_size c i) else 0) - table_one b (slot_size c i)"
proof (cases b)
  case (Some pt)
  then obtain p t where b: "b = Some (p, t)" by (cases pt) simp
  then have len: "length t = slots d" using assms(1) by simp
  show ?thesis
    using sum_at_slot [OF assms(2), of "\<lambda>j. int (vec_len (t ! j)) * int (n div slot_size c i)" d]
    by (simp add: b chunk_room_def table_one_def sum_subtractf vectors_one_sum flip: len)
qed (simp add: chunk_room_def table_one_def)

abbreviation object_vecs :: "bool \<Rightarrow> inner \<Rightarrow> addr self_vec list" where
  "object_vecs c x \<equiv> if c then common_object_table x else large_object_table x"

abbreviation chunk_vecs :: "bool \<Rightarrow> inner \<Rightarrow> (addr \<times> addr self_vec list) option" where
  "chunk_vecs c x \<equiv> if c then common_chunk_table x else large_chunk_table x"

abbreviation chunk_size_of :: "bool \<Rightarrow> nat" where
  "chunk_size_of c \<equiv> if c then COMMON_CHUNK_SIZE else LARGE_CHUNK_SIZE"

lemma inner_slack_at:
  assumes x: "tables_there x" and i: "i < slots c" and s: "s = slot_size c i"
  shows "inner_slack n x s =
    (case chunk_vecs c x of None \<Rightarrow> 0 | Some (_, t) \<Rightarrow> int (vec_len (t ! i)) * int (chunk_size_of c div s))
      - int (vec_len (object_vecs c x ! i)) - own_objects n x s"
proof -
  have len: "length (common_object_table x) = slots True" "length (large_object_table x) = slots False"
    "\<forall>p t. common_chunk_table x = Some (p, t) \<longrightarrow> length t = slots True"
    "\<forall>p t. large_chunk_table x = Some (p, t) \<longrightarrow> length t = slots False"
    using x by (simp_all add: tables_there_def)
  note at = free_objects_at [OF len(1) i] free_objects_at [OF len(2) i]
    chunk_room_at [OF len(3) i, of COMMON_CHUNK_SIZE] chunk_room_at [OF len(4) i, of LARGE_CHUNK_SIZE]
  show ?thesis
    unfolding s inner_slack_def own_objects_def
    using at by (cases c; cases "common_chunk_table x"; cases "large_chunk_table x") (auto simp: split_beta)
qed

lemma own_objects_nonneg: "0 \<le> own_objects n x s"
proof -
  have t: "0 \<le> vectors_one esz t s" for esz and t :: "'z self_vec list" by (induction t) simp_all
  have b: "0 \<le> table_one b s" for b by (auto simp: table_one_def t split: option.splits)
  show ?thesis
    unfolding own_objects_def by (intro add_nonneg_nonneg t b) (auto simp: cm_ones_def manager_one_def split: option.splits)
qed

text \<open>The objects of all chunks of a size, less the free ones, are no more than the allocator's own.\<close>

lemma all_own_room:
  assumes own: "all_own u n sz c v" and u: "counts sz u k" and k: "0 \<le> k" and fits: "n * vec_len c < 2 ^ 64" and sz: "0 < sz"
  shows "int (vec_len c) * int (n div sz) - int (vec_len v) \<le> k"
proof (cases "vec_len c * (n div sz) \<le> vec_len v")
  case True
  then have "int (vec_len c) * int (n div sz) \<le> int (vec_len v)" by (simp flip: of_nat_mult)
  with k show ?thesis by linarith
next
  case False
  let ?t = "n * vec_len c div sz"
  obtain m where m: "allocated_for_self_of_size u sz = Some m" "usize_of (usize_of (n * vec_len c) div sz + 2 ^ 64 - vec_len v) = m"
    using own by (auto simp: all_own_def chunk_info_def Let_def)
  obtain f where f: "used_le u f" "int (f sz) \<le> k" using u by (auto simp: counts_def)
  have mf: "int m \<le> k" using find_le [OF f(1) m(1)] f(2) by linarith
  have "vec_len c * (n div sz) * sz \<le> n * vec_len c"
    using mult_le_mono2 [OF div_times_less_eq_dividend [of n sz], of "vec_len c"] by (simp only: ac_simps)
  then have le: "vec_len c * (n div sz) \<le> ?t" using sz by (simp add: less_eq_div_iff_mult_less_eq)
  have "?t < 2 ^ 64" using fits by (rule le_less_trans [OF div_le_dividend])
  moreover have "?t + 2 ^ 64 - vec_len v = 2 ^ 64 + (?t - vec_len v)" using le False by linarith
  ultimately have "usize_of (?t + 2 ^ 64 - vec_len v) = ?t - vec_len v" by (simp only: mod_add_self1) (rule mod_less, linarith)
  moreover have "usize_of (n * vec_len c) = n * vec_len c" using fits by (rule mod_less)
  ultimately have "m = ?t - vec_len v" using m(2) by simp
  then have "int (vec_len c * (n div sz)) \<le> int m + int (vec_len v)" using le False by linarith
  with mf show ?thesis by simp
qed

text \<open>The lengths of the vectors are of type \<open>u32\<close> in the code.\<close>

definition lengths_fit :: "inner \<Rightarrow> bool" where
  "lengths_fit x \<longleftrightarrow>
     (\<forall>b t. common_chunk_table x = Some (b, t) \<longrightarrow> (\<forall>v\<in>set t. vec_len v < 2 ^ 32))
     \<and> (\<forall>b t. large_chunk_table x = Some (b, t) \<longrightarrow> (\<forall>v\<in>set t. vec_len v < 2 ^ 32))"

lemma block_ones_nonneg: "0 \<le> block_ones bs s"
  by (induction bs) (simp_all add: block_ones_def)

lemma coming_back_nonneg: "0 \<le> coming_back ds s"
  by (induction ds) (simp_all add: of_size_def)

lemma slot_class: "i < slots c \<Longrightarrow> size_class_define (slot_size c i) \<noteq> ExtraLarge \<and> 0 < slot_size c i"
proof -
  assume i: "i < slots c"
  have "\<forall>x\<in>set REAL_LARGE_SIZES. x \<le> LARGE_SIZE_MAX" by (simp add: REAL_LARGE_SIZES_list LARGE_SIZE_MAX_def)
  moreover have "\<not> c \<Longrightarrow> REAL_LARGE_SIZES ! i \<in> set REAL_LARGE_SIZES"
    using i by (intro nth_mem) (simp add: layout_simps REAL_LARGE_SIZES_list)
  ultimately show ?thesis
    using i large_slot_size [of i] by (cases c) (auto simp: slot_size_def class_iff layout_simps)
qed

lemma nothing_left:
  assumes run: "check_sizes n (x\<lparr>is_borrowed_for_unknown_time := True\<rparr>) it = Some NothingInUse" and it: "curr_iter it = first_iter x" "allocated_for_self_table it = u"
    and u: "allocated_for_self sz [] x = Some u" and x: "tables_there x" "lengths_fit x" and i: "i < slots c"
  shows "inner_slack sz x (slot_size c i) \<le> nodes_counted (map_memory (allocated_large_sizes x)) (slot_size c i)"
proof -
  let ?s = "slot_size c i" and ?m = "nodes_counted (map_memory (allocated_large_sizes x)) (slot_size c i)"
  have s: "size_class_define ?s \<noteq> ExtraLarge" "0 < ?s" using slot_class [OF i] by simp_all
  have m: "0 \<le> ?m" by (simp add: nodes_counted_def of_size_def)
  note own = own_objects_nonneg [of sz x ?s]
  note k = counted_for_self [OF u x(1) s(1)]
  have room: "int (vec_len (t ! i)) * int (chunk_size_of c div ?s) - int (vec_len (object_vecs c x ! i)) \<le> own_objects sz x ?s + ?m"
    if t: "chunk_vecs c x = Some (p, t)" for p t
  proof (rule all_own_room [OF _ k _ _ s(2)])
    show "all_own u (chunk_size_of c) ?s (t ! i) (object_vecs c x ! i)"
      using nothing_in_use [OF run, of p t i] it t i by (cases c) (simp_all add: first_iter_def)
    have "length t = slots c" using x(1) t by (cases c) (simp_all add: tables_there_def)
    then have "vec_len (t ! i) < 2 ^ 32" using x(2) t i by (cases c) (auto simp: lengths_fit_def)
    then show "chunk_size_of c * vec_len (t ! i) < 2 ^ 64" by (simp add: layout_simps)
  qed (use own m in simp)
  show ?thesis
  proof (cases "chunk_vecs c x")
    case None
    show ?thesis unfolding inner_slack_at [OF x(1) i refl] None option.case using own m by linarith
  next
    case (Some pt)
    then obtain p t where t: "chunk_vecs c x = Some (p, t)" by (cases pt) simp
    show ?thesis unfolding inner_slack_at [OF x(1) i refl] t option.case prod.case using room [OF t] by linarith
  qed
qed

section \<open>The end of a thread\<close>

text \<open>What the nodes of the map are counted as is no more than the blocks they have.\<close>

definition nodes_fit :: "('k, 'n) world \<Rightarrow> bool" where
  "nodes_fit w \<longleftrightarrow> (\<forall>s. nodes_counted (map_memory (allocated_large_sizes (inner w))) s \<le> block_ones (node_memory w) s)"

lemma object_slot:
  assumes "0 < sz" and "size_class_define sz \<noteq> ExtraLarge"
  obtains c i where "i < slots c" and "slot_size c i = recommended_size sz"
proof (cases "size_class_define sz")
  case Common
  from common_slot [OF assms(1) Common] that [of _ True] show thesis by simp
next
  case Large
  from large_slot [OF Large] that [of _ False] show thesis by simp
qed (use assms in simp)

lemma nothing_held:
  assumes c: "covers E P bs w" and m: "maybe_state w = None" and fit: "lengths_fit (inner w)" "nodes_fit w"
    and run: "check_sizes n ((inner w)\<lparr>is_borrowed_for_unknown_time := True\<rparr>) it = Some NothingInUse" and it: "curr_iter it = first_iter (inner w)" "allocated_for_self_table it = u"
    and u: "allocated_for_self (size_of_nlpm E) [] (inner w) = Some u" and b: "b \<in> set bs"
  shows "size_class_define (snd b) = ExtraLarge"
proof (rule ccontr)
  assume xl: "size_class_define (snd b) \<noteq> ExtraLarge"
  have "0 < snd b" using c b by (simp add: covers_def list_all_iff)
  then obtain cl i where i: "i < slots cl" "slot_size cl i = recommended_size (snd b)" using xl by (rule object_slot)
  let ?s = "slot_size cl i"
  have t: "tables_there (inner w)" using c by (simp add: covers_def ready_def)
  have "inner_slack (size_of_nlpm E) (inner w) ?s \<le> block_ones (node_memory w) ?s"
    using order_trans [OF nothing_left [OF run it u t fit(1) i(1)]] fit(2) by (simp add: nodes_fit_def)
  then have "slack E P w ?s \<le> 0" using coming_back_nonneg [of "P (nl w)" ?s] by (simp add: slack_def chain_now_def m)
  moreover obtain j where j: "j < length bs" "bs ! j = b" using b by (auto simp: in_set_conv_nth)
  have "object_of (snd b) ?s \<le> block_ones bs ?s"
    using block_ones_remove [OF j(1), of ?s] block_ones_nonneg [of "list_remove j bs" ?s] j(2) by simp
  moreover have "object_of (snd b) ?s = 1" using xl i(2) by (simp add: object_of_def)
  moreover have "block_ones bs ?s \<le> slack E P w ?s" using c by (simp add: covers_def)
  ultimately show False by linarith
qed

lemma regions_few:
  assumes "own E M P [] w u"
  shows "length (vec_elems (cm_regions (chunk_manager (inner w)))) < 2 ^ 40"
    and "\<forall>v\<in>set (vec_elems (cm_regions (chunk_manager (inner w)))). is_region (view_ptr v)"
proof -
  let ?rs = "map view_ptr (vec_elems (cm_regions (chunk_manager (inner w))))"
  have live: "map fst (live [] w) = ?rs" by (simp add: live_def)
  have reg: "is_region r" if "r \<in> set ?rs" for r
  proof -
    have "r \<in> fst ` set (live [] w)" using that live by (metis list.set_map)
    then obtain n where "(r, n) \<in> set (live [] w)" by auto
    then show ?thesis using assms by (auto simp: own_def list_all_iff region_owned_def)
  qed
  then show "\<forall>v\<in>set (vec_elems (cm_regions (chunk_manager (inner w)))). is_region (view_ptr v)" by auto
  have once: "chunks_count ?rs COMMON_CHUNK_SIZE a \<le> 1" for a
  proof -
    have "bytes E P [] w u False a + bytes E P [] w u True a \<le> 1"
      using assms by (auto simp: own_def owned_once_def dest!: spec [of _ a] split: if_splits)
    then show ?thesis by (simp add: bytes_def first_chunks_def live in_regions_def)
  qed
  have d: "distinct rs" if "\<And>a. chunks_count rs COMMON_CHUNK_SIZE a \<le> 1" for rs
    using that
  proof (induction rs)
    case (Cons r rs)
    have "occ r COMMON_CHUNK_SIZE r = 1" by (simp add: occ_def layout_simps)
    then have "chunks_count rs COMMON_CHUNK_SIZE r = 0" using Cons.prems [of r] by simp
    moreover have "0 < chunks_count qs COMMON_CHUNK_SIZE r" if "r \<in> set qs" for qs
      using that by (induction qs) (auto simp: occ_def layout_simps)
    moreover have "chunks_count rs COMMON_CHUNK_SIZE a \<le> 1" for a using Cons.prems [of a] by simp
    ultimately show ?case using Cons.IH by fastforce
  qed simp
  have e: "REGION_SIZE = 2 ^ 25" by (simp add: layout_simps)
  have "inj_on (\<lambda>r. r div 2 ^ 25) (set ?rs)"
  proof (rule inj_onI)
    fix r q assume m: "r \<in> set ?rs" "q \<in> set ?rs" and eq: "r div 2 ^ 25 = q div 2 ^ 25"
    have "2 ^ 25 dvd r" "2 ^ 25 dvd q" using reg [OF m(1)] reg [OF m(2)] by (simp_all only: is_region_def e)
    then show "r = q" using eq by (metis dvd_div_mult_self)
  qed
  then have "length ?rs = card ((\<lambda>r. r div 2 ^ 25) ` set ?rs)"
    using d [OF once] by (simp only: card_image distinct_card)
  moreover have "(\<lambda>r. r div 2 ^ 25) ` set ?rs \<subseteq> {..< 2 ^ 39}"
  proof -
    have "r div 2 ^ 25 < 2 ^ 39" if "is_region r" for r
      using that by (intro div_less_iff_less_mult [THEN iffD2]) (simp_all add: is_region_def e)
    then show ?thesis using reg by auto
  qed
  ultimately have "length ?rs \<le> 2 ^ 39" by (metis card_lessThan card_mono finite_lessThan)
  then show "length (vec_elems (cm_regions (chunk_manager (inner w)))) < 2 ^ 40" by simp
qed

text \<open>Freeing everything leaves the extra-large blocks of the thread alone.\<close>

lemma free_everything_keeps:
  assumes a: "accounts E M P bs w" and xl: "\<forall>b\<in>set bs. size_class_define (snd b) = ExtraLarge"
    and run: "free_everything E D n w = Some w'" and np: "\<not> panicked w'" and b: "b \<in> set bs"
  shows "block_range b \<subseteq> M (kern (os (proc w')))"
proof -
  have m: "maybe_state w = None" using a by (simp add: accounts_def)
  then have w: "w\<lparr>maybe_state := None\<rparr> = w" by simp
  obtain q w1 where "without_state (get_or_init_non_local_ptr_manager E (allocator_at E n)) w = Some (q, w1)"
    and rest: "map_option (\<lambda>(cm, p). w1\<lparr>nl := self_drop D (nl w1), inner := (set_deallocated (force_null ((inner w1)\<lparr>chunk_manager := cm\<rparr>)))
        \<lparr>is_destructor_registered := False\<rparr>, proc := p, node_memory := []\<rparr>)
      (free_all_memory (env_libc E) (env_kernel E) (chunk_manager (inner w1), proc w1)) = Some w'"
    using run by (auto simp: free_everything_def Let_def bind_eq_Some_conv)
  then obtain w2 where g: "get_or_init_non_local_ptr_manager E (allocator_at E n) w = Some (q, w2)" and w1: "w1 = w2\<lparr>maybe_state := None\<rparr>"
    by (auto simp: without_state_def w m)
  obtain cm p where f: "free_all_memory (env_libc E) (env_kernel E) (chunk_manager (inner w1), proc w1) = Some (cm, p)"
    and w': "proc w' = p" "panicked w' = panicked w1" using rest by auto
  have np2: "\<not> panicked w2" using np w' by (simp add: w1)
  have "accounts E M P bs w2"
    by (rule goes_accounts [OF a at.get_or_init_goes [OF g, where u = "blocks bs"]]) (use a np2 in \<open>auto simp: accounts_def\<close>)
  moreover have "w1 = w2" using \<open>accounts E M P bs w2\<close> by (simp add: w1 accounts_def)
  ultimately have a1: "accounts E M P bs w1" by simp
  then have o: "own E M P [] w1 (blocks bs)" by (simp add: accounts_def)
  have K: "kernel_ok (env_libc E) (env_kernel E) M" "kernel_huge_ok (env_libc E) (env_kernel E) M"
    "libc_ok (env_libc E)" "libc_huge_ok (env_libc E)" using o by (simp_all add: own_def env_ok_def)
  have "vec_len (cm_regions (chunk_manager (inner w1))) < 2 ^ 40" using regions_few(1) [OF o] by (simp add: vec_len_def)
  note mapped = free_all_memory_facts(1) [OF K regions_few(2) [OF o] this f]
  show ?thesis
  proof
    fix x assume x: "x \<in> block_range b"
    obtain i where i: "i < length bs" "bs ! i = b" using b by (auto simp: in_set_conv_nth)
    have "block (fst b) (snd b) True x = 1"
      using block_at [OF x] xl b by (auto simp: block_xl split: if_splits)
    then have "1 \<le> blocks bs True x" using blocks_nth [OF i(1), of True x] i(2) by simp
    then have used: "0 < bytes E P [] w1 (blocks bs) True x" by (simp add: bytes_def)
    have "x \<notin> range_of (view_ptr v) REGION_SIZE" if v: "v \<in> set (vec_elems (cm_regions (chunk_manager (inner w1))))" for v
    proof -
      have "(view_ptr v, number_of_common_chunks_occupied v) \<in> set (live [] w1)" using v by (simp add: live_def)
      then have "region_owned (mapped_now M w1) (bytes E P [] w1 (blocks bs)) (view_ptr v, number_of_common_chunks_occupied v)"
        using o by (simp add: own_def list_all_iff)
      then show ?thesis using used by (auto simp: region_owned_def)
    qed
    moreover have "x \<in> mapped_now M w1" using accounts_disjoint(1) [OF a1] b x by blast
    ultimately show "x \<in> M (kern (os (proc w')))" using mapped by (auto simp: w'(1))
  qed
qed

lemma thread_end:
  assumes a: "accounts E M P bs w" and c: "covers E P bs w" and own: "self_allocated_memory D (nl w) = []"
    and fit: "lengths_fit (inner w)" "nodes_fit w" and run: "try_free_all_memory E D n w = Some (ok, w')"
  shows "(\<forall>b\<in>set bs. block_range b \<subseteq> M (kern (os (proc w')))) \<and> (w' = w \<or> (\<forall>b\<in>set bs. size_class_define (snd b) = ExtraLarge))"
proof -
  let ?x = "(inner w)\<lparr>is_borrowed_for_unknown_time := True\<rparr>"
  have flags: "\<not> is_already_destructured (inner w)" "\<not> is_borrowed_for_unknown_time (inner w)"
    using run by (auto simp: try_free_all_memory_def split: if_splits)
  obtain u where u: "allocated_for_self (size_of_nlpm E) [] (inner w) = Some u"
    using run flags own by (cases "allocated_for_self (size_of_nlpm E) [] (inner w)") (auto simp: try_free_all_memory_def info_iter_new_def)
  let ?it = "\<lparr>allocated_for_self_table = u, curr_iter = first_iter (inner w)\<rparr>"
  have same: "w\<lparr>inner := info_iter_drop ?x\<rparr> = w" using flags by (simp add: info_iter_drop_def)
  obtain v where v: "check_sizes (iteration_bound ?x) ?x ?it = Some v"
    and out: "case v of FoundExtraLarge \<Rightarrow> (ok, w') = (True, w) | FoundInUse \<Rightarrow> (ok, w') = (False, w)
      | NothingInUse \<Rightarrow> settled (map_option (Pair True) (free_everything E D n w)) = Some (ok, w')"
    using run flags u own by (auto simp: try_free_all_memory_def info_iter_new_def same Let_def split: option.splits verdict.splits)
  have keep: "block_range b \<subseteq> M (kern (os (proc w)))" if "b \<in> set bs" for b
    using accounts_disjoint(1) [OF a] that by blast
  show ?thesis
  proof (cases v)
    case NothingInUse
    have m: "maybe_state w = None" using a by (simp add: accounts_def)
    have xl: "\<forall>b\<in>set bs. size_class_define (snd b) = ExtraLarge"
      using nothing_held [OF c m fit, of _ ?it u] v NothingInUse u by simp
    have f: "free_everything E D n w = Some w'" "\<not> panicked w'" using out NothingInUse by (auto simp: settled_def split: option.splits if_splits)
    from free_everything_keeps [OF a xl f] xl show ?thesis by blast
  qed (use out keep in auto)
qed

end
