(* ===== verification/ThreadLife.thy ===== *)
theory ThreadLife
  imports ThreadEnd
begin

text \<open>
  The life of a thread from its first request to its end (\<open>thread_local_allocator.rs\<close>, \<open>try_free_all_memory\<close>
  at the end of the thread): no block it holds is ever unmapped. The world at the end of the file, with chunks of
  64, 1408 and 2048 bytes, shows that the hypotheses can hold.
\<close>

section \<open>A whole thread\<close>

text \<open>C2: a thread allocates and frees blocks of all sizes, then its end asks to free everything. If one of the
  blocks it still holds is not an extra-large one, the request changes nothing; whatever it answers, every block
  held stays mapped. The objects the source counts as its own are never too few: the blocks of the boxes and
  vectors that hold its tables, and of the nodes of its map, were taken from the same objects. The run starts
  anywhere the books balance (\<open>accounts\<close>, \<open>covers\<close>), as a new thread does (\<open>fresh_accounts\<close>,
  \<open>fresh_covers\<close>); the counters of the map do not exceed its nodes, and the vectors of chunks have fewer than
  \<open>2 ^ 32\<close> elements, so that the products of the source do not wrap. The manager of non-local pointers holds no
  memory of its own, as the lock-free one of the source does.\<close>

theorem thread_end_keeps_blocks:
  assumes start: "accounts E M P bs w" "covers E P bs w"
    and sizes: "\<forall>sz. Request sz \<in> set rs \<longrightarrow> 0 < sz"
    and life: "use_allocator E n rs (bs, w) = Some (bs', w')"
    and own: "self_allocated_memory D (nl w') = []" and fit: "lengths_fit (inner w')" "nodes_fit w'"
    and ending: "try_free_all_memory E D m w' = Some (ok, w'')"
  shows "(\<forall>b\<in>set bs'. block_range b \<subseteq> M (kern (os (proc w''))))
    \<and> (w'' = w' \<or> (\<forall>b\<in>set bs'. size_class_define (snd b) = ExtraLarge))"
proof -
  have env: "env_ok E M P" using start(1) by (simp add: accounts_def own_def)
  note covers = environment.use_allocator_covers [OF environment.intro [OF env] life start(2) sizes]
  note accounts = use_allocator_accounts [OF life start(1) sizes]
  show ?thesis by (rule thread_end [OF accounts covers own fit ending])
qed

section \<open>How much the allocator writes down for itself\<close>

lemma write_each_ready:
  "used_ready k u \<Longrightarrow> k + length (filter ((\<noteq>) 0) xs) < 100 \<Longrightarrow>
    \<exists>u'. write_each xs u = Some u' \<and> used_ready (k + length (filter ((\<noteq>) 0) xs)) u'"
proof (induction xs arbitrary: k u)
  case (Cons sz xs)
  show ?case
  proof (cases "sz = 0")
    case False
    then obtain u1 where "write_one sz u = Some u1" "used_ready (Suc k) u1" using write_ready [OF Cons.prems(1), of sz] Cons.prems(2) by auto
    with Cons.IH [of "Suc k" u1] Cons.prems(2) False show ?thesis by auto
  qed (use Cons in simp)
qed simp

lemma filter_update_le: "length (filter P (xs[i := v])) \<le> Suc (length (filter P xs))"
  by (induction xs arbitrary: i) (auto split: nat.splits intro: le_SucI)

text \<open>What is written, when the map is empty.\<close>

definition own_sizes :: "usize \<Rightarrow> inner \<Rightarrow> usize list" where
  "own_sizes n x =
     (case non_local_ptr_manager_box x of None \<Rightarrow> [] | Some _ \<Rightarrow> [recommended_size n])
     @ [bytes_allocated 8 (cm_free_large_chunks (chunk_manager x)), bytes_allocated 8 (cm_free_common_chunks (chunk_manager x)),
        bytes_allocated 16 (cm_regions (chunk_manager x))]
     @ map (bytes_allocated 8) (common_object_table x)
     @ (case common_chunk_table x of None \<Rightarrow> [] | Some (_, t) \<Rightarrow> recommended_size (COMMON_SIZE_TABLE_LEN * size_of_vec) # map (bytes_allocated 8) t)
     @ map (bytes_allocated 8) (large_object_table x)
     @ (case large_chunk_table x of None \<Rightarrow> [] | Some (_, t) \<Rightarrow>
          recommended_size (REAL_NUMBER_OF_LARGE_OBJECT_VECTORS * size_of_vec) # map (bytes_allocated 8) t)"

lemma allocated_for_self_sizes:
  assumes "allocated_large_sizes x = new_map" and "n \<noteq> 0"
  shows "allocated_for_self n [] x = write_each (own_sizes n x) (new_used MAX_NUMBER_OF_SELF_ALLOCATED_OBJECTS)"
proof -
  have w: "write_each [] = Some" "write_each (s # ss) = (\<lambda>u. Option.bind (write_used_number_and_size s 1 u) (write_each ss))"
    "write_each (ss @ ts) = (\<lambda>u. Option.bind (write_each ss u) (write_each ts))" "write_nodes ((0, 0), 0, 0) = Some" for s ss ts
    by (auto simp: write_one_def write_each_append write_nodes_def)
  from assms show ?thesis
    by (simp add: allocated_for_self_def own_sizes_def write_manager_def cm_write_allocated_memory_def write_chunk_table_def w write_one_def
        del: write_each.simps split: option.splits prod.splits)
qed

lemma few_own_sizes:
  assumes "allocated_large_sizes x = new_map" and "n \<noteq> 0" and "length (filter ((\<noteq>) 0) (own_sizes n x)) < 100"
  obtains u where "allocated_for_self n [] x = Some u" and "used_ready (length (filter ((\<noteq>) 0) (own_sizes n x))) u"
  using write_each_ready [OF used_ready_0, of "own_sizes n x"] assms by (auto simp: allocated_for_self_sizes)


section \<open>A thread with chunks\<close>

definition chunk_one :: "addr \<Rightarrow> addr \<Rightarrow> addr self_vec" where
  "chunk_one p c = \<lparr>vec_ptr = p, vec_elems = [c], vec_cap = 8\<rparr>"

definition chunked_inner :: inner where
  "chunked_inner = new_inner\<lparr>
     common_chunk_table := Some (4608, (replicate COMMON_SIZE_TABLE_LEN new_vec)[7 := chunk_one 4352 65536]),
     large_chunk_table := Some (6656, (replicate REAL_NUMBER_OF_LARGE_OBJECT_VECTORS new_vec)
       [5 := chunk_one 4416 1048576, 15 := chunk_one 4480 2097152])\<rparr>"

lemma table_sizes:
  "COMMON_SIZE_TABLE_LEN * size_of_vec = 2048" "REAL_NUMBER_OF_LARGE_OBJECT_VECTORS * size_of_vec = 1408"
  "recommended_size 64 = 64" "recommended_size 2048 = 2048" "recommended_size 1408 = 1408"
  "size_class_define 64 = Common" "size_class_define 2048 = Large" "size_class_define 1408 = Large"
proof -
  have "1408 \<in> set REAL_LARGE_SIZES" by (simp add: REAL_LARGE_SIZES_list)
  have r: "COMMON_SIZE_MAX < (1408::nat)" "(1408::nat) \<le> LARGE_SIZE_MAX" by (simp_all add: layout_simps)
  from large_real_facts(1) [OF r] large_real_facts(4) [OF r \<open>1408 \<in> _\<close> order_refl]
  show "recommended_size 1408 = 1408" by (simp add: recommended_large [OF r])
  show "recommended_size 64 = 64" "recommended_size 2048 = 2048"
    using recommended_pow2 [of 6] recommended_pow2 [of 11] by (simp_all add: layout_simps)
qed (simp_all add: layout_simps size_of_vec_def class_iff)

lemma chunked_accounts: "accounts lone_env (\<lambda>m. m) (\<lambda>_. []) [] (page_world chunked_inner 8192 [4096, 4160])"
proof -
  let ?c = "replicate COMMON_SIZE_TABLE_LEN (new_vec :: addr self_vec)"
    and ?l = "replicate REAL_NUMBER_OF_LARGE_OBJECT_VECTORS (new_vec :: addr self_vec)"
  have 0: "vec_blocks (replicate m new_vec) k a = 0" "vec_block 8 new_vec k a = 0" for m k a
    by (simp_all add: vec_blocks_def vec_block_def new_vec_def)
  have n: "?c ! 7 = new_vec" "?l ! 5 = new_vec" "?l[5 := v] ! 15 = new_vec" "7 < length ?c" "5 < length ?l" "15 < length (?l[5 := v])" for v
    by (simp_all add: layout_simps)
  have v: "vec_blocks (?c[7 := v]) k a = vec_block 8 v k a" "vec_blocks (?l[5 := v, 15 := u]) k a = vec_block 8 v k a + vec_block 8 u k a" for v u k a
    using vec_blocks_update [OF n(4), of v k a] vec_blocks_update [OF n(5), of v k a] vec_blocks_update [OF n(6), of v u k a]
    by (simp_all add: n 0)
  have b: "vec_block 8 (chunk_one p x) k a = in_regions (occ p 64) k a" "block p 2048 k a = in_regions (occ p 2048) k a"
    "block p 1408 k a = in_regions (occ p 1408) k a" for p x k a
    by (simp_all add: vec_block_def chunk_one_def block_def owned_size_def table_sizes in_regions_def)
  have "owned_once (range_of 4096 8192) (\<lambda>k a. page_bytes k a + chunk_table (common_chunk_table chunked_inner) k a
      + chunk_table (large_chunk_table chunked_inner) k a)"
    by (auto simp: owned_once_def page_bytes_def chunk_table_def chunked_inner_def v b table_sizes in_regions_def occ_def range_of_def)
  from page_accounts [OF _ this] show ?thesis by (simp add: shaped_def chunked_inner_def new_inner_def new_chunk_manager_def new_vec_def)
qed


lemma chunk_room_replace:
  assumes "i < length t"
  shows "chunk_room n common (Some (p, t[i := v])) s + (int (vec_len (t ! i)) * of_size (int (n div s)) (slot_size common i) s + vec_one 8 v s)
    = chunk_room n common (Some (p, t)) s + (int (vec_len v) * of_size (int (n div s)) (slot_size common i) s + vec_one 8 (t ! i) s)"
  using chunk_room_update [OF refl assms, where n = n and common = common and p = p and v = v and s = s] by (simp add: put_in_box_def of_size_def left_diff_distrib)

lemma chunked_covers: "covers lone_env (\<lambda>_. []) [] (page_world chunked_inner 8192 [4096, 4160])"
proof -
  let ?c = "replicate COMMON_SIZE_TABLE_LEN (new_vec :: addr self_vec)"
    and ?l = "replicate REAL_NUMBER_OF_LARGE_OBJECT_VECTORS (new_vec :: addr self_vec)"
    and ?w = "page_world chunked_inner 8192 [4096, 4160]"
  have z: "vec_one n (new_vec :: 'x self_vec) s = 0" "vec_len (new_vec :: 'x self_vec) = 0" for s n
    by (simp_all add: vec_one_def vec_len_def new_vec_def)
  have n: "?c ! 7 = new_vec" "?l ! 5 = new_vec" "?l[5 := v] ! 15 = new_vec" "7 < length ?c" "5 < length ?l" "15 < length (?l[5 := v])" for v
    by (simp_all add: layout_simps)
  have e: "free_objects c (replicate m new_vec) s = 0" "chunk_room k c (Some (p, replicate m new_vec)) s = - object_of (m * size_of_vec) s" for c m s k p
    by (auto simp: free_objects_def chunk_room_def z of_size_def intro!: sum.neutral)
  have v: "vec_one 8 (chunk_one p x) s = object_of 64 s" "vec_len (chunk_one p x) = 1" "vec_one 8 (page_vec xs) s = object_of 64 s"
    "vec_len (page_vec xs) = length xs" for p x s xs
    by (simp_all add: vec_one_def vec_len_def chunk_one_def page_vec_def)
  have slots: "slot_size True 7 = 64" "slot_size False 5 = 1408" "slot_size False 15 = 2048"
    by (simp_all add: slot_size_def REAL_LARGE_SIZES_list)
  have c: "chunk_room COMMON_CHUNK_SIZE True (common_chunk_table chunked_inner) s
      = of_size (int (COMMON_CHUNK_SIZE div s)) 64 s - object_of 64 s - object_of 2048 s" for s
    using chunk_room_replace [OF n(4), where n = COMMON_CHUNK_SIZE and common = True and p = 4608 and v = "chunk_one 4352 65536" and s = s]
    by (simp add: chunked_inner_def n(1) z e v slots table_sizes)
  have l: "chunk_room LARGE_CHUNK_SIZE False (large_chunk_table chunked_inner) s
      = of_size (int (LARGE_CHUNK_SIZE div s)) 1408 s + of_size (int (LARGE_CHUNK_SIZE div s)) 2048 s - 2 * object_of 64 s - object_of 1408 s" for s
    using chunk_room_replace [OF n(5), where n = LARGE_CHUNK_SIZE and common = False and p = 6656 and v = "chunk_one 4416 1048576" and s = s]
      chunk_room_replace [OF n(6) [of "chunk_one 4416 1048576"], where n = LARGE_CHUNK_SIZE and common = False and p = 6656 and v = "chunk_one 4480 2097152" and s = s]
    by (simp add: chunked_inner_def n(2,3) z e v slots table_sizes)
  have f: "free_objects True (common_object_table (inner ?w)) s = of_size 2 64 s + object_of 64 s" for s
    using free_objects_update [OF n(4), of True "page_vec [4096, 4160]" s] by (simp add: page_world_def n(1) z e v slots)
  have o: "object_of sz s = of_size 1 sz s" if "sz = 64 \<or> sz = 1408 \<or> sz = 2048" for sz s
    using that by (auto simp: object_of_def of_size_def table_sizes)
  have "0 \<le> slack lone_env (\<lambda>_. []) ?w s" for s
  proof -
    have "slack lone_env (\<lambda>_. []) ?w s = of_size (int (COMMON_CHUNK_SIZE div s)) 64 s + of_size (int (LARGE_CHUNK_SIZE div s)) 1408 s
        + of_size (int (LARGE_CHUNK_SIZE div s)) 2048 s - 7 * of_size 1 64 s - of_size 1 1408 s - of_size 1 2048 s"
      using f [of s] c [of s] l [of s]
      by (simp add: slack_def inner_slack_def page_world_def chunked_inner_def new_inner_def e cm_ones_def new_chunk_manager_def z manager_one_def
          lone_env_def chain_now_def chain_slack_def block_ones_def coming_back_def o) (simp add: of_size_def)
    then show ?thesis by (simp add: of_size_def layout_simps)
  qed
  moreover have "ready (\<lambda>_. []) ?w"
    by (simp add: ready_def tables_there_def both_tables_def page_world_def chunked_inner_def new_inner_def chain_now_def)
  ultimately show ?thesis by (simp add: covers_def block_ones_def)
qed

lemma chunked_few:
  "length (filter ((\<noteq>) 0) (own_sizes n (inner (page_world chunked_inner 8192 [])))) \<le> 12"
proof -
  have b: "bytes_allocated 8 (new_vec :: addr self_vec) = 0" by (simp add: bytes_new_vec)
  have up: "length (filter ((\<noteq>) 0) (map (bytes_allocated 8) (t[i := v]))) \<le> Suc (length (filter ((\<noteq>) 0) (map (bytes_allocated 8) t)))"
    for t :: "addr self_vec list" and i v
    using filter_update_le [of "(\<noteq>) 0" "map (bytes_allocated 8) t" i "bytes_allocated 8 v"] by (simp only: map_update)
  have z: "length (filter ((\<noteq>) 0) (map (bytes_allocated 8) (replicate m (new_vec :: addr self_vec)))) = 0" for m by (simp add: b)
  have c: "length (filter ((\<noteq>) 0) (map (bytes_allocated 8) ((replicate m (new_vec :: addr self_vec))[i := v]))) \<le> 1" for m i v
    using up [of "replicate m new_vec" i v] z [of m] by simp
  have l: "length (filter ((\<noteq>) 0) (map (bytes_allocated 8) ((replicate m (new_vec :: addr self_vec))[i := v, j := v']))) \<le> 2" for m i j v v'
    using up [of "(replicate m new_vec)[i := v]" j v'] c [of m i v] by simp
  show ?thesis
    using c [of COMMON_SIZE_TABLE_LEN 7 "page_vec []"] c [of COMMON_SIZE_TABLE_LEN 7 "chunk_one 4352 65536"]
      l [of REAL_NUMBER_OF_LARGE_OBJECT_VECTORS 5 "chunk_one 4416 1048576" 15 "chunk_one 4480 2097152"] z [of REAL_NUMBER_OF_LARGE_OBJECT_VECTORS]
    by (simp add: own_sizes_def page_world_def chunked_inner_def new_inner_def new_chunk_manager_def bytes_new_vec del: filter_map length_map map_update)
qed

lemma chunked_refuses:
  "try_free_all_memory lone_env lone_end 0 (page_world chunked_inner 8192 []) = Some (False, page_world chunked_inner 8192 [])"
proof -
  let ?w = "page_world chunked_inner 8192 []"
  let ?ns = "own_sizes (size_of_nlpm lone_env) (inner ?w)"
  have chunks: "common_chunk_table (inner ?w) = Some (4608, (replicate COMMON_SIZE_TABLE_LEN new_vec)[7 := chunk_one 4352 65536])"
    "common_object_table (inner ?w) ! 7 = page_vec []"
    by (simp_all add: page_world_def chunked_inner_def layout_simps)
  have m: "allocated_large_sizes (inner ?w) = new_map" "size_of_nlpm lone_env \<noteq> 0"
    by (simp_all add: page_world_def chunked_inner_def new_inner_def lone_env_def)
  have "length (filter ((\<noteq>) 0) ?ns) < 100" using chunked_few [of "size_of_nlpm lone_env"] by simp
  then obtain u where "allocated_for_self (size_of_nlpm lone_env) [] (inner ?w) = Some u" "used_ready (length (filter ((\<noteq>) 0) ?ns)) u"
    by (rule few_own_sizes [OF m])
  with chunked_few [of "size_of_nlpm lone_env"] have u: "allocated_for_self (size_of_nlpm lone_env) [] (inner ?w) = Some u" "used_ok u" "used_count u 64 \<le> 12"
    by (auto simp: used_ready_def intro: le_trans)
  let ?e = "chunk_entry u COMMON_CHUNK_SIZE 64 (chunk_one 4352 65536) (page_vec [])"
  have "objects_used ?e = 1024"
    by (simp add: chunk_entry_def chunk_one_def page_vec_def vec_len_def layout_simps)
  moreover have "allocated_for_self_objects ?e \<le> 12" using u(3) by (simp add: chunk_entry_def Let_def)
  ultimately have "\<not> settled_entry (Common, ?e)" by (simp add: settled_entry_def)
  moreover have "(Common, ?e) \<in> set (entries (inner ?w) u)"
    using chunks by (auto simp: entries_def common_entries_def layout_simps intro!: image_eqI [of _ _ 7])
  moreover have may: "may_ask (inner ?w)"
    by (simp add: may_ask_def tables_full_def page_world_def chunked_inner_def new_inner_def)
  ultimately show ?thesis
    using try_free_cases [OF may, of lone_env lone_end u 0] u by (auto simp: lone_end_def)
qed

theorem thread_end_keeps_blocks_witness:
  "\<exists>w. use_allocator lone_env 1 [Request 64, Request 64, Release 1, Request 60] ([], page_world chunked_inner 8192 [4096, 4160])
      = Some ([(4160, 60), (4096, 64)], w)
    \<and> try_free_all_memory lone_env lone_end 0 w = Some (False, w) \<and> block_range (4160, 60) \<subseteq> kern (os (proc w))"
proof -
  let ?w = "page_world chunked_inner 8192 []"
  have pos: "\<forall>sz. Request sz \<in> set [Request 64, Request 64, Release 1, Request 60] \<longrightarrow> 0 < sz" by simp
  have own: "self_allocated_memory lone_end (nl ?w) = []" by (simp add: lone_end_def)
  have l: "lengths_fit (inner ?w)"
    by (auto simp: lengths_fit_def page_world_def chunked_inner_def vec_len_def chunk_one_def new_vec_def dest!: set_update_subset_insert [THEN subsetD])
  have n: "nodes_fit ?w"
    by (simp add: nodes_fit_def nodes_counted_def of_size_def page_world_def chunked_inner_def new_inner_def block_ones_def)
  from thread_end_keeps_blocks [OF chunked_accounts chunked_covers pos page_run own l n chunked_refuses] page_run chunked_refuses
  show ?thesis by auto
qed

end
