(* ===== verification/Spec2Isabelle.thy ===== *)
theory Spec2Isabelle
  imports Sizes SizeTables Limit OsMem OsVec Region Interfaces SelfList NonLocal UsedObjects SelfVec ChunkManager ExtraLarge
    SelfAllocState StateOwner BNode BTreeMap BTreeNav BTreeRemove BTreeRange ThreadLocal SelfAlloc ObjectSizes LocalObjects
    BTreeAlloc Ownership OwnRegions OwnVectors OwnObjects OwnSlowPaths OwnChains OwnBlocks OwnHandleState ThreadOwner
    Statistics Destructor Balance BalanceObjects BalancePaths BalanceChains BalanceBlocks BalanceState ThreadBalance
    ThreadEnd ThreadLife
begin

text \<open>
  A model of memalart, a thread-local memory allocator (Rust, \<open>src/src\<close>), on a 64-bit target.

  \<^bold>\<open>The program.\<close> Every thread has an allocator. Requests are classed as common (up to 1 KB), large (up
  to 100 KB) or extra large. Extra-large ones are mapped one by one. The others are objects cut
  from chunks (64 KB and 512 KB), which are cut from regions of 32 MB aligned to their size, which
  are mapped from the system within a global limit. Free objects wait in one vector per size; the
  vectors, and the B-tree map that counts the extra-large sizes, live in memory of the allocator
  itself (trait \<open>AllocatorForSelfAllocations\<close>), which can therefore re-enter while it grows them. The
  first common chunk of a region holds one metadata cell per common chunk, which names the manager
  of the owning thread; an object freed by another thread goes back to its owner over a lock-free
  list.

  \<^bold>\<open>Theories and sources.\<close>
  \<^item> \<open>Prelude\<close>: addresses and sizes as natural numbers, the bit operations of \<open>usize\<close>, byte ranges.
  \<^item> \<open>Interfaces\<close>: the contracts several components keep, as locales: \<open>lifo\<close> (interpreted by
    \<open>SelfList\<close> and \<open>SelfVec\<close>) and \<open>counter\<close> (interpreted by \<open>UsedObjects\<close> and \<open>ExtraLarge\<close>). A third
    locale, \<open>counting_allocator\<close>, is in \<open>SelfVec\<close>, with the allocator of the tests as its model.
    \<open>chain_owner\<close>, \<open>node_keeper\<close>, \<open>owning\<close>, \<open>environment\<close> and \<open>balanced\<close> are named below.
  \<^item> \<open>Sizes\<close>, \<open>SizeTables\<close>, \<open>ObjectSizes\<close>: \<open>sizes/*.rs\<close>. Size classes, the slot of a size, the published
    tables, proved against the loops that generate them.
  \<^item> \<open>Limit\<close>: \<open>limit.rs\<close>. The atomic counter, as functions and cut at its atomic steps; threads that run
    every operation of the file in any interleaving (\<open>lstep\<close>).
  \<^item> \<open>OsMem\<close>, \<open>OsVec\<close>: \<open>os/unix.rs\<close>, \<open>os/vec.rs\<close>. Mapping with and without huge pages, aligned blocks,
    vectors in system memory. The kernel and the constants of \<open>libc\<close> are parameters; \<open>kernel_ok\<close> and
    \<open>libc_ok\<close> (and \<open>access_ok\<close>, which bytes can be read and written) state what the manual pages promise,
    and the witnesses use concrete kernels.
  \<^item> \<open>Region\<close>: \<open>region.rs\<close>. Regions, their chunks, the arithmetic of the metadata cells.
  \<^item> \<open>SelfAllocState\<close>: the type \<open>State\<close> of \<open>thread_local_self_alloc_impl.rs\<close>: memory for the
    allocator's own structures taken straight from regions. \<open>StateOwner\<close> proves, in the locale
    \<open>chain_owner\<close>, that every operation of the chain moves ownership without duplicating a byte, for
    any source of regions that promises fresh ones.
  \<^item> \<open>SelfVec\<close>: \<open>self_vec.rs\<close> and the trait of \<open>allocator_for_self_allocations.rs\<close>, over a world that
    contains the vector, so that re-entrant allocators are covered.
  \<^item> \<open>SelfList\<close>: \<open>allocated_in_self_list.rs\<close> and \<open>extra_large_handler/buddy.rs\<close>.
  \<^item> \<open>NonLocal\<close>: \<open>non_local_ptr_manager/*.rs\<close>. The lock-free lists at their atomic steps.
  \<^item> \<open>UsedObjects\<close>: \<open>numbers_of_used_objects_with_size.rs\<close>.
  \<^item> \<open>ChunkManager\<close>: \<open>chunk_manager.rs\<close>.
  \<^item> \<open>ExtraLarge\<close>: \<open>alloc_extra_large\<close> and \<open>dealloc_extra_large\<close> of \<open>thread_local_allocator.rs\<close>,
    over an environment \<open>xl_env\<close> that names the allocator of the map's nodes and where the limit and
    the memory of the process are in the world.
  \<^item> \<open>BNode\<close>, \<open>BTreeMap\<close>, \<open>BTreeNav\<close>, \<open>BTreeRemove\<close>, \<open>BTreeRange\<close>: \<open>self_allocated_structs/btree/*.rs\<close>. Nodes as trees
    of key, value and edge lists, handles as a node with the path to it; search, insertion with
    splitting, removal with merging and stealing, the double-ended iterator, the range between two bounds.
  \<^item> \<open>ThreadLocal\<close>, \<open>SelfAlloc\<close>: \<open>thread_local_allocator.rs\<close> and the trait implementation of
    \<open>thread_local_self_alloc_impl.rs\<close>. One world holds the fields of \<open>Inner\<close>, the process, the metadata
    cells, the state that is built while the tables grow, and the memory of the map's nodes. The
    code's operations call each other through the vectors: a vector that grows asks \<open>self_alloc\<close>, which
    may fill a vector that grows. \<open>ThreadLocal\<close> therefore takes the four entry points of the trait as
    a record \<open>tla_ops\<close>, \<open>SelfAlloc\<close> defines their bodies over such a record, and \<open>allocator_at E n\<close> ties the
    knot for \<open>n\<close> nested calls and \<open>n\<close> rounds of every loop; \<open>None\<close> is a panic, an unreachable branch
    or a computation that needs more. \<open>try_alloc\<close> and \<open>dealloc\<close> are the entry points at a depth.
    \<open>LocalObjects\<close> proves about them what does not depend on the depth.
  \<^item> \<open>Ownership\<close>: who owns which bytes, over the whole world of a thread. \<open>bytes\<close> counts for every address
    in how many places it may be handed out or is used; the invariant \<open>own\<close> says that this is at most
    one, at mapped addresses only, and that a region has no more bytes counted than its chunks in use
    account for. \<open>OwnRegions\<close>, \<open>OwnVectors\<close>, \<open>OwnObjects\<close>, \<open>OwnSlowPaths\<close>, \<open>OwnChains\<close>, \<open>OwnBlocks\<close> and
    \<open>OwnHandleState\<close> go through every operation of \<open>ThreadLocal\<close> and \<open>SelfAlloc\<close>. They work in the locale
    \<open>owning\<close>, what the four entry points promise each other; \<open>ThreadOwner\<close> interprets it for every depth
    and states the result for a thread. \<open>BTreeAlloc\<close> (locale \<open>node_keeper\<close>) carries what the node
    allocator keeps through insertion and removal.
  \<^item> \<open>Statistics\<close>: \<open>info_for_size.rs\<close>, \<open>stats/*.rs\<close> and the snapshot functions of
    \<open>thread_local_allocator.rs\<close>. The chained iterator over the tables of all classes with its size hint,
    the sums printed from it, \<open>allocated_for_self\<close> and the snapshot with its array of entries.
  \<^item> \<open>Destructor\<close>: the end of a thread. \<open>try_free_all_memory\<close>, \<open>destructor\<close> and
    \<open>move_to_another_thread\<close> of \<open>thread_local_allocator.rs\<close>, and the \<open>GlobalAlloc\<close> functions of \<open>tls.rs\<close>.
  \<^item> \<open>Balance\<close>, \<open>BalanceObjects\<close>, \<open>BalancePaths\<close>, \<open>BalanceChains\<close>, \<open>BalanceBlocks\<close>, \<open>BalanceState\<close>: how many
    objects there are. \<open>slack\<close> is, for every size, the number of objects cut from all chunks less those that
    are free, that hold the allocator's own structures, or that are on their way home. Every operation
    keeps it, up to the objects it hands out or takes back (\<open>earns\<close>): the locale \<open>balanced\<close>, over the locale
    \<open>environment\<close> of the parameters, is again what the four entry points promise each other.
    \<open>ThreadBalance\<close> gives it for every depth and for a thread: the slack never falls below the number of
    blocks it holds (\<open>covers\<close>).
  \<^item> \<open>ThreadEnd\<close>, \<open>ThreadLife\<close>: the count that \<open>try_free_all_memory\<close> makes is at least that of \<open>slack\<close>, so when it
    finds nothing in use the thread holds no object of a chunk.

  \<^bold>\<open>What is shown.\<close> Of the whole: that the blocks a thread holds never overlap, that the allocator
  uses none of their bytes itself, and that the end of the thread unmaps none of them. Per component: that tables and fast paths agree with the functions they
  replace; that in every interleaving what \<open>may_allocate\<close> grants stays within the limits that were set
  (\<open>allocate_any_way\<close> counts beside it without asking, and the sums must stay below \<open>2\<^sup>6\<^sup>4\<close>); that
  mapping, growing and dropping balance; that chunks and metadata cells of a region do not overlap; that the blocks handed out
  from a chain of states are disjoint; that the map operations are those of a finite map and keep
  the tree well-formed; that a pointer freed remotely is delivered at most once and to its owner;
  that a region is unmapped exactly when its last chunk was given back; that the statistics visit every
  size once; which counts decide whether the memory of a thread is freed at its end, and that then all
  its regions or chunks in use go. The theorems named after
  a defect (for instance \<open>large_chunk_lost\<close>, \<open>reserve_huge_never_returns\<close>) show behaviour the code
  does not intend.

  \<^bold>\<open>Numbers, errors, loops.\<close> \<open>usize\<close> and pointers are natural numbers; where a sum or product may
  wrap, the reduction is written out (\<open>u32\<close>, \<open>mod 2 ^ 64\<close>) or the type is a word (\<open>Limit\<close>,
  \<open>common_size_to_index\<close>). Panics and branches declared unreachable are \<open>None\<close> or \<open>Panic\<close>; \<open>Err\<close> is a
  value of its own. Loops that the code does not bound run on fuel: in \<open>SelfAllocState\<close> two more
  than the length of the chain is enough (\<open>alloc_size_total\<close>); in \<open>SelfVec\<close> one round is enough
  without re-entrancy (\<open>reserve_makes_room\<close>), and \<open>reserve_huge_never_returns\<close> shows a request for
  which none is.

  The theorems about a thread speak of the runs that return at a given depth; how deep the calls of a run
  nest is not computed, and the witnesses give runs that are answered. The size hint
  of the statistics is exact for tables that all exist, and \<open>iteration_bound\<close> rounds end the loop over
  them.

  \<^bold>\<open>Not modelled.\<close> Boxes of self-allocated values; bulk building and dying iteration of
  the B-tree, which are taken over from the standard library; the registration of the destructor with
  \<open>pthread\<close> and thread creation, NUMA and shared memory, which only call the system; formatting of
  statistics. Memory orderings are taken as sequentially consistent. Contents of user memory are not
  modelled.
\<close>

end
